(* ===== verification/Prelude.thy ===== *)
theory Prelude
  imports Main "HOL-Library.Word" "HOL-Library.Sublist"
begin

text \<open>
  Shared vocabulary of the development: byte strings, little-endian integers (the source's
  \<^verbatim>\<open>to_le_bytes\<close> and \<^verbatim>\<open>from_le_bytes\<close>), results (\<open>Inl\<close> carries the error message of
  an early return, \<open>Inr\<close> the value), and the generic list and quorum lemmas the component
  theories use.  Log positions (LSNs), terms and sequence numbers are \<^verbatim>\<open>u64\<close> values in the
  source; they are natural numbers here, and the byte encodings reduce them modulo
  \<open>2 ^ 64\<close> explicitly.
\<close>

type_synonym byte = "8 word"
type_synonym bytes = "byte list"
type_synonym lsn = nat
type_synonym 'a result = "string + 'a"

named_theorems consensus_simps \<open>rewrite rules of the consensus core (term histories and logs)\<close>
named_theorems codec_simps \<open>rewrite rules of the byte encodings\<close>

section \<open>Little-endian integers\<close>

primrec le_bytes :: "nat \<Rightarrow> nat \<Rightarrow> bytes" where
  "le_bytes 0 n = []"
| "le_bytes (Suc k) n = word_of_nat n # le_bytes k (n div 256)"

primrec le_nat :: "bytes \<Rightarrow> nat" where
  "le_nat [] = 0"
| "le_nat (b # bs) = unat b + 256 * le_nat bs"

lemma length_le_bytes [simp]: "length (le_bytes k n) = k"
  by (induction k arbitrary: n) auto

lemma unat_byte_of_nat: "unat (word_of_nat n :: byte) = n mod 256"
  by (simp add: unat_of_nat)

lemma le_nat_le_bytes_mod: "le_nat (le_bytes k n) = n mod 256 ^ k"
proof (induction k arbitrary: n)
  case 0
  then show ?case by simp
next
  case (Suc k)
  have "n mod (256 * 256 ^ k) = 256 * (n div 256 mod 256 ^ k) + n mod 256"
    by (rule mod_mult2_eq)
  with Suc show ?case by (simp add: unat_byte_of_nat)
qed

lemma le_nat_le_bytes [simp, codec_simps]: "n < 256 ^ k \<Longrightarrow> le_nat (le_bytes k n) = n"
  by (simp add: le_nat_le_bytes_mod)

lemma le_nat_bound: "le_nat bs < 256 ^ length bs"
proof (induction bs)
  case Nil
  then show ?case by simp
next
  case (Cons b bs)
  have "unat b < 256" using unsigned_less [of b] by simp
  with Cons show ?case by simp
qed

lemma le_bytes_le_nat [codec_simps]: "length bs = k \<Longrightarrow> le_bytes k (le_nat bs) = bs"
proof (induction bs arbitrary: k)
  case Nil
  then show ?case by simp
next
  case (Cons b bs)
  have b: "unat b < 256" using unsigned_less [of b] by simp
  from Cons.prems obtain j where j: "k = Suc j" "length bs = j" by (cases k) auto
  have "(word_of_nat (unat b + 256 * le_nat bs) :: byte) = b"
  proof (rule word_unat_eq_iff [THEN iffD2])
    show "unat (word_of_nat (unat b + 256 * le_nat bs) :: byte) = unat b"
      using b by (simp only: unat_byte_of_nat) simp
  qed
  with b j Cons.IH [of j] show ?case by simp
qed

section \<open>Results\<close>

text \<open>The \<^verbatim>\<open>?\<close> operator: continue with the value, return the error early.\<close>

definition rbind :: "'a result \<Rightarrow> ('a \<Rightarrow> 'b result) \<Rightarrow> 'b result" where
  "rbind r f = (case r of Inl e \<Rightarrow> Inl e | Inr x \<Rightarrow> f x)"

definition ok_or :: "'a option \<Rightarrow> string \<Rightarrow> 'a result" where
  "ok_or x e = (case x of None \<Rightarrow> Inl e | Some v \<Rightarrow> Inr v)"

text \<open>\<^verbatim>\<open>collect\<close> into a result: the values, or the first error.\<close>

fun collect_results :: "('a result) list \<Rightarrow> ('a list) result" where
  "collect_results [] = Inr []"
| "collect_results (r # rs) = rbind r (\<lambda>x. rbind (collect_results rs) (\<lambda>xs. Inr (x # xs)))"

lemma rbind_simps [simp]: "rbind (Inl e) f = Inl e" "rbind (Inr x) f = f x"
  by (simp_all add: rbind_def)

lemma rbind_Inr_conv: "rbind r f = Inr y \<longleftrightarrow> (\<exists>x. r = Inr x \<and> f x = Inr y)"
  by (cases r) simp_all

lemma ok_or_simps [simp]: "ok_or None e = Inl e" "ok_or (Some v) e = Inr v"
  by (simp_all add: ok_or_def)

section \<open>Lists\<close>

lemma take_append_exact [simp]: "length xs = n \<Longrightarrow> take n (xs @ ys) = xs"
  by auto

lemma drop_append_exact [simp]: "length xs = n \<Longrightarrow> drop n (xs @ ys) = ys"
  by auto

lemma nth_drop_take_slice:
  "q < b - a \<Longrightarrow> b \<le> length xs \<Longrightarrow> take (b - a) (drop a xs) ! q = xs ! (a + q)"
  by simp

lemma in_set_drop_nth:
  assumes "e \<in> set (drop k xs)"
  obtains j where "k \<le> j" "j < length xs" "e = xs ! j"
proof -
  from assms obtain i where "i < length (drop k xs)" "e = drop k xs ! i"
    by (auto simp: in_set_conv_nth)
  then show ?thesis using that [of "k + i"] by simp
qed

lemma in_set_take_nth:
  assumes "e \<in> set (take k xs)"
  obtains j where "j < k" "j < length xs" "e = xs ! j"
proof -
  from assms obtain i where "i < length (take k xs)" "e = take k xs ! i"
    by (auto simp: in_set_conv_nth)
  then show ?thesis using that [of i] by simp
qed

lemma take_eq_nthD: "take k xs = take k ys \<Longrightarrow> j < k \<Longrightarrow> xs ! j = ys ! j"
  by (metis nth_take)

lemma filter_eq_prefix:
  assumes "sorted_wrt (\<le>) (map f xs)"
  shows "\<exists>n. filter (\<lambda>x. f x \<le> (b::nat)) xs = take n xs"
  using assms
proof (induction xs)
  case Nil
  then show ?case by simp
next
  case (Cons x xs)
  then obtain n where n: "filter (\<lambda>x. f x \<le> b) xs = take n xs" by auto
  show ?case
  proof (cases "f x \<le> b")
    case True
    with n have "filter (\<lambda>x. f x \<le> b) (x # xs) = take (Suc n) (x # xs)" by simp
    then show ?thesis by blast
  next
    case False
    with Cons.prems have "filter (\<lambda>x. f x \<le> b) (x # xs) = take 0 (x # xs)"
      by (auto simp: filter_empty_conv)
    then show ?thesis by blast
  qed
qed

section \<open>Quorums of a three-member cluster\<close>

lemma two_of_three_intersect:
  assumes "A \<subseteq> {..<3::nat}" "B \<subseteq> {..<3}" "2 \<le> card A" "2 \<le> card B"
  shows "\<exists>i. i \<in> A \<and> i \<in> B"
proof (rule ccontr)
  assume "\<not> ?thesis"
  then have "A \<inter> B = {}" by blast
  moreover have fin: "finite A" "finite B" using assms(1,2) finite_subset by blast+
  ultimately have "card (A \<union> B) = card A + card B" by (simp add: card_Un_disjoint)
  moreover have "card (A \<union> B) \<le> card {..<3::nat}"
    using assms(1,2) by (intro card_mono) auto
  ultimately show False using assms(3,4) by simp
qed

end
