(* ===== verification/Segment.thy ===== *)
theory Segment
  imports Prelude
begin

text \<open>
  The frame layer of the durable log (\<^verbatim>\<open>icegres/src/segment.rs\<close>): every record is wrapped
  as \<open>[u32 len][u32 crc][payload]\<close>, and a log file is a concatenation of frames that may end
  in a torn frame after a power loss.  The checksum function (the crate \<^verbatim>\<open>crc32fast\<close>) is the
  parameter \<open>crc\<close>; no theorem here needs an assumption about it.

  The lemmas show that the scan inverts the framing, that a torn final frame is cut off
  without touching the frames before it, and that whatever the scan accepts really is a
  concatenation of well-formed frames.
\<close>

section \<open>Definitions\<close>

definition FRAME_HEADER_BYTES :: nat where
  "FRAME_HEADER_BYTES = 8"

definition U32_MAX :: nat where
  "U32_MAX = 4294967295"

definition check_frame_len :: "nat \<Rightarrow> string \<Rightarrow> unit result" where
  "check_frame_len len log_kind =
     (if len > U32_MAX then Inl (log_kind @ '' frame payload is over the u32 frame-length limit'')
      else Inr ())"

definition frame_bytes :: "(bytes \<Rightarrow> 32 word) \<Rightarrow> bytes \<Rightarrow> string \<Rightarrow> bytes result" where
  "frame_bytes crc payload log_kind =
     (case check_frame_len (length payload) log_kind of
        Inl e \<Rightarrow> Inl e
      | Inr _ \<Rightarrow>
          Inr (le_bytes 4 (length payload) @ le_bytes 4 (unat (crc payload)) @ payload))"

record raw_frame_scan =
  payloads :: "(nat \<times> nat) list"
  good_end :: nat
  bad :: "string option"

text \<open>The \<^verbatim>\<open>while\<close> loop of \<^verbatim>\<open>scan_frame_bytes\<close>: \<open>off\<close> is the loop's offset, \<open>acc\<close> the scan so far.\<close>

function scan_loop :: "(bytes \<Rightarrow> 32 word) \<Rightarrow> bytes \<Rightarrow> nat \<Rightarrow> raw_frame_scan \<Rightarrow> raw_frame_scan" where
  "scan_loop crc data off acc =
     (if off < length data then
        (if length data - off < FRAME_HEADER_BYTES then acc\<lparr>bad := Some ''torn header''\<rparr>
         else
           (let len = le_nat (take 4 (drop off data));
                c = le_nat (take 4 (drop (off + 4) data));
                start = off + FRAME_HEADER_BYTES
            in if length data - off - FRAME_HEADER_BYTES < len
               then acc\<lparr>bad := Some ''torn payload''\<rparr>
               else if unat (crc (take len (drop start data))) \<noteq> c
               then acc\<lparr>bad := Some ''crc mismatch''\<rparr>
               else scan_loop crc data (start + len)
                      (acc\<lparr>payloads := payloads acc @ [(start, start + len)],
                           good_end := start + len\<rparr>)))
      else acc)"
  by pat_completeness auto
termination
  by (relation "measure (\<lambda>(crc, data, off, acc). length data - off)")
     (auto simp: FRAME_HEADER_BYTES_def)

declare scan_loop.simps [simp del]

definition scan_frame_bytes :: "(bytes \<Rightarrow> 32 word) \<Rightarrow> bytes \<Rightarrow> raw_frame_scan" where
  "scan_frame_bytes crc data = scan_loop crc data 0 \<lparr>payloads = [], good_end = 0, bad = None\<rparr>"

text \<open>The bytes of one payload range of a scan.\<close>

definition range_bytes :: "bytes \<Rightarrow> nat \<times> nat \<Rightarrow> bytes" where
  "range_bytes data r = take (snd r - fst r) (drop (fst r) data)"

text \<open>Specification vocabulary: a well-formed frame, and the frames of a list of payloads.\<close>

definition frame :: "(bytes \<Rightarrow> 32 word) \<Rightarrow> bytes \<Rightarrow> bytes" where
  "frame crc p = le_bytes 4 (length p) @ le_bytes 4 (unat (crc p)) @ p"

definition frames :: "(bytes \<Rightarrow> 32 word) \<Rightarrow> bytes list \<Rightarrow> bytes" where
  "frames crc ps = concat (map (frame crc) ps)"

primrec frame_ranges :: "nat \<Rightarrow> bytes list \<Rightarrow> (nat \<times> nat) list" where
  "frame_ranges off [] = []"
| "frame_ranges off (p # ps) = (off + 8, off + 8 + length p) # frame_ranges (off + 8 + length p) ps"

section \<open>The scan inverts the framing\<close>

lemma frame_bytes_ok:
  "length p \<le> U32_MAX \<Longrightarrow> frame_bytes crc p k = Inr (frame crc p)"
  by (simp add: frame_bytes_def check_frame_len_def frame_def)

lemma frame_bytes_Inr:
  "frame_bytes crc p k = Inr f \<longleftrightarrow> length p \<le> U32_MAX \<and> f = frame crc p"
  by (auto simp: frame_bytes_def check_frame_len_def frame_def)

lemma length_frame [simp]: "length (frame crc p) = 8 + length p"
  by (simp add: frame_def)

lemma frame_nonempty [simp]: "frame crc p \<noteq> []"
  using length_frame [of crc p] by (metis add_is_0 list.size(3) zero_neq_numeral)

lemma frame_parts [simp]:
  "take 4 (frame crc p) = le_bytes 4 (length p)"
  "take 4 (drop 4 (frame crc p)) = le_bytes 4 (unat (crc p))"
  "drop 8 (frame crc p) = p"
  by (simp_all add: frame_def)

lemma frames_Nil [simp]: "frames crc [] = []"
  by (simp add: frames_def)

lemma frames_Cons [simp]: "frames crc (p # ps) = frame crc p @ frames crc ps"
  by (simp add: frames_def)

lemma frames_append: "frames crc (ps @ qs) = frames crc ps @ frames crc qs"
  by (simp add: frames_def)

lemma u32_lt: "n \<le> U32_MAX \<Longrightarrow> n < 256 ^ 4"
  by (simp add: U32_MAX_def)

lemma u32_word_lt: "unat (w :: 32 word) < 256 ^ 4"
  using unsigned_less [of w] by simp

text \<open>One iteration on a buffer whose next frame is intact.\<close>

lemma scan_loop_frame:
  assumes "length pre = off" "length p \<le> U32_MAX"
  shows "scan_loop crc (pre @ frame crc p @ rest) off acc =
         scan_loop crc (pre @ frame crc p @ rest) (off + 8 + length p)
           (acc\<lparr>payloads := payloads acc @ [(off + 8, off + 8 + length p)],
                good_end := off + 8 + length p\<rparr>)"
proof -
  let ?data = "pre @ frame crc p @ rest"
  have "length p < 256 ^ 4" "unat (crc p) < 256 ^ 4"
    using assms(2) by (rule u32_lt, intro u32_word_lt)
  then show ?thesis
    using assms by (subst scan_loop.simps) (simp add: FRAME_HEADER_BYTES_def Let_def)
qed

lemma scan_loop_frames:
  assumes "length pre = off" "\<forall>p\<in>set ps. length p \<le> U32_MAX"
  shows "scan_loop crc (pre @ frames crc ps @ rest) off acc =
         scan_loop crc (pre @ frames crc ps @ rest) (off + length (frames crc ps))
           (acc\<lparr>payloads := payloads acc @ frame_ranges off ps,
                good_end := (if ps = [] then good_end acc else off + length (frames crc ps))\<rparr>)"
  using assms
proof (induction ps arbitrary: pre off acc)
  case Nil
  then show ?case by simp
next
  case (Cons p ps)
  let ?acc = "acc\<lparr>payloads := payloads acc @ [(off + 8, off + 8 + length p)],
                good_end := off + 8 + length p\<rparr>"
  from Cons.prems have "scan_loop crc (pre @ frame crc p @ (frames crc ps @ rest)) off acc =
      scan_loop crc ((pre @ frame crc p) @ frames crc ps @ rest) (off + 8 + length p) ?acc"
    using scan_loop_frame [of pre off p crc "frames crc ps @ rest" acc] by simp
  also have "\<dots> = scan_loop crc ((pre @ frame crc p) @ frames crc ps @ rest)
      (off + 8 + length p + length (frames crc ps))
      (?acc\<lparr>payloads := payloads ?acc @ frame_ranges (off + 8 + length p) ps,
                good_end := (if ps = [] then good_end ?acc
                             else off + 8 + length p + length (frames crc ps))\<rparr>)"
    using Cons.prems by (intro Cons.IH) auto
  finally show ?case by (simp add: add.assoc)
qed

lemma scan_frame_bytes_frames:
  assumes "\<forall>p\<in>set ps. length p \<le> U32_MAX"
  shows "scan_frame_bytes crc (frames crc ps) =
         \<lparr>payloads = frame_ranges 0 ps, good_end = length (frames crc ps), bad = None\<rparr>"
proof -
  let ?s0 = "\<lparr>payloads = [], good_end = 0, bad = None\<rparr>"
  have "scan_loop crc ([] @ frames crc ps @ []) 0 ?s0 =
      scan_loop crc ([] @ frames crc ps @ []) (0 + length (frames crc ps))
        (?s0\<lparr>payloads := payloads ?s0 @ frame_ranges 0 ps,
             good_end := (if ps = [] then good_end ?s0 else 0 + length (frames crc ps))\<rparr>)"
    using assms by (intro scan_loop_frames) auto
  then show ?thesis
    by (simp add: scan_frame_bytes_def scan_loop.simps [of crc "frames crc ps" "length (frames crc ps)"])
qed

lemma range_bytes_frame_ranges:
  "length pre = off \<Longrightarrow> map (range_bytes (pre @ frames crc ps @ rest)) (frame_ranges off ps) = ps"
proof (induction ps arbitrary: pre off)
  case Nil
  then show ?case by simp
next
  case (Cons p ps)
  have "map (range_bytes ((pre @ frame crc p) @ frames crc ps @ rest))
          (frame_ranges (off + 8 + length p) ps) = ps"
    using Cons.prems by (intro Cons.IH) simp
  moreover have "range_bytes (pre @ frame crc p @ frames crc ps @ rest) (off + 8, off + 8 + length p) = p"
    using Cons.prems by (simp add: range_bytes_def frame_def)
  ultimately show ?case by simp
qed

section \<open>Torn writes\<close>

text \<open>A proper, non-empty prefix of a frame is never accepted.\<close>

lemma scan_loop_torn:
  assumes "length pre = off" "length p \<le> U32_MAX" "0 < k" "k < 8 + length p"
  shows "\<exists>why. scan_loop crc (pre @ take k (frame crc p)) off acc = acc\<lparr>bad := Some why\<rparr>"
proof (cases "k < 8")
  case True
  then have "scan_loop crc (pre @ take k (frame crc p)) off acc = acc\<lparr>bad := Some ''torn header''\<rparr>"
    using assms by (subst scan_loop.simps) (simp add: FRAME_HEADER_BYTES_def)
  then show ?thesis by blast
next
  case False
  let ?data = "pre @ take k (frame crc p)"
  have "take 4 (take k (frame crc p)) = le_bytes 4 (length p)"
    using False by (simp add: frame_def min_def)
  moreover have "length p < 256 ^ 4" using assms(2) by (rule u32_lt)
  ultimately have "scan_loop crc ?data off acc = acc\<lparr>bad := Some ''torn payload''\<rparr>"
    using False assms by (subst scan_loop.simps) (simp add: FRAME_HEADER_BYTES_def Let_def)
  then show ?thesis by blast
qed

text \<open>
  A log whose last append was torn by a crash: the scan reports exactly the frames that were
  completely written, and its truncation target is their end.
\<close>

lemma scan_torn_tail:
  assumes "\<forall>p\<in>set ps. length p \<le> U32_MAX" "length p \<le> U32_MAX" "0 < k" "k < length (frame crc p)"
  shows "\<exists>why. scan_frame_bytes crc (frames crc ps @ take k (frame crc p)) =
         \<lparr>payloads = frame_ranges 0 ps, good_end = length (frames crc ps), bad = Some why\<rparr>"
proof -
  let ?s0 = "\<lparr>payloads = [], good_end = 0, bad = None\<rparr>"
  let ?tail = "take k (frame crc p)"
  let ?s1 = "\<lparr>payloads = frame_ranges 0 ps, good_end = length (frames crc ps), bad = None\<rparr>"
  have "scan_loop crc ([] @ frames crc ps @ ?tail) 0 ?s0 =
      scan_loop crc ([] @ frames crc ps @ ?tail) (0 + length (frames crc ps))
        (?s0\<lparr>payloads := payloads ?s0 @ frame_ranges 0 ps,
             good_end := (if ps = [] then good_end ?s0 else 0 + length (frames crc ps))\<rparr>)"
    using assms by (intro scan_loop_frames) auto
  then have "scan_frame_bytes crc (frames crc ps @ ?tail) =
      scan_loop crc (frames crc ps @ ?tail) (length (frames crc ps)) ?s1"
    by (simp add: scan_frame_bytes_def)
  with scan_loop_torn [of "frames crc ps" "length (frames crc ps)" p k crc ?s1] assms
  show ?thesis by auto
qed

section \<open>What the scan accepts\<close>

definition scan_sound :: "(bytes \<Rightarrow> 32 word) \<Rightarrow> bytes \<Rightarrow> raw_frame_scan \<Rightarrow> bool" where
  "scan_sound crc data s \<longleftrightarrow>
     good_end s \<le> length data \<and>
     frames crc (map (range_bytes data) (payloads s)) = take (good_end s) data \<and>
     payloads s = frame_ranges 0 (map (range_bytes data) (payloads s))"

lemma frame_ranges_snoc:
  "frame_ranges off (ps @ [p]) =
     frame_ranges off ps @
       [(off + length (frames crc ps) + 8, off + length (frames crc ps) + 8 + length p)]"
  by (induction ps arbitrary: off) auto

lemma take_split_header:
  assumes "off + 8 + n \<le> length data"
  shows "take (off + 8 + n) data =
    take off data @ take 4 (drop off data) @ take 4 (drop (off + 4) data) @ take n (drop (off + 8) data)"
proof -
  have "take (off + 8 + n) data = take off data @ take (8 + n) (drop off data)"
    by (simp add: take_add add.assoc)
  also have "take (8 + n) (drop off data) = take 4 (drop off data) @ take (4 + n) (drop 4 (drop off data))"
    using take_add [of 4 "4 + n" "drop off data"] by simp
  also have "take (4 + n) (drop 4 (drop off data)) =
      take 4 (drop 4 (drop off data)) @ take n (drop 4 (drop 4 (drop off data)))"
    by (simp add: take_add)
  finally show ?thesis by (simp add: add.commute)
qed

lemma scan_loop_sound:
  assumes "scan_sound crc data acc" "good_end acc = off" "bad acc = None"
  shows "scan_sound crc data (scan_loop crc data off acc) \<and>
         (bad (scan_loop crc data off acc) = None \<longrightarrow>
            good_end (scan_loop crc data off acc) = length data)"
  using assms
proof (induction crc data off acc rule: scan_loop.induct)
  case (1 crc data off acc)
  let ?len = "le_nat (take 4 (drop off data))"
  let ?c = "le_nat (take 4 (drop (off + 4) data))"
  let ?p = "take ?len (drop (off + 8) data)"
  let ?acc = "acc\<lparr>payloads := payloads acc @ [(off + 8, off + 8 + ?len)], good_end := off + 8 + ?len\<rparr>"
  consider (finish) "\<not> off < length data"
    | (torn) "off < length data" "length data - off < 8"
    | (short) "off < length data" "\<not> length data - off < 8" "length data - off - 8 < ?len"
    | (crc) "off < length data" "\<not> length data - off < 8" "\<not> length data - off - 8 < ?len"
        "unat (crc ?p) \<noteq> ?c"
    | (ok) "off < length data" "\<not> length data - off < 8" "\<not> length data - off - 8 < ?len"
        "unat (crc ?p) = ?c"
    by blast
  then show ?case
  proof cases
    case finish
    with "1.prems" show ?thesis
      by (simp add: scan_loop.simps [of crc data off acc]) (simp add: scan_sound_def)
  next
    case torn
    with "1.prems" show ?thesis
      by (auto simp: scan_loop.simps [of crc data off acc] scan_sound_def FRAME_HEADER_BYTES_def)
  next
    case short
    with "1.prems" show ?thesis
      by (auto simp: scan_loop.simps [of crc data off acc] scan_sound_def FRAME_HEADER_BYTES_def Let_def)
  next
    case crc
    with "1.prems" show ?thesis
      by (auto simp: scan_loop.simps [of crc data off acc] scan_sound_def FRAME_HEADER_BYTES_def Let_def)
  next
    case ok
    have fits: "off + 8 + ?len \<le> length data" using ok by linarith
    have fr: "frame crc ?p = take 4 (drop off data) @ take 4 (drop (off + 4) data) @ ?p"
      using ok fits by (simp add: frame_def le_bytes_le_nat)
    have sl: "range_bytes data (off + 8, off + 8 + ?len) = ?p" by (simp add: range_bytes_def)
    have sound: "frames crc (map (range_bytes data) (payloads acc)) = take off data"
      and rng: "payloads acc = frame_ranges 0 (map (range_bytes data) (payloads acc))"
      using "1.prems" by (auto simp: scan_sound_def)
    have "length (frames crc (map (range_bytes data) (payloads acc))) = off"
      using sound fits by simp
    then have "frame_ranges 0 (map (range_bytes data) (payloads acc) @ [?p]) =
        payloads acc @ [(off + 8, off + 8 + ?len)]"
      using rng fits by (simp add: frame_ranges_snoc [where crc = crc])
    moreover have "frames crc (map (range_bytes data) (payloads acc) @ [?p]) = take (off + 8 + ?len) data"
      using sound fr take_split_header [OF fits] by (simp add: frames_append)
    ultimately have "scan_sound crc data ?acc"
      using fits sl by (simp add: scan_sound_def)
    then have "scan_sound crc data (scan_loop crc data (off + 8 + ?len) ?acc) \<and>
         (bad (scan_loop crc data (off + 8 + ?len) ?acc) = None \<longrightarrow>
            good_end (scan_loop crc data (off + 8 + ?len) ?acc) = length data)"
      using ok "1.IH" [OF _ _ refl refl refl] "1.prems" by (simp add: FRAME_HEADER_BYTES_def)
    then show ?thesis
      using ok by (simp add: scan_loop.simps [of crc data off acc] FRAME_HEADER_BYTES_def Let_def)
  qed
qed

lemma scan_frame_bytes_sound:
  "scan_sound crc data (scan_frame_bytes crc data)"
  "bad (scan_frame_bytes crc data) = None \<Longrightarrow> good_end (scan_frame_bytes crc data) = length data"
  using scan_loop_sound [of crc data "\<lparr>payloads = [], good_end = 0, bad = None\<rparr>" 0]
  by (auto simp: scan_frame_bytes_def scan_sound_def)

end
