(* ===== verification/Proto.thy ===== *)
theory Proto
  imports Segment
begin

text \<open>
  The consensus core types and the record codec of \<^verbatim>\<open>icegres/src/quorum/proto.rs\<close>: term
  histories, the divergence point of two histories, and the log records that are wrapped in
  the frames of \<^verbatim>\<open>Segment\<close>.  The lemmas show that the divergence point is the highest
  position below which two histories attribute every log byte to the same term, and that
  record streams decode to what was encoded.
\<close>

section \<open>Term histories\<close>

record term_lsn =
  tl_term :: nat
  tl_lsn :: lsn

type_synonym term_history = "term_lsn list"

definition up_to :: "term_history \<Rightarrow> lsn \<Rightarrow> term_history" where
  "up_to h lsn = filter (\<lambda>e. tl_lsn e \<le> lsn) h"

definition last_log_term :: "term_history \<Rightarrow> lsn \<Rightarrow> nat" where
  "last_log_term h flush_lsn =
     (let u = up_to h flush_lsn in if u = [] then 0 else tl_term (last u))"

text \<open>The index loop shared by \<^verbatim>\<open>find_highest_common_point\<close> and the proposer's mirror of it.\<close>

fun last_common_idx :: "term_history \<Rightarrow> term_history \<Rightarrow> nat \<Rightarrow> nat option \<Rightarrow> (nat option) result" where
  "last_common_idx (p # ps) (s # ss) i acc =
     (if tl_term p \<noteq> tl_term s then Inr acc
      else if tl_lsn p \<noteq> tl_lsn s then Inl ''term histories disagree on the start of term''
      else last_common_idx ps ss (Suc i) (Some i))"
| "last_common_idx _ _ i acc = Inr acc"

definition find_highest_common_point ::
  "term_history \<Rightarrow> term_history \<Rightarrow> lsn \<Rightarrow> (term_lsn option) result" where
  "find_highest_common_point prop_th sk_th sk_wal_end =
     (if sk_th \<noteq> [] \<and> tl_lsn (last sk_th) > sk_wal_end
      then Inl ''acceptor term history end is beyond its flush position''
      else case last_common_idx prop_th sk_th 0 None of
        Inl e \<Rightarrow> Inl e
      | Inr None \<Rightarrow> Inr None
      | Inr (Some i) \<Rightarrow>
          (if i = length prop_th - 1
           then Inr (Some \<lparr>tl_term = tl_term (prop_th ! i), tl_lsn = sk_wal_end\<rparr>)
           else (let prop_end = tl_lsn (prop_th ! (i + 1));
                     sk_end = (if i + 1 < length sk_th then tl_lsn (sk_th ! (i + 1)) else sk_wal_end)
                 in Inr (Some \<lparr>tl_term = tl_term (prop_th ! i), tl_lsn = min prop_end sk_end\<rparr>))))"

section \<open>Records\<close>

definition RECORD_FRAME :: byte where
  "RECORD_FRAME = 0"

definition RECORD_WATERMARK :: byte where
  "RECORD_WATERMARK = 1"

definition LOG_KIND_LOG :: string where
  "LOG_KIND_LOG = ''log''"

text \<open>A table key is a Rust \<^verbatim>\<open>String\<close>: the list of its UTF-8 bytes.\<close>

record log_record =
  r_lsn :: lsn
  r_kind :: byte
  r_table_key :: bytes
  r_seq :: nat
  r_body :: bytes

definition record_payload :: "log_record \<Rightarrow> bytes" where
  "record_payload r =
     le_bytes 8 (r_lsn r) @ [r_kind r] @ le_bytes 4 (length (r_table_key r)) @
     r_table_key r @ le_bytes 8 (r_seq r) @ r_body r"

definition record_encode :: "(bytes \<Rightarrow> 32 word) \<Rightarrow> log_record \<Rightarrow> bytes result" where
  "record_encode crc r =
     (if length (r_table_key r) > U32_MAX then Inl ''table key over u32 bytes''
      else frame_bytes crc (record_payload r) LOG_KIND_LOG)"

text \<open>Rust's \<^verbatim>\<open>std::str::from_utf8\<close> accepts exactly the well-formed UTF-8 byte sequences.\<close>

definition cont :: "byte \<Rightarrow> bool" where
  "cont b \<longleftrightarrow> 0x80 \<le> b \<and> b \<le> 0xBF"

fun utf8_valid :: "bytes \<Rightarrow> bool" where
  "utf8_valid [] = True"
| "utf8_valid (a # r) =
     (if a \<le> 0x7F then utf8_valid r
      else if 0xC2 \<le> a \<and> a \<le> 0xDF then
        (case r of b # r1 \<Rightarrow> cont b \<and> utf8_valid r1 | _ \<Rightarrow> False)
      else if 0xE0 \<le> a \<and> a \<le> 0xEF then
        (case r of b # c # r2 \<Rightarrow>
             cont b \<and> cont c \<and> (a = 0xE0 \<longrightarrow> 0xA0 \<le> b) \<and> (a = 0xED \<longrightarrow> b \<le> 0x9F) \<and> utf8_valid r2
         | _ \<Rightarrow> False)
      else if 0xF0 \<le> a \<and> a \<le> 0xF4 then
        (case r of b # c # d # r3 \<Rightarrow>
             cont b \<and> cont c \<and> cont d \<and> (a = 0xF0 \<longrightarrow> 0x90 \<le> b) \<and> (a = 0xF4 \<longrightarrow> b \<le> 0x8F) \<and>
             utf8_valid r3
         | _ \<Rightarrow> False)
      else False)"

definition decode_record_payload :: "bytes \<Rightarrow> log_record result" where
  "decode_record_payload p =
     (if length p < 13 then Inl ''record payload is shorter than its header''
      else
        (let lsn = le_nat (take 8 p); kind = p ! 8 in
         if kind \<noteq> RECORD_FRAME \<and> kind \<noteq> RECORD_WATERMARK then Inl ''unknown record kind''
         else
           (let key_len = le_nat (take 4 (drop 9 p)) in
            if length p < 13 + key_len + 8
            then Inl ''record payload is torn inside its table key/seq''
            else
              (let table_key = take key_len (drop 13 p) in
               if \<not> utf8_valid table_key then Inl ''record table key is not UTF-8''
               else Inr \<lparr>r_lsn = lsn, r_kind = kind, r_table_key = table_key,
                         r_seq = le_nat (take 8 (drop (13 + key_len) p)),
                         r_body = drop (13 + key_len + 8) p\<rparr>))))"

fun decode_ranges :: "bytes \<Rightarrow> (nat \<times> nat) list \<Rightarrow> lsn \<Rightarrow> (log_record list) result" where
  "decode_ranges bytes [] pos = Inr []"
| "decode_ranges bytes (r # rs) pos =
     (case decode_record_payload (range_bytes bytes r) of
        Inl e \<Rightarrow> Inl e
      | Inr rec \<Rightarrow>
          (if r_lsn rec \<noteq> pos then Inl ''record stream discontinuity''
           else case decode_ranges bytes rs (pos + (snd r - fst r + FRAME_HEADER_BYTES)) of
                  Inl e \<Rightarrow> Inl e
                | Inr out \<Rightarrow> Inr (rec # out)))"

definition decode_records :: "(bytes \<Rightarrow> 32 word) \<Rightarrow> bytes \<Rightarrow> lsn \<Rightarrow> (log_record list) result" where
  "decode_records crc bytes expect_start =
     (let scan = scan_frame_bytes crc bytes in
      case bad scan of
        Some why \<Rightarrow> Inl (''record stream is invalid: '' @ why)
      | None \<Rightarrow> decode_ranges bytes (payloads scan) expect_start)"

section \<open>Vocabulary of the specifications\<close>

text \<open>
  A well-formed history: terms strictly increase, start positions never decrease.  Two
  histories of one cluster are compatible: a term occurring in both has the same history
  before it in both.
\<close>

definition th_wf :: "term_history \<Rightarrow> bool" where
  "th_wf h \<longleftrightarrow> sorted_wrt (<) (map tl_term h) \<and> sorted_wrt (\<le>) (map tl_lsn h)"

definition th_compat :: "term_history \<Rightarrow> term_history \<Rightarrow> bool" where
  "th_compat h1 h2 \<longleftrightarrow>
     (\<forall>i<length h1. \<forall>j<length h2.
        tl_term (h1 ! i) = tl_term (h2 ! j) \<longrightarrow> take (Suc i) h1 = take (Suc j) h2)"

text \<open>A record whose fields fit their encoded widths.\<close>

definition record_wf :: "log_record \<Rightarrow> bool" where
  "record_wf r \<longleftrightarrow> r_lsn r < 2 ^ 64 \<and> r_seq r < 2 ^ 64 \<and>
     (r_kind r = RECORD_FRAME \<or> r_kind r = RECORD_WATERMARK) \<and>
     utf8_valid (r_table_key r) \<and> length (record_payload r) \<le> U32_MAX"

text \<open>A chain of records laid out contiguously from a log position.\<close>

fun contiguous :: "lsn \<Rightarrow> log_record list \<Rightarrow> bool" where
  "contiguous pos [] = True"
| "contiguous pos (r # rs) =
     (r_lsn r = pos \<and> contiguous (pos + 8 + length (record_payload r)) rs)"

definition records_bytes :: "(bytes \<Rightarrow> 32 word) \<Rightarrow> log_record list \<Rightarrow> bytes" where
  "records_bytes crc rs = frames crc (map record_payload rs)"

lemma records_bytes_Nil [simp]: "records_bytes crc [] = []"
  by (simp add: records_bytes_def)

lemma records_bytes_Cons [simp]:
  "records_bytes crc (r # rs) = frame crc (record_payload r) @ records_bytes crc rs"
  by (simp add: records_bytes_def)

lemma records_bytes_empty_iff [simp]: "records_bytes crc rs = [] \<longleftrightarrow> rs = []"
proof (cases rs)
  case (Cons r rs')
  then have "0 < length (records_bytes crc rs)" by simp
  with Cons show ?thesis by fastforce
qed simp

section \<open>Histories as step functions\<close>

lemma up_to_subset: "set (up_to h l) \<subseteq> set h"
  by (auto simp: up_to_def)

lemma up_to_Nil [simp]: "up_to [] l = []"
  by (simp add: up_to_def)

lemma up_to_up_to [simp]: "up_to (up_to h a) b = up_to h (min a b)"
  by (auto simp: up_to_def intro!: filter_cong)

lemma up_to_append: "up_to (h1 @ h2) l = up_to h1 l @ up_to h2 l"
  by (simp add: up_to_def)

lemma up_to_prefix:
  assumes "th_wf h"
  obtains n where "up_to h l = take n h"
  using filter_eq_prefix [of tl_lsn h l] assms by (auto simp: th_wf_def up_to_def)

lemma th_wf_take: "th_wf h \<Longrightarrow> th_wf (take n h)"
  by (auto simp: th_wf_def take_map [symmetric] sorted_wrt_take)

lemma th_wf_up_to: "th_wf h \<Longrightarrow> th_wf (up_to h l)"
  by (metis th_wf_take up_to_prefix)

lemma th_wf_nth_term: "th_wf h \<Longrightarrow> i < j \<Longrightarrow> j < length h \<Longrightarrow> tl_term (h ! i) < tl_term (h ! j)"
  by (auto simp: th_wf_def sorted_wrt_iff_nth_less)

lemma th_wf_nth_lsn: "th_wf h \<Longrightarrow> i \<le> j \<Longrightarrow> j < length h \<Longrightarrow> tl_lsn (h ! i) \<le> tl_lsn (h ! j)"
  by (cases "i = j") (auto simp: th_wf_def sorted_wrt_iff_nth_less)

lemma th_wf_inj_term:
  "th_wf h \<Longrightarrow> i < length h \<Longrightarrow> j < length h \<Longrightarrow> tl_term (h ! i) = tl_term (h ! j) \<Longrightarrow> i = j"
  by (metis less_irrefl nat_neq_iff th_wf_nth_term)

text \<open>
  \<open>last_log_term h q\<close> is a step function of \<open>q\<close>: it is the term of the last entry that
  starts at or below \<open>q\<close>.
\<close>

lemma last_log_term_eq:
  assumes "th_wf h" "i < length h" "tl_lsn (h ! i) \<le> q" "i + 1 < length h \<Longrightarrow> q < tl_lsn (h ! (i + 1))"
  shows "last_log_term h q = tl_term (h ! i)"
proof -
  have "up_to h q = take (Suc i) h"
  proof -
    have "up_to (take (Suc i) h) q = take (Suc i) h"
      unfolding up_to_def
    proof (rule filter_True, rule ballI)
      fix e assume "e \<in> set (take (Suc i) h)"
      then obtain j where "j < Suc i" "e = h ! j" by (rule in_set_take_nth)
      then have "j \<le> i" "e = h ! j" by auto
      with assms(3) th_wf_nth_lsn [OF assms(1) \<open>j \<le> i\<close> assms(2)] show "tl_lsn e \<le> q" by simp
    qed
    moreover have "up_to (drop (Suc i) h) q = []"
      unfolding up_to_def
    proof (rule filter_False, rule ballI)
      fix e assume "e \<in> set (drop (Suc i) h)"
      then obtain j where j: "Suc i \<le> j" "j < length h" "e = h ! j" by (rule in_set_drop_nth)
      then have "tl_lsn (h ! (i + 1)) \<le> tl_lsn e"
        using th_wf_nth_lsn [OF assms(1), of "i + 1" j] by simp
      moreover have "q < tl_lsn (h ! (i + 1))" using assms(4) j(1,2) by linarith
      ultimately show "\<not> tl_lsn e \<le> q" by simp
    qed
    ultimately have "up_to (take (Suc i) h @ drop (Suc i) h) q = take (Suc i) h"
      by (simp only: up_to_append append_Nil2)
    then show ?thesis by (simp only: append_take_drop_id)
  qed
  then show ?thesis
    using assms(2) by (auto simp: last_log_term_def last_conv_nth)
qed

lemma last_log_term_below: "\<forall>e\<in>set h. q < tl_lsn e \<Longrightarrow> last_log_term h q = 0"
  by (auto simp: last_log_term_def up_to_def filter_empty_conv)

lemma last_log_term_up_to: "q \<le> l \<Longrightarrow> last_log_term (up_to h l) q = last_log_term h q"
  by (simp add: last_log_term_def min_def)

lemma last_log_term_append_beyond:
  "\<forall>e\<in>set h2. q < tl_lsn e \<Longrightarrow> last_log_term (h1 @ h2) q = last_log_term h1 q"
proof -
  assume "\<forall>e\<in>set h2. q < tl_lsn e"
  then have "up_to h2 q = []" by (auto simp: up_to_def filter_empty_conv)
  then show ?thesis by (simp add: last_log_term_def up_to_append)
qed

lemma last_log_term_mem:
  assumes "last_log_term h q \<noteq> 0"
  shows "\<exists>e\<in>set h. tl_term e = last_log_term h q \<and> tl_lsn e \<le> q"
proof -
  let ?u = "up_to h q"
  have u: "?u \<noteq> []" "last_log_term h q = tl_term (last ?u)"
    using assms by (auto simp: last_log_term_def Let_def split: if_splits)
  then have "last ?u \<in> set ?u" by simp
  with u show ?thesis by (auto simp: up_to_def)
qed

section \<open>The divergence point\<close>

text \<open>The loop finds the longest common prefix of the two histories, as long as they agree on starts.\<close>

lemma last_common_idx_spec:
  assumes "last_common_idx p s i acc = Inr r"
  shows "\<exists>k. k \<le> length p \<and> k \<le> length s \<and> map tl_term (take k p) = map tl_term (take k s) \<and>
             map tl_lsn (take k p) = map tl_lsn (take k s) \<and>
             (k < length p \<longrightarrow> k < length s \<longrightarrow> tl_term (p ! k) \<noteq> tl_term (s ! k)) \<and>
             r = (if k = 0 then acc else Some (i + k - 1))"
  using assms
proof (induction p s i acc rule: last_common_idx.induct)
  case (1 p ps s ss i acc)
  show ?case
  proof (cases "tl_term p \<noteq> tl_term s")
    case True
    with "1.prems" show ?thesis by (intro exI [of _ 0]) auto
  next
    case False
    with "1.prems" have eq: "tl_lsn p = tl_lsn s"
      and rec: "last_common_idx ps ss (Suc i) (Some i) = Inr r"
      by (auto split: if_splits)
    from "1.IH" [OF _ _ rec] False eq obtain k where
      "k \<le> length ps" "k \<le> length ss" "map tl_term (take k ps) = map tl_term (take k ss)"
      "map tl_lsn (take k ps) = map tl_lsn (take k ss)"
      "k < length ps \<longrightarrow> k < length ss \<longrightarrow> tl_term (ps ! k) \<noteq> tl_term (ss ! k)"
      "r = (if k = 0 then Some i else Some (Suc i + k - 1))"
      by auto
    with False eq show ?thesis by (intro exI [of _ "Suc k"]) auto
  qed
qed (auto intro: exI [of _ 0])

lemma term_lsn_map_eq:
  "map tl_term xs = map tl_term ys \<Longrightarrow> map tl_lsn xs = map tl_lsn ys \<Longrightarrow> xs = (ys :: term_history)"
proof (induction xs arbitrary: ys)
  case Nil
  then show ?case by simp
next
  case (Cons x xs)
  then show ?case by (cases ys) auto
qed

lemma last_common_idx_prefix:
  assumes "last_common_idx p s 0 None = Inr r"
  obtains k where "k \<le> length p" "k \<le> length s" "take k p = take k s"
    "k < length p \<Longrightarrow> k < length s \<Longrightarrow> tl_term (p ! k) \<noteq> tl_term (s ! k)"
    "r = (if k = 0 then None else Some (k - 1))"
proof -
  from last_common_idx_spec [OF assms] obtain k where
    k: "k \<le> length p" "k \<le> length s" "map tl_term (take k p) = map tl_term (take k s)"
      "map tl_lsn (take k p) = map tl_lsn (take k s)"
      "k < length p \<longrightarrow> k < length s \<longrightarrow> tl_term (p ! k) \<noteq> tl_term (s ! k)"
      "r = (if k = 0 then None else Some (0 + k - 1))"
    by blast
  then show ?thesis using that term_lsn_map_eq by auto
qed

lemma th_compat_Cons:
  assumes "th_compat (p # ps) (s # ss)" "th_wf (p # ps)" "th_wf (s # ss)" "tl_term p = tl_term s"
  shows "p = s" "th_compat ps ss"
proof -
  have "take (Suc 0) (p # ps) = take (Suc 0) (s # ss)"
    using assms(1,4) unfolding th_compat_def by (metis length_greater_0_conv list.distinct(1) nth_Cons_0)
  then show ps: "p = s" by simp
  show "th_compat ps ss"
    unfolding th_compat_def
  proof (intro allI impI)
    fix i j assume "i < length ps" "j < length ss" "tl_term (ps ! i) = tl_term (ss ! j)"
    then have "take (Suc (Suc i)) (p # ps) = take (Suc (Suc j)) (s # ss)"
      using assms(1) unfolding th_compat_def
      by (metis Suc_less_eq length_Cons nth_Cons_Suc)
    then show "take (Suc i) ps = take (Suc j) ss" by simp
  qed
qed

lemma th_compat_sym: "th_compat h1 h2 \<Longrightarrow> th_compat h2 h1"
  by (auto simp: th_compat_def)

text \<open>Compatible histories never trip the check for disagreeing term starts.\<close>

lemma last_common_idx_total:
  "th_compat p s \<Longrightarrow> th_wf p \<Longrightarrow> th_wf s \<Longrightarrow> \<exists>r. last_common_idx p s i acc = Inr r"
proof (induction p s i acc rule: last_common_idx.induct)
  case (1 p ps s ss i acc)
  show ?case
  proof (cases "tl_term p = tl_term s")
    case True
    with "1.prems" have "p = s" "th_compat ps ss" by (auto dest: th_compat_Cons)
    moreover have "th_wf ps" "th_wf ss" using "1.prems" by (auto simp: th_wf_def)
    ultimately show ?thesis using "1.IH" True by simp
  qed simp
qed auto

text \<open>Past the common prefix two compatible histories share no term.\<close>

lemma th_compat_disjoint_suffix:
  assumes "th_compat p s" "th_wf p" "th_wf s" "take k p = take k s"
    and "k < length p \<Longrightarrow> k < length s \<Longrightarrow> tl_term (p ! k) \<noteq> tl_term (s ! k)"
    and "k \<le> i" "i < length p" "j < length s"
  shows "tl_term (p ! i) \<noteq> tl_term (s ! j)"
proof
  assume eq: "tl_term (p ! i) = tl_term (s ! j)"
  then have tk: "take (Suc i) p = take (Suc j) s"
    using assms(1,7,8) by (auto simp: th_compat_def)
  then have "length (take (Suc i) p) = length (take (Suc j) s)" by simp
  then have "i = j" using assms(7,8) by simp
  with tk have "p ! k = s ! k"
    using assms(6) by (metis le_imp_less_Suc nth_take)
  with assms(5-8) \<open>i = j\<close> show False by auto
qed

text \<open>
  The divergence point is a common point: below it, both histories attribute every position
  to the same term, so the bytes below it are the same log.
\<close>

lemma last_log_term_common_prefix:
  assumes wf: "th_wf p" and below: "k < length p \<Longrightarrow> q < tl_lsn (p ! k)"
  shows "last_log_term p q = last_log_term (take k p) q"
proof -
  have "last_log_term (take k p @ drop k p) q = last_log_term (take k p) q"
  proof (rule last_log_term_append_beyond, rule ballI)
    fix e assume "e \<in> set (drop k p)"
    then obtain j where j: "k \<le> j" "j < length p" "e = p ! j" by (rule in_set_drop_nth)
    have "q < tl_lsn (p ! k)" using below j by simp
    also have "\<dots> \<le> tl_lsn e" using th_wf_nth_lsn [OF wf j(1,2)] j(3) by simp
    finally show "q < tl_lsn e" .
  qed
  then show ?thesis by (simp only: append_take_drop_id)
qed

lemma fhcp_agree:
  assumes res: "find_highest_common_point p s e = Inr (Some t)"
    and wf: "th_wf p" "th_wf s"
    and newest: "\<forall>x\<in>set s. tl_term x \<le> tl_term (last p)"
    and q: "q < tl_lsn t"
  shows "last_log_term p q = last_log_term s q"
proof -
  from res obtain i where idx: "last_common_idx p s 0 None = Inr (Some i)"
    and t: "tl_lsn t = (if i = length p - 1 then e else
              min (tl_lsn (p ! (i + 1))) (if i + 1 < length s then tl_lsn (s ! (i + 1)) else e))"
    by (auto simp: find_highest_common_point_def Let_def split: if_splits sum.splits option.splits)
  from idx obtain k where k: "k \<le> length p" "k \<le> length s" "take k p = take k s" "k \<noteq> 0" "i = k - 1"
    by (rule last_common_idx_prefix) (auto split: if_splits)
  show ?thesis
  proof (cases "k = length p")
    case False
    with k t q have p: "k < length p" "q < tl_lsn (p ! k)" and s: "k < length s \<Longrightarrow> q < tl_lsn (s ! k)"
      by (auto split: if_splits)
    have "last_log_term p q = last_log_term (take k p) q"
      using wf(1) p(2) by (rule last_log_term_common_prefix)
    moreover have "last_log_term s q = last_log_term (take k s) q"
      using wf(2) s by (rule last_log_term_common_prefix)
    ultimately show ?thesis using k(3) by simp
  next
    case True
    have "k = length s"
    proof (rule ccontr)
      assume "k \<noteq> length s"
      with k(2) have lt: "k < length s" by simp
      have "p ! (k - 1) = s ! (k - 1)"
        using take_eq_nthD [OF k(3), of "k - 1"] k(4) by simp
      moreover have "p \<noteq> []" using True k(4) by auto
      ultimately have "tl_term (last p) = tl_term (s ! (k - 1))"
        using True by (simp add: last_conv_nth)
      also have "\<dots> < tl_term (s ! k)" using th_wf_nth_term [OF wf(2), of "k - 1" k] lt k(4) by simp
      finally show False using newest lt by (meson leD nth_mem)
    qed
    then have "take (length p) p = take (length s) s" using k(3) True by metis
    then show ?thesis by simp
  qed
qed

text \<open>It is the highest such point: at the divergence point itself the two histories differ.\<close>

lemma last_log_term_at_or_after:
  assumes "th_wf h" "k < length h" "tl_lsn (h ! k) \<le> q"
  obtains m where "k \<le> m" "m < length h" "last_log_term h q = tl_term (h ! m)"
proof -
  obtain n where n: "up_to h q = take n h" using assms(1) by (rule up_to_prefix)
  have "h ! k \<in> set (up_to h q)" using assms by (simp add: up_to_def)
  with n have "h ! k \<in> set (take n h)" by simp
  then obtain j where "j < n" "j < length h" "h ! k = h ! j" by (rule in_set_take_nth)
  then have kn: "k < n" using th_wf_inj_term [OF assms(1,2), of j] by auto
  let ?m = "min n (length h) - 1"
  have "up_to h q \<noteq> []" using kn assms(2) n by auto
  then have "last_log_term h q = tl_term (h ! ?m)"
    using n kn assms(2) by (simp add: last_log_term_def last_conv_nth min.commute)
  moreover have "k \<le> ?m" "?m < length h" using kn assms(2) by linarith+
  ultimately show ?thesis using that by blast
qed

lemma fhcp_maximal:
  assumes res: "find_highest_common_point p s e = Inr (Some t)"
    and wf: "th_wf p" "th_wf s" and compat: "th_compat p s"
    and lt: "tl_lsn t < e"
  shows "last_log_term p (tl_lsn t) \<noteq> last_log_term s (tl_lsn t)"
proof -
  from res obtain i where idx: "last_common_idx p s 0 None = Inr (Some i)"
    and t: "tl_lsn t = (if i = length p - 1 then e else
              min (tl_lsn (p ! (i + 1))) (if i + 1 < length s then tl_lsn (s ! (i + 1)) else e))"
    by (auto simp: find_highest_common_point_def Let_def split: if_splits sum.splits option.splits)
  from idx obtain k where k: "k \<le> length p" "k \<le> length s" "take k p = take k s" "k \<noteq> 0" "i = k - 1"
    and diff: "k < length p \<Longrightarrow> k < length s \<Longrightarrow> tl_term (p ! k) \<noteq> tl_term (s ! k)"
    by (rule last_common_idx_prefix) (auto split: if_splits)
  have "k \<noteq> length p" using t lt k(5) by auto
  with k(1) have kp: "k < length p" by simp
  have eq: "p ! (k - 1) = s ! (k - 1)" using take_eq_nthD [OF k(3), of "k - 1"] k(4) by simp
  have pk: "tl_lsn (p ! (k - 1)) \<le> tl_lsn (p ! k)" using th_wf_nth_lsn [OF wf(1)] kp by simp
  have sk: "k < length s \<Longrightarrow> tl_lsn (s ! (k - 1)) \<le> tl_lsn (s ! k)" using th_wf_nth_lsn [OF wf(2)] by simp
  have disj: "tl_term (p ! m) \<noteq> tl_term (s ! n)"
    if "m < length p" "n < length s" "k \<le> m \<or> k \<le> n" for m n
    using that(3)
  proof
    assume "k \<le> m"
    then show ?thesis using th_compat_disjoint_suffix [OF compat wf k(3) diff] that by blast
  next
    assume "k \<le> n"
    then show ?thesis
      using th_compat_disjoint_suffix [OF th_compat_sym [OF compat] wf(2,1) k(3) [symmetric]] diff that
      by metis
  qed
  consider (pe) "tl_lsn t = tl_lsn (p ! k)"
    | (se) "k < length s" "tl_lsn t = tl_lsn (s ! k)" "tl_lsn t \<le> tl_lsn (p ! k)"
    using t k kp lt by (auto simp: min_def split: if_splits)
  then show ?thesis
  proof cases
    case pe
    then obtain m where m: "k \<le> m" "m < length p" "last_log_term p (tl_lsn t) = tl_term (p ! m)"
      using last_log_term_at_or_after [OF wf(1) kp, of "tl_lsn t"] by auto
    have "k - 1 < length s" "tl_lsn (s ! (k - 1)) \<le> tl_lsn t" using k pe eq pk by auto
    then obtain n where "n < length s" "last_log_term s (tl_lsn t) = tl_term (s ! n)"
      using last_log_term_at_or_after [OF wf(2), of "k - 1" "tl_lsn t"] by blast
    with m disj show ?thesis by simp
  next
    case se
    then obtain n where n: "k \<le> n" "n < length s" "last_log_term s (tl_lsn t) = tl_term (s ! n)"
      using last_log_term_at_or_after [OF wf(2), of k "tl_lsn t"] by auto
    have "k - 1 < length p" "tl_lsn (p ! (k - 1)) \<le> tl_lsn t" using k kp se sk eq by auto
    then obtain m where "m < length p" "last_log_term p (tl_lsn t) = tl_term (p ! m)"
      using last_log_term_at_or_after [OF wf(1), of "k - 1" "tl_lsn t"] by blast
    with n disj show ?thesis by simp
  qed
qed

section \<open>Record streams\<close>

lemma length_record_payload:
  "length (record_payload r) = 21 + length (r_table_key r) + length (r_body r)"
  by (simp add: record_payload_def)

lemma decode_record_payload_encode:
  assumes "record_wf r"
  shows "decode_record_payload (record_payload r) = Inr r"
proof -
  have lens: "r_lsn r < 256 ^ 8" "r_seq r < 256 ^ 8" using assms by (auto simp: record_wf_def)
  have "length (r_table_key r) \<le> U32_MAX"
    using assms by (simp add: record_wf_def length_record_payload)
  then have kl: "length (r_table_key r) < 256 ^ 4" by (rule u32_lt)
  let ?p = "record_payload r"
  have parts: "take 8 ?p = le_bytes 8 (r_lsn r)" "?p ! 8 = r_kind r"
    "take 4 (drop 9 ?p) = le_bytes 4 (length (r_table_key r))"
    "drop 13 ?p = r_table_key r @ le_bytes 8 (r_seq r) @ r_body r"
    by (simp_all add: record_payload_def nth_append)
  have drops: "drop (13 + length (r_table_key r)) ?p = le_bytes 8 (r_seq r) @ r_body r"
    "drop (21 + length (r_table_key r)) ?p = r_body r"
    using arg_cong [OF parts(4), of "drop (length (r_table_key r))"]
      arg_cong [OF parts(4), of "drop (8 + length (r_table_key r))"]
    by (simp_all add: add.commute)
  have l: "length ?p = 21 + length (r_table_key r) + length (r_body r)"
    by (rule length_record_payload)
  show ?thesis
    using assms lens kl
    by (simp add: decode_record_payload_def parts drops l record_wf_def Let_def)
qed

lemma decode_ranges_records:
  assumes "\<forall>r\<in>set rs. record_wf r" "contiguous pos rs" "length pre = off"
  shows "decode_ranges (pre @ records_bytes crc rs @ rest) (frame_ranges off (map record_payload rs)) pos
         = Inr rs"
  using assms
proof (induction rs arbitrary: pre off pos)
  case Nil
  then show ?case by simp
next
  case (Cons r rs)
  let ?p = "record_payload r"
  let ?data = "pre @ records_bytes crc (r # rs) @ rest"
  have data: "?data = (pre @ frame crc ?p) @ records_bytes crc rs @ rest"
    by (simp add: records_bytes_def)
  have "range_bytes ?data (off + 8, off + 8 + length ?p) = ?p"
    using Cons.prems by (simp add: records_bytes_def range_bytes_def)
  moreover have "decode_ranges ?data (frame_ranges (off + 8 + length ?p) (map record_payload rs))
      (pos + 8 + length ?p) = Inr rs"
    unfolding data using Cons.prems by (intro Cons.IH) auto
  ultimately show ?case
    using Cons.prems decode_record_payload_encode [of r]
    by (simp add: FRAME_HEADER_BYTES_def ac_simps)
qed

lemma decode_records_records_bytes:
  assumes "\<forall>r\<in>set rs. record_wf r" "contiguous pos rs"
  shows "decode_records crc (records_bytes crc rs) pos = Inr rs"
proof -
  have "\<forall>p\<in>set (map record_payload rs). length p \<le> U32_MAX"
    using assms(1) by (auto simp: record_wf_def)
  then have "scan_frame_bytes crc (records_bytes crc rs) =
      \<lparr>payloads = frame_ranges 0 (map record_payload rs),
       good_end = length (records_bytes crc rs), bad = None\<rparr>"
    unfolding records_bytes_def by (rule scan_frame_bytes_frames)
  with decode_ranges_records [OF assms, of "[]" 0 crc "[]"] show ?thesis
    by (simp add: decode_records_def)
qed

lemma record_encode_ok:
  "record_wf r \<Longrightarrow> record_encode crc r = Inr (frame crc (record_payload r))"
  by (simp add: record_encode_def record_wf_def length_record_payload frame_bytes_ok)

text \<open>A stream that decodes is laid out contiguously from its start position.\<close>

lemma decode_ranges_contiguous:
  assumes "decode_ranges bytes rs pos = Inr out"
  shows "length out = length rs \<and>
    (\<forall>i<length rs. r_lsn (out ! i) =
       pos + (\<Sum>r\<leftarrow>take i rs. snd r - fst r + FRAME_HEADER_BYTES))"
  using assms
proof (induction rs arbitrary: pos out)
  case Nil
  then show ?case by simp
next
  case (Cons r rs)
  then obtain x out' where x: "out = x # out'" "r_lsn x = pos"
    "decode_ranges bytes rs (pos + (snd r - fst r + FRAME_HEADER_BYTES)) = Inr out'"
    by (auto split: sum.splits if_splits)
  with Cons.IH [OF x(3)] show ?case
    by (auto simp: nth_Cons add.assoc split: nat.splits)
qed

end
