(* ===== verification/Json.thy ===== *)
theory Json
  imports Proto
begin

text \<open>
  The JSON values the control file and the message headers are built from, with the accessors
  of \<^verbatim>\<open>serde_json::Value\<close> the sources use.  The printer and the parser are library code: they
  are parameters (\<open>to_vec\<close>, \<open>from_slice\<close>) of the definitions that use them.  An object is the
  list of its entries in the order the library's map iterates them, and only lookups are
  ever made in it.
\<close>

datatype json =
    JNull
  | JBool bool
  | JInt int
  | JFloat string
  | JString string
  | JArray "json list"
  | JObject "(string \<times> json) list"

fun json_get :: "json \<Rightarrow> string \<Rightarrow> json option" where
  "json_get (JObject kvs) k = map_of kvs k"
| "json_get _ k = None"

fun as_u64 :: "json \<Rightarrow> nat option" where
  "as_u64 (JInt i) = (if 0 \<le> i \<and> i < 2 ^ 64 then Some (nat i) else None)"
| "as_u64 _ = None"

fun as_bool :: "json \<Rightarrow> bool option" where
  "as_bool (JBool b) = Some b"
| "as_bool _ = None"

fun as_str :: "json \<Rightarrow> string option" where
  "as_str (JString s) = Some s"
| "as_str _ = None"

fun as_array :: "json \<Rightarrow> json list option" where
  "as_array (JArray xs) = Some xs"
| "as_array _ = None"

text \<open>How the \<^verbatim>\<open>json!\<close> macro renders the field types of the sources.\<close>

abbreviation json_u64 :: "nat \<Rightarrow> json" where
  "json_u64 n \<equiv> JInt (int n)"

fun json_opt_str :: "string option \<Rightarrow> json" where
  "json_opt_str None = JNull"
| "json_opt_str (Some s) = JString s"

lemma as_u64_json [simp]: "n < 2 ^ 64 \<Longrightarrow> as_u64 (json_u64 n) = Some n"
  by simp

lemma as_str_json_opt [simp]: "as_str (json_opt_str s) = s"
  by (cases s) simp_all

section \<open>Term histories in JSON\<close>

definition history_to_json :: "term_history \<Rightarrow> json" where
  "history_to_json h = JArray (map (\<lambda>e. JArray [json_u64 (tl_term e), json_u64 (tl_lsn e)]) h)"

fun history_entries :: "json list \<Rightarrow> term_history result" where
  "history_entries [] = Inr []"
| "history_entries (e # es) =
     rbind (ok_or (case as_array e of Some p \<Rightarrow> if length p = 2 then Some p else None | None \<Rightarrow> None)
              ''term_history entry is not a [term, lsn] pair'') (\<lambda>pair.
     rbind (ok_or (as_u64 (pair ! 0)) ''term_history term is not a u64'') (\<lambda>t.
     rbind (ok_or (as_u64 (pair ! 1)) ''term_history lsn is not a u64'') (\<lambda>l.
     rbind (history_entries es) (\<lambda>out. Inr (\<lparr>tl_term = t, tl_lsn = l\<rparr> # out)))))"

definition history_from_json :: "json \<Rightarrow> term_history result" where
  "history_from_json v =
     rbind (ok_or (as_array v) ''term_history is not an array'') history_entries"

definition history_u64 :: "term_history \<Rightarrow> bool" where
  "history_u64 h \<longleftrightarrow> (\<forall>e\<in>set h. tl_term e < 2 ^ 64 \<and> tl_lsn e < 2 ^ 64)"

lemma history_entries_map:
  "history_u64 h \<Longrightarrow>
   history_entries (map (\<lambda>e. JArray [json_u64 (tl_term e), json_u64 (tl_lsn e)]) h) = Inr h"
  by (induction h) (auto simp: history_u64_def simp del: as_u64.simps)

lemma history_json_roundtrip [simp]:
  "history_u64 h \<Longrightarrow> history_from_json (history_to_json h) = Inr h"
  by (simp add: history_from_json_def history_to_json_def history_entries_map)

end
