(* ===== verification/Messages.thy ===== *)
theory Messages
  imports Json
begin

text \<open>
  The wire protocol of \<^verbatim>\<open>icegres/src/quorum/proto.rs\<close>: the messages, their JSON headers and
  the checksummed envelope \<^verbatim>\<open>[u32 len][u32 crc][u32 header_len][header][payload]\<close>.  The lemmas
  show that a reader of the byte stream gets back the message that was written, and that
  the length cap is enforced on both sides.
\<close>

definition MAX_MESSAGE_BYTES :: nat where
  "MAX_MESSAGE_BYTES = 268435456"

text \<open>The fields of each constructor are in the order the source declares them.\<close>

datatype message =
    Greeting "string option"
  | GreetingResp "string option" nat lsn
  | VoteRequest nat
  | VoteResponse nat bool lsn nat term_history lsn lsn
  | Elected nat lsn term_history
  | ElectedResp nat bool
  | Append nat lsn lsn lsn lsn bytes
  | AppendResp nat bool lsn lsn
  | Read lsn lsn
  | ReadResp lsn bytes
  | Error string

fun header_and_payload :: "message \<Rightarrow> json \<times> bytes" where
  "header_and_payload (Greeting tail_id) =
     (JObject [(''type'', JString ''greeting''), (''tail_id'', json_opt_str tail_id)], [])"
| "header_and_payload (GreetingResp tail_id t flush_lsn) =
     (JObject [(''type'', JString ''greeting_resp''), (''tail_id'', json_opt_str tail_id),
               (''term'', json_u64 t), (''flush_lsn'', json_u64 flush_lsn)], [])"
| "header_and_payload (VoteRequest t) =
     (JObject [(''type'', JString ''vote_req''), (''term'', json_u64 t)], [])"
| "header_and_payload (VoteResponse t granted flush_lsn llt h horizon_lsn commit_lsn) =
     (JObject [(''type'', JString ''vote_resp''), (''term'', json_u64 t), (''granted'', JBool granted),
               (''flush_lsn'', json_u64 flush_lsn), (''last_log_term'', json_u64 llt),
               (''term_history'', history_to_json h), (''horizon_lsn'', json_u64 horizon_lsn),
               (''commit_lsn'', json_u64 commit_lsn)], [])"
| "header_and_payload (Elected t start_lsn h) =
     (JObject [(''type'', JString ''elected''), (''term'', json_u64 t),
               (''start_lsn'', json_u64 start_lsn), (''term_history'', history_to_json h)], [])"
| "header_and_payload (ElectedResp t ok) =
     (JObject [(''type'', JString ''elected_resp''), (''term'', json_u64 t), (''ok'', JBool ok)], [])"
| "header_and_payload (Append t begin_lsn end_lsn commit_lsn horizon_lsn records) =
     (JObject [(''type'', JString ''append''), (''term'', json_u64 t),
               (''begin_lsn'', json_u64 begin_lsn), (''end_lsn'', json_u64 end_lsn),
               (''commit_lsn'', json_u64 commit_lsn), (''horizon_lsn'', json_u64 horizon_lsn)], records)"
| "header_and_payload (AppendResp t ok flush_lsn commit_lsn) =
     (JObject [(''type'', JString ''append_resp''), (''term'', json_u64 t), (''ok'', JBool ok),
               (''flush_lsn'', json_u64 flush_lsn), (''commit_lsn'', json_u64 commit_lsn)], [])"
| "header_and_payload (Read from_lsn to_lsn) =
     (JObject [(''type'', JString ''read''), (''from_lsn'', json_u64 from_lsn),
               (''to_lsn'', json_u64 to_lsn)], [])"
| "header_and_payload (ReadResp from_lsn records) =
     (JObject [(''type'', JString ''read_resp''), (''from_lsn'', json_u64 from_lsn)], records)"
| "header_and_payload (Error m) =
     (JObject [(''type'', JString ''error''), (''message'', JString m)], [])"

definition encode ::
  "(bytes \<Rightarrow> 32 word) \<Rightarrow> (json \<Rightarrow> bytes result) \<Rightarrow> message \<Rightarrow> bytes result" where
  "encode crc to_vec m =
     rbind (to_vec (fst (header_and_payload m))) (\<lambda>header.
       let payload = snd (header_and_payload m);
           rest_len = 4 + length header + length payload
       in if rest_len > MAX_MESSAGE_BYTES then Inl ''quorum message exceeds the byte cap''
          else (let rest = le_bytes 4 (length header) @ header @ payload
                in Inr (le_bytes 4 (length rest) @ le_bytes 4 (unat (crc rest)) @ rest)))"

definition ju64 :: "json \<Rightarrow> string \<Rightarrow> nat result" where
  "ju64 v key =
     ok_or (Option.bind (json_get v key) as_u64)
       (''quorum message header field '' @ key @ '' missing or not a u64'')"

definition jbool :: "json \<Rightarrow> string \<Rightarrow> bool result" where
  "jbool v key =
     ok_or (Option.bind (json_get v key) as_bool)
       (''quorum message header field '' @ key @ '' missing or not a bool'')"

definition jstr_opt :: "json \<Rightarrow> string \<Rightarrow> string option" where
  "jstr_opt v key = Option.bind (json_get v key) as_str"

definition jhistory :: "json \<Rightarrow> term_history result" where
  "jhistory v =
     rbind (ok_or (json_get v ''term_history'') ''quorum message header has no term_history'')
       history_from_json"

definition decode_vote_resp :: "json \<Rightarrow> message result" where
  "decode_vote_resp header =
     rbind (ju64 header ''term'') (\<lambda>t.
     rbind (jbool header ''granted'') (\<lambda>granted.
     rbind (ju64 header ''flush_lsn'') (\<lambda>flush_lsn.
     rbind (ju64 header ''last_log_term'') (\<lambda>llt.
     rbind (jhistory header) (\<lambda>h.
     rbind (ju64 header ''horizon_lsn'') (\<lambda>horizon_lsn.
     rbind (ju64 header ''commit_lsn'') (\<lambda>commit_lsn.
       Inr (VoteResponse t granted flush_lsn llt h horizon_lsn commit_lsn))))))))"

definition decode_append :: "json \<Rightarrow> bytes \<Rightarrow> message result" where
  "decode_append header payload =
     rbind (ju64 header ''term'') (\<lambda>t.
     rbind (ju64 header ''begin_lsn'') (\<lambda>begin_lsn.
     rbind (ju64 header ''end_lsn'') (\<lambda>end_lsn.
     rbind (ju64 header ''commit_lsn'') (\<lambda>commit_lsn.
     rbind (ju64 header ''horizon_lsn'') (\<lambda>horizon_lsn.
       Inr (Append t begin_lsn end_lsn commit_lsn horizon_lsn payload))))))"

definition decode_append_resp :: "json \<Rightarrow> message result" where
  "decode_append_resp header =
     rbind (ju64 header ''term'') (\<lambda>t.
     rbind (jbool header ''ok'') (\<lambda>ok.
     rbind (ju64 header ''flush_lsn'') (\<lambda>flush_lsn.
     rbind (ju64 header ''commit_lsn'') (\<lambda>commit_lsn.
       Inr (AppendResp t ok flush_lsn commit_lsn)))))"

definition decode_typed :: "string \<Rightarrow> json \<Rightarrow> bytes \<Rightarrow> message result" where
  "decode_typed ty header payload =
     (if ty = ''greeting'' then Inr (Greeting (jstr_opt header ''tail_id''))
      else if ty = ''greeting_resp'' then
        rbind (ju64 header ''term'') (\<lambda>t.
        rbind (ju64 header ''flush_lsn'') (\<lambda>flush_lsn.
          Inr (GreetingResp (jstr_opt header ''tail_id'') t flush_lsn)))
      else if ty = ''vote_req'' then rbind (ju64 header ''term'') (\<lambda>t. Inr (VoteRequest t))
      else if ty = ''vote_resp'' then decode_vote_resp header
      else if ty = ''elected'' then
        rbind (ju64 header ''term'') (\<lambda>t.
        rbind (ju64 header ''start_lsn'') (\<lambda>start_lsn.
        rbind (jhistory header) (\<lambda>h. Inr (Elected t start_lsn h))))
      else if ty = ''elected_resp'' then
        rbind (ju64 header ''term'') (\<lambda>t.
        rbind (jbool header ''ok'') (\<lambda>ok. Inr (ElectedResp t ok)))
      else if ty = ''append'' then decode_append header payload
      else if ty = ''append_resp'' then decode_append_resp header
      else if ty = ''read'' then
        rbind (ju64 header ''from_lsn'') (\<lambda>from_lsn.
        rbind (ju64 header ''to_lsn'') (\<lambda>to_lsn. Inr (Read from_lsn to_lsn)))
      else if ty = ''read_resp'' then
        rbind (ju64 header ''from_lsn'') (\<lambda>from_lsn. Inr (ReadResp from_lsn payload))
      else if ty = ''error'' then
        Inr (Error (case Option.bind (json_get header ''message'') as_str of
                      Some m \<Rightarrow> m | None \<Rightarrow> ''(no message)''))
      else Inl (''unknown quorum message type '' @ ty))"

definition decode_rest :: "(bytes \<Rightarrow> json option) \<Rightarrow> bytes \<Rightarrow> message result" where
  "decode_rest from_slice rest =
     (if length rest < 4 then Inl ''quorum message shorter than its header-length field''
      else
        (let header_len = le_nat (take 4 rest) in
         if length rest - 4 < header_len
         then Inl ''quorum message header length overruns the message''
         else
           rbind (ok_or (from_slice (take header_len (drop 4 rest)))
                    ''quorum message header is not valid JSON'') (\<lambda>header.
             let payload = drop (4 + header_len) rest in
             rbind (ok_or (Option.bind (json_get header ''type'') as_str)
                      ''quorum message header has no type'') (\<lambda>ty.
               decode_typed ty header payload))))"

text \<open>\<open>read_exact n s\<close> takes the next \<open>n\<close> bytes of the stream \<open>s\<close>.\<close>

definition read_exact :: "nat \<Rightarrow> bytes \<Rightarrow> (bytes \<times> bytes) option" where
  "read_exact n s = (if length s < n then None else Some (take n s, drop n s))"

definition read_message ::
  "(bytes \<Rightarrow> 32 word) \<Rightarrow> (bytes \<Rightarrow> json option) \<Rightarrow> bytes \<Rightarrow> (message \<times> bytes) result" where
  "read_message crc from_slice stream =
     rbind (ok_or (read_exact 8 stream) ''quorum read failed'') (\<lambda>(hdr, stream).
       let len = le_nat (take 4 hdr); c = le_nat (take 4 (drop 4 hdr)) in
       if \<not> (4 \<le> len \<and> len \<le> MAX_MESSAGE_BYTES) then Inl ''implausible quorum message length''
       else
         rbind (ok_or (read_exact len stream) ''quorum read failed mid-message'') (\<lambda>(rest, stream).
           if unat (crc rest) \<noteq> c then Inl ''quorum message crc mismatch (torn or foreign traffic)''
           else rbind (decode_rest from_slice rest) (\<lambda>m. Inr (m, stream))))"

section \<open>Round trip\<close>

text \<open>Every number of the message fits a \<^verbatim>\<open>u64\<close>.\<close>

fun message_wf :: "message \<Rightarrow> bool" where
  "message_wf (Greeting _) = True"
| "message_wf (GreetingResp _ t f) = (t < 2 ^ 64 \<and> f < 2 ^ 64)"
| "message_wf (VoteRequest t) = (t < 2 ^ 64)"
| "message_wf (VoteResponse t _ f l h hz c) =
     (t < 2 ^ 64 \<and> f < 2 ^ 64 \<and> l < 2 ^ 64 \<and> history_u64 h \<and> hz < 2 ^ 64 \<and> c < 2 ^ 64)"
| "message_wf (Elected t s h) = (t < 2 ^ 64 \<and> s < 2 ^ 64 \<and> history_u64 h)"
| "message_wf (ElectedResp t _) = (t < 2 ^ 64)"
| "message_wf (Append t b e c hz _) =
     (t < 2 ^ 64 \<and> b < 2 ^ 64 \<and> e < 2 ^ 64 \<and> c < 2 ^ 64 \<and> hz < 2 ^ 64)"
| "message_wf (AppendResp t _ f c) = (t < 2 ^ 64 \<and> f < 2 ^ 64 \<and> c < 2 ^ 64)"
| "message_wf (Read a b) = (a < 2 ^ 64 \<and> b < 2 ^ 64)"
| "message_wf (ReadResp a _) = (a < 2 ^ 64)"
| "message_wf (Error _) = True"

text \<open>The parsed header agrees with the printed one on every lookup.\<close>

definition same_lookups :: "json \<Rightarrow> json \<Rightarrow> bool" where
  "same_lookups v w \<longleftrightarrow> (\<forall>k. json_get v k = json_get w k)"

lemmas header_field_defs = ju64_def jbool_def jstr_opt_def jhistory_def

lemma decode_typed_header:
  assumes "message_wf m" "header_and_payload m = (v, payload)" "same_lookups v' v"
  shows "\<exists>ty. Option.bind (json_get v' ''type'') as_str = Some ty \<and> decode_typed ty v' payload = Inr m"
proof -
  have g: "json_get v' k = json_get v k" for k using assms(3) by (simp add: same_lookups_def)
  show ?thesis
    using assms(1,2)
    by (cases m)
      (simp_all only: message_wf.simps header_and_payload.simps prod.inject,
       (elim conjE, hypsubst, simp add: g header_field_defs decode_typed_def
          decode_vote_resp_def decode_append_def decode_append_resp_def del: as_u64.simps)+)
qed

lemma decode_rest_encoded:
  assumes "message_wf m" "header_and_payload m = (v, payload)" "from_slice header = Some v'"
    "same_lookups v' v" "length header < 256 ^ 4"
  shows "decode_rest from_slice (le_bytes 4 (length header) @ header @ payload) = Inr m"
proof -
  obtain ty where "Option.bind (json_get v' ''type'') as_str = Some ty"
    "decode_typed ty v' payload = Inr m"
    using decode_typed_header [OF assms(1,2,4)] by blast
  then show ?thesis using assms(3,5) by (simp add: decode_rest_def Let_def)
qed

lemma read_message_encode:
  assumes "message_wf m" "encode crc to_vec m = Inr bs"
    "\<And>h. to_vec (fst (header_and_payload m)) = Inr h \<Longrightarrow>
       \<exists>v'. from_slice h = Some v' \<and> same_lookups v' (fst (header_and_payload m))"
  shows "read_message crc from_slice (bs @ later) = Inr (m, later)"
proof -
  obtain v payload where vp: "header_and_payload m = (v, payload)" by force
  from assms(2) vp obtain header where h: "to_vec v = Inr header"
    by (auto simp: encode_def rbind_Inr_conv)
  let ?rest = "le_bytes 4 (length header) @ header @ payload"
  have len: "length ?rest \<le> MAX_MESSAGE_BYTES"
    and bs: "bs = le_bytes 4 (length ?rest) @ le_bytes 4 (unat (crc ?rest)) @ ?rest"
    using assms(2) vp h by (auto simp: encode_def Let_def split: if_splits)
  have small: "length ?rest < 256 ^ 4" "length header < 256 ^ 4"
    using len by (auto simp: MAX_MESSAGE_BYTES_def)
  obtain v' where "from_slice header = Some v'" "same_lookups v' v" using assms(3) h vp by auto
  then have dec: "decode_rest from_slice ?rest = Inr m"
    using decode_rest_encoded [OF assms(1) vp] small(2) by blast
  define rest where "rest = ?rest"
  have "read_message crc from_slice
      (le_bytes 4 (length rest) @ le_bytes 4 (unat (crc rest)) @ rest @ later) = Inr (m, later)"
    using dec small(1) len u32_word_lt [of "crc rest"] unfolding rest_def [symmetric]
    by (simp add: read_message_def read_exact_def Let_def rest_def)
  then show ?thesis unfolding bs rest_def by simp
qed

lemma read_message_cap:
  assumes "read_message crc from_slice s = Inr (m, s')"
  shows "\<exists>len\<le>MAX_MESSAGE_BYTES. length s = 8 + len + length s'"
  using assms
  by (auto simp: read_message_def rbind_Inr_conv ok_or_def read_exact_def Let_def
      split: option.splits if_splits prod.splits)

end
