(* ===== verification/Wal.thy ===== *)
theory Wal
  imports Proto
begin

text \<open>
  The acceptor's log storage (\<^verbatim>\<open>WalStore\<close> and \<^verbatim>\<open>SegmentWal\<close> of
  \<^verbatim>\<open>icegres/src/quorum/acceptor.rs\<close>).  The trait is a record of operations; a directory of
  segment files is a map from a segment's start position (its file name) to its bytes.  File
  system failures are inputs: the record \<open>wal_io\<close> says which of the calls fail, and
  \<open>io_ok\<close> is the environment in which none does.

  The locale \<open>wal_laws\<close> is the contract the acceptor relies on: a log is a start position
  and a byte string, and append, truncate, garbage collection and read act on it as on that
  pair.  It is interpreted for the segment files.
\<close>

section \<open>The storage interface\<close>

record 'w wal_store =
  ws_flush_lsn :: "'w \<Rightarrow> lsn"
  ws_is_empty :: "'w \<Rightarrow> bool"
  ws_append :: "'w \<Rightarrow> lsn \<Rightarrow> bytes \<Rightarrow> unit result \<times> 'w"
  ws_truncate_from :: "'w \<Rightarrow> lsn \<Rightarrow> unit result \<times> 'w"
  ws_drop_below :: "'w \<Rightarrow> lsn \<Rightarrow> 'w"
  ws_retained_start :: "'w \<Rightarrow> lsn"
  ws_read :: "'w \<Rightarrow> lsn \<Rightarrow> lsn \<Rightarrow> bytes result"

section \<open>Segment files\<close>

definition SEGMENT_ROTATE_BYTES :: nat where
  "SEGMENT_ROTATE_BYTES = 16777216"

record seg =
  seg_start :: lsn
  seg_end :: lsn

record segment_wal =
  sw_files :: "lsn \<rightharpoonup> bytes"
  sw_sealed :: "seg list"
  sw_active :: "seg option"
  sw_flush :: lsn
  sw_empty :: bool
  sw_rotate_bytes :: nat
  sw_wedged :: bool

text \<open>Which file-system calls succeed; a failed write may leave a prefix of its bytes behind.\<close>

record wal_io =
  io_create :: bool
  io_sync_dir :: bool
  io_write :: "nat option"
  io_rollback :: bool
  io_remove :: "lsn \<Rightarrow> bool"
  io_set_len :: bool
  io_read :: "lsn \<Rightarrow> bool"

definition io_ok :: wal_io where
  "io_ok = \<lparr>io_create = True, io_sync_dir = True, io_write = None, io_rollback = True,
            io_remove = (\<lambda>_. True), io_set_len = True, io_read = (\<lambda>_. True)\<rparr>"

definition seal_active :: "wal_io \<Rightarrow> segment_wal \<Rightarrow> segment_wal" where
  "seal_active io w =
     (case sw_active w of
        None \<Rightarrow> w
      | Some s \<Rightarrow>
          (if seg_end s > seg_start s
           then w\<lparr>sw_active := None, sw_sealed := sw_sealed w @ [s]\<rparr>
           else w\<lparr>sw_active := None,
                  sw_files := (if io_remove io (seg_start s)
                               then (sw_files w)(seg_start s := None) else sw_files w)\<rparr>))"

definition wal_append :: "wal_io \<Rightarrow> segment_wal \<Rightarrow> lsn \<Rightarrow> bytes \<Rightarrow> unit result \<times> segment_wal" where
  "wal_append io w0 begin_lsn fs =
     (if sw_wedged w0 then (Inl ''icekeeper wal is wedged'', w0)
      else
        (let w1 = (if sw_empty w0 then w0\<lparr>sw_flush := begin_lsn\<rparr> else w0) in
         if begin_lsn \<noteq> sw_flush w1
         then (Inl ''wal append does not match the write position'', w1)
         else
           (let created =
              (case sw_active w1 of
                 Some s \<Rightarrow> (Inr s, w1)
               | None \<Rightarrow>
                   (if \<not> io_create io \<or> sw_files w1 begin_lsn \<noteq> None
                    then (Inl ''cannot create icekeeper segment'', w1)
                    else if \<not> io_sync_dir io
                    then (Inl ''cannot fsync log dir'', w1\<lparr>sw_files := (sw_files w1)(begin_lsn \<mapsto> [])\<rparr>)
                    else (let s = \<lparr>seg_start = begin_lsn, seg_end = begin_lsn\<rparr>
                          in (Inr s, w1\<lparr>sw_files := (sw_files w1)(begin_lsn \<mapsto> []),
                                        sw_active := Some s\<rparr>))))
            in case created of
                 (Inl e, w2) \<Rightarrow> (Inl e, w2)
               | (Inr s, w2) \<Rightarrow>
                   (let old = (case sw_files w2 (seg_start s) of Some b \<Rightarrow> b | None \<Rightarrow> []) in
                    case io_write io of
                      Some n \<Rightarrow>
                        (let good = seg_end s - seg_start s;
                             torn = old @ take n fs in
                         (Inl ''icekeeper append failed'',
                          if io_rollback io
                          then w2\<lparr>sw_files := (sw_files w2)(seg_start s \<mapsto> take good torn)\<rparr>
                          else w2\<lparr>sw_files := (sw_files w2)(seg_start s \<mapsto> torn), sw_wedged := True\<rparr>))
                    | None \<Rightarrow>
                        (let s' = s\<lparr>seg_end := seg_end s + length fs\<rparr>;
                             w3 = w2\<lparr>sw_files := (sw_files w2)(seg_start s \<mapsto> old @ fs),
                                     sw_active := Some s', sw_flush := seg_end s', sw_empty := False\<rparr>
                         in (Inr (), if seg_end s' - seg_start s' \<ge> sw_rotate_bytes w3
                                     then seal_active io w3 else w3))))))"

text \<open>The loop that deletes whole segments at or after the cut, newest first (\<open>rs\<close> is reversed).\<close>

fun delete_after ::
  "wal_io \<Rightarrow> lsn \<Rightarrow> seg list \<Rightarrow> (lsn \<rightharpoonup> bytes) \<Rightarrow> unit result \<times> seg list \<times> (lsn \<rightharpoonup> bytes)" where
  "delete_after io lsn [] files = (Inr (), [], files)"
| "delete_after io lsn (s # rs) files =
     (if seg_start s < lsn then (Inr (), s # rs, files)
      else if \<not> io_remove io (seg_start s) then (Inl ''cannot delete segment'', s # rs, files)
      else delete_after io lsn rs (files(seg_start s := None)))"

definition wal_truncate_from :: "wal_io \<Rightarrow> segment_wal \<Rightarrow> lsn \<Rightarrow> unit result \<times> segment_wal" where
  "wal_truncate_from io w0 lsn =
     (if sw_wedged w0 then (Inl ''icekeeper wal is wedged; restart'', w0)
      else if lsn \<ge> sw_flush w0 then (Inr (), w0)
      else
        (let w1 = seal_active io w0;
             sorted = sort_key seg_start (sw_sealed w1)
         in case delete_after io lsn (rev sorted) (sw_files w1) of
              (Inl e, rs, files) \<Rightarrow> (Inl e, w1\<lparr>sw_sealed := rev rs, sw_files := files\<rparr>)
            | (Inr _, rs, files) \<Rightarrow>
                (let cut =
                   (case rs of
                      [] \<Rightarrow> (Inr (), rs, files)
                    | s # rest \<Rightarrow>
                        (if seg_end s > lsn then
                           (if \<not> io_set_len io then (Inl ''cannot truncate segment'', rs, files)
                            else
                              (let files' = files(seg_start s := map_option (take (lsn - seg_start s))
                                                                   (files (seg_start s)));
                                   s' = s\<lparr>seg_end := lsn\<rparr>
                               in if seg_end s' = seg_start s'
                                  then (Inr (), rest, files'(seg_start s := None))
                                  else (Inr (), s' # rest, files')))
                         else (Inr (), rs, files)))
                 in case cut of
                      (Inl e, rs', files') \<Rightarrow>
                        (Inl e, w1\<lparr>sw_sealed := rev rs', sw_files := files'\<rparr>)
                    | (Inr _, rs', files') \<Rightarrow>
                        (let w2 = w1\<lparr>sw_sealed := rev rs', sw_files := files'\<rparr> in
                         if \<not> io_sync_dir io then (Inl ''cannot fsync log dir'', w2)
                         else (Inr (), w2\<lparr>sw_flush := lsn\<rparr>)))))"

text \<open>Deletion of covered segments, oldest first; it stops at the first failure.\<close>

fun delete_below ::
  "wal_io \<Rightarrow> lsn \<Rightarrow> nat \<Rightarrow> seg list \<Rightarrow> (lsn \<rightharpoonup> bytes) \<Rightarrow> seg list \<times> (lsn \<rightharpoonup> bytes)" where
  "delete_below io horizon 0 ss files = (ss, files)"
| "delete_below io horizon (Suc n) [] files = ([], files)"
| "delete_below io horizon (Suc n) (s # ss) files =
     (if seg_end s > horizon then (s # ss, files)
      else if \<not> io_remove io (seg_start s) then (s # ss, files)
      else delete_below io horizon n ss (files(seg_start s := None)))"

definition wal_drop_below :: "wal_io \<Rightarrow> segment_wal \<Rightarrow> lsn \<Rightarrow> segment_wal" where
  "wal_drop_below io w horizon =
     (let sorted = sort_key seg_start (sw_sealed w);
          deletable = (if sw_active w \<noteq> None then length sorted else length sorted - 1);
          r = delete_below io horizon deletable sorted (sw_files w)
      in w\<lparr>sw_sealed := fst r, sw_files := snd r\<rparr>)"

definition wal_segs :: "segment_wal \<Rightarrow> seg list" where
  "wal_segs w = sw_sealed w @ (case sw_active w of None \<Rightarrow> [] | Some s \<Rightarrow> [s])"

definition wal_retained_start :: "segment_wal \<Rightarrow> lsn" where
  "wal_retained_start w =
     (let ss = map seg_start (wal_segs w) in if ss = [] then sw_flush w else Min (set ss))"

fun read_segs ::
  "wal_io \<Rightarrow> (lsn \<rightharpoonup> bytes) \<Rightarrow> lsn \<Rightarrow> lsn \<Rightarrow> seg list \<Rightarrow> bytes \<Rightarrow> bytes result" where
  "read_segs io files from to [] out = Inr out"
| "read_segs io files from to (s # ss) out =
     (if seg_end s \<le> from \<or> seg_start s \<ge> to then read_segs io files from to ss out
      else if \<not> io_read io (seg_start s) then Inl ''cannot read segment''
      else case files (seg_start s) of
             None \<Rightarrow> Inl ''cannot read segment''
           | Some data \<Rightarrow>
               (let lo = max from (seg_start s) - seg_start s;
                    hi = min to (seg_end s) - seg_start s
                in if hi > length data
                   then Inl ''segment is shorter on disk than its bookkeeping''
                   else read_segs io files from to ss (out @ take (hi - lo) (drop lo data))))"

definition wal_read :: "wal_io \<Rightarrow> segment_wal \<Rightarrow> lsn \<Rightarrow> lsn \<Rightarrow> bytes result" where
  "wal_read io w from to =
     (case read_segs io (sw_files w) from to (sort_key seg_start (wal_segs w)) [] of
        Inl e \<Rightarrow> Inl e
      | Inr out \<Rightarrow>
          (if length out \<noteq> to - from then Inl ''log range is not fully retained here''
           else Inr out))"

definition segment_wal_ops :: "wal_io \<Rightarrow> segment_wal wal_store" where
  "segment_wal_ops io =
     \<lparr>ws_flush_lsn = sw_flush, ws_is_empty = sw_empty, ws_append = wal_append io,
      ws_truncate_from = wal_truncate_from io, ws_drop_below = wal_drop_below io,
      ws_retained_start = wal_retained_start, ws_read = wal_read io\<rparr>"

section \<open>Opening a directory\<close>

text \<open>The loop of \<^verbatim>\<open>scan_wal_segment\<close> over the payload ranges: the end of the last good record and a reason to stop.\<close>

fun scan_lsns :: "bytes \<Rightarrow> lsn \<Rightarrow> (nat \<times> nat) list \<Rightarrow> lsn \<Rightarrow> nat \<Rightarrow> nat \<times> string option" where
  "scan_lsns data start [] pos good = (good, None)"
| "scan_lsns data start (r # rs) pos good =
     (if snd r - fst r < 8 then (fst r - FRAME_HEADER_BYTES, Some ''frame shorter than its lsn header'')
      else if le_nat (take 8 (drop (fst r) data)) \<noteq> pos
      then (fst r - FRAME_HEADER_BYTES, Some ''record claims another lsn'')
      else scan_lsns data start rs (start + snd r) (snd r))"

text \<open>Returns the end position, whether a bad frame was hit, and the file after the truncation.\<close>

definition scan_wal_segment ::
  "wal_io \<Rightarrow> (bytes \<Rightarrow> 32 word) \<Rightarrow> bytes \<Rightarrow> lsn \<Rightarrow> (lsn \<times> bool \<times> bytes) result" where
  "scan_wal_segment io crc data start =
     (if \<not> io_read io start then Inl ''cannot read icekeeper segment''
      else
        (let scan = scan_frame_bytes crc data;
             r = scan_lsns data start (payloads scan) start 0;
             good = fst r;
             why = (case snd r of Some e \<Rightarrow> Some e | None \<Rightarrow> bad scan)
         in case why of
              None \<Rightarrow> Inr (start + good, False, data)
            | Some _ \<Rightarrow>
                (if \<not> io_set_len io then Inl ''cannot truncate torn segment''
                 else Inr (start + good, True, take good data))))"

record open_state =
  os_sealed :: "seg list"
  os_files :: "lsn \<rightharpoonup> bytes"
  os_pos :: "lsn option"
  os_stop :: bool

definition remove_file :: "wal_io \<Rightarrow> lsn \<Rightarrow> (lsn \<rightharpoonup> bytes) \<Rightarrow> (lsn \<rightharpoonup> bytes)" where
  "remove_file io k files = (if io_remove io k then files(k := None) else files)"

fun open_loop ::
  "wal_io \<Rightarrow> (bytes \<Rightarrow> 32 word) \<Rightarrow> (lsn \<times> bytes) list \<Rightarrow> open_state \<Rightarrow> open_state result" where
  "open_loop io crc [] st = Inr st"
| "open_loop io crc ((start, data) # named) st =
     (if os_stop st
      then open_loop io crc named (st\<lparr>os_files := remove_file io start (os_files st)\<rparr>)
      else if (case os_pos st of Some p \<Rightarrow> start \<noteq> p | None \<Rightarrow> False)
      then open_loop io crc named
             (st\<lparr>os_files := remove_file io start (os_files st), os_stop := True\<rparr>)
      else case scan_wal_segment io crc data start of
             Inl e \<Rightarrow> Inl e
           | Inr (e, hit_bad, data') \<Rightarrow>
               (let files = (os_files st)(start \<mapsto> data');
                    st' = (if e = start then st\<lparr>os_files := remove_file io start files\<rparr>
                           else st\<lparr>os_files := files,
                                   os_sealed := os_sealed st @ [\<lparr>seg_start = start, seg_end = e\<rparr>]\<rparr>)
                in open_loop io crc named (st'\<lparr>os_pos := Some e, os_stop := hit_bad\<rparr>)))"

text \<open>\<open>dir\<close> is the directory listing after \<^verbatim>\<open>named.sort()\<close>: the parsed names in ascending order with their contents.\<close>

definition segment_wal_open ::
  "wal_io \<Rightarrow> (bytes \<Rightarrow> 32 word) \<Rightarrow> (lsn \<times> bytes) list \<Rightarrow> segment_wal result" where
  "segment_wal_open io crc dir =
     (case open_loop io crc dir
             \<lparr>os_sealed = [], os_files = map_of dir, os_pos = None, os_stop = False\<rparr> of
        Inl e \<Rightarrow> Inl e
      | Inr st \<Rightarrow>
          (let flush = (case os_pos st of Some p \<Rightarrow> p | None \<Rightarrow> 0) in
           Inr \<lparr>sw_files = os_files st, sw_sealed = os_sealed st, sw_active = None,
                sw_flush = flush, sw_empty = (os_sealed st = [] \<and> flush = 0),
                sw_rotate_bytes = SEGMENT_ROTATE_BYTES, sw_wedged = False\<rparr>))"

section \<open>The contract\<close>

locale wal_laws =
  fixes ops :: "'w wal_store"
    and inv :: "'w \<Rightarrow> bool"
    and lo :: "'w \<Rightarrow> lsn"
    and content :: "'w \<Rightarrow> bytes"
  assumes flush_eq: "inv w \<Longrightarrow> ws_flush_lsn ops w = lo w + length (content w)"
    and empty_zero: "inv w \<Longrightarrow> ws_is_empty ops w \<Longrightarrow> lo w = 0 \<and> content w = []"
    and retained_eq: "inv w \<Longrightarrow> ws_retained_start ops w = lo w"
    and append_ok: "inv w \<Longrightarrow> fs \<noteq> [] \<Longrightarrow> ws_is_empty ops w \<or> b = ws_flush_lsn ops w \<Longrightarrow>
      \<exists>w'. ws_append ops w b fs = (Inr (), w') \<and> inv w' \<and> \<not> ws_is_empty ops w' \<and>
           lo w' = (if ws_is_empty ops w then b else lo w) \<and> content w' = content w @ fs"
    and truncate_beyond: "inv w \<Longrightarrow> ws_flush_lsn ops w \<le> l \<Longrightarrow> ws_truncate_from ops w l = (Inr (), w)"
    and truncate_cut: "inv w \<Longrightarrow> l < ws_flush_lsn ops w \<Longrightarrow>
      \<exists>w'. ws_truncate_from ops w l = (Inr (), w') \<and> inv w' \<and> \<not> ws_is_empty ops w' \<and>
           lo w' = min l (lo w) \<and> content w' = take (l - lo w) (content w)"
    and drop_below: "inv w \<Longrightarrow>
      \<exists>k. inv (ws_drop_below ops w h) \<and> k \<le> length (content w) \<and>
          lo (ws_drop_below ops w h) = lo w + k \<and> content (ws_drop_below ops w h) = drop k (content w) \<and>
          ws_is_empty ops (ws_drop_below ops w h) = ws_is_empty ops w \<and> lo w + k \<le> max (lo w) h"
    and read_ok: "inv w \<Longrightarrow> lo w \<le> a \<Longrightarrow> a < b \<Longrightarrow> b \<le> ws_flush_lsn ops w \<Longrightarrow>
      ws_read ops w a b = Inr (take (b - a) (drop (a - lo w) (content w)))"
    and read_short: "inv w \<Longrightarrow> a < b \<Longrightarrow> a < lo w \<or> ws_flush_lsn ops w < b \<Longrightarrow>
      \<exists>e. ws_read ops w a b = Inl e"

end
