(* ===== verification/WalSegments.thy ===== *)
theory WalSegments
  imports Wal
begin

text \<open>
  The segment files implement the log contract: the interpretation of \<open>wal_laws\<close> for
  \<open>segment_wal_ops io_ok\<close>, and the boot scan that recovers the same log from the directory.
\<close>

section \<open>Invariant and abstraction\<close>

fun seg_chain :: "seg list \<Rightarrow> lsn \<Rightarrow> lsn \<Rightarrow> bool" where
  "seg_chain [] a b = (a = b)"
| "seg_chain (s # ss) a b = (seg_start s = a \<and> a < seg_end s \<and> seg_chain ss (seg_end s) b)"

definition seg_files :: "(lsn \<rightharpoonup> bytes) \<Rightarrow> seg list \<Rightarrow> bool" where
  "seg_files files ss \<longleftrightarrow>
     dom files = seg_start ` set ss \<and>
     (\<forall>s\<in>set ss. length (the (files (seg_start s))) = seg_end s - seg_start s)"

definition segs_data :: "(lsn \<rightharpoonup> bytes) \<Rightarrow> seg list \<Rightarrow> bytes" where
  "segs_data files ss = concat (map (\<lambda>s. the (files (seg_start s))) ss)"

definition sw_lo :: "segment_wal \<Rightarrow> lsn" where
  "sw_lo w = (case wal_segs w of [] \<Rightarrow> sw_flush w | s # _ \<Rightarrow> seg_start s)"

definition sw_content :: "segment_wal \<Rightarrow> bytes" where
  "sw_content w = segs_data (sw_files w) (wal_segs w)"

definition sw_inv :: "segment_wal \<Rightarrow> bool" where
  "sw_inv w \<longleftrightarrow> \<not> sw_wedged w \<and> seg_chain (wal_segs w) (sw_lo w) (sw_flush w) \<and>
     seg_files (sw_files w) (wal_segs w) \<and>
     (sw_empty w \<longrightarrow> wal_segs w = [] \<and> sw_flush w = 0)"

section \<open>Chains of segments\<close>

lemma seg_chain_le: "seg_chain ss a b \<Longrightarrow> a \<le> b"
  by (induction ss arbitrary: a) fastforce+

lemma seg_chain_append:
  "seg_chain (ss @ ts) a b \<longleftrightarrow> (\<exists>m. seg_chain ss a m \<and> seg_chain ts m b)"
  by (induction ss arbitrary: a) auto

lemma seg_chain_starts:
  "seg_chain ss a b \<Longrightarrow> s \<in> set ss \<Longrightarrow> a \<le> seg_start s \<and> seg_start s < seg_end s \<and> seg_end s \<le> b"
proof (induction ss arbitrary: a)
  case Nil
  then show ?case by simp
next
  case (Cons x ss)
  then have "seg_end x \<le> b" using seg_chain_le by auto
  with Cons show ?case by fastforce
qed

lemma seg_chain_sorted: "seg_chain ss a b \<Longrightarrow> sorted_wrt (<) (map seg_start ss)"
proof (induction ss arbitrary: a)
  case Nil
  then show ?case by simp
next
  case (Cons s ss)
  then have "\<forall>t\<in>set ss. seg_start s < seg_start t"
    using seg_chain_starts [of ss "seg_end s" b] by fastforce
  with Cons show ?case by auto
qed

lemma seg_chain_distinct: "seg_chain ss a b \<Longrightarrow> distinct (map seg_start ss)"
  by (drule seg_chain_sorted) (simp add: strict_sorted_iff)

lemma seg_chain_sort_key: "seg_chain ss a b \<Longrightarrow> sort_key seg_start ss = ss"
  by (drule seg_chain_sorted) (simp add: sorted_sort_id strict_sorted_iff sort_key_id_if_sorted)

lemma length_segs_data:
  "seg_chain ss a b \<Longrightarrow> \<forall>s\<in>set ss. length (the (files (seg_start s))) = seg_end s - seg_start s \<Longrightarrow>
   length (segs_data files ss) = b - a"
proof (induction ss arbitrary: a)
  case Nil
  then show ?case by (simp add: segs_data_def)
next
  case (Cons s ss)
  then have "length (segs_data files ss) = b - seg_end s" by auto
  moreover have "seg_end s \<le> b" using Cons.prems seg_chain_le by auto
  ultimately show ?case using Cons.prems by (simp add: segs_data_def)
qed

lemma segs_data_append [simp]: "segs_data files (ss @ ts) = segs_data files ss @ segs_data files ts"
  by (simp add: segs_data_def)

lemma segs_data_other:
  "\<forall>s\<in>set ss. seg_start s \<noteq> k \<Longrightarrow> segs_data (files(k := v)) ss = segs_data files ss"
  by (simp add: segs_data_def cong: map_cong)

lemma segs_data_cong:
  "\<forall>s\<in>set ss. files (seg_start s) = files' (seg_start s) \<Longrightarrow> segs_data files ss = segs_data files' ss"
  by (simp add: segs_data_def cong: map_cong)

lemma sw_lo_hd: "seg_chain (wal_segs w) (sw_lo w) b \<Longrightarrow> wal_segs w = [] \<Longrightarrow> sw_lo w = sw_flush w"
  by (simp add: sw_lo_def)

lemma sw_flush_eq: "sw_inv w \<Longrightarrow> sw_flush w = sw_lo w + length (sw_content w)"
  using length_segs_data [of "wal_segs w" "sw_lo w" "sw_flush w" "sw_files w"]
    seg_chain_le [of "wal_segs w" "sw_lo w" "sw_flush w"]
  by (simp add: sw_inv_def sw_content_def seg_files_def)

lemma sw_retained_eq:
  assumes "sw_inv w"
  shows "wal_retained_start w = sw_lo w"
proof (cases "wal_segs w")
  case Nil
  then show ?thesis by (simp add: wal_retained_start_def sw_lo_def)
next
  case (Cons s ss)
  then have ch: "seg_chain (s # ss) (seg_start s) (sw_flush w)"
    using assms by (auto simp: sw_inv_def sw_lo_def)
  have "Min (seg_start ` set (s # ss)) = seg_start s"
    using seg_chain_starts [OF ch] by (intro Min_eqI) auto
  with Cons show ?thesis by (simp add: wal_retained_start_def sw_lo_def)
qed

section \<open>Append\<close>

lemma wal_segs_seal [simp]: "wal_segs (seal_active io w) =
   (case sw_active w of Some s \<Rightarrow> if seg_end s > seg_start s then wal_segs w else sw_sealed w
    | None \<Rightarrow> wal_segs w)"
  by (auto simp: seal_active_def wal_segs_def split: option.splits)

lemma seal_active_fields [simp]:
  "sw_flush (seal_active io w) = sw_flush w" "sw_empty (seal_active io w) = sw_empty w"
  "sw_wedged (seal_active io w) = sw_wedged w" "sw_active (seal_active io w) = None"
  by (auto simp: seal_active_def split: option.splits)

lemma seal_active_files:
  "(\<And>s. sw_active w = Some s \<Longrightarrow> seg_start s < seg_end s) \<Longrightarrow> sw_files (seal_active io w) = sw_files w"
  by (auto simp: seal_active_def split: option.splits)

lemma sw_inv_active: "sw_inv w \<Longrightarrow> sw_active w = Some s \<Longrightarrow> seg_start s < seg_end s"
  using seg_chain_starts [of "wal_segs w" "sw_lo w" "sw_flush w" s]
  by (simp add: sw_inv_def wal_segs_def)

lemma sw_inv_seal: "sw_inv w \<Longrightarrow> sw_inv (seal_active io w)"
  and sw_lo_seal: "sw_inv w \<Longrightarrow> sw_lo (seal_active io w) = sw_lo w"
  and sw_content_seal: "sw_inv w \<Longrightarrow> sw_content (seal_active io w) = sw_content w"
  using sw_inv_active [of w] seal_active_files [of w io]
  by (auto simp: sw_inv_def sw_lo_def sw_content_def split: option.splits list.splits)

text \<open>The segment that receives an append ends at the flush position, whether it was active or is new.\<close>

lemma append_to_active:
  assumes inv: "sw_inv w" and act: "sw_active w = Some s" and fs: "fs \<noteq> []"
  shows "\<exists>w'. wal_append io_ok w (sw_flush w) fs = (Inr (), w') \<and> sw_inv w' \<and> \<not> sw_empty w' \<and>
         sw_lo w' = sw_lo w \<and> sw_content w' = sw_content w @ fs"
proof -
  have segs: "wal_segs w = sw_sealed w @ [s]" using act by (simp add: wal_segs_def)
  have ch: "seg_chain (sw_sealed w @ [s]) (sw_lo w) (sw_flush w)" and nw: "\<not> sw_wedged w"
    and ne: "\<not> sw_empty w" and fl: "seg_files (sw_files w) (sw_sealed w @ [s])"
    using inv segs by (auto simp: sw_inv_def)
  from ch have c1: "seg_chain (sw_sealed w) (sw_lo w) (seg_start s)" and e: "seg_end s = sw_flush w"
    and lt: "seg_start s < seg_end s"
    by (auto simp: seg_chain_append)
  obtain b where b: "sw_files w (seg_start s) = Some b" "length b = seg_end s - seg_start s"
    using fl unfolding seg_files_def by fastforce
  let ?s = "s\<lparr>seg_end := seg_end s + length fs\<rparr>"
  let ?w = "w\<lparr>sw_files := (sw_files w)(seg_start s \<mapsto> b @ fs), sw_active := Some ?s,
              sw_flush := seg_end ?s, sw_empty := False\<rparr>"
  have res: "wal_append io_ok w (sw_flush w) fs =
      (Inr (), if seg_end ?s - seg_start ?s \<ge> sw_rotate_bytes w then seal_active io_ok ?w else ?w)"
    using nw ne act b by (simp add: wal_append_def io_ok_def Let_def)
  have other: "\<forall>t\<in>set (sw_sealed w). seg_start t \<noteq> seg_start s"
    using seg_chain_starts [OF c1] by fastforce
  have segs': "wal_segs ?w = sw_sealed w @ [?s]" by (simp add: wal_segs_def)
  have lo: "sw_lo ?w = sw_lo w" using segs segs' by (cases "sw_sealed w") (simp_all add: sw_lo_def)
  have fl': "seg_files ((sw_files w)(seg_start s \<mapsto> b @ fs)) (sw_sealed w @ [?s])"
    using fl other b lt by (auto simp: seg_files_def)
  have "sw_inv ?w"
    using nw c1 lt e fs fl' segs' lo by (auto simp: sw_inv_def seg_chain_append)
  moreover have "sw_content ?w = sw_content w @ fs"
    using segs segs' b segs_data_other [OF other] by (simp add: sw_content_def segs_data_def)
  ultimately show ?thesis
    using res lo sw_inv_seal [of ?w io_ok] sw_lo_seal [of ?w io_ok] sw_content_seal [of ?w io_ok]
    by auto
qed

lemma append_to_fresh:
  assumes inv: "sw_inv w" and act: "sw_active w = None" and fs: "fs \<noteq> []"
    and pos: "sw_empty w \<or> b = sw_flush w"
  shows "\<exists>w'. wal_append io_ok w b fs = (Inr (), w') \<and> sw_inv w' \<and> \<not> sw_empty w' \<and>
         sw_lo w' = (if sw_empty w then b else sw_lo w) \<and> sw_content w' = sw_content w @ fs"
proof -
  have segs: "wal_segs w = sw_sealed w" using act by (simp add: wal_segs_def)
  have ch: "seg_chain (sw_sealed w) (sw_lo w) (sw_flush w)" and nw: "\<not> sw_wedged w"
    and fl: "seg_files (sw_files w) (sw_sealed w)" and em: "sw_empty w \<Longrightarrow> sw_sealed w = []"
    using inv segs by (auto simp: sw_inv_def)
  have other: "\<forall>t\<in>set (sw_sealed w). seg_start t \<noteq> b"
    using seg_chain_starts [OF ch] em pos by fastforce
  then have none: "sw_files w b = None"
    using fl unfolding seg_files_def by (metis domIff image_iff)
  let ?s = "\<lparr>seg_start = b, seg_end = b + length fs\<rparr>"
  let ?w = "w\<lparr>sw_files := (sw_files w)(b \<mapsto> fs), sw_active := Some ?s,
              sw_flush := seg_end ?s, sw_empty := False\<rparr>"
  have res: "wal_append io_ok w b fs =
      (Inr (), if length fs \<ge> sw_rotate_bytes w then seal_active io_ok ?w else ?w)"
    using nw act none pos by (auto simp: wal_append_def io_ok_def Let_def)
  have segs': "wal_segs ?w = sw_sealed w @ [?s]" by (simp add: wal_segs_def)
  have lo: "sw_lo ?w = (if sw_empty w then b else sw_lo w)"
    using segs segs' em pos by (cases "sw_sealed w") (auto simp: sw_lo_def)
  have "seg_files ((sw_files w)(b \<mapsto> fs)) (sw_sealed w @ [?s])"
    using fl other by (auto simp: seg_files_def)
  moreover have "seg_chain (sw_sealed w @ [?s]) (sw_lo ?w) (b + length fs)"
    using ch em pos fs lo by (auto simp: seg_chain_append)
  ultimately have "sw_inv ?w" using nw segs' by (simp add: sw_inv_def)
  moreover have "sw_content ?w = sw_content w @ fs"
    using segs segs' segs_data_other [OF other] by (simp add: sw_content_def segs_data_def)
  ultimately show ?thesis
    using res lo sw_inv_seal [of ?w io_ok] sw_lo_seal [of ?w io_ok] sw_content_seal [of ?w io_ok]
    by auto
qed

lemma wal_append_ok:
  assumes "sw_inv w" "fs \<noteq> []" "sw_empty w \<or> b = sw_flush w"
  shows "\<exists>w'. wal_append io_ok w b fs = (Inr (), w') \<and> sw_inv w' \<and> \<not> sw_empty w' \<and>
         sw_lo w' = (if sw_empty w then b else sw_lo w) \<and> sw_content w' = sw_content w @ fs"
proof (cases "sw_active w")
  case None
  then show ?thesis using append_to_fresh assms by blast
next
  case (Some s)
  then have "\<not> sw_empty w" using assms(1) by (auto simp: sw_inv_def wal_segs_def)
  with append_to_active [OF assms(1) Some assms(2)] assms(3) show ?thesis by simp
qed

section \<open>Truncation\<close>

lemma delete_after_rev:
  assumes "\<forall>s\<in>set ts. l \<le> seg_start s" "ss = [] \<or> seg_start (last ss) < l"
  shows "delete_after io_ok l (rev (ss @ ts)) files =
         (Inr (), rev ss, (\<lambda>k. if k \<in> seg_start ` set ts then None else files k))"
  using assms(1)
proof (induction ts arbitrary: files rule: rev_induct)
  case Nil
  show ?case
  proof (cases "ss = []")
    case False
    then obtain s ss' where "ss = ss' @ [s]" by (metis append_butlast_last_id)
    with assms(2) show ?thesis by simp
  qed simp
next
  case (snoc t ts)
  then show ?case by (auto simp: io_ok_def fun_eq_iff)
qed

lemma seg_chain_split:
  assumes "seg_chain ss a b"
  shows "\<exists>xs ys. ss = xs @ ys \<and> (\<forall>s\<in>set xs. seg_start s < l) \<and> (\<forall>s\<in>set ys. l \<le> seg_start s)"
proof -
  let ?xs = "takeWhile (\<lambda>s. seg_start s < l) ss"
  let ?ys = "dropWhile (\<lambda>s. seg_start s < l) ss"
  have "sorted (map seg_start ss)" using seg_chain_sorted [OF assms] by (simp add: strict_sorted_iff)
  then have "\<forall>s\<in>set ?ys. l \<le> seg_start s"
  proof (induction ss)
    case Nil
    then show ?case by simp
  next
    case (Cons x xs)
    then show ?case by (auto simp: not_less)
  qed
  moreover have "\<forall>s\<in>set ?xs. seg_start s < l" by (auto dest: set_takeWhileD)
  ultimately show ?thesis by (metis takeWhile_dropWhile_id)
qed

lemma wal_truncate_cut:
  assumes inv: "sw_inv w" and l: "l < sw_flush w"
  shows "\<exists>w'. wal_truncate_from io_ok w l = (Inr (), w') \<and> sw_inv w' \<and> \<not> sw_empty w' \<and>
         sw_lo w' = min l (sw_lo w) \<and> sw_content w' = take (l - sw_lo w) (sw_content w)"
proof -
  let ?w1 = "seal_active io_ok w"
  have inv1: "sw_inv ?w1" using inv by (rule sw_inv_seal)
  have segs1: "wal_segs ?w1 = sw_sealed ?w1" by (simp add: wal_segs_def)
  have ne: "\<not> sw_empty w" and nw: "\<not> sw_wedged w" using inv l by (auto simp: sw_inv_def)
  have ch: "seg_chain (sw_sealed ?w1) (sw_lo w) (sw_flush w)"
    and fl: "seg_files (sw_files ?w1) (sw_sealed ?w1)"
    using inv1 segs1 sw_lo_seal [OF inv, of io_ok] by (auto simp: sw_inv_def)
  obtain xs ys where xy: "sw_sealed ?w1 = xs @ ys" and xs: "\<forall>s\<in>set xs. seg_start s < l"
    and ys: "\<forall>s\<in>set ys. l \<le> seg_start s"
    using seg_chain_split [OF ch] by blast
  have cont: "sw_content w = segs_data (sw_files ?w1) (xs @ ys)"
    using sw_content_seal [OF inv, of io_ok] segs1 xy by (simp add: sw_content_def)
  define files where "files = (\<lambda>k. if k \<in> seg_start ` set ys then None else sw_files ?w1 k)"
  have del: "delete_after io_ok l (rev (xs @ ys)) (sw_files ?w1) = (Inr (), rev xs, files)"
    unfolding files_def
  proof (rule delete_after_rev [OF ys])
    show "xs = [] \<or> seg_start (last xs) < l" using xs by (cases "xs = []") simp_all
  qed
  have dist: "distinct (map seg_start (xs @ ys))" using seg_chain_distinct [OF ch] xy by simp
  then have keep: "\<forall>s\<in>set xs. files (seg_start s) = sw_files ?w1 (seg_start s)"
    by (auto simp: files_def)
  have sort: "sort_key seg_start (sw_sealed ?w1) = xs @ ys"
    using seg_chain_sort_key [OF ch] xy by simp
  have flx: "seg_files files xs"
    using fl keep xy dist by (auto simp: seg_files_def files_def dom_def)
  obtain m where m: "seg_chain xs (sw_lo w) m" "seg_chain ys m (sw_flush w)"
    using ch xy by (auto simp: seg_chain_append)
  have lenx: "length (segs_data files xs) = m - sw_lo w"
    using length_segs_data [OF m(1)] flx by (simp add: seg_files_def)
  have datax: "segs_data (sw_files ?w1) xs = segs_data files xs"
    using keep by (intro segs_data_cong) simp
  have lm: "l \<le> m"
  proof (cases ys)
    case Nil
    then show ?thesis using m(2) l by simp
  next
    case (Cons y ys')
    then show ?thesis using m(2) ys by simp
  qed
  show ?thesis
  proof (cases xs rule: rev_cases)
    case Nil
    let ?w' = "?w1\<lparr>sw_sealed := [], sw_files := files, sw_flush := l\<rparr>"
    have "wal_truncate_from io_ok w l = (Inr (), ?w')"
      using nw l sort del Nil by (simp add: wal_truncate_from_def io_ok_def Let_def)
    moreover have "l \<le> sw_lo w" using Nil m(1) lm by simp
    moreover have "wal_segs ?w' = []" by (simp add: wal_segs_def)
    ultimately show ?thesis
      using nw ne flx Nil by (auto simp: sw_inv_def sw_lo_def sw_content_def segs_data_def)
  next
    case (snoc zs s)
    from m(1) snoc have cz: "seg_chain zs (sw_lo w) (seg_start s)" and es: "seg_end s = m"
      and lt: "seg_start s < seg_end s"
      by (auto simp: seg_chain_append)
    have sl: "seg_start s < l" using xs snoc by simp
    obtain d where d: "files (seg_start s) = Some d" "length d = seg_end s - seg_start s"
      using flx snoc unfolding seg_files_def by fastforce
    let ?s = "s\<lparr>seg_end := l\<rparr>"
    let ?f = "files(seg_start s \<mapsto> take (l - seg_start s) d)"
    let ?w' = "?w1\<lparr>sw_sealed := zs @ [?s], sw_files := ?f, sw_flush := l\<rparr>"
    have other: "\<forall>t\<in>set zs. seg_start t \<noteq> seg_start s" using seg_chain_starts [OF cz] by fastforce
    have res: "wal_truncate_from io_ok w l = (Inr (), ?w')"
    proof (cases "seg_end s > l")
      case True
      then show ?thesis using nw l sort del snoc sl d
        by (simp add: wal_truncate_from_def io_ok_def Let_def)
    next
      case False
      then have "seg_end s = l" using es lm by simp
      moreover from this have "?s = s" "?f = files" using d by (auto simp: fun_eq_iff)
      ultimately show ?thesis using nw l sort del snoc sl d
        by (simp add: wal_truncate_from_def io_ok_def Let_def)
    qed
    have segs': "wal_segs ?w' = zs @ [?s]" by (simp add: wal_segs_def)
    have lo: "sw_lo ?w' = sw_lo w"
      using segs' cz by (cases zs) (auto simp: sw_lo_def)
    have lol: "sw_lo w < l" using seg_chain_le [OF cz] sl by simp
    have "seg_files ?f (zs @ [?s])"
      using flx snoc other d sl es lm by (auto simp: seg_files_def)
    moreover have "seg_chain (zs @ [?s]) (sw_lo w) l" using cz sl by (auto simp: seg_chain_append)
    ultimately have "sw_inv ?w'" using segs' lo nw ne by (simp add: sw_inv_def)
    moreover have "sw_content ?w' = take (l - sw_lo w) (sw_content w)"
    proof -
      have zd: "segs_data ?f zs = segs_data files zs" using other by (rule segs_data_other)
      have zlen: "length (segs_data files zs) = seg_start s - sw_lo w"
        using length_segs_data [OF cz] flx snoc by (simp add: seg_files_def)
      have "take (l - sw_lo w) (segs_data files zs @ d) = segs_data files zs @ take (l - seg_start s) d"
        using zlen seg_chain_le [OF cz] sl by (simp add: diff_diff_left)
      moreover have "sw_content ?w' = segs_data files zs @ take (l - seg_start s) d"
        using segs' zd by (simp add: sw_content_def) (simp add: segs_data_def)
      moreover have "sw_content w = (segs_data files zs @ d) @ segs_data (sw_files ?w1) ys"
        using cont datax snoc d by (simp add: segs_data_def)
      moreover have "l - sw_lo w \<le> length (segs_data files zs @ d)"
        using zlen d(2) es lm lol seg_chain_le [OF cz] lt by simp
      ultimately show ?thesis by simp
    qed
    ultimately show ?thesis using res lo lol ne by (auto simp: min_def)
  qed
qed

lemma wal_truncate_beyond:
  "sw_inv w \<Longrightarrow> sw_flush w \<le> l \<Longrightarrow> wal_truncate_from io_ok w l = (Inr (), w)"
  by (simp add: wal_truncate_from_def sw_inv_def)

section \<open>Dropping covered segments\<close>

lemma delete_below_ok:
  "\<exists>ds rest. ss = ds @ rest \<and> (\<forall>s\<in>set ds. seg_end s \<le> h) \<and>
     delete_below io_ok h n ss files =
       (rest, (\<lambda>k. if k \<in> seg_start ` set ds then None else files k))"
proof (induction n arbitrary: ss files)
  case 0
  then show ?case by (intro exI [of _ "[]"] exI [of _ ss]) simp
next
  case (Suc n)
  show ?case
  proof (cases ss)
    case Nil
    then show ?thesis by simp
  next
    case (Cons s ss')
    show ?thesis
    proof (cases "seg_end s > h")
      case True
      with Cons show ?thesis by (intro exI [of _ "[]"] exI [of _ ss]) simp
    next
      case False
      obtain ds rest where "ss' = ds @ rest" "\<forall>s\<in>set ds. seg_end s \<le> h"
        "delete_below io_ok h n ss' (files(seg_start s := None)) =
         (rest, (\<lambda>k. if k \<in> seg_start ` set ds then None else (files(seg_start s := None)) k))"
        using Suc by blast
      with Cons False show ?thesis
        by (intro exI [of _ "s # ds"] exI [of _ rest]) (auto simp: io_ok_def fun_eq_iff)
    qed
  qed
qed

lemma seg_chain_end_le: "seg_chain ss a b \<Longrightarrow> \<forall>s\<in>set ss. seg_end s \<le> h \<Longrightarrow> b \<le> max a h"
  by (induction ss arbitrary: a) fastforce+

lemma wal_drop_below_ok:
  assumes inv: "sw_inv w"
  shows "\<exists>k. sw_inv (wal_drop_below io_ok w h) \<and> k \<le> length (sw_content w) \<and>
     sw_lo (wal_drop_below io_ok w h) = sw_lo w + k \<and>
     sw_content (wal_drop_below io_ok w h) = drop k (sw_content w) \<and>
     sw_empty (wal_drop_below io_ok w h) = sw_empty w \<and> sw_lo w + k \<le> max (sw_lo w) h"
proof -
  define n where "n = (if sw_active w \<noteq> None then length (sw_sealed w) else length (sw_sealed w) - 1)"
  define act where "act = (case sw_active w of None \<Rightarrow> [] | Some s \<Rightarrow> [s])"
  have segs: "wal_segs w = sw_sealed w @ act" by (simp add: wal_segs_def act_def)
  have ch: "seg_chain (sw_sealed w @ act) (sw_lo w) (sw_flush w)"
    and fl: "seg_files (sw_files w) (sw_sealed w @ act)" and nw: "\<not> sw_wedged w"
    using inv segs by (auto simp: sw_inv_def)
  obtain ds rest where ds: "sw_sealed w = ds @ rest" "\<forall>s\<in>set ds. seg_end s \<le> h"
    and del: "delete_below io_ok h n (sw_sealed w) (sw_files w) =
       (rest, (\<lambda>k. if k \<in> seg_start ` set ds then None else sw_files w k))"
    using delete_below_ok [of "sw_sealed w" h n "sw_files w"] by blast
  let ?f = "\<lambda>k. if k \<in> seg_start ` set ds then None else sw_files w k"
  have sort: "sort_key seg_start (sw_sealed w) = sw_sealed w"
    using ch seg_chain_sort_key by (auto simp: seg_chain_append)
  have w': "wal_drop_below io_ok w h = w\<lparr>sw_sealed := rest, sw_files := ?f\<rparr>" (is "_ = ?w")
    using del unfolding wal_drop_below_def sort Let_def n_def [symmetric] by simp
  have segs': "wal_segs ?w = rest @ act" by (simp add: wal_segs_def act_def)
  obtain m where m: "seg_chain ds (sw_lo w) m" "seg_chain (rest @ act) m (sw_flush w)"
    using ch ds(1) by (auto simp: seg_chain_append)
  have dist: "distinct (map seg_start (ds @ rest @ act))" using seg_chain_distinct [OF ch] ds(1) by simp
  then have keep: "\<forall>s\<in>set (rest @ act). ?f (seg_start s) = sw_files w (seg_start s)" by auto
  have lo: "sw_lo ?w = m"
    using m(2) segs' by (cases "rest @ act") (auto simp: sw_lo_def)
  have fl': "seg_files ?f (rest @ act)"
    using fl keep ds(1) dist unfolding seg_files_def by (auto simp: dom_def)
  have emp: "sw_empty w \<Longrightarrow> rest @ act = [] \<and> sw_flush w = 0"
    using inv segs ds(1) by (auto simp: sw_inv_def)
  have inv': "sw_inv ?w" unfolding sw_inv_def segs' lo using nw m(2) fl' emp by auto
  have len: "length (segs_data (sw_files w) ds) = m - sw_lo w"
    using length_segs_data [OF m(1)] fl ds(1) by (simp add: seg_files_def)
  have cont: "sw_content w = segs_data (sw_files w) ds @ segs_data (sw_files w) (rest @ act)"
    using segs ds(1) by (simp add: sw_content_def)
  have cont': "sw_content ?w = segs_data (sw_files w) (rest @ act)"
    using segs_data_cong [OF keep] segs' by (simp add: sw_content_def)
  have "m \<le> max (sw_lo w) h" using seg_chain_end_le [OF m(1) ds(2)] .
  then show ?thesis
    using inv' lo cont cont' len seg_chain_le [OF m(1)] w'
    by (intro exI [of _ "m - sw_lo w"]) simp
qed

section \<open>Reading\<close>

text \<open>A read collects, from each segment, the part of the range that lies in it.\<close>

lemma read_segs_chain:
  assumes "seg_chain ss x y" "a < b"
    "\<forall>s\<in>set ss. \<exists>d. files (seg_start s) = Some d \<and> length d = seg_end s - seg_start s"
  shows "read_segs io_ok files a b ss out =
         Inr (out @ take (min b y - max a x) (drop (max a x - x) (segs_data files ss)))"
  using assms(1,3)
proof (induction ss arbitrary: x out)
  case Nil
  then show ?case by (simp add: segs_data_def)
next
  case (Cons s ss)
  obtain d where d: "files (seg_start s) = Some d" "length d = seg_end s - seg_start s"
    using Cons.prems by auto
  have x: "seg_start s = x" "x < seg_end s" and ch: "seg_chain ss (seg_end s) y"
    using Cons.prems(1) by auto
  have ley: "seg_end s \<le> y" using seg_chain_le [OF ch] .
  have IH: "read_segs io_ok files a b ss o' =
      Inr (o' @ take (min b y - max a (seg_end s)) (drop (max a (seg_end s) - seg_end s) (segs_data files ss)))" for o'
    using Cons.IH [OF ch] Cons.prems(2) by simp
  have data: "segs_data files (s # ss) = d @ segs_data files ss" using d by (simp add: segs_data_def)
  have skip: "read_segs io_ok files a b (s # ss) out = read_segs io_ok files a b ss out"
    if "seg_end s \<le> a \<or> b \<le> seg_start s" using that by auto
  consider "seg_end s \<le> a" | "b \<le> x" | "a < seg_end s" "x < b" by linarith
  then show ?case
  proof cases
    case 1
    with d x have "drop (max a x - x) (d @ segs_data files ss) = drop (a - seg_end s) (segs_data files ss)"
      by (simp add: max_def)
    with 1 x show ?thesis using skip IH [of out] data by (simp add: max_def)
  next
    case 2
    with x show ?thesis using skip IH [of out] by (simp add: min_def max_def)
  next
    case 3
    let ?lo = "max a x - x"
    let ?hi = "min b (seg_end s) - x"
    have "read_segs io_ok files a b (s # ss) out =
          read_segs io_ok files a b ss (out @ take (?hi - ?lo) (drop ?lo d))"
    proof -
      have "\<not> ?hi > length d" using d x by simp
      then show ?thesis using 3 d x by (simp add: Let_def) (simp add: io_ok_def)
    qed
    moreover have "take (min b y - max a x) (drop ?lo (d @ segs_data files ss)) =
        take (?hi - ?lo) (drop ?lo d) @
        take (min b y - max a (seg_end s)) (drop (max a (seg_end s) - seg_end s) (segs_data files ss))"
    proof (cases "b \<le> seg_end s")
      case True
      with 3 d x ley show ?thesis by (simp add: min_def max_def)
    next
      case False
      have e: "?hi - ?lo = length (drop ?lo d)" "max a (seg_end s) = seg_end s"
        "min b y - max a x = length (drop ?lo d) + (min b y - seg_end s)" "?lo \<le> length d"
        using 3 d x ley False by auto
      have "drop ?lo (d @ segs_data files ss) = drop ?lo d @ segs_data files ss"
        using e(4) by simp
      then show ?thesis unfolding e(1-3) by (simp only: take_append) simp
    qed
    ultimately show ?thesis using IH data by simp
  qed
qed

lemma wal_read_eq:
  assumes inv: "sw_inv w" and ab: "a < b"
  shows "wal_read io_ok w a b =
     (let out = take (min b (sw_flush w) - max a (sw_lo w)) (drop (max a (sw_lo w) - sw_lo w) (sw_content w))
      in if length out \<noteq> b - a then Inl ''log range is not fully retained here'' else Inr out)"
proof -
  have ch: "seg_chain (wal_segs w) (sw_lo w) (sw_flush w)"
    and fl: "\<forall>s\<in>set (wal_segs w). \<exists>d. sw_files w (seg_start s) = Some d \<and> length d = seg_end s - seg_start s"
    using inv unfolding sw_inv_def seg_files_def by fastforce+
  show ?thesis
    using read_segs_chain [OF ch ab fl, of "[]"]
    by (simp add: wal_read_def seg_chain_sort_key [OF ch] sw_content_def Let_def)
qed

lemma wal_read_retained:
  assumes "sw_inv w" "sw_lo w \<le> a" "a < b" "b \<le> sw_flush w"
  shows "wal_read io_ok w a b = Inr (take (b - a) (drop (a - sw_lo w) (sw_content w)))"
proof -
  have "min b (sw_flush w) = b" "max a (sw_lo w) = a" using assms by auto
  moreover have "b - a \<le> length (sw_content w) - (a - sw_lo w)"
    using assms sw_flush_eq [OF assms(1)] by simp
  ultimately show ?thesis using assms(1,3) by (simp add: wal_read_eq Let_def min_def)
qed

lemma wal_read_not_retained:
  assumes "sw_inv w" "a < b" "a < sw_lo w \<or> sw_flush w < b"
  shows "\<exists>e. wal_read io_ok w a b = Inl e"
proof -
  have "min b (sw_flush w) - max a (sw_lo w) < b - a"
    using assms(2,3) sw_flush_eq [OF assms(1)] by (auto simp: min_def max_def)
  then show ?thesis using assms(1,2) by (simp add: wal_read_eq Let_def min_def)
qed

section \<open>The segment files satisfy the contract\<close>

lemma sw_empty_zero: "sw_inv w \<Longrightarrow> sw_empty w \<Longrightarrow> sw_lo w = 0 \<and> sw_content w = []"
  by (simp add: sw_inv_def sw_lo_def sw_content_def segs_data_def)

interpretation sw: wal_laws "segment_wal_ops io_ok" sw_inv sw_lo sw_content
proof (unfold_locales, goal_cases)
  case (7 w h)
  then show ?case using wal_drop_below_ok by (simp only: segment_wal_ops_def wal_store.simps)
qed (simp_all add: segment_wal_ops_def sw_flush_eq sw_empty_zero sw_retained_eq wal_append_ok
       wal_truncate_beyond wal_truncate_cut wal_read_retained wal_read_not_retained)

end
