(* ===== verification/WalBoot.thy ===== *)
theory WalBoot
  imports WalSegments
begin

text \<open>
  The boot scan of \<^verbatim>\<open>SegmentWal::open\<close>: a directory of segment files that hold whole records,
  the newest of which may end in a torn record, is opened as the log of exactly the whole
  records, and the opened log satisfies the invariant of \<^verbatim>\<open>WalSegments\<close>.
\<close>

text \<open>Segment files with the records in them, laid out contiguously from one position to another.\<close>

fun rec_dir :: "(bytes \<Rightarrow> 32 word) \<Rightarrow> lsn \<Rightarrow> (lsn \<times> log_record list) list \<Rightarrow> lsn \<Rightarrow> bool" where
  "rec_dir crc a [] b = (a = b)"
| "rec_dir crc a ((s, rs) # fs) b =
     (s = a \<and> rs \<noteq> [] \<and> (\<forall>r\<in>set rs. record_wf r) \<and> contiguous a rs \<and>
      rec_dir crc (a + length (records_bytes crc rs)) fs b)"

definition rec_file :: "(bytes \<Rightarrow> 32 word) \<Rightarrow> lsn \<times> log_record list \<Rightarrow> lsn \<times> bytes" where
  "rec_file crc f = (fst f, records_bytes crc (snd f))"

definition rec_seg :: "(bytes \<Rightarrow> 32 word) \<Rightarrow> lsn \<times> log_record list \<Rightarrow> seg" where
  "rec_seg crc f = \<lparr>seg_start = fst f, seg_end = fst f + length (records_bytes crc (snd f))\<rparr>"

section \<open>One segment\<close>

lemma scan_lsns_records:
  assumes "\<forall>r\<in>set rs. record_wf r" "contiguous pos rs" "length pre = off" "pos = start + off"
  shows "scan_lsns (pre @ records_bytes crc rs @ rest) start (frame_ranges off (map record_payload rs)) pos good
         = ((if rs = [] then good else off + length (records_bytes crc rs)), None)"
  using assms
proof (induction rs arbitrary: pre off pos good)
  case Nil
  then show ?case by simp
next
  case (Cons r rs)
  let ?p = "record_payload r"
  let ?data = "pre @ records_bytes crc (r # rs) @ rest"
  have lsn: "r_lsn r < 256 ^ 8" "r_lsn r = pos" using Cons.prems by (auto simp: record_wf_def)
  have "drop (off + 8) ?data = ?p @ records_bytes crc rs @ rest"
    using Cons.prems(3) by (simp add: frame_def)
  then have "le_nat (take 8 (drop (off + 8) ?data)) = pos"
    using lsn by (simp add: record_payload_def)
  moreover have "8 \<le> length ?p" by (simp add: length_record_payload)
  moreover have "scan_lsns ((pre @ frame crc ?p) @ records_bytes crc rs @ rest) start
      (frame_ranges (off + 8 + length ?p) (map record_payload rs)) (start + (off + 8 + length ?p))
      (off + 8 + length ?p)
    = ((if rs = [] then off + 8 + length ?p else off + 8 + length ?p + length (records_bytes crc rs)), None)"
    using Cons.prems by (intro Cons.IH) (auto simp: algebra_simps)
  ultimately show ?case using Cons.prems(3) by (auto simp: algebra_simps)
qed

lemma payload_lens: "\<forall>r\<in>set rs. record_wf r \<Longrightarrow> \<forall>p\<in>set (map record_payload rs). length p \<le> U32_MAX"
  by (auto simp: record_wf_def)

lemma scan_wal_segment_whole:
  assumes "\<forall>r\<in>set rs. record_wf r" "contiguous start rs"
  shows "scan_wal_segment io_ok crc (records_bytes crc rs) start =
         Inr (start + length (records_bytes crc rs), False, records_bytes crc rs)"
  using scan_lsns_records [OF assms, of "[]" 0 start crc "[]" 0]
    scan_frame_bytes_frames [OF payload_lens [OF assms(1)], of crc]
  by (auto simp: scan_wal_segment_def io_ok_def Let_def records_bytes_def)

lemma scan_wal_segment_torn:
  assumes "\<forall>r\<in>set rs. record_wf r" "contiguous start rs" "length p \<le> U32_MAX"
    "0 < k" "k < length (frame crc p)"
  shows "scan_wal_segment io_ok crc (records_bytes crc rs @ take k (frame crc p)) start =
         Inr (start + length (records_bytes crc rs), True, records_bytes crc rs)"
proof -
  let ?data = "records_bytes crc rs @ take k (frame crc p)"
  obtain why where "scan_frame_bytes crc ?data =
     \<lparr>payloads = frame_ranges 0 (map record_payload rs), good_end = length (records_bytes crc rs),
      bad = Some why\<rparr>"
    using scan_torn_tail [OF payload_lens [OF assms(1)] assms(3-5)] unfolding records_bytes_def by blast
  moreover have "scan_lsns ?data start (frame_ranges 0 (map record_payload rs)) start 0 =
      (length (records_bytes crc rs), None)"
    using scan_lsns_records [OF assms(1,2), of "[]" 0 start crc "take k (frame crc p)" 0] by auto
  ultimately show ?thesis by (simp add: scan_wal_segment_def io_ok_def Let_def)
qed

section \<open>The directory\<close>

lemma open_loop_append:
  "open_loop io crc (xs @ ys) st =
     (case open_loop io crc xs st of Inl e \<Rightarrow> Inl e | Inr st' \<Rightarrow> open_loop io crc ys st')"
proof (induction xs arbitrary: st)
  case Nil
  then show ?case by simp
next
  case (Cons f xs)
  then show ?case
    by (cases f) (auto simp: Let_def split: sum.splits option.splits prod.splits)
qed

lemma rec_dir_seg_chain: "rec_dir crc a fs b \<Longrightarrow> seg_chain (map (rec_seg crc) fs) a b"
proof (induction fs arbitrary: a)
  case Nil
  then show ?case by simp
next
  case (Cons f fs)
  then show ?case by (cases f) (auto simp: rec_seg_def)
qed

lemma open_loop_rec_dir:
  assumes "rec_dir crc a fs b" "\<not> os_stop st" "os_pos st = None \<or> os_pos st = Some a"
    "\<forall>f\<in>set fs. os_files st (fst f) = Some (records_bytes crc (snd f))"
  shows "open_loop io_ok crc (map (rec_file crc) fs) st =
     Inr (st\<lparr>os_sealed := os_sealed st @ map (rec_seg crc) fs,
             os_pos := (if fs = [] then os_pos st else Some b)\<rparr>)"
  using assms
proof (induction fs arbitrary: a st)
  case Nil
  then show ?case by simp
next
  case (Cons f fs)
  obtain s rs where f: "f = (s, rs)" by force
  from Cons.prems(1) f have s: "s = a" and rs: "rs \<noteq> []" "\<forall>r\<in>set rs. record_wf r" "contiguous s rs"
    and d: "rec_dir crc (s + length (records_bytes crc rs)) fs b" by auto
  have upd: "(os_files st)(s \<mapsto> records_bytes crc rs) = os_files st"
    using Cons.prems(4) f by (auto simp: fun_eq_iff)
  let ?e = "s + length (records_bytes crc rs)"
  let ?st = "st\<lparr>os_sealed := os_sealed st @ [\<lparr>seg_start = s, seg_end = ?e\<rparr>], os_pos := Some ?e\<rparr>"
  have "open_loop io_ok crc (map (rec_file crc) (f # fs)) st = open_loop io_ok crc (map (rec_file crc) fs) ?st"
    using Cons.prems(2,3) f s scan_wal_segment_whole [OF rs(2,3), of crc] upd rs(1)
    by (cases st) (auto simp: rec_file_def Let_def)
  also have "\<dots> = Inr (?st\<lparr>os_sealed := os_sealed ?st @ map (rec_seg crc) fs,
      os_pos := (if fs = [] then os_pos ?st else Some b)\<rparr>)"
    using Cons.prems by (intro Cons.IH [OF d]) auto
  also have "(if fs = [] then os_pos ?st else Some b) = Some b" using d by auto
  finally show ?case using f by (simp add: rec_seg_def)
qed

lemma segs_data_rec:
  "\<forall>f\<in>set fs. files (fst f) = Some (records_bytes crc (snd f)) \<Longrightarrow>
   segs_data files (map (rec_seg crc) fs) = concat (map (\<lambda>f. records_bytes crc (snd f)) fs)"
  by (induction fs) (simp_all add: segs_data_def rec_seg_def)

lemma rec_dir_starts: "rec_dir crc a fs b \<Longrightarrow> f \<in> set fs \<Longrightarrow> fst f < b"
proof -
  assume "rec_dir crc a fs b" "f \<in> set fs"
  then have "seg_start (rec_seg crc f) < b"
    using seg_chain_starts [OF rec_dir_seg_chain, of crc a fs b "rec_seg crc f"] by force
  then show ?thesis by (simp add: rec_seg_def)
qed

lemma rec_dir_distinct: "rec_dir crc a fs b \<Longrightarrow> distinct (map fst fs)"
  using seg_chain_distinct [OF rec_dir_seg_chain, of crc a fs b] by (simp add: rec_seg_def comp_def)

lemma rec_dir_map_of:
  assumes "rec_dir crc a fs b" "f \<in> set fs"
  shows "map_of (map (rec_file crc) fs @ [(b, d)]) (fst f) = Some (records_bytes crc (snd f))"
proof -
  have "distinct (map fst (map (rec_file crc) fs))"
    using rec_dir_distinct [OF assms(1)] by (simp add: rec_file_def comp_def)
  moreover have "(fst f, records_bytes crc (snd f)) \<in> set (map (rec_file crc) fs)"
    using assms(2) by (auto simp: rec_file_def)
  ultimately have "map_of (map (rec_file crc) fs) (fst f) = Some (records_bytes crc (snd f))"
    by (rule map_of_is_SomeI)
  moreover have "map_of [(b, d)] (fst f) = None" using rec_dir_starts [OF assms] by simp
  ultimately show ?thesis by (simp add: map_of_append map_add_def)
qed

lemma rec_dir_last_file:
  assumes "rec_dir crc a fs b"
  shows "map_of (map (rec_file crc) fs @ [(b, d)]) b = Some d"
proof -
  have "b \<notin> fst ` set (map (rec_file crc) fs)"
    using rec_dir_starts [OF assms] by (force simp: rec_file_def)
  then have "map_of (map (rec_file crc) fs) b = None" unfolding map_of_eq_None_iff .
  then show ?thesis by (simp add: map_add_def)
qed

lemma rec_dir_dom:
  "dom (map_of (map (rec_file crc) fs @ [(b, d)])) = insert b (fst ` set fs)"
  by (auto simp: dom_map_of_conv_image_fst rec_file_def image_image)

text \<open>What the newest file scans to: its whole records, with or without a torn record after them.\<close>

lemma scan_newest:
  assumes "\<forall>r\<in>set rs. record_wf r" "contiguous b rs" "length p \<le> U32_MAX" "k < length (frame crc p)"
  shows "\<exists>bad. scan_wal_segment io_ok crc (records_bytes crc rs @ take k (frame crc p)) b =
         Inr (b + length (records_bytes crc rs), bad, records_bytes crc rs)"
  using scan_wal_segment_whole [OF assms(1,2)] scan_wal_segment_torn [OF assms(1-3) _ assms(4)]
  by (cases "k = 0") auto

lemma segment_wal_open_recovers:
  assumes dir: "rec_dir crc a fs b" and rs: "\<forall>r\<in>set rs. record_wf r" "contiguous b rs"
    and p: "length p \<le> U32_MAX" "k < length (frame crc p)"
  shows "\<exists>w. segment_wal_open io_ok crc
        (map (rec_file crc) fs @ [(b, records_bytes crc rs @ take k (frame crc p))]) = Inr w \<and>
      sw_inv w \<and> sw_flush w = b + length (records_bytes crc rs) \<and>
      sw_lo w = (if fs = [] \<and> rs = [] then b else a) \<and>
      sw_content w = concat (map (\<lambda>f. records_bytes crc (snd f)) fs) @ records_bytes crc rs"
proof -
  let ?d = "records_bytes crc rs @ take k (frame crc p)"
  let ?e = "b + length (records_bytes crc rs)"
  define files where "files = map_of (map (rec_file crc) fs @ [(b, ?d)])"
  let ?fs = "if rs = [] then fs else fs @ [(b, rs)]"
  let ?files = "if rs = [] then files(b := None) else files(b \<mapsto> records_bytes crc rs)"
  obtain bad where scan: "scan_wal_segment io_ok crc ?d b = Inr (?e, bad, records_bytes crc rs)"
    using scan_newest [OF rs p] by blast
  let ?st = "\<lparr>os_sealed = map (rec_seg crc) fs, os_files = files,
              os_pos = (if fs = [] then None else Some b), os_stop = False\<rparr>"
  have old: "\<forall>f\<in>set fs. files (fst f) = Some (records_bytes crc (snd f))"
    using rec_dir_map_of [OF dir] unfolding files_def by blast
  have "open_loop io_ok crc (map (rec_file crc) fs)
      \<lparr>os_sealed = [], os_files = files, os_pos = None, os_stop = False\<rparr> = Inr ?st"
    using open_loop_rec_dir [OF dir, of "\<lparr>os_sealed = [], os_files = files, os_pos = None, os_stop = False\<rparr>"]
      old by simp
  moreover have "open_loop io_ok crc [(b, ?d)] ?st =
      Inr \<lparr>os_sealed = map (rec_seg crc) ?fs, os_files = ?files, os_pos = Some ?e, os_stop = bad\<rparr>"
    using scan by (auto simp: Let_def remove_file_def io_ok_def rec_seg_def)
  ultimately have op: "segment_wal_open io_ok crc (map (rec_file crc) fs @ [(b, ?d)]) =
      Inr \<lparr>sw_files = ?files, sw_sealed = map (rec_seg crc) ?fs, sw_active = None, sw_flush = ?e,
           sw_empty = (?fs = [] \<and> ?e = 0), sw_rotate_bytes = SEGMENT_ROTATE_BYTES, sw_wedged = False\<rparr>"
    (is "_ = Inr ?w")
    unfolding segment_wal_open_def open_loop_append files_def [symmetric]
    by (simp only: sum.case Let_def open_state.simps option.case) simp
  have segs: "wal_segs ?w = map (rec_seg crc) ?fs" by (simp add: wal_segs_def)
  have ch0: "seg_chain (map (rec_seg crc) fs) a b" using dir by (rule rec_dir_seg_chain)
  have ch: "seg_chain (map (rec_seg crc) ?fs) a ?e"
    using ch0 by (auto simp: seg_chain_append rec_seg_def)
  have lo: "sw_lo ?w = (if fs = [] \<and> rs = [] then b else a)"
    using ch0 segs by (cases fs; cases "rs = []") (auto simp: sw_lo_def rec_seg_def)
  have new: "\<forall>f\<in>set ?fs. ?files (fst f) = Some (records_bytes crc (snd f))"
    using old rec_dir_starts [OF dir] by auto
  have "dom ?files = fst ` set ?fs"
    using rec_dir_dom [of crc fs b ?d] rec_dir_starts [OF dir] unfolding files_def by auto
  then have "seg_files ?files (map (rec_seg crc) ?fs)"
    using new unfolding seg_files_def by (auto simp: rec_seg_def image_image)
  then have "sw_inv ?w"
    unfolding sw_inv_def segs using ch lo dir by (auto split: if_splits)
  moreover have "sw_content ?w = concat (map (\<lambda>f. records_bytes crc (snd f)) ?fs)"
    unfolding sw_content_def segs using segs_data_rec [OF new] by simp
  ultimately show ?thesis using op lo by auto
qed

end
