(* ===== verification/Acceptor.thy ===== *)
theory Acceptor
  imports Messages WalBoot
begin

text \<open>
  The acceptor of \<^verbatim>\<open>icegres/src/quorum/acceptor.rs\<close>: the persistent state and its control
  file, the message handlers with their persist-before-respond discipline, and the opening
  of a data directory.  The handlers are parameterised by the log operations (\<open>ops\<close>, the
  \<^verbatim>\<open>WalStore\<close> trait), by the checksum, and by the outcome of every control-file write
  (\<open>po\<close>): a failed write may leave the old or the new document on disk.
\<close>

section \<open>Persistent state\<close>

definition CONTROL_FORMAT :: nat where
  "CONTROL_FORMAT = 1"

record persistent_state =
  ps_tail_id :: "string option"
  ps_node_id :: nat
  ps_term :: nat
  ps_term_history :: term_history
  ps_commit_lsn :: lsn
  ps_horizon_lsn :: lsn

definition persistent_state_new :: "nat \<Rightarrow> persistent_state" where
  "persistent_state_new node_id =
     \<lparr>ps_tail_id = None, ps_node_id = node_id, ps_term = 0, ps_term_history = [],
      ps_commit_lsn = 0, ps_horizon_lsn = 0\<rparr>"

definition persistent_state_to_json :: "persistent_state \<Rightarrow> json" where
  "persistent_state_to_json s =
     JObject [(''format'', json_u64 CONTROL_FORMAT), (''tail_id'', json_opt_str (ps_tail_id s)),
              (''node_id'', json_u64 (ps_node_id s)), (''term'', json_u64 (ps_term s)),
              (''term_history'', history_to_json (ps_term_history s)),
              (''commit_lsn'', json_u64 (ps_commit_lsn s)),
              (''horizon_lsn'', json_u64 (ps_horizon_lsn s))]"

definition unwrap_or :: "'a option \<Rightarrow> 'a \<Rightarrow> 'a" where
  "unwrap_or x d = (case x of None \<Rightarrow> d | Some v \<Rightarrow> v)"

definition persistent_state_from_json :: "json \<Rightarrow> persistent_state result" where
  "persistent_state_from_json v =
     (let format = unwrap_or (Option.bind (json_get v ''format'') as_u64) 0 in
      if format \<noteq> CONTROL_FORMAT then Inl ''icekeeper control file declares another format''
      else
        rbind (ok_or (Option.bind (json_get v ''node_id'') as_u64) ''control file has no node_id'') (\<lambda>node_id.
        rbind (ok_or (Option.bind (json_get v ''term'') as_u64) ''control file has no term'') (\<lambda>t.
        rbind (ok_or (json_get v ''term_history'') ''control file has no term_history'') (\<lambda>hv.
        rbind (history_from_json hv) (\<lambda>h.
          Inr \<lparr>ps_tail_id = Option.bind (json_get v ''tail_id'') as_str, ps_node_id = node_id,
               ps_term = t, ps_term_history = h,
               ps_commit_lsn = unwrap_or (Option.bind (json_get v ''commit_lsn'') as_u64) 0,
               ps_horizon_lsn = unwrap_or (Option.bind (json_get v ''horizon_lsn'') as_u64) 0\<rparr>)))))"

section \<open>State machine\<close>

text \<open>\<open>a_ctrl\<close> is the document the control file holds, \<open>None\<close> before the first write.\<close>

record 'w acceptor =
  a_state :: persistent_state
  a_ctrl :: "persistent_state option"
  a_wal :: 'w
  a_wedged :: "string option"

definition acceptor_new ::
  "'w wal_store \<Rightarrow> persistent_state \<Rightarrow> persistent_state option \<Rightarrow> 'w \<Rightarrow> 'w acceptor" where
  "acceptor_new ops state ctrl wal =
     \<lparr>a_state = state\<lparr>ps_commit_lsn := min (ps_commit_lsn state) (ws_flush_lsn ops wal)\<rparr>,
      a_ctrl = ctrl, a_wal = wal, a_wedged = None\<rparr>"

datatype persist_outcome = PersistOk | FailOld | FailNew

definition persist ::
  "(persistent_state \<Rightarrow> persist_outcome) \<Rightarrow> 'w acceptor \<Rightarrow> persistent_state \<Rightarrow> unit result \<times> 'w acceptor" where
  "persist po a n =
     (case po n of
        PersistOk \<Rightarrow> (Inr (), a\<lparr>a_ctrl := Some n, a_state := n\<rparr>)
      | FailOld \<Rightarrow> (Inl ''control file persist failed'',
                    a\<lparr>a_wedged := Some ''control file persist failed''\<rparr>)
      | FailNew \<Rightarrow> (Inl ''control file persist failed'',
                    a\<lparr>a_ctrl := Some n, a_wedged := Some ''control file persist failed''\<rparr>))"

definition WRONG_CLUSTER_MARK :: string where
  "WRONG_CLUSTER_MARK = ''wrong cluster''"

definition handle_greeting ::
  "'w wal_store \<Rightarrow> (persistent_state \<Rightarrow> persist_outcome) \<Rightarrow> 'w acceptor \<Rightarrow> string option \<Rightarrow>
   message result \<times> 'w acceptor" where
  "handle_greeting ops po a tail_id =
     (let step =
        (case tail_id of
           None \<Rightarrow> (Inr (), a)
         | Some tid \<Rightarrow>
             (case ps_tail_id (a_state a) of
                None \<Rightarrow> persist po a ((a_state a)\<lparr>ps_tail_id := Some tid\<rparr>)
              | Some mine \<Rightarrow>
                  (if mine \<noteq> tid
                   then (Inl (''this acceptor belongs to tail '' @ mine @ ''; refusing a greeting for tail ''
                              @ tid @ '' ('' @ WRONG_CLUSTER_MARK @ '')''), a)
                   else (Inr (), a))))
      in case step of
           (Inl e, a1) \<Rightarrow> (Inl e, a1)
         | (Inr _, a1) \<Rightarrow>
             (Inr (GreetingResp (ps_tail_id (a_state a1)) (ps_term (a_state a1))
                     (ws_flush_lsn ops (a_wal a1))), a1))"

definition handle_vote ::
  "'w wal_store \<Rightarrow> (persistent_state \<Rightarrow> persist_outcome) \<Rightarrow> 'w acceptor \<Rightarrow> nat \<Rightarrow>
   message result \<times> 'w acceptor" where
  "handle_vote ops po a t =
     (let flush = ws_flush_lsn ops (a_wal a);
          step = (if ps_term (a_state a) < t
                  then (case persist po a ((a_state a)\<lparr>ps_term := t\<rparr>) of
                          (Inl e, a1) \<Rightarrow> (Inl e, a1)
                        | (Inr _, a1) \<Rightarrow> (Inr True, a1))
                  else (Inr False, a))
      in case step of
           (Inl e, a1) \<Rightarrow> (Inl e, a1)
         | (Inr granted, a1) \<Rightarrow>
             (let s = a_state a1 in
              (Inr (VoteResponse (ps_term s) granted flush (last_log_term (ps_term_history s) flush)
                      (up_to (ps_term_history s) flush)
                      (max (ps_horizon_lsn s) (ws_retained_start ops (a_wal a1)))
                      (ps_commit_lsn s)), a1)))"

text \<open>The start position \<^verbatim>\<open>handle_elected\<close> expects, from the effective history and the log end.\<close>

definition divergence_start ::
  "term_history \<Rightarrow> term_history \<Rightarrow> lsn \<Rightarrow> bool \<Rightarrow> lsn \<Rightarrow> lsn result" where
  "divergence_start h sk_th flush wal_empty start_lsn =
     (case find_highest_common_point h sk_th flush of
        Inl e \<Rightarrow> Inl e
      | Inr (Some t) \<Rightarrow> Inr (tl_lsn t)
      | Inr None \<Rightarrow>
          (if sk_th = [] \<and> wal_empty then Inr start_lsn
           else case h of
                  [] \<Rightarrow> Inl ''elected message carries an empty term history''
                | e # _ \<Rightarrow> Inr (tl_lsn e)))"

definition expected_start ::
  "'w wal_store \<Rightarrow> 'w acceptor \<Rightarrow> lsn \<Rightarrow> term_history \<Rightarrow> lsn result" where
  "expected_start ops a start_lsn h =
     (let flush = ws_flush_lsn ops (a_wal a);
          sk_th = up_to (ps_term_history (a_state a)) flush
      in divergence_start h sk_th flush (ws_is_empty ops (a_wal a)) start_lsn)"

definition handle_elected ::
  "'w wal_store \<Rightarrow> (persistent_state \<Rightarrow> persist_outcome) \<Rightarrow> 'w acceptor \<Rightarrow> nat \<Rightarrow> lsn \<Rightarrow> term_history \<Rightarrow>
   message result \<times> 'w acceptor" where
  "handle_elected ops po a t start_lsn h =
     (case (if ps_term (a_state a) < t then persist po a ((a_state a)\<lparr>ps_term := t\<rparr>) else (Inr (), a)) of
        (Inl e, a1) \<Rightarrow> (Inl e, a1)
      | (Inr _, a1) \<Rightarrow>
          (if ps_term (a_state a1) > t then (Inr (ElectedResp (ps_term (a_state a1)) False), a1)
           else case expected_start ops a1 start_lsn h of
                  Inl e \<Rightarrow> (Inl e, a1)
                | Inr expected \<Rightarrow>
                    (if expected \<noteq> start_lsn
                     then (Inl ''elected start_lsn does not match the divergence point; retry the handshake'', a1)
                     else if start_lsn < ps_commit_lsn (a_state a1)
                     then (Inl ''refusing to truncate BELOW the committed position'', a1)
                     else case ws_truncate_from ops (a_wal a1) start_lsn of
                            (Inl e, w) \<Rightarrow> (Inl e, a1\<lparr>a_wal := w\<rparr>)
                          | (Inr _, w) \<Rightarrow>
                              (let a2 = a1\<lparr>a_wal := w\<rparr>;
                                   n = (a_state a2)\<lparr>ps_term_history := h,
                                         ps_commit_lsn := min (ps_commit_lsn (a_state a2)) (ws_flush_lsn ops w)\<rparr>
                               in case persist po a2 n of
                                    (Inl e, a3) \<Rightarrow> (Inl e, a3)
                                  | (Inr _, a3) \<Rightarrow> (Inr (ElectedResp (ps_term (a_state a3)) True), a3)))))"

definition handle_append ::
  "'w wal_store \<Rightarrow> (bytes \<Rightarrow> 32 word) \<Rightarrow> (persistent_state \<Rightarrow> persist_outcome) \<Rightarrow> 'w acceptor \<Rightarrow>
   nat \<Rightarrow> lsn \<Rightarrow> lsn \<Rightarrow> lsn \<Rightarrow> lsn \<Rightarrow> bytes \<Rightarrow> message result \<times> 'w acceptor" where
  "handle_append ops crc po a t begin_lsn end_lsn commit_lsn horizon_lsn records =
     (if ps_term (a_state a) < t
      then (Inl ''got an AppendRequest before its ProposerElected'', a)
      else if ps_term (a_state a) > t
      then (Inr (AppendResp (ps_term (a_state a)) False 0 0), a)
      else if records = [] then (Inl ''empty AppendRequest'', a)
      else case decode_records crc records begin_lsn of
             Inl e \<Rightarrow> (Inl e, a)
           | Inr _ \<Rightarrow>
               (if begin_lsn + length records \<noteq> end_lsn
                then (Inl ''AppendRequest end_lsn does not match'', a)
                else
                  (let pos = (if ws_is_empty ops (a_wal a) then begin_lsn else ws_flush_lsn ops (a_wal a)) in
                   if begin_lsn \<noteq> pos then (Inl ''non-consecutive append'', a)
                   else case ws_append ops (a_wal a) begin_lsn records of
                          (Inl e, w) \<Rightarrow> (Inl e, a\<lparr>a_wal := w\<rparr>)
                        | (Inr _, w) \<Rightarrow>
                            (let flush = ws_flush_lsn ops w;
                                 s = a_state a;
                                 commit = min (max commit_lsn (ps_commit_lsn s)) flush;
                                 a1 = a\<lparr>a_wal := w, a_state := s\<lparr>ps_commit_lsn := commit\<rparr>\<rparr>;
                                 new_horizon = max (ps_horizon_lsn s) (min horizon_lsn commit)
                             in if new_horizon > ps_horizon_lsn s
                                then (case persist po a1 ((a_state a1)\<lparr>ps_horizon_lsn := new_horizon\<rparr>) of
                                        (Inl e, a2) \<Rightarrow> (Inl e, a2)
                                      | (Inr _, a2) \<Rightarrow>
                                          (let a3 = a2\<lparr>a_wal := ws_drop_below ops (a_wal a2) new_horizon\<rparr>
                                           in (Inr (AppendResp (ps_term (a_state a3)) True flush
                                                      (ps_commit_lsn (a_state a3))), a3)))
                                else (Inr (AppendResp (ps_term (a_state a1)) True flush
                                             (ps_commit_lsn (a_state a1))), a1)))))"

definition handle_read ::
  "'w wal_store \<Rightarrow> 'w acceptor \<Rightarrow> lsn \<Rightarrow> lsn \<Rightarrow> message result \<times> 'w acceptor" where
  "handle_read ops a from_lsn to_lsn =
     (let to = min to_lsn (ws_flush_lsn ops (a_wal a)) in
      if from_lsn \<ge> to then (Inr (ReadResp from_lsn []), a)
      else case ws_read ops (a_wal a) from_lsn to of
             Inl e \<Rightarrow> (Inl e, a)
           | Inr records \<Rightarrow> (Inr (ReadResp from_lsn records), a))"

definition process ::
  "'w wal_store \<Rightarrow> (bytes \<Rightarrow> 32 word) \<Rightarrow> (persistent_state \<Rightarrow> persist_outcome) \<Rightarrow> 'w acceptor \<Rightarrow>
   message \<Rightarrow> message \<times> 'w acceptor" where
  "process ops crc po a m =
     (case a_wedged a of
        Some why \<Rightarrow> (Error (''acceptor is wedged (restart it): '' @ why), a)
      | None \<Rightarrow>
          (let r =
             (case m of
                Greeting tail_id \<Rightarrow> handle_greeting ops po a tail_id
              | VoteRequest t \<Rightarrow> handle_vote ops po a t
              | Elected t start_lsn h \<Rightarrow> handle_elected ops po a t start_lsn h
              | Append t begin_lsn end_lsn commit_lsn horizon_lsn records \<Rightarrow>
                  handle_append ops crc po a t begin_lsn end_lsn commit_lsn horizon_lsn records
              | Read from_lsn to_lsn \<Rightarrow> handle_read ops a from_lsn to_lsn
              | _ \<Rightarrow> (Inl ''unexpected message sent to an acceptor'', a))
           in case r of
                (Inr resp, a1) \<Rightarrow> (resp, a1)
              | (Inl e, a1) \<Rightarrow> (Error e, a1)))"

section \<open>Data directory\<close>

definition file_control_load ::
  "(bytes \<Rightarrow> json option) \<Rightarrow> bytes option \<Rightarrow> (persistent_state option) result" where
  "file_control_load from_slice raw =
     (case raw of
        None \<Rightarrow> Inr None
      | Some doc \<Rightarrow>
          rbind (ok_or (from_slice doc) ''icekeeper control file is not valid JSON'') (\<lambda>v.
          rbind (persistent_state_from_json v) (\<lambda>s. Inr (Some s))))"

definition file_control_doc :: "(json \<Rightarrow> bytes result) \<Rightarrow> persistent_state \<Rightarrow> bytes result" where
  "file_control_doc to_string_pretty s = to_string_pretty (persistent_state_to_json s)"

definition open_dir ::
  "wal_io \<Rightarrow> (bytes \<Rightarrow> 32 word) \<Rightarrow> (bytes \<Rightarrow> json option) \<Rightarrow> bool \<Rightarrow> bytes option \<Rightarrow> (lsn \<times> bytes) list \<Rightarrow> nat \<Rightarrow>
   segment_wal acceptor result" where
  "open_dir io crc from_slice lock_free control wal_dir node_id =
     (if \<not> lock_free then Inl ''icekeeper data dir is LOCKED by another process''
      else
        rbind (file_control_load from_slice control) (\<lambda>loaded.
        rbind (case loaded of
                 Some s \<Rightarrow> (if ps_node_id s \<noteq> node_id then Inl ''icekeeper data dir belongs to another node''
                            else Inr s)
               | None \<Rightarrow> Inr (persistent_state_new node_id)) (\<lambda>state.
        rbind (segment_wal_open io crc wal_dir) (\<lambda>wal.
          Inr (acceptor_new (segment_wal_ops io) state loaded wal)))))"

end
