(* ===== verification/AcceptorSpec.thy ===== *)
theory AcceptorSpec
  imports Acceptor
begin

text \<open>
  What an acceptor promises.  \<open>view\<close> is what survives of an acceptor: its durable control
  document once it is wedged, its in-memory state before, and the log in both cases.
  \<open>vstep\<close> is the abstract acceptor: one rule per outcome of a handler, failures of the
  control file included.  The refinement lemma \<open>process_refines\<close>, proved for every log that
  meets the contract \<open>wal_laws\<close>, says that \<open>process\<close> takes only these steps.
\<close>

section \<open>The abstract acceptor\<close>

record aview =
  v_term :: nat
  v_hist :: term_history
  v_commit :: lsn
  v_hor :: lsn
  v_lo :: lsn
  v_log :: bytes
  v_empty :: bool

definition v_flush :: "aview \<Rightarrow> lsn" where
  "v_flush v = v_lo v + length (v_log v)"

definition v_start :: "aview \<Rightarrow> lsn \<Rightarrow> term_history \<Rightarrow> lsn result" where
  "v_start v start_lsn h =
     divergence_start h (up_to (v_hist v) (v_flush v)) (v_flush v) (v_empty v) start_lsn"

text \<open>The log cut at \<open>l\<close>; nothing happens at or beyond its end.\<close>

definition v_cut :: "aview \<Rightarrow> lsn \<Rightarrow> aview" where
  "v_cut v l = (if v_flush v \<le> l then v
                else v\<lparr>v_lo := min l (v_lo v), v_log := take (l - v_lo v) (v_log v), v_empty := False\<rparr>)"

definition v_extend :: "aview \<Rightarrow> lsn \<Rightarrow> bytes \<Rightarrow> aview" where
  "v_extend v b rs = v\<lparr>v_lo := (if v_empty v then b else v_lo v), v_log := v_log v @ rs, v_empty := False\<rparr>"

definition v_drop :: "aview \<Rightarrow> nat \<Rightarrow> aview" where
  "v_drop v k = v\<lparr>v_lo := v_lo v + k, v_log := drop k (v_log v)\<rparr>"

inductive vstep :: "aview \<Rightarrow> message \<Rightarrow> message \<Rightarrow> aview \<Rightarrow> bool" where
  greet: "vstep v (Greeting i) (GreetingResp j (v_term v) (v_flush v)) v"
| refuse: "vstep v m (Error e) v"
| wedge: "c \<le> v_commit v \<Longrightarrow> vstep v m (Error e) (v\<lparr>v_commit := c\<rparr>)"
| read_none: "min b (v_flush v) \<le> a \<Longrightarrow> vstep v (Read a b) (ReadResp a []) v"
| read_some: "v_lo v \<le> a \<Longrightarrow> a < min b (v_flush v) \<Longrightarrow>
    vstep v (Read a b) (ReadResp a (take (min b (v_flush v) - a) (drop (a - v_lo v) (v_log v)))) v"
| vote: "granted = (v_term v < t) \<Longrightarrow> v' = (if granted then v\<lparr>v_term := t\<rparr> else v) \<Longrightarrow>
    vstep v (VoteRequest t)
      (VoteResponse (v_term v') granted (v_flush v) (last_log_term (v_hist v) (v_flush v))
         (up_to (v_hist v) (v_flush v)) (max (v_hor v) (v_lo v)) (v_commit v)) v'"
| vote_lost: "v_term v < t \<Longrightarrow> vstep v (VoteRequest t) (Error e) (v\<lparr>v_term := t\<rparr>)"
| elected_stale: "t < v_term v \<Longrightarrow> vstep v (Elected t s h) (ElectedResp (v_term v) False) v"
| elected_lost: "v_term v < t \<Longrightarrow> vstep v (Elected t s h) (Error e) (v\<lparr>v_term := t\<rparr>)"
| elected_ok: "v_term v \<le> t \<Longrightarrow> v_start v s h = Inr s \<Longrightarrow> v_commit v \<le> s \<Longrightarrow>
    vstep v (Elected t s h) (ElectedResp t True) ((v_cut v s)\<lparr>v_term := t, v_hist := h\<rparr>)"
| elected_cut: "v_term v \<le> t \<Longrightarrow> v_start v s h = Inr s \<Longrightarrow> v_commit v \<le> s \<Longrightarrow> c \<le> v_commit v \<Longrightarrow>
    h' = v_hist v \<or> h' = h \<Longrightarrow>
    vstep v (Elected t s h) (Error e) ((v_cut v s)\<lparr>v_term := t, v_hist := h', v_commit := c\<rparr>)"
| append_stale: "t < v_term v \<Longrightarrow> vstep v (Append t b e c z rs) (AppendResp (v_term v) False 0 0) v"
| append_ok: "v_term v = t \<Longrightarrow> rs \<noteq> [] \<Longrightarrow> e = b + length rs \<Longrightarrow> v_empty v \<or> b = v_flush v \<Longrightarrow>
    c' = min (max c (v_commit v)) e \<Longrightarrow> z' = max (v_hor v) (min z c') \<Longrightarrow>
    k \<le> length (v_log v @ rs) \<Longrightarrow> v_lo (v_extend v b rs) + k \<le> max (v_lo (v_extend v b rs)) z' \<Longrightarrow>
    vstep v (Append t b e c z rs) (AppendResp t True e c')
      (v_drop ((v_extend v b rs)\<lparr>v_commit := c', v_hor := z'\<rparr>) k)"
| append_lost: "v_term v = t \<Longrightarrow> rs \<noteq> [] \<Longrightarrow> e = b + length rs \<Longrightarrow> v_empty v \<or> b = v_flush v \<Longrightarrow>
    c' \<le> min (max c (v_commit v)) e \<Longrightarrow>
    z' = v_hor v \<or> z' = max (v_hor v) (min z (min (max c (v_commit v)) e)) \<Longrightarrow>
    vstep v (Append t b e c z rs) (Error err) ((v_extend v b rs)\<lparr>v_commit := c', v_hor := z'\<rparr>)"

section \<open>Refinement\<close>

definition durable :: "'w acceptor \<Rightarrow> persistent_state" where
  "durable a = (case a_ctrl a of None \<Rightarrow> persistent_state_new (ps_node_id (a_state a)) | Some s \<Rightarrow> s)"

definition effective :: "'w acceptor \<Rightarrow> persistent_state" where
  "effective a = (if a_wedged a = None then a_state a else durable a)"

definition view :: "'w wal_store \<Rightarrow> ('w \<Rightarrow> lsn) \<Rightarrow> ('w \<Rightarrow> bytes) \<Rightarrow> 'w acceptor \<Rightarrow> aview" where
  "view ops lo content a =
     (let s = effective a in
      \<lparr>v_term = ps_term s, v_hist = ps_term_history s, v_commit = ps_commit_lsn s,
       v_hor = ps_horizon_lsn s, v_lo = lo (a_wal a), v_log = content (a_wal a),
       v_empty = ws_is_empty ops (a_wal a)\<rparr>)"

text \<open>
  The persist-before-respond discipline as an invariant: until a write fails, the document
  on disk is the state in memory up to the lazily persisted commit position.
\<close>

definition acc_inv :: "'w wal_store \<Rightarrow> ('w \<Rightarrow> bool) \<Rightarrow> 'w acceptor \<Rightarrow> bool" where
  "acc_inv ops winv a \<longleftrightarrow> winv (a_wal a) \<and>
     ps_commit_lsn (durable a) \<le> ps_commit_lsn (effective a) \<and>
     ps_commit_lsn (effective a) \<le> ws_flush_lsn ops (a_wal a) \<and>
     (a_wedged a = None \<longrightarrow>
        (a_state a)\<lparr>ps_commit_lsn := 0\<rparr> = (durable a)\<lparr>ps_commit_lsn := 0\<rparr>)"

lemma persist_cases:
  obtains (ok) "persist po a n = (Inr (), a\<lparr>a_ctrl := Some n, a_state := n\<rparr>)"
  | (old) e why where "persist po a n = (Inl e, a\<lparr>a_wedged := Some why\<rparr>)"
  | (new) e why where "persist po a n = (Inl e, a\<lparr>a_ctrl := Some n, a_wedged := Some why\<rparr>)"
  by (cases "po n") (auto simp: persist_def)

lemma v_drop_0 [simp]: "v_drop v 0 = v"
  by (simp add: v_drop_def)

lemma v_flush_term [simp]: "v_flush (v\<lparr>v_term := t\<rparr>) = v_flush v"
  by (simp add: v_flush_def)

lemma v_cut_term [simp]: "v_cut (v\<lparr>v_term := t\<rparr>) s = (v_cut v s)\<lparr>v_term := t\<rparr>"
  by (simp add: v_cut_def)

lemma v_start_term [simp]: "v_start (v\<lparr>v_term := t\<rparr>) s h = v_start v s h"
  by (simp add: v_start_def)

lemma durable_simps [simp]:
  "durable (a\<lparr>a_ctrl := Some n\<rparr>) = n" "durable (a\<lparr>a_wedged := w\<rparr>) = durable a"
  "durable (a\<lparr>a_ctrl := Some n, a_state := s\<rparr>) = n" "durable (a\<lparr>a_wal := x\<rparr>) = durable a"
  "durable (a\<lparr>a_ctrl := Some n, a_wedged := w\<rparr>) = n"
  by (simp_all add: durable_def split: option.splits)

lemmas view_simps = view_def effective_def Let_def

context wal_laws
begin

abbreviation "ainv \<equiv> acc_inv ops inv"
abbreviation "vw \<equiv> view ops lo content"

lemma view_flush: "ainv a \<Longrightarrow> v_flush (vw a) = ws_flush_lsn ops (a_wal a)"
  by (simp add: acc_inv_def view_simps v_flush_def flush_eq)

lemma view_empty: "v_empty (vw a) = ws_is_empty ops (a_wal a)"
  by (simp add: view_def Let_def)

lemma view_unwedged:
  assumes "ainv a" "a_wedged a = None"
  shows "v_term (vw a) = ps_term (a_state a)" "v_hist (vw a) = ps_term_history (a_state a)"
    "v_commit (vw a) = ps_commit_lsn (a_state a)" "v_hor (vw a) = ps_horizon_lsn (a_state a)"
  using assms by (simp_all add: view_simps)

text \<open>One control-file write: what it does to the invariant and to the view.\<close>

lemma persist_outcomes:
  assumes a: "ainv a" "a_wedged a = None"
    and n: "n = (a_state a)\<lparr>ps_tail_id := i, ps_term := t, ps_term_history := h, ps_horizon_lsn := z\<rparr>"
    and p: "persist po a n = (r, a')"
  shows "ainv a' \<and>
    (r = Inr () \<and> a' = a\<lparr>a_ctrl := Some n, a_state := n\<rparr> \<and>
       vw a' = (vw a)\<lparr>v_term := t, v_hist := h, v_hor := z\<rparr>
     \<or> (\<exists>e c. r = Inl e \<and> c \<le> v_commit (vw a) \<and> vw a' = (vw a)\<lparr>v_commit := c\<rparr>)
     \<or> (\<exists>e. r = Inl e \<and> vw a' = (vw a)\<lparr>v_term := t, v_hist := h, v_hor := z\<rparr>))"
proof -
  have s: "(a_state a)\<lparr>ps_commit_lsn := 0\<rparr> = (durable a)\<lparr>ps_commit_lsn := 0\<rparr>"
    and d: "ps_commit_lsn (durable a) \<le> ps_commit_lsn (a_state a)"
    and f: "ps_commit_lsn (a_state a) \<le> ws_flush_lsn ops (a_wal a)" and w: "inv (a_wal a)"
    using a by (auto simp: acc_inv_def effective_def)
  have eq: "ps_term (durable a) = ps_term (a_state a)"
    "ps_term_history (durable a) = ps_term_history (a_state a)"
    "ps_horizon_lsn (durable a) = ps_horizon_lsn (a_state a)"
    using arg_cong [OF s, of ps_term] arg_cong [OF s, of ps_term_history]
      arg_cong [OF s, of ps_horizon_lsn] by simp_all
  show ?thesis
  proof (cases rule: persist_cases [of po a n])
    case ok
    then have "r = Inr ()" "a' = a\<lparr>a_ctrl := Some n, a_state := n\<rparr>" using p by simp_all
    moreover have "vw (a\<lparr>a_ctrl := Some n, a_state := n\<rparr>) = (vw a)\<lparr>v_term := t, v_hist := h, v_hor := z\<rparr>"
      using a(2) n by (simp add: view_simps)
    moreover have "ainv (a\<lparr>a_ctrl := Some n, a_state := n\<rparr>)"
      using f w a(2) n by (simp add: acc_inv_def effective_def)
    ultimately show ?thesis by blast
  next
    case (old e why)
    then have "r = Inl e" "a' = a\<lparr>a_wedged := Some why\<rparr>" using p by simp_all
    moreover have "vw (a\<lparr>a_wedged := Some why\<rparr>) = (vw a)\<lparr>v_commit := ps_commit_lsn (durable a)\<rparr>"
      using a(2) eq by (simp add: view_simps)
    moreover have "ainv (a\<lparr>a_wedged := Some why\<rparr>)" "ps_commit_lsn (durable a) \<le> v_commit (vw a)"
      using d f w a(2) by (simp_all add: acc_inv_def view_simps)
    ultimately show ?thesis by blast
  next
    case (new e why)
    then have "r = Inl e" "a' = a\<lparr>a_ctrl := Some n, a_wedged := Some why\<rparr>" using p by simp_all
    moreover have "vw (a\<lparr>a_ctrl := Some n, a_wedged := Some why\<rparr>) =
        (vw a)\<lparr>v_term := t, v_hist := h, v_hor := z\<rparr>"
      using a(2) n by (simp add: view_simps)
    moreover have "ainv (a\<lparr>a_ctrl := Some n, a_wedged := Some why\<rparr>)"
      using f w a(2) n by (simp add: acc_inv_def effective_def)
    ultimately show ?thesis by blast
  qed
qed

lemma greeting_refines:
  assumes "ainv a" "a_wedged a = None" "handle_greeting ops po a i = (r, a')"
  shows "ainv a' \<and> vstep (vw a) (Greeting i) (case r of Inl e \<Rightarrow> Error e | Inr m \<Rightarrow> m) (vw a')"
proof -
  have resp: "vstep (vw b) (Greeting i)
      (GreetingResp (ps_tail_id (a_state b)) (ps_term (a_state b)) (ws_flush_lsn ops (a_wal b))) (vw b)"
    if "ainv b" "a_wedged b = None" for b
    using vstep.greet [of "vw b" i "ps_tail_id (a_state b)"] view_flush [OF that(1)] view_unwedged [OF that]
    by simp
  show ?thesis
  proof (cases "i = None \<or> ps_tail_id (a_state a) \<noteq> None")
    case True
    then show ?thesis
      using assms resp [of a] by (auto simp: handle_greeting_def Let_def intro: vstep.refuse split: option.splits if_splits)
  next
    case False
    then obtain tid where i: "i = Some tid" "ps_tail_id (a_state a) = None" by auto
    let ?n = "(a_state a)\<lparr>ps_tail_id := Some tid\<rparr>"
    obtain q b where p: "persist po a ?n = (q, b)" by force
    have out: "ainv b \<and> (q = Inr () \<and> b = a\<lparr>a_ctrl := Some ?n, a_state := ?n\<rparr> \<and> vw b = vw a
       \<or> (\<exists>e c. q = Inl e \<and> c \<le> v_commit (vw a) \<and> vw b = (vw a)\<lparr>v_commit := c\<rparr>)
       \<or> (\<exists>e. q = Inl e \<and> vw b = vw a))"
      using persist_outcomes [OF assms(1,2) _ p, where i = "Some tid" and t = "ps_term (a_state a)"
          and h = "ps_term_history (a_state a)" and z = "ps_horizon_lsn (a_state a)"] view_unwedged [OF assms(1,2)]
      by auto
    show ?thesis
    proof (cases q)
      case (Inl e)
      then show ?thesis using assms(3) i p out
        by (auto simp: handle_greeting_def Let_def intro: vstep.refuse vstep.wedge)
    next
      case (Inr u)
      then have "a_wedged b = None" using out assms(2) by auto
      with Inr show ?thesis using assms(3) i p out resp [of b]
        by (auto simp: handle_greeting_def Let_def)
    qed
  qed
qed

lemma persist_term_outcomes:
  assumes "ainv a" "a_wedged a = None" "persist po a ((a_state a)\<lparr>ps_term := t\<rparr>) = (r, a')"
  shows "ainv a' \<and>
    (r = Inr () \<and> a_wedged a' = None \<and> a_wal a' = a_wal a \<and> ps_term (a_state a') = t \<and>
       vw a' = (vw a)\<lparr>v_term := t\<rparr>
     \<or> (\<exists>e c. r = Inl e \<and> c \<le> v_commit (vw a) \<and> vw a' = (vw a)\<lparr>v_commit := c\<rparr>)
     \<or> (\<exists>e. r = Inl e \<and> vw a' = (vw a)\<lparr>v_term := t\<rparr>))"
  using persist_outcomes [OF assms(1,2) _ assms(3), where i = "ps_tail_id (a_state a)" and t = t
      and h = "ps_term_history (a_state a)" and z = "ps_horizon_lsn (a_state a)"]
    view_unwedged [OF assms(1,2)] assms(2)
  by auto

lemma vote_refines:
  assumes a: "ainv a" "a_wedged a = None" and r: "handle_vote ops po a t = (r, a')"
  shows "ainv a' \<and> vstep (vw a) (VoteRequest t) (case r of Inl e \<Rightarrow> Error e | Inr m \<Rightarrow> m) (vw a')"
proof (cases "ps_term (a_state a) < t")
  case True
  obtain q b where p: "persist po a ((a_state a)\<lparr>ps_term := t\<rparr>) = (q, b)" by force
  note out = persist_term_outcomes [OF a p]
  have lt: "v_term (vw a) < t" using True view_unwedged [OF a] by simp
  show ?thesis
  proof (cases q)
    case (Inl e)
    then have "r = Inl e" "a' = b" using r p True by (auto simp: handle_vote_def Let_def)
    with out Inl lt show ?thesis by (auto intro: vstep.wedge vstep.vote_lost)
  next
    case (Inr u)
    then have b: "ainv b" "a_wedged b = None" "a_wal b = a_wal a" "vw b = (vw a)\<lparr>v_term := t\<rparr>"
      using out by auto
    have ret: "ws_retained_start ops (a_wal b) = v_lo (vw a)"
      using b(1,3) retained_eq by (simp add: acc_inv_def view_simps)
    have "r = Inr (VoteResponse t True (v_flush (vw a)) (last_log_term (v_hist (vw a)) (v_flush (vw a)))
         (up_to (v_hist (vw a)) (v_flush (vw a))) (max (v_hor (vw a)) (v_lo (vw a))) (v_commit (vw a)))"
      "a' = b"
      using r p True Inr view_unwedged [OF b(1,2)] b(4) ret view_flush [OF a(1)]
      by (auto simp: handle_vote_def Let_def)
    with b lt vstep.vote [of True "vw a" t "(vw a)\<lparr>v_term := t\<rparr>"] show ?thesis by simp
  qed
next
  case False
  have ret: "ws_retained_start ops (a_wal a) = v_lo (vw a)"
    using a(1) retained_eq by (simp add: acc_inv_def view_simps)
  have "r = Inr (VoteResponse (v_term (vw a)) False (v_flush (vw a))
       (last_log_term (v_hist (vw a)) (v_flush (vw a)))
       (up_to (v_hist (vw a)) (v_flush (vw a))) (max (v_hor (vw a)) (v_lo (vw a))) (v_commit (vw a)))"
    "a' = a"
    using r False view_unwedged [OF a] ret view_flush [OF a(1)]
    by (auto simp: handle_vote_def Let_def)
  with False a vstep.vote [of False "vw a" t "vw a"] view_unwedged [OF a] show ?thesis by simp
qed

lemma read_refines:
  assumes a: "ainv a" "a_wedged a = None" and r: "handle_read ops a x y = (r, a')"
  shows "ainv a' \<and> vstep (vw a) (Read x y) (case r of Inl e \<Rightarrow> Error e | Inr m \<Rightarrow> m) (vw a')"
proof -
  let ?to = "min y (ws_flush_lsn ops (a_wal a))"
  have fl: "v_flush (vw a) = ws_flush_lsn ops (a_wal a)" using view_flush [OF a(1)] .
  have w: "inv (a_wal a)" using a by (simp add: acc_inv_def)
  have lo: "v_lo (vw a) = lo (a_wal a)" "v_log (vw a) = content (a_wal a)" by (simp_all add: view_simps)
  consider "?to \<le> x" | "x < ?to" "lo (a_wal a) \<le> x" | "x < ?to" "x < lo (a_wal a)" by linarith
  then show ?thesis
  proof cases
    case 1
    then show ?thesis using a r vstep.read_none [of y "vw a" x] fl
      by (auto simp: handle_read_def Let_def)
  next
    case 2
    then have "ws_read ops (a_wal a) x ?to = Inr (take (?to - x) (drop (x - lo (a_wal a)) (content (a_wal a))))"
      using read_ok [OF w] by simp
    then have "handle_read ops a x y =
        (Inr (ReadResp x (take (?to - x) (drop (x - lo (a_wal a)) (content (a_wal a))))), a)"
      using 2(1) by (simp add: handle_read_def Let_def)
    then show ?thesis using 2 a r vstep.read_some [of "vw a" x y] fl lo by simp
  next
    case 3
    then obtain e where "ws_read ops (a_wal a) x ?to = Inl e" using read_short [OF w] by blast
    moreover have "\<not> ?to \<le> x" using 3(1) by linarith
    ultimately have "handle_read ops a x y = (Inl e, a)" by (simp add: handle_read_def Let_def)
    then show ?thesis using a r by (auto intro: vstep.refuse)
  qed
qed

lemma expected_start_view:
  "ainv a \<Longrightarrow> a_wedged a = None \<Longrightarrow> expected_start ops a s h = v_start (vw a) s h"
  by (simp only: expected_start_def v_start_def Let_def view_flush view_unwedged(2) view_empty)

lemma truncate_view:
  assumes a: "ainv a" "a_wedged a = None" and c: "ps_commit_lsn (a_state a) \<le> s"
  shows "\<exists>w. ws_truncate_from ops (a_wal a) s = (Inr (), w) \<and> ainv (a\<lparr>a_wal := w\<rparr>) \<and>
         vw (a\<lparr>a_wal := w\<rparr>) = v_cut (vw a) s"
proof -
  have w: "inv (a_wal a)" using a by (simp add: acc_inv_def)
  show ?thesis
  proof (cases "ws_flush_lsn ops (a_wal a) \<le> s")
    case True
    then show ?thesis using truncate_beyond [OF w True] a view_flush [OF a(1)] by (simp add: v_cut_def)
  next
    case False
    then obtain w' where w': "ws_truncate_from ops (a_wal a) s = (Inr (), w')" "inv w'"
      "\<not> ws_is_empty ops w'" "lo w' = min s (lo (a_wal a))" "content w' = take (s - lo (a_wal a)) (content (a_wal a))"
      using truncate_cut [OF w] by (meson not_le)
    have "ws_flush_lsn ops w' = s"
      using flush_eq [OF w'(2)] w'(4,5) False flush_eq [OF w] by auto
    then have "ainv (a\<lparr>a_wal := w'\<rparr>)" using a c w' by (auto simp: acc_inv_def effective_def)
    moreover have "vw (a\<lparr>a_wal := w'\<rparr>) = v_cut (vw a) s"
      using False w' a view_flush [OF a(1)] by (simp add: v_cut_def view_simps)
    ultimately show ?thesis using w'(1) by blast
  qed
qed

text \<open>The part of \<^verbatim>\<open>handle_elected\<close> after the term bump.\<close>

lemma elected_adopt:
  assumes a: "ainv a" "a_wedged a = None" and t: "ps_term (a_state a) = t"
    and st: "v_start (vw a) s h = Inr s" and c: "ps_commit_lsn (a_state a) \<le> s"
    and w: "ws_truncate_from ops (a_wal a) s = (Inr (), w)"
    and p: "persist po (a\<lparr>a_wal := w\<rparr>) ((a_state a)\<lparr>ps_term_history := h,
              ps_commit_lsn := min (ps_commit_lsn (a_state a)) (ws_flush_lsn ops w)\<rparr>) = (q, b)"
  shows "ainv b \<and>
     (q = Inr () \<and> ps_term (a_state b) = t \<and> vw b = (v_cut (vw a) s)\<lparr>v_hist := h\<rparr>
      \<or> (\<exists>e c h'. q = Inl e \<and> c \<le> v_commit (vw a) \<and> (h' = v_hist (vw a) \<or> h' = h) \<and>
           vw b = (v_cut (vw a) s)\<lparr>v_hist := h', v_commit := c\<rparr>))"
proof -
  obtain w' where w': "ws_truncate_from ops (a_wal a) s = (Inr (), w')" "ainv (a\<lparr>a_wal := w'\<rparr>)"
      "vw (a\<lparr>a_wal := w'\<rparr>) = v_cut (vw a) s"
    using truncate_view [OF a c] by blast
  then have w2: "w' = w" using w by simp
  let ?a = "a\<lparr>a_wal := w\<rparr>"
  have ia: "ainv ?a" "a_wedged ?a = None" and va: "vw ?a = v_cut (vw a) s" using w' w2 a by auto
  have cm: "min (ps_commit_lsn (a_state a)) (ws_flush_lsn ops w) = ps_commit_lsn (a_state a)"
    using ia by (simp add: acc_inv_def effective_def)
  have vc: "v_commit (v_cut (vw a) s) = v_commit (vw a)" "v_hist (v_cut (vw a) s) = v_hist (vw a)"
    by (simp_all add: v_cut_def)
  have n: "(a_state a)\<lparr>ps_term_history := h,
        ps_commit_lsn := min (ps_commit_lsn (a_state a)) (ws_flush_lsn ops w)\<rparr> =
      (a_state ?a)\<lparr>ps_tail_id := ps_tail_id (a_state a), ps_term := t, ps_term_history := h,
        ps_horizon_lsn := ps_horizon_lsn (a_state a)\<rparr>"
    using t by (simp add: cm)
  have tt: "v_term (vw ?a) = t" "v_hor (vw ?a) = ps_horizon_lsn (a_state a)"
    using view_unwedged [OF ia] t by simp_all
  from persist_outcomes [OF ia n p] have out: "ainv b \<and>
    (q = Inr () \<and> ps_term (a_state b) = t \<and> vw b = (vw ?a)\<lparr>v_hist := h\<rparr>
     \<or> (\<exists>e c. q = Inl e \<and> c \<le> v_commit (vw ?a) \<and> vw b = (vw ?a)\<lparr>v_commit := c\<rparr>)
     \<or> (\<exists>e. q = Inl e \<and> vw b = (vw ?a)\<lparr>v_hist := h\<rparr>))"
    using tt t by auto
  then consider (ok) "q = Inr ()" "ps_term (a_state b) = t" "vw b = (vw ?a)\<lparr>v_hist := h\<rparr>"
    | (old) e c where "q = Inl e" "c \<le> v_commit (vw ?a)" "vw b = (vw ?a)\<lparr>v_commit := c\<rparr>"
    | (new) e where "q = Inl e" "vw b = (vw ?a)\<lparr>v_hist := h\<rparr>"
    by blast
  then show ?thesis
  proof cases
    case ok
    then show ?thesis using out va by simp
  next
    case (old e c)
    then have "vw b = (v_cut (vw a) s)\<lparr>v_hist := v_hist (vw a), v_commit := c\<rparr>" using va vc by simp
    then show ?thesis using old out va vc by metis
  next
    case (new e)
    then have "vw b = (v_cut (vw a) s)\<lparr>v_hist := h, v_commit := v_commit (vw a)\<rparr>" using va vc by simp
    then show ?thesis using new out by blast
  qed
qed

lemma elected_same_term:
  assumes a: "ainv a" "a_wedged a = None" and t: "ps_term (a_state a) = t"
    and r: "handle_elected ops po a t s h = (r, a')"
  shows "ainv a' \<and>
     (\<exists>e. r = Inl e \<and> vw a' = vw a) \<or>
     ainv a' \<and> v_start (vw a) s h = Inr s \<and> v_commit (vw a) \<le> s \<and>
       (r = Inr (ElectedResp t True) \<and> vw a' = (v_cut (vw a) s)\<lparr>v_hist := h\<rparr>
        \<or> (\<exists>e c h'. r = Inl e \<and> c \<le> v_commit (vw a) \<and> (h' = v_hist (vw a) \<or> h' = h) \<and>
             vw a' = (v_cut (vw a) s)\<lparr>v_hist := h', v_commit := c\<rparr>))"
proof (cases "v_start (vw a) s h = Inr s \<and> ps_commit_lsn (a_state a) \<le> s")
  case False
  then have "\<exists>e. r = Inl e \<and> a' = a"
    using r t expected_start_view [OF a, of s h]
    by (auto simp: handle_elected_def split: sum.splits if_splits)
  then show ?thesis using a by blast
next
  case True
  then obtain w where w: "ws_truncate_from ops (a_wal a) s = (Inr (), w)"
    using truncate_view [OF a] by blast
  obtain q b where p: "persist po (a\<lparr>a_wal := w\<rparr>) ((a_state a)\<lparr>ps_term_history := h,
              ps_commit_lsn := min (ps_commit_lsn (a_state a)) (ws_flush_lsn ops w)\<rparr>) = (q, b)" by force
  have "a' = b \<and> r = (case q of Inl e \<Rightarrow> Inl e | Inr _ \<Rightarrow> Inr (ElectedResp (ps_term (a_state b)) True))"
    using r t True w p expected_start_view [OF a, of s h]
    by (auto simp: handle_elected_def Let_def split: sum.splits)
  moreover have "v_commit (vw a) \<le> s" using True view_unwedged [OF a] by simp
  ultimately show ?thesis using elected_adopt [OF a t _ _ w p] True by auto
qed

lemma elected_refines:
  assumes a: "ainv a" "a_wedged a = None" and r: "handle_elected ops po a t s h = (r, a')"
  shows "ainv a' \<and> vstep (vw a) (Elected t s h) (case r of Inl e \<Rightarrow> Error e | Inr m \<Rightarrow> m) (vw a')"
proof -
  have vt: "v_term (vw a) = ps_term (a_state a)" using view_unwedged [OF a] by simp
  consider "t < ps_term (a_state a)" | "ps_term (a_state a) = t" | "ps_term (a_state a) < t" by linarith
  then show ?thesis
  proof cases
    case 1
    then have "r = Inr (ElectedResp (v_term (vw a)) False)" "a' = a"
      using r vt by (auto simp: handle_elected_def)
    then show ?thesis using 1 a vt vstep.elected_stale [of t "vw a" s h] by simp
  next
    case 2
    have "(vw a)\<lparr>v_term := t\<rparr> = vw a" "(v_cut (vw a) s)\<lparr>v_term := t\<rparr> = v_cut (vw a) s"
      using 2 vt by (simp_all add: v_cut_def)
    then have keep: "(v_cut (vw a) s)\<lparr>v_term := t, v_hist := x\<rparr> = (v_cut (vw a) s)\<lparr>v_hist := x\<rparr>" for x
      by simp
    from elected_same_term [OF a 2 r] show ?thesis
      using vstep.refuse vstep.elected_ok [of "vw a" t s h] 2 vt
        vstep.elected_cut [of "vw a" t s h] keep by force
  next
    case 3
    obtain q b where p: "persist po a ((a_state a)\<lparr>ps_term := t\<rparr>) = (q, b)" by force
    note out = persist_term_outcomes [OF a p]
    show ?thesis
    proof (cases q)
      case (Inl e)
      then have "r = Inl e" "a' = b" using r p 3 by (auto simp: handle_elected_def)
      moreover have "vstep (vw a) (Elected t s h) (Error e) ((vw a)\<lparr>v_term := t\<rparr>)"
        using 3 vt by (intro vstep.elected_lost) simp
      ultimately show ?thesis using out Inl by (auto intro: vstep.wedge)
    next
      case (Inr u)
      then have b: "ainv b" "a_wedged b = None" "ps_term (a_state b) = t" "vw b = (vw a)\<lparr>v_term := t\<rparr>"
        using out by auto
      have "handle_elected ops po b t s h = (r, a')"
        using r p 3 Inr b(3) by (simp add: handle_elected_def)
      note same = elected_same_term [OF b(1-3) this]
      have cut: "v_cut (vw b) s = (v_cut (vw a) s)\<lparr>v_term := t\<rparr>" and vb: "v_start (vw b) s h = v_start (vw a) s h"
        "v_commit (vw b) = v_commit (vw a)" "v_hist (vw b) = v_hist (vw a)"
        using b(4) by simp_all
      show ?thesis
        using same unfolding cut vb b(4)
        using vstep.elected_lost [of "vw a" t] vstep.elected_ok [of "vw a" t s h]
          vstep.elected_cut [of "vw a" t s h] 3 vt by force
    qed
  qed
qed

text \<open>
  A successful log append, and the state after it with the commit position advanced in
  memory.
\<close>

lemma append_view:
  assumes a: "ainv a" "a_wedged a = None" and rs: "rs \<noteq> []"
    and pos: "v_empty (vw a) \<or> b = v_flush (vw a)"
    and c: "c' = min (max c (ps_commit_lsn (a_state a))) (b + length rs)"
  shows "\<exists>w. ws_append ops (a_wal a) b rs = (Inr (), w) \<and> ws_flush_lsn ops w = b + length rs \<and>
     (let a1 = a\<lparr>a_wal := w, a_state := (a_state a)\<lparr>ps_commit_lsn := c'\<rparr>\<rparr> in
      ainv a1 \<and> vw a1 = (v_extend (vw a) b rs)\<lparr>v_commit := c'\<rparr>)"
proof -
  have w: "inv (a_wal a)" using a by (simp add: acc_inv_def)
  have fl: "v_flush (vw a) = ws_flush_lsn ops (a_wal a)" using view_flush [OF a(1)] .
  obtain w' where w': "ws_append ops (a_wal a) b rs = (Inr (), w')" "inv w'" "\<not> ws_is_empty ops w'"
      "lo w' = (if ws_is_empty ops (a_wal a) then b else lo (a_wal a))"
      "content w' = content (a_wal a) @ rs"
    using append_ok [OF w rs, of b] pos fl view_empty by metis
  have f': "ws_flush_lsn ops w' = b + length rs"
    using flush_eq [OF w'(2)] w'(4,5) pos fl flush_eq [OF w] empty_zero [OF w] by (auto simp: view_empty)
  have le: "ws_flush_lsn ops (a_wal a) \<le> b + length rs"
    using pos fl flush_eq [OF w] empty_zero [OF w] by (auto simp: view_empty)
  let ?a1 = "a\<lparr>a_wal := w', a_state := (a_state a)\<lparr>ps_commit_lsn := c'\<rparr>\<rparr>"
  have old: "ps_commit_lsn (durable a) \<le> ps_commit_lsn (a_state a)"
    "ps_commit_lsn (a_state a) \<le> ws_flush_lsn ops (a_wal a)"
    "(a_state a)\<lparr>ps_commit_lsn := 0\<rparr> = (durable a)\<lparr>ps_commit_lsn := 0\<rparr>"
    using a by (auto simp: acc_inv_def effective_def)
  have dur: "durable ?a1 = durable a" by (simp add: durable_def split: option.splits)
  have "ainv ?a1"
    using a(2) w' f' old c le unfolding acc_inv_def dur by (simp add: effective_def)
  moreover have "vw ?a1 = (v_extend (vw a) b rs)\<lparr>v_commit := c'\<rparr>"
    using a(2) w' by (simp add: view_simps v_extend_def)
  ultimately show ?thesis using w'(1) f' by (auto simp: Let_def)
qed

lemma drop_view:
  assumes a: "ainv a" "a_wedged a = None"
  shows "\<exists>k. ainv (a\<lparr>a_wal := ws_drop_below ops (a_wal a) z\<rparr>) \<and> k \<le> length (v_log (vw a)) \<and>
     v_lo (vw a) + k \<le> max (v_lo (vw a)) z \<and>
     vw (a\<lparr>a_wal := ws_drop_below ops (a_wal a) z\<rparr>) = v_drop (vw a) k"
proof -
  have w: "inv (a_wal a)" using a by (simp add: acc_inv_def)
  obtain k where k: "inv (ws_drop_below ops (a_wal a) z)" "k \<le> length (content (a_wal a))"
      "lo (ws_drop_below ops (a_wal a) z) = lo (a_wal a) + k"
      "content (ws_drop_below ops (a_wal a) z) = drop k (content (a_wal a))"
      "ws_is_empty ops (ws_drop_below ops (a_wal a) z) = ws_is_empty ops (a_wal a)"
      "lo (a_wal a) + k \<le> max (lo (a_wal a)) z"
    using drop_below [OF w] by metis
  have "ws_flush_lsn ops (ws_drop_below ops (a_wal a) z) = ws_flush_lsn ops (a_wal a)"
    using flush_eq [OF k(1)] flush_eq [OF w] k(2-4) by simp
  then show ?thesis
    using k a by (intro exI [of _ k]) (simp add: acc_inv_def view_simps v_drop_def)
qed

lemma append_refines:
  assumes a: "ainv a" "a_wedged a = None" and r: "handle_append ops crc po a t b e c z rs = (r, a')"
  shows "ainv a' \<and> vstep (vw a) (Append t b e c z rs) (case r of Inl e \<Rightarrow> Error e | Inr m \<Rightarrow> m) (vw a')"
proof -
  have va: "v_term (vw a) = ps_term (a_state a)" "v_commit (vw a) = ps_commit_lsn (a_state a)"
    "v_hor (vw a) = ps_horizon_lsn (a_state a)" "v_flush (vw a) = ws_flush_lsn ops (a_wal a)"
    "v_empty (vw a) = ws_is_empty ops (a_wal a)"
    using view_unwedged [OF a] view_flush [OF a(1)] view_empty by simp_all
  consider (stale) "t < ps_term (a_state a)"
    | (good) "ps_term (a_state a) = t" "rs \<noteq> []" "\<exists>recs. decode_records crc rs b = Inr recs"
        "b + length rs = e" "v_empty (vw a) \<or> b = v_flush (vw a)"
    | (bad) "\<not> t < ps_term (a_state a)" "\<not> (ps_term (a_state a) = t \<and> rs \<noteq> [] \<and>
        (\<exists>recs. decode_records crc rs b = Inr recs) \<and> b + length rs = e \<and>
        (v_empty (vw a) \<or> b = v_flush (vw a)))" by blast
  then show ?thesis
  proof cases
    case stale
    then have "r = Inr (AppendResp (v_term (vw a)) False 0 0)" "a' = a"
      using r va by (auto simp: handle_append_def)
    then show ?thesis using stale a va vstep.append_stale [of t "vw a" b e c z rs] by simp
  next
    case bad
    then have "\<exists>err. r = Inl err \<and> a' = a"
      using r va by (auto simp: handle_append_def Let_def split: if_splits sum.splits)
    then show ?thesis using a by (auto intro: vstep.refuse)
  next
    case good
    define c' where "c' = min (max c (ps_commit_lsn (a_state a))) (b + length rs)"
    define z' where "z' = max (ps_horizon_lsn (a_state a)) (min z c')"
    obtain w where w: "ws_append ops (a_wal a) b rs = (Inr (), w)" "ws_flush_lsn ops w = b + length rs"
      and i1: "ainv (a\<lparr>a_wal := w, a_state := (a_state a)\<lparr>ps_commit_lsn := c'\<rparr>\<rparr>)"
      and v1: "vw (a\<lparr>a_wal := w, a_state := (a_state a)\<lparr>ps_commit_lsn := c'\<rparr>\<rparr>) =
        (v_extend (vw a) b rs)\<lparr>v_commit := c'\<rparr>"
      using append_view [OF a good(2,5) c'_def] by (auto simp: Let_def)
    define a1 where "a1 = a\<lparr>a_wal := w, a_state := (a_state a)\<lparr>ps_commit_lsn := c'\<rparr>\<rparr>"
    have a1: "ainv a1" "a_wedged a1 = None" "vw a1 = (v_extend (vw a) b rs)\<lparr>v_commit := c'\<rparr>"
      using i1 v1 a(2) by (simp_all add: a1_def)
    have hor1: "v_hor (vw a1) = ps_horizon_lsn (a_state a)" using a1(3) va by (simp add: v_extend_def)
    have st1: "a_state a1 = (a_state a)\<lparr>ps_commit_lsn := c'\<rparr>" by (simp add: a1_def)
    have run: "handle_append ops crc po a t b e c z rs =
      (if z' > ps_horizon_lsn (a_state a)
       then (case persist po a1 ((a_state a1)\<lparr>ps_horizon_lsn := z'\<rparr>) of
               (Inl e, a2) \<Rightarrow> (Inl e, a2)
             | (Inr _, a2) \<Rightarrow>
                 (let a3 = a2\<lparr>a_wal := ws_drop_below ops (a_wal a2) z'\<rparr>
                  in (Inr (AppendResp (ps_term (a_state a3)) True e (ps_commit_lsn (a_state a3))), a3)))
       else (Inr (AppendResp (ps_term (a_state a1)) True e (ps_commit_lsn (a_state a1))), a1))"
    proof -
      have pos: "(if ws_is_empty ops (a_wal a) then b else ws_flush_lsn ops (a_wal a)) = b"
        using good(5) va by auto
      obtain recs where recs: "decode_records crc rs b = Inr recs" using good(3) by blast
      show ?thesis
        unfolding handle_append_def Let_def pos recs w(1) prod.case sum.case w(2) good(4)
          c'_def [unfolded good(4), symmetric] z'_def [symmetric] a1_def [symmetric]
        using good(1,2) by simp
    qed
    have vt: "v_term (vw a) = t" using va(1) good(1) by simp
    have len: "e = b + length rs" using good(4) by simp
    have cv: "c' = min (max c (v_commit (vw a))) e" unfolding c'_def va(2) good(4) ..
    have zv: "z' = max (v_hor (vw a)) (min z c')" unfolding z'_def va(3) ..
    have ok: "vstep (vw a) (Append t b e c z rs) (AppendResp t True e c')
        (v_drop ((v_extend (vw a) b rs)\<lparr>v_commit := c', v_hor := z'\<rparr>) k)"
      if "k \<le> length (v_log (vw a) @ rs)" "v_lo (v_extend (vw a) b rs) + k \<le> max (v_lo (v_extend (vw a) b rs)) z'" for k
      using vt good(2) len good(5) cv zv that by (rule vstep.append_ok)
    show ?thesis
    proof (cases "z' > ps_horizon_lsn (a_state a)")
      case False
      then have "r = Inr (AppendResp t True e c')" "a' = a1" using r run st1 good by auto
      moreover have "vw a1 = v_drop ((v_extend (vw a) b rs)\<lparr>v_commit := c', v_hor := z'\<rparr>) 0"
        using a1(3) hor1 False by (simp add: z'_def v_extend_def)
      ultimately show ?thesis using ok [of 0] a1(1) by simp
    next
      case True
      obtain q a2 where p: "persist po a1 ((a_state a1)\<lparr>ps_horizon_lsn := z'\<rparr>) = (q, a2)" by force
      have out: "ainv a2 \<and>
        (q = Inr () \<and> a2 = a1\<lparr>a_ctrl := Some ((a_state a1)\<lparr>ps_horizon_lsn := z'\<rparr>),
             a_state := (a_state a1)\<lparr>ps_horizon_lsn := z'\<rparr>\<rparr> \<and> vw a2 = (vw a1)\<lparr>v_hor := z'\<rparr>
         \<or> (\<exists>e c. q = Inl e \<and> c \<le> v_commit (vw a1) \<and> vw a2 = (vw a1)\<lparr>v_commit := c\<rparr>)
         \<or> (\<exists>e. q = Inl e \<and> vw a2 = (vw a1)\<lparr>v_hor := z'\<rparr>))"
        using persist_outcomes [OF a1(1,2) _ p, where i = "ps_tail_id (a_state a1)"
            and t = "ps_term (a_state a1)" and h = "ps_term_history (a_state a1)" and z = z']
          view_unwedged [OF a1(1,2)] by auto
      show ?thesis
      proof (cases q)
        case (Inl err)
        then have res: "r = Inl err" "a' = a2" using r run True p by auto
        have lost: "vstep (vw a) (Append t b e c z rs) (Error err)
            ((v_extend (vw a) b rs)\<lparr>v_commit := c'', v_hor := z''\<rparr>)"
          if "c'' \<le> c'" "z'' = v_hor (vw a) \<or> z'' = z'" for c'' z''
          using vt good(2) len good(5) that [unfolded zv, unfolded cv] by (rule vstep.append_lost)
        have old: "(v_extend (vw a) b rs)\<lparr>v_commit := c'', v_hor := v_hor (vw a)\<rparr> =
            (v_extend (vw a) b rs)\<lparr>v_commit := c''\<rparr>" for c'' by (simp add: v_extend_def)
        show ?thesis
          using out Inl res a1(3) lost [of _ "v_hor (vw a)"] lost [of c' z'] unfolding old by auto
      next
        case (Inr u)
        then have a2: "ainv a2" "a_wedged a2 = None" "vw a2 = (v_extend (vw a) b rs)\<lparr>v_commit := c', v_hor := z'\<rparr>"
          "ps_term (a_state a2) = t" "ps_commit_lsn (a_state a2) = c'"
          using out a1 st1 good by auto
        let ?a3 = "a2\<lparr>a_wal := ws_drop_below ops (a_wal a2) z'\<rparr>"
        have res: "r = Inr (AppendResp t True e c')" "a' = ?a3"
          using r run True p Inr a2(4,5) by (auto simp: Let_def)
        obtain k where "ainv ?a3" "k \<le> length (v_log (vw a2))"
            "v_lo (vw a2) + k \<le> max (v_lo (vw a2)) z'" "vw ?a3 = v_drop (vw a2) k"
          using drop_view [OF a2(1,2)] by blast
        then show ?thesis using ok [of k] a2(3) res by (simp add: v_extend_def)
      qed
    qed
  qed
qed

lemma process_refines:
  assumes "ainv a" "process ops crc po a m = (resp, a')"
  shows "ainv a' \<and> vstep (vw a) m resp (vw a')"
proof (cases "a_wedged a")
  case (Some why)
  then show ?thesis using assms by (auto simp: process_def intro: vstep.refuse)
next
  case None
  have conv: "process ops crc po a m = (case r of Inl e \<Rightarrow> Error e | Inr x \<Rightarrow> x, b)"
    if "(case m of
          Greeting tail_id \<Rightarrow> handle_greeting ops po a tail_id
        | VoteRequest t \<Rightarrow> handle_vote ops po a t
        | Elected t start_lsn h \<Rightarrow> handle_elected ops po a t start_lsn h
        | Append t begin_lsn end_lsn commit_lsn horizon_lsn records \<Rightarrow>
            handle_append ops crc po a t begin_lsn end_lsn commit_lsn horizon_lsn records
        | Read from_lsn to_lsn \<Rightarrow> handle_read ops a from_lsn to_lsn
        | _ \<Rightarrow> (Inl ''unexpected message sent to an acceptor'', a)) = (r, b)" for r b
    using that None by (simp add: process_def Let_def split: sum.splits)
  show ?thesis
  proof (cases m)
    case (Greeting i)
    obtain r b where "handle_greeting ops po a i = (r, b)" by force
    with greeting_refines [OF assms(1) None this] conv assms(2) Greeting show ?thesis by simp
  next
    case (VoteRequest t)
    obtain r b where "handle_vote ops po a t = (r, b)" by force
    with vote_refines [OF assms(1) None this] conv assms(2) VoteRequest show ?thesis by simp
  next
    case (Elected t s h)
    obtain r b where "handle_elected ops po a t s h = (r, b)" by force
    with elected_refines [OF assms(1) None this] conv assms(2) Elected show ?thesis by simp
  next
    case (Append t b e c z rs)
    obtain r x where "handle_append ops crc po a t b e c z rs = (r, x)" by force
    with append_refines [OF assms(1) None this] conv assms(2) Append show ?thesis by simp
  next
    case (Read x y)
    obtain r b where "handle_read ops a x y = (r, b)" by force
    with read_refines [OF assms(1) None this] conv assms(2) Read show ?thesis by simp
  qed (use assms None in \<open>auto simp: process_def Let_def intro: vstep.refuse\<close>)
qed

end

end
