(* ===== verification/RustStrings.thy ===== *)
theory RustStrings
  imports Prelude
begin

text \<open>
  What the sources use of Rust's string methods: \<^verbatim>\<open>trim\<close>, \<^verbatim>\<open>parse::<u64>\<close>, \<^verbatim>\<open>to_string\<close> of an
  unsigned integer, \<^verbatim>\<open>split\<close> at a character and \<^verbatim>\<open>join\<close> with one.  The lemmas are the round
  trips between them.
\<close>

section \<open>Trimming and integers\<close>

text \<open>Rust's \<^verbatim>\<open>str::trim\<close> and \<^verbatim>\<open>str::parse::<u64>\<close> on Latin-1 text (an optional plus sign, then digits).\<close>

definition is_whitespace :: "char \<Rightarrow> bool" where
  "is_whitespace c \<longleftrightarrow> (let n = of_char c :: nat in (9 \<le> n \<and> n \<le> 13) \<or> n = 32 \<or> n = 133 \<or> n = 160)"

definition trim :: "string \<Rightarrow> string" where
  "trim s = rev (dropWhile is_whitespace (rev (dropWhile is_whitespace s)))"

definition digit_value :: "char \<Rightarrow> nat option" where
  "digit_value c = (let n = of_char c :: nat in if 48 \<le> n \<and> n \<le> 57 then Some (n - 48) else None)"

fun parse_digits :: "string \<Rightarrow> nat \<Rightarrow> nat option" where
  "parse_digits [] acc = Some acc"
| "parse_digits (c # cs) acc =
     (case digit_value c of
        None \<Rightarrow> None
      | Some d \<Rightarrow> (let v = 10 * acc + d in if v < 2 ^ 64 then parse_digits cs v else None))"

definition parse_u64 :: "string \<Rightarrow> nat option" where
  "parse_u64 s =
     (let ds = (case s of c # cs \<Rightarrow> if c = CHR ''+'' then cs else s | [] \<Rightarrow> [])
      in if ds = [] then None else parse_digits ds 0)"

text \<open>\<^verbatim>\<open>u64::to_string\<close>.\<close>

definition digit_char :: "nat \<Rightarrow> char" where
  "digit_char d = char_of (48 + d)"

function u64_string :: "nat \<Rightarrow> string" where
  "u64_string n = (if n < 10 then [digit_char n] else u64_string (n div 10) @ [digit_char (n mod 10)])"
  by auto
termination
  by (relation "measure id") auto

declare u64_string.simps [simp del]

section \<open>Splitting and joining\<close>

fun split_on :: "'a \<Rightarrow> 'a list \<Rightarrow> 'a list list" where
  "split_on c [] = [[]]"
| "split_on c (x # xs) =
     (if x = c then [] # split_on c xs
      else case split_on c xs of [] \<Rightarrow> [[x]] | p # ps \<Rightarrow> (x # p) # ps)"

fun join_with :: "'a \<Rightarrow> 'a list list \<Rightarrow> 'a list" where
  "join_with c [] = []"
| "join_with c [p] = p"
| "join_with c (p # q # ps) = p @ c # join_with c (q # ps)"

section \<open>Lemmas\<close>

lemma split_on_nonempty [simp]: "split_on c xs \<noteq> []"
  by (cases xs) (auto split: list.splits)

lemma split_on_part: "c \<notin> set p \<Longrightarrow> split_on c p = [p]"
  by (induction p) auto

lemma split_on_sep: "c \<notin> set p \<Longrightarrow> split_on c (p @ c # r) = p # split_on c r"
  by (induction p) auto

lemma split_on_join:
  assumes "ps \<noteq> []" "\<forall>p\<in>set ps. c \<notin> set p"
  shows "split_on c (join_with c ps) = ps"
  using assms by (induction c ps rule: join_with.induct) (auto simp: split_on_part split_on_sep)

lemma digit_value_char [simp]: "d < 10 \<Longrightarrow> digit_value (digit_char d) = Some d"
  by (simp add: digit_value_def digit_char_def)

lemma parse_digits_append:
  "parse_digits (xs @ ys) acc = Option.bind (parse_digits xs acc) (parse_digits ys)"
  by (induction xs acc rule: parse_digits.induct) (auto simp: Let_def split: option.splits)

lemma parse_digits_u64_string: "n < 2 ^ 64 \<Longrightarrow> parse_digits (u64_string n) 0 = Some n"
proof (induction n rule: u64_string.induct)
  case (1 n)
  show ?case
  proof (cases "n < 10")
    case True
    with 1 show ?thesis by (simp add: u64_string.simps [of n])
  next
    case False
    with 1 have "parse_digits (u64_string (n div 10)) 0 = Some (n div 10)" by simp
    with False 1(2) show ?thesis by (simp add: u64_string.simps [of n] parse_digits_append)
  qed
qed

lemma u64_string_digits: "c \<in> set (u64_string n) \<Longrightarrow> \<exists>d<10. c = digit_char d"
proof (induction n rule: u64_string.induct)
  case (1 n)
  then show ?case by (cases "n < 10") (force simp: u64_string.simps [of n])+
qed

lemma u64_string_nonempty [simp]: "u64_string n \<noteq> []"
  by (subst u64_string.simps) simp

lemma digit_char_plain:
  assumes "d < 10"
  shows "digit_char d \<noteq> CHR ''+''" "\<not> is_whitespace (digit_char d)"
proof -
  have "of_char (digit_char d) = 48 + d" using assms by (simp add: digit_char_def)
  then show "digit_char d \<noteq> CHR ''+''" "\<not> is_whitespace (digit_char d)"
    using assms by (auto simp: is_whitespace_def Let_def)
qed

lemma dropWhile_none: "\<forall>c\<in>set s. \<not> P c \<Longrightarrow> dropWhile P s = s"
  by (cases s) auto

lemma trim_id: "\<forall>c\<in>set s. \<not> is_whitespace c \<Longrightarrow> trim s = s"
  by (simp add: trim_def dropWhile_none)

lemma parse_u64_digits: "c # cs = s \<Longrightarrow> c \<noteq> CHR ''+'' \<Longrightarrow> parse_u64 s = parse_digits s 0"
  unfolding parse_u64_def Let_def by (auto simp del: parse_digits.simps)

lemma u64_string_hd: "hd (u64_string n) \<noteq> CHR ''+''"
  using u64_string_digits [of "hd (u64_string n)" n] digit_char_plain(1) by (metis hd_in_set u64_string_nonempty)

lemma parse_u64_string [simp]: "n < 2 ^ 64 \<Longrightarrow> parse_u64 (u64_string n) = Some n"
  using parse_u64_digits [OF list.collapse [OF u64_string_nonempty] u64_string_hd] parse_digits_u64_string
  by (simp only:)

lemma trim_u64_string [simp]: "trim (u64_string n) = u64_string n"
  using u64_string_digits digit_char_plain by (intro trim_id) blast

end
