(* ===== verification/ProposerRules.thy ===== *)
theory ProposerRules
  imports Messages RustStrings
begin

text \<open>
  The pure rules of \<^verbatim>\<open>icegres/src/quorum/proposer.rs\<close>: donor choice, the quorum commit rule,
  the per-acceptor start position, the size caps and the coverable prefix of the retained
  log.
\<close>

definition QUORUM_SIZE :: nat where
  "QUORUM_SIZE = 3"

definition QUORUM :: nat where
  "QUORUM = 2"

definition MAX_APPEND_BATCH_BYTES :: nat where
  "MAX_APPEND_BATCH_BYTES = 1048576"

definition APPEND_MESSAGE_HEADROOM :: nat where
  "APPEND_MESSAGE_HEADROOM = 4096"

definition WATERMARK_REFRESH_SLACK :: nat where
  "WATERMARK_REFRESH_SLACK = 1048576"

definition MAX_PEER_LAG_BYTES :: nat where
  "MAX_PEER_LAG_BYTES = 268435456"

definition MAX_REELECTION_FAILURES :: nat where
  "MAX_REELECTION_FAILURES = 2"

definition DEFAULT_APPEND_TIMEOUT_MS :: nat where
  "DEFAULT_APPEND_TIMEOUT_MS = 10000"

definition MIN_APPEND_TIMEOUT_MS :: nat where
  "MIN_APPEND_TIMEOUT_MS = 1000"

section \<open>Configuration\<close>

definition append_timeout_from_env :: "string option \<Rightarrow> nat" where
  "append_timeout_from_env raw =
     (case map_option trim raw of
        None \<Rightarrow> DEFAULT_APPEND_TIMEOUT_MS
      | Some s \<Rightarrow>
          (if s = '''' then DEFAULT_APPEND_TIMEOUT_MS
           else case parse_u64 s of
                  Some ms \<Rightarrow> (if ms < MIN_APPEND_TIMEOUT_MS then MIN_APPEND_TIMEOUT_MS else ms)
                | None \<Rightarrow> DEFAULT_APPEND_TIMEOUT_MS))"

section \<open>Election and commit rules\<close>

text \<open>A granted vote as \<^verbatim>\<open>pick_donor\<close> sees it: acceptor index, last log term, flush position.\<close>

type_synonym candidate = "nat \<times> nat \<times> lsn"

definition donor_le :: "candidate \<Rightarrow> candidate \<Rightarrow> bool" where
  "donor_le a b \<longleftrightarrow>
     fst (snd a) < fst (snd b) \<or> (fst (snd a) = fst (snd b) \<and> snd (snd a) \<le> snd (snd b))"

text \<open>\<^verbatim>\<open>Iterator::max_by_key\<close> returns the last of several maxima.\<close>

definition max_by_key :: "candidate list \<Rightarrow> candidate option" where
  "max_by_key cs =
     fold (\<lambda>c best. case best of
             None \<Rightarrow> Some c
           | Some b \<Rightarrow> if donor_le b c then Some c else Some b) cs None"

definition pick_donor :: "candidate list \<Rightarrow> nat option" where
  "pick_donor cs = map_option fst (max_by_key cs)"

definition quorum_commit :: "lsn list \<Rightarrow> lsn \<Rightarrow> lsn" where
  "quorum_commit flushes term_start_lsn =
     rev (sort (map (\<lambda>f. if f < term_start_lsn then 0 else f) flushes)) ! (QUORUM - 1)"

definition check_record_frame_len :: "nat \<Rightarrow> unit result" where
  "check_record_frame_len frame_len =
     (if frame_len + APPEND_MESSAGE_HEADROOM > MAX_MESSAGE_BYTES
      then Inl ''tail record exceeds the quorum message cap; split the statement into smaller inserts''
      else Inr ())"

definition compute_start ::
  "term_history \<Rightarrow> term_history \<Rightarrow> lsn \<Rightarrow> nat \<Rightarrow> lsn \<Rightarrow> lsn result" where
  "compute_start prop_th sk_th sk_flush prop_term base =
     (case last_common_idx prop_th sk_th 0 None of
        Inl e \<Rightarrow> Inl e
      | Inr None \<Rightarrow>
          (if sk_th = [] \<and> sk_flush = 0 then Inr base
           else case prop_th of [] \<Rightarrow> Inl ''proposer term history is empty'' | e # _ \<Rightarrow> Inr (tl_lsn e))
      | Inr (Some i) \<Rightarrow>
          (if tl_term (prop_th ! i) = prop_term then Inr sk_flush
           else (let prop_end = tl_lsn (prop_th ! (i + 1));
                     sk_end = (if i + 1 < length sk_th then tl_lsn (sk_th ! (i + 1)) else sk_flush)
                 in Inr (min prop_end sk_end))))"

section \<open>The retained log\<close>

record record_meta =
  rm_start :: lsn
  rm_end :: lsn
  rm_kind :: byte
  rm_table_key :: bytes
  rm_seq :: nat
  rm_frame :: bytes

record log_buf =
  lb_base :: lsn
  lb_head :: lsn
  lb_records :: "record_meta list"
  lb_covered :: "bytes \<rightharpoonup> nat"
  lb_last_wm :: "bytes \<rightharpoonup> lsn \<times> nat"

definition covered_of :: "log_buf \<Rightarrow> bytes \<Rightarrow> nat" where
  "covered_of log k = (case lb_covered log k of None \<Rightarrow> 0 | Some s \<Rightarrow> s)"

definition coverable :: "log_buf \<Rightarrow> record_meta \<Rightarrow> bool" where
  "coverable log r =
     (if rm_kind r = RECORD_FRAME then
        covered_of log (rm_table_key r) \<ge> rm_seq r \<and>
        (case lb_last_wm log (rm_table_key r) of None \<Rightarrow> False | Some (_, wm_seq) \<Rightarrow> wm_seq \<ge> rm_seq r)
      else if rm_kind r = RECORD_WATERMARK then
        (case lb_last_wm log (rm_table_key r) of None \<Rightarrow> False | Some (start, _) \<Rightarrow> start > rm_start r)
      else False)"

fun coverable_walk ::
  "log_buf \<Rightarrow> lsn \<Rightarrow> record_meta list \<Rightarrow> lsn \<Rightarrow> lsn \<times> (bytes \<times> nat) option" where
  "coverable_walk log commit [] prefix_end = (prefix_end, None)"
| "coverable_walk log commit (r # rs) prefix_end =
     (if rm_end r > commit then (prefix_end, None)
      else if coverable log r then coverable_walk log commit rs (rm_end r)
      else if rm_kind r = RECORD_WATERMARK \<and> lb_head log - rm_start r > WATERMARK_REFRESH_SLACK
      then (prefix_end, Some (rm_table_key r, max (rm_seq r) (covered_of log (rm_table_key r))))
      else (prefix_end, None))"

definition coverable_prefix :: "log_buf \<Rightarrow> lsn \<Rightarrow> lsn \<times> (bytes \<times> nat) option" where
  "coverable_prefix log commit = coverable_walk log commit (lb_records log) (lb_base log)"

datatype batch = Data lsn lsn bytes | UpToDate | Behind

text \<open>The loop of \<^verbatim>\<open>next_batch\<close>: \<open>bg\<close> is the begin position once the first record is taken.\<close>

fun batch_loop :: "record_meta list \<Rightarrow> lsn \<Rightarrow> lsn option \<Rightarrow> lsn \<Rightarrow> bytes \<Rightarrow> lsn option \<times> lsn \<times> bytes" where
  "batch_loop [] from bg end_lsn bs = (bg, end_lsn, bs)"
| "batch_loop (r # rs) from bg end_lsn bs =
     (if rm_end r \<le> from then batch_loop rs from bg end_lsn bs
      else if bg \<noteq> None \<and> length bs + length (rm_frame r) + APPEND_MESSAGE_HEADROOM > MAX_MESSAGE_BYTES
      then (bg, end_lsn, bs)
      else
        (let bg' = (case bg of None \<Rightarrow> Some (rm_start r) | Some b \<Rightarrow> Some b);
             bs' = bs @ rm_frame r
         in if length bs' \<ge> MAX_APPEND_BATCH_BYTES then (bg', rm_end r, bs')
            else batch_loop rs from bg' (rm_end r) bs'))"

definition next_batch :: "log_buf \<Rightarrow> lsn \<Rightarrow> batch" where
  "next_batch log from =
     (if from \<ge> lb_head log then UpToDate
      else if from < lb_base log then Behind
      else case batch_loop (lb_records log) from None from [] of
             (Some b, end_lsn, bs) \<Rightarrow> Data b end_lsn bs
           | (None, _, _) \<Rightarrow> UpToDate)"

section \<open>Donor, commit and start rules\<close>

lemma append_timeout_floor: "MIN_APPEND_TIMEOUT_MS \<le> append_timeout_from_env raw"
  by (auto simp: append_timeout_from_env_def MIN_APPEND_TIMEOUT_MS_def DEFAULT_APPEND_TIMEOUT_MS_def
      split: option.splits)

lemma donor_le_refl [simp]: "donor_le a a"
  by (simp add: donor_le_def)

lemma donor_le_trans: "donor_le a b \<Longrightarrow> donor_le b c \<Longrightarrow> donor_le a c"
  by (auto simp: donor_le_def)

lemma donor_le_total: "\<not> donor_le a b \<Longrightarrow> donor_le b a"
  by (auto simp: donor_le_def)

lemma max_by_key_snoc:
  "max_by_key (cs @ [c]) =
     (case max_by_key cs of None \<Rightarrow> Some c | Some b \<Rightarrow> if donor_le b c then Some c else Some b)"
  by (simp add: max_by_key_def)

lemma max_by_key_spec:
  "cs \<noteq> [] \<Longrightarrow> \<exists>d. max_by_key cs = Some d \<and> d \<in> set cs \<and> (\<forall>c\<in>set cs. donor_le c d)"
proof (induction cs rule: rev_induct)
  case Nil
  then show ?case by simp
next
  case (snoc c cs)
  show ?case
  proof (cases "cs = []")
    case True
    then show ?thesis by (simp add: max_by_key_def)
  next
    case False
    with snoc.IH obtain d where d: "max_by_key cs = Some d" "d \<in> set cs" "\<forall>x\<in>set cs. donor_le x d"
      by blast
    show ?thesis
    proof (cases "donor_le d c")
      case True
      with d have "max_by_key (cs @ [c]) = Some c" "\<forall>x\<in>set (cs @ [c]). donor_le x c"
        by (auto simp: max_by_key_snoc intro: donor_le_trans)
      then show ?thesis by (intro exI [of _ c]) simp
    next
      case False
      with d have "max_by_key (cs @ [c]) = Some d" "\<forall>x\<in>set (cs @ [c]). donor_le x d"
        by (auto simp: max_by_key_snoc intro: donor_le_total)
      then show ?thesis using d(2) by (intro exI [of _ d]) simp
    qed
  qed
qed

lemma pick_donor_spec:
  assumes "cs \<noteq> []"
  shows "\<exists>i llt flush. pick_donor cs = Some i \<and> (i, llt, flush) \<in> set cs \<and>
    (\<forall>(j, l, f)\<in>set cs. l < llt \<or> (l = llt \<and> f \<le> flush))"
  using max_by_key_spec [OF assms] by (fastforce simp: pick_donor_def donor_le_def)

text \<open>The commit rule: the second highest acknowledged position, never below the start of the term.\<close>

lemma quorum_commit_three:
  "quorum_commit [a, b, c] ts =
     (let z = (\<lambda>f. if f < ts then 0 else f); x = z a; y = z b; w = z c
      in max (min x y) (min (max x y) w))"
  by (auto simp: quorum_commit_def QUORUM_def Let_def)

lemma three_elements:
  assumes "length xs = 3"
  obtains a b c where "xs = [a, b, c]"
  using assms by (auto simp: numeral_3_eq_3 length_Suc_conv)

lemma median_two:
  fixes x y w :: nat
  defines "m \<equiv> max (min x y) (min (max x y) w)"
  shows "m \<le> x \<and> m \<le> y \<or> m \<le> x \<and> m \<le> w \<or> m \<le> y \<and> m \<le> w"
    and "m = x \<or> m = y \<or> m = w"
  unfolding m_def by (auto simp: max_def min_def)

lemma quorum_commit_sound:
  assumes "length fs = 3" "0 < quorum_commit fs ts"
  shows "ts \<le> quorum_commit fs ts \<and> 2 \<le> length (filter (\<lambda>f. quorum_commit fs ts \<le> f) fs)"
proof -
  obtain a b c where fs: "fs = [a, b, c]" using assms(1) by (rule three_elements)
  define z where "z = (\<lambda>f. if f < ts then 0 else f :: nat)"
  define m where "m = max (min (z a) (z b)) (min (max (z a) (z b)) (z c))"
  have q: "quorum_commit fs ts = m" by (simp add: fs quorum_commit_three m_def z_def Let_def)
  have pos: "0 < m" using assms(2) q by simp
  have big: "m \<le> z f \<Longrightarrow> m \<le> f" for f using pos by (auto simp: z_def split: if_splits)
  have "ts \<le> m" using median_two(2) [of "z a" "z b" "z c"] pos
    unfolding m_def [symmetric] by (auto simp: z_def split: if_splits)
  moreover have "m \<le> a \<and> m \<le> b \<or> m \<le> a \<and> m \<le> c \<or> m \<le> b \<and> m \<le> c"
    using median_two(1) [of "z a" "z b" "z c"] big unfolding m_def [symmetric] by blast
  ultimately show ?thesis unfolding q by (auto simp: fs)
qed

lemma quorum_commit_complete:
  assumes "length fs = 3" "ts \<le> x" "2 \<le> length (filter (\<lambda>f. x \<le> f) fs)"
  shows "x \<le> quorum_commit fs ts"
proof -
  obtain a b c where fs: "fs = [a, b, c]" using assms(1) by (rule three_elements)
  define z where "z = (\<lambda>f. if f < ts then 0 else f :: nat)"
  have z: "x \<le> f \<Longrightarrow> x \<le> z f" for f using assms(2) by (simp add: z_def)
  have "x \<le> a \<and> x \<le> b \<or> x \<le> a \<and> x \<le> c \<or> x \<le> b \<and> x \<le> c"
    using assms(3) by (auto simp: fs split: if_splits)
  then have "x \<le> z a \<and> x \<le> z b \<or> x \<le> z a \<and> x \<le> z c \<or> x \<le> z b \<and> x \<le> z c" using z by blast
  then have "x \<le> max (min (z a) (z b)) (min (max (z a) (z b)) (z c))" by auto
  then show ?thesis by (simp add: fs quorum_commit_three z_def Let_def)
qed

lemma last_common_idx_bound:
  "last_common_idx p s n acc = Inr (Some i) \<Longrightarrow> acc = Some i \<or> (n \<le> i \<and> i < n + length p \<and> i < n + length s)"
  by (induction p s n acc rule: last_common_idx.induct) (auto split: if_splits)

text \<open>The proposer's start position is the one the acceptor expects.\<close>

lemma compute_start_agrees:
  assumes wf: "th_wf p" "p \<noteq> []" "tl_term (last p) = pt"
    and sk: "\<forall>e\<in>set s. tl_lsn e \<le> flush"
    and fresh: "s = [] \<Longrightarrow> (flush = 0) = wal_empty"
    and res: "compute_start p s flush pt base = Inr st"
  shows "(case find_highest_common_point p s flush of
        Inl e \<Rightarrow> Inl e
      | Inr (Some t) \<Rightarrow> Inr (tl_lsn t)
      | Inr None \<Rightarrow>
          (if s = [] \<and> wal_empty then Inr st
           else case p of [] \<Rightarrow> Inl ''elected message carries an empty term history'' | e # _ \<Rightarrow> Inr (tl_lsn e)))
    = Inr st"
proof -
  have ok: "\<not> (s \<noteq> [] \<and> tl_lsn (last s) > flush)" using sk by (cases s rule: rev_cases) auto
  obtain r where r: "last_common_idx p s 0 None = Inr r"
    using res by (auto simp: compute_start_def split: sum.splits)
  show ?thesis
  proof (cases r)
    case None
    then show ?thesis using ok r res fresh wf(2)
      by (auto simp: compute_start_def find_highest_common_point_def split: if_splits list.splits)
  next
    case (Some i)
    then have i: "i < length p" using last_common_idx_bound [of p s 0 None i] r by auto
    have lastp: "tl_term (p ! (length p - 1)) = pt" using wf(2,3) by (simp add: last_conv_nth)
    have "(tl_term (p ! i) = pt) = (i = length p - 1)"
    proof
      assume "tl_term (p ! i) = pt"
      then show "i = length p - 1"
        using th_wf_inj_term [OF wf(1) i, of "length p - 1"] lastp wf(2) by simp
    qed (use lastp in simp)
    then show ?thesis using ok r res Some
      by (auto simp: compute_start_def find_highest_common_point_def Let_def)
  qed
qed

section \<open>Batches\<close>

text \<open>Records laid out contiguously between two positions.\<close>

fun rm_chain :: "lsn \<Rightarrow> record_meta list \<Rightarrow> lsn \<Rightarrow> bool" where
  "rm_chain a [] b = (a = b)"
| "rm_chain a (r # rs) b =
     (rm_start r = a \<and> rm_end r = a + length (rm_frame r) \<and> rm_frame r \<noteq> [] \<and> rm_chain (rm_end r) rs b)"

definition rm_bytes :: "record_meta list \<Rightarrow> bytes" where
  "rm_bytes rs = concat (map rm_frame rs)"

definition log_wf :: "log_buf \<Rightarrow> bool" where
  "log_wf log \<longleftrightarrow> rm_chain (lb_base log) (lb_records log) (lb_head log)"

lemma rm_bytes_simps [simp]: "rm_bytes [] = []" "rm_bytes (r # rs) = rm_frame r @ rm_bytes rs"
  "rm_bytes (rs @ ss) = rm_bytes rs @ rm_bytes ss"
  by (simp_all add: rm_bytes_def)

lemma rm_chain_append: "rm_chain a (rs @ ss) b \<longleftrightarrow> (\<exists>m. rm_chain a rs m \<and> rm_chain m ss b)"
  by (induction rs arbitrary: a) auto

lemma rm_chain_length: "rm_chain a rs b \<Longrightarrow> b = a + length (rm_bytes rs)"
  by (induction rs arbitrary: a) fastforce+

lemma rm_chain_ends: "rm_chain a rs b \<Longrightarrow> r \<in> set rs \<Longrightarrow> a \<le> rm_start r \<and> rm_start r < rm_end r \<and> rm_end r \<le> b"
proof (induction rs arbitrary: a)
  case Nil
  then show ?case by simp
next
  case (Cons x rs)
  then have "rm_end x \<le> b" using rm_chain_length [of "rm_end x" rs b] by auto
  with Cons show ?case by fastforce
qed

text \<open>Once the first record is taken, the loop takes a run of the following records.\<close>

lemma batch_loop_run:
  assumes "rm_chain pos rs b" "from \<le> pos"
  shows "\<exists>xs ys. rs = xs @ ys \<and>
    batch_loop rs from (Some bg) pos bs = (Some bg, pos + length (rm_bytes xs), bs @ rm_bytes xs) \<and>
    (length bs + APPEND_MESSAGE_HEADROOM \<le> MAX_MESSAGE_BYTES \<longrightarrow>
       length (bs @ rm_bytes xs) + APPEND_MESSAGE_HEADROOM \<le> MAX_MESSAGE_BYTES)"
  using assms
proof (induction rs arbitrary: pos bs)
  case Nil
  then show ?case by simp
next
  case (Cons r rs)
  let ?big = "length bs + length (rm_frame r) + APPEND_MESSAGE_HEADROOM > MAX_MESSAGE_BYTES"
  have r: "rm_end r = pos + length (rm_frame r)" "\<not> rm_end r \<le> from" "rm_chain (rm_end r) rs b"
    using Cons.prems le_less_trans [of "from" pos "rm_end r"] by (auto simp: not_le)
  consider "?big" | "\<not> ?big" "length (bs @ rm_frame r) \<ge> MAX_APPEND_BATCH_BYTES"
    | "\<not> ?big" "\<not> length (bs @ rm_frame r) \<ge> MAX_APPEND_BATCH_BYTES" by blast
  then show ?case
  proof cases
    case 1
    then show ?thesis using r by (intro exI [of _ "[]"] exI [of _ "r # rs"]) simp
  next
    case 2
    then show ?thesis using r by (intro exI [of _ "[r]"] exI [of _ rs]) auto
  next
    case 3
    obtain xs ys where "rs = xs @ ys"
      "batch_loop rs from (Some bg) (rm_end r) (bs @ rm_frame r) =
        (Some bg, rm_end r + length (rm_bytes xs), (bs @ rm_frame r) @ rm_bytes xs)"
      "length (bs @ rm_frame r) + APPEND_MESSAGE_HEADROOM \<le> MAX_MESSAGE_BYTES \<longrightarrow>
       length ((bs @ rm_frame r) @ rm_bytes xs) + APPEND_MESSAGE_HEADROOM \<le> MAX_MESSAGE_BYTES"
      using Cons.IH [OF r(3), of "bs @ rm_frame r"] r(2) by auto
    then show ?thesis using 3 r by (intro exI [of _ "r # xs"] exI [of _ ys]) auto
  qed
qed

lemma batch_loop_skip:
  assumes "rm_chain a rs b" "rm_chain a xs from" "rs = xs @ ys"
  shows "batch_loop rs from None e bs = batch_loop ys from None e bs"
  using assms
proof (induction xs arbitrary: a rs)
  case Nil
  then show ?case by simp
next
  case (Cons x xs)
  have "rm_end x \<le> from" using rm_chain_ends [OF Cons.prems(2), of x] by simp
  moreover have "batch_loop (xs @ ys) from None e bs = batch_loop ys from None e bs"
    using Cons.prems by (intro Cons.IH [of "rm_end x"]) auto
  ultimately show ?case using Cons.prems(3) by simp
qed

lemma next_batch_data:
  assumes wf: "log_wf log" and split: "lb_records log = xs @ ys" "rm_chain (lb_base log) xs from"
    and small: "\<forall>r\<in>set (lb_records log). length (rm_frame r) + APPEND_MESSAGE_HEADROOM \<le> MAX_MESSAGE_BYTES"
    and lt: "from < lb_head log"
  shows "\<exists>zs us. ys = zs @ us \<and> zs \<noteq> [] \<and>
     next_batch log from = Data from (from + length (rm_bytes zs)) (rm_bytes zs) \<and>
     length (rm_bytes zs) + APPEND_MESSAGE_HEADROOM \<le> MAX_MESSAGE_BYTES"
proof -
  have ch: "rm_chain (lb_base log) (xs @ ys) (lb_head log)" using wf split by (simp add: log_wf_def)
  have fr: "lb_base log \<le> from" using rm_chain_length [OF split(2)] by simp
  obtain m where m: "rm_chain (lb_base log) xs m" "rm_chain m ys (lb_head log)"
    using ch by (auto simp: rm_chain_append)
  then have cy: "rm_chain from ys (lb_head log)"
    using rm_chain_length [OF split(2)] rm_chain_length [OF m(1)] by simp
  then obtain r rs where ys: "ys = r # rs" using lt by (cases ys) auto
  have skip: "batch_loop (lb_records log) from None from [] = batch_loop ys from None from []"
    using batch_loop_skip [OF ch split(2)] split(1) by simp
  have r: "rm_start r = from" "rm_end r = from + length (rm_frame r)" "\<not> rm_end r \<le> from"
    "rm_chain (rm_end r) rs (lb_head log)" "length (rm_frame r) + APPEND_MESSAGE_HEADROOM \<le> MAX_MESSAGE_BYTES"
    using cy ys small split(1) by auto
  show ?thesis
  proof (cases "length (rm_frame r) \<ge> MAX_APPEND_BATCH_BYTES")
    case True
    then show ?thesis using r skip ys lt fr
      by (rule_tac x = "[r]" in exI, rule_tac x = rs in exI) (simp add: next_batch_def Let_def)
  next
    case False
    obtain zs us where z: "rs = zs @ us"
      "batch_loop rs from (Some from) (rm_end r) (rm_frame r) =
        (Some from, rm_end r + length (rm_bytes zs), rm_frame r @ rm_bytes zs)"
      "length (rm_frame r @ rm_bytes zs) + APPEND_MESSAGE_HEADROOM \<le> MAX_MESSAGE_BYTES"
      using batch_loop_run [OF r(4), of "from" "from" "rm_frame r"] r(2,5) by auto
    then show ?thesis using False r skip ys lt fr
      by (rule_tac x = "r # zs" in exI, rule_tac x = us in exI) (simp add: next_batch_def Let_def add.assoc)
  qed
qed

section \<open>The coverable prefix\<close>

definition is_wm :: "bytes \<Rightarrow> record_meta \<Rightarrow> bool" where
  "is_wm k r \<longleftrightarrow> rm_kind r = RECORD_WATERMARK \<and> rm_table_key r = k"

definition last_wm_of :: "record_meta list \<Rightarrow> bytes \<Rightarrow> (lsn \<times> nat) option" where
  "last_wm_of rs k =
     (let ws = filter (is_wm k) rs in if ws = [] then None else Some (rm_start (last ws), rm_seq (last ws)))"

text \<open>\<open>last_wm\<close> is exactly the latest watermark record of each table in the retained log.\<close>

definition wm_wf :: "log_buf \<Rightarrow> bool" where
  "wm_wf log \<longleftrightarrow> (\<forall>k. lb_last_wm log k = last_wm_of (lb_records log) k)"

lemma coverable_walk_prefix:
  assumes "rm_chain a rs b" "coverable_walk log c rs a = (e, rf)"
  shows "\<exists>xs ys. rs = xs @ ys \<and> rm_chain a xs e \<and> (\<forall>r\<in>set xs. coverable log r \<and> rm_end r \<le> c) \<and>
     (ys \<noteq> [] \<longrightarrow> rm_end (hd ys) > c \<or> \<not> coverable log (hd ys))"
  using assms
proof (induction rs arbitrary: a)
  case Nil
  then show ?case by simp
next
  case (Cons r rs)
  show ?case
  proof (cases "\<not> rm_end r > c \<and> coverable log r")
    case True
    then have w: "coverable_walk log c rs (rm_end r) = (e, rf)" using Cons.prems(2) by simp
    have ch: "rm_chain (rm_end r) rs b" using Cons.prems(1) by auto
    obtain xs ys where "rs = xs @ ys" "rm_chain (rm_end r) xs e"
      "\<forall>r\<in>set xs. coverable log r \<and> rm_end r \<le> c"
      "ys \<noteq> [] \<longrightarrow> rm_end (hd ys) > c \<or> \<not> coverable log (hd ys)"
      using Cons.IH [OF ch w] by blast
    with True Cons.prems(1) show ?thesis by (intro exI [of _ "r # xs"] exI [of _ ys]) auto
  next
    case False
    then have "e = a" using Cons.prems(2) by (auto split: if_splits)
    with False show ?thesis by (intro exI [of _ "[]"] exI [of _ "r # rs"]) auto
  qed
qed

lemma coverable_prefix_bounds:
  assumes "log_wf log" "coverable_prefix log c = (e, rf)"
  shows "lb_base log \<le> e \<and> e \<le> lb_head log \<and> e \<le> max (lb_base log) c"
proof -
  obtain xs ys where xy: "lb_records log = xs @ ys" "rm_chain (lb_base log) xs e"
    "\<forall>r\<in>set xs. coverable log r \<and> rm_end r \<le> c"
    using coverable_walk_prefix [of "lb_base log" "lb_records log" "lb_head log" log c e rf] assms
    by (auto simp: log_wf_def coverable_prefix_def)
  obtain m where "rm_chain (lb_base log) xs m" "rm_chain m ys (lb_head log)"
    using assms(1) xy(1) by (auto simp: log_wf_def rm_chain_append)
  then have "e \<le> lb_head log" using rm_chain_length [OF xy(2)] rm_chain_length by fastforce
  moreover have "e \<le> max (lb_base log) c"
  proof (cases xs rule: rev_cases)
    case Nil
    then show ?thesis using xy(2) by simp
  next
    case (snoc zs z)
    then have "e = rm_end z" using xy(2) by (auto simp: rm_chain_append)
    then show ?thesis using xy(3) snoc by auto
  qed
  ultimately show ?thesis using rm_chain_length [OF xy(2)] by simp
qed

text \<open>
  Whatever the coverable prefix releases, the latest watermark of every table stays: a
  released frame is covered and a retained watermark of its table carries a sequence number
  at least as high, and a released watermark is superseded by a retained one.
\<close>

lemma coverable_keeps_watermark:
  assumes wf: "log_wf log" "wm_wf log" and e: "coverable_prefix log c = (e, rf)"
    and r: "r \<in> set (lb_records log)" "rm_end r \<le> e"
  shows "\<exists>w\<in>set (lb_records log). e < rm_end w \<and> is_wm (rm_table_key r) w \<and>
     (rm_kind r = RECORD_FRAME \<longrightarrow> rm_seq r \<le> covered_of log (rm_table_key r) \<and> rm_seq r \<le> rm_seq w) \<and>
     (rm_kind r = RECORD_WATERMARK \<longrightarrow> rm_start r < rm_start w)"
proof -
  let ?k = "rm_table_key r"
  obtain xs ys where xy: "lb_records log = xs @ ys" "rm_chain (lb_base log) xs e"
    "\<forall>x\<in>set xs. coverable log x \<and> rm_end x \<le> c"
    using coverable_walk_prefix [of "lb_base log" "lb_records log" "lb_head log" log c e rf] wf e
    by (auto simp: log_wf_def coverable_prefix_def)
  obtain m where m: "rm_chain (lb_base log) xs m" "rm_chain m ys (lb_head log)"
    using wf(1) xy(1) by (auto simp: log_wf_def rm_chain_append)
  have "m = e" using rm_chain_length [OF xy(2)] rm_chain_length [OF m(1)] by simp
  then have after: "\<forall>x\<in>set ys. e < rm_end x" using rm_chain_ends [OF m(2)] by fastforce
  then have "r \<in> set xs" using r xy(1) by fastforce
  then have cov: "coverable log r" using xy(3) by blast
  then obtain st sq where last: "lb_last_wm log ?k = Some (st, sq)"
    by (auto simp: coverable_def split: if_splits option.splits)
  let ?ws = "filter (is_wm ?k) (lb_records log)"
  have ne: "?ws \<noteq> []" and st: "st = rm_start (last ?ws)" "sq = rm_seq (last ?ws)"
    using last wf(2) by (auto simp: wm_wf_def last_wm_of_def Let_def split: if_splits)
  let ?w = "last ?ws"
  have w: "?w \<in> set (lb_records log)" "is_wm ?k ?w" using last_in_set [OF ne] by auto
  have "\<not> coverable log ?w"
    using last st w(2) by (auto simp: coverable_def is_wm_def RECORD_FRAME_def RECORD_WATERMARK_def)
  then have "?w \<in> set ys" using w(1) xy(1,3) by auto
  then have "e < rm_end ?w" using after by blast
  moreover have "rm_kind r = RECORD_FRAME \<longrightarrow> rm_seq r \<le> covered_of log ?k \<and> rm_seq r \<le> rm_seq ?w"
    using cov last st by (auto simp: coverable_def)
  moreover have "rm_kind r = RECORD_WATERMARK \<longrightarrow> rm_start r < rm_start ?w"
    using cov last st by (auto simp: coverable_def RECORD_FRAME_def RECORD_WATERMARK_def)
  ultimately show ?thesis using w by blast
qed

end
