(* ===== verification/Proposer.thy ===== *)
theory Proposer
  imports ProposerRules
begin

text \<open>
  The live proposer of \<^verbatim>\<open>icegres/src/quorum/proposer.rs\<close>: the shared state behind its locks,
  the operations on it, and the phases of \<^verbatim>\<open>Quorum::open\<close>, of the reconnect handshake and of
  the internal re-election.  A network round trip is an argument: the response of the
  acceptor, \<open>Inl\<close> for a failed or timed-out call.  Wake-ups and back-off timers carry no
  state and are left out.
\<close>

section \<open>Shared state\<close>

record peer =
  p_flush :: lsn
  p_failed :: bool

record election =
  el_term :: nat
  el_term_start_lsn :: lsn
  el_history :: term_history

datatype reelect_reason = Fenced nat | Stalled lsn

record shared =
  sh_tail_id :: string
  sh_election :: election
  sh_log :: log_buf
  sh_peers :: "peer list"
  sh_commit :: lsn
  sh_horizon :: lsn
  sh_poison :: "string option"
  sh_reelect :: "reelect_reason list"

definition poison :: "shared \<Rightarrow> string \<Rightarrow> shared" where
  "poison sh why = (case sh_poison sh of None \<Rightarrow> sh\<lparr>sh_poison := Some why\<rparr> | Some _ \<Rightarrow> sh)"

definition recompute_commit_at :: "shared \<Rightarrow> lsn \<Rightarrow> shared" where
  "recompute_commit_at sh term_start_lsn =
     (let cand = quorum_commit (map p_flush (sh_peers sh)) term_start_lsn
      in if cand \<ge> term_start_lsn \<and> cand > sh_commit sh then sh\<lparr>sh_commit := cand\<rparr> else sh)"

definition recompute_commit :: "shared \<Rightarrow> shared" where
  "recompute_commit sh = recompute_commit_at sh (el_term_start_lsn (sh_election sh))"

definition set_peer :: "shared \<Rightarrow> nat \<Rightarrow> (peer \<Rightarrow> peer) \<Rightarrow> shared" where
  "set_peer sh idx f = sh\<lparr>sh_peers := (sh_peers sh)[idx := f (sh_peers sh ! idx)]\<rparr>"

definition store_ack :: "shared \<Rightarrow> nat \<Rightarrow> nat \<Rightarrow> lsn \<Rightarrow> bool \<times> shared" where
  "store_ack sh idx conn_term flush =
     (if el_term (sh_election sh) \<noteq> conn_term then (False, sh)
      else (True, recompute_commit_at (set_peer sh idx (\<lambda>p. p\<lparr>p_flush := flush\<rparr>))
                    (el_term_start_lsn (sh_election sh))))"

definition request_reelection :: "shared \<Rightarrow> reelect_reason \<Rightarrow> shared" where
  "request_reelection sh r = sh\<lparr>sh_reelect := sh_reelect sh @ [r]\<rparr>"

section \<open>Appending\<close>

definition submit ::
  "(bytes \<Rightarrow> 32 word) \<Rightarrow> shared \<Rightarrow> byte \<Rightarrow> bytes \<Rightarrow> nat \<Rightarrow> bytes \<Rightarrow> lsn result \<times> shared" where
  "submit crc sh kind table_key seq body =
     (case sh_poison sh of
        Some why \<Rightarrow> (Inl why, sh)
      | None \<Rightarrow>
          (let log = sh_log sh;
               start = lb_head log;
               r = \<lparr>r_lsn = start, r_kind = kind, r_table_key = table_key, r_seq = seq, r_body = body\<rparr>
           in case record_encode crc r of
                Inl e \<Rightarrow> (Inl e, sh)
              | Inr fb \<Rightarrow>
                  (case check_record_frame_len (length fb) of
                     Inl e \<Rightarrow> (Inl e, sh)
                   | Inr _ \<Rightarrow>
                       (let end_lsn = start + length fb;
                            log1 = (if kind = RECORD_WATERMARK
                                    then log\<lparr>lb_last_wm := (lb_last_wm log)(table_key \<mapsto> (start, seq))\<rparr>
                                    else log);
                            m = \<lparr>rm_start = start, rm_end = end_lsn, rm_kind = kind,
                                 rm_table_key = table_key, rm_seq = seq, rm_frame = fb\<rparr>
                        in (Inr end_lsn,
                            sh\<lparr>sh_log := log1\<lparr>lb_records := lb_records log @ [m], lb_head := end_lsn\<rparr>\<rparr>)))))"

text \<open>
  \<^verbatim>\<open>wait_commit\<close> awaits in a loop.  Each element of the list is one await: what the other tasks do
  to the shared state meanwhile, and how the await ends.  With the list exhausted the call is
  still waiting (\<open>None\<close>).  The flag records the one re-election attempt.
\<close>

datatype wake = Changed | Closed | Deadline

fun wait_commit ::
  "((shared \<Rightarrow> shared) \<times> wake) list \<Rightarrow> shared \<Rightarrow> lsn \<Rightarrow> bool \<Rightarrow> (unit result) option \<times> shared" where
  "wait_commit awaits sh position stalled_once =
     (case sh_poison sh of
        Some why \<Rightarrow> (Some (Inl why), sh)
      | None \<Rightarrow>
          (if sh_commit sh \<ge> position then (Some (Inr ()), sh)
           else case awaits of
                  [] \<Rightarrow> (None, sh)
                | (others, w) # rest \<Rightarrow>
                    (let sh1 = others sh in
                     case w of
                       Changed \<Rightarrow> wait_commit rest sh1 position stalled_once
                     | Closed \<Rightarrow> (Some (Inl ''quorum tail internal channel closed''), sh1)
                     | Deadline \<Rightarrow>
                         (if \<not> stalled_once
                          then wait_commit rest (request_reelection sh1 (Stalled position)) position True
                          else (Some (Inl ''quorum append timed out''), poison sh1 ''quorum append timed out'')))))"

declare wait_commit.simps [simp del]

section \<open>The horizon\<close>

definition live_flushes :: "peer list \<Rightarrow> lsn list" where
  "live_flushes ps = map p_flush (filter (\<lambda>p. \<not> p_failed p) ps)"

definition lagging :: "peer list \<Rightarrow> lsn \<Rightarrow> lsn" where
  "lagging ps horizon = (case live_flushes ps of [] \<Rightarrow> horizon | f # fs \<Rightarrow> fold min fs f)"

text \<open>\<^verbatim>\<open>min_by_key\<close> over the live peers: the first one with the smallest flush position.\<close>

fun first_live :: "nat \<Rightarrow> lsn \<Rightarrow> peer list \<Rightarrow> nat option" where
  "first_live i l [] = None"
| "first_live i l (p # ps) =
     (if \<not> p_failed p \<and> p_flush p = l then Some i else first_live (Suc i) l ps)"

lemma first_live_SomeD:
  "first_live k l ps = Some i \<Longrightarrow> k \<le> i \<and> i < k + length ps \<and> \<not> p_failed (ps ! (i - k)) \<and> p_flush (ps ! (i - k)) = l"
proof (induction k l ps rule: first_live.induct)
  case (1 i l)
  then show ?case by simp
next
  case (2 k l p ps)
  show ?case
  proof (cases "\<not> p_failed p \<and> p_flush p = l")
    case True
    then show ?thesis using 2 by simp
  next
    case False
    then have "Suc k \<le> i \<and> i < Suc k + length ps \<and> \<not> p_failed (ps ! (i - Suc k)) \<and> p_flush (ps ! (i - Suc k)) = l"
      using 2 by auto
    then show ?thesis by (auto simp: nth_Cons split: nat.splits) (metis Suc_diff_le diff_Suc_Suc nat.inject)+
  qed
qed

function expel_loop :: "peer list \<Rightarrow> lsn \<Rightarrow> peer list \<times> lsn" where
  "expel_loop ps horizon =
     (let drop_to = min horizon (lagging ps horizon) in
      if horizon - drop_to > MAX_PEER_LAG_BYTES
      then (case first_live 0 (lagging ps horizon) ps of
              Some i \<Rightarrow> expel_loop (ps[i := (ps ! i)\<lparr>p_failed := True\<rparr>]) horizon
            | None \<Rightarrow> (ps, drop_to))
      else (ps, drop_to))"
  by auto
termination
proof (relation "measure (\<lambda>(ps, h). length (filter (\<lambda>p. \<not> p_failed p) ps))", goal_cases)
  case 1
  then show ?case by simp
next
  case (2 ps h d i)
  then have i: "i < length ps" "\<not> p_failed (ps ! i)" using first_live_SomeD [of 0 _ ps i] by auto
  let ?q = "(ps ! i)\<lparr>p_failed := True\<rparr>"
  have "filter (\<lambda>p. \<not> p_failed p) (ps[i := ?q]) =
      filter (\<lambda>p. \<not> p_failed p) (take i ps) @ filter (\<lambda>p. \<not> p_failed p) (drop (Suc i) ps)"
    using i(1) by (simp add: upd_conv_take_nth_drop)
  moreover have "filter (\<lambda>p. \<not> p_failed p) ps =
      filter (\<lambda>p. \<not> p_failed p) (take i ps) @ ps ! i # filter (\<lambda>p. \<not> p_failed p) (drop (Suc i) ps)"
    using i by (subst id_take_nth_drop [OF i(1)]) simp
  ultimately show ?case by simp
qed

declare expel_loop.simps [simp del]

fun drop_front :: "lsn \<Rightarrow> lsn \<Rightarrow> record_meta list \<Rightarrow> lsn \<times> record_meta list" where
  "drop_front drop_to base [] = (base, [])"
| "drop_front drop_to base (r # rs) =
     (if rm_end r \<le> drop_to then drop_front drop_to (rm_end r) rs else (base, r # rs))"

definition advance_horizon_locked :: "shared \<Rightarrow> (bytes \<times> nat) option \<times> shared" where
  "advance_horizon_locked sh =
     (let commit = sh_commit sh;
          cp = coverable_prefix (sh_log sh) commit;
          horizon = max (min (fst cp) commit) (sh_horizon sh)
      in if horizon > sh_horizon sh
         then (let ex = expel_loop (sh_peers sh) horizon;
                   df = drop_front (snd ex) (lb_base (sh_log sh)) (lb_records (sh_log sh))
               in (snd cp, sh\<lparr>sh_horizon := horizon, sh_peers := fst ex,
                             sh_log := (sh_log sh)\<lparr>lb_base := fst df, lb_records := snd df\<rparr>\<rparr>))
         else (snd cp, sh))"

definition note_covered :: "shared \<Rightarrow> bytes \<Rightarrow> nat \<Rightarrow> (bytes \<times> nat) option \<times> shared" where
  "note_covered sh table_key upto_seq =
     (let log = sh_log sh;
          cur = max (covered_of log table_key) upto_seq
      in advance_horizon_locked (sh\<lparr>sh_log := log\<lparr>lb_covered := (lb_covered log)(table_key \<mapsto> cur)\<rparr>\<rparr>))"

definition nudge_horizon :: "shared \<Rightarrow> (bytes \<times> nat) option \<times> shared" where
  "nudge_horizon sh = advance_horizon_locked sh"

section \<open>Opening: identity, election, donor\<close>

text \<open>A greeting answer: tail identity, term and flush position; \<open>None\<close> for an unreachable acceptor.\<close>

type_synonym greet = "(string option \<times> nat \<times> lsn) option"

definition somes :: "'a option list \<Rightarrow> 'a list" where
  "somes xs = map the (filter (\<lambda>x. x \<noteq> None) xs)"

definition open_identity :: "string \<Rightarrow> greet list \<Rightarrow> string result" where
  "open_identity minted greets =
     (let live = length (somes greets);
          known = remdups (somes (map fst (somes greets)))
      in if live < QUORUM then Inl ''a quorum of acceptors is required to open the tail''
         else if length known > 1 then Inl ''the acceptors disagree on the tail identity''
         else case known of [] \<Rightarrow> Inr minted | tid # _ \<Rightarrow> Inr tid)"

datatype adopt_outcome = Adopted | AdoptOther | AdoptSilent | AdoptRefused string

text \<open>The identity-adoption greetings: a silent acceptor loses its connection, a refusal is an error.\<close>

fun open_adopt :: "adopt_outcome option list \<Rightarrow> (bool list) result" where
  "open_adopt [] = Inr []"
| "open_adopt (None # as) = rbind (open_adopt as) (\<lambda>cs. Inr (False # cs))"
| "open_adopt (Some a # as) =
     (case a of
        Adopted \<Rightarrow> rbind (open_adopt as) (\<lambda>cs. Inr (True # cs))
      | AdoptSilent \<Rightarrow> rbind (open_adopt as) (\<lambda>cs. Inr (False # cs))
      | AdoptOther \<Rightarrow> Inl ''unexpected identity-adoption response''
      | AdoptRefused e \<Rightarrow> Inl (''acceptor refused the tail identity: '' @ e))"

definition open_term :: "greet list \<Rightarrow> nat" where
  "open_term greets = fold max (map (\<lambda>g. fst (snd g)) (somes greets)) 0 + 1"

record vote =
  vt_flush :: lsn
  vt_last_log_term :: nat
  vt_history :: term_history
  vt_horizon :: lsn

text \<open>The vote loop: \<open>None\<close> for an acceptor without a connection, \<open>Some (Inl e)\<close> for a failed call.\<close>

fun open_votes :: "nat \<Rightarrow> message result option list \<Rightarrow> (vote option list) result" where
  "open_votes t [] = Inr []"
| "open_votes t (None # rs) = rbind (open_votes t rs) (\<lambda>vs. Inr (None # vs))"
| "open_votes t (Some (Inl e) # rs) = rbind (open_votes t rs) (\<lambda>vs. Inr (None # vs))"
| "open_votes t (Some (Inr m) # rs) =
     (case m of
        VoteResponse resp_term granted flush llt h horizon _ \<Rightarrow>
          (if resp_term > t then Inl ''superseded during election''
           else if \<not> granted then Inl ''acceptor refused the vote''
           else rbind (open_votes t rs) (\<lambda>vs.
                  Inr (Some \<lparr>vt_flush = flush, vt_last_log_term = llt, vt_history = h, vt_horizon = horizon\<rparr> # vs)))
      | _ \<Rightarrow> Inl ''unexpected vote response'')"

definition candidates :: "vote option list \<Rightarrow> candidate list" where
  "candidates votes =
     map (\<lambda>(i, v). (i, vt_last_log_term (the v), vt_flush (the v)))
       (filter (\<lambda>(i, v). v \<noteq> None) (enumerate 0 votes))"

definition open_donor :: "vote option list \<Rightarrow> (nat \<times> lsn \<times> lsn) result" where
  "open_donor votes =
     (if length (somes votes) < QUORUM then Inl ''a quorum of votes is required''
      else case pick_donor (candidates votes) of
             None \<Rightarrow> Inl ''granted >= quorum''
           | Some donor \<Rightarrow>
               (let term_start_lsn = vt_flush (the (votes ! donor));
                    truncate_lsn = fold max (map vt_horizon (somes votes)) 0
                in if truncate_lsn > term_start_lsn
                   then Inl ''acceptor horizon is beyond the donor flush''
                   else Inr (donor, term_start_lsn, truncate_lsn)))"

section \<open>Opening: recovery\<close>

text \<open>The chunked download; \<open>rd\<close> is the donor's answer to a read of a range.\<close>

function recovery_read ::
  "(lsn \<Rightarrow> lsn \<Rightarrow> message result) \<Rightarrow> nat \<Rightarrow> lsn \<Rightarrow> lsn \<Rightarrow> bytes \<Rightarrow> bytes result" where
  "recovery_read rd chunk term_start_lsn read_pos acc =
     (if read_pos < term_start_lsn then
        (let to_lsn = min term_start_lsn (read_pos + chunk) in
         case rd read_pos to_lsn of
           Inl e \<Rightarrow> Inl ''the donor did not return the recovery range''
         | Inr (ReadResp from_lsn records) \<Rightarrow>
             (if from_lsn \<noteq> read_pos then Inl ''donor read returned the wrong range start''
              else if records = [] then Inl ''donor returned an empty chunk''
              else if read_pos + length records > to_lsn then Inl ''donor overran the requested chunk end''
              else recovery_read rd chunk term_start_lsn (read_pos + length records) (acc @ records))
         | Inr _ \<Rightarrow> Inl ''unexpected read response'')
      else Inr acc)"
  by auto
termination
  by (relation "measure (\<lambda>(rd, c, ts, pos, acc). ts - pos)") (auto intro!: diff_less_mono2)

declare recovery_read.simps [simp del]

definition push_term :: "term_history \<Rightarrow> nat \<Rightarrow> lsn \<Rightarrow> term_history result" where
  "push_term h t term_start_lsn =
     (if h \<noteq> [] \<and> tl_term (last h) \<ge> t then Inl ''donor history already contains this term''
      else Inr (h @ [\<lparr>tl_term = t, tl_lsn = term_start_lsn\<rparr>]))"

fun seed_records ::
  "(bytes \<Rightarrow> 32 word) \<Rightarrow> lsn \<Rightarrow> log_record list \<Rightarrow> record_meta list \<Rightarrow> (bytes \<rightharpoonup> lsn \<times> nat) \<Rightarrow>
   (record_meta list \<times> (bytes \<rightharpoonup> lsn \<times> nat)) result" where
  "seed_records crc pos [] ms wm = Inr (ms, wm)"
| "seed_records crc pos (r # rs) ms wm =
     rbind (record_encode crc r) (\<lambda>fb.
       let end_lsn = pos + length fb;
           wm' = (if r_kind r = RECORD_WATERMARK then wm(r_table_key r \<mapsto> (r_lsn r, r_seq r)) else wm);
           m = \<lparr>rm_start = pos, rm_end = end_lsn, rm_kind = r_kind r, rm_table_key = r_table_key r,
                rm_seq = r_seq r, rm_frame = fb\<rparr>
       in seed_records crc end_lsn rs (ms @ [m]) wm')"

definition open_recover ::
  "(bytes \<Rightarrow> 32 word) \<Rightarrow> (lsn \<Rightarrow> lsn \<Rightarrow> message result) \<Rightarrow> nat \<Rightarrow> lsn \<Rightarrow> lsn \<Rightarrow> (log_record list) result" where
  "open_recover crc rd chunk truncate_lsn term_start_lsn =
     rbind (recovery_read rd (max chunk 1) term_start_lsn truncate_lsn []) (\<lambda>rec_bytes.
       if truncate_lsn + length rec_bytes \<noteq> term_start_lsn then Inl ''short read''
       else decode_records crc rec_bytes truncate_lsn)"

definition open_shared ::
  "(bytes \<Rightarrow> 32 word) \<Rightarrow> string \<Rightarrow> nat \<Rightarrow> term_history \<Rightarrow> lsn \<Rightarrow> lsn \<Rightarrow> log_record list \<Rightarrow> shared result" where
  "open_shared crc tail_id t history truncate_lsn term_start_lsn recovered =
     rbind (seed_records crc truncate_lsn recovered [] Map.empty) (\<lambda>(ms, wm).
       Inr \<lparr>sh_tail_id = tail_id,
            sh_election = \<lparr>el_term = t, el_term_start_lsn = term_start_lsn, el_history = history\<rparr>,
            sh_log = \<lparr>lb_base = truncate_lsn, lb_head = term_start_lsn, lb_records = ms,
                      lb_covered = Map.empty, lb_last_wm = wm\<rparr>,
            sh_peers = replicate QUORUM_SIZE \<lparr>p_flush = 0, p_failed = False\<rparr>,
            sh_commit = 0, sh_horizon = truncate_lsn, sh_poison = None, sh_reelect = []\<rparr>)"

section \<open>Opening: the elected handshakes\<close>

text \<open>\<open>er i start\<close> is acceptor \<open>i\<close>'s answer to \<^verbatim>\<open>Elected\<close> at that start; voters are visited in order.\<close>

fun open_elect ::
  "(nat \<Rightarrow> lsn \<Rightarrow> message result) \<Rightarrow> lsn \<Rightarrow> nat \<Rightarrow> vote option list \<Rightarrow> shared \<Rightarrow> shared result" where
  "open_elect er truncate_lsn i [] sh = Inr sh"
| "open_elect er truncate_lsn i (None # vs) sh = open_elect er truncate_lsn (Suc i) vs sh"
| "open_elect er truncate_lsn i (Some v # vs) sh =
     (let el = sh_election sh in
      rbind (compute_start (el_history el) (vt_history v) (vt_flush v) (el_term el) truncate_lsn) (\<lambda>start.
        if start < truncate_lsn
        then open_elect er truncate_lsn (Suc i) vs (set_peer sh i (\<lambda>p. p\<lparr>p_failed := True\<rparr>))
        else case er i start of
               Inl e \<Rightarrow> open_elect er truncate_lsn (Suc i) vs sh
             | Inr (ElectedResp t ok) \<Rightarrow>
                 (if ok then open_elect er truncate_lsn (Suc i) vs (snd (store_ack sh i (el_term el) start))
                  else Inl ''superseded right after election'')
             | Inr _ \<Rightarrow> Inl ''unexpected elected response''))"

text \<open>All of \<^verbatim>\<open>Quorum::open\<close> up to the wait for the recovered suffix to commit.\<close>

definition open_quorum ::
  "(bytes \<Rightarrow> 32 word) \<Rightarrow> nat \<Rightarrow> string \<Rightarrow> greet list \<Rightarrow> (string \<Rightarrow> adopt_outcome option list) \<Rightarrow>
   (nat \<Rightarrow> message result option list) \<Rightarrow> (nat \<Rightarrow> lsn \<Rightarrow> lsn \<Rightarrow> message result) \<Rightarrow> (nat \<Rightarrow> lsn \<Rightarrow> message result) \<Rightarrow>
   (shared \<times> log_record list) result" where
  "open_quorum crc chunk minted greets adopts vote_resps rd er =
     rbind (if length greets \<noteq> QUORUM_SIZE then Inl ''--tail-quorum needs exactly 3 acceptor addresses'' else Inr ()) (\<lambda>_.
     rbind (open_identity minted greets) (\<lambda>tail_id.
     rbind (open_adopt (adopts tail_id)) (\<lambda>connected.
     let t = open_term greets in
     rbind (open_votes t (map2 (\<lambda>c r. if c then r else None) connected (vote_resps t))) (\<lambda>votes.
     rbind (open_donor votes) (\<lambda>(donor, term_start_lsn, truncate_lsn).
     rbind (open_recover crc (rd donor) chunk truncate_lsn term_start_lsn) (\<lambda>recovered.
     rbind (push_term (vt_history (the (votes ! donor))) t term_start_lsn) (\<lambda>history.
     rbind (open_shared crc tail_id t history truncate_lsn term_start_lsn recovered) (\<lambda>sh.
     rbind (open_elect er truncate_lsn 0 votes sh) (\<lambda>sh'.
       Inr (recompute_commit sh', recovered))))))))))"

section \<open>Reconnecting\<close>

datatype hs_error = HsFenced nat | HsBehind | HsWrongCluster string | HsTransient string

definition WRONG_CLUSTER_TEXT :: string where
  "WRONG_CLUSTER_TEXT = ''wrong cluster''"

definition hs_greeting :: "election \<Rightarrow> message result \<Rightarrow> (hs_error, unit) sum" where
  "hs_greeting el resp =
     (case resp of
        Inr (GreetingResp _ t _) \<Rightarrow> (if t > el_term el then Inl (HsFenced t) else Inr ())
      | Inr _ \<Rightarrow> Inl (HsTransient ''unexpected greeting response'')
      | Inl e \<Rightarrow> (if sublist WRONG_CLUSTER_TEXT e then Inl (HsWrongCluster e) else Inl (HsTransient e)))"

definition hs_vote :: "election \<Rightarrow> message result \<Rightarrow> (hs_error, lsn \<times> term_history) sum" where
  "hs_vote el resp =
     (case resp of
        Inr (VoteResponse t _ flush _ h _ _) \<Rightarrow> (if t > el_term el then Inl (HsFenced t) else Inr (flush, h))
      | Inr _ \<Rightarrow> Inl (HsTransient ''unexpected vote response'')
      | Inl e \<Rightarrow> Inl (HsTransient e))"

definition hs_start :: "shared \<Rightarrow> election \<Rightarrow> lsn \<times> term_history \<Rightarrow> (hs_error, lsn) sum" where
  "hs_start sh el fh =
     (let base = lb_base (sh_log sh) in
      case compute_start (el_history el) (snd fh) (fst fh) (el_term el) base of
        Inl e \<Rightarrow> Inl (HsTransient e)
      | Inr start \<Rightarrow> (if start < base then Inl HsBehind else Inr start))"

definition hs_elected :: "message result \<Rightarrow> (hs_error, unit) sum" where
  "hs_elected resp =
     (case resp of
        Inr (ElectedResp t ok) \<Rightarrow> (if ok then Inr () else Inl (HsFenced t))
      | Inr _ \<Rightarrow> Inl (HsTransient ''unexpected elected response'')
      | Inl e \<Rightarrow> Inl (HsTransient e))"

definition handshake ::
  "shared \<Rightarrow> message result \<Rightarrow> message result \<Rightarrow> (lsn \<Rightarrow> message result) \<Rightarrow> (hs_error, lsn \<times> nat) sum" where
  "handshake sh greet vote_resp er =
     (let el = sh_election sh in
      case hs_greeting el greet of
        Inl e \<Rightarrow> Inl e
      | Inr _ \<Rightarrow>
          (case hs_vote el vote_resp of
             Inl e \<Rightarrow> Inl e
           | Inr fh \<Rightarrow>
               (case hs_start sh el fh of
                  Inl e \<Rightarrow> Inl e
                | Inr start \<Rightarrow>
                    (case hs_elected (er start) of
                       Inl e \<Rightarrow> Inl e
                     | Inr _ \<Rightarrow> Inr (start, el_term el)))))"

text \<open>What \<^verbatim>\<open>run_peer\<close> does with the outcome of a handshake; \<open>None\<close> means no usable connection.\<close>

definition peer_connected :: "shared \<Rightarrow> nat \<Rightarrow> (hs_error, lsn \<times> nat) sum \<Rightarrow> nat option \<times> shared" where
  "peer_connected sh idx out =
     (case out of
        Inr (start, t) \<Rightarrow>
          (case store_ack sh idx t start of
             (False, sh') \<Rightarrow> (None, sh')
           | (True, sh') \<Rightarrow> (Some t, sh'))
      | Inl (HsFenced t) \<Rightarrow>
          (None, if t > el_term (sh_election sh) then request_reelection sh (Fenced t) else sh)
      | Inl HsBehind \<Rightarrow> (None, set_peer sh idx (\<lambda>p. p\<lparr>p_failed := True\<rparr>))
      | Inl (HsWrongCluster _) \<Rightarrow> (None, set_peer sh idx (\<lambda>p. p\<lparr>p_failed := True\<rparr>))
      | Inl (HsTransient _) \<Rightarrow> (None, sh))"

definition append_message :: "shared \<Rightarrow> nat \<Rightarrow> lsn \<Rightarrow> lsn \<Rightarrow> bytes \<Rightarrow> message" where
  "append_message sh conn_term begin_lsn end_lsn bs =
     Append conn_term begin_lsn end_lsn (sh_commit sh) (sh_horizon sh) bs"

datatype stream_step = Reconnect | Park | Send message

text \<open>One turn of the streaming loop over a connection handshaked at \<open>conn_term\<close>.\<close>

definition stream_next :: "shared \<Rightarrow> nat \<Rightarrow> nat \<Rightarrow> stream_step \<times> shared" where
  "stream_next sh idx conn_term =
     (if el_term (sh_election sh) \<noteq> conn_term then (Reconnect, sh)
      else case next_batch (sh_log sh) (p_flush (sh_peers sh ! idx)) of
             UpToDate \<Rightarrow> (Park, sh)
           | Behind \<Rightarrow> (Reconnect, set_peer sh idx (\<lambda>p. p\<lparr>p_failed := True\<rparr>))
           | Data b e bs \<Rightarrow> (Send (append_message sh conn_term b e bs), sh))"

definition stream_response :: "shared \<Rightarrow> nat \<Rightarrow> nat \<Rightarrow> message result \<Rightarrow> bool \<times> shared" where
  "stream_response sh idx conn_term resp =
     (case resp of
        Inr (AppendResp t ok flush _) \<Rightarrow>
          (if ok then store_ack sh idx conn_term flush
           else (False, if t > el_term (sh_election sh) then request_reelection sh (Fenced t) else sh))
      | _ \<Rightarrow> (False, sh))"

section \<open>Internal re-election\<close>

datatype reelect_error = Superseded nat | Failed string

definition reelect_term :: "election \<Rightarrow> nat option list \<Rightarrow> (reelect_error, nat) sum" where
  "reelect_term old terms =
     (if length (somes terms) < QUORUM then Inl (Failed ''fewer than a quorum reachable for the re-election'')
      else Inr (fold max (somes terms) (el_term old) + 1))"

fun reelect_votes :: "nat \<Rightarrow> message result option list \<Rightarrow> (reelect_error, vote option list) sum" where
  "reelect_votes t [] = Inr []"
| "reelect_votes t (None # rs) = (case reelect_votes t rs of Inl e \<Rightarrow> Inl e | Inr vs \<Rightarrow> Inr (None # vs))"
| "reelect_votes t (Some (Inl e) # rs) =
     (case reelect_votes t rs of Inl e \<Rightarrow> Inl e | Inr vs \<Rightarrow> Inr (None # vs))"
| "reelect_votes t (Some (Inr m) # rs) =
     (case m of
        VoteResponse resp_term granted flush llt h horizon _ \<Rightarrow>
          (if resp_term > t \<or> \<not> granted then Inl (Superseded resp_term)
           else case reelect_votes t rs of
                  Inl e \<Rightarrow> Inl e
                | Inr vs \<Rightarrow>
                    Inr (Some \<lparr>vt_flush = flush, vt_last_log_term = llt, vt_history = h, vt_horizon = horizon\<rparr> # vs))
      | _ \<Rightarrow> (case reelect_votes t rs of Inl e \<Rightarrow> Inl e | Inr vs \<Rightarrow> Inr (None # vs)))"

definition reelect_adopt :: "shared \<Rightarrow> nat \<Rightarrow> vote option list \<Rightarrow> (reelect_error, shared) sum" where
  "reelect_adopt sh t votes =
     (let old = sh_election sh;
          granted = candidates votes
      in if length granted < QUORUM then Inl (Failed ''won too few re-election votes'')
         else case pick_donor granted of
                None \<Rightarrow> Inl (Failed ''granted >= quorum'')
              | Some d \<Rightarrow>
                  (let v = the (votes ! d) in
                   if vt_history v \<noteq> up_to (el_history old) (vt_flush v)
                   then Inl (Superseded (max (vt_last_log_term v) (t - 1)))
                   else if vt_flush v < lb_base (sh_log sh) \<or> vt_flush v > lb_head (sh_log sh)
                   then Inl (Failed ''donor flush is outside the retained log'')
                   else
                     Inr (sh\<lparr>sh_peers := map (\<lambda>p. p\<lparr>p_failed := False, p_flush := 0\<rparr>) (sh_peers sh),
                             sh_election := \<lparr>el_term = t, el_term_start_lsn = vt_flush v,
                               el_history = el_history old @ [\<lparr>tl_term = t, tl_lsn = vt_flush v\<rparr>]\<rparr>\<rparr>)))"

definition reelect ::
  "shared \<Rightarrow> nat option list \<Rightarrow> (nat \<Rightarrow> message result option list) \<Rightarrow> (reelect_error, shared) sum" where
  "reelect sh terms vote_resps =
     (case reelect_term (sh_election sh) terms of
        Inl e \<Rightarrow> Inl e
      | Inr t \<Rightarrow>
          (case reelect_votes t (vote_resps t) of
             Inl e \<Rightarrow> Inl e
           | Inr votes \<Rightarrow> reelect_adopt sh t votes))"

text \<open>One event of the supervisor: the consecutive-failure counter and the state after it.\<close>

definition supervisor_step ::
  "shared \<Rightarrow> nat \<Rightarrow> reelect_reason \<Rightarrow> (reelect_error, shared) sum \<Rightarrow> nat \<times> shared" where
  "supervisor_step sh failures reason outcome =
     (if sh_poison sh \<noteq> None then (failures, sh)
      else if (case reason of Fenced t \<Rightarrow> t \<le> el_term (sh_election sh) | Stalled pos \<Rightarrow> sh_commit sh \<ge> pos)
      then (failures, sh)
      else case outcome of
             Inr sh' \<Rightarrow> (0, sh')
           | Inl (Superseded t) \<Rightarrow> (failures, poison sh ''superseded by a newer server'')
           | Inl (Failed e) \<Rightarrow>
               (if failures + 1 \<ge> MAX_REELECTION_FAILURES
                then (failures + 1, poison sh ''POISONED after consecutive failed internal re-elections'')
                else (failures + 1, sh)))"

end
