(* ===== verification/ProposerSpec.thy ===== *)
theory ProposerSpec
  imports Proposer
begin

text \<open>
  What the proposer's operations guarantee: the retained log stays a contiguous chain of
  encoded records, the commit position only moves to what a quorum acknowledged in the
  current term, the horizon only moves over covered and committed records, and the
  recovered suffix is byte for byte the donor's.
\<close>

section \<open>Decoding is the inverse of encoding\<close>

lemma decode_record_payload_inverse:
  assumes "decode_record_payload p = Inr r"
  shows "record_payload r = p" and "length p \<le> U32_MAX \<Longrightarrow> record_wf r"
proof -
  define kl where "kl = le_nat (take 4 (drop 9 p))"
  have len: "13 + kl + 8 \<le> length p" and kind: "p ! 8 = RECORD_FRAME \<or> p ! 8 = RECORD_WATERMARK"
    and utf: "utf8_valid (take kl (drop 13 p))"
    and r: "r = \<lparr>r_lsn = le_nat (take 8 p), r_kind = p ! 8, r_table_key = take kl (drop 13 p),
                 r_seq = le_nat (take 8 (drop (13 + kl) p)), r_body = drop (13 + kl + 8) p\<rparr>"
    using assms by (auto simp: decode_record_payload_def Let_def kl_def split: if_splits)
  have parts:
    "take 8 (drop (13 + kl) p) @ drop (13 + kl + 8) p = drop (13 + kl) p"
    "take kl (drop 13 p) @ drop (13 + kl) p = drop 13 p"
    "take 4 (drop 9 p) @ drop 13 p = drop 9 p"
    "p ! 8 # drop 9 p = drop 8 p"
    "take 8 p @ drop 8 p = p"
    using append_take_drop_id [of 8 "drop (13 + kl) p"] append_take_drop_id [of kl "drop 13 p"]
      append_take_drop_id [of 4 "drop 9 p"] Cons_nth_drop_Suc [of 8 p] len
    by (simp_all add: add.commute)
  have lens: "length (take 8 p) = 8" "length (take 4 (drop 9 p)) = 4"
    "length (take 8 (drop (13 + kl) p)) = 8" "length (take kl (drop 13 p)) = kl"
    using len by auto
  have "le_bytes 8 (le_nat (take 8 p)) = take 8 p"
    "le_bytes 4 (length (take kl (drop 13 p))) = take 4 (drop 9 p)"
    "le_bytes 8 (le_nat (take 8 (drop (13 + kl) p))) = take 8 (drop (13 + kl) p)"
  proof -
    show "le_bytes 8 (le_nat (take 8 p)) = take 8 p" using lens(1) by (rule le_bytes_le_nat)
    show "le_bytes 4 (length (take kl (drop 13 p))) = take 4 (drop 9 p)"
      unfolding lens(4) unfolding kl_def using lens(2) by (rule le_bytes_le_nat)
    show "le_bytes 8 (le_nat (take 8 (drop (13 + kl) p))) = take 8 (drop (13 + kl) p)"
      using lens(3) by (rule le_bytes_le_nat)
  qed
  then show pay: "record_payload r = p"
    unfolding record_payload_def r log_record.simps by (simp only: append_Cons append_Nil parts)
  show "record_wf r" if "length p \<le> U32_MAX"
  proof -
    have "le_nat (take 8 p) < 2 ^ 64" "le_nat (take 8 (drop (13 + kl) p)) < 2 ^ 64"
      using le_nat_bound [of "take 8 p", unfolded lens(1)]
        le_nat_bound [of "take 8 (drop (13 + kl) p)", unfolded lens(3)] by simp_all
    then show ?thesis using r utf kind that pay by (simp add: record_wf_def)
  qed
qed

lemma frame_ranges_append:
  "frame_ranges off (ps @ qs) = frame_ranges off ps @ frame_ranges (off + length (frames crc ps)) qs"
  by (induction ps arbitrary: off) (simp_all add: add.assoc)

lemma decode_ranges_payloads:
  assumes "decode_ranges bytes rs pos = Inr out"
  shows "map record_payload out = map (range_bytes bytes) rs"
  using assms
  by (induction rs arbitrary: pos out)
    (auto split: sum.splits if_splits dest: decode_record_payload_inverse(1))

lemma scan_payload_small:
  assumes "p \<in> set (map (range_bytes data) (payloads (scan_frame_bytes crc data)))"
  shows "length p \<le> U32_MAX"
proof -
  have all: "\<forall>r\<in>set (payloads (scan_loop crc data off acc)). snd r - fst r \<le> U32_MAX"
    if "\<forall>r\<in>set (payloads acc). snd r - fst r \<le> U32_MAX" for off acc
    using that
  proof (induction crc data off acc rule: scan_loop.induct)
    case (1 crc data off acc)
    have small: "le_nat (take 4 (drop off data)) \<le> U32_MAX" if "\<not> length data - off < FRAME_HEADER_BYTES"
      using le_nat_bound [of "take 4 (drop off data)"] that by (simp add: U32_MAX_def FRAME_HEADER_BYTES_def)
    show ?case
      using 1 small by (subst scan_loop.simps) (auto simp: Let_def split: if_splits)
  qed
  have "\<forall>r\<in>set (payloads (scan_frame_bytes crc data)). snd r - fst r \<le> U32_MAX"
    unfolding scan_frame_bytes_def by (rule all) simp
  with assms show ?thesis by (auto simp: range_bytes_def)
qed

lemma decode_ranges_mem:
  "decode_ranges bytes rs pos = Inr out \<Longrightarrow> r \<in> set out \<Longrightarrow> \<exists>p. decode_record_payload p = Inr r"
  by (induction rs arbitrary: pos out) (auto split: sum.splits if_splits)

text \<open>A stream that decodes is exactly the encoding of its records.\<close>

lemma decode_records_sound:
  assumes "decode_records crc bs pos = Inr out"
  shows "records_bytes crc out = bs" "\<forall>r\<in>set out. record_wf r"
proof -
  let ?scan = "scan_frame_bytes crc bs"
  have ok: "bad ?scan = None" and dr: "decode_ranges bs (payloads ?scan) pos = Inr out"
    using assms by (auto simp: decode_records_def Let_def split: option.splits)
  have pay: "map record_payload out = map (range_bytes bs) (payloads ?scan)"
    using decode_ranges_payloads [OF dr] .
  have "frames crc (map (range_bytes bs) (payloads ?scan)) = take (good_end ?scan) bs"
    "good_end ?scan = length bs"
    using scan_frame_bytes_sound [of crc bs] ok by (auto simp: scan_sound_def)
  then show "records_bytes crc out = bs" using pay by (simp add: records_bytes_def)
  have "\<exists>p. decode_record_payload p = Inr r \<and> length p \<le> U32_MAX" if "r \<in> set out" for r
  proof -
    from that have "record_payload r \<in> set (map (range_bytes bs) (payloads ?scan))"
      using pay [symmetric] by auto
    then have "length (record_payload r) \<le> U32_MAX" using scan_payload_small by blast
    moreover have "\<exists>p. decode_record_payload p = Inr r" using decode_ranges_mem [OF dr that] .
    ultimately show ?thesis using decode_record_payload_inverse(1) by blast
  qed
  then show "\<forall>r\<in>set out. record_wf r" using decode_record_payload_inverse(2) by blast
qed

section \<open>Recovery\<close>

lemma record_encode_wf: "record_wf r \<Longrightarrow> record_encode crc r = Inr (frame crc (record_payload r))"
  by (rule record_encode_ok)

text \<open>The record metadata of a list of records laid out from a position.\<close>

fun metas :: "(bytes \<Rightarrow> 32 word) \<Rightarrow> lsn \<Rightarrow> log_record list \<Rightarrow> record_meta list" where
  "metas crc pos [] = []"
| "metas crc pos (r # rs) =
     (let fb = frame crc (record_payload r) in
      \<lparr>rm_start = pos, rm_end = pos + length fb, rm_kind = r_kind r, rm_table_key = r_table_key r,
       rm_seq = r_seq r, rm_frame = fb\<rparr> # metas crc (pos + length fb) rs)"

lemma metas_chain: "rm_chain pos (metas crc pos rs) (pos + length (records_bytes crc rs))"
proof (induction rs arbitrary: pos)
  case Nil
  then show ?case by simp
next
  case (Cons r rs)
  show ?case using Cons [of "pos + (8 + length (record_payload r))"] by (simp add: Let_def add.assoc)
qed

lemma metas_bytes: "rm_bytes (metas crc pos rs) = records_bytes crc rs"
  by (induction rs arbitrary: pos) (simp_all add: Let_def)

lemma last_wm_of_snoc:
  "last_wm_of (ms @ [m]) k = (if is_wm k m then Some (rm_start m, rm_seq m) else last_wm_of ms k)"
  by (simp add: last_wm_of_def Let_def)

lemma seed_records_metas:
  assumes "\<forall>r\<in>set rs. record_wf r" "contiguous pos rs" "\<forall>k. wm k = last_wm_of ms k"
  shows "\<exists>wm'. seed_records crc pos rs ms wm = Inr (ms @ metas crc pos rs, wm') \<and>
     (\<forall>k. wm' k = last_wm_of (ms @ metas crc pos rs) k)"
  using assms
proof (induction rs arbitrary: pos ms wm)
  case Nil
  then show ?case by simp
next
  case (Cons r rs)
  let ?f = "frame crc (record_payload r)"
  let ?m = "\<lparr>rm_start = pos, rm_end = pos + length ?f, rm_kind = r_kind r, rm_table_key = r_table_key r,
             rm_seq = r_seq r, rm_frame = ?f\<rparr>"
  let ?wm = "if r_kind r = RECORD_WATERMARK then wm(r_table_key r \<mapsto> (r_lsn r, r_seq r)) else wm"
  have enc: "record_encode crc r = Inr ?f" using Cons.prems(1) by (simp add: record_encode_ok)
  have wm: "\<forall>k. ?wm k = last_wm_of (ms @ [?m]) k"
    using Cons.prems(2,3) by (auto simp: last_wm_of_snoc is_wm_def)
  have "\<forall>x\<in>set rs. record_wf x" "contiguous (pos + length ?f) rs"
    using Cons.prems(1,2) by (simp_all add: add.assoc)
  from Cons.IH [OF this wm] obtain wm' where "seed_records crc (pos + length ?f) rs (ms @ [?m]) ?wm =
      Inr ((ms @ [?m]) @ metas crc (pos + length ?f) rs, wm')"
    "\<forall>k. wm' k = last_wm_of ((ms @ [?m]) @ metas crc (pos + length ?f) rs) k" by blast
  moreover have "metas crc pos (r # rs) = ?m # metas crc (pos + length ?f) rs" by (simp add: Let_def)
  moreover have "seed_records crc pos (r # rs) ms wm = seed_records crc (pos + length ?f) rs (ms @ [?m]) ?wm"
    using enc by (simp add: Let_def)
  ultimately show ?case by (metis append.assoc append_Cons append_Nil)
qed

lemma decode_records_contiguous:
  assumes "decode_records crc bs pos = Inr out"
  shows "contiguous pos out"
proof -
  have gen: "decode_ranges bytes rs p = Inr os \<Longrightarrow> \<forall>r\<in>set rs. fst r \<le> snd r \<and> snd r \<le> length bytes \<Longrightarrow> contiguous p os"
    for bytes rs p os
  proof (induction rs arbitrary: p os)
    case Nil
    then show ?case by simp
  next
    case (Cons r rs)
    from Cons.prems(1) obtain x xs where d: "decode_record_payload (range_bytes bytes r) = Inr x" "r_lsn x = p"
      "decode_ranges bytes rs (p + (snd r - fst r + FRAME_HEADER_BYTES)) = Inr xs" "os = x # xs"
      by (auto split: sum.splits if_splits)
    have "length (record_payload x) = snd r - fst r"
      using decode_record_payload_inverse(1) [OF d(1)] Cons.prems(2) by (auto simp: range_bytes_def)
    then show ?case using Cons.IH [OF d(3)] Cons.prems(2) d by (simp add: FRAME_HEADER_BYTES_def ac_simps)
  qed
  let ?scan = "scan_frame_bytes crc bs"
  have dr: "decode_ranges bs (payloads ?scan) pos = Inr out"
    using assms by (auto simp: decode_records_def Let_def split: option.splits)
  have fr: "\<forall>r\<in>set (frame_ranges off ps). fst r \<le> snd r \<and> snd r \<le> off + length (frames crc ps)" for off ps
    by (induction ps arbitrary: off) (fastforce simp: add.assoc)+
  let ?ps = "map (range_bytes bs) (payloads ?scan)"
  have sound: "payloads ?scan = frame_ranges 0 ?ps" "frames crc ?ps = take (good_end ?scan) bs"
    "good_end ?scan \<le> length bs"
    using scan_frame_bytes_sound(1) [of crc bs] by (auto simp: scan_sound_def)
  have "\<forall>r\<in>set (payloads ?scan). fst r \<le> snd r \<and> snd r \<le> length bs"
  proof
    fix r assume "r \<in> set (payloads ?scan)"
    then have "r \<in> set (frame_ranges 0 ?ps)" using sound(1) by simp
    then have "fst r \<le> snd r \<and> snd r \<le> 0 + length (frames crc ?ps)" using fr by blast
    then show "fst r \<le> snd r \<and> snd r \<le> length bs" unfolding sound(2) by simp
  qed
  then show ?thesis using gen [OF dr] by blast
qed

lemma open_shared_recovered:
  assumes "decode_records crc bs truncate_lsn = Inr recovered" "term_start = truncate_lsn + length bs"
  shows "\<exists>sh. open_shared crc tid t h truncate_lsn term_start recovered = Inr sh \<and>
     log_wf (sh_log sh) \<and> wm_wf (sh_log sh) \<and> rm_bytes (lb_records (sh_log sh)) = bs \<and>
     lb_base (sh_log sh) = truncate_lsn \<and> lb_head (sh_log sh) = term_start"
proof -
  note d = decode_records_sound [OF assms(1)] decode_records_contiguous [OF assms(1)]
  obtain wm where s: "seed_records crc truncate_lsn recovered [] Map.empty =
      Inr (metas crc truncate_lsn recovered, wm)" "\<forall>k. wm k = last_wm_of (metas crc truncate_lsn recovered) k"
    using seed_records_metas [OF d(2,3), of Map.empty "[]" crc] by (auto simp: last_wm_of_def)
  then show ?thesis
    using metas_chain [of truncate_lsn crc recovered] metas_bytes [of crc truncate_lsn recovered] d(1) assms(2)
    by (simp add: open_shared_def log_wf_def wm_wf_def)
qed

lemma recovery_read_slice:
  assumes rd: "\<And>a b. lo \<le> a \<Longrightarrow> a < b \<Longrightarrow> b \<le> lo + length log \<Longrightarrow>
      rd a b = Inr (ReadResp a (take (b - a) (drop (a - lo) log)))"
    and b: "lo \<le> pos" "pos \<le> ts" "ts \<le> lo + length log" "0 < chunk"
  shows "recovery_read rd chunk ts pos acc = Inr (acc @ take (ts - pos) (drop (pos - lo) log))"
  using b
proof (induction "ts - pos" arbitrary: pos acc rule: less_induct)
  case less
  show ?case
  proof (cases "pos < ts")
    case False
    then show ?thesis using less.prems by (subst recovery_read.simps) simp
  next
    case True
    define to where "to = min ts (pos + chunk)"
    define r where "r = take (to - pos) (drop (pos - lo) log)"
    have to: "pos < to" "to \<le> ts" using True less.prems by (auto simp: to_def)
    have len: "length r = to - pos" using to less.prems by (auto simp: r_def)
    have get: "rd pos to = Inr (ReadResp pos r)" unfolding r_def using rd less.prems to by simp
    have ne: "r \<noteq> []" "pos + length r = to" using len to(1) by auto
    have "recovery_read rd chunk ts pos acc = recovery_read rd chunk ts to (acc @ r)"
      using True get ne by (subst recovery_read.simps) (simp add: to_def [symmetric] Let_def)
    also have "\<dots> = Inr ((acc @ r) @ take (ts - to) (drop (to - lo) log))"
      using less.prems to by (intro less.hyps) auto
    also have "(acc @ r) @ take (ts - to) (drop (to - lo) log) = acc @ take (ts - pos) (drop (pos - lo) log)"
    proof -
      have "ts - pos = (to - pos) + (ts - to)" "to - lo = (to - pos) + (pos - lo)"
        using to less.prems by auto
      then show ?thesis by (simp only: take_add drop_drop r_def append_assoc)
    qed
    finally show ?thesis .
  qed
qed

section \<open>Acknowledgements\<close>

definition shared_wf :: "shared \<Rightarrow> bool" where
  "shared_wf sh \<longleftrightarrow> log_wf (sh_log sh) \<and> wm_wf (sh_log sh) \<and> length (sh_peers sh) = QUORUM_SIZE \<and>
     lb_base (sh_log sh) \<le> sh_horizon sh"

lemma recompute_commit_at_spec:
  assumes "length (sh_peers sh) = 3" and c_def: "c = sh_commit (recompute_commit_at sh ts)"
  shows "sh_commit sh \<le> c" and
    "c \<noteq> sh_commit sh \<Longrightarrow> ts \<le> c \<and> 2 \<le> length (filter (\<lambda>p. c \<le> p_flush p) (sh_peers sh))"
proof -
  show "sh_commit sh \<le> c" by (simp add: c_def recompute_commit_at_def Let_def)
  assume ne: "c \<noteq> sh_commit sh"
  let ?q = "quorum_commit (map p_flush (sh_peers sh)) ts"
  have q: "c = ?q" "0 < ?q" using ne by (auto simp: c_def recompute_commit_at_def Let_def split: if_splits)
  then show "ts \<le> c \<and> 2 \<le> length (filter (\<lambda>p. c \<le> p_flush p) (sh_peers sh))"
    using quorum_commit_sound [of "map p_flush (sh_peers sh)" ts] assms(1)
    by (simp add: filter_map comp_def)
qed

lemma recompute_fields [simp]:
  "sh_log (recompute_commit_at sh ts) = sh_log sh" "sh_peers (recompute_commit_at sh ts) = sh_peers sh"
  "sh_horizon (recompute_commit_at sh ts) = sh_horizon sh"
  "sh_election (recompute_commit_at sh ts) = sh_election sh"
  by (simp_all add: recompute_commit_at_def Let_def)

lemma set_peer_fields [simp]:
  "sh_log (set_peer sh i f) = sh_log sh" "length (sh_peers (set_peer sh i f)) = length (sh_peers sh)"
  "sh_horizon (set_peer sh i f) = sh_horizon sh" "sh_election (set_peer sh i f) = sh_election sh"
  "sh_commit (set_peer sh i f) = sh_commit sh"
  by (simp_all add: set_peer_def)

lemma store_ack_wf: "shared_wf sh \<Longrightarrow> shared_wf (snd (store_ack sh i t f))"
  by (auto simp: store_ack_def shared_wf_def)

text \<open>
  An acknowledgement of another term changes nothing; one of the current term advances the
  commit position only to a position two peers acknowledged at or above the term's start.
\<close>

lemma store_ack_commit:
  assumes "shared_wf sh" "store_ack sh i t f = (ok, sh')"
  shows "ok \<longleftrightarrow> t = el_term (sh_election sh)" "\<not> ok \<Longrightarrow> sh' = sh" "sh_commit sh \<le> sh_commit sh'"
    "sh_commit sh' \<noteq> sh_commit sh \<Longrightarrow>
      el_term_start_lsn (sh_election sh) \<le> sh_commit sh' \<and>
      2 \<le> length (filter (\<lambda>p. sh_commit sh' \<le> p_flush p) (sh_peers sh'))"
proof -
  let ?s = "set_peer sh i (\<lambda>p. p\<lparr>p_flush := f\<rparr>)"
  have len: "length (sh_peers ?s) = 3" using assms(1) by (simp add: shared_wf_def QUORUM_SIZE_def)
  show "ok \<longleftrightarrow> t = el_term (sh_election sh)" "\<not> ok \<Longrightarrow> sh' = sh"
    using assms(2) by (auto simp: store_ack_def split: if_splits)
  note spec = recompute_commit_at_spec [OF len refl, of "el_term_start_lsn (sh_election sh)"]
  show "sh_commit sh \<le> sh_commit sh'"
    using assms(2) spec(1) by (auto simp: store_ack_def split: if_splits)
  show "sh_commit sh' \<noteq> sh_commit sh \<Longrightarrow>
      el_term_start_lsn (sh_election sh) \<le> sh_commit sh' \<and>
      2 \<le> length (filter (\<lambda>p. sh_commit sh' \<le> p_flush p) (sh_peers sh'))"
    using assms(2) spec(2) by (auto simp: store_ack_def split: if_splits)
qed

section \<open>Submitting\<close>

lemma submit_ok:
  assumes wf: "shared_wf sh" and res: "submit crc sh kind key seq body = (Inr e, sh')"
    and fits: "lb_head (sh_log sh) < 2 ^ 64" "seq < 2 ^ 64" "utf8_valid key"
      "kind = RECORD_FRAME \<or> kind = RECORD_WATERMARK"
  shows "shared_wf sh' \<and> e = lb_head (sh_log sh') \<and>
    (\<exists>fb. rm_bytes (lb_records (sh_log sh')) = rm_bytes (lb_records (sh_log sh)) @ fb \<and>
      e = lb_head (sh_log sh) + length fb \<and> length fb + APPEND_MESSAGE_HEADROOM \<le> MAX_MESSAGE_BYTES \<and>
      decode_records crc fb (lb_head (sh_log sh)) =
        Inr [\<lparr>r_lsn = lb_head (sh_log sh), r_kind = kind, r_table_key = key, r_seq = seq, r_body = body\<rparr>])"
proof -
  let ?log = "sh_log sh"
  let ?r = "\<lparr>r_lsn = lb_head ?log, r_kind = kind, r_table_key = key, r_seq = seq, r_body = body\<rparr>"
  obtain fb where enc: "record_encode crc ?r = Inr fb"
    and cap: "length fb + APPEND_MESSAGE_HEADROOM \<le> MAX_MESSAGE_BYTES"
    and e: "e = lb_head ?log + length fb"
    and sh': "sh' = sh\<lparr>sh_log := (if kind = RECORD_WATERMARK
         then ?log\<lparr>lb_last_wm := (lb_last_wm ?log)(key \<mapsto> (lb_head ?log, seq))\<rparr> else ?log)
       \<lparr>lb_records := lb_records ?log @ [\<lparr>rm_start = lb_head ?log, rm_end = lb_head ?log + length fb,
          rm_kind = kind, rm_table_key = key, rm_seq = seq, rm_frame = fb\<rparr>],
        lb_head := lb_head ?log + length fb\<rparr>\<rparr>"
    using res by (auto simp: submit_def Let_def check_record_frame_len_def split: option.splits sum.splits if_splits)
  have fb: "fb = frame crc (record_payload ?r)" "length (record_payload ?r) \<le> U32_MAX"
    using enc by (auto simp: record_encode_def frame_bytes_Inr split: if_splits)
  have rwf: "record_wf ?r" using fits fb(2) by (simp add: record_wf_def)
  have "decode_records crc (records_bytes crc [?r]) (lb_head ?log) = Inr [?r]"
    using rwf by (intro decode_records_records_bytes) auto
  then have dec: "decode_records crc fb (lb_head ?log) = Inr [?r]" using fb(1) by simp
  have "log_wf (sh_log sh')"
    using wf sh' fb(1) by (auto simp: shared_wf_def log_wf_def rm_chain_append)
  moreover have "wm_wf (sh_log sh')"
    using wf sh' by (auto simp: shared_wf_def wm_wf_def last_wm_of_snoc is_wm_def)
  moreover have "length (sh_peers sh') = QUORUM_SIZE" "lb_base (sh_log sh') \<le> sh_horizon sh'"
    using wf sh' by (auto simp: shared_wf_def)
  ultimately have "shared_wf sh'" by (simp add: shared_wf_def)
  then show ?thesis using sh' e cap dec by auto
qed

section \<open>The horizon\<close>

lemma fold_min_le: "fold min fs (f::nat) \<le> f \<and> (\<forall>x\<in>set fs. fold min fs f \<le> x)"
  unfolding Min.set_eq_fold [symmetric] by simp

lemma lagging_le: "p \<in> set ps \<Longrightarrow> \<not> p_failed p \<Longrightarrow> lagging ps h \<le> p_flush p"
proof -
  assume "p \<in> set ps" "\<not> p_failed p"
  then have "p_flush p \<in> set (live_flushes ps)" by (auto simp: live_flushes_def)
  then show ?thesis using fold_min_le by (auto simp: lagging_def split: list.splits)
qed

lemma fold_min_mem: "fold min fs (f::nat) \<in> set (f # fs)"
  unfolding Min.set_eq_fold [symmetric] by (rule Min_in) simp_all

text \<open>The expelling loop only marks peers as failed, and never drops what a live peer still needs.\<close>

lemma expel_loop_spec:
  "expel_loop ps h = (ps', d) \<Longrightarrow>
   d \<le> h \<and> length ps' = length ps \<and> map p_flush ps' = map p_flush ps \<and>
   (\<forall>p\<in>set ps'. \<not> p_failed p \<longrightarrow> d \<le> p_flush p) \<and> (h - d \<le> MAX_PEER_LAG_BYTES \<or> d = h)"
proof (induction ps h arbitrary: ps' d rule: expel_loop.induct)
  case (1 ps h)
  let ?d = "min h (lagging ps h)"
  show ?case
  proof (cases "h - ?d > MAX_PEER_LAG_BYTES")
    case False
    then have "ps' = ps" "d = ?d" using 1(2) by (auto simp: expel_loop.simps [of ps h] Let_def)
    then show ?thesis using lagging_le [of _ ps h] False by (auto simp: min.coboundedI2)
  next
    case True
    show ?thesis
    proof (cases "first_live 0 (lagging ps h) ps")
      case None
      have "live_flushes ps = []"
      proof (rule ccontr)
        assume ne: "live_flushes ps \<noteq> []"
        then have "lagging ps h \<in> set (live_flushes ps)"
          using fold_min_mem by (cases "live_flushes ps") (auto simp: lagging_def)
        then obtain p where p: "p \<in> set ps" "\<not> p_failed p" "p_flush p = lagging ps h"
          by (auto simp: live_flushes_def)
        have "first_live i (p_flush p) ps \<noteq> None" for i
          using p(1,2) by (induction ps arbitrary: i) auto
        from this [of 0] show False using None p(3) by simp
      qed
      then have "lagging ps h = h" by (simp add: lagging_def)
      then show ?thesis using True by simp
    next
      case (Some i)
      let ?ps = "ps[i := (ps ! i)\<lparr>p_failed := True\<rparr>]"
      have i: "i < length ps" using first_live_SomeD [OF Some] by simp
      have "expel_loop ?ps h = (ps', d)"
        using 1(2) unfolding expel_loop.simps [of ps h] Let_def if_P [OF True] Some by simp
      note IH = 1(1) [OF refl True Some this]
      have "map p_flush ?ps = map p_flush ps"
        using i by (simp add: map_update list_update_same_conv)
      then show ?thesis using IH by simp
    qed
  qed
qed

lemma drop_front_spec:
  "rm_chain a rs b \<Longrightarrow> drop_front d a rs = (m, ys) \<Longrightarrow>
   \<exists>xs. rs = xs @ ys \<and> rm_chain a xs m \<and> rm_chain m ys b \<and> (\<forall>x\<in>set xs. rm_end x \<le> d) \<and> m \<le> max a d"
proof (induction rs arbitrary: a)
  case Nil
  then show ?case by simp
next
  case (Cons r rs)
  show ?case
  proof (cases "rm_end r \<le> d")
    case True
    have ch: "rm_chain (rm_end r) rs b" using Cons.prems(1) by auto
    obtain xs where "rs = xs @ ys" "rm_chain (rm_end r) xs m" "rm_chain m ys b"
      "\<forall>x\<in>set xs. rm_end x \<le> d" "m \<le> max (rm_end r) d"
      using Cons.IH [OF ch] Cons.prems(2) True by auto
    with True Cons.prems(1) show ?thesis by (intro exI [of _ "r # xs"]) auto
  next
    case False
    with Cons.prems show ?thesis by (intro exI [of _ "[]"]) auto
  qed
qed

lemma last_wm_of_drop:
  assumes wf: "log_wf log" "wm_wf log" and e: "coverable_prefix log c = (e, rf)"
    and split: "lb_records log = xs @ ys" "\<forall>x\<in>set xs. rm_end x \<le> e"
  shows "last_wm_of ys k = last_wm_of (lb_records log) k"
proof (cases "filter (is_wm k) ys = []")
  case False
  then show ?thesis using split(1) by (simp add: last_wm_of_def Let_def)
next
  case True
  have "filter (is_wm k) xs = []"
  proof (rule ccontr)
    assume "filter (is_wm k) xs \<noteq> []"
    then obtain x where x: "x \<in> set xs" "is_wm k x" by (metis filter_False)
    then have "rm_end x \<le> e" "x \<in> set (lb_records log)" using split by auto
    from coverable_keeps_watermark [OF wf e this(2,1)] obtain w
      where w: "w \<in> set (lb_records log)" "e < rm_end w" "is_wm (rm_table_key x) w" by blast
    then have "w \<in> set ys" using split by fastforce
    moreover have "is_wm k w" using w(3) x(2) by (simp add: is_wm_def)
    ultimately show False using True by (auto simp: filter_empty_conv)
  qed
  with True split(1) show ?thesis by (simp add: last_wm_of_def)
qed

lemma advance_horizon_ok:
  assumes wf: "shared_wf sh" and res: "advance_horizon_locked sh = (rf, sh')"
  shows "shared_wf sh'" "sh_horizon sh \<le> sh_horizon sh'"
    "sh_horizon sh' \<noteq> sh_horizon sh \<Longrightarrow> sh_horizon sh' \<le> sh_commit sh \<and>
       sh_horizon sh' \<le> fst (coverable_prefix (sh_log sh) (sh_commit sh))"
    "\<exists>xs. lb_records (sh_log sh) = xs @ lb_records (sh_log sh') \<and>
       (\<forall>x\<in>set xs. \<forall>p\<in>set (sh_peers sh'). \<not> p_failed p \<longrightarrow> rm_end x \<le> p_flush p)"
proof -
  let ?log = "sh_log sh"
  obtain e r where cp: "coverable_prefix ?log (sh_commit sh) = (e, r)" by force
  define h where "h = max (min e (sh_commit sh)) (sh_horizon sh)"
  have lw: "log_wf ?log" "wm_wf ?log" "length (sh_peers sh) = QUORUM_SIZE" "lb_base ?log \<le> sh_horizon sh"
    using wf by (auto simp: shared_wf_def)
  have "shared_wf sh' \<and> sh_horizon sh \<le> sh_horizon sh' \<and>
    (sh_horizon sh' \<noteq> sh_horizon sh \<longrightarrow> sh_horizon sh' \<le> sh_commit sh \<and> sh_horizon sh' \<le> e) \<and>
    (\<exists>xs. lb_records ?log = xs @ lb_records (sh_log sh') \<and>
       (\<forall>x\<in>set xs. \<forall>p\<in>set (sh_peers sh'). \<not> p_failed p \<longrightarrow> rm_end x \<le> p_flush p))"
  proof (cases "h > sh_horizon sh")
    case False
    then have "sh' = sh" using res cp by (simp add: advance_horizon_locked_def Let_def h_def)
    then show ?thesis using wf by simp
  next
    case True
    obtain ps d where ex: "expel_loop (sh_peers sh) h = (ps, d)" by force
    obtain m ys where df: "drop_front d (lb_base ?log) (lb_records ?log) = (m, ys)" by force
    have sh': "sh' = sh\<lparr>sh_horizon := h, sh_peers := ps, sh_log := ?log\<lparr>lb_base := m, lb_records := ys\<rparr>\<rparr>"
      using res cp True ex df by (simp add: advance_horizon_locked_def Let_def h_def [symmetric])
    have he: "h \<le> e" "h \<le> sh_commit sh" using True by (auto simp: h_def)
    have exs: "d \<le> h" "length ps = length (sh_peers sh)" "\<forall>p\<in>set ps. \<not> p_failed p \<longrightarrow> d \<le> p_flush p"
      using expel_loop_spec [OF ex] by auto
    obtain xs where xs: "lb_records ?log = xs @ ys" "rm_chain m ys (lb_head ?log)"
      "\<forall>x\<in>set xs. rm_end x \<le> d" "m \<le> max (lb_base ?log) d"
      using drop_front_spec [OF _ df] lw(1) unfolding log_wf_def by blast
    have "\<forall>x\<in>set xs. rm_end x \<le> e" using xs(3) exs(1) he(1) by fastforce
    then have "wm_wf (sh_log sh')"
      using last_wm_of_drop [OF lw(1,2) cp xs(1)] lw(2) sh' by (simp add: wm_wf_def)
    moreover have "log_wf (sh_log sh')" using xs(2) sh' by (simp add: log_wf_def)
    moreover have "m \<le> h" using xs(4) exs(1) lw(4) True by simp
    ultimately have "shared_wf sh'" using exs(2) lw(3) sh' by (simp add: shared_wf_def)
    moreover have "\<forall>x\<in>set xs. \<forall>p\<in>set ps. \<not> p_failed p \<longrightarrow> rm_end x \<le> p_flush p"
      using xs(3) exs(3) by fastforce
    ultimately show ?thesis using sh' xs(1) True he by auto
  qed
  then show "shared_wf sh'" "sh_horizon sh \<le> sh_horizon sh'"
    "sh_horizon sh' \<noteq> sh_horizon sh \<Longrightarrow> sh_horizon sh' \<le> sh_commit sh \<and>
       sh_horizon sh' \<le> fst (coverable_prefix (sh_log sh) (sh_commit sh))"
    "\<exists>xs. lb_records (sh_log sh) = xs @ lb_records (sh_log sh') \<and>
       (\<forall>x\<in>set xs. \<forall>p\<in>set (sh_peers sh'). \<not> p_failed p \<longrightarrow> rm_end x \<le> p_flush p)"
    using cp by auto
qed

end
