(* ===== verification/Cluster.thy ===== *)
theory Cluster
  imports AcceptorSpec ProposerSpec
begin

text \<open>
  Three acceptors, any number of proposer processes, and the network between them.  An event
  is one atomic action of the code: an acceptor processes a request (\<^verbatim>\<open>handle_conn\<close>), restarts
  from its durable state, or a proposer process takes one step of \<^verbatim>\<open>Quorum::open\<close>, of its
  streaming tasks or of an internal re-election.  Requests and responses are never removed
  from the network: a message may be lost (never delivered), delayed, duplicated and
  reordered.  A new proposer process campaigns at an arbitrary positive term, which covers
  every term \<^verbatim>\<open>open\<close> may pick.

  The fields \<open>gh_hist\<close>, \<open>gh_wr\<close> and \<open>gh_acked\<close> only record what happened, for the invariants:
  the process and history of each term ever won, the byte each term's proposer put at each
  position, and the highest position each acceptor reached in each term.
\<close>

section \<open>Processes and events\<close>

record leading =
  ld_sh :: shared
  ld_els :: "election list"
  ld_conn :: "nat option list"
  ld_cand :: "(nat \<times> vote option list) option"

datatype proc =
    Idle
  | Campaigning nat "vote option list"
  | Recovering nat nat lsn lsn term_history bytes
  | Leading leading
  | Dead

record 'w cluster =
  cl_acc :: "nat \<Rightarrow> 'w acceptor"
  cl_reqs :: "(nat \<times> nat \<times> message) list"
  cl_resps :: "(nat \<times> nat \<times> message \<times> message) list"
  cl_procs :: "nat \<Rightarrow> proc"
  gh_hist :: "nat \<rightharpoonup> nat \<times> term_history"
  gh_wr :: "nat \<Rightarrow> lsn \<rightharpoonup> byte"
  gh_acked :: "nat \<Rightarrow> nat \<Rightarrow> lsn"

datatype event =
    Campaign nat nat
  | TakeVote nat nat
  | WinOpen nat
  | TakeRead nat nat
  | StartLead nat
  | Handshake nat nat
  | SendElected nat nat
  | TakeElected nat nat
  | Stream nat nat
  | TakeAppend nat nat
  | Submit nat byte bytes nat bytes
  | NoteCovered nat bytes nat
  | ReCampaign nat nat
  | TakeReVote nat nat
  | ReAdopt nat
  | Deliver nat "persistent_state \<Rightarrow> persist_outcome"
  | Reboot nat
  | Die nat

definition broadcast :: "nat \<Rightarrow> message \<Rightarrow> (nat \<times> nat \<times> message) list" where
  "broadcast p m = map (\<lambda>i. (p, i, m)) [0..<QUORUM_SIZE]"

definition set_proc :: "'w cluster \<Rightarrow> nat \<Rightarrow> proc \<Rightarrow> 'w cluster" where
  "set_proc s p x = s\<lparr>cl_procs := (cl_procs s)(p := x)\<rparr>"

definition send :: "'w cluster \<Rightarrow> (nat \<times> nat \<times> message) list \<Rightarrow> 'w cluster" where
  "send s ms = s\<lparr>cl_reqs := cl_reqs s @ ms\<rparr>"

definition response :: "'w cluster \<Rightarrow> nat \<Rightarrow> nat \<Rightarrow> (nat \<times> message \<times> message) option" where
  "response s p k =
     (if k < length (cl_resps s) \<and> fst (cl_resps s ! k) = p then Some (snd (cl_resps s ! k)) else None)"

text \<open>The byte of the retained log at a position.\<close>

definition log_byte :: "log_buf \<Rightarrow> lsn \<Rightarrow> byte option" where
  "log_byte log q = (if lb_base log \<le> q \<and> q < lb_head log
                     then Some (rm_bytes (lb_records log) ! (q - lb_base log)) else None)"

section \<open>Steps of a process that opens the tail\<close>

definition take_vote :: "'w cluster \<Rightarrow> nat \<Rightarrow> nat \<Rightarrow> 'w cluster option" where
  "take_vote s p k =
     (case (cl_procs s p, response s p k) of
        (Campaigning t votes, Some (i, VoteRequest t', m)) \<Rightarrow>
          (if t' \<noteq> t then None
           else case open_votes t [Some (Inr m)] of
                  Inl e \<Rightarrow> Some (set_proc s p Dead)
                | Inr vs \<Rightarrow> Some (set_proc s p (Campaigning t (votes[i := vs ! 0]))))
      | _ \<Rightarrow> None)"

definition read_request :: "nat \<Rightarrow> nat \<Rightarrow> lsn \<Rightarrow> lsn \<Rightarrow> (nat \<times> nat \<times> message) list" where
  "read_request p donor pos term_start =
     (if pos < term_start
      then [(p, donor, Read pos (min term_start (pos + MAX_APPEND_BATCH_BYTES)))] else [])"

definition win_open :: "'w cluster \<Rightarrow> nat \<Rightarrow> 'w cluster option" where
  "win_open s p =
     (case cl_procs s p of
        Campaigning t votes \<Rightarrow>
          (case open_donor votes of
             Inl e \<Rightarrow> Some (set_proc s p Dead)
           | Inr (donor, term_start, truncate_lsn) \<Rightarrow>
               (case push_term (vt_history (the (votes ! donor))) t term_start of
                  Inl e \<Rightarrow> Some (set_proc s p Dead)
                | Inr h \<Rightarrow>
                    Some ((send (set_proc s p (Recovering t donor term_start truncate_lsn h []))
                             (read_request p donor truncate_lsn term_start))
                          \<lparr>gh_hist := (gh_hist s)(t \<mapsto> (p, h))\<rparr>)))
      | _ \<Rightarrow> None)"

definition take_read :: "'w cluster \<Rightarrow> nat \<Rightarrow> nat \<Rightarrow> 'w cluster option" where
  "take_read s p k =
     (case (cl_procs s p, response s p k) of
        (Recovering t donor term_start truncate_lsn h bs, Some (i, Read a b, ReadResp a' rs)) \<Rightarrow>
          (if i \<noteq> donor \<or> a \<noteq> truncate_lsn + length bs then None
           else if a' \<noteq> a \<or> rs = [] \<or> a + length rs > b then Some (set_proc s p Dead)
           else Some (send (set_proc s p (Recovering t donor term_start truncate_lsn h (bs @ rs)))
                        (read_request p donor (a + length rs) term_start)))
      | _ \<Rightarrow> None)"

definition start_lead :: "(bytes \<Rightarrow> 32 word) \<Rightarrow> 'w cluster \<Rightarrow> nat \<Rightarrow> 'w cluster option" where
  "start_lead crc s p =
     (case cl_procs s p of
        Recovering t donor term_start truncate_lsn h bs \<Rightarrow>
          (if truncate_lsn + length bs \<noteq> term_start then None
           else case rbind (decode_records crc bs truncate_lsn)
                       (open_shared crc [] t h truncate_lsn term_start) of
                  Inl e \<Rightarrow> Some (set_proc s p Dead)
                | Inr sh \<Rightarrow>
                    Some (set_proc s p (Leading \<lparr>ld_sh = sh, ld_els = [sh_election sh],
                                                 ld_conn = replicate QUORUM_SIZE None, ld_cand = None\<rparr>)))
      | _ \<Rightarrow> None)"

section \<open>Steps of a leading process\<close>

definition find_election :: "leading \<Rightarrow> nat \<Rightarrow> election option" where
  "find_election l t = find (\<lambda>el. el_term el = t) (ld_els l)"

text \<open>
  The middle of a handshake: the vote response gives the start position, and \<^verbatim>\<open>Elected\<close> goes
  out with the history of the term the vote was requested for.
\<close>

definition send_elected :: "'w cluster \<Rightarrow> nat \<Rightarrow> nat \<Rightarrow> 'w cluster option" where
  "send_elected s p k =
     (case (cl_procs s p, response s p k) of
        (Leading l, Some (i, VoteRequest t, m)) \<Rightarrow>
          (case find_election l t of
             None \<Rightarrow> None
           | Some el \<Rightarrow>
               (case hs_vote el (Inr m) of
                  Inl e \<Rightarrow> None
                | Inr fh \<Rightarrow>
                    (case hs_start (ld_sh l) el fh of
                       Inl HsBehind \<Rightarrow>
                         Some (set_proc s p (Leading (l\<lparr>ld_sh := set_peer (ld_sh l) i (\<lambda>q. q\<lparr>p_failed := True\<rparr>)\<rparr>)))
                     | Inl e \<Rightarrow> None
                     | Inr start \<Rightarrow> Some (send s [(p, i, Elected t start (el_history el))]))))
      | _ \<Rightarrow> None)"

definition take_elected :: "'w cluster \<Rightarrow> nat \<Rightarrow> nat \<Rightarrow> 'w cluster option" where
  "take_elected s p k =
     (case (cl_procs s p, response s p k) of
        (Leading l, Some (i, Elected t start h, m)) \<Rightarrow>
          (case hs_elected (Inr m) of
             Inl e \<Rightarrow> (let r = peer_connected (ld_sh l) i (Inl e) in
                       Some (set_proc s p (Leading (l\<lparr>ld_sh := snd r\<rparr>))))
           | Inr _ \<Rightarrow> (let r = peer_connected (ld_sh l) i (Inr (start, t)) in
                       Some (set_proc s p (Leading (l\<lparr>ld_sh := snd r,
                               ld_conn := (if fst r = None then ld_conn l else (ld_conn l)[i := fst r])\<rparr>)))))
      | _ \<Rightarrow> None)"

definition stream :: "'w cluster \<Rightarrow> nat \<Rightarrow> nat \<Rightarrow> 'w cluster option" where
  "stream s p i =
     (case cl_procs s p of
        Leading l \<Rightarrow>
          (if i < length (ld_conn l) then
             (case ld_conn l ! i of
                None \<Rightarrow> None
              | Some t \<Rightarrow>
                  (case stream_next (ld_sh l) i t of
                     (Send m, sh') \<Rightarrow> Some (send s [(p, i, m)])
                   | (_, sh') \<Rightarrow> Some (set_proc s p (Leading (l\<lparr>ld_sh := sh'\<rparr>)))))
           else None)
      | _ \<Rightarrow> None)"

definition take_append :: "'w cluster \<Rightarrow> nat \<Rightarrow> nat \<Rightarrow> 'w cluster option" where
  "take_append s p k =
     (case (cl_procs s p, response s p k) of
        (Leading l, Some (i, Append t b e c z rs, m)) \<Rightarrow>
          (let r = stream_response (ld_sh l) i t (Inr m) in
           Some (set_proc s p (Leading (l\<lparr>ld_sh := snd r,
                   ld_conn := (if fst r then ld_conn l else (ld_conn l)[i := None])\<rparr>))))
      | _ \<Rightarrow> None)"

definition write_log :: "(nat \<Rightarrow> lsn \<rightharpoonup> byte) \<Rightarrow> nat \<Rightarrow> lsn \<Rightarrow> log_buf \<Rightarrow> nat \<Rightarrow> lsn \<rightharpoonup> byte" where
  "write_log wr t from log =
     wr(t := (\<lambda>q. if from \<le> q \<and> q < lb_head log then log_byte log q else wr t q))"

definition submit_step ::
  "(bytes \<Rightarrow> 32 word) \<Rightarrow> 'w cluster \<Rightarrow> nat \<Rightarrow> byte \<Rightarrow> bytes \<Rightarrow> nat \<Rightarrow> bytes \<Rightarrow> 'w cluster option" where
  "submit_step crc s p kind key seq body =
     (case cl_procs s p of
        Leading l \<Rightarrow>
          (case submit crc (ld_sh l) kind key seq body of
             (Inl e, sh') \<Rightarrow> Some s
           | (Inr e, sh') \<Rightarrow>
               Some ((set_proc s p (Leading (l\<lparr>ld_sh := sh'\<rparr>)))
                     \<lparr>gh_wr := write_log (gh_wr s) (el_term (sh_election (ld_sh l)))
                                 (lb_head (sh_log (ld_sh l))) (sh_log sh')\<rparr>))
      | _ \<Rightarrow> None)"

definition note_covered_step :: "'w cluster \<Rightarrow> nat \<Rightarrow> bytes \<Rightarrow> nat \<Rightarrow> 'w cluster option" where
  "note_covered_step s p key seq =
     (case cl_procs s p of
        Leading l \<Rightarrow> Some (set_proc s p (Leading (l\<lparr>ld_sh := snd (note_covered (ld_sh l) key seq)\<rparr>)))
      | _ \<Rightarrow> None)"

definition handshake_step :: "'w cluster \<Rightarrow> nat \<Rightarrow> nat \<Rightarrow> 'w cluster option" where
  "handshake_step s p i =
     (case cl_procs s p of
        Leading l \<Rightarrow> (if i < QUORUM_SIZE then Some (send s [(p, i, VoteRequest (el_term (sh_election (ld_sh l))))])
                      else None)
      | _ \<Rightarrow> None)"

definition recampaign :: "'w cluster \<Rightarrow> nat \<Rightarrow> nat \<Rightarrow> 'w cluster option" where
  "recampaign s p t =
     (case cl_procs s p of
        Leading l \<Rightarrow>
          (if t > el_term (sh_election (ld_sh l))
           then Some (send (set_proc s p (Leading (l\<lparr>ld_cand := Some (t, replicate QUORUM_SIZE None)\<rparr>)))
                        (broadcast p (VoteRequest t)))
           else None)
      | _ \<Rightarrow> None)"

definition take_revote :: "'w cluster \<Rightarrow> nat \<Rightarrow> nat \<Rightarrow> 'w cluster option" where
  "take_revote s p k =
     (case (cl_procs s p, response s p k) of
        (Leading l, Some (i, VoteRequest t, m)) \<Rightarrow>
          (case ld_cand l of
             None \<Rightarrow> None
           | Some (t', votes) \<Rightarrow>
               (if t' \<noteq> t then None
                else case reelect_votes t [Some (Inr m)] of
                       Inl e \<Rightarrow> Some (set_proc s p (Leading (l\<lparr>ld_cand := None,
                                  ld_sh := poison (ld_sh l) ''superseded by a newer server''\<rparr>)))
                     | Inr vs \<Rightarrow> Some (set_proc s p (Leading (l\<lparr>ld_cand := Some (t, votes[i := vs ! 0])\<rparr>)))))
      | _ \<Rightarrow> None)"

definition readopt :: "'w cluster \<Rightarrow> nat \<Rightarrow> 'w cluster option" where
  "readopt s p =
     (case cl_procs s p of
        Leading l \<Rightarrow>
          (case ld_cand l of
             None \<Rightarrow> None
           | Some (t, votes) \<Rightarrow>
               (case reelect_adopt (ld_sh l) t votes of
                  Inl e \<Rightarrow> Some (set_proc s p (Leading (l\<lparr>ld_cand := None\<rparr>)))
                | Inr sh' \<Rightarrow>
                    Some ((set_proc s p (Leading (l\<lparr>ld_sh := sh', ld_els := sh_election sh' # ld_els l,
                                                   ld_conn := replicate QUORUM_SIZE None, ld_cand := None\<rparr>)))
                          \<lparr>gh_hist := (gh_hist s)(t \<mapsto> (p, el_history (sh_election sh'))),
                           gh_wr := write_log (gh_wr s) t (el_term_start_lsn (sh_election sh')) (sh_log sh')\<rparr>)))
      | _ \<Rightarrow> None)"

section \<open>Steps of an acceptor\<close>

definition acked_by :: "message \<Rightarrow> nat option" where
  "acked_by m = (case m of ElectedResp t ok \<Rightarrow> (if ok then Some t else None)
                         | AppendResp t ok _ _ \<Rightarrow> (if ok then Some t else None)
                         | _ \<Rightarrow> None)"

definition deliver ::
  "'w wal_store \<Rightarrow> (bytes \<Rightarrow> 32 word) \<Rightarrow> 'w cluster \<Rightarrow> nat \<Rightarrow> (persistent_state \<Rightarrow> persist_outcome) \<Rightarrow>
   'w cluster option" where
  "deliver ops crc s k po =
     (if k < length (cl_reqs s) then
        (let (p, i, m) = cl_reqs s ! k;
             r = process ops crc po (cl_acc s i) m
         in Some (s\<lparr>cl_acc := (cl_acc s)(i := snd r),
                    cl_resps := cl_resps s @ [(p, i, m, fst r)],
                    gh_acked := (case acked_by (fst r) of
                                   None \<Rightarrow> gh_acked s
                                 | Some t \<Rightarrow> (gh_acked s)(i := (gh_acked s i)(t :=
                                     max (gh_acked s i t) (ws_flush_lsn ops (a_wal (snd r))))))\<rparr>))
      else None)"

text \<open>
  A restart from the data directory.  The control document comes back as it is on disk; the log is
  taken to come back as it was, which the boot scan guarantees when the files hold whole records and
  some record is left (\<open>open_dir_view\<close> in \<^verbatim>\<open>AcceptorSafety\<close>).  Not covered: a restart on a log that was truncated to
  nothing, whose flush position the scan resets to 0, and a crash inside an append that leaves some whole
  records of the batch.
\<close>

definition reboot :: "'w wal_store \<Rightarrow> 'w cluster \<Rightarrow> nat \<Rightarrow> 'w cluster option" where
  "reboot ops s i =
     (if i < QUORUM_SIZE
      then Some (s\<lparr>cl_acc := (cl_acc s)(i := acceptor_new ops (durable (cl_acc s i)) (a_ctrl (cl_acc s i)) (a_wal (cl_acc s i)))\<rparr>)
      else None)"

section \<open>Runs\<close>

fun exec :: "'w wal_store \<Rightarrow> (bytes \<Rightarrow> 32 word) \<Rightarrow> 'w cluster \<Rightarrow> event \<Rightarrow> 'w cluster option" where
  "exec ops crc s (Campaign p t) =
     (case cl_procs s p of
        Idle \<Rightarrow> (if t > 0
                 then Some (send (set_proc s p (Campaigning t (replicate QUORUM_SIZE None)))
                              (broadcast p (VoteRequest t)))
                 else None)
      | _ \<Rightarrow> None)"
| "exec ops crc s (TakeVote p k) = take_vote s p k"
| "exec ops crc s (WinOpen p) = win_open s p"
| "exec ops crc s (TakeRead p k) = take_read s p k"
| "exec ops crc s (StartLead p) = start_lead crc s p"
| "exec ops crc s (Handshake p i) = handshake_step s p i"
| "exec ops crc s (SendElected p k) = send_elected s p k"
| "exec ops crc s (TakeElected p k) = take_elected s p k"
| "exec ops crc s (Stream p i) = stream s p i"
| "exec ops crc s (TakeAppend p k) = take_append s p k"
| "exec ops crc s (Submit p kind key seq body) = submit_step crc s p kind key seq body"
| "exec ops crc s (NoteCovered p key seq) = note_covered_step s p key seq"
| "exec ops crc s (ReCampaign p t) = recampaign s p t"
| "exec ops crc s (TakeReVote p k) = take_revote s p k"
| "exec ops crc s (ReAdopt p) = readopt s p"
| "exec ops crc s (Deliver k po) = deliver ops crc s k po"
| "exec ops crc s (Reboot i) = reboot ops s i"
| "exec ops crc s (Die p) = Some (set_proc s p Dead)"

text \<open>
  Two conditions the code does not enforce.  The donor answers a recovery read only while it
  is still at the candidate's term (the read is not fenced by term), and a re-election finds
  a donor at or beyond the start of the proposer's own term (otherwise the new history is not
  ordered by position).
\<close>

fun regular :: "'w cluster \<Rightarrow> event \<Rightarrow> bool" where
  "regular s (Deliver k po) =
     (k < length (cl_reqs s) \<longrightarrow>
        (case cl_reqs s ! k of
           (p, i, Read a b) \<Rightarrow>
             (case cl_procs s p of
                Recovering t donor term_start truncate_lsn h bs \<Rightarrow> ps_term (effective (cl_acc s i)) = t
              | _ \<Rightarrow> True)
         | _ \<Rightarrow> True))"
| "regular s (ReAdopt p) =
     (case cl_procs s p of
        Leading l \<Rightarrow>
          (case ld_cand l of
             None \<Rightarrow> True
           | Some (t, votes) \<Rightarrow>
               (case reelect_adopt (ld_sh l) t votes of
                  Inl e \<Rightarrow> True
                | Inr sh' \<Rightarrow> el_term_start_lsn (sh_election (ld_sh l)) \<le> el_term_start_lsn (sh_election sh')))
      | _ \<Rightarrow> True)"
| "regular s _ = True"

fun run :: "'w wal_store \<Rightarrow> (bytes \<Rightarrow> 32 word) \<Rightarrow> 'w cluster \<Rightarrow> event list \<Rightarrow> 'w cluster option" where
  "run ops crc s [] = Some s"
| "run ops crc s (e # es) =
     (if regular s e then Option.bind (exec ops crc s e) (\<lambda>s'. run ops crc s' es) else None)"

definition init_cluster :: "'w wal_store \<Rightarrow> 'w \<Rightarrow> 'w cluster" where
  "init_cluster ops w =
     \<lparr>cl_acc = (\<lambda>i. acceptor_new ops (persistent_state_new i) None w),
      cl_reqs = [], cl_resps = [], cl_procs = (\<lambda>_. Idle),
      gh_hist = Map.empty, gh_wr = (\<lambda>_ _. None), gh_acked = (\<lambda>_ _. 0)\<rparr>"

end
