(* ===== verification/Carries.thy ===== *)
theory Carries
  imports Acceptor
begin

text \<open>
  The order-theoretic core of the agreement proof.  A history \<open>carries\<close> a position \<open>e\<close> of a term
  when it contains the term and no later entry starts below \<open>e\<close>: the log bytes below \<open>e\<close> are
  then attributed as in the history of that term.
\<close>

definition carries :: "term_history \<Rightarrow> nat \<Rightarrow> lsn \<Rightarrow> bool" where
  "carries h t e \<longleftrightarrow> (\<exists>k<length h. tl_term (h ! k) = t \<and> (\<forall>j. k < j \<and> j < length h \<longrightarrow> e \<le> tl_lsn (h ! j)))"

lemma carries_last: "h \<noteq> [] \<Longrightarrow> carries h (tl_term (last h)) e"
  unfolding carries_def by (intro exI [of _ "length h - 1"]) (auto simp: last_conv_nth)

lemma carries_snoc:
  assumes "carries h t e" "e \<le> tl_lsn x"
  shows "carries (h @ [x]) t e"
proof -
  obtain k where k: "k < length h" "tl_term (h ! k) = t" "\<forall>j. k < j \<and> j < length h \<longrightarrow> e \<le> tl_lsn (h ! j)"
    using assms(1) by (auto simp: carries_def)
  then show ?thesis unfolding carries_def using assms(2)
    by (intro exI [of _ k]) (auto simp: nth_append less_Suc_eq)
qed

lemma carries_take: "carries h t e \<Longrightarrow> k < n \<Longrightarrow> k < length h \<Longrightarrow> tl_term (h ! k) = t \<Longrightarrow> th_wf h \<Longrightarrow> carries (take n h) t e"
proof -
  assume c: "carries h t e" and k: "k < n" "k < length h" "tl_term (h ! k) = t" and wf: "th_wf h"
  obtain m where m: "m < length h" "tl_term (h ! m) = t" "\<forall>j. m < j \<and> j < length h \<longrightarrow> e \<le> tl_lsn (h ! j)"
    using c by (auto simp: carries_def)
  have "m = k" using th_wf_inj_term [OF wf m(1) k(2)] m(2) k(3) by simp
  then show ?thesis unfolding carries_def using k m by (intro exI [of _ k]) auto
qed

lemma up_to_take_le:
  assumes "th_wf h" "up_to h f = take n h" "k < length h" "tl_lsn (h ! k) \<le> f"
  shows "k < n"
proof (rule ccontr)
  assume "\<not> k < n"
  have "h ! k \<in> set (up_to h f)" using assms(3,4) by (simp add: up_to_def)
  then have "h ! k \<in> set (take n h)" using assms(2) by simp
  then obtain j where "j < n" "j < length h" "h ! k = h ! j" by (rule in_set_take_nth)
  moreover from this have "k = j" using th_wf_inj_term [OF assms(1,3)] by simp
  ultimately show False using \<open>\<not> k < n\<close> by simp
qed

text \<open>Growing the log within one history, and cutting it at or above \<open>e\<close>, keeps what is carried.\<close>

lemma carries_up_to:
  assumes wf: "th_wf h" and c: "carries h t e" and st: "k < length h" "tl_term (h ! k) = t" "tl_lsn (h ! k) \<le> f"
  shows "carries (up_to h f) t e"
proof -
  obtain n where n: "up_to h f = take n h" using wf by (rule up_to_prefix)
  have "k < n" using up_to_take_le [OF wf n st(1,3)] .
  then show ?thesis unfolding n using carries_take [OF c _ st(1,2) wf] by simp
qed

lemma carries_up_to_grow:
  assumes wf: "th_wf h" and c: "carries (up_to h f) t e" and f: "e \<le> f" "f \<le> f'"
  shows "carries (up_to h f') t e"
proof -
  obtain n n' where n: "up_to h f = take n h" "up_to h f' = take n' h"
    using up_to_prefix [OF wf] by metis
  obtain k where k: "k < length (take n h)" "tl_term (take n h ! k) = t"
    "\<forall>j. k < j \<and> j < length (take n h) \<longrightarrow> e \<le> tl_lsn (take n h ! j)"
    using c by (auto simp: carries_def n)
  have kh: "k < length h" "k < n" using k(1) by auto
  have "h ! k \<in> set (up_to h f)" unfolding n(1) using kh by (metis in_set_conv_nth k(1) nth_take)
  then have "tl_lsn (h ! k) \<le> f'" using f(2) by (auto simp: up_to_def)
  then have kn': "k < n'" using up_to_take_le [OF wf n(2) kh(1)] by simp
  have "e \<le> tl_lsn (h ! j)" if j: "k < j" "j < length h" for j
  proof (cases "j < n")
    case True
    then show ?thesis using k(3) j by auto
  next
    case False
    then have "\<not> tl_lsn (h ! j) \<le> f" using up_to_take_le [OF wf n(1) j(2)] by blast
    then show ?thesis using f(1) by simp
  qed
  then show ?thesis unfolding carries_def n(2) using k(2) kh kn' by (intro exI [of _ k]) auto
qed

text \<open>Below a carried position the two histories attribute every byte to the same term.\<close>

lemma carries_llt:
  assumes wf: "th_wf h" and c: "carries h t e" and pre: "k < length h" "tl_term (h ! k) = t" "take (Suc k) h = h0"
    and q: "q < e"
  shows "last_log_term h q = last_log_term h0 q"
proof -
  obtain m where m: "m < length h" "tl_term (h ! m) = t" "\<forall>j. m < j \<and> j < length h \<longrightarrow> e \<le> tl_lsn (h ! j)"
    using c by (auto simp: carries_def)
  have "m = k" using th_wf_inj_term [OF wf m(1) pre(1)] m(2) pre(2) by simp
  then have "last_log_term h q = last_log_term (take (Suc k) h) q"
    using m q by (intro last_log_term_common_prefix [OF wf]) fastforce
  then show ?thesis using pre(3) by simp
qed

section \<open>The divergence point\<close>

lemma common_idx_at_least:
  assumes idx: "last_common_idx p s 0 None = Inr r" and same: "take (Suc k) p = take (Suc k) s"
    and k: "k < length p" "k < length s"
  shows "\<exists>i\<ge>k. r = Some i"
proof -
  obtain n where n: "n \<le> length p" "n \<le> length s" "n < length p \<Longrightarrow> n < length s \<Longrightarrow> tl_term (p ! n) \<noteq> tl_term (s ! n)"
    "r = (if n = 0 then None else Some (n - 1))"
    using last_common_idx_prefix [OF idx] by metis
  have "\<not> n < Suc k"
  proof
    assume lt: "n < Suc k"
    have "p ! n = s ! n" using take_eq_nthD [OF same lt] .
    then show False using n(3) lt k by simp
  qed
  then show ?thesis using n(4) by auto
qed

text \<open>The acceptor's divergence point never falls below a position both histories carry.\<close>

lemma divergence_at_least:
  assumes res: "divergence_start p s f em st = Inr st'"
    and wf: "th_wf p" "th_wf s" and cp: "carries p t e" and cs: "carries s t e" and ef: "e \<le> f"
    and pre: "k < length p" "k < length s" "tl_term (p ! k) = t" "take (Suc k) p = take (Suc k) s"
  shows "e \<le> st'"
proof -
  have sk: "tl_term (s ! k) = t" using take_eq_nthD [OF pre(4), of k] pre(3) by simp
  have pl: "e \<le> tl_lsn (p ! j)" if "k < j" "j < length p" for j
  proof -
    obtain m where m: "m < length p" "tl_term (p ! m) = t" "\<forall>j. m < j \<and> j < length p \<longrightarrow> e \<le> tl_lsn (p ! j)"
      using cp by (auto simp: carries_def)
    have "m = k" using th_wf_inj_term [OF wf(1) m(1) pre(1)] m(2) pre(3) by simp
    then show ?thesis using m(3) that by simp
  qed
  have sl: "e \<le> tl_lsn (s ! j)" if "k < j" "j < length s" for j
  proof -
    obtain m where m: "m < length s" "tl_term (s ! m) = t" "\<forall>j. m < j \<and> j < length s \<longrightarrow> e \<le> tl_lsn (s ! j)"
      using cs by (auto simp: carries_def)
    have "m = k" using th_wf_inj_term [OF wf(2) m(1) pre(2)] m(2) sk by simp
    then show ?thesis using m(3) that by simp
  qed
  obtain r where r: "last_common_idx p s 0 None = Inr r"
    using res by (auto simp: divergence_start_def find_highest_common_point_def split: sum.splits if_splits)
  then obtain i where i: "r = Some i" "k \<le> i" using common_idx_at_least [OF _ pre(4,1,2)] by blast
  have il: "i < length p"
  proof -
    obtain n where "n \<le> length p" "r = (if n = 0 then None else Some (n - 1))"
      using last_common_idx_prefix [OF r] by metis
    then show ?thesis using i(1) by (auto split: if_splits)
  qed
  show ?thesis
  proof (cases "i = length p - 1")
    case True
    then have "st' = f" using res r i(1)
      by (auto simp: divergence_start_def find_highest_common_point_def split: if_splits)
    then show ?thesis using ef by simp
  next
    case False
    then have "st' = min (tl_lsn (p ! (i + 1))) (if i + 1 < length s then tl_lsn (s ! (i + 1)) else f)"
      using res r i(1)
      by (auto simp: divergence_start_def find_highest_common_point_def Let_def split: if_splits)
    then show ?thesis using pl [of "i + 1"] sl [of "i + 1"] i(2) il False ef by auto
  qed
qed

end
