(* ===== verification/ClusterInv.thy ===== *)
theory ClusterInv
  imports Cluster Carries
begin

text \<open>
  The invariant of the cluster, over the views of the acceptors.  A position is \<open>chosen\<close> in a
  term when two acceptors reached it in that term, \<open>choosable\<close> when that can still happen, and
  \<open>settled\<close> when it lies below a chosen position of the same or an earlier term.  The key
  clause \<open>key_inv\<close> says that the history of every won term carries each position that is
  still choosable in an earlier term.
\<close>

section \<open>Abstract cluster states\<close>

record gst =
  g_vs :: "nat \<Rightarrow> aview"
  g_reqs :: "(nat \<times> nat \<times> message) set"
  g_resps :: "(nat \<times> nat \<times> message \<times> message) set"
  g_procs :: "nat \<Rightarrow> proc"
  g_hist :: "nat \<rightharpoonup> nat \<times> term_history"
  g_wr :: "nat \<Rightarrow> lsn \<rightharpoonup> byte"
  g_acked :: "nat \<Rightarrow> nat \<Rightarrow> lsn"

definition cluster_abs :: "('w acceptor \<Rightarrow> aview) \<Rightarrow> 'w cluster \<Rightarrow> gst" where
  "cluster_abs vw s =
     \<lparr>g_vs = (\<lambda>i. vw (cl_acc s i)), g_reqs = set (cl_reqs s), g_resps = set (cl_resps s),
      g_procs = cl_procs s, g_hist = gh_hist s, g_wr = gh_wr s, g_acked = gh_acked s\<rparr>"

section \<open>Chosen, choosable, settled\<close>

definition acc3 :: "(nat \<Rightarrow> bool) \<Rightarrow> nat set" where
  "acc3 P = {i. i < 3 \<and> P i}"

definition g_start :: "gst \<Rightarrow> nat \<Rightarrow> lsn" where
  "g_start g t = (case g_hist g t of Some (p, h) \<Rightarrow> tl_lsn (last h) | None \<Rightarrow> 0)"

definition chosen :: "gst \<Rightarrow> nat \<Rightarrow> lsn \<Rightarrow> bool" where
  "chosen g t e \<longleftrightarrow> g_hist g t \<noteq> None \<and> g_start g t \<le> e \<and> 2 \<le> card (acc3 (\<lambda>i. e \<le> g_acked g i t))"

definition settled :: "gst \<Rightarrow> nat \<Rightarrow> lsn \<Rightarrow> bool" where
  "settled g t c \<longleftrightarrow> c = 0 \<or> (\<exists>t0 e0. t0 \<le> t \<and> c \<le> e0 \<and> chosen g t0 e0)"

definition choosable :: "gst \<Rightarrow> nat \<Rightarrow> lsn \<Rightarrow> bool" where
  "choosable g t e \<longleftrightarrow> 2 \<le> card (acc3 (\<lambda>i. e \<le> g_acked g i t \<or> v_term (g_vs g i) \<le> t))"

text \<open>The positions acceptor \<open>i\<close> reached in term \<open>t\<close> that a later proposer has to respect.\<close>

definition binding :: "gst \<Rightarrow> nat \<Rightarrow> nat \<Rightarrow> lsn \<Rightarrow> bool" where
  "binding g i t e \<longleftrightarrow> 0 < e \<and> e \<le> g_acked g i t \<and> g_start g t \<le> e \<and> choosable g t e"

definition granted :: "gst \<Rightarrow> nat \<Rightarrow> nat \<Rightarrow> nat \<Rightarrow> bool" where
  "granted g p i t \<longleftrightarrow>
     (\<exists>f llt h z c. (p, i, VoteRequest t, VoteResponse t True f llt h z c) \<in> g_resps g)"

definition ok_at :: "gst \<Rightarrow> nat \<Rightarrow> nat \<Rightarrow> bool" where
  "ok_at g i t \<longleftrightarrow> (\<exists>p s h. (p, i, Elected t s h, ElectedResp t True) \<in> g_resps g)"

definition no_elected :: "gst \<Rightarrow> nat \<Rightarrow> bool" where
  "no_elected g t \<longleftrightarrow> (\<forall>p i s h. (p, i, Elected t s h) \<notin> g_reqs g)"

text \<open>A run of bytes agrees with what the proposers of the terms of \<open>h\<close> wrote.\<close>

definition written :: "gst \<Rightarrow> term_history \<Rightarrow> lsn \<Rightarrow> bytes \<Rightarrow> bool" where
  "written g h a bs \<longleftrightarrow> (\<forall>j<length bs. g_wr g (last_log_term h (a + j)) (a + j) = Some (bs ! j))"

section \<open>The invariant\<close>

definition hist_ok :: "gst \<Rightarrow> nat \<Rightarrow> nat \<Rightarrow> term_history \<Rightarrow> bool" where
  "hist_ok g t p h \<longleftrightarrow> h \<noteq> [] \<and> 0 < t \<and> tl_term (last h) = t \<and> th_wf h \<and> tl_lsn (h ! 0) = 0 \<and>
     (\<forall>k<length h. \<exists>p'. g_hist g (tl_term (h ! k)) = Some (p', take (Suc k) h)) \<and>
     2 \<le> card (acc3 (\<lambda>i. granted g p i t))"

text \<open>A history as an acceptor reports it: empty or the history of the term of its last entry.\<close>

definition snap_hist :: "gst \<Rightarrow> term_history \<Rightarrow> lsn \<Rightarrow> bool" where
  "snap_hist g h f \<longleftrightarrow> (h = [] \<and> f = 0) \<or>
     (h \<noteq> [] \<and> (\<exists>p. g_hist g (tl_term (last h)) = Some (p, h)) \<and> tl_lsn (last h) \<le> f)"

text \<open>The process has won a later term.\<close>

definition superseded :: "gst \<Rightarrow> nat \<Rightarrow> nat \<Rightarrow> bool" where
  "superseded g p t \<longleftrightarrow> (\<exists>t'>t. \<exists>h. g_hist g t' = Some (p, h))"

fun req_ok :: "gst \<Rightarrow> nat \<times> nat \<times> message \<Rightarrow> bool" where
  "req_ok g (p, i, Elected t s h) =
     (i < 3 \<and> g_hist g t = Some (p, h) \<and> (v_hist (g_vs g i) \<noteq> [] \<or> settled g t s \<or> superseded g p t))"
| "req_ok g (p, i, Append t b e c z rs) =
     (i < 3 \<and> ok_at g i t \<and> settled g t c \<and> settled g t z \<and> (b \<le> g_acked g i t \<or> settled g t b) \<and>
      (\<exists>h. g_hist g t = Some (p, h) \<and> written g h b rs))"
| "req_ok g (p, i, VoteRequest t) = (i < 3 \<and> 0 < t)"
| "req_ok g (p, i, Read a b) =
     (i < 3 \<and> (case g_procs g p of
        Idle \<Rightarrow> False
      | Campaigning _ _ \<Rightarrow> False
      | Recovering t donor ts tr h bs \<Rightarrow> b \<le> ts
      | _ \<Rightarrow> True))"
| "req_ok g _ = False"

definition vote_ok :: "gst \<Rightarrow> nat \<Rightarrow> nat \<Rightarrow> lsn \<Rightarrow> nat \<Rightarrow> term_history \<Rightarrow> lsn \<Rightarrow> bool" where
  "vote_ok g i t f llt h z \<longleftrightarrow>
     t \<le> v_term (g_vs g i) \<and> (\<forall>e\<in>set h. tl_term e < t) \<and> settled g t z \<and>
     (\<forall>t0 e. t0 < t \<longrightarrow> binding g i t0 e \<longrightarrow> carries h t0 e \<and> e \<le> f) \<and>
     (v_term (g_vs g i) = t \<longrightarrow> no_elected g t \<longrightarrow>
        v_flush (g_vs g i) = f \<and> up_to (v_hist (g_vs g i)) f = h)"

definition vote_fields :: "gst \<Rightarrow> nat \<Rightarrow> lsn \<Rightarrow> nat \<Rightarrow> term_history \<Rightarrow> bool" where
  "vote_fields g i f llt h \<longleftrightarrow> snap_hist g h f \<and> llt = (if h = [] then 0 else tl_term (last h)) \<and>
     (h \<noteq> [] \<longrightarrow> v_hist (g_vs g i) \<noteq> [])"

fun resp_ok :: "gst \<Rightarrow> nat \<times> nat \<times> message \<times> message \<Rightarrow> bool" where
  "resp_ok g (p, i, VoteRequest t, VoteResponse t' ok f llt h z c) =
     (vote_fields g i f llt h \<and> (ok \<longrightarrow> t' = t \<and> vote_ok g i t f llt h z))"
| "resp_ok g (p, i, Elected t s h, ElectedResp t' ok) =
     (ok \<longrightarrow> t' = t \<and> (s \<le> g_acked g i t \<or> settled g t s \<or> superseded g p t))"
| "resp_ok g (p, i, Append t b e c z rs, AppendResp t' ok f c') = (ok \<longrightarrow> t' = t \<and> f \<le> g_acked g i t)"
| "resp_ok g (p, i, Read a b, ReadResp a' rs) =
     (a' = a \<and> (case g_procs g p of
        Recovering t donor ts tr h bs \<Rightarrow>
          i = donor \<longrightarrow> a + length rs \<le> ts \<longrightarrow> written g h a rs
      | _ \<Rightarrow> True))"
| "resp_ok g _ = True"

definition votes_ok :: "gst \<Rightarrow> nat \<Rightarrow> nat \<Rightarrow> vote option list \<Rightarrow> bool" where
  "votes_ok g p t votes \<longleftrightarrow> length votes = 3 \<and>
     (\<forall>i<3. \<forall>v. votes ! i = Some v \<longrightarrow>
        (\<exists>c. (p, i, VoteRequest t, VoteResponse t True (vt_flush v) (vt_last_log_term v) (vt_history v)
                (vt_horizon v) c) \<in> g_resps g))"

definition election_ok :: "gst \<Rightarrow> nat \<Rightarrow> election \<Rightarrow> bool" where
  "election_ok g p el \<longleftrightarrow> g_hist g (el_term el) = Some (p, el_history el) \<and>
     el_term_start_lsn el = tl_lsn (last (el_history el))"

definition leader_ok :: "gst \<Rightarrow> nat \<Rightarrow> leading \<Rightarrow> bool" where
  "leader_ok g p l \<longleftrightarrow>
     (let sh = ld_sh l; el = sh_election sh; log = sh_log sh; t = el_term el in
      shared_wf sh \<and> (\<forall>x\<in>set (ld_els l). election_ok g p x) \<and> election_ok g p el \<and>
      (\<forall>t'>t. \<forall>h. g_hist g t' \<noteq> Some (p, h)) \<and>
      el_term_start_lsn el \<le> lb_head log \<and>
      settled g t (lb_base log) \<and> settled g t (sh_horizon sh) \<and> settled g t (sh_commit sh) \<and>
      written g (el_history el) (lb_base log) (rm_bytes (lb_records log)) \<and>
      (\<forall>q\<ge>lb_head log. g_wr g t q = None) \<and>
      (\<forall>i<3. g_acked g i t \<le> lb_head log) \<and>
      (\<forall>i<3. p_flush (sh_peers sh ! i) \<le> g_acked g i t \<or> settled g t (p_flush (sh_peers sh ! i))) \<and>
      length (ld_conn l) = 3 \<and> (\<forall>i<3. \<forall>t'. ld_conn l ! i = Some t' \<longrightarrow> ok_at g i t') \<and>
      (\<forall>t' votes. ld_cand l = Some (t', votes) \<longrightarrow> t < t' \<and> votes_ok g p t' votes))"

fun proc_ok :: "gst \<Rightarrow> nat \<Rightarrow> proc \<Rightarrow> bool" where
  "proc_ok g p Idle = (\<forall>t h. g_hist g t \<noteq> Some (p, h))"
| "proc_ok g p (Campaigning t votes) = ((\<forall>t h. g_hist g t \<noteq> Some (p, h)) \<and> 0 < t \<and> votes_ok g p t votes)"
| "proc_ok g p (Recovering t donor ts tr h bs) =
     (g_hist g t = Some (p, h) \<and> tl_lsn (last h) = ts \<and> (\<forall>t' h'. g_hist g t' = Some (p, h') \<longrightarrow> t' = t) \<and>
      (\<exists>llt z c. (p, donor, VoteRequest t, VoteResponse t True ts llt (butlast h) z c) \<in> g_resps g) \<and>
      settled g t tr \<and> tr + length bs \<le> ts \<and> written g h tr bs \<and> no_elected g t \<and>
      (\<forall>q\<ge>ts. g_wr g t q = None) \<and> (\<forall>i<3. g_acked g i t = 0))"
| "proc_ok g p (Leading l) = leader_ok g p l"
| "proc_ok g p Dead = True"

definition acc_ok :: "gst \<Rightarrow> nat \<Rightarrow> bool" where
  "acc_ok g i \<longleftrightarrow>
     (let v = g_vs g i in
      (v_hist v = [] \<or> (\<exists>t p. g_hist g t = Some (p, v_hist v) \<and> t \<le> v_term v)) \<and>
      (v_hist v = [] \<longrightarrow> v_empty v) \<and>
      (v_empty v \<longrightarrow> v_log v = [] \<and> v_lo v = 0 \<and> (\<forall>t. g_acked g i t = 0)) \<and>
      written g (v_hist v) (v_lo v) (v_log v) \<and>
      settled g (v_term v) (v_commit v) \<and> settled g (v_term v) (v_hor v) \<and> settled g (v_term v) (v_lo v) \<and>
      (\<forall>t. ok_at g i t \<longrightarrow> t \<le> v_term v \<and> (t = v_term v \<longrightarrow> (\<exists>p. g_hist g t = Some (p, v_hist v)))) \<and>
      (\<forall>t. 0 < g_acked g i t \<longrightarrow> ok_at g i t) \<and> g_acked g i (v_term v) \<le> v_flush v \<and>
      (\<forall>t e. binding g i t e \<longrightarrow> carries (up_to (v_hist v) (v_flush v)) t e \<and> e \<le> v_flush v))"

definition key_inv :: "gst \<Rightarrow> bool" where
  "key_inv g \<longleftrightarrow> (\<forall>t t' e p h. g_hist g t' = Some (p, h) \<longrightarrow> t < t' \<longrightarrow> 0 < e \<longrightarrow> g_hist g t \<noteq> None \<longrightarrow>
     g_start g t \<le> e \<longrightarrow> choosable g t e \<longrightarrow> carries h t e)"

definition grants_unique :: "gst \<Rightarrow> bool" where
  "grants_unique g \<longleftrightarrow> (\<forall>p p' i t. granted g p i t \<longrightarrow> granted g p' i t \<longrightarrow> p = p')"

definition cinv :: "gst \<Rightarrow> bool" where
  "cinv g \<longleftrightarrow> (\<forall>x\<in>g_reqs g. req_ok g x) \<and>
     (\<forall>p i m r. (p, i, m, r) \<in> g_resps g \<longrightarrow> (p, i, m) \<in> g_reqs g \<and> resp_ok g (p, i, m, r)) \<and>
     (\<forall>p. proc_ok g p (g_procs g p)) \<and> (\<forall>i<3. acc_ok g i) \<and>
     (\<forall>t p h. g_hist g t = Some (p, h) \<longrightarrow> hist_ok g t p h) \<and> key_inv g \<and> grants_unique g \<and>
     (\<forall>t. g_hist g t = None \<longrightarrow> g_wr g t = Map.empty)"

section \<open>Consequences\<close>

lemma cinvD:
  assumes "cinv g"
  shows "x \<in> g_reqs g \<Longrightarrow> req_ok g x"
    "(p, i, m, r) \<in> g_resps g \<Longrightarrow> (p, i, m) \<in> g_reqs g"
    "(p, i, m, r) \<in> g_resps g \<Longrightarrow> resp_ok g (p, i, m, r)"
    "proc_ok g p (g_procs g p)" "i < 3 \<Longrightarrow> acc_ok g i"
    "g_hist g t = Some (p, h) \<Longrightarrow> hist_ok g t p h" "key_inv g" "grants_unique g"
    "g_hist g t = None \<Longrightarrow> g_wr g t q = None"
  using assms unfolding cinv_def by (blast | simp)+

lemma hist_okD:
  assumes "hist_ok g t p h"
  shows "h \<noteq> []" "0 < t" "tl_term (last h) = t" "th_wf h" "tl_lsn (h ! 0) = 0"
    "k < length h \<Longrightarrow> \<exists>p'. g_hist g (tl_term (h ! k)) = Some (p', take (Suc k) h)"
    "2 \<le> card (acc3 (\<lambda>i. granted g p i t))"
  using assms unfolding hist_ok_def by blast+

lemma acc_okD:
  assumes "acc_ok g i"
  shows "v_hist (g_vs g i) = [] \<or> (\<exists>t p. g_hist g t = Some (p, v_hist (g_vs g i)) \<and> t \<le> v_term (g_vs g i))"
    "v_hist (g_vs g i) = [] \<Longrightarrow> v_empty (g_vs g i)"
    "v_empty (g_vs g i) \<Longrightarrow> v_log (g_vs g i) = [] \<and> v_lo (g_vs g i) = 0 \<and> g_acked g i t = 0"
    "written g (v_hist (g_vs g i)) (v_lo (g_vs g i)) (v_log (g_vs g i))"
    "settled g (v_term (g_vs g i)) (v_commit (g_vs g i))" "settled g (v_term (g_vs g i)) (v_hor (g_vs g i))"
    "settled g (v_term (g_vs g i)) (v_lo (g_vs g i))"
    "ok_at g i t \<Longrightarrow> t \<le> v_term (g_vs g i)"
    "ok_at g i t \<Longrightarrow> t = v_term (g_vs g i) \<Longrightarrow> \<exists>p. g_hist g t = Some (p, v_hist (g_vs g i))"
    "0 < g_acked g i t \<Longrightarrow> ok_at g i t" "g_acked g i (v_term (g_vs g i)) \<le> v_flush (g_vs g i)"
    "binding g i t e \<Longrightarrow> carries (up_to (v_hist (g_vs g i)) (v_flush (g_vs g i))) t e \<and> e \<le> v_flush (g_vs g i)"
  using assms unfolding acc_ok_def Let_def by blast+

lemma finite_acc3 [simp]: "finite (acc3 P)"
  by (simp add: acc3_def)

lemma acc3_subset: "acc3 P \<subseteq> {..<3}"
  by (auto simp: acc3_def)

lemma acc3_mono: "(\<And>i. i < 3 \<Longrightarrow> P i \<Longrightarrow> Q i) \<Longrightarrow> card (acc3 P) \<le> card (acc3 Q)"
  by (rule card_mono) (auto simp: acc3_def)

lemma acc3_meet:
  assumes "2 \<le> card (acc3 P)" "2 \<le> card (acc3 Q)"
  shows "\<exists>i<3. P i \<and> Q i"
  using two_of_three_intersect [OF acc3_subset acc3_subset assms] by (auto simp: acc3_def)

lemma settled_0 [simp]: "settled g t 0"
  by (simp add: settled_def)

lemma settled_le: "settled g t c \<Longrightarrow> c' \<le> c \<Longrightarrow> settled g t c'"
  unfolding settled_def by (metis le_trans le_zero_eq)

lemma settled_term: "settled g t c \<Longrightarrow> t \<le> t' \<Longrightarrow> settled g t' c"
  unfolding settled_def by (metis le_trans)

lemma settled_max: "settled g t a \<Longrightarrow> settled g t b \<Longrightarrow> settled g t (max a b)"
  by (simp add: max_def)

lemma chosen_settled: "chosen g t e \<Longrightarrow> settled g t e"
  by (auto simp: settled_def)

lemma chosen_choosable: "chosen g t e \<Longrightarrow> choosable g t e"
  unfolding chosen_def choosable_def
  using acc3_mono [of "\<lambda>i. e \<le> g_acked g i t" "\<lambda>i. e \<le> g_acked g i t \<or> v_term (g_vs g i) \<le> t"] by auto

lemma granted_term:
  assumes "cinv g" "granted g p i t"
  shows "i < 3 \<and> t \<le> v_term (g_vs g i)"
proof -
  obtain f llt h z c where r: "(p, i, VoteRequest t, VoteResponse t True f llt h z c) \<in> g_resps g"
    using assms(2) by (auto simp: granted_def)
  have "resp_ok g (p, i, VoteRequest t, VoteResponse t True f llt h z c)" using cinvD(3) [OF assms(1) r] .
  moreover have "req_ok g (p, i, VoteRequest t)" using cinvD(1,2) [OF assms(1)] r by blast
  ultimately show ?thesis by (simp add: vote_ok_def)
qed

text \<open>The voters of a won term have moved past every earlier term.\<close>

lemma voters_term:
  assumes "cinv g" "g_hist g t = Some (p, h)"
  shows "2 \<le> card (acc3 (\<lambda>i. t \<le> v_term (g_vs g i)))"
proof -
  have "card (acc3 (\<lambda>i. granted g p i t)) \<le> card (acc3 (\<lambda>i. t \<le> v_term (g_vs g i)))"
    using granted_term [OF assms(1)] by (intro acc3_mono) blast
  then show ?thesis using hist_okD(7) [OF cinvD(6) [OF assms]] by simp
qed

lemma ok_at_hist:
  assumes "cinv g" "ok_at g i t"
  shows "\<exists>p s h. i < 3 \<and> (p, i, Elected t s h) \<in> g_reqs g \<and> g_hist g t = Some (p, h)"
proof -
  obtain p s h where "(p, i, Elected t s h, ElectedResp t True) \<in> g_resps g"
    using assms(2) by (auto simp: ok_at_def)
  then have "(p, i, Elected t s h) \<in> g_reqs g" using cinvD(2) [OF assms(1)] by blast
  moreover from this have "req_ok g (p, i, Elected t s h)" using cinvD(1) [OF assms(1)] by blast
  ultimately show ?thesis by auto
qed

lemma acked_hist:
  assumes "cinv g" "i < 3" "0 < g_acked g i t"
  shows "\<exists>p h. g_hist g t = Some (p, h)" "ok_at g i t" "t \<le> v_term (g_vs g i)"
proof -
  show ok: "ok_at g i t" using acc_okD(10) [OF cinvD(5) [OF assms(1,2)] assms(3)] .
  show "\<exists>p h. g_hist g t = Some (p, h)" using ok_at_hist [OF assms(1) ok] by blast
  show "t \<le> v_term (g_vs g i)" using acc_okD(8) [OF cinvD(5) [OF assms(1,2)] ok] .
qed

section \<open>Monotone change\<close>

definition ext :: "gst \<Rightarrow> gst \<Rightarrow> bool" where
  "ext g g' \<longleftrightarrow> (\<forall>t x. g_hist g t = Some x \<longrightarrow> g_hist g' t = Some x) \<and>
     (\<forall>t q b. g_wr g t q = Some b \<longrightarrow> g_wr g' t q = Some b) \<and>
     (\<forall>i t. g_acked g i t \<le> g_acked g' i t) \<and> g_resps g \<subseteq> g_resps g' \<and> g_reqs g \<subseteq> g_reqs g' \<and>
     (\<forall>i. v_term (g_vs g i) \<le> v_term (g_vs g' i)) \<and> (\<forall>i. v_hist (g_vs g i) \<noteq> [] \<longrightarrow> v_hist (g_vs g' i) \<noteq> []) \<and>
     (\<forall>i t. g_acked g' i t = g_acked g i t \<or> v_term (g_vs g i) \<le> t)"

lemma extD:
  assumes "ext g g'"
  shows "g_hist g t = Some x \<Longrightarrow> g_hist g' t = Some x" "g_wr g t q = Some b \<Longrightarrow> g_wr g' t q = Some b"
    "g_acked g i t \<le> g_acked g' i t" "y \<in> g_resps g \<Longrightarrow> y \<in> g_resps g'" "z \<in> g_reqs g \<Longrightarrow> z \<in> g_reqs g'"
    "v_term (g_vs g i) \<le> v_term (g_vs g' i)" "v_hist (g_vs g i) \<noteq> [] \<Longrightarrow> v_hist (g_vs g' i) \<noteq> []"
    "g_acked g' i t = g_acked g i t \<or> v_term (g_vs g i) \<le> t"
  using assms unfolding ext_def by blast+

lemma ext_start: "ext g g' \<Longrightarrow> g_hist g t = Some x \<Longrightarrow> g_start g' t = g_start g t"
  using extD(1) [of g g' t x] by (simp add: g_start_def)

lemma ext_chosen: "ext g g' \<Longrightarrow> chosen g t e \<Longrightarrow> chosen g' t e"
proof -
  assume e: "ext g g'" and c: "chosen g t e"
  then obtain x where x: "g_hist g t = Some x" by (auto simp: chosen_def)
  have "card (acc3 (\<lambda>i. e \<le> g_acked g i t)) \<le> card (acc3 (\<lambda>i. e \<le> g_acked g' i t))"
    using extD(3) [OF e] le_trans by (intro acc3_mono) blast
  then show ?thesis using c x extD(1) [OF e x] ext_start [OF e x] by (simp add: chosen_def)
qed

lemma ext_settled: "ext g g' \<Longrightarrow> settled g t c \<Longrightarrow> settled g' t c"
  unfolding settled_def using ext_chosen by blast

lemma ext_choosable: "ext g g' \<Longrightarrow> choosable g' t e \<Longrightarrow> choosable g t e"
proof -
  assume e: "ext g g'" and c: "choosable g' t e"
  have "e \<le> g_acked g i t \<or> v_term (g_vs g i) \<le> t" if "e \<le> g_acked g' i t \<or> v_term (g_vs g' i) \<le> t" for i
    using that extD(6) [OF e, of i] extD(8) [OF e, of i t] by auto
  then have "card (acc3 (\<lambda>i. e \<le> g_acked g' i t \<or> v_term (g_vs g' i) \<le> t))
      \<le> card (acc3 (\<lambda>i. e \<le> g_acked g i t \<or> v_term (g_vs g i) \<le> t))"
    by (intro acc3_mono) blast
  then show ?thesis using c by (simp add: choosable_def)
qed

lemma ext_superseded: "ext g g' \<Longrightarrow> superseded g p t \<Longrightarrow> superseded g' p t"
  unfolding superseded_def using extD(1) by blast

lemma ext_written: "ext g g' \<Longrightarrow> written g h a bs \<Longrightarrow> written g' h a bs"
  unfolding written_def using extD(2) by blast

lemma ext_ok_at: "ext g g' \<Longrightarrow> ok_at g i t \<Longrightarrow> ok_at g' i t"
  unfolding ok_at_def using extD(4) by blast

lemma ext_granted: "ext g g' \<Longrightarrow> granted g p i t \<Longrightarrow> granted g' p i t"
  unfolding granted_def using extD(4) by blast

lemma ext_no_elected: "ext g g' \<Longrightarrow> no_elected g' t \<Longrightarrow> no_elected g t"
  unfolding no_elected_def using extD(5) by blast

lemma ext_snap_hist: "ext g g' \<Longrightarrow> snap_hist g h f \<Longrightarrow> snap_hist g' h f"
  unfolding snap_hist_def using extD(1) by blast

lemma ext_vote_fields: "ext g g' \<Longrightarrow> vote_fields g i f llt h \<Longrightarrow> vote_fields g' i f llt h"
  unfolding vote_fields_def using ext_snap_hist extD(7) by blast

lemma ext_votes_ok: "ext g g' \<Longrightarrow> votes_ok g p t votes \<Longrightarrow> votes_ok g' p t votes"
  unfolding votes_ok_def using extD(4) by blast

lemma ext_election_ok: "ext g g' \<Longrightarrow> election_ok g p el \<Longrightarrow> election_ok g' p el"
  unfolding election_ok_def using extD(1) by blast

lemma ext_hist_ok: "ext g g' \<Longrightarrow> hist_ok g t p h \<Longrightarrow> hist_ok g' t p h"
proof -
  assume e: "ext g g'" and h: "hist_ok g t p h"
  have "card (acc3 (\<lambda>i. granted g p i t)) \<le> card (acc3 (\<lambda>i. granted g' p i t))"
    using ext_granted [OF e] by (intro acc3_mono) blast
  moreover have "\<forall>k<length h. \<exists>p'. g_hist g' (tl_term (h ! k)) = Some (p', take (Suc k) h)"
    using hist_okD(6) [OF h] extD(1) [OF e] by meson
  ultimately show ?thesis using h by (simp add: hist_ok_def)
qed

lemma ext_binding:
  assumes "cinv g" "ext g g'" "i < 3" "binding g' i t e" "t < v_term (g_vs g i)"
  shows "binding g i t e"
proof -
  have a: "g_acked g' i t = g_acked g i t" using extD(8) [OF assms(2), of i t] assms(5) by auto
  then have "0 < g_acked g i t" using assms(4) by (auto simp: binding_def)
  then obtain x where "g_hist g t = Some x" using acked_hist(1) [OF assms(1,3)] by blast
  then have "g_start g' t = g_start g t" using ext_start [OF assms(2)] by blast
  then show ?thesis using assms(4) a ext_choosable [OF assms(2)] by (simp add: binding_def)
qed

end
