(* ===== verification/ClusterQuiet.thy ===== *)
theory ClusterQuiet
  imports ClusterInv
begin

text \<open>
  Steps of a proposer process that leave the acceptors, the won terms and the written bytes
  alone: what has to be shown of the new process state and of the new requests.
\<close>

section \<open>Introduction and elimination for the clause of a leading process\<close>

lemma leader_okD:
  assumes "leader_ok g p l"
  shows "shared_wf (ld_sh l)" "x \<in> set (ld_els l) \<Longrightarrow> election_ok g p x" "election_ok g p (sh_election (ld_sh l))"
    "el_term (sh_election (ld_sh l)) < t' \<Longrightarrow> g_hist g t' \<noteq> Some (p, h)"
    "el_term_start_lsn (sh_election (ld_sh l)) \<le> lb_head (sh_log (ld_sh l))"
    "settled g (el_term (sh_election (ld_sh l))) (lb_base (sh_log (ld_sh l)))"
    "settled g (el_term (sh_election (ld_sh l))) (sh_horizon (ld_sh l))"
    "settled g (el_term (sh_election (ld_sh l))) (sh_commit (ld_sh l))"
    "written g (el_history (sh_election (ld_sh l))) (lb_base (sh_log (ld_sh l))) (rm_bytes (lb_records (sh_log (ld_sh l))))"
    "lb_head (sh_log (ld_sh l)) \<le> q \<Longrightarrow> g_wr g (el_term (sh_election (ld_sh l))) q = None"
    "i < 3 \<Longrightarrow> g_acked g i (el_term (sh_election (ld_sh l))) \<le> lb_head (sh_log (ld_sh l))"
    "i < 3 \<Longrightarrow> p_flush (sh_peers (ld_sh l) ! i) \<le> g_acked g i (el_term (sh_election (ld_sh l))) \<or>
       settled g (el_term (sh_election (ld_sh l))) (p_flush (sh_peers (ld_sh l) ! i))"
    "length (ld_conn l) = 3" "i < 3 \<Longrightarrow> ld_conn l ! i = Some t' \<Longrightarrow> ok_at g i t'"
    "ld_cand l = Some (t', votes) \<Longrightarrow> el_term (sh_election (ld_sh l)) < t'"
    "ld_cand l = Some (t', votes) \<Longrightarrow> votes_ok g p t' votes"
  using assms unfolding leader_ok_def Let_def by auto

lemma leader_okI:
  assumes "shared_wf (ld_sh l)" "\<And>x. x \<in> set (ld_els l) \<Longrightarrow> election_ok g p x"
    "election_ok g p (sh_election (ld_sh l))"
    "\<And>t' h. el_term (sh_election (ld_sh l)) < t' \<Longrightarrow> g_hist g t' \<noteq> Some (p, h)"
    "el_term_start_lsn (sh_election (ld_sh l)) \<le> lb_head (sh_log (ld_sh l))"
    "settled g (el_term (sh_election (ld_sh l))) (lb_base (sh_log (ld_sh l)))"
    "settled g (el_term (sh_election (ld_sh l))) (sh_horizon (ld_sh l))"
    "settled g (el_term (sh_election (ld_sh l))) (sh_commit (ld_sh l))"
    "written g (el_history (sh_election (ld_sh l))) (lb_base (sh_log (ld_sh l))) (rm_bytes (lb_records (sh_log (ld_sh l))))"
    "\<And>q. lb_head (sh_log (ld_sh l)) \<le> q \<Longrightarrow> g_wr g (el_term (sh_election (ld_sh l))) q = None"
    "\<And>i. i < 3 \<Longrightarrow> g_acked g i (el_term (sh_election (ld_sh l))) \<le> lb_head (sh_log (ld_sh l))"
    "\<And>i. i < 3 \<Longrightarrow> p_flush (sh_peers (ld_sh l) ! i) \<le> g_acked g i (el_term (sh_election (ld_sh l))) \<or>
       settled g (el_term (sh_election (ld_sh l))) (p_flush (sh_peers (ld_sh l) ! i))"
    "length (ld_conn l) = 3" "\<And>i t'. i < 3 \<Longrightarrow> ld_conn l ! i = Some t' \<Longrightarrow> ok_at g i t'"
    "\<And>t' votes. ld_cand l = Some (t', votes) \<Longrightarrow> el_term (sh_election (ld_sh l)) < t' \<and> votes_ok g p t' votes"
  shows "leader_ok g p l"
  using assms unfolding leader_ok_def Let_def by simp

section \<open>Carrying the clauses over a monotone change\<close>

definition frozen :: "gst \<Rightarrow> gst \<Rightarrow> nat \<Rightarrow> bool" where
  "frozen g g' i \<longleftrightarrow> (v_term (g_vs g' i) = v_term (g_vs g i) \<longrightarrow> no_elected g' (v_term (g_vs g i)) \<longrightarrow>
     v_flush (g_vs g' i) = v_flush (g_vs g i) \<and>
     up_to (v_hist (g_vs g' i)) (v_flush (g_vs g i)) = up_to (v_hist (g_vs g i)) (v_flush (g_vs g i)))"

lemma ext_vote_ok:
  assumes inv: "cinv g" and e: "ext g g'" and i: "i < 3" and fz: "frozen g g' i"
    and v: "vote_ok g i t f llt h z"
  shows "vote_ok g' i t f llt h z"
proof -
  have t: "t \<le> v_term (g_vs g i)" using v by (simp add: vote_ok_def)
  have "carries h t0 x \<and> x \<le> f" if "t0 < t" "binding g' i t0 x" for t0 x
    using v ext_binding [OF inv e i that(2)] that(1) t by (auto simp: vote_ok_def)
  moreover have "v_flush (g_vs g' i) = f \<and> up_to (v_hist (g_vs g' i)) f = h"
    if "v_term (g_vs g' i) = t" "no_elected g' t"
  proof -
    have "v_term (g_vs g i) = t" using that(1) t extD(6) [OF e, of i] by simp
    moreover have "no_elected g t" using ext_no_elected [OF e that(2)] .
    ultimately have "v_flush (g_vs g i) = f" "up_to (v_hist (g_vs g i)) f = h"
      using v by (auto simp: vote_ok_def)
    then show ?thesis using fz that \<open>v_term (g_vs g i) = t\<close> by (auto simp: frozen_def)
  qed
  ultimately show ?thesis
    using v t extD(6) [OF e, of i] ext_settled [OF e, of t z] unfolding vote_ok_def by fastforce
qed

lemma ext_resp_ok:
  assumes inv: "cinv g" and e: "ext g g'" and r: "(p, i, m, r) \<in> g_resps g" and fz: "i < 3 \<Longrightarrow> frozen g g' i"
    and rd: "\<And>a b a' rs. m = Read a b \<Longrightarrow> r = ReadResp a' rs \<Longrightarrow> resp_ok g' (p, i, m, r)"
  shows "resp_ok g' (p, i, m, r)"
proof -
  have old: "resp_ok g (p, i, m, r)" and rq: "req_ok g (p, i, m)" using cinvD(1-3) [OF inv] r by blast+
  show ?thesis
  proof (cases m)
    case (VoteRequest t)
    then have i: "i < 3" using rq by simp
    show ?thesis
    proof (cases r)
      case (VoteResponse t' ok f llt h z c)
      then show ?thesis
        using old VoteRequest ext_vote_fields [OF e] ext_vote_ok [OF inv e i fz [OF i]] by auto
    qed (use VoteRequest in simp_all)
  next
    case (Elected t s h)
    show ?thesis
    proof (cases r)
      case (ElectedResp t' ok)
      then show ?thesis
        using old Elected ext_settled [OF e, of t s] ext_superseded [OF e, of p t] extD(3) [OF e, of i t] by auto
    qed (use Elected in simp_all)
  next
    case (Append t b x c z rs)
    show ?thesis
    proof (cases r)
      case (AppendResp t' ok f c')
      then show ?thesis using old Append extD(3) [OF e, of i t] by auto
    qed (use Append in simp_all)
  next
    case (Read a b)
    show ?thesis
    proof (cases r)
      case (ReadResp a' rs)
      then show ?thesis using rd Read by blast
    qed (use Read in simp_all)
  qed (use rq in simp_all)
qed

lemma ext_req_ok:
  assumes e: "ext g g'" and r: "req_ok g (p, i, m)"
    and rd: "\<And>a b. m = Read a b \<Longrightarrow> req_ok g' (p, i, m)"
  shows "req_ok g' (p, i, m)"
proof (cases m)
  case (Elected t s h)
  then show ?thesis
    using r extD(1,7) [OF e] ext_settled [OF e, of t s] ext_superseded [OF e, of p t] by auto
next
  case (Append t b x c z rs)
  then show ?thesis
    using r ext_ok_at [OF e] ext_settled [OF e, of t] extD(3) [OF e, of i t] extD(1) [OF e] ext_written [OF e]
    by (fastforce intro: le_trans)
next
  case (Read a b)
  then show ?thesis using rd by blast
qed (use r in simp_all)

text \<open>The other processes: nothing they rely on moved.\<close>

lemma ext_leader_ok:
  assumes inv: "cinv g" and e: "ext g g'" and l: "leader_ok g p l"
    and own: "\<And>t h. g_hist g' t = Some (p, h) \<Longrightarrow> g_hist g t = Some (p, h)"
    and wr: "\<And>q. lb_head (sh_log (ld_sh l)) \<le> q \<Longrightarrow> g_wr g' (el_term (sh_election (ld_sh l))) q = None"
    and ack: "\<And>i. i < 3 \<Longrightarrow> g_acked g' i (el_term (sh_election (ld_sh l))) \<le> lb_head (sh_log (ld_sh l))"
  shows "leader_ok g' p l"
proof (rule leader_okI)
  let ?sh = "ld_sh l" and ?t = "el_term (sh_election (ld_sh l))"
  note d = leader_okD [OF l]
  show "shared_wf ?sh" "el_term_start_lsn (sh_election ?sh) \<le> lb_head (sh_log ?sh)" "length (ld_conn l) = 3"
    using d(1,5,13) by blast+
  show "election_ok g' p (sh_election ?sh)" "\<And>x. x \<in> set (ld_els l) \<Longrightarrow> election_ok g' p x"
    using d(2,3) ext_election_ok [OF e] by blast+
  show "\<And>t' h. ?t < t' \<Longrightarrow> g_hist g' t' \<noteq> Some (p, h)" using d(4) own by blast
  show "settled g' ?t (lb_base (sh_log ?sh))" "settled g' ?t (sh_horizon ?sh)" "settled g' ?t (sh_commit ?sh)"
    using d(6-8) ext_settled [OF e] by blast+
  show "written g' (el_history (sh_election ?sh)) (lb_base (sh_log ?sh)) (rm_bytes (lb_records (sh_log ?sh)))"
    using d(9) ext_written [OF e] by blast
  show "\<And>i. i < 3 \<Longrightarrow> p_flush (sh_peers ?sh ! i) \<le> g_acked g' i ?t \<or> settled g' ?t (p_flush (sh_peers ?sh ! i))"
    using d(12) ext_settled [OF e] extD(3) [OF e] le_trans by blast
  show "\<And>i t'. i < 3 \<Longrightarrow> ld_conn l ! i = Some t' \<Longrightarrow> ok_at g' i t'" using d(14) ext_ok_at [OF e] by blast
  show "\<And>t' votes. ld_cand l = Some (t', votes) \<Longrightarrow> ?t < t' \<and> votes_ok g' p t' votes"
    using d(15,16) ext_votes_ok [OF e] by blast
qed (use wr ack in blast)+

section \<open>Quiet steps\<close>

lemma quiet_ext: "ext g (g\<lparr>g_procs := P, g_reqs := g_reqs g \<union> R\<rparr>)"
  by (auto simp: ext_def)

lemma quiet_same [simp]:
  "settled (g\<lparr>g_procs := P, g_reqs := R\<rparr>) = settled g" "choosable (g\<lparr>g_procs := P, g_reqs := R\<rparr>) = choosable g"
  "binding (g\<lparr>g_procs := P, g_reqs := R\<rparr>) = binding g" "written (g\<lparr>g_procs := P, g_reqs := R\<rparr>) = written g"
  "ok_at (g\<lparr>g_procs := P, g_reqs := R\<rparr>) = ok_at g" "granted (g\<lparr>g_procs := P, g_reqs := R\<rparr>) = granted g"
  "g_start (g\<lparr>g_procs := P, g_reqs := R\<rparr>) = g_start g"
  "votes_ok (g\<lparr>g_procs := P, g_reqs := R\<rparr>) = votes_ok g"
  "election_ok (g\<lparr>g_procs := P, g_reqs := R\<rparr>) = election_ok g"
  "hist_ok (g\<lparr>g_procs := P, g_reqs := R\<rparr>) = hist_ok g"
  "acc_ok (g\<lparr>g_procs := P, g_reqs := R\<rparr>) = acc_ok g"
  "leader_ok (g\<lparr>g_procs := P, g_reqs := R\<rparr>) = leader_ok g"
  by (intro ext; simp add: settled_def chosen_def choosable_def binding_def written_def ok_at_def granted_def
      g_start_def votes_ok_def election_ok_def hist_ok_def acc_ok_def leader_ok_def Let_def)+

lemma quiet_proc_ok:
  assumes inv: "cinv g" and R: "\<And>p' i t s h. (p', i, Elected t s h) \<in> R \<Longrightarrow> g_hist g t \<noteq> None \<and> fst (the (g_hist g t)) \<noteq> q"
  shows "proc_ok (g\<lparr>g_procs := P, g_reqs := g_reqs g \<union> R\<rparr>) q (g_procs g q)"
proof (cases "g_procs g q")
  case (Recovering t donor ts tr h bs)
  then have ok: "proc_ok g q (Recovering t donor ts tr h bs)" using cinvD(4) [OF inv, of q] by simp
  then have "g_hist g t = Some (q, h)" "no_elected g t" by simp_all
  then have "no_elected (g\<lparr>g_procs := P, g_reqs := g_reqs g \<union> R\<rparr>) t"
    unfolding no_elected_def using R by fastforce
  then show ?thesis using ok Recovering by simp
qed (use cinvD(4) [OF inv, of q] in simp_all)

lemma quiet_step:
  assumes inv: "cinv g" and g': "g' = g\<lparr>g_procs := (g_procs g)(p := x), g_reqs := g_reqs g \<union> R\<rparr>"
    and R: "\<And>y. y \<in> R \<Longrightarrow> fst y = p \<and> req_ok g' y"
    and x: "proc_ok g' p x"
    and rq: "\<And>i a b. (p, i, Read a b) \<in> g_reqs g \<Longrightarrow> req_ok g' (p, i, Read a b)"
    and rd: "\<And>i a b a' rs. (p, i, Read a b, ReadResp a' rs) \<in> g_resps g \<Longrightarrow>
               resp_ok g' (p, i, Read a b, ReadResp a' rs)"
  shows "cinv g'"
proof -
  have e: "ext g g'" unfolding g' by (rule quiet_ext)
  have fields [simp]: "g_resps g' = g_resps g" "g_hist g' = g_hist g" "g_wr g' = g_wr g" "g_vs g' = g_vs g"
    "g_procs g' = (g_procs g)(p := x)" "g_reqs g' = g_reqs g \<union> R"
    by (simp_all add: g')
  have reqs: "req_ok g' y" if "y \<in> g_reqs g'" for y
  proof (cases "y \<in> R")
    case False
    then obtain p' i m where y: "y = (p', i, m)" "(p', i, m) \<in> g_reqs g" using \<open>y \<in> g_reqs g'\<close>
      by (cases y) auto
    have old: "req_ok g (p', i, m)" using cinvD(1) [OF inv y(2)] .
    have "req_ok g' (p', i, m)" if "m = Read a b" for a b
    proof (cases "p' = p")
      case True
      then show ?thesis using rq y(2) that by blast
    qed (use old that in simp)
    then show ?thesis unfolding y(1) by (rule ext_req_ok [OF e old])
  qed (use R in blast)
  have resps: "resp_ok g' (p', i, m, r)" if "(p', i, m, r) \<in> g_resps g" for p' i m r
  proof (rule ext_resp_ok [OF inv e that])
    show "frozen g g' i" by (simp add: frozen_def)
    show "resp_ok g' (p', i, m, r)" if m: "m = Read a b" "r = ReadResp a' rs" for a b a' rs
    proof (cases "p' = p")
      case True
      then show ?thesis using rd m \<open>(p', i, m, r) \<in> g_resps g\<close> by blast
    next
      case False
      then show ?thesis using cinvD(3) [OF inv \<open>(p', i, m, r) \<in> g_resps g\<close>] m
        by (simp add: written_def split: proc.splits)
    qed
  qed
  have procs: "proc_ok g' q (g_procs g' q)" for q
  proof (cases "q = p")
    case True
    then show ?thesis using x by simp
  next
    case False
    have "g_hist g t \<noteq> None \<and> fst (the (g_hist g t)) \<noteq> q" if "(p', i, Elected t s h) \<in> R" for p' i t s h
      using R [OF that] False by auto
    then show ?thesis using quiet_proc_ok [OF inv, of R q] False unfolding g' by simp
  qed
  have same: "acc_ok g' = acc_ok g" "hist_ok g' = hist_ok g" "choosable g' = choosable g" "g_start g' = g_start g"
    "granted g' = granted g"
    unfolding g' by simp_all
  show ?thesis
    unfolding cinv_def
  proof (intro conjI)
    show "\<forall>x\<in>g_reqs g'. req_ok g' x" using reqs by blast
    show "\<forall>p i m r. (p, i, m, r) \<in> g_resps g' \<longrightarrow> (p, i, m) \<in> g_reqs g' \<and> resp_ok g' (p, i, m, r)"
      using resps cinvD(2) [OF inv] by auto
    show "\<forall>p. proc_ok g' p (g_procs g' p)" using procs by blast
    show "\<forall>i<3. acc_ok g' i" using cinvD(5) [OF inv] same by simp
    show "\<forall>t p h. g_hist g' t = Some (p, h) \<longrightarrow> hist_ok g' t p h" using cinvD(6) [OF inv] same by simp
    show "key_inv g'" using cinvD(7) [OF inv] same by (simp add: key_inv_def)
    show "grants_unique g'" using cinvD(8) [OF inv] same by (simp add: grants_unique_def)
    show "\<forall>t. g_hist g' t = None \<longrightarrow> g_wr g' t = Map.empty" using cinvD(9) [OF inv] by (auto simp: fun_eq_iff)
  qed
qed

section \<open>The reads of a process\<close>

lemma no_reads:
  assumes inv: "cinv g" and x: "case g_procs g p of Idle \<Rightarrow> True | Campaigning _ _ \<Rightarrow> True | _ \<Rightarrow> False"
  shows "(p, i, Read a b) \<notin> g_reqs g" "(p, i, Read a b, r) \<notin> g_resps g"
proof -
  show n: "(p, i, Read a b) \<notin> g_reqs g" using cinvD(1) [OF inv, of "(p, i, Read a b)"] x
    by (auto split: proc.splits)
  show "(p, i, Read a b, r) \<notin> g_resps g" using n cinvD(2) [OF inv] by blast
qed

lemma quiet_step_done:
  assumes inv: "cinv g" and g': "g' = g\<lparr>g_procs := (g_procs g)(p := x), g_reqs := g_reqs g \<union> R\<rparr>"
    and R: "\<And>y. y \<in> R \<Longrightarrow> fst y = p \<and> req_ok g' y"
    and x: "proc_ok g' p x" "case x of Leading _ \<Rightarrow> True | Dead \<Rightarrow> True | _ \<Rightarrow> False"
  shows "cinv g'"
proof (rule quiet_step [OF inv g' R x(1)])
  have px: "g_procs g' p = x" by (simp add: g')
  show "req_ok g' (p, i, Read a b)" if "(p, i, Read a b) \<in> g_reqs g" for i a b
    using cinvD(1) [OF inv that] x(2) px by (auto split: proc.splits)
  show "resp_ok g' (p, i, Read a b, ReadResp a' rs)" if "(p, i, Read a b, ReadResp a' rs) \<in> g_resps g" for i a b a' rs
    using cinvD(3) [OF inv that] x(2) px by (auto split: proc.splits)
qed

lemma quiet_step_early:
  assumes inv: "cinv g" and g': "g' = g\<lparr>g_procs := (g_procs g)(p := x), g_reqs := g_reqs g \<union> R\<rparr>"
    and R: "\<And>y. y \<in> R \<Longrightarrow> fst y = p \<and> req_ok g' y"
    and x: "proc_ok g' p x" "case g_procs g p of Idle \<Rightarrow> True | Campaigning _ _ \<Rightarrow> True | _ \<Rightarrow> False"
  shows "cinv g'"
  by (rule quiet_step [OF inv g' R x(1)]) (use no_reads [OF inv x(2)] in blast)+

end
