(* ===== verification/ClusterLead.thy ===== *)
theory ClusterLead
  imports ClusterQuiet
begin

text \<open>The quiet events one by one: campaigning, recovering, streaming, acknowledgements, coverage.\<close>

section \<open>Abstraction of the state updates\<close>

lemma abs_fields [simp]:
  "g_vs (cluster_abs vw s) = (\<lambda>i. vw (cl_acc s i))" "g_reqs (cluster_abs vw s) = set (cl_reqs s)"
  "g_resps (cluster_abs vw s) = set (cl_resps s)" "g_procs (cluster_abs vw s) = cl_procs s"
  "g_hist (cluster_abs vw s) = gh_hist s" "g_wr (cluster_abs vw s) = gh_wr s"
  "g_acked (cluster_abs vw s) = gh_acked s"
  by (simp_all add: cluster_abs_def)

lemma abs_send_proc:
  "cluster_abs vw (send (set_proc s p x) ms) =
     (cluster_abs vw s)\<lparr>g_procs := (g_procs (cluster_abs vw s))(p := x),
                        g_reqs := g_reqs (cluster_abs vw s) \<union> set ms\<rparr>"
  by (simp add: cluster_abs_def send_def set_proc_def)

lemma abs_set_proc:
  "cluster_abs vw (set_proc s p x) =
     (cluster_abs vw s)\<lparr>g_procs := (g_procs (cluster_abs vw s))(p := x),
                        g_reqs := g_reqs (cluster_abs vw s) \<union> {}\<rparr>"
  by (simp add: cluster_abs_def set_proc_def)

lemma abs_send:
  "cl_procs s p = x \<Longrightarrow> cluster_abs vw (send s ms) =
     (cluster_abs vw s)\<lparr>g_procs := (g_procs (cluster_abs vw s))(p := x),
                        g_reqs := g_reqs (cluster_abs vw s) \<union> set ms\<rparr>"
  by (auto simp: cluster_abs_def send_def)

lemma response_mem: "response s p k = Some (i, m, r) \<Longrightarrow> (p, i, m, r) \<in> set (cl_resps s)"
  unfolding response_def by (cases "cl_resps s ! k") (auto split: if_splits dest: nth_mem)

lemma die_inv: "cinv (cluster_abs vw s) \<Longrightarrow> cinv (cluster_abs vw (set_proc s p Dead))"
  by (rule quiet_step_done [OF _ abs_set_proc]) auto

section \<open>Campaigning and recovering\<close>

lemma broadcast_mem: "y \<in> set (broadcast p m) \<longleftrightarrow> (\<exists>i<3. y = (p, i, m))"
  by (auto simp: broadcast_def QUORUM_SIZE_def)

lemma votes_ok_empty: "votes_ok g p t (replicate QUORUM_SIZE None)"
  by (simp add: votes_ok_def QUORUM_SIZE_def)

lemma campaign_inv:
  assumes inv: "cinv (cluster_abs vw s)" and "cl_procs s p = Idle" "0 < t"
  shows "cinv (cluster_abs vw (send (set_proc s p (Campaigning t (replicate QUORUM_SIZE None)))
                                 (broadcast p (VoteRequest t))))"
proof (rule quiet_step_early [OF inv abs_send_proc])
  show "proc_ok (cluster_abs vw (send (set_proc s p (Campaigning t (replicate QUORUM_SIZE None)))
          (broadcast p (VoteRequest t)))) p (Campaigning t (replicate QUORUM_SIZE None))"
    using cinvD(4) [OF inv, of p] assms(2,3) votes_ok_empty
    by (simp add: send_def set_proc_def)
qed (use assms(2,3) in \<open>auto simp: broadcast_mem\<close>)

lemma open_votes_single:
  assumes "open_votes t [Some (Inr m)] = Inr vs"
  shows "\<exists>t' f llt h z c. m = VoteResponse t' True f llt h z c \<and> t' \<le> t \<and>
    vs = [Some \<lparr>vt_flush = f, vt_last_log_term = llt, vt_history = h, vt_horizon = z\<rparr>]"
  using assms by (auto split: message.splits if_splits)

lemma votes_ok_update:
  assumes inv: "cinv g" and v: "votes_ok g p t votes" and r: "(p, i, VoteRequest t, VoteResponse t' True f llt h z c) \<in> g_resps g"
  shows "votes_ok g p t (votes[i := Some \<lparr>vt_flush = f, vt_last_log_term = llt, vt_history = h, vt_horizon = z\<rparr>])"
proof -
  have "t' = t" using cinvD(3) [OF inv r] by simp
  then have "\<exists>c. (p, i, VoteRequest t, VoteResponse t True f llt h z c) \<in> g_resps g" using r by blast
  note mine = this
  show ?thesis unfolding votes_ok_def
  proof (intro conjI allI impI)
    show "length (votes[i := Some \<lparr>vt_flush = f, vt_last_log_term = llt, vt_history = h, vt_horizon = z\<rparr>]) = 3"
      using v by (simp add: votes_ok_def)
    fix j x assume j: "j < 3"
      and x: "votes[i := Some \<lparr>vt_flush = f, vt_last_log_term = llt, vt_history = h, vt_horizon = z\<rparr>] ! j = Some x"
    show "\<exists>c. (p, j, VoteRequest t, VoteResponse t True (vt_flush x) (vt_last_log_term x) (vt_history x)
            (vt_horizon x) c) \<in> g_resps g"
    proof (cases "j = i")
      case True
      then have "x = \<lparr>vt_flush = f, vt_last_log_term = llt, vt_history = h, vt_horizon = z\<rparr>"
        using x j v by (simp add: votes_ok_def)
      then show ?thesis using mine True by simp
    next
      case False
      then show ?thesis using x j v by (simp add: votes_ok_def)
    qed
  qed
qed

lemma take_vote_inv:
  assumes inv: "cinv (cluster_abs vw s)" and res: "take_vote s p k = Some s'"
  shows "cinv (cluster_abs vw s')"
proof -
  obtain t votes i m where p: "cl_procs s p = Campaigning t votes" and r: "response s p k = Some (i, VoteRequest t, m)"
    using res unfolding take_vote_def by (auto split: proc.splits option.splits prod.splits message.splits if_splits)
  note mem = response_mem [OF r]
  have ok: "votes_ok (cluster_abs vw s) p t votes" "0 < t" "\<forall>t h. gh_hist s t \<noteq> Some (p, h)"
    using cinvD(4) [OF inv, of p] p by auto
  show ?thesis
  proof (cases "open_votes t [Some (Inr m)]")
    case (Inl e)
    then have "s' = set_proc s p Dead" using res p r by (simp add: take_vote_def)
    then show ?thesis using die_inv [OF inv] by simp
  next
    case (Inr vs)
    then obtain t' f llt h z c where m: "m = VoteResponse t' True f llt h z c"
      and vs: "vs = [Some \<lparr>vt_flush = f, vt_last_log_term = llt, vt_history = h, vt_horizon = z\<rparr>]"
      using open_votes_single by blast
    let ?x = "Campaigning t (votes[i := vs ! 0])"
    have s': "s' = set_proc s p ?x" using res p r Inr by (simp add: take_vote_def)
    have new: "votes_ok (cluster_abs vw s) p t (votes[i := vs ! 0])"
      using votes_ok_update [OF inv ok(1)] mem m vs by simp
    show ?thesis unfolding s'
    proof (rule quiet_step_early [OF inv abs_set_proc])
      show "proc_ok (cluster_abs vw (set_proc s p ?x)) p ?x"
        using ok new unfolding abs_set_proc by simp
    qed (use p in simp_all)
  qed
qed

lemma read_request_mem: "y \<in> set (read_request p d pos ts) \<Longrightarrow> \<exists>b\<le>ts. y = (p, d, Read pos b)"
  by (auto simp: read_request_def split: if_splits)

lemma written_append:
  "written g h a (bs @ cs) \<longleftrightarrow> written g h a bs \<and> written g h (a + length bs) cs"
proof -
  have "written g h a (bs @ cs)" if "written g h a bs" "written g h (a + length bs) cs"
    unfolding written_def
  proof (intro allI impI)
    fix j assume j: "j < length (bs @ cs)"
    show "g_wr g (last_log_term h (a + j)) (a + j) = Some ((bs @ cs) ! j)"
    proof (cases "j < length bs")
      case True
      then show ?thesis using that(1) by (simp add: written_def nth_append)
    next
      case False
      then obtain n where n: "j = length bs + n" "n < length cs" using j by (metis add_diff_inverse_nat length_append nat_add_left_cancel_less)
      then have "g_wr g (last_log_term h (a + length bs + n)) (a + length bs + n) = Some (cs ! n)"
        using that(2) unfolding written_def by blast
      then show ?thesis using n by (simp add: add.assoc nth_append)
    qed
  qed
  moreover have "written g h a bs" "written g h (a + length bs) cs" if w: "written g h a (bs @ cs)"
  proof -
    show "written g h a bs" using w by (force simp: written_def nth_append)
    show "written g h (a + length bs) cs"
      unfolding written_def
    proof (intro allI impI)
      fix j assume "j < length cs"
      then have "g_wr g (last_log_term h (a + (length bs + j))) (a + (length bs + j)) = Some ((bs @ cs) ! (length bs + j))"
        using w by (auto simp: written_def)
      then show "g_wr g (last_log_term h (a + length bs + j)) (a + length bs + j) = Some (cs ! j)"
        by (simp add: add.assoc)
    qed
  qed
  ultimately show ?thesis by blast
qed

lemma written_take: "written g h a bs \<Longrightarrow> written g h a (take n bs)"
  by (simp add: written_def)

lemma take_read_inv:
  assumes inv: "cinv (cluster_abs vw s)" and res: "take_read s p k = Some s'"
  shows "cinv (cluster_abs vw s')"
proof -
  let ?g = "cluster_abs vw s"
  obtain t d ts tr h bs i a b a' rs where p: "cl_procs s p = Recovering t d ts tr h bs"
    and r: "response s p k = Some (i, Read a b, ReadResp a' rs)" and ai: "i = d" "a = tr + length bs"
    using res unfolding take_read_def by (auto split: proc.splits option.splits prod.splits message.splits if_splits)
  note mem = response_mem [OF r]
  have ok: "proc_ok ?g p (Recovering t d ts tr h bs)" using cinvD(4) [OF inv, of p] p by simp
  show ?thesis
  proof (cases "a' \<noteq> a \<or> rs = [] \<or> a + length rs > b")
    case True
    then have "s' = set_proc s p Dead" using res p r ai by (auto simp: take_read_def)
    then show ?thesis using die_inv [OF inv] by simp
  next
    case False
    let ?x = "Recovering t d ts tr h (bs @ rs)"
    have s': "s' = send (set_proc s p ?x) (read_request p d (a + length rs) ts)"
      using False res p r ai by (auto simp: take_read_def)
    have rq: "req_ok ?g (p, i, Read a b)" using cinvD(1,2) [OF inv] mem by (metis abs_fields(3))
    then have b: "b \<le> ts" "d < 3" using p ai by auto
    have "resp_ok ?g (p, i, Read a b, ReadResp a' rs)" using cinvD(3) [OF inv] mem by (metis abs_fields(3))
    then have w: "written ?g h a rs" using p ai b False by auto
    show ?thesis unfolding s'
    proof (rule quiet_step [OF inv abs_send_proc])
      show "proc_ok (cluster_abs vw (send (set_proc s p ?x) (read_request p d (a + length rs) ts))) p ?x"
      proof -
        have "no_elected (cluster_abs vw (send (set_proc s p ?x) (read_request p d (a + length rs) ts))) t"
          using ok unfolding abs_send_proc by (auto simp: no_elected_def dest!: read_request_mem)
        moreover have "written ?g h tr (bs @ rs)" "tr + length (bs @ rs) \<le> ts"
          using ok w ai b False by (auto simp: written_append)
        ultimately show ?thesis using ok unfolding abs_send_proc by simp
      qed
    next
      fix y assume "y \<in> set (read_request p d (a + length rs) ts)"
      then obtain b' where "b' \<le> ts" "y = (p, d, Read (a + length rs) b')" using read_request_mem by blast
      then show "fst y = p \<and> req_ok (cluster_abs vw (send (set_proc s p ?x) (read_request p d (a + length rs) ts))) y"
        using b by (simp add: abs_send_proc)
    next
      fix j a2 b2 assume "(p, j, Read a2 b2) \<in> g_reqs ?g"
      then have "req_ok ?g (p, j, Read a2 b2)" using cinvD(1) [OF inv] by blast
      then show "req_ok (cluster_abs vw (send (set_proc s p ?x) (read_request p d (a + length rs) ts))) (p, j, Read a2 b2)"
        using p by (simp add: abs_send_proc)
    next
      fix j a2 b2 a3 rs2 assume "(p, j, Read a2 b2, ReadResp a3 rs2) \<in> g_resps ?g"
      then have "resp_ok ?g (p, j, Read a2 b2, ReadResp a3 rs2)" using cinvD(3) [OF inv] by blast
      then show "resp_ok (cluster_abs vw (send (set_proc s p ?x) (read_request p d (a + length rs) ts)))
          (p, j, Read a2 b2, ReadResp a3 rs2)"
        using p by (simp add: abs_send_proc)
    qed
  qed
qed

section \<open>Becoming leader\<close>

lemma start_lead_ok:
  assumes inv: "cinv g" and ok: "proc_ok g p (Recovering t d ts tr h bs)" and len: "tr + length bs = ts"
    and dec: "decode_records crc bs tr = Inr recs" and sh: "open_shared crc tid t h tr ts recs = Inr sh"
  shows "leader_ok g p \<lparr>ld_sh = sh, ld_els = [sh_election sh], ld_conn = replicate QUORUM_SIZE None, ld_cand = None\<rparr>"
proof -
  have log: "log_wf (sh_log sh)" "wm_wf (sh_log sh)" "rm_bytes (lb_records (sh_log sh)) = bs"
    "lb_base (sh_log sh) = tr" "lb_head (sh_log sh) = ts"
    using open_shared_recovered [OF dec, of ts tid t h] len sh by auto
  have fields: "sh_election sh = \<lparr>el_term = t, el_term_start_lsn = ts, el_history = h\<rparr>"
    "sh_peers sh = replicate QUORUM_SIZE \<lparr>p_flush = 0, p_failed = False\<rparr>" "sh_commit sh = 0" "sh_horizon sh = tr"
    using sh by (auto simp: open_shared_def rbind_Inr_conv)
  have el: "election_ok g p (sh_election sh)" using ok fields by (simp add: election_ok_def)
  show ?thesis
    by (rule leader_okI) (use ok log fields el in \<open>auto simp: shared_wf_def QUORUM_SIZE_def\<close>)
qed

lemma start_lead_inv:
  assumes inv: "cinv (cluster_abs vw s)" and res: "start_lead crc s p = Some s'"
  shows "cinv (cluster_abs vw s')"
proof -
  let ?g = "cluster_abs vw s"
  obtain t d ts tr h bs where p: "cl_procs s p = Recovering t d ts tr h bs" and len: "tr + length bs = ts"
    using res unfolding start_lead_def by (auto split: proc.splits if_splits)
  have ok: "proc_ok ?g p (Recovering t d ts tr h bs)" using cinvD(4) [OF inv, of p] p by simp
  show ?thesis
  proof (cases "rbind (decode_records crc bs tr) (open_shared crc [] t h tr ts)")
    case (Inl e)
    then have "s' = set_proc s p Dead" using res p len by (simp add: start_lead_def)
    then show ?thesis using die_inv [OF inv] by simp
  next
    case (Inr sh)
    then obtain recs where dec: "decode_records crc bs tr = Inr recs" "open_shared crc [] t h tr ts recs = Inr sh"
      by (auto simp: rbind_Inr_conv)
    let ?l = "\<lparr>ld_sh = sh, ld_els = [sh_election sh], ld_conn = replicate QUORUM_SIZE None, ld_cand = None\<rparr>"
    have s': "s' = set_proc s p (Leading ?l)" using Inr res p len by (simp add: start_lead_def)
    have "leader_ok ?g p ?l" using start_lead_ok [OF inv ok len dec] .
    then show ?thesis unfolding s'
      by (intro quiet_step_done [OF inv abs_set_proc]) (simp_all add: abs_set_proc)
  qed
qed

section \<open>Leading: acknowledgements\<close>

lemma quorum_settled:
  assumes len: "length ps = 3" and two: "2 \<le> length (filter (\<lambda>q. c \<le> p_flush q) ps)"
    and ps: "\<And>i. i < 3 \<Longrightarrow> p_flush (ps ! i) \<le> g_acked g i t \<or> settled g t (p_flush (ps ! i))"
    and t: "g_hist g t \<noteq> None" "g_start g t \<le> c"
  shows "settled g t c"
proof (cases "\<exists>i<3. c \<le> p_flush (ps ! i) \<and> settled g t (p_flush (ps ! i))")
  case True
  then show ?thesis using settled_le by blast
next
  case False
  have "2 \<le> card (acc3 (\<lambda>i. c \<le> p_flush (ps ! i)))"
    using two len by (simp add: length_filter_conv_card acc3_def)
  also have "\<dots> \<le> card (acc3 (\<lambda>i. c \<le> g_acked g i t))"
  proof (rule acc3_mono)
    fix i :: nat assume "i < 3" "c \<le> p_flush (ps ! i)"
    then show "c \<le> g_acked g i t" using False ps [of i] by auto
  qed
  finally show ?thesis using t by (intro chosen_settled) (simp add: chosen_def)
qed

lemma leader_start:
  assumes "leader_ok g p l"
  shows "g_hist g (el_term (sh_election (ld_sh l))) \<noteq> None"
    "g_start g (el_term (sh_election (ld_sh l))) = el_term_start_lsn (sh_election (ld_sh l))"
  using leader_okD(3) [OF assms] by (auto simp: election_ok_def g_start_def)

lemma store_ack_fields:
  assumes "store_ack sh i t f = (b, sh')"
  shows "sh_log sh' = sh_log sh" "sh_election sh' = sh_election sh" "sh_horizon sh' = sh_horizon sh"
    "b \<Longrightarrow> sh_peers sh' = (sh_peers sh)[i := (sh_peers sh ! i)\<lparr>p_flush := f\<rparr>]"
  using assms by (auto simp: store_ack_def set_peer_def split: if_splits)

lemma leader_ok_ack:
  assumes l: "leader_ok g p l" and ack: "store_ack (ld_sh l) i t f = (b, sh')"
    and f: "b \<Longrightarrow> f \<le> g_acked g i t \<or> settled g t f"
    and conn: "length conn = 3" "\<And>j t'. j < 3 \<Longrightarrow> conn ! j = Some t' \<Longrightarrow> ok_at g j t'"
  shows "leader_ok g p (l\<lparr>ld_sh := sh', ld_conn := conn\<rparr>)"
proof -
  note d = leader_okD [OF l] and fl = store_ack_fields [OF ack]
  note sc = store_ack_commit [OF d(1) ack]
  let ?t = "el_term (sh_election (ld_sh l))"
  have swf: "shared_wf sh'" using store_ack_wf [OF d(1), of i t f] ack by simp
  have peers: "p_flush (sh_peers sh' ! j) \<le> g_acked g j ?t \<or> settled g ?t (p_flush (sh_peers sh' ! j))" if "j < 3" for j
  proof (cases b)
    case True
    then have "t = ?t" using sc(1) by simp
    then show ?thesis using fl(4) [OF True] d(12) [OF that] f [OF True] that d(1)
      by (cases "j = i") (auto simp: shared_wf_def QUORUM_SIZE_def)
  next
    case False
    then show ?thesis using sc(2) d(12) [OF that] by simp
  qed
  have commit: "settled g ?t (sh_commit sh')"
  proof (cases "sh_commit sh' = sh_commit (ld_sh l)")
    case True
    then show ?thesis using d(8) by simp
  next
    case False
    note q = sc(4) [OF False]
    show ?thesis
      using swf q peers leader_start [OF l] by (intro quorum_settled [of "sh_peers sh'"]) (auto simp: shared_wf_def QUORUM_SIZE_def)
  qed
  show ?thesis
  proof (rule leader_okI)
    show "\<And>j. j < 3 \<Longrightarrow> p_flush (sh_peers (ld_sh (l\<lparr>ld_sh := sh', ld_conn := conn\<rparr>)) ! j)
        \<le> g_acked g j (el_term (sh_election (ld_sh (l\<lparr>ld_sh := sh', ld_conn := conn\<rparr>)))) \<or>
        settled g (el_term (sh_election (ld_sh (l\<lparr>ld_sh := sh', ld_conn := conn\<rparr>))))
          (p_flush (sh_peers (ld_sh (l\<lparr>ld_sh := sh', ld_conn := conn\<rparr>)) ! j))"
      using peers fl(2) by simp
  qed (use swf d fl commit conn in \<open>simp_all\<close>)
qed

text \<open>Changes that touch neither the log nor any position.\<close>

lemma leader_ok_same:
  assumes l: "leader_ok g p l"
    and eq: "sh_election sh' = sh_election (ld_sh l)" "sh_log sh' = sh_log (ld_sh l)" "sh_commit sh' = sh_commit (ld_sh l)"
      "sh_horizon sh' = sh_horizon (ld_sh l)" "map p_flush (sh_peers sh') = map p_flush (sh_peers (ld_sh l))"
    and conn: "length conn = 3" "\<And>j t'. j < 3 \<Longrightarrow> conn ! j = Some t' \<Longrightarrow> ok_at g j t'"
  shows "leader_ok g p (l\<lparr>ld_sh := sh', ld_conn := conn\<rparr>)"
proof -
  note d = leader_okD [OF l]
  have len: "length (sh_peers sh') = 3" using eq(5) d(1) by (metis QUORUM_SIZE_def length_map shared_wf_def)
  have swf: "shared_wf sh'" using d(1) eq(2,4) len by (simp add: shared_wf_def QUORUM_SIZE_def)
  have "p_flush (sh_peers sh' ! j) = p_flush (sh_peers (ld_sh l) ! j)" if "j < 3" for j
    using eq(5) that len by (metis length_map nth_map)
  then show ?thesis
    by (intro leader_okI) (use swf d eq conn in \<open>simp_all\<close>)
qed

lemma set_proc_leader:
  assumes inv: "cinv (cluster_abs vw s)" and l: "leader_ok (cluster_abs vw s) p l"
  shows "cinv (cluster_abs vw (set_proc s p (Leading l)))"
  using l by (intro quiet_step_done [OF inv abs_set_proc]) (simp_all add: abs_set_proc)

lemma set_peer_failed:
  "map p_flush (sh_peers (set_peer sh i (\<lambda>q. q\<lparr>p_failed := True\<rparr>))) = map p_flush (sh_peers sh)"
  by (cases "i < length (sh_peers sh)") (simp_all add: set_peer_def map_update list_update_same_conv list_update_beyond)

lemma conn_update:
  assumes "length conn = 3" "\<And>j t'. j < 3 \<Longrightarrow> conn ! j = Some t' \<Longrightarrow> ok_at g j t'"
    and x: "\<And>t'. x = Some t' \<Longrightarrow> ok_at g i t'"
  shows "length (if b then conn[i := x] else conn) = 3"
    "j < 3 \<Longrightarrow> (if b then conn[i := x] else conn) ! j = Some t' \<Longrightarrow> ok_at g j t'"
proof -
  show "length (if b then conn[i := x] else conn) = 3" using assms(1) by simp
  assume j: "j < 3" and eq: "(if b then conn[i := x] else conn) ! j = Some t'"
  show "ok_at g j t'"
  proof (cases "b \<and> j = i")
    case True
    then show ?thesis using eq j assms(1) x by simp
  next
    case False
    then have "conn ! j = Some t'" using eq by (cases b) auto
    then show ?thesis using assms(2) j by blast
  qed
qed

lemma resp_index:
  assumes "cinv g" "(p, i, m, r) \<in> g_resps g"
  shows "i < 3"
  using cinvD(1) [OF assms(1) cinvD(2) [OF assms]] by (cases m) auto

lemma take_elected_inv:
  assumes inv: "cinv (cluster_abs vw s)" and res: "take_elected s p k = Some s'"
  shows "cinv (cluster_abs vw s')"
proof -
  let ?g = "cluster_abs vw s"
  obtain l i t start h m where p: "cl_procs s p = Leading l" and r: "response s p k = Some (i, Elected t start h, m)"
    using res unfolding take_elected_def by (auto split: proc.splits option.splits prod.splits message.splits if_splits)
  have mem: "(p, i, Elected t start h, m) \<in> g_resps ?g" using response_mem [OF r] by simp
  have l: "leader_ok ?g p l" using cinvD(4) [OF inv, of p] p by simp
  note d = leader_okD [OF l]
  have i: "i < 3" using resp_index [OF inv mem] .
  show ?thesis
  proof (cases "hs_elected (Inr m)")
    case (Inl e)
    let ?sh = "snd (peer_connected (ld_sh l) i (Inl e))"
    have s': "s' = set_proc s p (Leading (l\<lparr>ld_sh := ?sh\<rparr>))" using res p r Inl by (simp add: take_elected_def Let_def)
    have sh: "sh_election ?sh = sh_election (ld_sh l)" "sh_log ?sh = sh_log (ld_sh l)" "sh_commit ?sh = sh_commit (ld_sh l)"
      "sh_horizon ?sh = sh_horizon (ld_sh l)" "map p_flush (sh_peers ?sh) = map p_flush (sh_peers (ld_sh l))"
      by (cases e; simp add: peer_connected_def request_reelection_def set_peer_failed)+
    have "leader_ok ?g p (l\<lparr>ld_sh := ?sh, ld_conn := ld_conn l\<rparr>)"
      using leader_ok_same [OF l sh d(13) d(14)] .
    moreover have "l\<lparr>ld_sh := ?sh, ld_conn := ld_conn l\<rparr> = l\<lparr>ld_sh := ?sh\<rparr>" by simp
    ultimately show ?thesis unfolding s' using set_proc_leader [OF inv] by metis
  next
    case (Inr u)
    then obtain t' where m: "m = ElectedResp t' True" by (auto simp: hs_elected_def split: message.splits if_splits)
    have rok: "t' = t" "start \<le> g_acked ?g i t \<or> settled ?g t start \<or> superseded ?g p t"
      using cinvD(3) [OF inv mem] m by auto
    have okat: "ok_at ?g i t" using mem m rok by (auto simp: ok_at_def)
    obtain b sh' where ack: "store_ack (ld_sh l) i t start = (b, sh')" by force
    have cur: "start \<le> g_acked ?g i t \<or> settled ?g t start" if b
    proof -
      have "t = el_term (sh_election (ld_sh l))" using store_ack_commit(1) [OF d(1) ack] that by simp
      then have "\<not> superseded ?g p t" using d(4) by (auto simp: superseded_def)
      then show ?thesis using rok by blast
    qed
    let ?conn = "if b then (ld_conn l)[i := Some t] else ld_conn l"
    have conn: "length ?conn = 3" "\<And>j t'. j < 3 \<Longrightarrow> ?conn ! j = Some t' \<Longrightarrow> ok_at ?g j t'"
      using conn_update [OF d(13,14), where x = "Some t" and i = i and b = b] okat by blast+
    have "s' = set_proc s p (Leading (l\<lparr>ld_sh := sh', ld_conn := ?conn\<rparr>))"
      using res p r Inr ack by (cases b) (simp_all add: take_elected_def peer_connected_def Let_def)
    moreover have "leader_ok ?g p (l\<lparr>ld_sh := sh', ld_conn := ?conn\<rparr>)"
      using leader_ok_ack [OF l ack cur conn] .
    ultimately show ?thesis using set_proc_leader [OF inv] by metis
  qed
qed

lemma take_append_inv:
  assumes inv: "cinv (cluster_abs vw s)" and res: "take_append s p k = Some s'"
  shows "cinv (cluster_abs vw s')"
proof -
  let ?g = "cluster_abs vw s"
  obtain l i t b e c z rs m where p: "cl_procs s p = Leading l" and r: "response s p k = Some (i, Append t b e c z rs, m)"
    using res unfolding take_append_def by (auto split: proc.splits option.splits prod.splits message.splits if_splits)
  have mem: "(p, i, Append t b e c z rs, m) \<in> g_resps ?g" using response_mem [OF r] by simp
  have l: "leader_ok ?g p l" using cinvD(4) [OF inv, of p] p by simp
  note d = leader_okD [OF l]
  let ?r = "stream_response (ld_sh l) i t (Inr m)"
  let ?conn = "if \<not> fst ?r then (ld_conn l)[i := None] else ld_conn l"
  have conn: "length ?conn = 3" "\<And>j t'. j < 3 \<Longrightarrow> ?conn ! j = Some t' \<Longrightarrow> ok_at ?g j t'"
    using conn_update [OF d(13,14), where x = None and i = i and b = "\<not> fst ?r"] by blast+
  have s': "s' = set_proc s p (Leading (l\<lparr>ld_sh := snd ?r, ld_conn := ?conn\<rparr>))"
    using res p r by (cases "fst ?r") (simp_all add: take_append_def Let_def)
  have "leader_ok ?g p (l\<lparr>ld_sh := snd ?r, ld_conn := ?conn\<rparr>)"
  proof (cases "\<exists>t' f c'. m = AppendResp t' True f c'")
    case True
    then obtain t' f c' where m: "m = AppendResp t' True f c'" by blast
    have "f \<le> g_acked ?g i t" using cinvD(3) [OF inv mem] m by simp
    moreover obtain x sh' where ack: "store_ack (ld_sh l) i t f = (x, sh')" by force
    moreover have "?r = (x, sh')" using m ack by (simp add: stream_response_def)
    ultimately show ?thesis using leader_ok_ack [OF l ack _ conn] by simp
  next
    case False
    then have sh: "sh_election (snd ?r) = sh_election (ld_sh l)" "sh_log (snd ?r) = sh_log (ld_sh l)"
      "sh_commit (snd ?r) = sh_commit (ld_sh l)" "sh_horizon (snd ?r) = sh_horizon (ld_sh l)"
      "map p_flush (sh_peers (snd ?r)) = map p_flush (sh_peers (ld_sh l))"
      by (auto simp: stream_response_def request_reelection_def split: message.splits)
    show ?thesis using leader_ok_same [OF l sh conn] .
  qed
  then show ?thesis unfolding s' using set_proc_leader [OF inv] by blast
qed

end
