(* ===== verification/ClusterStream.thy ===== *)
theory ClusterStream
  imports ClusterLead
begin

text \<open>The remaining quiet events: handshakes, streaming, coverage and campaigning for a re-election.\<close>

section \<open>Handshakes\<close>

lemma handshake_inv:
  assumes inv: "cinv (cluster_abs vw s)" and res: "handshake_step s p i = Some s'"
  shows "cinv (cluster_abs vw s')"
proof -
  obtain l where p: "cl_procs s p = Leading l" and i: "i < 3"
    and s': "s' = send s [(p, i, VoteRequest (el_term (sh_election (ld_sh l))))]"
    using res by (auto simp: handshake_step_def QUORUM_SIZE_def split: proc.splits if_splits)
  have l: "leader_ok (cluster_abs vw s) p l" using cinvD(4) [OF inv, of p] p by simp
  have "0 < el_term (sh_election (ld_sh l))"
    using hist_okD(2) [OF cinvD(6) [OF inv, of _ p]] leader_okD(3) [OF l] unfolding election_ok_def by blast
  then show ?thesis unfolding s'
    using i l by (intro quiet_step_done [OF inv abs_send [OF p]]) (auto simp: abs_send [OF p])
qed

lemma last_common_idx_Nil [simp]: "last_common_idx p [] k r = Inr r"
  by (cases p) simp_all

lemma elected_req_ok:
  assumes inv: "cinv g" and l: "leader_ok g p l" and el: "el \<in> set (ld_els l)"
    and r: "(p, i, VoteRequest (el_term el), m) \<in> g_resps g" and v: "hs_vote el (Inr m) = Inr fh"
    and st: "hs_start (ld_sh l) el fh = Inr start"
  shows "req_ok g (p, i, Elected (el_term el) start (el_history el))"
proof -
  note d = leader_okD [OF l]
  let ?T = "el_term (sh_election (ld_sh l))"
  have eo: "g_hist g (el_term el) = Some (p, el_history el)" using d(2) [OF el] by (simp add: election_ok_def)
  obtain t' ok llt z c where m: "m = VoteResponse t' ok (fst fh) llt (snd fh) z c"
    using v by (auto simp: hs_vote_def split: message.splits if_splits)
  have vf: "vote_fields g i (fst fh) llt (snd fh)" using cinvD(3) [OF inv r] m by simp
  have "v_hist (g_vs g i) \<noteq> [] \<or> settled g (el_term el) start \<or> superseded g p (el_term el)"
  proof (cases "snd fh = []")
    case False
    then show ?thesis using vf by (simp add: vote_fields_def)
  next
    case True
    then have "start = lb_base (sh_log (ld_sh l))" using vf st
      by (auto simp: vote_fields_def snap_hist_def hs_start_def compute_start_def Let_def split: if_splits)
    then have "settled g (el_term el) start" if "el_term el = ?T" using d(6) that by simp
    moreover have "superseded g p (el_term el)" if "el_term el < ?T"
      using d(3) that by (auto simp: superseded_def election_ok_def)
    moreover have "\<not> ?T < el_term el" using d(4) eo by blast
    ultimately show ?thesis by linarith
  qed
  then show ?thesis using eo resp_index [OF inv r] by simp
qed

lemma send_elected_inv:
  assumes inv: "cinv (cluster_abs vw s)" and res: "send_elected s p k = Some s'"
  shows "cinv (cluster_abs vw s')"
proof -
  let ?g = "cluster_abs vw s"
  obtain l i t m el fh where p: "cl_procs s p = Leading l" and r: "response s p k = Some (i, VoteRequest t, m)"
    and el: "find_election l t = Some el" and v: "hs_vote el (Inr m) = Inr fh"
    using res unfolding send_elected_def
    by (auto split: proc.splits option.splits prod.splits message.splits sum.splits)
  have l: "leader_ok ?g p l" using cinvD(4) [OF inv, of p] p by simp
  note d = leader_okD [OF l]
  have el': "el \<in> set (ld_els l)" "el_term el = t"
    using el by (auto simp: find_election_def find_Some_iff)
  have mem: "(p, i, VoteRequest (el_term el), m) \<in> g_resps ?g" using response_mem [OF r] el'(2) by simp
  show ?thesis
  proof (cases "hs_start (ld_sh l) el fh")
    case (Inr start)
    let ?y = "(p, i, Elected t start (el_history el))"
    have s': "s' = send s [?y]" using res p r el v Inr by (simp add: send_elected_def)
    have "req_ok ?g ?y" using elected_req_ok [OF inv l el'(1) mem v Inr] el'(2) by simp
    then show ?thesis unfolding s'
      using l by (intro quiet_step_done [OF inv abs_send [OF p]]) (auto simp: abs_send [OF p] superseded_def)
  next
    case (Inl e)
    let ?sh = "set_peer (ld_sh l) i (\<lambda>q. q\<lparr>p_failed := True\<rparr>)"
    have s': "s' = set_proc s p (Leading (l\<lparr>ld_sh := ?sh, ld_conn := ld_conn l\<rparr>))"
      using res p r el v Inl by (simp add: send_elected_def split: hs_error.splits)
    have "leader_ok ?g p (l\<lparr>ld_sh := ?sh, ld_conn := ld_conn l\<rparr>)"
      by (rule leader_ok_same [OF l]) (use d in \<open>simp_all add: set_peer_failed\<close>)
    then show ?thesis unfolding s' using set_proc_leader [OF inv] by blast
  qed
qed

section \<open>Streaming\<close>

lemma batch_loop_slice:
  assumes "rm_chain a rs h" "a \<le> from" "batch_loop rs from None e0 [] = (Some b, e, bs)"
  shows "\<exists>xs zs ys. rs = xs @ zs @ ys \<and> rm_chain a xs b \<and> bs = rm_bytes zs \<and> b \<le> from"
  using assms
proof (induction rs arbitrary: a)
  case Nil
  then show ?case by simp
next
  case (Cons r rs)
  show ?case
  proof (cases "rm_end r \<le> from")
    case True
    then obtain xs zs ys where "rs = xs @ zs @ ys" "rm_chain (rm_end r) xs b" "bs = rm_bytes zs" "b \<le> from"
      using Cons.IH [of "rm_end r"] Cons.prems by auto
    then show ?thesis using Cons.prems(1) by (intro exI [of _ "r # xs"] exI [of _ zs] exI [of _ ys]) simp
  next
    case False
    have "rm_chain (rm_end r) rs h" using Cons.prems(1) unfolding rm_chain.simps by blast
    from batch_loop_run [OF this, of "from" "rm_start r" "rm_frame r"] obtain zs ys where z: "rs = zs @ ys"
      "batch_loop rs from (Some (rm_start r)) (rm_end r) (rm_frame r) =
         (Some (rm_start r), rm_end r + length (rm_bytes zs), rm_frame r @ rm_bytes zs)"
      using False by auto
    show ?thesis
    proof (cases "length (rm_frame r) \<ge> MAX_APPEND_BATCH_BYTES")
      case True
      then have "b = a" "bs = rm_bytes [r]" using Cons.prems False by (auto simp: Let_def)
      then show ?thesis using Cons.prems by (intro exI [of _ "[]"] exI [of _ "[r]"] exI [of _ rs]) simp
    next
      case short: False
      then have "b = a" "bs = rm_bytes (r # zs)" using Cons.prems False z by (auto simp: Let_def)
      then show ?thesis using Cons.prems z by (intro exI [of _ "[]"] exI [of _ "r # zs"] exI [of _ ys]) simp
    qed
  qed
qed

lemma next_batch_slice:
  assumes wf: "log_wf log" and d: "next_batch log from = Data b e bs"
  shows "\<exists>xs zs ys. lb_records log = xs @ zs @ ys \<and> rm_chain (lb_base log) xs b \<and> bs = rm_bytes zs \<and> b \<le> from"
proof (rule batch_loop_slice)
  show "rm_chain (lb_base log) (lb_records log) (lb_head log)" using wf by (simp add: log_wf_def)
  show "lb_base log \<le> from" "batch_loop (lb_records log) from None from [] = (Some b, e, bs)"
    using d by (auto simp: next_batch_def split: if_splits prod.splits option.splits)
qed

lemma stream_req_ok:
  assumes inv: "cinv g" and l: "leader_ok g p l" and i: "i < 3" and c: "ld_conn l ! i = Some t"
    and t: "t = el_term (sh_election (ld_sh l))"
    and nb: "next_batch (sh_log (ld_sh l)) (p_flush (sh_peers (ld_sh l) ! i)) = Data b e bs"
  shows "req_ok g (p, i, append_message (ld_sh l) t b e bs)"
proof -
  note d = leader_okD [OF l]
  obtain xs zs ys where z: "lb_records (sh_log (ld_sh l)) = xs @ zs @ ys" "rm_chain (lb_base (sh_log (ld_sh l))) xs b"
    "bs = rm_bytes zs" "b \<le> p_flush (sh_peers (ld_sh l) ! i)"
    using next_batch_slice [OF _ nb] d(1) by (auto simp: shared_wf_def)
  have "b = lb_base (sh_log (ld_sh l)) + length (rm_bytes xs)" using rm_chain_length [OF z(2)] by simp
  then have "written g (el_history (sh_election (ld_sh l))) b bs"
    using d(9) z(1,3) by (simp add: written_append)
  moreover have "b \<le> g_acked g i t \<or> settled g t b"
    using d(12) [OF i] z(4) t settled_le [of g t _ b] by (auto intro: le_trans)
  moreover have "ok_at g i t" using d(14) [OF i c] .
  moreover have "g_hist g t = Some (p, el_history (sh_election (ld_sh l)))" using d(3) t by (simp add: election_ok_def)
  ultimately show ?thesis using d(7,8) i t by (simp add: append_message_def)
qed

lemma stream_inv:
  assumes inv: "cinv (cluster_abs vw s)" and res: "stream s p i = Some s'"
  shows "cinv (cluster_abs vw s')"
proof -
  let ?g = "cluster_abs vw s"
  obtain l t where p: "cl_procs s p = Leading l" and i: "i < length (ld_conn l)" and c: "ld_conn l ! i = Some t"
    using res by (auto simp: stream_def split: proc.splits if_splits option.splits)
  have l: "leader_ok ?g p l" using cinvD(4) [OF inv, of p] p by simp
  note d = leader_okD [OF l]
  have i3: "i < 3" using i d(13) by simp
  have same: "cinv (cluster_abs vw (set_proc s p (Leading (l\<lparr>ld_sh := sh'\<rparr>))))"
    if "sh' = ld_sh l \<or> sh' = set_peer (ld_sh l) i (\<lambda>q. q\<lparr>p_failed := True\<rparr>)" for sh'
  proof -
    have "leader_ok ?g p (l\<lparr>ld_sh := sh', ld_conn := ld_conn l\<rparr>)"
      by (rule leader_ok_same [OF l]) (use d that in \<open>auto simp: set_peer_failed\<close>)
    then show ?thesis using set_proc_leader [OF inv] by fastforce
  qed
  show ?thesis
  proof (cases "t = el_term (sh_election (ld_sh l))")
    case False
    then show ?thesis using res p i c same [of "ld_sh l"] by (auto simp: stream_def stream_next_def)
  next
    case True
    show ?thesis
    proof (cases "next_batch (sh_log (ld_sh l)) (p_flush (sh_peers (ld_sh l) ! i))")
      case (Data b e bs)
      let ?y = "(p, i, append_message (ld_sh l) t b e bs)"
      have s': "s' = send s [?y]" using res p i c True Data by (simp add: stream_def stream_next_def)
      have "req_ok ?g ?y" using stream_req_ok [OF inv l i3 c True Data] .
      then show ?thesis unfolding s'
        using l by (intro quiet_step_done [OF inv abs_send [OF p]]) (auto simp: abs_send [OF p] append_message_def)
    next
      case UpToDate
      then show ?thesis using res p i c True same [of "ld_sh l"] by (simp add: stream_def stream_next_def)
    next
      case Behind
      then show ?thesis using res p i c True same [of "set_peer (ld_sh l) i (\<lambda>q. q\<lparr>p_failed := True\<rparr>)"]
        by (auto simp: stream_def stream_next_def)
    qed
  qed
qed

section \<open>Coverage\<close>

lemma advance_horizon_fields:
  assumes "advance_horizon_locked sh = (rf, sh')"
  shows "sh_election sh' = sh_election sh" "sh_commit sh' = sh_commit sh" "lb_head (sh_log sh') = lb_head (sh_log sh)"
    "map p_flush (sh_peers sh') = map p_flush (sh_peers sh)"
proof -
  obtain ps d where ex: "expel_loop (sh_peers sh) (sh_horizon sh') = (ps, d)" by force
  have ps: "map p_flush ps = map p_flush (sh_peers sh)" using expel_loop_spec [OF ex] by blast
  show "sh_election sh' = sh_election sh" "sh_commit sh' = sh_commit sh" "lb_head (sh_log sh') = lb_head (sh_log sh)"
    using assms by (auto simp: advance_horizon_locked_def Let_def split: if_splits)
  show "map p_flush (sh_peers sh') = map p_flush (sh_peers sh)"
    using assms ex ps unfolding advance_horizon_locked_def Let_def by (auto split: if_splits)
qed

lemma leader_ok_advance:
  assumes l: "leader_ok g p l" and adv: "advance_horizon_locked (ld_sh l) = (rf, sh')"
  shows "leader_ok g p (l\<lparr>ld_sh := sh'\<rparr>)"
proof -
  note d = leader_okD [OF l] and f = advance_horizon_fields [OF adv]
  note a = advance_horizon_ok [OF d(1) adv]
  let ?log = "sh_log (ld_sh l)" and ?t = "el_term (sh_election (ld_sh l))"
  have hor: "settled g ?t (sh_horizon sh')"
    using a(2,3) d(7,8) settled_le by (cases "sh_horizon sh' = sh_horizon (ld_sh l)") auto
  then have base: "settled g ?t (lb_base (sh_log sh'))"
    using a(1) settled_le by (auto simp: shared_wf_def)
  obtain xs where xs: "lb_records ?log = xs @ lb_records (sh_log sh')" using a(4) by blast
  obtain m where "rm_chain (lb_base ?log) xs m" "rm_chain m (lb_records (sh_log sh')) (lb_head ?log)"
    using d(1) xs by (auto simp: shared_wf_def log_wf_def rm_chain_append)
  moreover have "rm_chain (lb_base (sh_log sh')) (lb_records (sh_log sh')) (lb_head ?log)"
    using a(1) f(3) by (simp add: shared_wf_def log_wf_def)
  ultimately have "lb_base (sh_log sh') = lb_base ?log + length (rm_bytes xs)"
    by (auto dest!: rm_chain_length)
  then have wr: "written g (el_history (sh_election (ld_sh l))) (lb_base (sh_log sh')) (rm_bytes (lb_records (sh_log sh')))"
    using d(9) xs by (simp add: written_append)
  have len: "length (sh_peers sh') = 3" using a(1) by (simp add: shared_wf_def QUORUM_SIZE_def)
  have "p_flush (sh_peers sh' ! j) = p_flush (sh_peers (ld_sh l) ! j)" if "j < 3" for j
    using f(4) that len by (metis length_map nth_map)
  then show ?thesis
    by (intro leader_okI) (use d f a(1) hor base wr in \<open>simp_all\<close>)
qed

lemma note_covered_inv:
  assumes inv: "cinv (cluster_abs vw s)" and res: "note_covered_step s p key seq = Some s'"
  shows "cinv (cluster_abs vw s')"
proof -
  let ?g = "cluster_abs vw s"
  obtain l where p: "cl_procs s p = Leading l"
    and s': "s' = set_proc s p (Leading (l\<lparr>ld_sh := snd (note_covered (ld_sh l) key seq)\<rparr>))"
    using res by (auto simp: note_covered_step_def split: proc.splits)
  have l: "leader_ok ?g p l" using cinvD(4) [OF inv, of p] p by simp
  define sh1 where "sh1 = (ld_sh l)\<lparr>sh_log := (sh_log (ld_sh l))\<lparr>lb_covered := (lb_covered (sh_log (ld_sh l)))
      (key \<mapsto> max (covered_of (sh_log (ld_sh l)) key) seq)\<rparr>\<rparr>"
  have l1: "leader_ok ?g p (l\<lparr>ld_sh := sh1\<rparr>)"
    by (rule leader_okI) (use leader_okD [OF l] in \<open>auto simp: sh1_def shared_wf_def log_wf_def wm_wf_def\<close>)
  obtain rf sh' where adv: "advance_horizon_locked sh1 = (rf, sh')" by force
  have "snd (note_covered (ld_sh l) key seq) = sh'" using adv by (simp add: note_covered_def Let_def sh1_def)
  moreover have "leader_ok ?g p (l\<lparr>ld_sh := sh'\<rparr>)" using leader_ok_advance [OF l1, of rf sh'] adv by simp
  ultimately show ?thesis unfolding s' using set_proc_leader [OF inv] by simp
qed

section \<open>Campaigning again\<close>

lemma leader_ok_cand:
  assumes l: "leader_ok g p l"
    and c: "\<And>t' votes. cand = Some (t', votes) \<Longrightarrow> el_term (sh_election (ld_sh l)) < t' \<and> votes_ok g p t' votes"
  shows "leader_ok g p (l\<lparr>ld_cand := cand\<rparr>)"
  by (rule leader_okI) (use leader_okD [OF l] c in \<open>simp_all\<close>)

lemma recampaign_inv:
  assumes inv: "cinv (cluster_abs vw s)" and res: "recampaign s p t = Some s'"
  shows "cinv (cluster_abs vw s')"
proof -
  let ?g = "cluster_abs vw s"
  obtain l where p: "cl_procs s p = Leading l" and t: "t > el_term (sh_election (ld_sh l))"
    and s': "s' = send (set_proc s p (Leading (l\<lparr>ld_cand := Some (t, replicate QUORUM_SIZE None)\<rparr>)))
                        (broadcast p (VoteRequest t))"
    using res by (auto simp: recampaign_def split: proc.splits if_splits)
  have l: "leader_ok ?g p l" using cinvD(4) [OF inv, of p] p by simp
  have "leader_ok ?g p (l\<lparr>ld_cand := Some (t, replicate QUORUM_SIZE None)\<rparr>)"
    by (rule leader_ok_cand [OF l]) (use t votes_ok_empty in auto)
  then show ?thesis unfolding s'
    using t by (intro quiet_step_done [OF inv abs_send_proc]) (auto simp: abs_send_proc broadcast_mem)
qed

lemma reelect_votes_single:
  assumes "reelect_votes t [Some (Inr m)] = Inr vs"
  shows "vs = [None] \<or> (\<exists>t' f llt h z c. m = VoteResponse t' True f llt h z c \<and> t' \<le> t \<and>
    vs = [Some \<lparr>vt_flush = f, vt_last_log_term = llt, vt_history = h, vt_horizon = z\<rparr>])"
  using assms by (auto split: message.splits if_splits)

lemma votes_ok_clear: "votes_ok g p t votes \<Longrightarrow> votes_ok g p t (votes[i := None])"
  unfolding votes_ok_def by (metis length_list_update nth_list_update_eq nth_list_update_neq option.distinct(1))

lemma take_revote_inv:
  assumes inv: "cinv (cluster_abs vw s)" and res: "take_revote s p k = Some s'"
  shows "cinv (cluster_abs vw s')"
proof -
  let ?g = "cluster_abs vw s"
  obtain l i t m votes where p: "cl_procs s p = Leading l" and r: "response s p k = Some (i, VoteRequest t, m)"
    and c: "ld_cand l = Some (t, votes)"
    using res unfolding take_revote_def by (auto split: proc.splits option.splits prod.splits message.splits if_splits)
  note mem = response_mem [OF r]
  have l: "leader_ok ?g p l" using cinvD(4) [OF inv, of p] p by simp
  note d = leader_okD [OF l]
  show ?thesis
  proof (cases "reelect_votes t [Some (Inr m)]")
    case (Inl e)
    define sh' where "sh' = poison (ld_sh l) ''superseded by a newer server''"
    have s': "s' = set_proc s p (Leading ((l\<lparr>ld_cand := None\<rparr>)\<lparr>ld_sh := sh', ld_conn := ld_conn l\<rparr>))"
      using res p r c Inl by (simp add: take_revote_def sh'_def)
    have l0: "leader_ok ?g p (l\<lparr>ld_cand := None\<rparr>)" by (rule leader_ok_cand [OF l]) simp
    have "leader_ok ?g p ((l\<lparr>ld_cand := None\<rparr>)\<lparr>ld_sh := sh', ld_conn := ld_conn l\<rparr>)"
      by (rule leader_ok_same [OF l0]) (use d in \<open>auto simp: sh'_def poison_def split: option.splits\<close>)
    then show ?thesis unfolding s' using set_proc_leader [OF inv] by blast
  next
    case (Inr vs)
    have s': "s' = set_proc s p (Leading (l\<lparr>ld_cand := Some (t, votes[i := vs ! 0])\<rparr>))"
      using res p r c Inr by (simp add: take_revote_def)
    have "votes_ok ?g p t (votes[i := vs ! 0])"
      using reelect_votes_single [OF Inr] votes_ok_clear [OF d(16) [OF c]]
        votes_ok_update [OF inv d(16) [OF c]] mem by fastforce
    then have "leader_ok ?g p (l\<lparr>ld_cand := Some (t, votes[i := vs ! 0])\<rparr>)"
      using d(15) [OF c] by (intro leader_ok_cand [OF l]) auto
    then show ?thesis unfolding s' using set_proc_leader [OF inv] by blast
  qed
qed

end
