(* ===== verification/ClusterWrite.thy ===== *)
theory ClusterWrite
  imports ClusterStream
begin

text \<open>
  Steps of a proposer process that win a term or write bytes: the won terms and the written
  bytes only grow, at terms of the process itself, and the acceptors do not move.
\<close>

section \<open>Growing steps\<close>

definition grows :: "gst \<Rightarrow> nat \<Rightarrow> gst \<Rightarrow> bool" where
  "grows g p g' \<longleftrightarrow> g_vs g' = g_vs g \<and> g_acked g' = g_acked g \<and> g_resps g' = g_resps g \<and> g_reqs g \<subseteq> g_reqs g' \<and>
     (\<forall>q. q \<noteq> p \<longrightarrow> g_procs g' q = g_procs g q) \<and>
     (\<forall>t. g_hist g' t = g_hist g t \<or> (g_hist g t = None \<and> (\<exists>h. g_hist g' t = Some (p, h)))) \<and>
     (\<forall>t q. g_wr g' t q = g_wr g t q \<or> (g_wr g t q = None \<and> (\<exists>h. g_hist g' t = Some (p, h))))"

lemma growsD:
  assumes "grows g p g'"
  shows "g_vs g' = g_vs g" "g_acked g' = g_acked g" "g_resps g' = g_resps g" "g_reqs g \<subseteq> g_reqs g'"
    "q \<noteq> p \<Longrightarrow> g_procs g' q = g_procs g q"
    "g_hist g' t = g_hist g t \<or> (g_hist g t = None \<and> (\<exists>h. g_hist g' t = Some (p, h)))"
    "g_wr g' t n = g_wr g t n \<or> (g_wr g t n = None \<and> (\<exists>h. g_hist g' t = Some (p, h)))"
  using assms unfolding grows_def by blast+

lemma grows_ext:
  assumes g: "grows g p g'"
  shows "ext g g'"
proof -
  have "g_hist g' t = Some x" if "g_hist g t = Some x" for t x using growsD(6) [OF g, of t] that by auto
  moreover have "g_wr g' t q = Some b" if "g_wr g t q = Some b" for t q b using growsD(7) [OF g, of t q] that by auto
  ultimately show ?thesis using growsD(1-4) [OF g] by (simp add: ext_def)
qed

lemma grows_other:
  assumes g: "grows g p g'" and q: "q \<noteq> p"
  shows "g_hist g' t = Some (q, h) \<longleftrightarrow> g_hist g t = Some (q, h)"
    "g_hist g t = Some (q, h) \<Longrightarrow> g_wr g' t n = g_wr g t n"
proof -
  show e: "g_hist g' t = Some (q, h) \<longleftrightarrow> g_hist g t = Some (q, h)" using growsD(6) [OF g, of t] q by auto
  show "g_hist g t = Some (q, h) \<Longrightarrow> g_wr g' t n = g_wr g t n" using growsD(7) [OF g, of t n] e q by auto
qed

lemma grows_acc_ok:
  assumes inv: "cinv g" and g: "grows g p g'" and i: "i < 3"
  shows "acc_ok g' i"
proof -
  note e = grows_ext [OF g] and a = acc_okD [OF cinvD(5) [OF inv i]] and d = growsD [OF g]
  have ok: "ok_at g' = ok_at g" using d(3) by (simp add: ok_at_def fun_eq_iff)
  have ch: "choosable g' = choosable g" using d(1,2) by (simp add: choosable_def fun_eq_iff)
  have bd: "binding g i t x" if b: "binding g' i t x" for t x
  proof -
    have "0 < g_acked g i t" using b d(2) by (simp add: binding_def)
    then obtain y where "g_hist g t = Some y" using acked_hist(1) [OF inv i] by blast
    then have "g_start g' t = g_start g t" using ext_start [OF e] by blast
    then show ?thesis using b ch d(2) by (simp add: binding_def)
  qed
  show ?thesis unfolding acc_ok_def Let_def
  proof (intro conjI)
    let ?v = "g_vs g' i"
    show "v_hist ?v = [] \<or> (\<exists>t p. g_hist g' t = Some (p, v_hist ?v) \<and> t \<le> v_term ?v)"
      using a(1) extD(1) [OF e] d(1) by (metis (no_types))
    show "v_hist ?v = [] \<longrightarrow> v_empty ?v" using a(2) d(1) by simp
    show "v_empty ?v \<longrightarrow> v_log ?v = [] \<and> v_lo ?v = 0 \<and> (\<forall>t. g_acked g' i t = 0)" using a(3) d(1,2) by simp
    show "written g' (v_hist ?v) (v_lo ?v) (v_log ?v)" using a(4) ext_written [OF e] d(1) by simp
    show "settled g' (v_term ?v) (v_commit ?v)" "settled g' (v_term ?v) (v_hor ?v)" "settled g' (v_term ?v) (v_lo ?v)"
      using a(5-7) ext_settled [OF e] d(1) by simp_all
    show "\<forall>t. ok_at g' i t \<longrightarrow> t \<le> v_term ?v \<and> (t = v_term ?v \<longrightarrow> (\<exists>p. g_hist g' t = Some (p, v_hist ?v)))"
      using a(8,9) extD(1) [OF e] d(1) ok by (metis (no_types))
    show "\<forall>t. 0 < g_acked g' i t \<longrightarrow> ok_at g' i t" using a(10) ok d(2) by simp
    show "g_acked g' i (v_term ?v) \<le> v_flush ?v" using a(11) d(1,2) by simp
    show "\<forall>t e. binding g' i t e \<longrightarrow> carries (up_to (v_hist ?v) (v_flush ?v)) t e \<and> e \<le> v_flush ?v"
      unfolding d(1) using a(12) bd by blast
  qed
qed

lemma grows_proc_ok:
  assumes inv: "cinv g" and g: "grows g p g'" and q: "q \<noteq> p"
    and R: "\<And>p' i t s h. (p', i, Elected t s h) \<in> g_reqs g' \<Longrightarrow> (p', i, Elected t s h) \<in> g_reqs g"
  shows "proc_ok g' q (g_procs g q)"
proof (cases "g_procs g q")
  case (Recovering t donor ts tr h bs)
  then have ok: "proc_ok g q (Recovering t donor ts tr h bs)" using cinvD(4) [OF inv, of q] by simp
  have "no_elected g t" using ok by simp
  then have ne: "no_elected g' t" using R unfolding no_elected_def by blast
  have "\<forall>n\<ge>ts. g_wr g' t n = None" using ok grows_other(2) [OF g q, of t h] by simp
  then show ?thesis
    using ok Recovering ne grows_other(1) [OF g q] growsD(2,3) [OF g] ext_settled [OF grows_ext [OF g]]
      ext_written [OF grows_ext [OF g]] by simp
next
  case (Leading l)
  then have l: "leader_ok g q l" using cinvD(4) [OF inv, of q] by simp
  have "leader_ok g' q l"
  proof (rule ext_leader_ok [OF inv grows_ext [OF g] l])
    show "\<And>t h. g_hist g' t = Some (q, h) \<Longrightarrow> g_hist g t = Some (q, h)" using grows_other(1) [OF g q] by blast
    show "g_wr g' (el_term (sh_election (ld_sh l))) n = None" if "lb_head (sh_log (ld_sh l)) \<le> n" for n
      using leader_okD(3) [OF l] leader_okD(10) [OF l that] grows_other(2) [OF g q]
      by (simp add: election_ok_def)
    show "\<And>i. i < 3 \<Longrightarrow> g_acked g' i (el_term (sh_election (ld_sh l))) \<le> lb_head (sh_log (ld_sh l))"
      using leader_okD(11) [OF l] growsD(2) [OF g] by simp
  qed
  then show ?thesis using Leading by simp
qed (use cinvD(4) [OF inv, of q] grows_other(1) [OF g q] ext_votes_ok [OF grows_ext [OF g]] in simp_all)

lemma grow_step:
  assumes inv: "cinv g" and g: "grows g p g'"
    and R: "\<And>y. y \<in> g_reqs g' \<Longrightarrow> y \<notin> g_reqs g \<Longrightarrow> req_ok g' y"
    and E: "\<And>p' i t s h. (p', i, Elected t s h) \<in> g_reqs g' \<Longrightarrow> (p', i, Elected t s h) \<in> g_reqs g"
    and x: "proc_ok g' p (g_procs g' p)"
    and rq: "\<And>i a b. (p, i, Read a b) \<in> g_reqs g \<Longrightarrow> req_ok g' (p, i, Read a b)"
    and rd: "\<And>i a b a' rs. (p, i, Read a b, ReadResp a' rs) \<in> g_resps g \<Longrightarrow>
               resp_ok g' (p, i, Read a b, ReadResp a' rs)"
    and hist: "\<And>t q h. g_hist g' t = Some (q, h) \<Longrightarrow> g_hist g t = None \<Longrightarrow> hist_ok g' t q h"
    and key: "key_inv g'"
  shows "cinv g'"
proof -
  note e = grows_ext [OF g] and d = growsD [OF g]
  have reqs: "req_ok g' y" if "y \<in> g_reqs g'" for y
  proof (cases "y \<in> g_reqs g")
    case True
    obtain q i m where y: "y = (q, i, m)" by (cases y)
    have old: "req_ok g (q, i, m)" using cinvD(1) [OF inv True] y by simp
    have "req_ok g' (q, i, m)" if "m = Read a b" for a b
    proof (cases "q = p")
      case False
      then show ?thesis using old that d(5) by simp
    qed (use rq True y that in blast)
    then show ?thesis unfolding y by (rule ext_req_ok [OF e old])
  qed (use R that in blast)
  have resps: "resp_ok g' (q, i, m, r)" if mem: "(q, i, m, r) \<in> g_resps g" for q i m r
  proof (rule ext_resp_ok [OF inv e mem])
    show "frozen g g' i" using d(1) by (simp add: frozen_def)
    show "resp_ok g' (q, i, m, r)" if m: "m = Read a b" "r = ReadResp a' rs" for a b a' rs
    proof (cases "q = p")
      case False
      then show ?thesis using cinvD(3) [OF inv mem] m d(5) ext_written [OF e] by (auto split: proc.splits)
    qed (use rd m mem in blast)
  qed
  have procs: "proc_ok g' q (g_procs g' q)" for q
    using grows_proc_ok [OF inv g _ E, of q] x d(5) by (cases "q = p") simp_all
  show ?thesis
    unfolding cinv_def
  proof (intro conjI allI impI ballI)
    show "hist_ok g' t q h" if "g_hist g' t = Some (q, h)" for t q h
      using hist [OF that] d(6) [of t] that cinvD(6) [OF inv] ext_hist_ok [OF e] by fastforce
    show "grants_unique g'" using cinvD(8) [OF inv] d(3) by (simp add: grants_unique_def granted_def)
    show "g_wr g' t = Map.empty" if "g_hist g' t = None" for t
    proof -
      have "g_wr g' t n = None" for n
        using d(6) [of t] d(7) [of t n] that cinvD(9) [OF inv, of t n] by auto
      then show ?thesis by (simp add: fun_eq_iff)
    qed
  qed (use reqs resps procs grows_acc_ok [OF inv g] key d(3,4) cinvD(2) [OF inv] in auto)
qed

section \<open>Submitting\<close>

lemma submit_shared:
  assumes wf: "shared_wf sh" and res: "submit crc sh kind key seq body = (Inr e, sh')"
  shows "shared_wf sh'" "\<exists>fb. rm_bytes (lb_records (sh_log sh')) = rm_bytes (lb_records (sh_log sh)) @ fb \<and>
      lb_head (sh_log sh') = lb_head (sh_log sh) + length fb" "lb_base (sh_log sh') = lb_base (sh_log sh)"
    "sh_election sh' = sh_election sh" "sh_peers sh' = sh_peers sh" "sh_commit sh' = sh_commit sh"
    "sh_horizon sh' = sh_horizon sh"
proof -
  let ?log = "sh_log sh"
  let ?r = "\<lparr>r_lsn = lb_head ?log, r_kind = kind, r_table_key = key, r_seq = seq, r_body = body\<rparr>"
  obtain fb where enc: "record_encode crc ?r = Inr fb"
    and sh': "sh' = sh\<lparr>sh_log := (if kind = RECORD_WATERMARK
         then ?log\<lparr>lb_last_wm := (lb_last_wm ?log)(key \<mapsto> (lb_head ?log, seq))\<rparr> else ?log)
       \<lparr>lb_records := lb_records ?log @ [\<lparr>rm_start = lb_head ?log, rm_end = lb_head ?log + length fb,
          rm_kind = kind, rm_table_key = key, rm_seq = seq, rm_frame = fb\<rparr>],
        lb_head := lb_head ?log + length fb\<rparr>\<rparr>"
    using res by (auto simp: submit_def Let_def check_record_frame_len_def split: option.splits sum.splits if_splits)
  have fb: "fb = frame crc (record_payload ?r)"
    using enc by (auto simp: record_encode_def frame_bytes_Inr split: if_splits)
  have "log_wf (sh_log sh')"
    using wf sh' fb by (auto simp: shared_wf_def log_wf_def rm_chain_append)
  moreover have "wm_wf (sh_log sh')"
    using wf sh' by (auto simp: shared_wf_def wm_wf_def last_wm_of_snoc is_wm_def)
  moreover have "length (sh_peers sh') = QUORUM_SIZE" "lb_base (sh_log sh') \<le> sh_horizon sh'"
    using wf sh' by (auto simp: shared_wf_def)
  ultimately show "shared_wf sh'" by (simp add: shared_wf_def)
  show "\<exists>fb. rm_bytes (lb_records (sh_log sh')) = rm_bytes (lb_records (sh_log sh)) @ fb \<and>
      lb_head (sh_log sh') = lb_head (sh_log sh) + length fb"
    using sh' by (intro exI [of _ fb]) simp
qed (use res in \<open>auto simp: submit_def Let_def split: option.splits sum.splits if_splits\<close>)

lemma log_byte_nth:
  assumes "log_wf log" "j < length (rm_bytes (lb_records log))"
  shows "log_byte log (lb_base log + j) = Some (rm_bytes (lb_records log) ! j)"
proof -
  have "lb_head log = lb_base log + length (rm_bytes (lb_records log))"
    using assms(1) rm_chain_length unfolding log_wf_def by blast
  then show ?thesis using assms(2) by (simp add: log_byte_def)
qed

lemma last_log_term_last: "th_wf h \<Longrightarrow> h \<noteq> [] \<Longrightarrow> tl_lsn (last h) \<le> q \<Longrightarrow> last_log_term h q = tl_term (last h)"
  using last_log_term_eq [of h "length h - 1" q] by (simp add: last_conv_nth)

text \<open>The log of a proposer after it wrote its bytes from a position on under its own term.\<close>

lemma written_write_log:
  assumes lw: "log_wf log" and h: "th_wf h" "h \<noteq> []" "tl_term (last h) = t" "tl_lsn (last h) \<le> a"
    and a: "lb_base log \<le> a" and e: "ext g g'" and wr: "g_wr g' = write_log (g_wr g) t a log"
    and old: "written g h (lb_base log) (take (a - lb_base log) (rm_bytes (lb_records log)))"
  shows "written g' h (lb_base log) (rm_bytes (lb_records log))"
  unfolding written_def
proof (intro allI impI)
  fix j assume j: "j < length (rm_bytes (lb_records log))"
  let ?q = "lb_base log + j"
  show "g_wr g' (last_log_term h ?q) ?q = Some (rm_bytes (lb_records log) ! j)"
  proof (cases "?q < a")
    case True
    then have "g_wr g (last_log_term h ?q) ?q = Some (rm_bytes (lb_records log) ! j)"
      using old j by (auto simp: written_def)
    then show ?thesis using extD(2) [OF e] by blast
  next
    case False
    then have "last_log_term h ?q = t" using last_log_term_last [OF h(1,2), of ?q] h(3,4) by simp
    moreover have b: "log_byte log ?q = Some (rm_bytes (lb_records log) ! j)" using log_byte_nth [OF lw j] .
    moreover have "?q < lb_head log" using b by (simp add: log_byte_def split: if_splits)
    ultimately show ?thesis using False wr by (simp add: write_log_def)
  qed
qed

lemma write_log_above: "(\<forall>q\<ge>lb_head log. wr t q = None) \<Longrightarrow> lb_head log \<le> q \<Longrightarrow> write_log wr t a log t q = None"
  by (simp add: write_log_def)

lemma abs_write:
  "cluster_abs vw ((set_proc s p x)\<lparr>gh_wr := W\<rparr>) =
     (cluster_abs vw s)\<lparr>g_procs := (g_procs (cluster_abs vw s))(p := x), g_wr := W\<rparr>"
  by (simp add: cluster_abs_def set_proc_def)

lemma leader_hist:
  assumes "cinv g" "leader_ok g p l"
  shows "hist_ok g (el_term (sh_election (ld_sh l))) p (el_history (sh_election (ld_sh l)))"
    "g_hist g (el_term (sh_election (ld_sh l))) = Some (p, el_history (sh_election (ld_sh l)))"
    "el_term_start_lsn (sh_election (ld_sh l)) = tl_lsn (last (el_history (sh_election (ld_sh l))))"
  using leader_okD(3) [OF assms(2)] cinvD(6) [OF assms(1)] by (auto simp: election_ok_def)

lemma ext_refl: "ext g g"
  by (simp add: ext_def)

lemma ext_trans: "ext g g' \<Longrightarrow> ext g' g'' \<Longrightarrow> ext g g''"
  unfolding ext_def by (smt (verit) dual_order.trans subset_trans)

lemma ext_set_proc: "ext (cluster_abs vw s) (cluster_abs vw (set_proc s p x))"
  unfolding abs_set_proc by (rule quiet_ext)

lemma submit_inv:
  assumes inv: "cinv (cluster_abs vw s)" and res: "submit_step crc s p kind key seq body = Some s'"
  shows "cinv (cluster_abs vw s') \<and> ext (cluster_abs vw s) (cluster_abs vw s')"
proof -
  let ?g = "cluster_abs vw s"
  obtain l where p: "cl_procs s p = Leading l" using res by (auto simp: submit_step_def split: proc.splits)
  obtain r sh' where sub: "submit crc (ld_sh l) kind key seq body = (r, sh')" by force
  have l: "leader_ok ?g p l" using cinvD(4) [OF inv, of p] p by simp
  note d = leader_okD [OF l] and lh = leader_hist [OF inv l]
  let ?t = "el_term (sh_election (ld_sh l))" and ?h = "el_history (sh_election (ld_sh l))"
  show ?thesis
  proof (cases r)
    case (Inl e)
    then show ?thesis using res p sub inv ext_refl by (simp add: submit_step_def)
  next
    case (Inr x)
    note sf = submit_shared [OF d(1) sub [unfolded Inr]]
    obtain fb where fb: "rm_bytes (lb_records (sh_log sh')) = rm_bytes (lb_records (sh_log (ld_sh l))) @ fb"
      "lb_head (sh_log sh') = lb_head (sh_log (ld_sh l)) + length fb" using sf(2) by blast
    define W where "W = write_log (gh_wr s) ?t (lb_head (sh_log (ld_sh l))) (sh_log sh')"
    let ?l = "l\<lparr>ld_sh := sh'\<rparr>"
    let ?g' = "?g\<lparr>g_procs := (g_procs ?g)(p := Leading ?l), g_wr := W\<rparr>"
    have s': "cluster_abs vw s' = ?g'"
      using res p sub Inr by (auto simp: submit_step_def abs_write W_def)
    have len: "lb_head (sh_log (ld_sh l)) = lb_base (sh_log (ld_sh l)) + length (rm_bytes (lb_records (sh_log (ld_sh l))))"
      using d(1) rm_chain_length unfolding shared_wf_def log_wf_def by blast
    have wr_new: "W t q = gh_wr s t q \<or> (gh_wr s t q = None \<and> t = ?t)" for t q
      using d(10) [of q] by (auto simp: W_def write_log_def)
    have g: "grows ?g p ?g'" using wr_new lh(2) unfolding grows_def by auto
    have none: "gh_wr s ?t q = None" if "lb_head (sh_log sh') \<le> q" for q
      using d(10) [of q] that fb(2) by simp
    have w: "written ?g' ?h (lb_base (sh_log sh')) (rm_bytes (lb_records (sh_log sh')))"
    proof (rule written_write_log [OF _ _ _ _ _ _ grows_ext [OF g]])
      show "written ?g ?h (lb_base (sh_log sh')) (take (lb_head (sh_log (ld_sh l)) - lb_base (sh_log sh')) (rm_bytes (lb_records (sh_log sh'))))"
        using d(9) fb(1) sf(3) len by simp
      show "g_wr ?g' = write_log (g_wr ?g) ?t (lb_head (sh_log (ld_sh l))) (sh_log sh')" by (simp add: W_def)
    qed (use sf hist_okD(1,3,4) [OF lh(1)] lh(3) d(5) len in \<open>auto simp: shared_wf_def\<close>)
    have same: "settled ?g' = settled ?g" "choosable ?g' = choosable ?g" "g_start ?g' = g_start ?g"
      "votes_ok ?g' = votes_ok ?g" "ok_at ?g' = ok_at ?g" "election_ok ?g' = election_ok ?g"
      by (intro ext; simp add: settled_def chosen_def choosable_def ok_at_def g_start_def votes_ok_def election_ok_def)+
    have lead: "leader_ok ?g' p ?l"
    proof (rule leader_okI)
      show "\<And>q. lb_head (sh_log (ld_sh ?l)) \<le> q \<Longrightarrow> g_wr ?g' (el_term (sh_election (ld_sh ?l))) q = None"
        using none sf(4) by (auto simp: W_def write_log_def)
      show "\<And>i. i < 3 \<Longrightarrow> g_acked ?g' i (el_term (sh_election (ld_sh ?l))) \<le> lb_head (sh_log (ld_sh ?l))"
        using d(11) sf(4) fb(2) by (simp add: trans_le_add1)
    qed (use d sf w fb(2) same in \<open>simp_all\<close>)
    have "cinv ?g'"
    proof (rule grow_step [OF inv g])
      show "key_inv ?g'" using cinvD(7) [OF inv] same by (simp add: key_inv_def)
      show "proc_ok ?g' p (g_procs ?g' p)" using lead by simp
      show "req_ok ?g' (p, i, Read a b)" if "(p, i, Read a b) \<in> g_reqs ?g" for i a b
        using cinvD(1) [OF inv that] by simp
      show "resp_ok ?g' (p, i, Read a b, ReadResp a' rs)" if "(p, i, Read a b, ReadResp a' rs) \<in> g_resps ?g" for i a b a' rs
        using cinvD(3) [OF inv that] by simp
    qed simp_all
    then show ?thesis unfolding s' using grows_ext [OF g] by blast
  qed
qed

end
