(* ===== verification/ClusterElect.thy ===== *)
theory ClusterElect
  imports ClusterWrite
begin

text \<open>
  Winning a term, in \<^verbatim>\<open>Quorum::open\<close> and in a re-election: the term is won at most once, and the
  donor's history carries every position that is still choosable in an earlier term.
\<close>

section \<open>Votes\<close>

lemma candidates_mem:
  "(i, x, f) \<in> set (candidates votes) \<longleftrightarrow>
     i < length votes \<and> (\<exists>v. votes ! i = Some v \<and> x = vt_last_log_term v \<and> f = vt_flush v)"
  by (force simp: candidates_def in_set_enumerate_eq)

lemma candidates_card: "length votes = 3 \<Longrightarrow> length (candidates votes) = card (acc3 (\<lambda>i. votes ! i \<noteq> None))"
  by (auto simp: candidates_def length_filter_conv_card nth_enumerate_eq acc3_def intro!: arg_cong [of _ _ card])

lemma somes_card: "length votes = 3 \<Longrightarrow> length (somes votes) = card (acc3 (\<lambda>i. votes ! i \<noteq> None))"
  by (simp add: somes_def length_filter_conv_card acc3_def)

lemma votes_okD:
  assumes inv: "cinv g" and v: "votes_ok g p t votes" and i: "i < 3" "votes ! i = Some x"
  shows "granted g p i t" "vote_ok g i t (vt_flush x) (vt_last_log_term x) (vt_history x) (vt_horizon x)"
    "vote_fields g i (vt_flush x) (vt_last_log_term x) (vt_history x)"
    "\<exists>c. (p, i, VoteRequest t, VoteResponse t True (vt_flush x) (vt_last_log_term x) (vt_history x) (vt_horizon x) c)
       \<in> g_resps g"
proof -
  obtain c where c: "(p, i, VoteRequest t, VoteResponse t True (vt_flush x) (vt_last_log_term x) (vt_history x)
      (vt_horizon x) c) \<in> g_resps g"
    using v i by (auto simp: votes_ok_def)
  then show "granted g p i t" "\<exists>c. (p, i, VoteRequest t, VoteResponse t True (vt_flush x) (vt_last_log_term x)
      (vt_history x) (vt_horizon x) c) \<in> g_resps g"
    unfolding granted_def by blast+
  show "vote_ok g i t (vt_flush x) (vt_last_log_term x) (vt_history x) (vt_horizon x)"
    "vote_fields g i (vt_flush x) (vt_last_log_term x) (vt_history x)"
    using cinvD(3) [OF inv c] by simp_all
qed

text \<open>A majority of votes for one process: the term is new.\<close>

lemma won_granted:
  assumes "cinv g" "votes_ok g p t votes" "2 \<le> card (acc3 (\<lambda>i. votes ! i \<noteq> None))"
  shows "2 \<le> card (acc3 (\<lambda>i. granted g p i t))"
proof -
  have "card (acc3 (\<lambda>i. votes ! i \<noteq> None)) \<le> card (acc3 (\<lambda>i. granted g p i t))"
    using votes_okD(1) [OF assms(1,2)] by (intro acc3_mono) auto
  then show ?thesis using assms(3) by simp
qed

lemma won_fresh:
  assumes inv: "cinv g" and v: "votes_ok g p t votes" and two: "2 \<le> card (acc3 (\<lambda>i. votes ! i \<noteq> None))"
    and mine: "\<And>h. g_hist g t \<noteq> Some (p, h)"
  shows "g_hist g t = None"
proof (cases "g_hist g t")
  case (Some x)
  then obtain q h where q: "g_hist g t = Some (q, h)" by (cases x) simp
  obtain i where "granted g p i t" "granted g q i t"
    using acc3_meet [OF won_granted [OF inv v two] hist_okD(7) [OF cinvD(6) [OF inv q]]] by blast
  then have "p = q" using cinvD(8) [OF inv] by (auto simp: grants_unique_def)
  then show ?thesis using q mine by blast
qed (simp)

section \<open>The donor\<close>

lemma hist_last_le:
  assumes "cinv g" "g_hist g t = Some (p, h)" "carries h t0 e"
  shows "t0 \<le> t" "t0 < t \<Longrightarrow> e \<le> tl_lsn (last h)"
proof -
  note ho = hist_okD [OF cinvD(6) [OF assms(1,2)]]
  obtain k where k: "k < length h" "tl_term (h ! k) = t0" "\<forall>j. k < j \<and> j < length h \<longrightarrow> e \<le> tl_lsn (h ! j)"
    using assms(3) by (auto simp: carries_def)
  have l: "tl_term (h ! (length h - 1)) = t" using ho(1,3) by (simp add: last_conv_nth)
  have "k < length h - 1 \<or> k = length h - 1" using k(1) by linarith
  then show "t0 \<le> t" using th_wf_nth_term [OF ho(4), of k "length h - 1"] k l ho(1)
    by (metis diff_less length_greater_0_conv less_imp_le order_refl zero_less_one)
  show "e \<le> tl_lsn (last h)" if "t0 < t"
  proof -
    have "k \<noteq> length h - 1" using l k(2) that by auto
    then show ?thesis using k(1,3) ho(1) by (simp add: last_conv_nth)
  qed
qed

lemma donor_carries:
  assumes inv: "cinv g" and v: "votes_ok g p t votes" and two: "2 \<le> card (acc3 (\<lambda>i. votes ! i \<noteq> None))"
    and d: "d < 3" "votes ! d = Some x"
    and best: "\<And>i y. i < 3 \<Longrightarrow> votes ! i = Some y \<Longrightarrow> vt_last_log_term y < vt_last_log_term x \<or>
       (vt_last_log_term y = vt_last_log_term x \<and> vt_flush y \<le> vt_flush x)"
    and e: "t0 < t" "0 < e" "g_hist g t0 \<noteq> None" "g_start g t0 \<le> e" "choosable g t0 e"
  shows "carries (vt_history x) t0 e \<and> e \<le> vt_flush x"
proof -
  obtain i where i: "i < 3" "votes ! i \<noteq> None" "e \<le> g_acked g i t0 \<or> v_term (g_vs g i) \<le> t0"
    using acc3_meet [OF two e(5) [unfolded choosable_def]] by blast
  obtain y where y: "votes ! i = Some y" using i(2) by blast
  note vi = votes_okD [OF inv v i(1) y] and vd = votes_okD [OF inv v d]
  have "e \<le> g_acked g i t0" using i(3) vi(2) e(1) by (auto simp: vote_ok_def)
  then have "binding g i t0 e" using e by (simp add: binding_def)
  then have c: "carries (vt_history y) t0 e" "e \<le> vt_flush y" using vi(2) e(1) by (auto simp: vote_ok_def)
  have ne: "vt_history y \<noteq> []" using c(1) by (auto simp: carries_def)
  then obtain q where q: "g_hist g (vt_last_log_term y) = Some (q, vt_history y)"
    using vi(3) by (auto simp: vote_fields_def snap_hist_def)
  have pos: "0 < vt_last_log_term y" using hist_okD(2) [OF cinvD(6) [OF inv q]] .
  have lt: "t0 \<le> vt_last_log_term y" using hist_last_le(1) [OF inv q c(1)] .
  have le: "vt_last_log_term y \<le> vt_last_log_term x" using best [OF i(1) y] by auto
  then have "vt_history x \<noteq> []" using vd(3) pos by (auto simp: vote_fields_def)
  then obtain r where r: "g_hist g (vt_last_log_term x) = Some (r, vt_history x)"
    and f: "tl_lsn (last (vt_history x)) \<le> vt_flush x"
    using vd(3) by (auto simp: vote_fields_def snap_hist_def)
  show ?thesis
  proof (cases "vt_last_log_term y = vt_last_log_term x")
    case True
    then have "vt_history y = vt_history x" using q r by simp
    moreover have "vt_flush y \<le> vt_flush x" using best [OF i(1) y] True by simp
    ultimately show ?thesis using c by simp
  next
    case False
    then have gt: "t0 < vt_last_log_term x" using lt le by simp
    then have "carries (vt_history x) t0 e"
      using cinvD(7) [OF inv] r e unfolding key_inv_def by blast
    then show ?thesis using hist_last_le(2) [OF inv r _ gt] f by (meson le_trans)
  qed
qed

section \<open>The new history\<close>

lemma new_hist_ok:
  assumes inv: "cinv g" and g: "ext g g'" and v: "votes_ok g p t votes" and t: "0 < t"
    and two: "2 \<le> card (acc3 (\<lambda>i. votes ! i \<noteq> None))" and d: "d < 3" "votes ! d = Some x"
    and h: "h = vt_history x @ [\<lparr>tl_term = t, tl_lsn = vt_flush x\<rparr>]" and new: "g_hist g' t = Some (p, h)"
  shows "hist_ok g' t p h"
proof -
  note vd = votes_okD [OF inv v d]
  have below: "\<forall>e\<in>set (vt_history x). tl_term e < t" using vd(2) by (simp add: vote_ok_def)
  have snap: "snap_hist g (vt_history x) (vt_flush x)" using vd(3) by (simp add: vote_fields_def)
  have gr: "2 \<le> card (acc3 (\<lambda>i. granted g' p i t))"
  proof -
    have "card (acc3 (\<lambda>i. granted g p i t)) \<le> card (acc3 (\<lambda>i. granted g' p i t))"
      using ext_granted [OF g] by (intro acc3_mono) blast
    then show ?thesis using won_granted [OF inv v two] by simp
  qed
  show ?thesis
  proof (cases "vt_history x = []")
    case True
    then have "vt_flush x = 0" using snap by (simp add: snap_hist_def)
    then show ?thesis using True h t new gr by (simp add: hist_ok_def th_wf_def)
  next
    case False
    then obtain q where q: "g_hist g (tl_term (last (vt_history x))) = Some (q, vt_history x)"
      and f: "tl_lsn (last (vt_history x)) \<le> vt_flush x"
      using snap by (auto simp: snap_hist_def)
    note ho = hist_okD [OF cinvD(6) [OF inv q]]
    have lsn: "\<forall>e\<in>set (vt_history x). tl_lsn e \<le> vt_flush x"
    proof
      fix e assume "e \<in> set (vt_history x)"
      then obtain j where j: "j < length (vt_history x)" "e = vt_history x ! j" by (auto simp: in_set_conv_nth)
      then have "tl_lsn e \<le> tl_lsn (last (vt_history x))"
        using th_wf_nth_lsn [OF ho(4), of j "length (vt_history x) - 1"] False by (simp add: last_conv_nth)
      then show "tl_lsn e \<le> vt_flush x" using f by simp
    qed
    have wf: "th_wf h" using ho(4) below lsn h by (auto simp: th_wf_def sorted_wrt_append)
    have pre: "\<exists>p'. g_hist g' (tl_term (h ! k)) = Some (p', take (Suc k) h)" if k: "k < length h" for k
    proof (cases "k < length (vt_history x)")
      case True
      then show ?thesis using ho(6) [OF True] extD(1) [OF g] h by (auto simp: nth_append)
    next
      case last: False
      then have "k = length (vt_history x)" using k h by simp
      then show ?thesis using h new by simp
    qed
    show ?thesis unfolding hist_ok_def using h t wf ho(5) False pre gr by (simp add: nth_append)
  qed
qed

lemma new_key_inv:
  assumes inv: "cinv g" and gr: "grows g p g'" and fresh: "g_hist g t = None"
    and only: "\<And>t'. t' \<noteq> t \<Longrightarrow> g_hist g' t' = g_hist g t'" and new: "g_hist g' t = Some (p, h)"
    and key: "\<And>t0 e. t0 < t \<Longrightarrow> 0 < e \<Longrightarrow> g_hist g t0 \<noteq> None \<Longrightarrow> g_start g t0 \<le> e \<Longrightarrow> choosable g t0 e \<Longrightarrow> carries h t0 e"
  shows "key_inv g'"
  unfolding key_inv_def
proof (intro allI impI)
  fix t0 t' e q h' assume a: "g_hist g' t' = Some (q, h')" "t0 < t'" "0 < e" "g_hist g' t0 \<noteq> None"
    "g_start g' t0 \<le> e" "choosable g' t0 e"
  have ch: "choosable g t0 e" using a(6) growsD(1,2) [OF gr] by (simp add: choosable_def)
  have "t0 \<noteq> t" if t': "t' \<noteq> t"
  proof
    assume "t0 = t"
    have h: "g_hist g t' = Some (q, h')" using a(1) only [OF t'] by simp
    obtain i where i: "i < 3" "e \<le> g_acked g i t0 \<or> v_term (g_vs g i) \<le> t0" "t' \<le> v_term (g_vs g i)"
      using acc3_meet [OF ch [unfolded choosable_def] voters_term [OF inv h]] by blast
    have "g_acked g i t = 0" using acked_hist(1) [OF inv i(1), of t] fresh by fastforce
    then show False using i a(2,3) \<open>t0 = t\<close> by simp
  qed
  then have nt: "t0 \<noteq> t" using a(2) by auto
  have old: "g_hist g t0 \<noteq> None" "g_start g t0 \<le> e" using a(4,5) only [OF nt] by (simp_all add: g_start_def)
  show "carries h' t0 e"
  proof (cases "t' = t")
    case True
    then show ?thesis using a new key [OF _ _ old ch] by simp
  next
    case False
    then show ?thesis using cinvD(7) [OF inv] a old ch only [OF False] unfolding key_inv_def by auto
  qed
qed

section \<open>Opening\<close>

lemma open_donorD:
  assumes "open_donor votes = Inr (d, ts, tr)" "length votes = 3"
  shows "2 \<le> card (acc3 (\<lambda>i. votes ! i \<noteq> None))" "d < 3"
    "\<exists>x. votes ! d = Some x \<and> ts = vt_flush x \<and>
       (\<forall>i<3. \<forall>y. votes ! i = Some y \<longrightarrow> vt_last_log_term y < vt_last_log_term x \<or>
          (vt_last_log_term y = vt_last_log_term x \<and> vt_flush y \<le> vt_flush x))"
    "tr \<le> ts" "tr = fold max (map vt_horizon (somes votes)) 0"
proof -
  have two: "\<not> length (somes votes) < QUORUM" and pd: "pick_donor (candidates votes) = Some d"
    and ts: "ts = vt_flush (the (votes ! d))" and tr: "tr = fold max (map vt_horizon (somes votes)) 0" "tr \<le> ts"
    using assms(1) by (auto simp: open_donor_def Let_def split: if_splits option.splits)
  show c: "2 \<le> card (acc3 (\<lambda>i. votes ! i \<noteq> None))"
    using two somes_card [OF assms(2)] by (simp add: QUORUM_def)
  have "candidates votes \<noteq> []" using candidates_card [OF assms(2)] c by auto
  then obtain f m where dm: "(d, m, f) \<in> set (candidates votes)"
    "\<forall>(j, l, f')\<in>set (candidates votes). l < m \<or> (l = m \<and> f' \<le> f)"
    using pick_donor_spec [of "candidates votes"] pd by auto
  then obtain x where x: "d < 3" "votes ! d = Some x" "m = vt_last_log_term x" "f = vt_flush x"
    using assms(2) by (auto simp: candidates_mem)
  have best: "vt_last_log_term y < vt_last_log_term x \<or> (vt_last_log_term y = vt_last_log_term x \<and> vt_flush y \<le> vt_flush x)"
    if "i < 3" "votes ! i = Some y" for i y
  proof -
    have "(i, vt_last_log_term y, vt_flush y) \<in> set (candidates votes)"
      using that assms(2) by (auto simp: candidates_mem)
    then show ?thesis using dm(2) x by auto
  qed
  show "d < 3" "tr \<le> ts" "tr = fold max (map vt_horizon (somes votes)) 0" using x tr by simp_all
  show "\<exists>x. votes ! d = Some x \<and> ts = vt_flush x \<and>
       (\<forall>i<3. \<forall>y. votes ! i = Some y \<longrightarrow> vt_last_log_term y < vt_last_log_term x \<or>
          (vt_last_log_term y = vt_last_log_term x \<and> vt_flush y \<le> vt_flush x))"
    using best x ts by auto
qed

lemma settled_fold_max:
  assumes "\<forall>c\<in>set cs. settled g t c" "settled g t a"
  shows "settled g t (fold max cs a)"
  using assms by (induction cs arbitrary: a) (simp_all add: settled_max)

lemma horizons_settled:
  assumes inv: "cinv g" and v: "votes_ok g p t votes"
  shows "settled g t (fold max (map vt_horizon (somes votes)) 0)"
proof (rule settled_fold_max)
  show "\<forall>c\<in>set (map vt_horizon (somes votes)). settled g t c"
  proof
    fix c assume "c \<in> set (map vt_horizon (somes votes))"
    then obtain x where x: "Some x \<in> set votes" "c = vt_horizon x" by (auto simp: somes_def)
    then obtain i where i: "i < length votes" "votes ! i = Some x" by (auto simp: in_set_conv_nth)
    then have "i < 3" using v by (simp add: votes_ok_def)
    then show "settled g t c" using votes_okD(2) [OF inv v _ i(2)] x(2) by (simp add: vote_ok_def)
  qed
qed simp

lemma fresh_term:
  assumes inv: "cinv g" and n: "g_hist g t = None"
  shows "no_elected g t" "g_wr g t q = None" "i < 3 \<Longrightarrow> g_acked g i t = 0"
proof -
  show "no_elected g t" unfolding no_elected_def
  proof (intro allI notI)
    fix p i s h assume "(p, i, Elected t s h) \<in> g_reqs g"
    then show False using cinvD(1) [OF inv] n by fastforce
  qed
  show "g_wr g t q = None" using cinvD(9) [OF inv n] .
  show "i < 3 \<Longrightarrow> g_acked g i t = 0" using acked_hist(1) [OF inv, of i t] n by fastforce
qed

lemma win_open_inv:
  assumes inv: "cinv (cluster_abs vw s)" and res: "win_open s p = Some s'"
  shows "cinv (cluster_abs vw s') \<and> ext (cluster_abs vw s) (cluster_abs vw s')"
proof -
  let ?g = "cluster_abs vw s"
  obtain t votes where p: "cl_procs s p = Campaigning t votes" using res by (auto simp: win_open_def split: proc.splits)
  have ok: "\<And>t h. g_hist ?g t \<noteq> Some (p, h)" "0 < t" "votes_ok ?g p t votes"
    using cinvD(4) [OF inv, of p] p by auto
  have len: "length votes = 3" using ok(3) by (simp add: votes_ok_def)
  consider (dead) "s' = set_proc s p Dead" | (win) d ts tr h where "open_donor votes = Inr (d, ts, tr)"
    "push_term (vt_history (the (votes ! d))) t ts = Inr h"
    "s' = (send (set_proc s p (Recovering t d ts tr h [])) (read_request p d tr ts))\<lparr>gh_hist := (gh_hist s)(t \<mapsto> (p, h))\<rparr>"
    using res p by (auto simp: win_open_def split: sum.splits prod.splits)
  then show ?thesis
  proof cases
    case dead
    then show ?thesis using die_inv [OF inv] ext_set_proc by simp
  next
    case win
    note od = open_donorD [OF win(1) len]
    obtain x where x: "votes ! d = Some x" "ts = vt_flush x" and best: "\<And>i y. i < 3 \<Longrightarrow> votes ! i = Some y \<Longrightarrow>
        vt_last_log_term y < vt_last_log_term x \<or> (vt_last_log_term y = vt_last_log_term x \<and> vt_flush y \<le> vt_flush x)"
      using od(3) by blast
    have h: "h = vt_history x @ [\<lparr>tl_term = t, tl_lsn = vt_flush x\<rparr>]"
      using win(2) x by (auto simp: push_term_def split: if_splits)
    let ?x = "Recovering t d ts tr h []"
    let ?g' = "?g\<lparr>g_procs := (cl_procs s)(p := ?x), g_reqs := set (cl_reqs s) \<union> set (read_request p d tr ts),
                   g_hist := (gh_hist s)(t \<mapsto> (p, h))\<rparr>"
    have s': "cluster_abs vw s' = ?g'" unfolding win(3) by (simp add: cluster_abs_def send_def set_proc_def)
    have fresh: "g_hist ?g t = None" using won_fresh [OF inv ok(3) od(1)] ok(1) by blast
    have g: "grows ?g p ?g'" using fresh by (simp add: grows_def)
    note e = grows_ext [OF g] and ft = fresh_term [OF inv fresh]
    have el: "(p', i, Elected t0 st h0) \<in> g_reqs ?g" if "(p', i, Elected t0 st h0) \<in> g_reqs ?g'" for p' i t0 st h0
      using that by (auto dest: read_request_mem)
    have "no_elected ?g' t" using ft(1) el unfolding no_elected_def by blast
    moreover have "settled ?g' t tr" using horizons_settled [OF inv ok(3)] od(5) ext_settled [OF e] by simp
    moreover have "\<exists>llt z c. (p, d, VoteRequest t, VoteResponse t True ts llt (butlast h) z c) \<in> set (cl_resps s)"
      using votes_okD(4) [OF inv ok(3) od(2) x(1)] x(2) h by auto
    ultimately have proc: "proc_ok ?g' p ?x" using h x ok(1) ft od(4) by (auto simp: written_def)
    have px: "g_procs ?g' p = ?x" by simp
    note nr = no_reads [OF inv, of p]
    have "cinv ?g'"
    proof (rule grow_step [OF inv g])
      show "proc_ok ?g' p (g_procs ?g' p)" unfolding px by (rule proc)
      show "req_ok ?g' y" if y: "y \<in> g_reqs ?g'" "y \<notin> g_reqs ?g" for y
      proof -
        have "y \<in> set (read_request p d tr ts)" using y by simp
        then obtain b where "b \<le> ts" "y = (p, d, Read tr b)" using read_request_mem by blast
        then show ?thesis using od(2) by simp
      qed
      show "hist_ok ?g' t' q h'" if "g_hist ?g' t' = Some (q, h')" "g_hist ?g t' = None" for t' q h'
      proof -
        have "t' = t" "q = p" "h' = h" using that by (auto split: if_splits)
        then show ?thesis using new_hist_ok [OF inv e ok(3,2) od(1,2) x(1) h] by simp
      qed
      show "key_inv ?g'"
      proof (rule new_key_inv [OF inv g fresh])
        fix t0 e assume a: "t0 < t" "0 < e" "g_hist ?g t0 \<noteq> None" "g_start ?g t0 \<le> e" "choosable ?g t0 e"
        have "carries (vt_history x) t0 e \<and> e \<le> vt_flush x"
          using donor_carries [OF inv ok(3) od(1,2) x(1) best a] .
        then show "carries h t0 e" unfolding h by (intro carries_snoc) auto
      qed simp_all
      show "\<And>p' i t0 st h0. (p', i, Elected t0 st h0) \<in> g_reqs ?g' \<Longrightarrow> (p', i, Elected t0 st h0) \<in> g_reqs ?g"
        by (rule el)
    qed (use nr p in auto)
    then show ?thesis unfolding s' using e by blast
  qed
qed

section \<open>Re-election\<close>

lemma reelect_adoptD:
  assumes "reelect_adopt sh t votes = Inr sh'" "length votes = 3"
  shows "2 \<le> card (acc3 (\<lambda>i. votes ! i \<noteq> None))"
    "\<exists>d<3. \<exists>x. votes ! d = Some x \<and> vt_history x = up_to (el_history (sh_election sh)) (vt_flush x) \<and>
       lb_base (sh_log sh) \<le> vt_flush x \<and> vt_flush x \<le> lb_head (sh_log sh) \<and>
       sh' = sh\<lparr>sh_peers := map (\<lambda>p. p\<lparr>p_failed := False, p_flush := 0\<rparr>) (sh_peers sh),
               sh_election := \<lparr>el_term = t, el_term_start_lsn = vt_flush x,
                 el_history = el_history (sh_election sh) @ [\<lparr>tl_term = t, tl_lsn = vt_flush x\<rparr>]\<rparr>\<rparr> \<and>
       (\<forall>i<3. \<forall>y. votes ! i = Some y \<longrightarrow> vt_last_log_term y < vt_last_log_term x \<or>
          (vt_last_log_term y = vt_last_log_term x \<and> vt_flush y \<le> vt_flush x))"
proof -
  obtain d where two: "\<not> length (candidates votes) < QUORUM" and pd: "pick_donor (candidates votes) = Some d"
    using assms(1) by (auto simp: reelect_adopt_def Let_def split: if_splits option.splits)
  show c: "2 \<le> card (acc3 (\<lambda>i. votes ! i \<noteq> None))"
    using two candidates_card [OF assms(2)] by (simp add: QUORUM_def)
  have "candidates votes \<noteq> []" using candidates_card [OF assms(2)] c by auto
  then obtain f m where dm: "(d, m, f) \<in> set (candidates votes)"
    "\<forall>(j, l, f')\<in>set (candidates votes). l < m \<or> (l = m \<and> f' \<le> f)"
    using pick_donor_spec [of "candidates votes"] pd by auto
  then obtain x where x: "d < 3" "votes ! d = Some x" "m = vt_last_log_term x" "f = vt_flush x"
    using assms(2) by (auto simp: candidates_mem)
  have best: "vt_last_log_term y < vt_last_log_term x \<or> (vt_last_log_term y = vt_last_log_term x \<and> vt_flush y \<le> vt_flush x)"
    if "i < 3" "votes ! i = Some y" for i y
  proof -
    have "(i, vt_last_log_term y, vt_flush y) \<in> set (candidates votes)"
      using that assms(2) by (auto simp: candidates_mem)
    then show ?thesis using dm(2) x by auto
  qed
  show "\<exists>d<3. \<exists>x. votes ! d = Some x \<and> vt_history x = up_to (el_history (sh_election sh)) (vt_flush x) \<and>
       lb_base (sh_log sh) \<le> vt_flush x \<and> vt_flush x \<le> lb_head (sh_log sh) \<and>
       sh' = sh\<lparr>sh_peers := map (\<lambda>p. p\<lparr>p_failed := False, p_flush := 0\<rparr>) (sh_peers sh),
               sh_election := \<lparr>el_term = t, el_term_start_lsn = vt_flush x,
                 el_history = el_history (sh_election sh) @ [\<lparr>tl_term = t, tl_lsn = vt_flush x\<rparr>]\<rparr>\<rparr> \<and>
       (\<forall>i<3. \<forall>y. votes ! i = Some y \<longrightarrow> vt_last_log_term y < vt_last_log_term x \<or>
          (vt_last_log_term y = vt_last_log_term x \<and> vt_flush y \<le> vt_flush x))"
    using assms(1) pd x best two by (intro exI [of _ d] conjI exI [of _ x])
      (auto simp: reelect_adopt_def Let_def split: if_splits)
qed

lemma up_to_all: "\<forall>e\<in>set h. tl_lsn e \<le> f \<Longrightarrow> up_to h f = h"
  by (simp add: up_to_def)

lemma hist_lsns:
  assumes "th_wf h" "h \<noteq> []" "tl_lsn (last h) \<le> f"
  shows "\<forall>e\<in>set h. tl_lsn e \<le> f"
proof
  fix e assume "e \<in> set h"
  then obtain j where j: "j < length h" "e = h ! j" by (auto simp: in_set_conv_nth)
  then have "tl_lsn e \<le> tl_lsn (last h)"
    using th_wf_nth_lsn [OF assms(1), of j "length h - 1"] assms(2) by (simp add: last_conv_nth)
  then show "tl_lsn e \<le> f" using assms(3) by simp
qed

text \<open>The state of a leader right after it adopted a new term.\<close>

lemma readopt_leader:
  assumes inv: "cinv g" and l: "leader_ok g p l" and e: "ext g g'" and fresh: "g_hist g t = None"
    and t: "el_term (sh_election (ld_sh l)) < t"
    and h: "h = el_history (sh_election (ld_sh l)) @ [\<lparr>tl_term = t, tl_lsn = f\<rparr>]"
    and f: "el_term_start_lsn (sh_election (ld_sh l)) \<le> f" "lb_base (sh_log (ld_sh l)) \<le> f" "f \<le> lb_head (sh_log (ld_sh l))"
    and sh': "sh' = (ld_sh l)\<lparr>sh_peers := map (\<lambda>p. p\<lparr>p_failed := False, p_flush := 0\<rparr>) (sh_peers (ld_sh l)),
               sh_election := \<lparr>el_term = t, el_term_start_lsn = f, el_history = h\<rparr>\<rparr>"
    and g': "g_hist g' = (g_hist g)(t \<mapsto> (p, h))" "g_wr g' = write_log (g_wr g) t f (sh_log (ld_sh l))" "g_acked g' = g_acked g"
    and wf: "th_wf h"
  shows "leader_ok g' p \<lparr>ld_sh = sh', ld_els = sh_election sh' # ld_els l, ld_conn = replicate QUORUM_SIZE None, ld_cand = None\<rparr>"
    (is "leader_ok g' p ?l")
proof -
  note d = leader_okD [OF l] and ft = fresh_term [OF inv fresh] and lh = leader_hist [OF inv l]
  have el: "election_ok g' p (sh_election sh')" using g'(1) sh' h by (simp add: election_ok_def)
  have old: "election_ok g' p x" if "x \<in> set (ld_els l)" for x using ext_election_ok [OF e d(2) [OF that]] .
  have lw: "log_wf (sh_log (ld_sh l))" using d(1) by (simp add: shared_wf_def)
  have "written g h (lb_base (sh_log (ld_sh l))) (take (f - lb_base (sh_log (ld_sh l))) (rm_bytes (lb_records (sh_log (ld_sh l)))))"
    unfolding written_def
  proof (intro allI impI)
    fix j assume j: "j < length (take (f - lb_base (sh_log (ld_sh l))) (rm_bytes (lb_records (sh_log (ld_sh l)))))"
    let ?q = "lb_base (sh_log (ld_sh l)) + j"
    have "last_log_term h ?q = last_log_term (el_history (sh_election (ld_sh l))) ?q"
      unfolding h by (rule last_log_term_append_beyond) (use j in auto)
    then show "g_wr g (last_log_term h ?q) ?q = Some (take (f - lb_base (sh_log (ld_sh l))) (rm_bytes (lb_records (sh_log (ld_sh l)))) ! j)"
      using d(9) j by (simp add: written_def)
  qed
  then have w: "written g' h (lb_base (sh_log (ld_sh l))) (rm_bytes (lb_records (sh_log (ld_sh l))))"
    by (intro written_write_log [OF lw wf _ _ _ f(2) e g'(2)]) (simp_all add: h)
  have own: "g_hist g' t' \<noteq> Some (p, x)" if "t < t'" for t' x
    using d(4) [of t' x] that t g'(1) by auto
  have sw: "shared_wf sh'" using d(1) sh' by (simp add: shared_wf_def)
  have st: "settled g' t c" if "settled g (el_term (sh_election (ld_sh l))) c" for c
    using ext_settled [OF e that] t by (auto intro: settled_term)
  have pf: "p_flush (sh_peers sh' ! i) = 0" if "i < 3" for i
    using sh' that d(1) by (simp add: shared_wf_def QUORUM_SIZE_def)
  have wn: "g_wr g' t q = None" if "lb_head (sh_log (ld_sh l)) \<le> q" for q
    using g'(2) ft(2) that by (simp add: write_log_def)
  have eqs: "ld_sh ?l = sh'" "sh_election sh' = \<lparr>el_term = t, el_term_start_lsn = f, el_history = h\<rparr>"
    "sh_log sh' = sh_log (ld_sh l)" "sh_commit sh' = sh_commit (ld_sh l)" "sh_horizon sh' = sh_horizon (ld_sh l)"
    using sh' by simp_all
  show ?thesis
  proof (rule leader_okI, unfold eqs(1))
    show "shared_wf sh'" by (rule sw)
    show "election_ok g' p (sh_election sh')" by (rule el)
    show "\<And>x. x \<in> set (ld_els ?l) \<Longrightarrow> election_ok g' p x" using el old by auto
    show "\<And>t' h. el_term (sh_election sh') < t' \<Longrightarrow> g_hist g' t' \<noteq> Some (p, h)" using own eqs(2) by simp
    show "settled g' (el_term (sh_election sh')) (lb_base (sh_log sh'))"
      "settled g' (el_term (sh_election sh')) (sh_horizon sh')" "settled g' (el_term (sh_election sh')) (sh_commit sh')"
      using st d(6-8) eqs by simp_all
    show "written g' (el_history (sh_election sh')) (lb_base (sh_log sh')) (rm_bytes (lb_records (sh_log sh')))"
      using w eqs by simp
    show "\<And>q. lb_head (sh_log sh') \<le> q \<Longrightarrow> g_wr g' (el_term (sh_election sh')) q = None" using wn eqs by simp
  qed (use f(3) ft(3) g'(3) pf eqs in \<open>simp_all add: QUORUM_SIZE_def\<close>)
qed

lemma readopt_inv:
  assumes inv: "cinv (cluster_abs vw s)" and res: "readopt s p = Some s'" and reg: "regular s (ReAdopt p)"
  shows "cinv (cluster_abs vw s') \<and> ext (cluster_abs vw s) (cluster_abs vw s')"
proof -
  let ?g = "cluster_abs vw s"
  obtain l t votes where p: "cl_procs s p = Leading l" and c: "ld_cand l = Some (t, votes)"
    using res by (auto simp: readopt_def split: proc.splits option.splits)
  have l: "leader_ok ?g p l" using cinvD(4) [OF inv, of p] p by simp
  note d = leader_okD [OF l] and lh = leader_hist [OF inv l]
  have v: "votes_ok ?g p t votes" and t: "el_term (sh_election (ld_sh l)) < t" using d(15,16) [OF c] by blast+
  have len: "length votes = 3" using v by (simp add: votes_ok_def)
  show ?thesis
  proof (cases "reelect_adopt (ld_sh l) t votes")
    case (Inl e)
    then have "s' = set_proc s p (Leading (l\<lparr>ld_cand := None\<rparr>))" using res p c by (simp add: readopt_def)
    moreover have "leader_ok ?g p (l\<lparr>ld_cand := None\<rparr>)" by (rule leader_ok_cand [OF l]) simp
    ultimately show ?thesis using set_proc_leader [OF inv] ext_set_proc by blast
  next
    case (Inr sh')
    note two = reelect_adoptD(1) [OF Inr len]
    obtain dn x where dn: "dn < 3" "votes ! dn = Some x" and hx: "vt_history x = up_to (el_history (sh_election (ld_sh l))) (vt_flush x)"
      and f: "lb_base (sh_log (ld_sh l)) \<le> vt_flush x" "vt_flush x \<le> lb_head (sh_log (ld_sh l))"
      and sh': "sh' = (ld_sh l)\<lparr>sh_peers := map (\<lambda>p. p\<lparr>p_failed := False, p_flush := 0\<rparr>) (sh_peers (ld_sh l)),
               sh_election := \<lparr>el_term = t, el_term_start_lsn = vt_flush x,
                 el_history = el_history (sh_election (ld_sh l)) @ [\<lparr>tl_term = t, tl_lsn = vt_flush x\<rparr>]\<rparr>\<rparr>"
      and best: "\<And>i y. i < 3 \<Longrightarrow> votes ! i = Some y \<Longrightarrow>
        vt_last_log_term y < vt_last_log_term x \<or> (vt_last_log_term y = vt_last_log_term x \<and> vt_flush y \<le> vt_flush x)"
      using reelect_adoptD(2) [OF Inr len] by blast
    have fs: "el_term_start_lsn (sh_election (ld_sh l)) \<le> vt_flush x"
      using reg p c Inr sh' by simp
    have "vt_history x = el_history (sh_election (ld_sh l))"
      unfolding hx using hist_lsns [OF hist_okD(4,1) [OF lh(1)]] fs lh(3) by (intro up_to_all) simp
    note hx = this
    define h where "h = el_history (sh_election (ld_sh l)) @ [\<lparr>tl_term = t, tl_lsn = vt_flush x\<rparr>]"
    have h: "h = vt_history x @ [\<lparr>tl_term = t, tl_lsn = vt_flush x\<rparr>]" using hx h_def by simp
    let ?l = "\<lparr>ld_sh = sh', ld_els = sh_election sh' # ld_els l, ld_conn = replicate QUORUM_SIZE None, ld_cand = None\<rparr>"
    let ?g' = "?g\<lparr>g_procs := (cl_procs s)(p := Leading ?l), g_hist := (gh_hist s)(t \<mapsto> (p, h)),
                   g_wr := write_log (gh_wr s) t (vt_flush x) (sh_log (ld_sh l))\<rparr>"
    have lup: "l\<lparr>ld_sh := sh', ld_els := sh_election sh' # ld_els l, ld_conn := replicate QUORUM_SIZE None, ld_cand := None\<rparr> = ?l"
      by simp
    have el': "el_history (sh_election sh') = h" "el_term_start_lsn (sh_election sh') = vt_flush x" "sh_log sh' = sh_log (ld_sh l)"
      unfolding sh' h_def by simp_all
    have "s' = (set_proc s p (Leading ?l))\<lparr>gh_hist := (gh_hist s)(t \<mapsto> (p, h)),
                gh_wr := write_log (gh_wr s) t (vt_flush x) (sh_log (ld_sh l))\<rparr>"
      using res p c Inr unfolding readopt_def by (simp only: proc.case option.case prod.case sum.case lup el' option.inject)
    then have s': "cluster_abs vw s' = ?g'" by (simp add: cluster_abs_def set_proc_def)
    have fresh: "g_hist ?g t = None" using won_fresh [OF inv v two] d(4) [OF t] by blast
    note ft = fresh_term [OF inv fresh]
    have g: "grows ?g p ?g'" using fresh ft(2) by (auto simp: grows_def write_log_def)
    note e = grows_ext [OF g]
    have nh: "hist_ok ?g' t p h" using new_hist_ok [OF inv e v _ two dn h] t by simp
    have lead: "leader_ok ?g' p ?l"
      by (rule readopt_leader [OF inv l e fresh t h_def fs f]) (use sh' h_def hist_okD(4) [OF nh] in simp_all)
    have "cinv ?g'"
    proof (rule grow_step [OF inv g])
      show "proc_ok ?g' p (g_procs ?g' p)" using lead by simp
      show "hist_ok ?g' t' q h'" if "g_hist ?g' t' = Some (q, h')" "g_hist ?g t' = None" for t' q h'
      proof -
        have "t' = t" "q = p" "h' = h" using that by (auto split: if_splits)
        then show ?thesis using nh by simp
      qed
      show "key_inv ?g'"
      proof (rule new_key_inv [OF inv g fresh])
        fix t0 e assume a: "t0 < t" "0 < e" "g_hist ?g t0 \<noteq> None" "g_start ?g t0 \<le> e" "choosable ?g t0 e"
        have "carries (vt_history x) t0 e \<and> e \<le> vt_flush x"
          using donor_carries [OF inv v two dn best a] .
        then show "carries h t0 e" unfolding h by (intro carries_snoc) auto
      qed simp_all
      show "req_ok ?g' (p, i, Read a b)" if "(p, i, Read a b) \<in> g_reqs ?g" for i a b
        using cinvD(1) [OF inv that] by simp
      show "resp_ok ?g' (p, i, Read a b, ReadResp a' rs)" if "(p, i, Read a b, ReadResp a' rs) \<in> g_resps ?g" for i a b a' rs
        using cinvD(3) [OF inv that] by simp
    qed simp_all
    then show ?thesis unfolding s' using e by blast
  qed
qed

end
