(* ===== verification/ClusterAccept.thy ===== *)
theory ClusterAccept
  imports ClusterElect
begin

text \<open>
  Steps of one acceptor: what has to be shown of its new state and of its answer, and why a
  position it reaches never exceeds the log of the proposer it follows.
\<close>

section \<open>Positions below the head of the leader\<close>

lemma settled_head:
  assumes inv: "cinv g" and l: "leader_ok g q l" and c: "settled g (el_term (sh_election (ld_sh l))) c"
  shows "c \<le> lb_head (sh_log (ld_sh l))"
proof (cases "c = 0")
  case False
  let ?t = "el_term (sh_election (ld_sh l))"
  note lh = leader_hist [OF inv l]
  obtain t0 e0 where ch: "t0 \<le> ?t" "c \<le> e0" "chosen g t0 e0" using c False by (auto simp: settled_def)
  show ?thesis
  proof (cases "t0 = ?t")
    case True
    then have "2 \<le> card (acc3 (\<lambda>i. e0 \<le> g_acked g i ?t))" using ch(3) by (simp add: chosen_def)
    from acc3_meet [OF this this] obtain i where "i < 3" "e0 \<le> g_acked g i ?t" by blast
    then show ?thesis using leader_okD(11) [OF l, of i] ch(2) by simp
  next
    case less: False
    then have lt: "t0 < ?t" using ch(1) by simp
    have "carries (el_history (sh_election (ld_sh l))) t0 e0"
      using cinvD(7) [OF inv] lh(2) lt False ch chosen_choosable [OF ch(3)] unfolding key_inv_def chosen_def by auto
    then have "e0 \<le> tl_lsn (last (el_history (sh_election (ld_sh l))))" using hist_last_le(2) [OF inv lh(2) _ lt] by blast
    then show ?thesis using leader_okD(5) [OF l] lh(3) ch(2) by simp
  qed
qed simp

lemma last_log_term_before_last:
  assumes wf: "th_wf h" and ne: "h \<noteq> []" and n: "last_log_term h q \<noteq> tl_term (last h)"
  shows "q < tl_lsn (last h)"
  using last_log_term_last [OF wf ne, of q] n by (meson not_le)

lemma flush_head:
  assumes inv: "cinv g" and l: "leader_ok g q l"
    and lo: "settled g (el_term (sh_election (ld_sh l))) a" and w: "written g (el_history (sh_election (ld_sh l))) a bs"
  shows "a + length bs \<le> lb_head (sh_log (ld_sh l))"
proof (cases bs rule: rev_cases)
  case Nil
  then show ?thesis using settled_head [OF inv l lo] by simp
next
  case (snoc xs x)
  let ?q = "a + length xs" and ?h = "el_history (sh_election (ld_sh l))"
  note lh = leader_hist [OF inv l]
  have wr: "g_wr g (last_log_term ?h ?q) ?q = Some x" using w snoc by (auto simp: written_def)
  have "?q < lb_head (sh_log (ld_sh l))"
  proof (cases "last_log_term ?h ?q = tl_term (last ?h)")
    case True
    then have "g_wr g (el_term (sh_election (ld_sh l))) ?q \<noteq> None" using wr hist_okD(3) [OF lh(1)] by simp
    then show ?thesis using leader_okD(10) [OF l, of ?q] by (meson not_le)
  next
    case False
    then show ?thesis
      using last_log_term_before_last [OF hist_okD(4,1) [OF lh(1)]] leader_okD(5) [OF l] lh(3) by fastforce
  qed
  then show ?thesis using snoc by simp
qed

section \<open>The step\<close>

lemma acc_okI:
  assumes "v = g_vs g i" "v_hist v = [] \<or> (\<exists>t p. g_hist g t = Some (p, v_hist v) \<and> t \<le> v_term v)"
    "v_hist v = [] \<Longrightarrow> v_empty v"
    "\<And>t. v_empty v \<Longrightarrow> v_log v = [] \<and> v_lo v = 0 \<and> g_acked g i t = 0"
    "written g (v_hist v) (v_lo v) (v_log v)"
    "settled g (v_term v) (v_commit v)" "settled g (v_term v) (v_hor v)" "settled g (v_term v) (v_lo v)"
    "\<And>t. ok_at g i t \<Longrightarrow> t \<le> v_term v \<and> (t = v_term v \<longrightarrow> (\<exists>p. g_hist g t = Some (p, v_hist v)))"
    "\<And>t. 0 < g_acked g i t \<Longrightarrow> ok_at g i t" "g_acked g i (v_term v) \<le> v_flush v"
    "\<And>t e. binding g i t e \<Longrightarrow> carries (up_to (v_hist v) (v_flush v)) t e \<and> e \<le> v_flush v"
  shows "acc_ok g i"
  using assms unfolding acc_ok_def Let_def by simp

lemma ext_binding_same:
  assumes "cinv g" "ext g g'" "i < 3" "binding g' i t e" "g_acked g' i t = g_acked g i t"
  shows "binding g i t e"
proof -
  have "0 < g_acked g i t" using assms(4,5) by (auto simp: binding_def)
  then obtain x where "g_hist g t = Some x" using acked_hist(1) [OF assms(1,3)] by blast
  then have "g_start g' t = g_start g t" using ext_start [OF assms(2)] by blast
  then show ?thesis using assms(4,5) ext_choosable [OF assms(2)] by (simp add: binding_def)
qed

lemma ext_acc_ok:
  assumes inv: "cinv g" and e: "ext g g'" and j: "j < 3" and same: "g_vs g' j = g_vs g j" "g_acked g' j = g_acked g j"
    and ok: "\<And>t. ok_at g' j t \<Longrightarrow> ok_at g j t"
  shows "acc_ok g' j"
proof -
  note a = acc_okD [OF cinvD(5) [OF inv j]]
  show ?thesis
  proof (rule acc_okI [OF refl], unfold same)
    show "v_hist (g_vs g j) = [] \<or> (\<exists>t p. g_hist g' t = Some (p, v_hist (g_vs g j)) \<and> t \<le> v_term (g_vs g j))"
      using a(1) extD(1) [OF e] by blast
    show "written g' (v_hist (g_vs g j)) (v_lo (g_vs g j)) (v_log (g_vs g j))" using a(4) ext_written [OF e] by blast
    show "settled g' (v_term (g_vs g j)) (v_commit (g_vs g j))" "settled g' (v_term (g_vs g j)) (v_hor (g_vs g j))"
      "settled g' (v_term (g_vs g j)) (v_lo (g_vs g j))"
      using a(5-7) ext_settled [OF e] by blast+
    show "t \<le> v_term (g_vs g j) \<and> (t = v_term (g_vs g j) \<longrightarrow> (\<exists>p. g_hist g' t = Some (p, v_hist (g_vs g j))))"
      if "ok_at g' j t" for t
      using a(8,9) [OF ok [OF that]] extD(1) [OF e] by blast
    show "ok_at g' j t" if "0 < g_acked g j t" for t using a(10) [OF that] ext_ok_at [OF e] by blast
    show "carries (up_to (v_hist (g_vs g j)) (v_flush (g_vs g j))) t x \<and> x \<le> v_flush (g_vs g j)"
      if "binding g' j t x" for t x
      using a(12) ext_binding_same [OF inv e j that] same(2) by simp
  qed (use a(2,3,11) in blast)+
qed

lemma acc_step:
  assumes inv: "cinv g" and i: "i < 3"
    and g': "g' = g\<lparr>g_vs := (g_vs g)(i := v'), g_resps := g_resps g \<union> R, g_acked := (g_acked g)(i := A)\<rparr>"
    and e: "ext g g'" and fz: "frozen g g' i" and acc: "acc_ok g' i"
    and R: "\<And>x. x \<in> R \<Longrightarrow> \<exists>p m r. x = (p, i, m, r) \<and> (p, i, m) \<in> g_reqs g \<and> resp_ok g' x"
    and one: "\<And>x y. x \<in> R \<Longrightarrow> y \<in> R \<Longrightarrow> x = y"
    and gr: "\<And>p t f llt h z c. (p, i, VoteRequest t, VoteResponse t True f llt h z c) \<in> R \<Longrightarrow> v_term (g_vs g i) < t"
    and ack: "\<And>t q h. g_hist g t = Some (q, h) \<Longrightarrow> A t \<noteq> g_acked g i t \<Longrightarrow>
       \<not> no_elected g t \<and> v_term v' = t \<and> v_hist v' = h \<and> settled g t (v_lo v') \<and> written g h (v_lo v') (v_log v')"
  shows "cinv g'"
proof -
  have f [simp]: "g_vs g' = (g_vs g)(i := v')" "g_resps g' = g_resps g \<union> R" "g_acked g' = (g_acked g)(i := A)"
    "g_reqs g' = g_reqs g" "g_procs g' = g_procs g" "g_hist g' = g_hist g" "g_wr g' = g_wr g"
    by (simp_all add: g')
  have same: "written g' = written g" "no_elected g' = no_elected g" "g_start g' = g_start g"
    by (simp_all add: written_def no_elected_def g_start_def fun_eq_iff)
  have reqs: "req_ok g' y" if "y \<in> g_reqs g" for y
  proof -
    obtain q j m where y: "y = (q, j, m)" by (cases y)
    have old: "req_ok g (q, j, m)" using cinvD(1) [OF inv that] y by simp
    have "req_ok g' (q, j, m)" if "m = Read a b" for a b using old that by simp
    then show ?thesis unfolding y by (rule ext_req_ok [OF e old])
  qed
  have resps: "resp_ok g' (q, j, m, r)" if mem: "(q, j, m, r) \<in> g_resps g" for q j m r
  proof (rule ext_resp_ok [OF inv e mem])
    show "frozen g g' j" using fz by (cases "j = i") (simp_all add: frozen_def)
    show "resp_ok g' (q, j, m, r)" if "m = Read a b" "r = ReadResp a' rs" for a b a' rs
      using cinvD(3) [OF inv mem] that same by (auto split: proc.splits)
  qed
  have flush: "A t \<le> lb_head (sh_log (ld_sh l))"
    if l: "leader_ok g q l" and t: "t = el_term (sh_election (ld_sh l))" and ne: "A t \<noteq> g_acked g i t" for q l t
  proof -
    have h: "g_hist g t = Some (q, el_history (sh_election (ld_sh l)))" using leader_hist(2) [OF inv l] t by simp
    note k = ack [OF h ne]
    have "v_flush v' \<le> lb_head (sh_log (ld_sh l))"
      using flush_head [OF inv l] k t by (simp add: v_flush_def)
    moreover have "A t \<le> v_flush v'" using acc_okD(11) [OF acc] k by simp
    ultimately show ?thesis by simp
  qed
  have procs: "proc_ok g' q (g_procs g q)" for q
  proof (cases "g_procs g q")
    case (Recovering t donor ts tr h bs)
    then have ok: "proc_ok g q (Recovering t donor ts tr h bs)" using cinvD(4) [OF inv, of q] by simp
    have "A t = g_acked g i t" using ok ack [of t q h] by auto
    then have "\<forall>j<3. g_acked g' j t = 0" using ok i by auto
    then show ?thesis using ok Recovering same ext_settled [OF e] by auto
  next
    case (Leading l)
    then have l: "leader_ok g q l" using cinvD(4) [OF inv, of q] by simp
    have "leader_ok g' q l"
    proof (rule ext_leader_ok [OF inv e l])
      show "g_acked g' j (el_term (sh_election (ld_sh l))) \<le> lb_head (sh_log (ld_sh l))" if "j < 3" for j
        using leader_okD(11) [OF l that] flush [OF l refl] by (cases "j = i") force+
    qed (use leader_okD(10) [OF l] in simp_all)
    then show ?thesis using Leading by simp
  qed (use cinvD(4) [OF inv, of q] ext_votes_ok [OF e] in simp_all)
  have accs: "acc_ok g' j" if "j < 3" for j
  proof (cases "j = i")
    case False
    have "ok_at g j t" if "ok_at g' j t" for t
      using that R False unfolding ok_at_def by fastforce
    then show ?thesis using ext_acc_ok [OF inv e \<open>j < 3\<close>] False by simp
  qed (use acc in simp)
  have uniq: "p = p'" if a: "granted g' p j t" "granted g' p' j t" for p p' j t
  proof -
    have old: "granted g q j t \<or> (j = i \<and> v_term (g_vs g i) < t \<and> (\<exists>f llt h z c.
        (q, i, VoteRequest t, VoteResponse t True f llt h z c) \<in> R))" if "granted g' q j t" for q
    proof -
      obtain f llt h z c where m: "(q, j, VoteRequest t, VoteResponse t True f llt h z c) \<in> g_resps g \<union> R"
        using \<open>granted g' q j t\<close> unfolding granted_def f by blast
      show ?thesis
      proof (cases "(q, j, VoteRequest t, VoteResponse t True f llt h z c) \<in> g_resps g")
        case True
        then show ?thesis unfolding granted_def by blast
      next
        case False
        then have r: "(q, j, VoteRequest t, VoteResponse t True f llt h z c) \<in> R" using m by blast
        then have "j = i" using R by blast
        then show ?thesis using r gr by blast
      qed
    qed
    have lim: "\<not> granted g q i t" if "v_term (g_vs g i) < t" for q
      using granted_term [OF inv, of q i t] that by auto
    show ?thesis using old [OF a(1)] old [OF a(2)] lim one cinvD(8) [OF inv] unfolding grants_unique_def
      by (metis prod.inject)
  qed
  have key: "key_inv g'"
    using cinvD(7) [OF inv] ext_choosable [OF e] same(3) unfolding key_inv_def f by metis
  show ?thesis unfolding cinv_def f
  proof (intro conjI allI impI ballI)
    show "\<And>t p h. g_hist g t = Some (p, h) \<Longrightarrow> hist_ok g' t p h" using cinvD(6) [OF inv] ext_hist_ok [OF e] by blast
    show "grants_unique g'" using uniq unfolding grants_unique_def by blast
    show "g_wr g t = Map.empty" if "g_hist g t = None" for t using cinvD(9) [OF inv that] by (simp add: fun_eq_iff)
    show "(p, j, m) \<in> g_reqs g" if "(p, j, m, r) \<in> g_resps g \<union> R" for p j m r
      using that cinvD(2) [OF inv] R by blast
    show "resp_ok g' (p, j, m, r)" if "(p, j, m, r) \<in> g_resps g \<union> R" for p j m r
      using that resps R by blast
  qed (use reqs procs accs key in blast)+
qed

end
