(* ===== verification/ClusterDeliver.thy ===== *)
theory ClusterDeliver
  imports ClusterAccept
begin

text \<open>The outcomes of \<open>vstep\<close> one by one: votes, reads, elected messages and appends.\<close>

section \<open>Votes, refusals, reads and restarts\<close>

lemma hist_terms_le:
  assumes inv: "cinv g" and h: "g_hist g t = Some (p, h)" and x: "x \<in> set h"
  shows "tl_term x \<le> t"
proof -
  note ho = hist_okD [OF cinvD(6) [OF inv h]]
  obtain j where j: "j < length h" "x = h ! j" using x by (auto simp: in_set_conv_nth)
  have "j < length h - 1 \<or> j = length h - 1" using j(1) by linarith
  then show ?thesis using th_wf_nth_term [OF ho(4), of j "length h - 1"] j ho(1,3) by (auto simp: last_conv_nth)
qed

lemma plain_step:
  assumes inv: "cinv g" and i: "i < 3" and v': "v' = (g_vs g i)\<lparr>v_commit := c, v_term := t\<rparr>"
    and c: "c \<le> v_commit (g_vs g i)" and t: "v_term (g_vs g i) \<le> t"
    and g': "g' = g\<lparr>g_vs := (g_vs g)(i := v'), g_resps := g_resps g \<union> R\<rparr>"
    and R: "\<And>x. x \<in> R \<Longrightarrow> \<exists>p m r. x = (p, i, m, r) \<and> (p, i, m) \<in> g_reqs g \<and> acked_by r = None \<and>
       (ext g g' \<longrightarrow> resp_ok g' x)"
    and one: "\<And>x y. x \<in> R \<Longrightarrow> y \<in> R \<Longrightarrow> x = y"
    and gr: "\<And>p t f llt h z c. (p, i, VoteRequest t, VoteResponse t True f llt h z c) \<in> R \<Longrightarrow> v_term (g_vs g i) < t"
  shows "cinv g'"
proof (rule acc_step [OF inv i])
  note a = acc_okD [OF cinvD(5) [OF inv i]]
  let ?v = "g_vs g i"
  have fl: "v_flush v' = v_flush ?v" by (simp add: v' v_flush_def)
  show "g' = g\<lparr>g_vs := (g_vs g)(i := v'), g_resps := g_resps g \<union> R, g_acked := (g_acked g)(i := g_acked g i)\<rparr>"
    by (simp add: g')
  show e: "ext g g'" unfolding ext_def g' using t by (simp add: v')
  show "frozen g g' i" by (simp add: frozen_def g' fl) (simp add: v')
  have same: "written g' = written g" "g_acked g' = g_acked g" "g_hist g' = g_hist g"
    by (simp_all add: g' written_def fun_eq_iff)
  have f: "g_resps g' = g_resps g \<union> R" by (simp add: g')
  have ok: "ok_at g i x" if ox: "ok_at g' i x" for x
  proof -
    obtain p st h where "(p, i, Elected x st h, ElectedResp x True) \<in> g_resps g \<union> R"
      using ox unfolding ok_at_def f by blast
    moreover have "(p, i, Elected x st h, ElectedResp x True) \<notin> R" using R by (fastforce simp: acked_by_def)
    ultimately show ?thesis unfolding ok_at_def by blast
  qed
  show "acc_ok g' i"
  proof (rule acc_okI [of v'])
    show "v' = g_vs g' i" by (simp add: g')
    show "v_hist v' = [] \<or> (\<exists>t p. g_hist g' t = Some (p, v_hist v') \<and> t \<le> v_term v')"
      using a(1) t le_trans unfolding v' same by (fastforce)
    show "settled g' (v_term v') (v_commit v')"
      using ext_settled [OF e a(5)] t c by (auto simp: v' intro: settled_term settled_le)
    show "settled g' (v_term v') (v_hor v')" "settled g' (v_term v') (v_lo v')"
      using ext_settled [OF e] a(6,7) t by (auto simp: v' intro: settled_term)
    show "x \<le> v_term v' \<and> (x = v_term v' \<longrightarrow> (\<exists>p. g_hist g' x = Some (p, v_hist v')))" if "ok_at g' i x" for x
      using a(8,9) [OF ok [OF that]] t by (auto simp: v' same)
    show "ok_at g' i x" if "0 < g_acked g' i x" for x using a(10) ext_ok_at [OF e] that same by simp
    show "g_acked g' i (v_term v') \<le> v_flush v'"
    proof (cases "t = v_term ?v")
      case True
      then show ?thesis using a(11) by (simp add: v' same v_flush_def)
    next
      case False
      then have "g_acked g i t = 0" using acked_hist(3) [OF inv i, of t] t by fastforce
      then show ?thesis by (simp add: v' same)
    qed
    show "carries (up_to (v_hist v') (v_flush v')) x y \<and> y \<le> v_flush v'" if "binding g' i x y" for x y
      using a(12) [OF ext_binding_same [OF inv e i that]] same fl by (simp add: v' v_flush_def)
  qed (use a(2,3,4) in \<open>simp_all add: v' same\<close>)
  show "\<And>x. x \<in> R \<Longrightarrow> \<exists>p m r. x = (p, i, m, r) \<and> (p, i, m) \<in> g_reqs g \<and> resp_ok g' x" using R e by blast
qed (use one gr in blast)+

text \<open>What an acceptor reports of itself in a vote.\<close>

lemma view_vote_fields:
  assumes inv: "cinv g" and i: "i < 3" and v: "v = g_vs g i"
  shows "vote_fields g i (v_flush v) (last_log_term (v_hist v) (v_flush v)) (up_to (v_hist v) (v_flush v))"
proof -
  note a = acc_okD [OF cinvD(5) [OF inv i]]
  let ?u = "up_to (v_hist v) (v_flush v)"
  have llt: "last_log_term (v_hist v) (v_flush v) = (if ?u = [] then 0 else tl_term (last ?u))"
    by (simp add: last_log_term_def Let_def)
  have snap: "snap_hist g ?u (v_flush v)"
  proof (cases "v_hist v = []")
    case True
    then have "v_log v = []" "v_lo v = 0" using a(2,3) v by auto
    then show ?thesis using True by (simp add: snap_hist_def v_flush_def)
  next
    case False
    then obtain t p where h: "g_hist g t = Some (p, v_hist v)" using a(1) v by blast
    note ho = hist_okD [OF cinvD(6) [OF inv h]]
    obtain n where n: "?u = take n (v_hist v)" using ho(4) by (rule up_to_prefix)
    have "v_hist v ! 0 \<in> set ?u" using False ho(5) by (simp add: up_to_def)
    then have ne: "?u \<noteq> []" by auto
    let ?k = "min n (length (v_hist v)) - 1"
    have k: "?k < length (v_hist v)" "take (Suc ?k) (v_hist v) = ?u" "v_hist v ! ?k = last ?u"
      using ne False n by (auto simp: last_conv_nth min_def)
    have "last ?u \<in> set ?u" using ne by simp
    then have "tl_lsn (last ?u) \<le> v_flush v" by (simp add: up_to_def)
    then show ?thesis using ho(6) [OF k(1)] k ne by (auto simp: snap_hist_def)
  qed
  show ?thesis using snap llt v by (auto simp: vote_fields_def)
qed

lemma vote_step:
  assumes inv: "cinv g" and m: "(p, i, VoteRequest t) \<in> g_reqs g" and v: "v = g_vs g i"
    and gt: "gt = (v_term v < t)" and v': "v' = (if gt then v\<lparr>v_term := t\<rparr> else v)"
    and g': "g' = g\<lparr>g_vs := (g_vs g)(i := v'), g_resps := g_resps g \<union> {(p, i, VoteRequest t,
       VoteResponse (v_term v') gt (v_flush v) (last_log_term (v_hist v) (v_flush v))
         (up_to (v_hist v) (v_flush v)) (max (v_hor v) (v_lo v)) (v_commit v))}\<rparr>"
  shows "cinv g'"
proof -
  have i: "i < 3" using cinvD(1) [OF inv m] by simp
  note a = acc_okD [OF cinvD(5) [OF inv i]]
  have vf: "vote_fields g i (v_flush v) (last_log_term (v_hist v) (v_flush v)) (up_to (v_hist v) (v_flush v))"
    using view_vote_fields [OF inv i v] .
  have fl: "v_flush v' = v_flush v" "v_hist v' = v_hist v" by (simp_all add: v' v_flush_def)
  have vote: "vote_ok g' i t (v_flush v) (last_log_term (v_hist v) (v_flush v)) (up_to (v_hist v) (v_flush v))
      (max (v_hor v) (v_lo v))" if e: "ext g g'" and gt: gt
  proof -
    have vt: "v_term v' = t" "v_term v < t" using gt v' \<open>gt = (v_term v < t)\<close> by simp_all
    have old: "tl_term x < t" if "x \<in> set (up_to (v_hist v) (v_flush v))" for x
    proof -
      have "x \<in> set (v_hist v)" using that by (simp add: up_to_def)
      moreover from this obtain t0 q where "g_hist g t0 = Some (q, v_hist v)" "t0 \<le> v_term v" using a(1) v by fastforce
      ultimately show ?thesis using hist_terms_le [OF inv] vt by fastforce
    qed
    have st: "settled g' t (max (v_hor v) (v_lo v))"
      using a(6,7) v vt settled_term [of g _ _ t] by (intro ext_settled [OF e] settled_max) (metis less_imp_le)+
    have bd: "carries (up_to (v_hist v) (v_flush v)) t0 x \<and> x \<le> v_flush v" if "binding g' i t0 x" for t0 x
      using a(12) [OF ext_binding_same [OF inv e i that]] v by (simp add: g')
    have now: "g_vs g' i = v'" by (simp add: g')
    show ?thesis unfolding vote_ok_def now fl using vt old st bd by auto
  qed
  show ?thesis
  proof (rule plain_step [OF inv i _ _ _ g'])
    show "v' = (g_vs g i)\<lparr>v_commit := v_commit v, v_term := v_term v'\<rparr>" using v v' by simp
    show "v_commit v \<le> v_commit (g_vs g i)" "v_term (g_vs g i) \<le> v_term v'" using v v' gt by simp_all
  next
    fix p' t' f llt h z c
    assume "(p', i, VoteRequest t', VoteResponse t' True f llt h z c) \<in> {(p, i, VoteRequest t,
       VoteResponse (v_term v') gt (v_flush v) (last_log_term (v_hist v) (v_flush v))
         (up_to (v_hist v) (v_flush v)) (max (v_hor v) (v_lo v)) (v_commit v))}"
    then have "t' = t" gt by simp_all
    then show "v_term (g_vs g i) < t'" using gt v by simp
  next
    fix x assume x: "x \<in> {(p, i, VoteRequest t,
       VoteResponse (v_term v') gt (v_flush v) (last_log_term (v_hist v) (v_flush v))
         (up_to (v_hist v) (v_flush v)) (max (v_hor v) (v_lo v)) (v_commit v))}"
    have "ext g g' \<longrightarrow> resp_ok g' x" using x ext_vote_fields [OF _ vf] vote v' by auto
    then show "\<exists>p m r. x = (p, i, m, r) \<and> (p, i, m) \<in> g_reqs g \<and> acked_by r = None \<and> (ext g g' \<longrightarrow> resp_ok g' x)"
      using x m by (auto simp: acked_by_def)
  qed simp
qed

lemma error_step:
  assumes inv: "cinv g" and m: "(p, i, m) \<in> g_reqs g" and i: "i < 3"
    and v': "v' = (g_vs g i)\<lparr>v_commit := c, v_term := t\<rparr>" and c: "c \<le> v_commit (g_vs g i)" and t: "v_term (g_vs g i) \<le> t"
    and r: "acked_by r = None" "\<And>g'. resp_ok g' (p, i, m, r)" "\<And>t f llt h z c. r \<noteq> VoteResponse t True f llt h z c"
    and g': "g' = g\<lparr>g_vs := (g_vs g)(i := v'), g_resps := g_resps g \<union> {(p, i, m, r)}\<rparr>"
  shows "cinv g'"
proof (rule plain_step [OF inv i v' c t g'])
  show "v_term (g_vs g i) < t'" if "(p', i, VoteRequest t', VoteResponse t' True f llt h z c) \<in> {(p, i, m, r)}"
    for p' t' f llt h z c using that r(3) by fastforce
qed (use m r(1,2) in auto)

text \<open>A recovery read answered by the donor while it is still at the candidate's term.\<close>

lemma read_written:
  assumes inv: "cinv g" and rec: "g_procs g p = Recovering t i ts tr h bs" and vt: "v_term (g_vs g i) = t"
    and a: "v_lo (g_vs g i) \<le> a" "a \<le> v_flush (g_vs g i)" and n: "a + n \<le> v_flush (g_vs g i)"
  shows "written g h a (take n (drop (a - v_lo (g_vs g i)) (v_log (g_vs g i))))"
proof -
  let ?v = "g_vs g i"
  have ok: "proc_ok g p (Recovering t i ts tr h bs)" using cinvD(4) [OF inv, of p] rec by simp
  then obtain llt z c where r: "(p, i, VoteRequest t, VoteResponse t True ts llt (butlast h) z c) \<in> g_resps g" by auto
  have i: "i < 3" using resp_index [OF inv r] .
  have "vote_ok g i t ts llt (butlast h) z" using cinvD(3) [OF inv r] by simp
  then have snap: "v_flush ?v = ts" "up_to (v_hist ?v) ts = butlast h"
    using ok vt by (auto simp: vote_ok_def)
  have w: "written g (v_hist ?v) (v_lo ?v) (v_log ?v)" using acc_okD(4) [OF cinvD(5) [OF inv i]] .
  have h: "h = butlast h @ [last h]" "tl_lsn (last h) = ts"
    using ok hist_okD(1) [OF cinvD(6) [OF inv, of t p h]] by auto
  show ?thesis unfolding written_def
  proof (intro allI impI)
    fix j assume j: "j < length (take n (drop (a - v_lo ?v) (v_log ?v)))"
    let ?q = "a + j" and ?j = "a - v_lo ?v + j"
    have q: "?q < ts" using j n snap(1) by simp
    have jl: "?j < length (v_log ?v)" "v_lo ?v + ?j = ?q" using j a by auto
    have "last_log_term h ?q = last_log_term (butlast h) ?q"
      by (subst h(1), rule last_log_term_append_beyond) (use q h(2) in simp)
    also have "\<dots> = last_log_term (v_hist ?v) ?q"
      using last_log_term_up_to [of ?q ts "v_hist ?v"] q snap(2) by simp
    finally have "g_wr g (last_log_term h ?q) ?q = Some (v_log ?v ! ?j)"
      using w jl unfolding written_def by metis
    then show "g_wr g (last_log_term h ?q) ?q = Some (take n (drop (a - v_lo ?v) (v_log ?v)) ! j)"
      using j jl(1) by (simp add: nth_drop)
  qed
qed

section \<open>Elected messages\<close>

lemma v_cut_flush: "v_flush (v_cut v s) = min (v_flush v) s"
  by (auto simp: v_cut_def v_flush_def min_def)

lemma v_cut_log:
  assumes "\<And>q. v_lo v \<le> q \<Longrightarrow> q < min (v_flush v) s \<Longrightarrow> g_wr g (last_log_term h q) q = Some (v_log v ! (q - v_lo v))"
  shows "written g h (v_lo (v_cut v s)) (v_log (v_cut v s))"
proof (cases "v_flush v \<le> s \<or> v_lo v \<le> s")
  case False
  then show ?thesis by (simp add: v_cut_def written_def)
next
  case True
  then have lo: "v_lo (v_cut v s) = v_lo v" by (auto simp: v_cut_def min_def)
  show ?thesis unfolding written_def lo
  proof (intro allI impI)
    fix j assume j: "j < length (v_log (v_cut v s))"
    then have "v_log (v_cut v s) ! j = v_log v ! j" by (simp add: v_cut_def split: if_splits)
    moreover have "v_lo v + j < min (v_flush v) s" using j True by (auto simp: v_cut_def v_flush_def split: if_splits)
    ultimately show "g_wr g (last_log_term h (v_lo v + j)) (v_lo v + j) = Some (v_log (v_cut v s) ! j)"
      using assms [of "v_lo v + j"] by simp
  qed
qed

text \<open>A history against its own prefix: no divergence.\<close>

lemma last_common_idx_self: "last_common_idx (h @ h') h k acc = Inr (if h = [] then acc else Some (k + length h - 1))"
proof (induction h arbitrary: k acc)
  case Nil
  then show ?case by simp
next
  case (Cons x h)
  show ?case using Cons [of "Suc k" "Some k"] by (cases h) simp_all
qed

lemma divergence_self:
  assumes wf: "th_wf h" and u: "up_to h f \<noteq> []" and res: "divergence_start h (up_to h f) f em st = Inr st'"
  shows "st' = f"
proof -
  obtain n where n: "up_to h f = take n h" using wf by (rule up_to_prefix)
  define k where "k = length (up_to h f)"
  have k: "up_to h f = take k h" "k \<le> length h" "0 < k" using n u by (auto simp: k_def min_def)
  have idx: "last_common_idx h (up_to h f) 0 None = Inr (Some (k - 1))"
    using last_common_idx_self [of "take k h" "drop k h" 0 None] k by auto
  show ?thesis
  proof (cases "k = length h")
    case True
    then show ?thesis using res idx by (auto simp: divergence_start_def find_highest_common_point_def split: if_splits)
  next
    case False
    then have kl: "k < length h" using k(2) by simp
    have "\<not> tl_lsn (h ! k) \<le> f" using up_to_take_le [OF wf k(1) kl] by blast
    moreover have "st' = min (tl_lsn (h ! k)) f"
      using res idx kl k by (auto simp: divergence_start_def find_highest_common_point_def Let_def split: if_splits)
    ultimately show ?thesis by simp
  qed
qed

lemma divergence_le:
  assumes res: "divergence_start h sk f em st = Inr st'" and sk: "sk \<noteq> []" "\<forall>e\<in>set sk. tl_lsn e \<le> f"
    and h: "h \<noteq> []" "tl_lsn (h ! 0) = 0"
  shows "st' \<le> f"
proof (cases "last_common_idx h sk 0 None")
  case (Inl e)
  then show ?thesis using res by (auto simp: divergence_start_def find_highest_common_point_def split: if_splits)
next
  case (Inr r)
  show ?thesis
  proof (cases r)
    case None
    then show ?thesis using res Inr sk(1) h
      by (cases h) (auto simp: divergence_start_def find_highest_common_point_def split: if_splits)
  next
    case (Some i)
    then show ?thesis using res Inr sk(2)
      by (auto simp: divergence_start_def find_highest_common_point_def Let_def min_le_iff_disj split: if_splits)
  qed
qed

text \<open>Below the divergence point the new history attributes the bytes of the log as the old one did.\<close>

lemma divergence_agree:
  assumes res: "divergence_start h sk f em st = Inr st'" and wf: "th_wf h" "th_wf sk"
    and new: "\<forall>x\<in>set sk. tl_term x \<le> tl_term (last h)" and h0: "tl_lsn (h ! 0) = 0"
    and q: "q < st'" "sk = [] \<Longrightarrow> \<not> em"
  shows "last_log_term h q = last_log_term sk q"
proof (cases "find_highest_common_point h sk f")
  case (Inl e)
  then show ?thesis using res by (simp add: divergence_start_def)
next
  case (Inr r)
  show ?thesis
  proof (cases r)
    case None
    then have "st' = 0" using res Inr q(2) h0 by (auto simp: divergence_start_def split: if_splits list.splits)
    then show ?thesis using q(1) by simp
  next
    case (Some x)
    then have "st' = tl_lsn x" using res Inr by (simp add: divergence_start_def)
    then show ?thesis using fhcp_agree [OF Inr [unfolded Some] wf new] q(1) by simp
  qed
qed

lemma hist_index:
  assumes inv: "cinv g" and h: "g_hist g t = Some (p, h)" and k: "k < length h"
  shows "g_start g (tl_term (h ! k)) = tl_lsn (h ! k)" "g_hist g (tl_term (h ! k)) \<noteq> None"
proof -
  obtain p' where "g_hist g (tl_term (h ! k)) = Some (p', take (Suc k) h)"
    using hist_okD(6) [OF cinvD(6) [OF inv h] k] by blast
  moreover have "last (take (Suc k) h) = h ! k" using k by (simp add: take_Suc_conv_app_nth)
  ultimately show "g_start g (tl_term (h ! k)) = tl_lsn (h ! k)" "g_hist g (tl_term (h ! k)) \<noteq> None"
    by (simp_all add: g_start_def)
qed

lemma carries_index:
  assumes "carries h t e"
  obtains k where "k < length h" "tl_term (h ! k) = t"
  using assms by (auto simp: carries_def)

lemma hist_prefix_eq:
  assumes inv: "cinv g" and h: "g_hist g t = Some (p, h)" "g_hist g t' = Some (p', h')"
    and k: "k < length h" "k' < length h'" "tl_term (h ! k) = tl_term (h' ! k')"
  shows "k = k'" "take (Suc k) h = take (Suc k') h'"
proof -
  show eq: "take (Suc k) h = take (Suc k') h'"
    using hist_okD(6) [OF cinvD(6) [OF inv h(1)] k(1)] hist_okD(6) [OF cinvD(6) [OF inv h(2)] k(2)] k(3) by auto
  have "min (length h) (Suc k) = min (length h') (Suc k')" using arg_cong [OF eq, of length] by simp
  then show "k = k'" using k(1,2) by linarith
qed

lemma elected_binding:
  assumes inv: "cinv g" and i: "i < 3" and h: "g_hist g t = Some (p, h)"
    and st: "v_start (g_vs g i) s h = Inr s" and t1: "t1 < t" and b: "binding g i t1 e"
  shows "e \<le> min (v_flush (g_vs g i)) s" "carries h t1 e" "\<exists>k<length h. tl_term (h ! k) = t1 \<and> tl_lsn (h ! k) \<le> e"
proof -
  let ?v = "g_vs g i"
  let ?u = "up_to (v_hist ?v) (v_flush ?v)"
  note a = acc_okD [OF cinvD(5) [OF inv i]]
  have bd: "0 < e" "e \<le> g_acked g i t1" "g_start g t1 \<le> e" "choosable g t1 e" using b by (auto simp: binding_def)
  then obtain x where x: "g_hist g t1 = Some x" using acked_hist(1) [OF inv i, of t1] by fastforce
  show ch: "carries h t1 e" using cinvD(7) [OF inv] h t1 bd x unfolding key_inv_def by blast
  have cu: "carries ?u t1 e" "e \<le> v_flush ?v" using a(12) [OF b] by auto
  obtain k where k: "k < length h" "tl_term (h ! k) = t1" using ch by (rule carries_index)
  obtain j where j: "j < length ?u" "tl_term (?u ! j) = t1" using cu(1) by (rule carries_index)
  have "v_hist ?v \<noteq> []" using j(1) by auto
  then obtain t0 q where h0: "g_hist g t0 = Some (q, v_hist ?v)" using a(1) by blast
  have wf: "th_wf h" "th_wf (v_hist ?v)" using hist_okD(4) cinvD(6) [OF inv] h h0 by blast+
  obtain n where n: "?u = take n (v_hist ?v)" using wf(2) by (rule up_to_prefix)
  have jv: "j < length (v_hist ?v)" "j < n" "v_hist ?v ! j = ?u ! j" using j(1) n by auto
  have eq: "k = j" "take (Suc k) h = take (Suc j) (v_hist ?v)"
    using hist_prefix_eq [OF inv h h0 k(1) jv(1)] k(2) j(2) jv(3) by simp_all
  have pre: "take (Suc k) h = take (Suc k) ?u" using eq n jv(2) by (simp add: min_def)
  have "e \<le> s"
    using divergence_at_least [OF st [unfolded v_start_def] wf(1) th_wf_up_to [OF wf(2)] ch cu(1,2) k(1) _ k(2) pre]
      j(1) eq(1) by simp
  then show "e \<le> min (v_flush ?v) s" using cu(2) by simp
  show "\<exists>k<length h. tl_term (h ! k) = t1 \<and> tl_lsn (h ! k) \<le> e" using k hist_index(1) [OF inv h k(1)] bd(3) by auto
qed

lemma acked_now:
  assumes inv: "cinv g" and i: "i < 3" and t: "v_term (g_vs g i) \<le> t" and a: "0 < g_acked g i t" and h: "g_hist g t = Some (p, h)"
  shows "v_term (g_vs g i) = t" "v_hist (g_vs g i) = h"
proof -
  have ok: "ok_at g i t" and le: "t \<le> v_term (g_vs g i)" using acked_hist(2,3) [OF inv i a] by blast+
  show eq: "v_term (g_vs g i) = t" using le t by simp
  show "v_hist (g_vs g i) = h" using acc_okD(9) [OF cinvD(5) [OF inv i] ok] eq h by simp
qed

lemma up_to_first:
  assumes "h \<noteq> []" "tl_lsn (h ! 0) = 0"
  shows "up_to h f \<noteq> []"
  using assms by (cases h) (simp_all add: up_to_def)

lemma elected_acked:
  assumes inv: "cinv g" and i: "i < 3" and t: "v_term (g_vs g i) \<le> t" and h: "g_hist g t = Some (p, h)"
    and st: "v_start (g_vs g i) s h = Inr s"
  shows "g_acked g i t \<le> min (v_flush (g_vs g i)) s"
proof (cases "g_acked g i t = 0")
  case False
  then have now: "v_term (g_vs g i) = t" "v_hist (g_vs g i) = h" using acked_now [OF inv i t _ h] by auto
  note ho = hist_okD [OF cinvD(6) [OF inv h]]
  have "s = v_flush (g_vs g i)"
    using divergence_self [OF ho(4) up_to_first [OF ho(1,5)]] st now by (simp add: v_start_def)
  then show ?thesis using acc_okD(11) [OF cinvD(5) [OF inv i]] now by simp
qed simp

lemma elected_written:
  assumes inv: "cinv g" and i: "i < 3" and t: "v_term (g_vs g i) \<le> t" and h: "g_hist g t = Some (p, h)"
    and st: "v_start (g_vs g i) s h = Inr s" and h': "h' = v_hist (g_vs g i) \<or> h' = h"
  shows "written g h' (v_lo (v_cut (g_vs g i) s)) (v_log (v_cut (g_vs g i) s))"
proof (rule v_cut_log)
  let ?v = "g_vs g i"
  note a = acc_okD [OF cinvD(5) [OF inv i]] and ho = hist_okD [OF cinvD(6) [OF inv h]]
  fix q assume q: "v_lo ?v \<le> q" "q < min (v_flush ?v) s"
  have w: "g_wr g (last_log_term (v_hist ?v) q) q = Some (v_log ?v ! (q - v_lo ?v))"
  proof -
    have "q - v_lo ?v < length (v_log ?v)" "v_lo ?v + (q - v_lo ?v) = q" using q by (auto simp: v_flush_def)
    then show ?thesis using a(4) unfolding written_def by metis
  qed
  have ne: "\<not> v_empty ?v" using a(3) q by (auto simp: v_flush_def)
  then have "v_hist ?v \<noteq> []" using a(2) by blast
  then obtain t0 r where h0: "g_hist g t0 = Some (r, v_hist ?v)" "t0 \<le> v_term ?v" using a(1) by blast
  have "last_log_term h q = last_log_term (up_to (v_hist ?v) (v_flush ?v)) q"
  proof (rule divergence_agree [OF st [unfolded v_start_def] ho(4)])
    show "th_wf (up_to (v_hist ?v) (v_flush ?v))" using th_wf_up_to hist_okD(4) [OF cinvD(6) [OF inv h0(1)]] by blast
    show "\<forall>x\<in>set (up_to (v_hist ?v) (v_flush ?v)). tl_term x \<le> tl_term (last h)"
      using hist_terms_le [OF inv h0(1)] h0(2) t ho(3) up_to_subset [of "v_hist ?v" "v_flush ?v"] by fastforce
  qed (use ho(5) q ne in simp_all)
  also have "\<dots> = last_log_term (v_hist ?v) q" using q by (intro last_log_term_up_to) simp
  finally show "g_wr g (last_log_term h' q) q = Some (v_log ?v ! (q - v_lo ?v))" using w h' by auto
qed

lemma elected_acc_ok:
  assumes inv: "cinv g" and i: "i < 3" and t: "v_term (g_vs g i) \<le> t" and h: "g_hist g t = Some (p, h)"
    and st: "v_start (g_vs g i) s h = Inr s" and h': "h' = v_hist (g_vs g i) \<or> h' = h" and c: "c \<le> v_commit (g_vs g i)"
    and v': "v' = (v_cut (g_vs g i) s)\<lparr>v_term := t, v_hist := h', v_commit := c\<rparr>"
    and g': "g_vs g' i = v'" "g_hist g' = g_hist g" "g_wr g' = g_wr g" and e: "ext g g'"
    and ok: "\<And>x. ok_at g' i x \<Longrightarrow> ok_at g i x \<or> (x = t \<and> h' = h)"
    and A: "\<And>x. g_acked g' i x = g_acked g i x \<or>
       (x = t \<and> ok_at g' i t \<and> h' = h \<and> g_acked g' i t = max (g_acked g i t) (v_flush v'))"
  shows "acc_ok g' i"
proof -
  let ?v = "g_vs g i"
  note a = acc_okD [OF cinvD(5) [OF inv i]] and ho = hist_okD [OF cinvD(6) [OF inv h]]
  have fl: "v_flush v' = min (v_flush ?v) s" using v_cut_flush [of ?v s] by (simp add: v' v_flush_def)
  have lo: "v_lo v' \<le> v_lo ?v" by (simp add: v' v_cut_def)
  have wr: "written g' = written g" using g'(3) by (simp add: written_def fun_eq_iff)
  have em: "v_empty ?v \<and> v' = ?v\<lparr>v_term := t, v_hist := h', v_commit := c\<rparr>" if "v_empty v'"
    using that by (auto simp: v' v_cut_def split: if_splits)
  have ack: "g_acked g' i t \<le> v_flush v'"
    using A [of t] elected_acked [OF inv i t h st] fl by auto
  have mine: "h' = h" if "0 < g_acked g' i t"
    using A [of t] acked_now(2) [OF inv i t _ h] h' that by auto
  show ?thesis
  proof (rule acc_okI [of v'])
    show "v' = g_vs g' i" using g'(1) by simp
    show "v_hist v' = [] \<or> (\<exists>t p. g_hist g' t = Some (p, v_hist v') \<and> t \<le> v_term v')"
    proof (cases "h' = h")
      case True
      then show ?thesis using h g'(2) v' by auto
    next
      case False
      then show ?thesis using a(1) h' t g'(2) v' by (auto intro: le_trans)
    qed
    show "v_empty v'" if "v_hist v' = []"
    proof -
      have "v_hist ?v = []" using that h' ho(1) v' by auto
      then have "v_empty ?v" "v_flush ?v = 0" using a(2,3) by (auto simp: v_flush_def)
      then show ?thesis by (simp add: v' v_cut_def)
    qed
    show "v_log v' = [] \<and> v_lo v' = 0 \<and> g_acked g' i x = 0" if "v_empty v'" for x
    proof -
      note em = em [OF that]
      have z: "v_log ?v = []" "v_lo ?v = 0" "g_acked g i x = 0" using a(3) em by auto
      then have "v_flush v' = 0" using em by (simp add: v_flush_def)
      then have "g_acked g' i x = 0" using A [of x] z(3) by auto
      moreover have "v_log v' = v_log ?v" "v_lo v' = v_lo ?v" using em by simp_all
      ultimately show ?thesis using z by simp
    qed
    show "written g' (v_hist v') (v_lo v') (v_log v')"
      unfolding wr using elected_written [OF inv i t h st h'] by (simp add: v')
    show "settled g' (v_term v') (v_commit v')" "settled g' (v_term v') (v_hor v')"
      using ext_settled [OF e settled_le [OF settled_term [OF a(5) t] c]] ext_settled [OF e settled_term [OF a(6) t]]
      by (auto simp: v' v_cut_def)
    show "settled g' (v_term v') (v_lo v')"
      using ext_settled [OF e settled_le [OF settled_term [OF a(7) t] lo]] by (simp add: v')
    show "x \<le> v_term v' \<and> (x = v_term v' \<longrightarrow> (\<exists>p. g_hist g' x = Some (p, v_hist v')))" if "ok_at g' i x" for x
      using ok [OF that]
    proof
      assume old: "ok_at g i x"
      have le: "x \<le> v_term ?v" using a(8) [OF old] .
      have "\<exists>p. g_hist g' x = Some (p, h')" if "x = t"
        using a(9) [OF old] le that t h h' g'(2) by auto
      then show ?thesis using le t by (simp add: v')
    qed (use h g'(2) v' in auto)
    show "ok_at g' i x" if "0 < g_acked g' i x" for x
      using A [of x] that a(10) [of x] ext_ok_at [OF e] by auto
    show "g_acked g' i (v_term v') \<le> v_flush v'" using ack by (simp add: v')
    show "carries (up_to (v_hist v') (v_flush v')) x y \<and> y \<le> v_flush v'" if b: "binding g' i x y" for x y
    proof (cases "x = t")
      case True
      have y: "0 < y" "y \<le> g_acked g' i t" "g_start g' t \<le> y" using b True by (auto simp: binding_def)
      then have "h' = h" "y \<le> v_flush v'" using mine ack by auto
      moreover have "tl_lsn (last h) \<le> y" using y(3) h g'(2) by (simp add: g_start_def)
      ultimately have "up_to h' (v_flush v') = h"
        using hist_lsns [OF ho(4,1)] by (auto intro!: up_to_all)
      then show ?thesis using carries_last [OF ho(1), of y] ho(3) True \<open>y \<le> v_flush v'\<close> by (simp add: v')
    next
      case False
      then have same: "g_acked g' i x = g_acked g i x" using A [of x] by blast
      then have bg: "binding g i x y" using ext_binding_same [OF inv e i b] by blast
      then have "0 < g_acked g i x" by (auto simp: binding_def)
      then have "x \<le> v_term ?v" using acked_hist(3) [OF inv i] by blast
      then have lt: "x < t" using t False by simp
      note eb = elected_binding [OF inv i h st lt bg]
      have yf: "y \<le> v_flush v'" using eb(1) fl by simp
      have "carries (up_to h' (v_flush v')) x y" using h'
      proof
        assume "h' = h"
        then show ?thesis using carries_up_to [OF ho(4) eb(2)] eb(3) yf by (metis le_trans)
      next
        assume hv: "h' = v_hist ?v"
        let ?u = "up_to (v_hist ?v) (v_flush ?v)"
        have cu: "carries ?u x y" using a(12) [OF bg] by blast
        then obtain j where j: "j < length ?u" "tl_term (?u ! j) = x" by (rule carries_index)
        then have "v_hist ?v \<noteq> []" by auto
        then obtain t0 q where h0: "g_hist g t0 = Some (q, v_hist ?v)" using a(1) by blast
        note wf = hist_okD(4) [OF cinvD(6) [OF inv h0]]
        obtain n where n: "?u = take n (v_hist ?v)" using wf by (rule up_to_prefix)
        have "tl_lsn (?u ! j) = g_start g x" using hist_index(1) [OF inv h0, of j] j n by auto
        then have "tl_lsn (?u ! j) \<le> v_flush v'" using bg yf by (simp add: binding_def)
        then have "carries (up_to ?u (v_flush v')) x y" using carries_up_to [OF th_wf_up_to [OF wf] cu j] by simp
        moreover have "min (v_flush ?v) (v_flush v') = v_flush v'" using fl by simp
        ultimately show ?thesis using hv by simp
      qed
      then show ?thesis using yf by (simp add: v')
    qed
  qed
qed

lemma elected_step:
  assumes inv: "cinv g" and m: "(p, i, Elected t s h) \<in> g_reqs g" and t: "v_term (g_vs g i) \<le> t"
    and st: "v_start (g_vs g i) s h = Inr s" and h': "h' = v_hist (g_vs g i) \<or> h' = h" and c: "c \<le> v_commit (g_vs g i)"
    and v': "v' = (v_cut (g_vs g i) s)\<lparr>v_term := t, v_hist := h', v_commit := c\<rparr>"
    and r: "(r = ElectedResp t True \<and> h' = h \<and> A = (g_acked g i)(t := max (g_acked g i t) (v_flush v'))) \<or>
      (\<exists>err. r = Error err \<and> A = g_acked g i)"
    and g': "g' = g\<lparr>g_vs := (g_vs g)(i := v'), g_resps := g_resps g \<union> {(p, i, Elected t s h, r)},
               g_acked := (g_acked g)(i := A)\<rparr>"
  shows "cinv g'"
proof -
  let ?v = "g_vs g i"
  have rq: "i < 3" "g_hist g t = Some (p, h)" "v_hist ?v \<noteq> [] \<or> settled g t s \<or> superseded g p t"
    using cinvD(1) [OF inv m] by auto
  note a = acc_okD [OF cinvD(5) [OF inv rq(1)]] and ho = hist_okD [OF cinvD(6) [OF inv rq(2)]]
  have ne: "v_hist ?v \<noteq> [] \<longrightarrow> v_hist v' \<noteq> []" using h' ho(1) v' by auto
  have e: "ext g g'" unfolding ext_def g' using t r ne by (auto simp: v')
  have fl: "v_flush v' = min (v_flush ?v) s" using v_cut_flush [of ?v s] by (simp add: v' v_flush_def)
  have resps: "g_resps g' = g_resps g \<union> {(p, i, Elected t s h, r)}" by (simp add: g')
  have okn: "ok_at g' i t" if "r = ElectedResp t True" using that unfolding ok_at_def resps by blast
  have oko: "ok_at g i x \<or> (x = t \<and> h' = h)" if ox: "ok_at g' i x" for x
  proof -
    obtain q st h0 where "(q, i, Elected x st h0, ElectedResp x True) \<in> g_resps g \<union> {(p, i, Elected t s h, r)}"
      using ox unfolding ok_at_def resps by blast
    then show ?thesis using r unfolding ok_at_def by fastforce
  qed
  have gA: "g_acked g' i = A" by (simp add: g')
  have chg: "g_acked g' i x = g_acked g i x \<or>
      (x = t \<and> ok_at g' i t \<and> h' = h \<and> g_acked g' i t = max (g_acked g i t) (v_flush v'))" for x
    using r okn unfolding gA by (cases "x = t") auto
  have acc: "acc_ok g' i"
    by (rule elected_acc_ok [OF inv rq(1) t rq(2) st h' c v' _ _ _ e oko chg]) (simp_all add: g')
  have resp: "resp_ok g' (p, i, Elected t s h, r)"
  proof (cases "\<exists>err. r = Error err")
    case False
    then have rr: "r = ElectedResp t True" "A = (g_acked g i)(t := max (g_acked g i t) (v_flush v'))" using r by auto
    have "s \<le> g_acked g' i t \<or> settled g' t s \<or> superseded g' p t"
    proof (cases "v_hist ?v = []")
      case True
      then show ?thesis using rq(3) ext_settled [OF e] ext_superseded [OF e] by blast
    next
      case hne: False
      then obtain t0 q where h0: "g_hist g t0 = Some (q, v_hist ?v)" using a(1) by blast
      note h0o = hist_okD [OF cinvD(6) [OF inv h0]]
      have "s \<le> v_flush ?v"
        using divergence_le [OF st [unfolded v_start_def] up_to_first [OF hne h0o(5)] _ ho(1,5)] by (simp add: up_to_def)
      then have "s \<le> A t" using rr(2) fl by simp
      then show ?thesis by (simp add: g')
    qed
    then show ?thesis using rr by simp
  qed auto
  have lo: "settled g t (v_lo v')"
    using settled_le [OF settled_term [OF a(7) t], of "v_lo v'"] by (simp add: v' v_cut_def)
  show ?thesis
  proof (rule acc_step [OF inv rq(1) g' e _ acc])
    show "frozen g g' i"
      using m t unfolding frozen_def no_elected_def by (auto simp: g' v')
    show "\<exists>p m r. x = (p, i, m, r) \<and> (p, i, m) \<in> g_reqs g \<and> resp_ok g' x" if "x \<in> {(p, i, Elected t s h, r)}" for x
      using that m resp by blast
    show "\<not> no_elected g x \<and> v_term v' = x \<and> v_hist v' = h0 \<and> settled g x (v_lo v') \<and> written g h0 (v_lo v') (v_log v')"
      if "g_hist g x = Some (q, h0)" "A x \<noteq> g_acked g i x" for x q h0
    proof -
      have x: "x = t" "h' = h" using that(2) r by (auto split: if_splits)
      then have "h0 = h" using that(1) rq(2) by simp
      moreover have "written g h (v_lo v') (v_log v')"
        using elected_written [OF inv rq(1) t rq(2) st, of h] by (simp add: v')
      moreover have "\<not> no_elected g t" using m unfolding no_elected_def by blast
      ultimately show ?thesis using x lo by (simp add: v')
    qed
  qed auto
qed

section \<open>Appends\<close>

lemma written_drop: "written g h a bs \<Longrightarrow> k \<le> length bs \<Longrightarrow> written g h (a + k) (drop k bs)"
  using written_append [of g h a "take k bs" "drop k bs"] by simp

lemma append_step:
  assumes inv: "cinv g" and m: "(p, i, Append t b e c z rs) \<in> g_reqs g" and t: "v_term (g_vs g i) = t"
    and rs: "rs \<noteq> []" "e = b + length rs" and pos: "v_empty (g_vs g i) \<or> b = v_flush (g_vs g i)"
    and c': "c' \<le> max c (v_commit (g_vs g i))" and z': "settled g t z'"
    and k: "k \<le> length (v_log (g_vs g i) @ rs)" "v_lo (v_extend (g_vs g i) b rs) + k \<le> max (v_lo (v_extend (g_vs g i) b rs)) z'"
    and v': "v' = v_drop ((v_extend (g_vs g i) b rs)\<lparr>v_commit := c', v_hor := z'\<rparr>) k"
    and r: "(r = AppendResp t True e c'' \<and> A = (g_acked g i)(t := max (g_acked g i t) (v_flush v'))) \<or>
      (\<exists>err. r = Error err \<and> A = g_acked g i)"
    and g': "g' = g\<lparr>g_vs := (g_vs g)(i := v'), g_resps := g_resps g \<union> {(p, i, Append t b e c z rs, r)},
               g_acked := (g_acked g)(i := A)\<rparr>"
  shows "cinv g'"
proof -
  let ?v = "g_vs g i"
  have rq: "i < 3" "ok_at g i t" "settled g t c" "settled g t z" "b \<le> g_acked g i t \<or> settled g t b"
    and "\<exists>h. g_hist g t = Some (p, h) \<and> written g h b rs"
    using cinvD(1) [OF inv m] by auto
  then obtain h where h: "g_hist g t = Some (p, h)" "written g h b rs" by blast
  note a = acc_okD [OF cinvD(5) [OF inv rq(1)]] and ho = hist_okD [OF cinvD(6) [OF inv h(1)]]
  have hv: "v_hist ?v = h" using a(9) [OF rq(2)] t h(1) by auto
  have em: "v_log ?v = []" "v_lo ?v = 0" "g_acked g i x = 0" if "v_empty ?v" for x using a(3) that by blast+
  define lo where "lo = (if v_empty ?v then b else v_lo ?v)"
  have f: "v_term v' = t" "v_hist v' = h" "v_commit v' = c'" "v_hor v' = z'" "v_lo v' = lo + k"
    "v_log v' = drop k (v_log ?v @ rs)" "\<not> v_empty v'"
    using t hv by (simp_all add: v' v_drop_def v_extend_def lo_def)
  have lb: "lo + length (v_log ?v) = b" using pos em by (auto simp: lo_def v_flush_def)
  have fl: "v_flush v' = e" using lb k(1) rs(2) by (simp add: v_flush_def f)
  have grow: "v_flush ?v \<le> v_flush v'" using lb fl rs(2) em(1,2) by (auto simp: v_flush_def lo_def split: if_splits)
  have slo: "settled g t lo"
    using a(7) t rq(5) em(3) settled_0 [of g t] by (auto simp: lo_def)
  then have slo': "settled g t (v_lo v')"
    using settled_le [OF settled_max [OF slo z']] k(2) f(5) by (simp add: v_extend_def lo_def)
  have "written g h lo (v_log ?v)" using a(4) hv em(1) by (cases "v_empty ?v") (simp_all add: lo_def written_def)
  then have wl: "written g h lo (v_log ?v @ rs)" using h(2) lb by (simp add: written_append)
  then have w: "written g h (v_lo v') (v_log v')" using written_drop [OF wl k(1)] f by simp
  have ack: "A t \<le> v_flush v'" "g_acked g i t \<le> A t" using r a(11) t grow by auto
  have Ax: "A x = g_acked g i x" if "x \<noteq> t" for x using r that by auto
  have e: "ext g g'" unfolding ext_def g' using t r f ho(1) by auto
  have resps: "g_resps g' = g_resps g \<union> {(p, i, Append t b e c z rs, r)}" by (simp add: g')
  have ok: "ok_at g i x" if ox: "ok_at g' i x" for x using ox unfolding ok_at_def resps by blast
  have wr: "written g' = written g" by (simp add: written_def fun_eq_iff g')
  have acc: "acc_ok g' i"
  proof (rule acc_okI [of v'])
    show "v' = g_vs g' i" by (simp add: g')
    show "v_hist v' = [] \<or> (\<exists>t p. g_hist g' t = Some (p, v_hist v') \<and> t \<le> v_term v')" using f h by (auto simp: g')
    show "written g' (v_hist v') (v_lo v') (v_log v')" unfolding wr using w f by simp
    show "settled g' (v_term v') (v_commit v')"
      using ext_settled [OF e settled_le [OF settled_max [OF rq(3) a(5) [unfolded t]] c']] f by simp
    show "settled g' (v_term v') (v_hor v')" "settled g' (v_term v') (v_lo v')"
      using ext_settled [OF e] z' slo' f by auto
    show "x \<le> v_term v' \<and> (x = v_term v' \<longrightarrow> (\<exists>p. g_hist g' x = Some (p, v_hist v')))" if "ok_at g' i x" for x
      using a(8) [OF ok [OF that]] t h f by (auto simp: g')
    show "ok_at g' i x" if "0 < g_acked g' i x" for x
      using a(10) [of x] that Ax [of x] rq(2) ext_ok_at [OF e] by (cases "x = t") (auto simp: g')
    show "g_acked g' i (v_term v') \<le> v_flush v'" using ack f by (simp add: g')
    show "carries (up_to (v_hist v') (v_flush v')) x y \<and> y \<le> v_flush v'" if bd: "binding g' i x y" for x y
    proof (cases "x = t")
      case True
      have y: "y \<le> A t" "g_start g' t \<le> y" using bd True by (auto simp: binding_def g')
      then have yf: "y \<le> v_flush v'" "tl_lsn (last h) \<le> v_flush v'"
        using ack h by (auto simp: g_start_def g' split: option.splits)
      then have "up_to h (v_flush v') = h" using hist_lsns [OF ho(4,1)] by (auto intro!: up_to_all)
      then show ?thesis using carries_last [OF ho(1), of y] ho(3) True yf f by simp
    next
      case False
      have bg: "binding g i x y" using ext_binding_same [OF inv e rq(1) bd] Ax [OF False] by (simp add: g')
      then have cy: "carries (up_to h (v_flush ?v)) x y" "y \<le> v_flush ?v" using a(12) hv by auto
      show ?thesis using carries_up_to_grow [OF ho(4) cy grow] cy(2) grow f by simp
    qed
  qed (use f ho(1) in auto)
  show ?thesis
  proof (rule acc_step [OF inv rq(1) g' e _ acc])
    have ne: "\<not> no_elected g t" using ok_at_hist [OF inv rq(2)] unfolding no_elected_def by blast
    then show "frozen g g' i" using t unfolding frozen_def no_elected_def g' by auto
    show "\<exists>p m r. x = (p, i, m, r) \<and> (p, i, m) \<in> g_reqs g \<and> resp_ok g' x" if "x \<in> {(p, i, Append t b e c z rs, r)}" for x
    proof -
      have "resp_ok g' (p, i, Append t b e c z rs, r)" using r fl by (auto simp: g')
      then show ?thesis using that m by blast
    qed
    show "\<not> no_elected g x \<and> v_term v' = x \<and> v_hist v' = h0 \<and> settled g x (v_lo v') \<and> written g h0 (v_lo v') (v_log v')"
      if "g_hist g x = Some (q, h0)" "A x \<noteq> g_acked g i x" for x q h0
    proof -
      have "x = t" using Ax that(2) by blast
      then show ?thesis using that(1) h(1) ne f slo' w by simp
    qed
  qed auto
qed

end
