(* ===== verification/ClusterSafety.thy ===== *)
theory ClusterSafety
  imports ClusterDeliver WalSegments
begin

text \<open>
  The invariant holds along every regular run, for every log that meets \<open>wal_laws\<close>, and with
  it agreement: what one leader committed, every leader of the same or a later term has.
\<close>

section \<open>Delivery\<close>

lemma vstep_inv:
  assumes inv: "cinv g" and m: "(p, i, m) \<in> g_reqs g" and st: "vstep (g_vs g i) m r v'"
    and reg: "\<And>a b t d ts tr h bs. m = Read a b \<Longrightarrow> g_procs g p = Recovering t d ts tr h bs \<Longrightarrow> v_term (g_vs g i) = t"
    and A: "A = (case acked_by r of None \<Rightarrow> g_acked g i
                 | Some t \<Rightarrow> (g_acked g i)(t := max (g_acked g i t) (v_flush v')))"
    and g': "g' = g\<lparr>g_vs := (g_vs g)(i := v'), g_resps := g_resps g \<union> {(p, i, m, r)},
               g_acked := (g_acked g)(i := A)\<rparr>"
  shows "cinv g'"
proof -
  have i: "i < 3" using cinvD(1) [OF inv m] by (cases m) auto
  have plain: "cinv g'" if "v' = (g_vs g i)\<lparr>v_commit := c, v_term := t\<rparr>" "c \<le> v_commit (g_vs g i)" "v_term (g_vs g i) \<le> t"
    "acked_by r = None" "\<And>g'. resp_ok g' (p, i, m, r)" "\<And>t f llt h z c. r \<noteq> VoteResponse t True f llt h z c" for c t
    by (rule error_step [OF inv m i that]) (use that(4) in \<open>simp add: g' A\<close>)
  have idle: "cinv g'" if "v' = g_vs g i" "acked_by r = None" "resp_ok g (p, i, m, r)"
    "\<And>t f llt h z c. r \<noteq> VoteResponse t True f llt h z c" "\<And>t f llt h z c. m = VoteRequest t \<Longrightarrow> False"
  proof -
    have eq: "g' = g\<lparr>g_resps := g_resps g \<union> {(p, i, m, r)}\<rparr>" using that(1,2) by (simp add: g' A)
    have w: "written g' = written g" "g_procs g' = g_procs g" "settled g' = settled g" "superseded g' = superseded g"
      "g_acked g' = g_acked g"
      by (intro ext; simp add: eq written_def settled_def chosen_def g_start_def superseded_def)+
    have "resp_ok g' (p, i, m, r)"
      using that(3,5) w by (cases m; cases r) (auto split: proc.splits)
    then show ?thesis
      using that m by (intro plain_step [OF inv i, where v' = v' and c = "v_commit v'" and t = "v_term v'" and R = "{(p, i, m, r)}"])
        (auto simp: eq)
  qed
  from st show ?thesis
  proof (cases rule: vstep.cases)
    case (greet i' j)
    then show ?thesis using cinvD(1) [OF inv m] by simp
  next
    case (refuse e)
    then show ?thesis by (intro plain [where c = "v_commit v'" and t = "v_term v'"]) (auto simp: acked_by_def)
  next
    case (wedge c e)
    then show ?thesis by (intro plain [where c = c and t = "v_term (g_vs g i)"]) (auto simp: acked_by_def)
  next
    case (read_none b a)
    then show ?thesis by (intro idle) (auto simp: acked_by_def written_def split: proc.splits)
  next
    case (read_some a b)
    have "resp_ok g (p, i, m, r)"
    proof (cases "g_procs g p")
      case (Recovering t d ts tr h bs)
      have "written g h a (take (min b (v_flush (g_vs g i)) - a) (drop (a - v_lo (g_vs g i)) (v_log (g_vs g i))))" if "i = d"
        using read_written [OF inv Recovering [folded that] reg [OF _ Recovering]] read_some by simp
      then show ?thesis using read_some Recovering by auto
    qed (use read_some in auto)
    then show ?thesis using read_some by (intro idle) (auto simp: acked_by_def)
  next
    case (vote gt t)
    then show ?thesis
      by (intro vote_step [OF inv m [unfolded vote(1)] refl vote(3,4)]) (auto simp: g' A acked_by_def)
  next
    case (vote_lost t e)
    then show ?thesis by (intro plain [where c = "v_commit (g_vs g i)" and t = t]) (auto simp: acked_by_def)
  next
    case (elected_stale t s h)
    then show ?thesis by (intro idle) (auto simp: acked_by_def)
  next
    case (elected_lost t s h e)
    then show ?thesis by (intro plain [where c = "v_commit (g_vs g i)" and t = t]) (auto simp: acked_by_def)
  next
    case (elected_ok t s h)
    have "v' = (v_cut (g_vs g i) s)\<lparr>v_term := t, v_hist := h, v_commit := v_commit (g_vs g i)\<rparr>"
      unfolding elected_ok(3) by (simp add: v_cut_def)
    note v = this
    have "A = (g_acked g i)(t := max (g_acked g i t) (v_flush v'))" unfolding A elected_ok(2) by (simp add: acked_by_def)
    then show ?thesis
      by (intro elected_step [OF inv m [unfolded elected_ok(1)] elected_ok(4,5) _ _ v, of r A])
        (simp_all only: g' elected_ok(1,2) order_refl simp_thms)
  next
    case (elected_cut t s h c h' e)
    have "A = g_acked g i" unfolding A elected_cut(2) by (simp add: acked_by_def)
    then have "\<exists>err. r = Error err \<and> A = g_acked g i" using elected_cut(2) by blast
    then show ?thesis
      by (intro elected_step [OF inv m [unfolded elected_cut(1)] elected_cut(4,5,8,7,3), of r A] disjI2)
        (simp_all only: g' elected_cut(1) simp_thms)
  next
    case (append_stale t b e c z rs)
    then show ?thesis by (intro idle) (auto simp: acked_by_def)
  next
    case (append_ok t rs e b c' c z' z k)
    have rq: "settled g t z" "settled g t (v_hor (g_vs g i))"
      using cinvD(1) [OF inv m] append_ok(1) acc_okD(6) [OF cinvD(5) [OF inv i]] append_ok(4) by auto
    have z: "settled g t z'" unfolding append_ok(9)
      by (intro settled_max rq(2) settled_le [OF rq(1)]) simp
    show ?thesis
    proof (rule append_step [OF inv m [unfolded append_ok(1)] append_ok(4,5,6,7) _ z append_ok(10,11,3)])
      show "c' \<le> max c (v_commit (g_vs g i))" using append_ok(8) by simp
      show "g' = g\<lparr>g_vs := (g_vs g)(i := v'), g_resps := g_resps g \<union> {(p, i, Append t b e c z rs, r)},
          g_acked := (g_acked g)(i := A)\<rparr>"
        unfolding g' append_ok(1) ..
      have "A = (g_acked g i)(t := max (g_acked g i t) (v_flush v'))" unfolding A append_ok(2) by (simp add: acked_by_def)
      then show "r = AppendResp t True e c' \<and> A = (g_acked g i)(t := max (g_acked g i t) (v_flush v')) \<or>
          (\<exists>err. r = Error err \<and> A = g_acked g i)"
        using append_ok(2) by blast
    qed
  next
    case (append_lost t rs e b c' c z' z err)
    have rq: "settled g t z" "settled g t (v_hor (g_vs g i))"
      using cinvD(1) [OF inv m] append_lost(1) acc_okD(6) [OF cinvD(5) [OF inv i]] append_lost(4) by auto
    have "settled g t (max (v_hor (g_vs g i)) (min z (min (max c (v_commit (g_vs g i))) e)))"
      by (intro settled_max rq(2) settled_le [OF rq(1)]) simp
    then have z: "settled g t z'" using append_lost(9) rq(2) by auto
    have v: "v' = v_drop ((v_extend (g_vs g i) b rs)\<lparr>v_commit := c', v_hor := z'\<rparr>) 0" using append_lost(3) by simp
    show ?thesis
    proof (rule append_step [OF inv m [unfolded append_lost(1)] append_lost(4,5,6,7) _ z _ _ v])
      show "c' \<le> max c (v_commit (g_vs g i))" using append_lost(8) by simp
      show "g' = g\<lparr>g_vs := (g_vs g)(i := v'), g_resps := g_resps g \<union> {(p, i, Append t b e c z rs, r)},
          g_acked := (g_acked g)(i := A)\<rparr>"
        unfolding g' append_lost(1) ..
      have "A = g_acked g i" unfolding A append_lost(2) by (simp add: acked_by_def)
      then show "r = AppendResp t True e c' \<and> A = (g_acked g i)(t := max (g_acked g i t) (v_flush v')) \<or>
          (\<exists>err. r = Error err \<and> A = g_acked g i)"
        using append_lost(2) by blast
    qed simp_all
  qed
qed

definition cluster_inv :: "('w acceptor \<Rightarrow> aview) \<Rightarrow> ('w acceptor \<Rightarrow> bool) \<Rightarrow> 'w cluster \<Rightarrow> bool" where
  "cluster_inv vw ainv s \<longleftrightarrow> cinv (cluster_abs vw s) \<and> (\<forall>i. ainv (cl_acc s i))"

section \<open>Every step only adds\<close>

definition adds :: "'w cluster \<Rightarrow> 'w cluster \<Rightarrow> bool" where
  "adds s s' \<longleftrightarrow> cl_acc s' = cl_acc s \<and> cl_resps s' = cl_resps s \<and> set (cl_reqs s) \<subseteq> set (cl_reqs s') \<and>
     gh_hist s' = gh_hist s \<and> gh_wr s' = gh_wr s \<and> gh_acked s' = gh_acked s"

lemma adds_intros [simp, intro]:
  "adds s (set_proc s p x)" "adds s (send s ms)" "adds s (send (set_proc s p x) ms)"
  by (auto simp: adds_def set_proc_def send_def)

lemma adds_ext: "adds s s' \<Longrightarrow> ext (cluster_abs vw s) (cluster_abs vw s')"
  by (auto simp: adds_def ext_def)

lemma take_vote_adds: "take_vote s p k = Some s' \<Longrightarrow> adds s s'"
  unfolding take_vote_def Let_def by (auto split: proc.splits option.splits prod.splits message.splits if_splits sum.splits)

lemma take_read_adds: "take_read s p k = Some s' \<Longrightarrow> adds s s'"
  unfolding take_read_def Let_def by (auto split: proc.splits option.splits prod.splits message.splits if_splits)

lemma start_lead_adds: "start_lead crc s p = Some s' \<Longrightarrow> adds s s'"
  unfolding start_lead_def Let_def by (auto split: proc.splits if_splits sum.splits)

lemma handshake_adds: "handshake_step s p i = Some s' \<Longrightarrow> adds s s'"
  unfolding handshake_step_def Let_def by (auto split: proc.splits if_splits)

lemma take_elected_adds: "take_elected s p k = Some s' \<Longrightarrow> adds s s'"
  unfolding take_elected_def Let_def by (auto split: proc.splits option.splits prod.splits message.splits sum.splits)

lemma take_append_adds: "take_append s p k = Some s' \<Longrightarrow> adds s s'"
  unfolding take_append_def Let_def by (auto split: proc.splits option.splits prod.splits message.splits)

lemma stream_adds: "stream s p i = Some s' \<Longrightarrow> adds s s'"
  unfolding stream_def Let_def by (auto split: proc.splits option.splits prod.splits if_splits stream_step.splits)

lemma note_covered_adds: "note_covered_step s p key seq = Some s' \<Longrightarrow> adds s s'"
  unfolding note_covered_step_def Let_def by (auto split: proc.splits)

lemma recampaign_adds: "recampaign s p t = Some s' \<Longrightarrow> adds s s'"
  unfolding recampaign_def Let_def by (auto split: proc.splits if_splits)

lemma take_revote_adds: "take_revote s p k = Some s' \<Longrightarrow> adds s s'"
  unfolding take_revote_def Let_def by (auto split: proc.splits option.splits prod.splits message.splits if_splits sum.splits)

lemma send_elected_adds: "send_elected s p k = Some s' \<Longrightarrow> adds s s'"
  unfolding send_elected_def Let_def by (auto split: proc.splits option.splits prod.splits message.splits sum.splits hs_error.splits)

lemma view_parts [simp]:
  "v_term (v_cut v s) = v_term v" "v_term (v_drop v k) = v_term v" "v_term (v_extend v b rs) = v_term v"
  "v_hist (v_cut v s) = v_hist v" "v_hist (v_drop v k) = v_hist v" "v_hist (v_extend v b rs) = v_hist v"
  by (simp_all add: v_cut_def v_drop_def v_extend_def)

lemma vstep_term: "vstep v m r v' \<Longrightarrow> v_term v \<le> v_term v' \<and> (\<forall>t. acked_by r = Some t \<longrightarrow> v_term v \<le> t)"
proof (induct rule: vstep.induct)
  case (append_ok v t rs e b c' c z' z k)
  show ?case using append_ok(1) by (simp add: acked_by_def)
next
  case (append_lost v t rs e b c' c z' z err)
  show ?case using append_lost(1) by (simp add: acked_by_def)
qed (simp_all add: acked_by_def)

lemma vstep_hist: "vstep v m r v' \<Longrightarrow> v_hist v' = v_hist v \<or> (\<exists>t s. m = Elected t s (v_hist v'))"
proof (induct rule: vstep.induct)
  case (append_ok v t rs e b c' c z' z k)
  show ?case by simp
next
  case (append_lost v t rs e b c' c z' z err)
  show ?case by simp
next
  case (elected_cut v t s h c h' e)
  show ?case using elected_cut(5) by auto
qed simp_all

context wal_laws
begin

abbreviation "absc \<equiv> cluster_abs vw"
abbreviation "cluster_ok \<equiv> cluster_inv vw ainv"

lemma view_term: "v_term (vw a) = ps_term (effective a)"
  by (simp add: view_def Let_def)

lemma deliver_ok:
  assumes ok: "cluster_ok s" and res: "deliver ops crc s k po = Some s'" and reg: "regular s (Deliver k po)"
  shows "cluster_ok s'"
proof -
  obtain p i m where k: "k < length (cl_reqs s)" "cl_reqs s ! k = (p, i, m)"
    using res by (cases "cl_reqs s ! k") (auto simp: deliver_def split: if_splits)
  obtain r a' where pr: "process ops crc po (cl_acc s i) m = (r, a')" by force
  have a: "ainv (cl_acc s i)" using ok by (simp add: cluster_inv_def)
  note ref = process_refines [OF a pr]
  have fl: "ws_flush_lsn ops (a_wal a') = v_flush (vw a')" using view_flush ref by simp
  define A where "A = (case acked_by r of None \<Rightarrow> gh_acked s i
      | Some t \<Rightarrow> (gh_acked s i)(t := max (gh_acked s i t) (v_flush (vw a'))))"
  have s': "s' = s\<lparr>cl_acc := (cl_acc s)(i := a'), cl_resps := cl_resps s @ [(p, i, m, r)],
      gh_acked := (gh_acked s)(i := A)\<rparr>"
    using res k pr fl by (auto simp: deliver_def Let_def A_def split: option.splits)
  have mem: "(p, i, m) \<in> g_reqs (absc s)" using k by (metis abs_fields(2) nth_mem)
  have "cinv (absc s')"
  proof (rule vstep_inv [OF _ mem, of r "vw a'" A])
    show "cinv (absc s)" using ok by (simp add: cluster_inv_def)
    show "vstep (g_vs (absc s) i) m r (vw a')" using ref by simp
    show "v_term (g_vs (absc s) i) = t" if "m = Read x y" "g_procs (absc s) p = Recovering t d ts tr h bs"
      for x y t d ts tr h bs using reg k that by (simp add: view_term)
    show "absc s' = (absc s)\<lparr>g_vs := (g_vs (absc s))(i := vw a'), g_resps := g_resps (absc s) \<union> {(p, i, m, r)},
        g_acked := (g_acked (absc s))(i := A)\<rparr>"
      unfolding s' by (auto simp: cluster_abs_def)
  qed (simp add: A_def split: option.splits)
  moreover have "\<forall>j. ainv (cl_acc s' j)" using ok ref unfolding s' by (simp add: cluster_inv_def)
  ultimately show ?thesis by (simp add: cluster_inv_def)
qed

lemma reboot_view:
  assumes a: "ainv a" and b: "b = acceptor_new ops (durable a) (a_ctrl a) (a_wal a)"
  shows "ainv b" "\<exists>c\<le>v_commit (vw a). vw b = (vw a)\<lparr>v_commit := c\<rparr>"
proof -
  let ?d = "durable a" and ?f = "ws_flush_lsn ops (a_wal a)"
  have dc: "ps_commit_lsn ?d \<le> ps_commit_lsn (effective a)" "ps_commit_lsn (effective a) \<le> ?f" "inv (a_wal a)"
    using a by (auto simp: acc_inv_def)
  have st: "a_state b = ?d" using b dc by (simp add: acceptor_new_def)
  have nw: "a_wedged b = None" "a_wal b = a_wal a" "a_ctrl b = a_ctrl a" using b by (simp_all add: acceptor_new_def)
  have dn: "ps_node_id ?d = ps_node_id (a_state a)" if "a_ctrl a = None" using that by (simp add: durable_def persistent_state_new_def)
  have db: "durable b = ?d" using nw(3) st dn by (auto simp: durable_def split: option.splits)
  show "ainv b" using dc nw st db by (simp add: acc_inv_def effective_def)
  have eff: "ps_term ?d = ps_term (effective a)" "ps_term_history ?d = ps_term_history (effective a)"
    "ps_horizon_lsn ?d = ps_horizon_lsn (effective a)"
  proof -
    have eq: "(effective a)\<lparr>ps_commit_lsn := 0\<rparr> = ?d\<lparr>ps_commit_lsn := 0\<rparr>"
      using a by (auto simp: acc_inv_def effective_def)
    show "ps_term ?d = ps_term (effective a)" "ps_term_history ?d = ps_term_history (effective a)"
      "ps_horizon_lsn ?d = ps_horizon_lsn (effective a)"
      using arg_cong [OF eq, of ps_term] arg_cong [OF eq, of ps_term_history] arg_cong [OF eq, of ps_horizon_lsn] by simp_all
  qed
  have "vw b = (vw a)\<lparr>v_commit := ps_commit_lsn ?d\<rparr>"
    using nw st eff by (simp add: view_def Let_def effective_def [of b])
  moreover have "ps_commit_lsn ?d \<le> v_commit (vw a)" using dc(1) by (simp add: view_def Let_def)
  ultimately show "\<exists>c\<le>v_commit (vw a). vw b = (vw a)\<lparr>v_commit := c\<rparr>" by blast
qed

lemma reboot_ok:
  assumes ok: "cluster_ok s" and res: "reboot ops s i = Some s'"
  shows "cluster_ok s'"
proof -
  have i: "i < 3" using res by (simp add: reboot_def QUORUM_SIZE_def split: if_splits)
  define b where "b = acceptor_new ops (durable (cl_acc s i)) (a_ctrl (cl_acc s i)) (a_wal (cl_acc s i))"
  have a: "ainv (cl_acc s i)" and inv: "cinv (absc s)" using ok by (auto simp: cluster_inv_def)
  obtain c where b: "ainv b" "c \<le> v_commit (vw (cl_acc s i))" "vw b = (vw (cl_acc s i))\<lparr>v_commit := c\<rparr>"
    using reboot_view [OF a b_def] by blast
  have s': "s' = s\<lparr>cl_acc := (cl_acc s)(i := b)\<rparr>" using res by (simp add: reboot_def b_def split: if_splits)
  have "cinv (absc s')"
    by (rule plain_step [OF inv i, where v' = "vw b" and c = c and t = "v_term (vw (cl_acc s i))" and R = "{}"])
      (use b in \<open>auto simp: s' cluster_abs_def\<close>)
  then show ?thesis using ok b unfolding s' by (simp add: cluster_inv_def)
qed

lemma deliver_ext:
  assumes ok: "cluster_ok s" and res: "deliver ops crc s k po = Some s'"
  shows "ext (absc s) (absc s')"
proof -
  obtain p i m where k: "k < length (cl_reqs s)" "cl_reqs s ! k = (p, i, m)"
    using res by (cases "cl_reqs s ! k") (auto simp: deliver_def split: if_splits)
  obtain r a' where pr: "process ops crc po (cl_acc s i) m = (r, a')" by force
  have a: "ainv (cl_acc s i)" and inv: "cinv (absc s)" using ok by (auto simp: cluster_inv_def)
  have st: "vstep (vw (cl_acc s i)) m r (vw a')" using process_refines [OF a pr] by blast
  note mono = vstep_term [OF st] vstep_hist [OF st]
  have mem: "(p, i, m) \<in> g_reqs (absc s)" using k by (metis abs_fields(2) nth_mem)
  have ne: "v_hist (vw (cl_acc s i)) \<noteq> [] \<longrightarrow> v_hist (vw a') \<noteq> []"
  proof -
    have "v_hist (vw a') \<noteq> []" if "m = Elected t st (v_hist (vw a'))" for t st
    proof -
      have "g_hist (absc s) t = Some (p, v_hist (vw a'))" using cinvD(1) [OF inv mem] that by simp
      then show ?thesis using hist_okD(1) [OF cinvD(6) [OF inv]] by blast
    qed
    then show ?thesis using mono(2) by metis
  qed
  have "s' = s\<lparr>cl_acc := (cl_acc s)(i := a'), cl_resps := cl_resps s @ [(p, i, m, r)],
      gh_acked := (case acked_by r of None \<Rightarrow> gh_acked s
         | Some t \<Rightarrow> (gh_acked s)(i := (gh_acked s i)(t := max (gh_acked s i t) (ws_flush_lsn ops (a_wal a')))))\<rparr>"
    using res k pr by (auto simp: deliver_def Let_def split: option.splits)
  then show ?thesis
    unfolding ext_def using mono(1) ne by (auto split: option.splits)
qed

lemma reboot_ext:
  assumes ok: "cluster_ok s" and res: "reboot ops s i = Some s'"
  shows "ext (absc s) (absc s')"
proof -
  define b where "b = acceptor_new ops (durable (cl_acc s i)) (a_ctrl (cl_acc s i)) (a_wal (cl_acc s i))"
  have a: "ainv (cl_acc s i)" using ok by (auto simp: cluster_inv_def)
  obtain c where b: "vw b = (vw (cl_acc s i))\<lparr>v_commit := c\<rparr>" using reboot_view [OF a b_def] by blast
  have "s' = s\<lparr>cl_acc := (cl_acc s)(i := b)\<rparr>" using res by (simp add: reboot_def b_def split: if_splits)
  then show ?thesis using b by (simp add: ext_def)
qed

lemma exec_ok:
  assumes ok: "cluster_ok s" and res: "exec ops crc s e = Some s'" and reg: "regular s e"
  shows "cluster_ok s' \<and> ext (absc s) (absc s')"
proof -
  have inv: "cinv (absc s)" and ac: "\<forall>i. ainv (cl_acc s i)" using ok by (auto simp: cluster_inv_def)
  have add: "cluster_ok s' \<and> ext (absc s) (absc s')" if "adds s s'" "cinv (absc s')"
    using that ac adds_ext [OF that(1)] by (simp add: cluster_inv_def adds_def)
  have acc: "cl_acc s' = cl_acc s \<Longrightarrow> cinv (absc s') \<and> ext (absc s) (absc s') \<Longrightarrow>
      cluster_ok s' \<and> ext (absc s) (absc s')" using ac by (simp add: cluster_inv_def)
  show ?thesis
  proof (cases e)
    case (Campaign p t)
    then have "cl_procs s p = Idle" "0 < t" "s' = send (set_proc s p (Campaigning t (replicate QUORUM_SIZE None)))
        (broadcast p (VoteRequest t))" using res by (auto split: proc.splits if_splits)
    then show ?thesis using add campaign_inv [OF inv] by simp
  next
    case (TakeVote p k)
    then show ?thesis using add [OF take_vote_adds take_vote_inv [OF inv]] res by simp
  next
    case (WinOpen p)
    have "cl_acc s' = cl_acc s" using res WinOpen
      by (auto simp: win_open_def set_proc_def send_def split: proc.splits sum.splits prod.splits)
    then show ?thesis using acc res win_open_inv [OF inv] WinOpen by simp
  next
    case (TakeRead p k)
    then show ?thesis using add [OF take_read_adds take_read_inv [OF inv]] res by simp
  next
    case (StartLead p)
    then show ?thesis using add [OF start_lead_adds start_lead_inv [OF inv]] res by simp
  next
    case (Handshake p i)
    then show ?thesis using add [OF handshake_adds handshake_inv [OF inv]] res by simp
  next
    case (SendElected p k)
    then show ?thesis using add [OF send_elected_adds send_elected_inv [OF inv]] res by simp
  next
    case (TakeElected p k)
    then show ?thesis using add [OF take_elected_adds take_elected_inv [OF inv]] res by simp
  next
    case (Stream p i)
    then show ?thesis using add [OF stream_adds stream_inv [OF inv]] res by simp
  next
    case (TakeAppend p k)
    then show ?thesis using add [OF take_append_adds take_append_inv [OF inv]] res by simp
  next
    case (Submit p kind key seq body)
    have "cl_acc s' = cl_acc s" using res Submit
      by (auto simp: submit_step_def set_proc_def split: proc.splits sum.splits prod.splits)
    then show ?thesis using acc res submit_inv [OF inv] Submit by simp
  next
    case (NoteCovered p key seq)
    then show ?thesis using add [OF note_covered_adds note_covered_inv [OF inv]] res by simp
  next
    case (ReCampaign p t)
    then show ?thesis using add [OF recampaign_adds recampaign_inv [OF inv]] res by simp
  next
    case (TakeReVote p k)
    then show ?thesis using add [OF take_revote_adds take_revote_inv [OF inv]] res by simp
  next
    case (ReAdopt p)
    have "cl_acc s' = cl_acc s" using res ReAdopt
      by (auto simp: readopt_def set_proc_def split: proc.splits sum.splits option.splits prod.splits)
    then show ?thesis using acc res reg readopt_inv [OF inv] ReAdopt by simp
  next
    case (Deliver k po)
    then show ?thesis using deliver_ok [OF ok] deliver_ext [OF ok] res reg by simp
  next
    case (Reboot i)
    then show ?thesis using reboot_ok [OF ok] reboot_ext [OF ok] res by simp
  next
    case (Die p)
    then show ?thesis using add res die_inv [OF inv] by auto
  qed
qed

lemma run_ok:
  "cluster_ok s \<Longrightarrow> run ops crc s es = Some s' \<Longrightarrow> cluster_ok s' \<and> ext (absc s) (absc s')"
proof (induction es arbitrary: s)
  case Nil
  then show ?case by (simp add: ext_refl)
next
  case (Cons e es)
  obtain s1 where s1: "regular s e" "exec ops crc s e = Some s1" "run ops crc s1 es = Some s'"
    using Cons.prems(2) by (auto split: if_splits simp: bind_eq_Some_conv)
  have st: "cluster_ok s1" "ext (absc s) (absc s1)" using exec_ok [OF Cons.prems(1) s1(2,1)] by blast+
  then show ?case using Cons.IH [OF st(1) s1(3)] ext_trans by blast
qed

lemma init_ok:
  assumes w: "inv w" "ws_is_empty ops w"
  shows "cluster_ok (init_cluster ops w)"
proof -
  have f: "ws_flush_lsn ops w = 0" "lo w = 0" "content w = []" using flush_eq [OF w(1)] empty_zero [OF w] by auto
  have v: "vw (cl_acc (init_cluster ops w) i) = \<lparr>v_term = 0, v_hist = [], v_commit = 0, v_hor = 0, v_lo = 0, v_log = [], v_empty = True\<rparr>" for i
    using w f by (simp add: init_cluster_def view_def Let_def effective_def acceptor_new_def persistent_state_new_def)
  have "ainv (cl_acc (init_cluster ops w) i)" for i
    using w f by (simp add: acc_inv_def init_cluster_def effective_def durable_def acceptor_new_def persistent_state_new_def)
  moreover have "cinv (absc (init_cluster ops w))"
    unfolding cinv_def acc_ok_def key_inv_def grants_unique_def granted_def binding_def written_def ok_at_def Let_def abs_fields v
    by (simp add: init_cluster_def v_flush_def)
  ultimately show ?thesis by (simp add: cluster_inv_def)
qed

section \<open>Agreement\<close>

lemma committed_llt:
  assumes inv: "cinv g" and c: "settled g t c" "t \<le> t'" "t \<le> t''" "x < c"
    and h: "g_hist g t' = Some (p, h)" "g_hist g t'' = Some (q, h')"
  shows "last_log_term h x = last_log_term h' x"
proof -
  obtain t0 e0 where ch: "t0 \<le> t" "c \<le> e0" "chosen g t0 e0" using c(1,4) by (auto simp: settled_def)
  obtain p0 h0 where h0: "g_hist g t0 = Some (p0, h0)" using ch(3) by (auto simp: chosen_def)
  have same: "last_log_term k x = last_log_term h0 x" if k: "g_hist g u = Some (r, k)" "t0 \<le> u" for u r k
  proof (cases "u = t0")
    case True
    then show ?thesis using k h0 by simp
  next
    case False
    then have lt: "t0 < u" using k(2) by simp
    have "choosable g t0 e0" "g_start g t0 \<le> e0" "0 < e0"
      using chosen_choosable [OF ch(3)] ch c(4) by (auto simp: chosen_def)
    then have car: "carries k t0 e0" using cinvD(7) [OF inv] k(1) lt h0 unfolding key_inv_def by blast
    then obtain j where j: "j < length k" "tl_term (k ! j) = t0" by (rule carries_index)
    note ho = hist_okD [OF cinvD(6) [OF inv k(1)]]
    have "take (Suc j) k = h0" using ho(6) [OF j(1)] j(2) h0 by auto
    then show ?thesis using carries_llt [OF ho(4) car j] ch(2) c(4) by simp
  qed
  show ?thesis using same [OF h(1)] same [OF h(2)] ch(1) c(2,3) by simp
qed

lemma written_log_byte:
  assumes "leader_ok g p l" "lb_base (sh_log (ld_sh l)) \<le> x" "x < lb_head (sh_log (ld_sh l))"
  shows "log_byte (sh_log (ld_sh l)) x = g_wr g (last_log_term (el_history (sh_election (ld_sh l))) x) x"
proof -
  let ?log = "sh_log (ld_sh l)"
  note d = leader_okD [OF assms(1)]
  have len: "lb_head ?log = lb_base ?log + length (rm_bytes (lb_records ?log))"
    using d(1) rm_chain_length unfolding shared_wf_def log_wf_def by blast
  obtain j where j: "x = lb_base ?log + j" using assms(2) le_Suc_ex by blast
  then have "g_wr g (last_log_term (el_history (sh_election (ld_sh l))) x) x = Some (rm_bytes (lb_records ?log) ! j)"
    using d(9) len assms(3) by (simp add: written_def)
  then show ?thesis using assms(2,3) j by (simp add: log_byte_def)
qed

lemma leaders:
  assumes ok: "cluster_ok s" and p: "cl_procs s p = Leading l"
  shows "leader_ok (absc s) p l"
  using cinvD(4) [of "absc s" p] ok p by (simp add: cluster_inv_def)

lemma agreement:
  assumes w: "inv w" "ws_is_empty ops w" and r1: "run ops crc (init_cluster ops w) es = Some s"
    and r2: "run ops crc s es' = Some s'" and p: "cl_procs s p = Leading l" and q: "cl_procs s' q = Leading l'"
    and t: "el_term (sh_election (ld_sh l)) \<le> el_term (sh_election (ld_sh l'))"
    and x: "lb_base (sh_log (ld_sh l)) \<le> x" "x < sh_commit (ld_sh l)"
  shows "log_byte (sh_log (ld_sh l)) x \<noteq> None \<and> x < lb_head (sh_log (ld_sh l')) \<and>
     (lb_base (sh_log (ld_sh l')) \<le> x \<longrightarrow> log_byte (sh_log (ld_sh l')) x = log_byte (sh_log (ld_sh l)) x)"
proof -
  have ok: "cluster_ok s" using run_ok [OF init_ok [OF w] r1] by blast
  have ok': "cluster_ok s'" and e: "ext (absc s) (absc s')" using run_ok [OF ok r2] by blast+
  have inv: "cinv (absc s)" "cinv (absc s')" using ok ok' by (auto simp: cluster_inv_def)
  note l = leaders [OF ok p] and l' = leaders [OF ok' q]
  note lh = leader_hist [OF inv(1) l] and lh' = leader_hist [OF inv(2) l']
  let ?t = "el_term (sh_election (ld_sh l))"
  have xh: "x < lb_head (sh_log (ld_sh l))" using settled_head [OF inv(1) l leader_okD(8) [OF l]] x(2) by simp
  have st: "settled (absc s') ?t (sh_commit (ld_sh l))" using ext_settled [OF e leader_okD(8) [OF l]] .
  have xh': "x < lb_head (sh_log (ld_sh l'))"
    using settled_head [OF inv(2) l' settled_term [OF st t]] x(2) by simp
  have b: "log_byte (sh_log (ld_sh l)) x = gh_wr s (last_log_term (el_history (sh_election (ld_sh l))) x) x"
    using written_log_byte [OF l x(1) xh] by simp
  have some: "log_byte (sh_log (ld_sh l)) x \<noteq> None" using x(1) xh by (simp add: log_byte_def)
  have h: "g_hist (absc s') ?t = Some (p, el_history (sh_election (ld_sh l)))" using extD(1) [OF e lh(2)] .
  have "last_log_term (el_history (sh_election (ld_sh l))) x = last_log_term (el_history (sh_election (ld_sh l'))) x"
    using committed_llt [OF inv(2) st order_refl t x(2) h lh'(2)] .
  then have "log_byte (sh_log (ld_sh l')) x = log_byte (sh_log (ld_sh l)) x" if "lb_base (sh_log (ld_sh l')) \<le> x"
    using written_log_byte [OF l' that xh'] b some extD(2) [OF e] by auto
  then show ?thesis using some xh' by blast
qed

lemma one_leader:
  assumes w: "inv w" "ws_is_empty ops w" and r: "run ops crc (init_cluster ops w) es = Some s"
    and p: "cl_procs s p = Leading l" and q: "cl_procs s q = Leading l'"
    and t: "el_term (sh_election (ld_sh l)) = el_term (sh_election (ld_sh l'))"
  shows "p = q"
proof -
  have ok: "cluster_ok s" using run_ok [OF init_ok [OF w] r] by blast
  then have inv: "cinv (absc s)" by (simp add: cluster_inv_def)
  show ?thesis using leader_hist(2) [OF inv leaders [OF ok p]] leader_hist(2) [OF inv leaders [OF ok q]] t by simp
qed

end

end
