(* ===== verification/AcceptorSafety.thy ===== *)
theory AcceptorSafety
  imports AcceptorSpec WalBoot
begin

text \<open>
  What an acceptor never loses: the bytes below its commit position, the vote it granted, and
  the bytes it acknowledged; and what a restart makes of its data directory.
\<close>

section \<open>The committed prefix\<close>

lemma cut_keeps:
  assumes "v_lo v \<le> x" "x < s" "x < v_flush v"
  shows "x < v_flush (v_cut v s)" "v_lo (v_cut v s) = v_lo v"
    "v_log (v_cut v s) ! (x - v_lo v) = v_log v ! (x - v_lo v)"
  using assms by (auto simp: v_cut_def v_flush_def)

lemma drop_keeps:
  assumes "v_lo (v_drop v k) \<le> x" "x < v_flush v" "k \<le> length (v_log v)"
  shows "x < v_flush (v_drop v k)" "v_log (v_drop v k) ! (x - v_lo (v_drop v k)) = v_log v ! (x - v_lo v)"
proof -
  obtain j where j: "x = v_lo v + k + j" using assms(1) by (auto simp: v_drop_def le_iff_add)
  then have "k + j < length (v_log v)" using assms(2) by (simp add: v_flush_def)
  then show "x < v_flush (v_drop v k)" "v_log (v_drop v k) ! (x - v_lo (v_drop v k)) = v_log v ! (x - v_lo v)"
    using j by (simp_all add: v_drop_def v_flush_def)
qed

lemma extend_keeps:
  assumes "\<not> v_empty v" "v_lo v \<le> x" "x < v_flush v"
  shows "x < v_flush (v_extend v b rs)" "v_lo (v_extend v b rs) = v_lo v"
    "v_log (v_extend v b rs) ! (x - v_lo v) = v_log v ! (x - v_lo v)"
  using assms by (auto simp: v_extend_def v_flush_def nth_append)

definition kept :: "aview \<Rightarrow> aview \<Rightarrow> lsn \<Rightarrow> bool" where
  "kept v v' x \<longleftrightarrow> v_lo v' \<le> x \<and> x < v_flush v' \<and> v_log v' ! (x - v_lo v') = v_log v ! (x - v_lo v)"

text \<open>The byte at \<open>x\<close> is at or above the horizon: the acceptor's own and the one a request asks for.\<close>

fun not_released :: "lsn \<Rightarrow> message \<Rightarrow> lsn \<Rightarrow> bool" where
  "not_released h (Append t b e c z rs) x \<longleftrightarrow> h \<le> x \<and> z \<le> x"
| "not_released h m x \<longleftrightarrow> h \<le> x"

lemma kept_refl: "v_lo v \<le> x \<Longrightarrow> x < v_flush v \<Longrightarrow> kept v v x"
  by (simp add: kept_def)

lemma kept_fields:
  "kept v (v'\<lparr>v_term := t\<rparr>) x = kept v v' x" "kept v (v'\<lparr>v_commit := c\<rparr>) x = kept v v' x"
  "kept v (v'\<lparr>v_hist := h\<rparr>) x = kept v v' x" "kept v (v'\<lparr>v_hor := z\<rparr>) x = kept v v' x"
  by (simp_all add: kept_def v_flush_def)

lemma kept_cut: "v_lo v \<le> x \<Longrightarrow> x < s \<Longrightarrow> x < v_flush v \<Longrightarrow> kept v (v_cut v s) x"
  using cut_keeps [of v x s] by (simp add: kept_def)

lemma kept_extend: "\<not> v_empty v \<Longrightarrow> v_lo v \<le> x \<Longrightarrow> x < v_flush v \<Longrightarrow> kept v (v_extend v b rs) x"
  using extend_keeps [of v x b rs] by (simp add: kept_def)

lemma kept_drop: "kept v v' x \<Longrightarrow> v_lo v' + k \<le> max (v_lo v') h \<Longrightarrow> h \<le> x \<Longrightarrow> k \<le> length (v_log v') \<Longrightarrow>
  kept v (v_drop v' k) x"
  using drop_keeps [of v' k x] by (auto simp: kept_def v_drop_def max_def split: if_splits)

lemma vstep_kept:
  assumes st: "vstep v m r v'" and c: "v_commit v \<le> v_flush v" and em: "v_empty v \<Longrightarrow> v_log v = []"
    and x: "v_lo v \<le> x" "x < v_commit v" and h: "not_released (v_hor v) m x"
  shows "kept v v' x"
proof -
  have xf: "x < v_flush v" using c x(2) by simp
  then have ne: "\<not> v_empty v" using em x(1) by (auto simp: v_flush_def)
  note same = kept_refl [OF x(1) xf]
  show ?thesis using st
  proof (cases rule: vstep.cases)
    case (elected_ok t s h)
    have "x < s" using x(2) elected_ok(6) by simp
    then show ?thesis unfolding elected_ok(3) kept_fields using kept_cut x(1) xf by blast
  next
    case (elected_cut t s h c h' e)
    have "x < s" using x(2) elected_cut(6) by simp
    then show ?thesis unfolding elected_cut(3) kept_fields using kept_cut x(1) xf by blast
  next
    case (append_ok t rs e b c' c z' z k)
    show ?thesis unfolding append_ok(3)
    proof (rule kept_drop)
      show "kept v ((v_extend v b rs)\<lparr>v_commit := c', v_hor := z'\<rparr>) x"
        unfolding kept_fields using kept_extend [OF ne x(1) xf] .
      show "v_lo ((v_extend v b rs)\<lparr>v_commit := c', v_hor := z'\<rparr>) + k
          \<le> max (v_lo ((v_extend v b rs)\<lparr>v_commit := c', v_hor := z'\<rparr>)) z'" using append_ok(11) by simp
      show "z' \<le> x" using h append_ok(1,9) by (simp add: min_le_iff_disj)
      show "k \<le> length (v_log ((v_extend v b rs)\<lparr>v_commit := c', v_hor := z'\<rparr>))" using append_ok(10) by (simp add: v_extend_def)
    qed
  next
    case (append_lost t rs e b c' c z' z err)
    show ?thesis unfolding append_lost(3) kept_fields using kept_extend [OF ne x(1) xf] .
  next
    case (vote gt t)
    then show ?thesis using same by (cases gt) (simp_all add: kept_fields)
  next
    case (wedge c e)
    show ?thesis unfolding wedge(2) kept_fields by (rule same)
  next
    case (vote_lost t e)
    show ?thesis unfolding vote_lost(3) kept_fields by (rule same)
  next
    case (elected_lost t s h e)
    show ?thesis unfolding elected_lost(3) kept_fields by (rule same)
  qed (use same in simp_all)
qed

lemma append_acked:
  assumes st: "vstep v m r v'" and m: "m = Append t b e c z rs" and r: "r = AppendResp t' True f c'"
  obtains k z' where "v_term v = t" "t' = t" "f = e" "e = b + length rs" "v_empty v \<or> b = v_flush v"
    "c' = min (max c (v_commit v)) e" "z' = max (v_hor v) (min z c')"
    "v_lo (v_extend v b rs) + k \<le> max (v_lo (v_extend v b rs)) z'"
    "k \<le> length (v_log v @ rs)" "v' = v_drop ((v_extend v b rs)\<lparr>v_commit := c', v_hor := z'\<rparr>) k"
proof -
  from st have "\<exists>k z'. v_term v = t \<and> t' = t \<and> f = e \<and> e = b + length rs \<and> (v_empty v \<or> b = v_flush v) \<and>
    c' = min (max c (v_commit v)) e \<and> z' = max (v_hor v) (min z c') \<and>
    v_lo (v_extend v b rs) + k \<le> max (v_lo (v_extend v b rs)) z' \<and>
    k \<le> length (v_log v @ rs) \<and> v' = v_drop ((v_extend v b rs)\<lparr>v_commit := c', v_hor := z'\<rparr>) k"
  proof (cases rule: vstep.cases)
    case (append_ok t0 rs0 e0 b0 d' d y' y k)
    have q: "t0 = t" "b0 = b" "e0 = e" "rs0 = rs" "d = c" "y = z" using append_ok(1) m by simp_all
    have w: "t' = t0" "f = e0" "c' = d'" using append_ok(2) r by simp_all
    show ?thesis using append_ok(3,4,6-11) unfolding w q by blast
  next
    case append_lost
    show ?thesis using append_lost(2) r by simp
  qed (use m r in simp_all)
  then show ?thesis using that by blast
qed

context wal_laws
begin

lemma process_kept:
  assumes a: "ainv a" and pr: "process ops crc po a m = (resp, a')"
    and x: "lo (a_wal a) \<le> x" "x < ps_commit_lsn (effective a)" and h: "not_released (ps_horizon_lsn (effective a)) m x"
  shows "lo (a_wal a') \<le> x \<and> x < ws_flush_lsn ops (a_wal a') \<and>
    content (a_wal a') ! (x - lo (a_wal a')) = content (a_wal a) ! (x - lo (a_wal a))"
proof -
  have a': "ainv a'" and st: "vstep (vw a) m resp (vw a')" using process_refines [OF a pr] by blast+
  have v: "v_lo (vw b) = lo (a_wal b)" "v_log (vw b) = content (a_wal b)" "v_commit (vw b) = ps_commit_lsn (effective b)"
    "v_empty (vw b) = ws_is_empty ops (a_wal b)" "v_hor (vw b) = ps_horizon_lsn (effective b)" for b
    by (simp_all add: view_def Let_def)
  have "kept (vw a) (vw a') x"
  proof (rule vstep_kept [OF st])
    show "v_commit (vw a) \<le> v_flush (vw a)" using a view_flush [OF a] v by (simp add: acc_inv_def)
    show "v_empty (vw a) \<Longrightarrow> v_log (vw a) = []" using a empty_zero v by (simp add: acc_inv_def)
  qed (use x h v in simp_all)
  then show ?thesis using view_flush [OF a'] v by (simp add: kept_def)
qed

text \<open>
  An acknowledged append: the bytes end the log, in memory and on disk, and the horizon bounds
  what the same request released in front.
\<close>

lemma process_append_ack:
  assumes a: "ainv a" and pr: "process ops crc po a (Append t b e c z rs) = (AppendResp t' True f c', a')"
  shows "t' = t \<and> f = e \<and> e = b + length rs \<and> ws_flush_lsn ops (a_wal a') = e \<and> ps_term (effective a) = t \<and>
    c' = min (max c (ps_commit_lsn (effective a))) e \<and>
    ps_horizon_lsn (effective a') = max (ps_horizon_lsn (effective a)) (min z c') \<and>
    (\<exists>k. content (a_wal a') = drop k (content (a_wal a) @ rs) \<and> k \<le> length (content (a_wal a) @ rs) \<and>
       (let base = (if ws_is_empty ops (a_wal a) then b else lo (a_wal a)) in
        lo (a_wal a') = base + k \<and> base + k \<le> max base (ps_horizon_lsn (effective a'))))"
proof -
  have a': "ainv a'" and st: "vstep (vw a) (Append t b e c z rs) (AppendResp t' True f c') (vw a')"
    using process_refines [OF a pr] by blast+
  have v: "v_term (vw x) = ps_term (effective x)" "v_log (vw x) = content (a_wal x)" "v_lo (vw x) = lo (a_wal x)"
    "v_empty (vw x) = ws_is_empty ops (a_wal x)" "v_commit (vw x) = ps_commit_lsn (effective x)"
    "v_hor (vw x) = ps_horizon_lsn (effective x)" for x
    by (simp_all add: view_def Let_def)
  from st obtain k z' where t: "v_term (vw a) = t" "t' = t" and e: "f = e" "e = b + length rs"
    and b: "v_empty (vw a) \<or> b = v_flush (vw a)" and c: "c' = min (max c (v_commit (vw a))) e"
    and z: "z' = max (v_hor (vw a)) (min z c')"
    and kz: "v_lo (v_extend (vw a) b rs) + k \<le> max (v_lo (v_extend (vw a) b rs)) z'"
    and k: "k \<le> length (v_log (vw a) @ rs)"
    and va': "vw a' = v_drop ((v_extend (vw a) b rs)\<lparr>v_commit := c', v_hor := z'\<rparr>) k"
    by (rule append_acked [OF _ refl refl])
  have log: "content (a_wal a') = drop k (content (a_wal a) @ rs)"
    unfolding v(2) [symmetric] va' by (simp add: v_drop_def v_extend_def)
  have base: "v_lo (v_extend (vw a) b rs) = (if ws_is_empty ops (a_wal a) then b else lo (a_wal a))"
    using v by (simp add: v_extend_def)
  have "v_lo (v_extend (vw a) b rs) + length (content (a_wal a)) = b"
  proof (cases "v_empty (vw a)")
    case True
    then have "content (a_wal a) = []" using a empty_zero v by (simp add: acc_inv_def)
    then show ?thesis using True by (simp add: v_extend_def)
  next
    case False
    then show ?thesis using b v by (simp add: v_extend_def v_flush_def)
  qed
  moreover have low: "v_lo (vw a') = v_lo (v_extend (vw a) b rs) + k" unfolding va' by (simp add: v_drop_def)
  ultimately have "v_flush (vw a') = e" using log e(2) k v by (simp add: v_flush_def)
  then have fl: "ws_flush_lsn ops (a_wal a') = e" using view_flush [OF a'] by simp
  have hor: "ps_horizon_lsn (effective a') = z'" unfolding v(6) [symmetric] va' by (simp add: v_drop_def v_extend_def)
  let ?base = "if ws_is_empty ops (a_wal a) then b else lo (a_wal a)"
  have "lo (a_wal a') = ?base + k" using low unfolding base unfolding v(3) .
  moreover have "?base + k \<le> max ?base z'" using kz unfolding base .
  moreover have "k \<le> length (content (a_wal a) @ rs)" using k unfolding v(2) .
  ultimately have "\<exists>k. content (a_wal a') = drop k (content (a_wal a) @ rs) \<and> k \<le> length (content (a_wal a) @ rs) \<and>
      (let base = ?base in lo (a_wal a') = base + k \<and> base + k \<le> max base z')"
    using log unfolding Let_def by blast
  moreover have "ps_term (effective a) = t" "c' = min (max c (ps_commit_lsn (effective a))) e"
    "z' = max (ps_horizon_lsn (effective a)) (min z c')" using t(1) c z by (simp_all only: v)
  ultimately show ?thesis unfolding hor using t(2) e fl by blast
qed

end

section \<open>Votes\<close>

lemma vote_durable:
  assumes inv: "acc_inv ops winv a" and pr: "process ops crc po a (VoteRequest t) = (VoteResponse t' True f llt h z c, a')"
  shows "t' = t \<and> ps_term (effective a) < t \<and> ps_term (effective a') = t \<and> ps_term (durable a') = t"
proof -
  have nw: "a_wedged a = None" using pr by (cases "a_wedged a") (auto simp: process_def)
  let ?n = "(a_state a)\<lparr>ps_term := t\<rparr>"
  have hv: "handle_vote ops po a t = (Inr (VoteResponse t' True f llt h z c), a')"
    using pr nw by (auto simp: process_def Let_def split: sum.splits prod.splits)
  then have lt: "ps_term (a_state a) < t" by (auto simp: handle_vote_def Let_def split: if_splits)
  have "persist po a ?n = (Inr (), a\<lparr>a_ctrl := Some ?n, a_state := ?n\<rparr>)"
    using hv lt by (cases "po ?n") (auto simp: handle_vote_def persist_def Let_def)
  then have "t' = t" "a' = a\<lparr>a_ctrl := Some ?n, a_state := ?n\<rparr>" using hv lt by (auto simp: handle_vote_def Let_def)
  then show ?thesis using lt nw by (simp add: effective_def durable_def)
qed

lemma vote_same_wal [simp]: "a_wal (snd (process ops crc po a (VoteRequest t))) = a_wal a"
  by (auto simp: process_def handle_vote_def persist_def Let_def
      split: option.splits sum.splits prod.splits persist_outcome.splits if_splits)

section \<open>Restarts\<close>

text \<open>
  A restart of an acceptor whose files hold whole records, the newest of which may end in a torn one,
  is to a reader of its state the step \<^verbatim>\<open>reboot\<close> of the cluster: the control document as it is on disk
  and the log as it was.
\<close>

lemma open_dir_view:
  assumes ctrl: "file_control_load from_slice control = Inr (a_ctrl a)" "ps_node_id (durable a) = node"
    and dir: "rec_dir crc (sw_lo (a_wal a)) fs b" "\<forall>r\<in>set rs. record_wf r" "contiguous b rs" "rs \<noteq> []"
    and torn: "length p \<le> U32_MAX" "k < length (frame crc p)"
    and log: "sw_inv (a_wal a)" "sw_content (a_wal a) = concat (map (\<lambda>f. records_bytes crc (snd f)) fs) @ records_bytes crc rs"
  shows "\<exists>a'. open_dir io_ok crc from_slice True control
      (map (rec_file crc) fs @ [(b, records_bytes crc rs @ take k (frame crc p))]) node = Inr a' \<and>
    view (segment_wal_ops io_ok) sw_lo sw_content a' =
      view (segment_wal_ops io_ok) sw_lo sw_content (acceptor_new (segment_wal_ops io_ok) (durable a) (a_ctrl a) (a_wal a))"
proof -
  obtain w where w: "segment_wal_open io_ok crc (map (rec_file crc) fs @ [(b, records_bytes crc rs @ take k (frame crc p))]) = Inr w"
    "sw_inv w" "sw_lo w = sw_lo (a_wal a)" "sw_content w = sw_content (a_wal a)"
    using segment_wal_open_recovers [OF dir(1-3) torn] dir(4) log(2) by auto
  have flush: "sw_flush w = sw_flush (a_wal a)" using sw_flush_eq w(2-4) log(1) by simp
  have "records_bytes crc rs \<noteq> []" using dir(4) by (cases rs) simp_all
  then have "\<not> sw_empty w" "\<not> sw_empty (a_wal a)" using sw_empty_zero w(2,4) log by fastforce+
  then have v: "view (segment_wal_ops io_ok) sw_lo sw_content (acceptor_new (segment_wal_ops io_ok) d c w) =
      view (segment_wal_ops io_ok) sw_lo sw_content (acceptor_new (segment_wal_ops io_ok) d c (a_wal a))" for d c
    using w(3,4) flush by (simp add: view_def effective_def acceptor_new_def segment_wal_ops_def Let_def)
  have "open_dir io_ok crc from_slice True control (map (rec_file crc) fs @ [(b, records_bytes crc rs @ take k (frame crc p))]) node =
      Inr (acceptor_new (segment_wal_ops io_ok) (durable a) (a_ctrl a) w)"
    using ctrl w(1) by (auto simp: open_dir_def durable_def persistent_state_new_def split: option.splits)
  then show ?thesis using v by blast
qed

end
