(* ===== verification/Examples.thy ===== *)
theory Examples
  imports ClusterSafety WalBoot AcceptorSafety
begin

text \<open>
  Concrete states: the empty segment log, a fresh acceptor, and the run of two servers one
  after the other, evaluated by the simplifier.
\<close>

section \<open>States and runs\<close>

definition empty_wal :: segment_wal where
  "empty_wal = \<lparr>sw_files = Map.empty, sw_sealed = [], sw_active = None, sw_flush = 0, sw_empty = True,
     sw_rotate_bytes = SEGMENT_ROTATE_BYTES, sw_wedged = False\<rparr>"

abbreviation "wal_ops \<equiv> segment_wal_ops io_ok"
abbreviation "seg_ainv \<equiv> acc_inv (segment_wal_ops io_ok) sw_inv"
abbreviation "seg_view \<equiv> view (segment_wal_ops io_ok) sw_lo sw_content"
abbreviation "always_ok \<equiv> (\<lambda>_ :: persistent_state. PersistOk)"

text \<open>A first server wins term 1 and commits one record; a second one wins term 2 and recovers it.\<close>

definition first_server :: "event list" where
  "first_server =
     [Campaign 0 1, Deliver 0 always_ok, Deliver 1 always_ok, TakeVote 0 0, TakeVote 0 1, WinOpen 0, StartLead 0,
      Handshake 0 0, Handshake 0 1, Deliver 3 always_ok, Deliver 4 always_ok, SendElected 0 2, SendElected 0 3,
      Deliver 5 always_ok, Deliver 6 always_ok, TakeElected 0 4, TakeElected 0 5, Submit 0 0 [] 1 [7],
      Stream 0 0, Stream 0 1, Deliver 7 always_ok, Deliver 8 always_ok, TakeAppend 0 6, TakeAppend 0 7]"

definition second_server :: "event list" where
  "second_server =
     [Campaign 1 2, Deliver 10 always_ok, Deliver 11 always_ok, TakeVote 1 8, TakeVote 1 9, WinOpen 1,
      Deliver 12 always_ok, TakeRead 1 10, StartLead 1]"

definition first_state :: "segment_wal cluster" where
  "first_state = the (run wal_ops (\<lambda>_. 0) (init_cluster wal_ops empty_wal) first_server)"

definition second_state :: "segment_wal cluster" where
  "second_state = the (run wal_ops (\<lambda>_. 0) first_state second_server)"

fun leader_of :: "proc \<Rightarrow> leading option" where
  "leader_of (Leading l) = Some l"
| "leader_of _ = None"

lemma empty_wal_ok: "sw_inv empty_wal" "sw_empty empty_wal" "ws_is_empty wal_ops empty_wal"
  by (simp_all add: empty_wal_def sw_inv_def wal_segs_def sw_lo_def seg_files_def segment_wal_ops_def)

section \<open>Evaluation\<close>

text \<open>One turn of the frame scan, usable on concrete data only.\<close>

lemma scan_loop_turn:
  "off < length data \<Longrightarrow> scan_loop crc data off acc =
     (if length data - off < FRAME_HEADER_BYTES then acc\<lparr>bad := Some ''torn header''\<rparr>
      else
        (let len = le_nat (take 4 (drop off data));
             c = le_nat (take 4 (drop (off + 4) data));
             start = off + FRAME_HEADER_BYTES
         in if length data - off - FRAME_HEADER_BYTES < len
            then acc\<lparr>bad := Some ''torn payload''\<rparr>
            else if unat (crc (take len (drop start data))) \<noteq> c
            then acc\<lparr>bad := Some ''crc mismatch''\<rparr>
            else scan_loop crc data (start + len)
                   (acc\<lparr>payloads := payloads acc @ [(start, start + len)],
                        good_end := start + len\<rparr>)))"
  "length data \<le> off \<Longrightarrow> scan_loop crc data off acc = acc"
  by (subst scan_loop.simps, simp)+

lemma le_bytes_numeral: "le_bytes (numeral k) n = word_of_nat n # le_bytes (pred_numeral k) (n div 256)"
  by (simp only: numeral_eq_Suc le_bytes.simps)

lemma three_copies: "replicate 3 x = [x, x, x]" "[0..<3] = [0, 1, 2]"
  by (simp_all add: eval_nat_numeral)

lemmas run_simps =
  rbind_def ok_or_def FRAME_HEADER_BYTES_def U32_MAX_def check_frame_len_def frame_bytes_def
  scan_frame_bytes_def range_bytes_def up_to_def last_log_term_def find_highest_common_point_def
  RECORD_FRAME_def RECORD_WATERMARK_def LOG_KIND_LOG_def record_payload_def record_encode_def
  cont_def decode_record_payload_def decode_records_def SEGMENT_ROTATE_BYTES_def io_ok_def
  seal_active_def wal_append_def wal_truncate_from_def wal_drop_below_def wal_segs_def
  wal_retained_start_def wal_read_def segment_wal_ops_def persistent_state_new_def unwrap_or_def
  acceptor_new_def persist_def handle_vote_def divergence_start_def expected_start_def
  handle_elected_def handle_append_def handle_read_def process_def durable_def effective_def
  QUORUM_SIZE_def QUORUM_def MAX_APPEND_BATCH_BYTES_def APPEND_MESSAGE_HEADROOM_def donor_le_def
  max_by_key_def pick_donor_def quorum_commit_def check_record_frame_len_def compute_start_def
  next_batch_def rm_bytes_def recompute_commit_at_def recompute_commit_def set_peer_def
  store_ack_def request_reelection_def submit_def somes_def candidates_def open_donor_def
  push_term_def open_shared_def hs_vote_def hs_start_def hs_elected_def peer_connected_def
  append_message_def stream_next_def stream_response_def broadcast_def set_proc_def send_def
  response_def log_byte_def take_vote_def read_request_def win_open_def take_read_def start_lead_def
  find_election_def send_elected_def take_elected_def stream_def take_append_def write_log_def
  submit_step_def handshake_step_def acked_by_def deliver_def init_cluster_def MAX_MESSAGE_BYTES_def
  scan_loop_turn le_bytes_numeral three_copies Let_def enumerate_eq_zip take_Cons' drop_Cons' nth_Cons'

lemma first_run:
  "run wal_ops (\<lambda>_. 0) (init_cluster wal_ops empty_wal) first_server = Some first_state"
proof -
  have "run wal_ops (\<lambda>_. 0) (init_cluster wal_ops empty_wal) first_server \<noteq> None"
    unfolding first_server_def empty_wal_def by (simp add: run_simps)
  then show ?thesis by (auto simp: first_state_def)
qed

definition both_lead :: "segment_wal cluster \<Rightarrow> segment_wal cluster option \<Rightarrow> bool" where
  "both_lead s r =
     (case r of
        None \<Rightarrow> False
      | Some s' \<Rightarrow>
          (case (leader_of (cl_procs s 0), leader_of (cl_procs s' 1)) of
             (Some l, Some l') \<Rightarrow>
               sh_commit (ld_sh l) = 30 \<and> lb_base (sh_log (ld_sh l)) = 0 \<and> el_term (sh_election (ld_sh l)) = 1 \<and>
               el_term (sh_election (ld_sh l')) = 2 \<and> lb_base (sh_log (ld_sh l')) = 0 \<and>
               log_byte (sh_log (ld_sh l)) 29 = Some 7 \<and> leader_of (cl_procs s' 0) = Some l
           | _ \<Rightarrow> False))"

lemma two_servers: "both_lead first_state (run wal_ops (\<lambda>_. 0) first_state second_server)"
  unfolding first_state_def first_server_def second_server_def empty_wal_def both_lead_def
  by (simp add: run_simps)

lemma leader_of_Some: "leader_of x = Some l \<longleftrightarrow> x = Leading l"
  by (cases x) auto

lemma two_leaders:
  obtains l l' s' where "run wal_ops (\<lambda>_. 0) first_state second_server = Some s'"
    "cl_procs first_state 0 = Leading l" "cl_procs s' 1 = Leading l'" "sh_commit (ld_sh l) = 30"
    "lb_base (sh_log (ld_sh l)) = 0" "el_term (sh_election (ld_sh l)) = 1" "el_term (sh_election (ld_sh l')) = 2"
    "lb_base (sh_log (ld_sh l')) = 0" "log_byte (sh_log (ld_sh l)) 29 = Some 7" "cl_procs s' 0 = Leading l"
  using two_servers by (auto simp: both_lead_def leader_of_Some split: option.splits)

lemma run_append: "run ops crc s (es @ es') = Option.bind (run ops crc s es) (\<lambda>s'. run ops crc s' es')"
  by (induction es arbitrary: s) (auto split: bind_splits)

section \<open>One acceptor\<close>

text \<open>An acceptor that has granted term 1 and holds one committed record.\<close>

definition one_record :: log_record where
  "one_record = \<lparr>r_lsn = 0, r_kind = RECORD_FRAME, r_table_key = [], r_seq = 1, r_body = [7]\<rparr>"

definition one_append :: message where
  "one_append = Append 1 0 30 30 0 (records_bytes (\<lambda>_. 0) [one_record])"

text \<open>A second record, in a request that asks for the horizon 10.\<close>

definition next_append :: message where
  "next_append = Append 1 30 60 60 10 (records_bytes (\<lambda>_. 0) [one_record\<lparr>r_lsn := 30, r_seq := 2\<rparr>])"

definition fresh_acceptor :: "segment_wal acceptor" where
  "fresh_acceptor = acceptor_new wal_ops (persistent_state_new 0) None empty_wal"

definition voted_acceptor :: "segment_wal acceptor" where
  "voted_acceptor = snd (process wal_ops (\<lambda>_. 0) always_ok fresh_acceptor (VoteRequest 1))"

definition holding_acceptor :: "segment_wal acceptor" where
  "holding_acceptor = snd (process wal_ops (\<lambda>_. 0) always_ok voted_acceptor one_append)"

lemma one_record_ok: "record_wf one_record" "contiguous 0 [one_record]" "length (record_payload one_record) = 22"
  by (simp_all add: one_record_def record_wf_def record_payload_def U32_MAX_def)

lemma one_record_bytes: "length (records_bytes crc [one_record]) = 30" "records_bytes crc [one_record] \<noteq> []"
  "decode_records crc (records_bytes crc [one_record]) 0 = Inr [one_record]"
  using one_record_ok decode_records_records_bytes [of "[one_record]" 0 crc]
  by (simp_all add: records_bytes_def frames_def)

lemma one_record_last: "records_bytes (\<lambda>_. 0) [one_record] ! 29 = 7"
  by (simp add: one_record_def records_bytes_def record_payload_def frames_def frame_def le_bytes_numeral nth_append)

lemma fresh_ok: "seg_ainv fresh_acceptor" "a_wal fresh_acceptor = empty_wal"
  using empty_wal_ok
  by (simp_all add: acc_inv_def fresh_acceptor_def acceptor_new_def durable_def effective_def persistent_state_new_def)

lemma voted_eval:
  "process wal_ops (\<lambda>_. 0) always_ok fresh_acceptor (VoteRequest 1) =
     (VoteResponse 1 True 0 0 [] 0 0, voted_acceptor)"
  "ps_term (effective voted_acceptor) = 1" "a_wal voted_acceptor = empty_wal"
  "ps_horizon_lsn (effective voted_acceptor) = 0"
  by (simp_all add: voted_acceptor_def fresh_acceptor_def empty_wal_def run_simps)

lemma voted_ok: "seg_ainv voted_acceptor"
  using sw.process_refines [OF fresh_ok(1) voted_eval(1)] by blast

lemma holding_eval:
  "process wal_ops (\<lambda>_. 0) always_ok voted_acceptor one_append = (AppendResp 1 True 30 30, holding_acceptor)"
  "ps_commit_lsn (effective holding_acceptor) = 30" "sw_lo (a_wal holding_acceptor) = 0"
  "sw_content (a_wal holding_acceptor) = records_bytes (\<lambda>_. 0) [one_record]"
  "ps_horizon_lsn (effective holding_acceptor) = 0"
  using one_record_bytes
  by (simp_all add: holding_acceptor_def one_append_def voted_acceptor_def fresh_acceptor_def empty_wal_def
      process_def handle_append_def handle_vote_def persist_def acceptor_new_def persistent_state_new_def
      segment_wal_ops_def wal_append_def io_ok_def Let_def SEGMENT_ROTATE_BYTES_def effective_def
      sw_lo_def sw_content_def wal_segs_def segs_data_def seal_active_def wal_retained_start_def)

lemma holding_ok: "seg_ainv holding_acceptor"
  using sw.process_refines [OF voted_ok holding_eval(1)] by blast

end
