(* ===== verification/Lease.thy ===== *)
theory Lease
  imports Proposer
begin

text \<open>
  The leader lease of \<^verbatim>\<open>icegres/src/lease.rs\<close>: the configuration, the validation of the acceptor
  addresses, the expiry tracker of a standby, a held lease over the quorum log, and the
  standby/leader loop.  Durations and instants are nanoseconds.  DNS resolution is the parameter
  \<open>resolve\<close>; the JSON text of a holder record is the parameter \<open>holder_body\<close>.
\<close>

section \<open>Configuration\<close>

definition LEASE_TABLE_KEY :: bytes where
  "LEASE_TABLE_KEY = map (\<lambda>c. word_of_nat (of_char c)) ''icegresd.lease''"

definition LEASE_QUORUM_SIZE :: nat where
  "LEASE_QUORUM_SIZE = QUORUM_SIZE"

definition WATERMARK_EVERY :: nat where
  "WATERMARK_EVERY = 32"

definition from_millis :: "nat \<Rightarrow> nat" where
  "from_millis ms = ms * 1000000"

record lease_config =
  lc_addrs :: "string list"
  lc_ttl :: nat
  lc_holder_id :: string

definition renew_interval :: "lease_config \<Rightarrow> nat" where
  "renew_interval cfg = max (lc_ttl cfg div 3) (from_millis 100)"

definition probe_timeout :: "lease_config \<Rightarrow> nat" where
  "probe_timeout cfg = min (max (lc_ttl cfg div 6) (from_millis 250)) (from_millis 2000)"

record quorum_timeouts =
  qt_addrs :: "string list"
  qt_append :: nat
  qt_connect :: nat
  qt_call :: nat

definition quorum_config :: "lease_config \<Rightarrow> quorum_timeouts" where
  "quorum_config cfg =
     \<lparr>qt_addrs = lc_addrs cfg, qt_append = max (lc_ttl cfg) (from_millis 1000),
      qt_connect = probe_timeout cfg, qt_call = max (probe_timeout cfg) (from_millis 1000)\<rparr>"

definition split_addrs :: "string \<Rightarrow> string list" where
  "split_addrs spec = filter (\<lambda>s. s \<noteq> []) (map trim (split_on CHR '','' spec))"

definition aliased :: "(string \<Rightarrow> 'sock list) \<Rightarrow> string \<Rightarrow> string \<Rightarrow> bool" where
  "aliased resolve a d \<longleftrightarrow>
     d = a \<or> (resolve a \<noteq> [] \<and> (\<exists>x\<in>set (resolve d). x \<in> set (resolve a)))"

definition parse_lease_addrs :: "(string \<Rightarrow> 'sock list) \<Rightarrow> string \<Rightarrow> string option \<Rightarrow> (string list) result" where
  "parse_lease_addrs resolve spec data_quorum =
     (let addrs = split_addrs spec in
      if length addrs \<noteq> LEASE_QUORUM_SIZE then Inl ''--lease-quorum needs exactly 3 acceptor addresses''
      else case data_quorum of
             None \<Rightarrow> Inr addrs
           | Some data \<Rightarrow>
               (if \<exists>a\<in>set addrs. \<exists>d\<in>set (split_addrs data). aliased resolve a d
                then Inl ''--lease-quorum address also appears in ICEGRES_TAIL_QUORUM''
                else Inr addrs))"

section \<open>Expiry tracking\<close>

record observed =
  ob_term :: nat
  ob_flush :: lsn
  ob_since :: nat
  ob_reachable :: bool

record expiry_tracker =
  et_ttl :: nat
  et_seen :: "observed option list"

definition tracker_new :: "nat \<Rightarrow> nat \<Rightarrow> expiry_tracker" where
  "tracker_new n ttl = \<lparr>et_ttl = ttl, et_seen = replicate n None\<rparr>"

definition observe :: "expiry_tracker \<Rightarrow> nat \<Rightarrow> nat \<Rightarrow> lsn \<Rightarrow> nat \<Rightarrow> expiry_tracker" where
  "observe tr idx t flush now =
     (let fresh = \<lparr>ob_term = t, ob_flush = flush, ob_since = now, ob_reachable = True\<rparr>;
          slot = (case et_seen tr ! idx of
                    None \<Rightarrow> fresh
                  | Some ob \<Rightarrow> (if ob_term ob = t \<and> ob_flush ob = flush then ob\<lparr>ob_reachable := True\<rparr> else fresh))
      in tr\<lparr>et_seen := (et_seen tr)[idx := Some slot]\<rparr>)"

definition observe_unreachable :: "expiry_tracker \<Rightarrow> nat \<Rightarrow> expiry_tracker" where
  "observe_unreachable tr idx =
     (case et_seen tr ! idx of
        None \<Rightarrow> tr
      | Some ob \<Rightarrow> tr\<lparr>et_seen := (et_seen tr)[idx := Some (ob\<lparr>ob_reachable := False\<rparr>)]\<rparr>)"

definition expired :: "expiry_tracker \<Rightarrow> nat \<Rightarrow> bool" where
  "expired tr now \<longleftrightarrow>
     length (filter (\<lambda>ob. ob_reachable ob \<and> now - ob_since ob \<ge> et_ttl tr) (somes (et_seen tr))) \<ge> QUORUM"

definition virgin :: "expiry_tracker \<Rightarrow> bool" where
  "virgin tr \<longleftrightarrow>
     length (filter (\<lambda>ob. ob_reachable ob \<and> ob_term ob = 0 \<and> ob_flush ob = 0) (somes (et_seen tr))) \<ge> QUORUM"

definition tracker_reset :: "expiry_tracker \<Rightarrow> expiry_tracker" where
  "tracker_reset tr = tr\<lparr>et_seen := map (\<lambda>_. None) (et_seen tr)\<rparr>"

text \<open>One poll round: the answers of the acceptors in index order, all noted at one instant.\<close>

fun note_results :: "expiry_tracker \<Rightarrow> nat \<Rightarrow> (nat \<times> lsn) option list \<Rightarrow> nat \<Rightarrow> expiry_tracker" where
  "note_results tr idx [] now = tr"
| "note_results tr idx (Some (t, flush) # rs) now = note_results (observe tr idx t flush now) (Suc idx) rs now"
| "note_results tr idx (None # rs) now = note_results (observe_unreachable tr idx) (Suc idx) rs now"

definition poll_acceptors :: "message option list \<Rightarrow> nat \<Rightarrow> expiry_tracker \<Rightarrow> expiry_tracker" where
  "poll_acceptors answers now tr =
     note_results tr 0
       (map (\<lambda>a. case a of Some (GreetingResp _ t flush) \<Rightarrow> Some (t, flush) | _ \<Rightarrow> None) answers) now"

section \<open>A held lease\<close>

record held_lease =
  hl_quorum :: shared
  hl_seq :: nat
  hl_holder :: string

text \<open>
  \<open>aw\<close> lists the awaits of each \<^verbatim>\<open>wait_commit\<close> call in order (first the holder record, then the
  watermark); \<open>None\<close> is a call that is still waiting.
\<close>

definition append_holder_record ::
  "(bytes \<Rightarrow> 32 word) \<Rightarrow> bytes \<Rightarrow> (((shared \<Rightarrow> shared) \<times> wake) list \<times> ((shared \<Rightarrow> shared) \<times> wake) list) \<Rightarrow>
   held_lease \<Rightarrow> (unit result) option \<times> held_lease" where
  "append_holder_record crc body aw l =
     (case submit crc (hl_quorum l) RECORD_FRAME LEASE_TABLE_KEY (hl_seq l) body of
        (Inl e, sh) \<Rightarrow> (Some (Inl e), l\<lparr>hl_quorum := sh\<rparr>)
      | (Inr end_lsn, sh) \<Rightarrow>
          (case wait_commit (fst aw) sh end_lsn False of
             (None, sh1) \<Rightarrow> (None, l\<lparr>hl_quorum := sh1\<rparr>)
           | (Some (Inl e), sh1) \<Rightarrow> (Some (Inl e), l\<lparr>hl_quorum := sh1\<rparr>)
           | (Some (Inr _), sh1) \<Rightarrow>
               (let (refresh, sh2) = note_covered sh1 LEASE_TABLE_KEY (hl_seq l) in
                if refresh \<noteq> None \<or> hl_seq l mod WATERMARK_EVERY = 0
                then (let wm_seq = max (case refresh of None \<Rightarrow> hl_seq l | Some (_, s) \<Rightarrow> s) (hl_seq l) in
                      case submit crc sh2 RECORD_WATERMARK LEASE_TABLE_KEY wm_seq [] of
                        (Inl e, sh3) \<Rightarrow> (Some (Inl e), l\<lparr>hl_quorum := sh3\<rparr>)
                      | (Inr end2, sh3) \<Rightarrow>
                          (case wait_commit (snd aw) sh3 end2 False of
                             (None, sh4) \<Rightarrow> (None, l\<lparr>hl_quorum := sh4\<rparr>)
                           | (Some (Inl e), sh4) \<Rightarrow> (Some (Inl e), l\<lparr>hl_quorum := sh4\<rparr>)
                           | (Some (Inr _), sh4) \<Rightarrow> (Some (Inr ()), l\<lparr>hl_quorum := snd (nudge_horizon sh4)\<rparr>)))
                else (Some (Inr ()), l\<lparr>hl_quorum := sh2\<rparr>))))"

text \<open>The first sequence number of a new holder: beyond every recovered lease record.\<close>

definition lease_seq :: "log_record list \<Rightarrow> nat" where
  "lease_seq recovered = Max (set (0 # map r_seq (filter (\<lambda>r. r_table_key r = LEASE_TABLE_KEY) recovered))) + 1"

definition acquire ::
  "(bytes \<Rightarrow> 32 word) \<Rightarrow> bytes \<Rightarrow> (((shared \<Rightarrow> shared) \<times> wake) list \<times> ((shared \<Rightarrow> shared) \<times> wake) list) \<Rightarrow>
   lease_config \<Rightarrow> (shared \<times> log_record list) result \<Rightarrow> (held_lease result) option" where
  "acquire crc body aw cfg opened =
     (case opened of
        Inl e \<Rightarrow> Some (Inl (''lease election failed: '' @ e))
      | Inr (quorum, recovered) \<Rightarrow>
          (case append_holder_record crc body aw
                  \<lparr>hl_quorum = quorum, hl_seq = lease_seq recovered, hl_holder = lc_holder_id cfg\<rparr> of
             (None, _) \<Rightarrow> None
           | (Some (Inl e), _) \<Rightarrow> Some (Inl (''the lease holder record did not reach a quorum: '' @ e))
           | (Some (Inr _), l) \<Rightarrow> Some (Inr l)))"

definition renew ::
  "(bytes \<Rightarrow> 32 word) \<Rightarrow> bytes \<Rightarrow> (((shared \<Rightarrow> shared) \<times> wake) list \<times> ((shared \<Rightarrow> shared) \<times> wake) list) \<Rightarrow>
   held_lease \<Rightarrow> (unit result) option \<times> held_lease" where
  "renew crc body aw l = append_holder_record crc body aw (l\<lparr>hl_seq := hl_seq l + 1\<rparr>)"

definition jitter :: "nat \<Rightarrow> nat \<Rightarrow> nat" where
  "jitter subsec_nanos spread = from_millis (subsec_nanos mod max (spread div 1000000) 1)"

section \<open>The loop\<close>

text \<open>
  The loop of \<^verbatim>\<open>lease_loop\<close> as a machine: where the task is, the tracker, and the value last sent on
  the leadership watch.  An event is one turn at a blocking point with what it returned; its
  first flag is the shutdown flag as the loop reads it in that turn, before polling, acquiring or
  renewing.
\<close>

datatype lease_phase = Standby | Acquiring | Leader held_lease | Backoff | Stopped

record lease_state =
  ls_phase :: lease_phase
  ls_tracker :: expiry_tracker
  ls_leader :: bool

datatype lease_event =
    Poll bool "message option list" nat nat
  | Acquired bool "(held_lease result)"
  | Renewed bool "unit result \<times> held_lease"
  | Slept

definition lease_init :: "lease_config \<Rightarrow> lease_state" where
  "lease_init cfg =
     \<lparr>ls_phase = Standby, ls_tracker = tracker_new (length (lc_addrs cfg)) (lc_ttl cfg), ls_leader = False\<rparr>"

fun lease_step :: "lease_state \<Rightarrow> lease_event \<Rightarrow> lease_state option" where
  "lease_step s (Poll shutdown answers polled now) =
     (case ls_phase s of
        Standby \<Rightarrow>
          (if shutdown then Some (s\<lparr>ls_phase := Stopped\<rparr>)
           else (let tr = poll_acceptors answers polled (ls_tracker s) in
                 Some (s\<lparr>ls_tracker := tr,
                         ls_phase := (if virgin tr \<or> expired tr now then Acquiring else Standby)\<rparr>)))
      | _ \<Rightarrow> None)"
| "lease_step s (Acquired shutdown r) =
     (case ls_phase s of
        Acquiring \<Rightarrow>
          (if shutdown then Some (s\<lparr>ls_phase := Stopped\<rparr>)
           else case r of
                  Inl e \<Rightarrow> Some (s\<lparr>ls_tracker := tracker_reset (ls_tracker s), ls_phase := Backoff\<rparr>)
                | Inr l \<Rightarrow> Some (s\<lparr>ls_phase := Leader l, ls_leader := True\<rparr>))
      | _ \<Rightarrow> None)"
| "lease_step s (Renewed shutdown r) =
     (case ls_phase s of
        Leader _ \<Rightarrow>
          (if shutdown then Some (s\<lparr>ls_phase := Stopped, ls_leader := False\<rparr>)
           else case r of
                  (Inr _, l) \<Rightarrow> Some (s\<lparr>ls_phase := Leader l\<rparr>)
                | (Inl e, _) \<Rightarrow> Some (s\<lparr>ls_phase := Backoff, ls_leader := False,
                                        ls_tracker := tracker_reset (ls_tracker s)\<rparr>))
      | _ \<Rightarrow> None)"
| "lease_step s Slept = (case ls_phase s of Backoff \<Rightarrow> Some (s\<lparr>ls_phase := Standby\<rparr>) | _ \<Rightarrow> None)"

fun lease_run :: "lease_state \<Rightarrow> lease_event list \<Rightarrow> lease_state option" where
  "lease_run s [] = Some s"
| "lease_run s (e # es) = Option.bind (lease_step s e) (\<lambda>s'. lease_run s' es)"

end
