(* ===== verification/LeaseSpec.thy ===== *)
theory LeaseSpec
  imports Lease
begin

text \<open>
  The lease loop against a declarative reading of its polls: the tracker reports expiry exactly
  when a quorum of acceptors has been seen frozen for the time to live, and the loop campaigns
  only then (or on a virgin log), holds leadership only with an acquired lease, and gives it up
  on the first renewal that fails.
\<close>

section \<open>One acceptor's polls\<close>

text \<open>The polls of one acceptor since the tracker was reset, oldest first, with their instants.\<close>

type_synonym polls = "(nat \<times> (nat \<times> lsn) option) list"

definition slot_step :: "observed option \<Rightarrow> nat \<times> (nat \<times> lsn) option \<Rightarrow> observed option" where
  "slot_step sl p =
     (case snd p of
        None \<Rightarrow> map_option (\<lambda>ob. ob\<lparr>ob_reachable := False\<rparr>) sl
      | Some (t, flush) \<Rightarrow>
          (let fresh = \<lparr>ob_term = t, ob_flush = flush, ob_since = fst p, ob_reachable = True\<rparr> in
           Some (case sl of
                   None \<Rightarrow> fresh
                 | Some ob \<Rightarrow> (if ob_term ob = t \<and> ob_flush ob = flush then ob\<lparr>ob_reachable := True\<rparr> else fresh))))"

definition slot_of :: "polls \<Rightarrow> observed option" where
  "slot_of h = foldl slot_step None h"

lemma slot_of_Nil [simp]: "slot_of [] = None"
  by (simp add: slot_of_def)

lemma slot_of_snoc [simp]: "slot_of (h @ [p]) = slot_step (slot_of h) p"
  by (simp add: slot_of_def)

text \<open>
  An acceptor witnesses expiry: the last poll reached it, and some answer, noted at least the time
  to live ago, was never followed by a different one.
\<close>

definition witness_frozen :: "nat \<Rightarrow> nat \<Rightarrow> polls \<Rightarrow> bool" where
  "witness_frozen ttl now h \<longleftrightarrow>
     h \<noteq> [] \<and> snd (last h) \<noteq> None \<and>
     (\<exists>h1 v since h2. h = h1 @ (since, Some v) # h2 \<and> (\<forall>p\<in>set h2. snd p = None \<or> snd p = Some v) \<and>
        ttl \<le> now - since)"

text \<open>A slot counts as expired.\<close>

definition slot_expired :: "nat \<Rightarrow> nat \<Rightarrow> observed option \<Rightarrow> bool" where
  "slot_expired ttl now sl \<longleftrightarrow> (\<exists>ob. sl = Some ob \<and> ob_reachable ob \<and> ttl \<le> now - ob_since ob)"

lemma slot_of_spec:
  assumes "slot_of h = Some ob"
  shows "\<exists>h1 h2. h = h1 @ (ob_since ob, Some (ob_term ob, ob_flush ob)) # h2 \<and>
    (\<forall>p\<in>set h2. snd p = None \<or> snd p = Some (ob_term ob, ob_flush ob))"
  using assms
proof (induction h arbitrary: ob rule: rev_induct)
  case Nil
  then show ?case by simp
next
  case (snoc p h)
  have "(\<exists>ob0. slot_of h = Some ob0 \<and> ob_term ob0 = ob_term ob \<and> ob_flush ob0 = ob_flush ob \<and> ob_since ob0 = ob_since ob \<and>
      (snd p = None \<or> snd p = Some (ob_term ob, ob_flush ob))) \<or>
    p = (ob_since ob, Some (ob_term ob, ob_flush ob))"
    using snoc.prems
    by (cases p) (auto simp: slot_step_def Let_def split: option.splits if_splits prod.splits)
  then show ?case
  proof (elim disjE exE conjE)
    fix ob0
    assume o: "slot_of h = Some ob0" "ob_term ob0 = ob_term ob" "ob_flush ob0 = ob_flush ob" "ob_since ob0 = ob_since ob"
      and p: "snd p = None"
    from snoc.IH [OF o(1)] obtain h1 h2 where
      "h = h1 @ (ob_since ob, Some (ob_term ob, ob_flush ob)) # h2"
      "\<forall>q\<in>set h2. snd q = None \<or> snd q = Some (ob_term ob, ob_flush ob)" using o(2-4) by auto
    then show ?thesis using p by (intro exI [of _ h1] exI [of _ "h2 @ [p]"]) auto
  next
    fix ob0
    assume o: "slot_of h = Some ob0" "ob_term ob0 = ob_term ob" "ob_flush ob0 = ob_flush ob" "ob_since ob0 = ob_since ob"
      and p: "snd p = Some (ob_term ob, ob_flush ob)"
    from snoc.IH [OF o(1)] obtain h1 h2 where
      "h = h1 @ (ob_since ob, Some (ob_term ob, ob_flush ob)) # h2"
      "\<forall>q\<in>set h2. snd q = None \<or> snd q = Some (ob_term ob, ob_flush ob)" using o(2-4) by auto
    then show ?thesis using p by (intro exI [of _ h1] exI [of _ "h2 @ [p]"]) auto
  next
    assume "p = (ob_since ob, Some (ob_term ob, ob_flush ob))"
    then show ?thesis by (intro exI [of _ h] exI [of _ "[]"]) auto
  qed
qed

lemma slot_reachable: "slot_of h = Some ob \<Longrightarrow> ob_reachable ob \<longleftrightarrow> snd (last h) \<noteq> None"
  by (cases h rule: rev_cases)
     (auto simp: slot_step_def Let_def split: option.splits if_splits prod.splits)

lemma slot_frozen:
  assumes "slot_of h = Some ob" "\<forall>p\<in>set h2. snd p = None \<or> snd p = Some (ob_term ob, ob_flush ob)"
  shows "\<exists>ob'. slot_of (h @ h2) = Some ob' \<and> ob_since ob' = ob_since ob \<and> ob_term ob' = ob_term ob \<and> ob_flush ob' = ob_flush ob"
  using assms
proof (induction h2 rule: rev_induct)
  case Nil
  then show ?case by simp
next
  case (snoc p h2)
  then obtain ob' where o: "slot_of (h @ h2) = Some ob'" "ob_since ob' = ob_since ob" "ob_term ob' = ob_term ob"
    "ob_flush ob' = ob_flush ob" by auto
  have "slot_of (h @ h2 @ [p]) = slot_step (Some ob') p" using slot_of_snoc [of "h @ h2" p] o(1) by simp
  then show ?case using o snoc.prems(2)
    by (cases p) (auto simp: slot_step_def Let_def split: option.splits)
qed

theorem slot_expired_iff:
  assumes "sorted (map fst h)"
  shows "slot_expired ttl now (slot_of h) \<longleftrightarrow> witness_frozen ttl now h"
proof
  assume "slot_expired ttl now (slot_of h)"
  then obtain ob where ob: "slot_of h = Some ob" "ob_reachable ob" "ttl \<le> now - ob_since ob"
    by (auto simp: slot_expired_def)
  from slot_of_spec [OF ob(1)] slot_reachable [OF ob(1)] ob(2,3)
  show "witness_frozen ttl now h" by (fastforce simp: witness_frozen_def)
next
  assume "witness_frozen ttl now h"
  then obtain h1 v since h2 where h: "h = h1 @ (since, Some v) # h2" "\<forall>p\<in>set h2. snd p = None \<or> snd p = Some v"
    and t: "ttl \<le> now - since" and r: "snd (last h) \<noteq> None" unfolding witness_frozen_def by blast
  obtain ob where ob: "slot_of (h1 @ [(since, Some v)]) = Some ob" "(ob_term ob, ob_flush ob) = v"
    by (cases v) (auto simp: slot_step_def Let_def split: option.splits)
  obtain g1 g2 where "h1 @ [(since, Some v)] = g1 @ (ob_since ob, Some v) # g2"
    using slot_of_spec [OF ob(1)] ob(2) by auto
  then have "(ob_since ob, Some v) \<in> set (h1 @ [(since, Some v)])" by simp
  then have "ob_since ob \<le> since" using assms h(1) by (force simp: sorted_append)
  moreover obtain ob' where "slot_of h = Some ob'" "ob_since ob' = ob_since ob"
    using slot_frozen [OF ob(1), of h2] h ob(2) by auto
  ultimately show "slot_expired ttl now (slot_of h)"
    using slot_reachable r t by (fastforce simp: slot_expired_def)
qed

section \<open>Poll rounds\<close>

text \<open>A poll round: the instant it is noted and the answers of the acceptors in order.\<close>

type_synonym poll_round = "nat \<times> message option list"

definition answer_of :: "message option \<Rightarrow> (nat \<times> lsn) option" where
  "answer_of a = (case a of Some (GreetingResp _ t flush) \<Rightarrow> Some (t, flush) | _ \<Rightarrow> None)"

definition polls_of :: "poll_round list \<Rightarrow> nat \<Rightarrow> polls" where
  "polls_of rounds i = map (\<lambda>r. (fst r, answer_of (snd r ! i))) rounds"

definition tracker_of :: "nat \<Rightarrow> nat \<Rightarrow> poll_round list \<Rightarrow> expiry_tracker" where
  "tracker_of n ttl rounds = foldl (\<lambda>tr r. poll_acceptors (snd r) (fst r) tr) (tracker_new n ttl) rounds"

lemma poll_acceptors_answers: "poll_acceptors answers now tr = note_results tr 0 (map answer_of answers) now"
proof -
  have "(\<lambda>a. case a of Some (GreetingResp _ t flush) \<Rightarrow> Some (t, flush) | _ \<Rightarrow> None) = answer_of"
    by (rule ext) (simp add: answer_of_def)
  then show ?thesis by (simp add: poll_acceptors_def)
qed

lemma note_results_seen:
  "length rs + idx \<le> length (et_seen tr) \<Longrightarrow>
   et_ttl (note_results tr idx rs now) = et_ttl tr \<and>
   length (et_seen (note_results tr idx rs now)) = length (et_seen tr) \<and>
   (\<forall>i<length (et_seen tr). et_seen (note_results tr idx rs now) ! i =
      (if idx \<le> i \<and> i < idx + length rs then slot_step (et_seen tr ! i) (now, rs ! (i - idx)) else et_seen tr ! i))"
proof (induction tr idx rs now rule: note_results.induct)
  case (1 tr idx now)
  then show ?case by auto
next
  case (2 tr idx t flush rs now)
  have s: "et_seen (observe tr idx t flush now) = (et_seen tr)[idx := slot_step (et_seen tr ! idx) (now, Some (t, flush))]"
    "et_ttl (observe tr idx t flush now) = et_ttl tr"
    by (simp_all add: observe_def slot_step_def Let_def)
  show ?case using 2 by (auto simp: s nth_Cons' nth_list_update Suc_le_eq not_less dest: le_antisym)
next
  case (3 tr idx rs now)
  have s: "et_seen (observe_unreachable tr idx) = (et_seen tr)[idx := slot_step (et_seen tr ! idx) (now, None)]"
    "et_ttl (observe_unreachable tr idx) = et_ttl tr"
    by (auto simp: observe_unreachable_def slot_step_def split: option.splits) (metis list_update_id)
  show ?case using 3 by (auto simp: s nth_Cons' nth_list_update Suc_le_eq not_less dest: le_antisym)
qed

lemma tracker_of_seen:
  assumes "\<forall>r\<in>set rounds. length (snd r) = n"
  shows "et_ttl (tracker_of n ttl rounds) = ttl \<and> et_seen (tracker_of n ttl rounds) = map (\<lambda>i. slot_of (polls_of rounds i)) [0..<n]"
  using assms
proof (induction rounds rule: rev_induct)
  case Nil
  then show ?case by (simp add: tracker_of_def tracker_new_def polls_of_def map_replicate_trivial)
next
  case (snoc r rounds)
  let ?tr = "tracker_of n ttl rounds"
  have st: "tracker_of n ttl (rounds @ [r]) = note_results ?tr 0 (map answer_of (snd r)) (fst r)"
    by (simp add: tracker_of_def poll_acceptors_answers)
  have ih: "et_ttl ?tr = ttl" "et_seen ?tr = map (\<lambda>i. slot_of (polls_of rounds i)) [0..<n]" using snoc by auto
  have l: "length (snd r) = n" using snoc.prems by simp
  show ?case
    unfolding st using note_results_seen [of "map answer_of (snd r)" 0 ?tr "fst r"] ih l
    by (auto simp: polls_of_def intro!: nth_equalityI)
qed

lemma expired_slots:
  "expired tr now \<longleftrightarrow> QUORUM \<le> length (filter (slot_expired (et_ttl tr) now) (et_seen tr))"
proof -
  have "length (filter (\<lambda>ob. ob_reachable ob \<and> et_ttl tr \<le> now - ob_since ob) (somes sls)) =
      length (filter (slot_expired (et_ttl tr) now) sls)" for sls
    by (induction sls) (auto simp: somes_def slot_expired_def)
  then show ?thesis by (simp add: expired_def)
qed

text \<open>The tracker reports expiry exactly when a quorum of acceptors witnesses it.\<close>

theorem expired_iff_frozen_quorum:
  assumes "\<forall>r\<in>set rounds. length (snd r) = n" "sorted (map fst rounds)"
  shows "expired (tracker_of n ttl rounds) now \<longleftrightarrow>
    QUORUM \<le> length (filter (\<lambda>i. witness_frozen ttl now (polls_of rounds i)) [0..<n])"
proof -
  have s: "sorted (map fst (polls_of rounds i))" for i using assms(2) by (simp add: polls_of_def comp_def)
  show ?thesis
    using tracker_of_seen [OF assms(1), of ttl] slot_expired_iff [OF s, of ttl now]
    by (simp add: expired_slots filter_map comp_def)
qed

text \<open>A virgin log: a quorum of acceptors answered the last poll with term and flush position zero.\<close>

definition witness_virgin :: "polls \<Rightarrow> bool" where
  "witness_virgin h \<longleftrightarrow> h \<noteq> [] \<and> snd (last h) = Some (0, 0)"

lemma slot_virgin:
  "(\<exists>ob. slot_of h = Some ob \<and> ob_reachable ob \<and> ob_term ob = 0 \<and> ob_flush ob = 0) \<longleftrightarrow> witness_virgin h"
  by (cases h rule: rev_cases)
     (auto simp: witness_virgin_def slot_step_def Let_def split: option.splits)

lemma virgin_iff_zero_quorum:
  assumes "\<forall>r\<in>set rounds. length (snd r) = n"
  shows "virgin (tracker_of n ttl rounds) \<longleftrightarrow>
    QUORUM \<le> length (filter (\<lambda>i. witness_virgin (polls_of rounds i)) [0..<n])"
proof -
  have "length (filter (\<lambda>ob. ob_reachable ob \<and> ob_term ob = 0 \<and> ob_flush ob = 0) (somes sls)) =
      length (filter (\<lambda>sl. \<exists>ob. sl = Some ob \<and> ob_reachable ob \<and> ob_term ob = 0 \<and> ob_flush ob = 0) sls)"
    for sls :: "observed option list"
    by (induction sls) (auto simp: somes_def)
  then show ?thesis
    using tracker_of_seen [OF assms, of ttl] slot_virgin by (simp add: virgin_def filter_map comp_def)
qed

section \<open>The loop\<close>

text \<open>The poll rounds the tracker knows of after an event: those since it was last reset.\<close>

fun heard :: "poll_round list \<Rightarrow> lease_event \<Rightarrow> poll_round list" where
  "heard rs (Poll shutdown answers polled now) = (if shutdown then rs else rs @ [(polled, answers)])"
| "heard rs (Acquired shutdown (Inl e)) = (if shutdown then rs else [])"
| "heard rs (Renewed shutdown (Inl e, l)) = (if shutdown then rs else [])"
| "heard rs _ = rs"

definition lease_rounds :: "lease_event list \<Rightarrow> poll_round list" where
  "lease_rounds es = foldl heard [] es"

fun answers_all :: "nat \<Rightarrow> lease_event \<Rightarrow> bool" where
  "answers_all n (Poll _ answers _ _) \<longleftrightarrow> length answers = n"
| "answers_all n _ \<longleftrightarrow> True"

lemma lease_run_snoc: "lease_run s (es @ [e]) = Option.bind (lease_run s es) (\<lambda>s'. lease_step s' e)"
  by (induction es arbitrary: s) (auto split: bind_splits)

lemma lease_rounds_snoc [simp]: "lease_rounds (es @ [e]) = heard (lease_rounds es) e"
  by (simp add: lease_rounds_def)

lemma reset_new: "et_ttl tr = ttl \<Longrightarrow> length (et_seen tr) = n \<Longrightarrow> tracker_reset tr = tracker_new n ttl"
  by (simp add: tracker_reset_def tracker_new_def map_replicate_const)

lemma rounds_lengths: "\<forall>e\<in>set es. answers_all n e \<Longrightarrow> \<forall>r\<in>set (lease_rounds es). length (snd r) = n"
proof (induction es rule: rev_induct)
  case Nil
  then show ?case by (simp add: lease_rounds_def)
next
  case (snoc e es)
  then show ?case by (cases "(lease_rounds es, e)" rule: heard.cases) auto
qed

definition loop_inv :: "lease_config \<Rightarrow> lease_event list \<Rightarrow> lease_state \<Rightarrow> bool" where
  "loop_inv cfg es s \<longleftrightarrow>
     ls_tracker s = tracker_of (length (lc_addrs cfg)) (lc_ttl cfg) (lease_rounds es) \<and>
     (ls_leader s \<longleftrightarrow> (\<exists>l. ls_phase s = Leader l))"

lemma loop_inv_run:
  assumes "\<forall>e\<in>set es. answers_all (length (lc_addrs cfg)) e" "lease_run (lease_init cfg) es = Some s"
  shows "loop_inv cfg es s"
  using assms
proof (induction es arbitrary: s rule: rev_induct)
  case Nil
  then show ?case by (auto simp: loop_inv_def lease_init_def tracker_of_def lease_rounds_def)
next
  case (snoc e es)
  then obtain s0 where r: "lease_run (lease_init cfg) es = Some s0" and st: "lease_step s0 e = Some s"
    by (auto simp: lease_run_snoc split: bind_splits)
  have i0: "loop_inv cfg es s0" using snoc r by simp
  let ?n = "length (lc_addrs cfg)"
  have rl: "\<forall>r\<in>set (lease_rounds es). length (snd r) = ?n" using snoc.prems(1) by (intro rounds_lengths) simp
  have rs: "tracker_reset (ls_tracker s0) = tracker_of ?n (lc_ttl cfg) []"
    using i0 tracker_of_seen [OF rl, of "lc_ttl cfg"]
    by (simp add: loop_inv_def reset_new tracker_of_def [of _ _ "[]"])
  have poll: "poll_acceptors a p (ls_tracker s0) = tracker_of ?n (lc_ttl cfg) (lease_rounds es @ [(p, a)])" for a p
    using i0 by (simp add: loop_inv_def tracker_of_def)
  show ?case
  proof (cases e)
    case (Poll shutdown answers polled now)
    then show ?thesis using st i0 poll by (auto simp: loop_inv_def Let_def split: lease_phase.splits if_splits)
  next
    case (Acquired shutdown r)
    then show ?thesis using st i0 rs by (cases r) (auto simp: loop_inv_def split: lease_phase.splits if_splits)
  next
    case (Renewed shutdown r)
    then show ?thesis using st i0 rs
      by (cases "fst r"; cases r) (auto simp: loop_inv_def split: lease_phase.splits if_splits)
  next
    case Slept
    then show ?thesis using st i0 by (auto simp: loop_inv_def split: lease_phase.splits)
  qed
qed

text \<open>A standby campaigns only on a virgin log or when a quorum witnesses expiry.\<close>

lemma campaign_only_after_silence:
  assumes run: "lease_run (lease_init cfg) es = Some s" and all: "\<forall>e\<in>set es. answers_all (length (lc_addrs cfg)) e"
    and st: "lease_step s (Poll False answers polled now) = Some s'" and acq: "ls_phase s' = Acquiring"
    and len: "length answers = length (lc_addrs cfg)"
    and mono: "sorted (map fst (lease_rounds es @ [(polled, answers)]))"
  shows "QUORUM \<le> length (filter (\<lambda>i. witness_virgin (polls_of (lease_rounds es @ [(polled, answers)]) i)) [0..<length (lc_addrs cfg)]) \<or>
    QUORUM \<le> length (filter (\<lambda>i. witness_frozen (lc_ttl cfg) now (polls_of (lease_rounds es @ [(polled, answers)]) i)) [0..<length (lc_addrs cfg)])"
proof -
  let ?rs = "lease_rounds es @ [(polled, answers)]" and ?n = "length (lc_addrs cfg)"
  have rl: "\<forall>r\<in>set ?rs. length (snd r) = ?n" using rounds_lengths [OF all] len by simp
  have "poll_acceptors answers polled (ls_tracker s) = tracker_of ?n (lc_ttl cfg) ?rs"
    using loop_inv_run [OF all run] by (simp add: loop_inv_def tracker_of_def)
  then have "virgin (tracker_of ?n (lc_ttl cfg) ?rs) \<or> expired (tracker_of ?n (lc_ttl cfg) ?rs) now"
    using st acq by (auto simp: Let_def split: lease_phase.splits if_splits)
  then show ?thesis
    using virgin_iff_zero_quorum [OF rl] expired_iff_frozen_quorum [OF rl mono] by blast
qed

text \<open>Leadership is held exactly while a lease is, and the first failed renewal gives it up.\<close>

lemma leader_iff_lease:
  assumes "lease_run (lease_init cfg) es = Some s" "\<forall>e\<in>set es. answers_all (length (lc_addrs cfg)) e"
  shows "(ls_leader s \<longleftrightarrow> (\<exists>l. ls_phase s = Leader l)) \<and>
    (ls_leader s \<longrightarrow> (\<exists>s1. lease_step s (Renewed False (Inl e, l)) = Some s1 \<and> \<not> ls_leader s1 \<and> ls_phase s1 = Backoff \<and>
       et_seen (ls_tracker s1) = replicate (length (et_seen (ls_tracker s))) None))"
  using loop_inv_run [OF assms(2,1)] by (auto simp: loop_inv_def tracker_reset_def map_replicate_const)

section \<open>Acquiring and renewing\<close>

lemma wait_commit_committed:
  assumes "wait_commit aw sh pos b = (Some (Inr u), sh')"
  shows "pos \<le> sh_commit sh' \<and> sh_poison sh' = None"
  using assms
proof (induction aw sh pos b rule: wait_commit.induct)
  case (1 aw sh pos b)
  show ?case
  proof (cases "sh_poison sh = None \<and> sh_commit sh < pos")
    case False
    then show ?thesis using "1.prems" by (subst (asm) wait_commit.simps) (auto split: option.splits if_splits)
  next
    case True
    show ?thesis
    proof (cases aw)
      case Nil
      then show ?thesis using "1.prems" True by (subst (asm) wait_commit.simps) simp
    next
      case (Cons a rest)
      then show ?thesis using "1.prems" True "1.IH"
        by (subst (asm) wait_commit.simps) (cases a; auto simp: Let_def split: wake.splits if_splits)
    qed
  qed
qed

text \<open>
  A renewal succeeds only when its record was appended at the next sequence number and committed
  by the quorum while the proposer was not poisoned.
\<close>

lemma renew_committed:
  assumes "renew crc body aw l = (Some (Inr u), l')"
  shows "\<exists>end_lsn sh sh1. submit crc (hl_quorum l) RECORD_FRAME LEASE_TABLE_KEY (hl_seq l + 1) body = (Inr end_lsn, sh) \<and>
    wait_commit (fst aw) sh end_lsn False = (Some (Inr ()), sh1) \<and> end_lsn \<le> sh_commit sh1 \<and> sh_poison sh1 = None \<and>
    hl_seq l' = hl_seq l + 1"
proof -
  obtain end_lsn sh where s: "submit crc (hl_quorum l) RECORD_FRAME LEASE_TABLE_KEY (hl_seq l + 1) body = (Inr end_lsn, sh)"
    using assms by (auto simp: renew_def append_holder_record_def split: prod.splits sum.splits)
  obtain sh1 where w: "wait_commit (fst aw) sh end_lsn False = (Some (Inr ()), sh1)"
    using assms s by (auto simp: renew_def append_holder_record_def split: prod.splits sum.splits option.splits)
  have "hl_seq l' = hl_seq l + 1"
    using assms s w
    by (auto simp: renew_def append_holder_record_def Let_def split: prod.splits sum.splits option.splits if_splits)
  then show ?thesis using s w wait_commit_committed [OF w] by blast
qed

section \<open>Addresses and timing\<close>

lemma lease_addrs_dedicated:
  assumes "parse_lease_addrs resolve spec data = Inr addrs"
  shows "length addrs = 3 \<and> [] \<notin> set addrs \<and>
    (\<forall>d. data = Some d \<longrightarrow> (\<forall>a\<in>set addrs. \<forall>b\<in>set (split_addrs d). a \<noteq> b \<and> set (resolve a) \<inter> set (resolve b) = {}))"
  using assms
  by (fastforce simp: parse_lease_addrs_def split_addrs_def aliased_def LEASE_QUORUM_SIZE_def QUORUM_SIZE_def Let_def
      split: if_splits option.splits)

lemma renew_within_ttl: "from_millis 300 \<le> lc_ttl cfg \<Longrightarrow> 3 * renew_interval cfg \<le> lc_ttl cfg"
  by (simp add: renew_interval_def from_millis_def max_def)

end
