(* ===== verification/TailNames.thy ===== *)
theory TailNames
  imports RustStrings Proto
begin

text \<open>
  The table keys of the durable tail (\<^verbatim>\<open>icegres/src/tail.rs\<close>): one directory name per table, each
  component percent-encoded and the components joined with a dot.  Names are the UTF-8 bytes of
  Rust strings.  The constructor \<^verbatim>\<open>TableIdent::from_strs\<close> of the crate \<^verbatim>\<open>iceberg\<close> is the parameter
  \<open>from_strs\<close>.  The lemmas show that no two tables share a key and that keys parse back.
\<close>

record table_ident =
  ti_namespace :: "bytes list"
  ti_name :: bytes

fun encode_component :: "bytes \<Rightarrow> bytes result" where
  "encode_component [] = Inr []"
| "encode_component (c # cs) =
     (if c = 0x00 then Inl ''table name component contains a NUL byte''
      else rbind (encode_component cs) (\<lambda>r.
             Inr ((if c = 0x25 then [0x25, 0x32, 0x35]
                   else if c = 0x2E then [0x25, 0x32, 0x65]
                   else if c = 0x2F then [0x25, 0x32, 0x66]
                   else [c]) @ r)))"

definition hex_digit :: "byte \<Rightarrow> nat option" where
  "hex_digit b =
     (let n = unat b in
      if 48 \<le> n \<and> n \<le> 57 then Some (n - 48)
      else if 97 \<le> n \<and> n \<le> 102 then Some (n - 87)
      else if 65 \<le> n \<and> n \<le> 70 then Some (n - 55)
      else None)"

text \<open>\<^verbatim>\<open>u8::from_str_radix\<close> at radix 16 on a two-byte string, which accepts a leading plus sign.\<close>

definition hex_pair :: "byte \<Rightarrow> byte \<Rightarrow> nat option" where
  "hex_pair a b =
     (if a = 0x2B then hex_digit b
      else case (hex_digit a, hex_digit b) of (Some x, Some y) \<Rightarrow> Some (16 * x + y) | _ \<Rightarrow> None)"

text \<open>\<^verbatim>\<open>String::push (byte as char)\<close>: the UTF-8 encoding of a code point below 256.\<close>

definition utf8_push :: "nat \<Rightarrow> bytes" where
  "utf8_push n = (if n < 128 then [word_of_nat n] else [word_of_nat (192 + n div 64), word_of_nat (128 + n mod 64)])"

fun decode_component :: "bytes \<Rightarrow> bytes option" where
  "decode_component [] = Some []"
| "decode_component (c # cs) =
     (if c \<noteq> 0x25 then map_option ((#) c) (decode_component cs)
      else case cs of
             a # b # r \<Rightarrow>
               (case hex_pair a b of
                  None \<Rightarrow> None
                | Some n \<Rightarrow> map_option ((@) (utf8_push n)) (decode_component r))
           | _ \<Rightarrow> None)"

fun collect_options :: "('a option) list \<Rightarrow> 'a list option" where
  "collect_options [] = Some []"
| "collect_options (None # rs) = None"
| "collect_options (Some x # rs) = map_option ((#) x) (collect_options rs)"

definition table_dir_name :: "table_ident \<Rightarrow> bytes result" where
  "table_dir_name i =
     rbind (collect_results (map encode_component (ti_namespace i))) (\<lambda>parts.
     rbind (encode_component (ti_name i)) (\<lambda>n.
       Inr (join_with 0x2E (parts @ [n]))))"

definition parse_table_dir_name :: "(bytes list \<Rightarrow> table_ident option) \<Rightarrow> bytes \<Rightarrow> table_ident option" where
  "parse_table_dir_name from_strs name =
     (case collect_options (map decode_component (split_on 0x2E name)) of
        None \<Rightarrow> None
      | Some parts \<Rightarrow> (if length parts < 2 \<or> [] \<in> set parts then None else from_strs parts))"

section \<open>Components\<close>

lemma encode_component_dot: "encode_component p = Inr e \<Longrightarrow> 0x2E \<notin> set e"
  by (induction p arbitrary: e) (auto simp: rbind_Inr_conv split: if_splits)

lemma escapes [simp]: "hex_pair 0x32 0x35 = Some 37" "hex_pair 0x32 0x65 = Some 46" "hex_pair 0x32 0x66 = Some 47"
  "utf8_push 37 = [0x25]" "utf8_push 46 = [0x2E]" "utf8_push 47 = [0x2F]"
  by (simp_all add: hex_pair_def hex_digit_def utf8_push_def)

lemma decode_encode_component: "encode_component p = Inr e \<Longrightarrow> decode_component e = Some p"
  by (induction p arbitrary: e) (auto simp: rbind_Inr_conv split: if_splits)

lemma encode_component_ok: "0x00 \<notin> set p \<Longrightarrow> \<exists>e. encode_component p = Inr e"
  by (induction p) auto

lemma collect_results_map:
  "collect_results (map f xs) = Inr ys \<longleftrightarrow> length ys = length xs \<and> (\<forall>i<length xs. f (xs ! i) = Inr (ys ! i))"
proof (induction xs arbitrary: ys)
  case Nil
  then show ?case by auto
next
  case (Cons x xs)
  show ?case
    by (cases ys) (auto simp: rbind_Inr_conv Cons All_less_Suc2)
qed

lemma collect_options_map:
  "collect_options (map f xs) = Some ys \<longleftrightarrow> length ys = length xs \<and> (\<forall>i<length xs. f (xs ! i) = Some (ys ! i))"
proof (induction xs arbitrary: ys)
  case Nil
  then show ?case by auto
next
  case (Cons x xs)
  show ?case
    by (cases "f x"; cases ys) (auto simp: Cons All_less_Suc2)
qed

section \<open>Keys\<close>

text \<open>The parts of a key: its encoded components.\<close>

lemma table_dir_name_parts:
  assumes "table_dir_name i = Inr k"
  shows "\<exists>es. k = join_with 0x2E es \<and> split_on 0x2E k = es \<and> length es = Suc (length (ti_namespace i)) \<and>
    (\<forall>j<length es. encode_component ((ti_namespace i @ [ti_name i]) ! j) = Inr (es ! j))"
proof -
  from assms obtain ps n where ps: "collect_results (map encode_component (ti_namespace i)) = Inr ps"
    and n: "encode_component (ti_name i) = Inr n" and k: "k = join_with 0x2E (ps @ [n])"
    by (auto simp: table_dir_name_def rbind_Inr_conv)
  let ?es = "ps @ [n]"
  have e: "length ?es = Suc (length (ti_namespace i))"
    "\<forall>j<length ?es. encode_component ((ti_namespace i @ [ti_name i]) ! j) = Inr (?es ! j)"
    using ps n by (auto simp: collect_results_map nth_append less_Suc_eq)
  have "\<forall>p\<in>set ?es. 0x2E \<notin> set p"
  proof
    fix p
    assume "p \<in> set ?es"
    then obtain j where "j < length ?es" "?es ! j = p" unfolding in_set_conv_nth by blast
    with e(2) show "0x2E \<notin> set p" using encode_component_dot by metis
  qed
  then have "split_on 0x2E k = ?es" unfolding k by (intro split_on_join) simp
  then show ?thesis using e k by blast
qed

lemma table_dir_name_decodes:
  assumes "table_dir_name i = Inr k"
  shows "collect_options (map decode_component (split_on 0x2E k)) = Some (ti_namespace i @ [ti_name i])"
proof -
  let ?ps = "ti_namespace i @ [ti_name i]"
  obtain es where es: "split_on 0x2E k = es" "length es = Suc (length (ti_namespace i))"
    "\<forall>j<length es. encode_component (?ps ! j) = Inr (es ! j)"
    using table_dir_name_parts [OF assms] by blast
  have "length ?ps = length es" "\<forall>j<length es. decode_component (es ! j) = Some (?ps ! j)"
    using es(2,3) decode_encode_component by simp_all
  then show ?thesis unfolding es(1) collect_options_map by blast
qed

lemma table_keys_distinct:
  assumes "table_dir_name i = Inr k" "table_dir_name j = Inr k"
  shows "i = j"
  using table_dir_name_decodes [OF assms(1)] table_dir_name_decodes [OF assms(2)] by simp

lemma table_key_parses:
  assumes ne: "ti_namespace i \<noteq> []" "[] \<notin> set (ti_namespace i @ [ti_name i])"
    and nul: "\<forall>p\<in>set (ti_namespace i @ [ti_name i]). 0x00 \<notin> set p"
    and fs: "from_strs (ti_namespace i @ [ti_name i]) = Some i"
  shows "\<exists>k. table_dir_name i = Inr k \<and> parse_table_dir_name from_strs k = Some i"
proof -
  have "\<exists>e. encode_component p = Inr e" if "p \<in> set (ti_namespace i @ [ti_name i])" for p
    using nul that encode_component_ok by blast
  then obtain f where f: "\<forall>p\<in>set (ti_namespace i @ [ti_name i]). encode_component p = Inr (f p)" by metis
  then have "collect_results (map encode_component (ti_namespace i)) = Inr (map f (ti_namespace i))"
    by (simp add: collect_results_map)
  then obtain k where k: "table_dir_name i = Inr k" using f by (simp add: table_dir_name_def)
  have "parse_table_dir_name from_strs k = Some i"
    using table_dir_name_decodes [OF k] ne fs by (simp add: parse_table_dir_name_def)
  with k show ?thesis by blast
qed

end
