(* ===== verification/TailFrames.thy ===== *)
theory TailFrames
  imports TailNames
begin

text \<open>
  The frames of the local tail (\<^verbatim>\<open>icegres/src/tail.rs\<close>) and the boot scan that reads them back: op
  payloads, poison markers, the scan of one segment and of one table directory, and the
  watermark rules of replay.  A record batch is a value of the type \<open>'b\<close>; the Arrow IPC writer
  and reader are the parameters \<open>ipc\<close> and \<open>unipc\<close>, the checksum is \<open>crc\<close>.
\<close>

section \<open>Operations\<close>

definition TAIL_SEQ_PROPERTY_PREFIX :: string where
  "TAIL_SEQ_PROPERTY_PREFIX = ''icegres.tail-seq.''"

definition TAIL_PAYLOAD_FORMAT :: byte where
  "TAIL_PAYLOAD_FORMAT = 2"

definition LOG_KIND_TAIL :: string where
  "LOG_KIND_TAIL = ''tail''"

datatype tail_op_kind = KAppend | KUpsert | KDelete

fun to_byte :: "tail_op_kind \<Rightarrow> byte" where
  "to_byte KAppend = 0"
| "to_byte KUpsert = 1"
| "to_byte KDelete = 2"

datatype payload_error = TailFormatError byte | Corrupt string

definition from_byte :: "byte \<Rightarrow> payload_error + tail_op_kind" where
  "from_byte b =
     (if b = 0 then Inr KAppend else if b = 1 then Inr KUpsert else if b = 2 then Inr KDelete
      else Inl (Corrupt ''unknown tail op discriminator''))"

datatype 'b tail_op = OpAppend "'b list" | OpUpsert "'b list" | OpDelete "'b list"

fun op_kind :: "'b tail_op \<Rightarrow> tail_op_kind" where
  "op_kind (OpAppend _) = KAppend"
| "op_kind (OpUpsert _) = KUpsert"
| "op_kind (OpDelete _) = KDelete"

fun op_batches :: "'b tail_op \<Rightarrow> 'b list" where
  "op_batches (OpAppend bs) = bs"
| "op_batches (OpUpsert bs) = bs"
| "op_batches (OpDelete bs) = bs"

fun mk_op :: "tail_op_kind \<Rightarrow> 'b list \<Rightarrow> 'b tail_op" where
  "mk_op KAppend bs = OpAppend bs"
| "mk_op KUpsert bs = OpUpsert bs"
| "mk_op KDelete bs = OpDelete bs"

definition encode_ipc :: "('b list \<Rightarrow> bytes result) \<Rightarrow> 'b list \<Rightarrow> bytes result" where
  "encode_ipc ipc batches =
     (if batches = [] then Inl ''tail frame needs at least one batch'' else ipc batches)"

definition decode_ipc :: "(bytes \<Rightarrow> 'b list result) \<Rightarrow> bytes \<Rightarrow> payload_error + 'b list" where
  "decode_ipc unipc bs =
     (case unipc bs of
        Inl e \<Rightarrow> Inl (Corrupt e)
      | Inr batches \<Rightarrow> (if batches = [] then Inl (Corrupt ''tail frame IPC stream holds no batch'') else Inr batches))"

definition encode_op_payload ::
  "('b list \<Rightarrow> bytes result) \<Rightarrow> tail_op_kind \<Rightarrow> 'b list \<Rightarrow> bytes result" where
  "encode_op_payload ipc kind batches =
     rbind (encode_ipc ipc batches) (\<lambda>bs. Inr (TAIL_PAYLOAD_FORMAT # to_byte kind # bs))"

definition decode_op_payload :: "(bytes \<Rightarrow> 'b list result) \<Rightarrow> bytes \<Rightarrow> payload_error + 'b tail_op" where
  "decode_op_payload unipc bs =
     (case bs of
        [] \<Rightarrow> Inl (Corrupt ''tail payload is empty'')
      | version # rest \<Rightarrow>
          (if version \<noteq> TAIL_PAYLOAD_FORMAT then Inl (TailFormatError version)
           else case rest of
                  [] \<Rightarrow> Inl (Corrupt ''tail payload is missing its op byte'')
                | opb # body \<Rightarrow>
                    (case from_byte opb of
                       Inl e \<Rightarrow> Inl e
                     | Inr kind \<Rightarrow>
                         (case decode_ipc unipc body of Inl e \<Rightarrow> Inl e | Inr batches \<Rightarrow> Inr (mk_op kind batches)))))"

definition encode_frame ::
  "(bytes \<Rightarrow> 32 word) \<Rightarrow> ('b list \<Rightarrow> bytes result) \<Rightarrow> nat \<Rightarrow> tail_op_kind \<Rightarrow> 'b list \<Rightarrow> bytes result" where
  "encode_frame crc ipc seq kind batches =
     rbind (encode_op_payload ipc kind batches) (\<lambda>body. frame_bytes crc (le_bytes 8 seq @ body) LOG_KIND_TAIL)"

definition decode_payload :: "(bytes \<Rightarrow> 'b list result) \<Rightarrow> bytes \<Rightarrow> payload_error + nat \<times> 'b tail_op" where
  "decode_payload unipc p =
     (if length p < 8 then Inl (Corrupt ''payload shorter than its sequence header'')
      else case decode_op_payload unipc (drop 8 p) of
             Inl e \<Rightarrow> Inl e
           | Inr op \<Rightarrow> Inr (le_nat (take 8 p), op))"

section \<open>Watermarks\<close>

definition drop_stale_frames :: "(nat \<times> 'a) list \<Rightarrow> nat option \<Rightarrow> (nat \<times> 'a) list \<times> nat" where
  "drop_stale_frames fs watermark =
     (case watermark of
        None \<Rightarrow> (fs, 0)
      | Some w \<Rightarrow> (let survivors = filter (\<lambda>f. fst f > w) fs in (survivors, length fs - length survivors)))"

definition parse_watermark_property :: "string option \<Rightarrow> nat option" where
  "parse_watermark_property raw = Option.bind raw (\<lambda>s. parse_u64 (trim s))"

definition effective_watermark :: "string option \<Rightarrow> nat option \<Rightarrow> nat option" where
  "effective_watermark property sidecar =
     (case (parse_watermark_property property, sidecar) of
        (Some p, Some s) \<Rightarrow> Some (max p s)
      | (Some p, None) \<Rightarrow> Some p
      | (None, s) \<Rightarrow> s)"

definition read_sidecar_watermark :: "string option \<Rightarrow> nat option" where
  "read_sidecar_watermark file = Option.bind file (\<lambda>s. parse_u64 (trim s))"

section \<open>Scanning a segment\<close>

record poison_marker =
  pm_clamp :: nat
  pm_resume_seq :: "nat option"

text \<open>\<^verbatim>\<open>split_whitespace\<close>.\<close>

fun split_ws :: "string \<Rightarrow> string \<Rightarrow> string list" where
  "split_ws cur [] = (if cur = [] then [] else [rev cur])"
| "split_ws cur (c # cs) =
     (if is_whitespace c then (if cur = [] then split_ws [] cs else rev cur # split_ws [] cs)
      else split_ws (c # cur) cs)"

definition read_poison_marker :: "string option \<Rightarrow> poison_marker option" where
  "read_poison_marker file =
     (case file of
        None \<Rightarrow> None
      | Some s \<Rightarrow>
          (case split_ws [] s of
             [] \<Rightarrow> None
           | w # ws \<Rightarrow>
               (case parse_u64 w of
                  None \<Rightarrow> None
                | Some clamp \<Rightarrow>
                    Some \<lparr>pm_clamp = clamp,
                          pm_resume_seq = (case ws of [] \<Rightarrow> None | v # _ \<Rightarrow> parse_u64 v)\<rparr>)))"

definition poison_marker_text :: "nat \<Rightarrow> nat \<Rightarrow> string" where
  "poison_marker_text synced_len next_seq = u64_string synced_len @ '' '' @ u64_string next_seq"

text \<open>The frame loop of \<^verbatim>\<open>scan_segment\<close>; \<open>off\<close> is both the offset and the end of the last good frame.\<close>

function seg_loop ::
  "(bytes \<Rightarrow> 32 word) \<Rightarrow> (bytes \<Rightarrow> 'b list result) \<Rightarrow> bytes \<Rightarrow> nat \<Rightarrow> (nat \<times> 'b tail_op) list \<Rightarrow>
   string + (nat \<times> 'b tail_op) list \<times> nat \<times> string option" where
  "seg_loop crc unipc data off acc =
     (if off < length data then
        (if length data - off < 8 then Inr (acc, off, Some ''torn header'')
         else
           (let len = le_nat (take 4 (drop off data));
                c = le_nat (take 4 (drop (off + 4) data))
            in if length data - off - 8 < len then Inr (acc, off, Some ''torn payload'')
               else
                 (let payload = take len (drop (off + 8) data) in
                  if unat (crc payload) \<noteq> c then Inr (acc, off, Some ''crc mismatch'')
                  else case decode_payload unipc payload of
                         Inr f \<Rightarrow> seg_loop crc unipc data (off + 8 + len) (acc @ [f])
                       | Inl (TailFormatError v) \<Rightarrow> Inl ''tail segment holds an incompatible frame''
                       | Inl (Corrupt e) \<Rightarrow> Inr (acc, off, Some e))))
      else Inr (acc, off, None))"
  by pat_completeness auto
termination
  by (relation "measure (\<lambda>(crc, unipc, data, off, acc). length data - off)") auto

declare seg_loop.simps [simp del]

record 'b segment_scan =
  ss_frames :: "(nat \<times> 'b tail_op) list"
  ss_hit_bad_frame :: bool
  ss_resume_hint :: "nat option"

definition ss_max_seq :: "'b segment_scan \<Rightarrow> nat option" where
  "ss_max_seq sc = (if ss_frames sc = [] then None else Some (fst (last (ss_frames sc))))"

text \<open>
  A segment file with its marker.  The outcome of \<^verbatim>\<open>scan_segment\<close> is the scan and the file
  afterwards; \<open>cut_ok\<close> says whether the truncation of a bad segment succeeds, \<open>unmark_ok\<close> whether
  the best-effort removal of its marker does.
\<close>

type_synonym seg_file = "bytes \<times> string option"

definition scan_segment ::
  "(bytes \<Rightarrow> 32 word) \<Rightarrow> (bytes \<Rightarrow> 'b list result) \<Rightarrow> bool \<Rightarrow> bool \<Rightarrow> seg_file \<Rightarrow>
   string + 'b segment_scan \<times> seg_file" where
  "scan_segment crc unipc cut_ok unmark_ok f =
     (let pm = read_poison_marker (snd f);
          clamped = (case pm of None \<Rightarrow> False | Some m \<Rightarrow> length (fst f) > pm_clamp m);
          data = (case pm of None \<Rightarrow> fst f | Some m \<Rightarrow> if clamped then take (pm_clamp m) (fst f) else fst f)
      in case seg_loop crc unipc data 0 [] of
           Inl e \<Rightarrow> Inl e
         | Inr (fs, fend, why) \<Rightarrow>
             (let hit = (why \<noteq> None \<or> clamped);
                  sc = \<lparr>ss_frames = fs, ss_hit_bad_frame = hit,
                        ss_resume_hint = Option.bind pm pm_resume_seq\<rparr>
              in if \<not> hit then Inr (sc, f)
                 else if \<not> cut_ok then Inl ''cannot truncate torn tail segment''
                 else Inr (sc, (take fend (fst f), if unmark_ok then None else snd f))))"

section \<open>Scanning a table directory\<close>

record 'b table_scan =
  ts_frames :: "(nat \<times> 'b tail_op) list"
  ts_sealed :: "(nat \<times> nat) list"
  ts_next_segment :: nat
  ts_bad :: bool
  ts_resume :: "nat option"
  ts_dir :: "(nat \<times> seg_file) list"

record scan_io =
  sio_cut :: "nat \<Rightarrow> bool"
  sio_unmark :: "nat \<Rightarrow> bool"
  sio_remove :: "nat \<Rightarrow> bool"

text \<open>One turn of the loop of \<^verbatim>\<open>scan_table\<close>: the segment with number \<open>i\<close>.\<close>

definition scan_turn ::
  "scan_io \<Rightarrow> (bytes \<Rightarrow> 32 word) \<Rightarrow> (bytes \<Rightarrow> 'b list result) \<Rightarrow> 'b table_scan \<Rightarrow> nat \<times> seg_file \<Rightarrow>
   string + 'b table_scan" where
  "scan_turn io crc unipc st e =
     (let i = fst e; st1 = st\<lparr>ts_next_segment := max (ts_next_segment st) (i + 1)\<rparr> in
      case scan_segment crc unipc (sio_cut io i) (sio_unmark io i) (snd e) of
        Inl err \<Rightarrow> Inl err
      | Inr (sc, f) \<Rightarrow>
          (let left = (if sio_remove io i then [] else [(i, f)]) in
           case ss_max_seq sc of
             None \<Rightarrow>
               Inr (st1\<lparr>ts_dir := ts_dir st @ left,
                        ts_bad := (ts_bad st \<or> ss_hit_bad_frame sc),
                        ts_resume := (if ss_hit_bad_frame sc then ss_resume_hint sc else ts_resume st)\<rparr>)
           | Some max_seq \<Rightarrow>
               (let expected = (case ts_resume st of
                                  Some s \<Rightarrow> Some s
                                | None \<Rightarrow> (if ts_frames st = [] then None else Some (fst (last (ts_frames st)) + 1)))
                in if ts_bad st \<and> (expected = None \<or> Some (fst (hd (ss_frames sc))) \<noteq> expected)
                   then Inr (st1\<lparr>ts_dir := ts_dir st @ left\<rparr>)
                   else Inr (st1\<lparr>ts_sealed := ts_sealed st @ [(i, max_seq)],
                                 ts_frames := ts_frames st @ ss_frames sc,
                                 ts_bad := ss_hit_bad_frame sc,
                                 ts_resume := (if ss_hit_bad_frame sc then ss_resume_hint sc
                                               else if ts_bad st then None else ts_resume st),
                                 ts_dir := ts_dir st @ [(i, f)]\<rparr>))))"

fun scan_turns ::
  "scan_io \<Rightarrow> (bytes \<Rightarrow> 32 word) \<Rightarrow> (bytes \<Rightarrow> 'b list result) \<Rightarrow> (nat \<times> seg_file) list \<Rightarrow> 'b table_scan \<Rightarrow>
   string + 'b table_scan" where
  "scan_turns io crc unipc [] st = Inr st"
| "scan_turns io crc unipc (e # es) st =
     (case scan_turn io crc unipc st e of Inl err \<Rightarrow> Inl err | Inr st' \<Rightarrow> scan_turns io crc unipc es st')"

text \<open>
  The directory is given in name order, which is the order of the segment numbers (sixteen
  hexadecimal digits).
\<close>

definition scan_table ::
  "scan_io \<Rightarrow> (bytes \<Rightarrow> 32 word) \<Rightarrow> (bytes \<Rightarrow> 'b list result) \<Rightarrow> (nat \<times> seg_file) list \<Rightarrow>
   string + 'b table_scan" where
  "scan_table io crc unipc dir =
     scan_turns io crc unipc dir
       \<lparr>ts_frames = [], ts_sealed = [], ts_next_segment = 1, ts_bad = False, ts_resume = None, ts_dir = []\<rparr>"

definition ts_next_seq :: "'b table_scan \<Rightarrow> nat" where
  "ts_next_seq st = (if ts_frames st = [] then 1 else fst (last (ts_frames st)) + 1)"

end
