(* ===== verification/TailWal.thy ===== *)
theory TailWal
  imports TailFrames
begin

text \<open>
  The live state of one table of the local tail (\<^verbatim>\<open>LocalWal\<close> in \<^verbatim>\<open>icegres/src/tail.rs\<close>): staged appends,
  the group fsync that waiters share, the cleanup of a failed segment, rotation and truncation.
  A segment is named by its number; \<open>tw_files\<close> and \<open>tw_marks\<close> are the segment files and their poison
  markers, \<open>tw_syncs\<close> the \<^verbatim>\<open>SegSync\<close> of each segment.  Operations that hold the tables lock are one
  step.  A sync runs outside every lock, so it is two steps: \<open>lead\<close> takes the snapshot, \<open>sync_done\<close>
  is the return of \<^verbatim>\<open>sync_data\<close>.

  Three fields only record what happened: \<open>tw_disk\<close> is the length of each file that completed
  syncs have made durable, \<open>tw_acked\<close> the staged appends whose wait returned success, \<open>tw_trunc\<close> the
  highest sequence number a truncation was called with.
\<close>

section \<open>State\<close>

record seg_sync =
  sy_written_len :: nat
  sy_written_seq :: nat
  sy_synced_len :: nat
  sy_synced_seq :: nat
  sy_syncing :: "(nat \<times> nat) option"
  sy_failed :: "string option"
  sy_cleaned :: bool

definition seg_sync_new :: "nat \<Rightarrow> seg_sync" where
  "seg_sync_new base_seq =
     \<lparr>sy_written_len = 0, sy_written_seq = base_seq, sy_synced_len = 0, sy_synced_seq = base_seq,
      sy_syncing = None, sy_failed = None, sy_cleaned = False\<rparr>"

record active_segment =
  as_id :: nat
  as_max_seq :: nat
  as_good_len :: nat

text \<open>A staged append: its sequence number, its segment and the end of its frame in the file.\<close>

type_synonym staged = "nat \<times> nat \<times> nat"

record table_wal =
  tw_next_seq :: nat
  tw_next_segment :: nat
  tw_active :: "active_segment option"
  tw_sealed :: "(nat \<times> nat) list"
  tw_files :: "nat \<rightharpoonup> bytes"
  tw_marks :: "nat \<rightharpoonup> string"
  tw_syncs :: "nat \<Rightarrow> seg_sync"
  tw_poisoned :: "nat option"
  tw_waiting :: "staged list"
  tw_acked :: "staged list"
  tw_disk :: "nat \<Rightarrow> nat"
  tw_trunc :: nat

definition set_sync :: "table_wal \<Rightarrow> nat \<Rightarrow> (seg_sync \<Rightarrow> seg_sync) \<Rightarrow> table_wal" where
  "set_sync tw i f = tw\<lparr>tw_syncs := (tw_syncs tw)(i := f (tw_syncs tw i))\<rparr>"

text \<open>Removing a file, and its marker only once the file is gone.\<close>

definition remove_segment :: "bool \<Rightarrow> bool \<Rightarrow> nat \<Rightarrow> table_wal \<Rightarrow> table_wal" where
  "remove_segment rm_ok unmark_ok i tw =
     (if rm_ok
      then tw\<lparr>tw_files := (tw_files tw)(i := None),
              tw_marks := (if unmark_ok then (tw_marks tw)(i := None) else tw_marks tw)\<rparr>
      else tw)"

definition tail_seal_active :: "bool \<Rightarrow> bool \<Rightarrow> table_wal \<Rightarrow> table_wal" where
  "tail_seal_active rm_ok unmark_ok tw =
     (case tw_active tw of
        None \<Rightarrow> tw
      | Some a \<Rightarrow>
          (if as_max_seq a > 0
           then tw\<lparr>tw_active := None, tw_sealed := tw_sealed tw @ [(as_id a, as_max_seq a)]\<rparr>
           else remove_segment rm_ok unmark_ok (as_id a) (tw\<lparr>tw_active := None\<rparr>)))"

text \<open>
  \<^verbatim>\<open>roll_back_segment\<close>: truncate and sync.  It may fail before or after the truncation took effect.
\<close>

datatype roll = RollOk | RollKept | RollCut

definition roll_back_segment :: "roll \<Rightarrow> nat \<Rightarrow> nat \<Rightarrow> table_wal \<Rightarrow> bool \<times> table_wal" where
  "roll_back_segment r i good_len tw =
     (let cut = (tw_files tw)(i := map_option (take good_len) (tw_files tw i)) in
      case r of
        RollOk \<Rightarrow> (True, tw\<lparr>tw_files := cut, tw_disk := (tw_disk tw)(i := good_len)\<rparr>)
      | RollKept \<Rightarrow> (False, tw)
      | RollCut \<Rightarrow> (False, tw\<lparr>tw_files := cut, tw_disk := (tw_disk tw)(i := min (tw_disk tw i) good_len)\<rparr>))"

section \<open>The group fsync\<close>

text \<open>The first waiter that finds no sync in flight leads one, for what is written now.\<close>

definition lead :: "nat \<Rightarrow> table_wal \<Rightarrow> table_wal option" where
  "lead i tw =
     (let sy = tw_syncs tw i in
      if sy_failed sy = None \<and> sy_syncing sy = None
      then Some (set_sync tw i (\<lambda>s. s\<lparr>sy_syncing := Some (sy_written_len s, sy_written_seq s)\<rparr>))
      else None)"

definition sync_done :: "nat \<Rightarrow> bool \<Rightarrow> table_wal \<Rightarrow> table_wal option" where
  "sync_done i ok tw =
     (let sy = tw_syncs tw i in
      case sy_syncing sy of
        None \<Rightarrow> None
      | Some (target_len, target_seq) \<Rightarrow>
          (if ok
           then Some ((set_sync tw i (\<lambda>s.
                   if sy_failed s = None \<and> \<not> sy_cleaned s
                   then s\<lparr>sy_syncing := None, sy_synced_len := max (sy_synced_len s) target_len,
                          sy_synced_seq := max (sy_synced_seq s) target_seq\<rparr>
                   else s\<lparr>sy_syncing := None\<rparr>))
                 \<lparr>tw_disk := (tw_disk tw)(i := max (tw_disk tw i) target_len)\<rparr>)
           else Some (set_sync tw i (\<lambda>s. s\<lparr>sy_syncing := None, sy_failed := Some ''fsync failed''\<rparr>))))"

text \<open>What the loop of \<^verbatim>\<open>wait_group_sync\<close> decides before it would lead or wait: the failure first.\<close>

definition wait_verdict :: "seg_sync \<Rightarrow> nat \<Rightarrow> (unit result) option" where
  "wait_verdict sy my_end =
     (case sy_failed sy of
        Some err \<Rightarrow> Some (Inl err)
      | None \<Rightarrow> (if sy_synced_len sy \<ge> my_end then Some (Inr ()) else None))"

record cleanup_io =
  ci_roll :: roll
  ci_mark :: bool
  ci_remove :: bool
  ci_unmark :: bool

text \<open>
  \<^verbatim>\<open>cleanup_failed_segment_locked\<close> once no sync is in flight: it waits for that with the failure
  already set.
\<close>

definition cleanup_failed_segment :: "cleanup_io \<Rightarrow> nat \<Rightarrow> string \<Rightarrow> table_wal \<Rightarrow> table_wal" where
  "cleanup_failed_segment io i why tw =
     (let sy = tw_syncs tw i in
      if sy_cleaned sy then tw
      else
        (let tw1 = set_sync tw i (\<lambda>s. s\<lparr>sy_failed := (case sy_failed s of None \<Rightarrow> Some why | Some e \<Rightarrow> Some e),
                                         sy_cleaned := True\<rparr>)
         in case tw_active tw1 of
              None \<Rightarrow> tw1
            | Some a \<Rightarrow>
                (if as_id a \<noteq> i then tw1
                 else
                   (let (ok, tw2) = roll_back_segment (ci_roll io) i (sy_synced_len sy) (tw1\<lparr>tw_active := None\<rparr>);
                        tw3 = (if ok \<or> \<not> ci_mark io then tw2
                               else tw2\<lparr>tw_marks := (tw_marks tw2)(i \<mapsto> poison_marker_text (sy_synced_len sy) (tw_next_seq tw2))\<rparr>)
                    in if sy_synced_len sy > 0
                       then tw3\<lparr>tw_sealed := tw_sealed tw3 @ [(i, sy_synced_seq sy)]\<rparr>
                       else remove_segment (ci_remove io) (ci_unmark io) i tw3))))"

section \<open>Appending\<close>

record append_io =
  ai_create :: bool
  ai_sync_dir :: bool
  ai_write :: "nat option"
  ai_roll1 :: roll
  ai_roll2 :: roll

definition ensure_active :: "append_io \<Rightarrow> table_wal \<Rightarrow> unit result \<times> table_wal" where
  "ensure_active io tw =
     (if tw_active tw \<noteq> None then (Inr (), tw)
      else
        (let i = tw_next_segment tw in
         if \<not> ai_create io \<or> tw_files tw i \<noteq> None then (Inl ''cannot create tail segment'', tw)
         else
           (let tw1 = tw\<lparr>tw_files := (tw_files tw)(i \<mapsto> []), tw_disk := (tw_disk tw)(i := 0)\<rparr> in
            if \<not> ai_sync_dir io then (Inl ''cannot sync tail dir'', tw1)
            else (Inr (),
                  tw1\<lparr>tw_next_segment := i + 1,
                      tw_active := Some \<lparr>as_id = i, as_max_seq = 0, as_good_len = 0\<rparr>,
                      tw_syncs := (tw_syncs tw1)(i := seg_sync_new (tw_next_seq tw1 - 1))\<rparr>))))"

text \<open>
  \<open>ai_write = None\<close> is a complete write, \<open>Some k\<close> a write that failed after \<open>k\<close> bytes.  When both
  rollbacks fail the call goes on to the cleanup with the lock held (\<open>tw_poisoned\<close>).
\<close>

definition append_staged ::
  "append_io \<Rightarrow> (nat \<Rightarrow> bytes result) \<Rightarrow> table_wal \<Rightarrow> staged result \<times> table_wal" where
  "append_staged io enc tw =
     (case ensure_active io tw of
        (Inl e, tw1) \<Rightarrow> (Inl e, tw1)
      | (Inr _, tw1) \<Rightarrow>
          (let seq = tw_next_seq tw1; a = the (tw_active tw1); i = as_id a;
               data = (case tw_files tw1 i of None \<Rightarrow> [] | Some d \<Rightarrow> d)
           in case enc seq of
                Inl e \<Rightarrow> (Inl e, tw1)
              | Inr fb \<Rightarrow>
                  (case ai_write io of
                     Some k \<Rightarrow>
                       (let tw2 = tw1\<lparr>tw_files := (tw_files tw1)(i \<mapsto> data @ take k fb)\<rparr>;
                            (ok1, tw3) = roll_back_segment (ai_roll1 io) i (as_good_len a) tw2;
                            (ok2, tw4) = (if ok1 then (True, tw3) else roll_back_segment (ai_roll2 io) i (as_good_len a) tw3)
                        in (Inl ''tail append failed'',
                            if ok2 then tw4
                            else (set_sync tw4 i (\<lambda>s. s\<lparr>sy_failed := (case sy_failed s of
                                      None \<Rightarrow> Some ''append failed AND rollback failed'' | Some e \<Rightarrow> Some e)\<rparr>))
                                 \<lparr>tw_poisoned := Some i\<rparr>))
                   | None \<Rightarrow>
                       (let good_len = as_good_len a + length fb in
                        (Inr (seq, i, good_len),
                         (set_sync tw1 i (\<lambda>s. s\<lparr>sy_written_len := good_len, sy_written_seq := seq\<rparr>))
                         \<lparr>tw_files := (tw_files tw1)(i \<mapsto> data @ fb),
                          tw_active := Some (a\<lparr>as_good_len := good_len, as_max_seq := seq\<rparr>),
                          tw_next_seq := seq + 1,
                          tw_waiting := tw_waiting tw1 @ [(seq, i, good_len)]\<rparr>)))))"

section \<open>Rotation, truncation, sequence floor\<close>

text \<open>\<open>None\<close>: the sync that \<^verbatim>\<open>rotate\<close> joins or leads has not covered the segment yet.\<close>

definition tail_rotate :: "cleanup_io \<Rightarrow> table_wal \<Rightarrow> (unit result \<times> table_wal) option" where
  "tail_rotate io tw =
     (case tw_active tw of
        None \<Rightarrow> Some (Inr (), tw)
      | Some a \<Rightarrow>
          (let sy = tw_syncs tw (as_id a) in
           if as_max_seq a = 0 then Some (Inr (), tail_seal_active (ci_remove io) (ci_unmark io) tw)
           else case wait_verdict sy (sy_written_len sy) of
                  None \<Rightarrow> None
                | Some (Inr _) \<Rightarrow> Some (Inr (), tail_seal_active (ci_remove io) (ci_unmark io) tw)
                | Some (Inl why) \<Rightarrow>
                    (if sy_syncing sy \<noteq> None then None
                     else Some (Inl ''tail segment sync before rotation failed'', cleanup_failed_segment io (as_id a) why tw))))"

fun truncate_sealed :: "(nat \<Rightarrow> bool) \<Rightarrow> (nat \<Rightarrow> bool) \<Rightarrow> nat \<Rightarrow> (nat \<times> nat) list \<Rightarrow> table_wal \<Rightarrow> (nat \<times> nat) list \<times> bool \<times> table_wal" where
  "truncate_sealed rm unmark upto_seq [] tw = ([], True, tw)"
| "truncate_sealed rm unmark upto_seq ((i, m) # ss) tw =
     (if m > upto_seq then (let (kept, ok, tw') = truncate_sealed rm unmark upto_seq ss tw in ((i, m) # kept, ok, tw'))
      else if rm i then truncate_sealed rm unmark upto_seq ss (remove_segment True (unmark i) i tw)
      else (let (kept, ok, tw') = truncate_sealed rm unmark upto_seq ss tw in ((i, m) # kept, False, tw')))"

definition tail_truncate :: "(nat \<Rightarrow> bool) \<Rightarrow> (nat \<Rightarrow> bool) \<Rightarrow> nat \<Rightarrow> table_wal \<Rightarrow> unit result \<times> table_wal" where
  "tail_truncate rm unmark upto_seq tw =
     (let (kept, ok, tw1) = truncate_sealed rm unmark upto_seq (tw_sealed tw) tw;
          tw2 = tw1\<lparr>tw_sealed := kept, tw_trunc := max (tw_trunc tw1) upto_seq\<rparr>
      in case tw_active tw2 of
           Some a \<Rightarrow>
             (if 0 < as_max_seq a \<and> as_max_seq a \<le> upto_seq
              then (if ok \<and> rm (as_id a) then Inr () else Inl ''cannot delete covered tail segment'',
                    remove_segment (rm (as_id a)) (unmark (as_id a)) (as_id a) (tw2\<lparr>tw_active := None\<rparr>))
              else (if ok then Inr () else Inl ''cannot delete covered tail segment'', tw2))
         | None \<Rightarrow> (if ok then Inr () else Inl ''cannot delete covered tail segment'', tw2))"

definition ensure_seq_floor :: "nat \<Rightarrow> table_wal \<Rightarrow> table_wal" where
  "ensure_seq_floor n tw = tw\<lparr>tw_next_seq := max (tw_next_seq tw) n\<rparr>"

section \<open>Steps\<close>

datatype 'b tail_event =
    Stage append_io tail_op_kind "'b list"
  | Lead nat
  | SyncDone nat bool
  | WaitOk staged
  | WaitErr staged cleanup_io
  | Poisoned cleanup_io
  | Rotate cleanup_io
  | Truncate "nat \<Rightarrow> bool" "nat \<Rightarrow> bool" nat
  | Floor nat

text \<open>
  A waiter returns success, or returns the failure after the cleanup of its segment.  While a
  poisoned append holds the tables lock, only syncs and successful waits go on.
\<close>

fun tail_step ::
  "(bytes \<Rightarrow> 32 word) \<Rightarrow> ('b list \<Rightarrow> bytes result) \<Rightarrow> table_wal \<Rightarrow> 'b tail_event \<Rightarrow> table_wal option" where
  "tail_step crc ipc tw (Stage io kind batches) =
     (if tw_poisoned tw \<noteq> None then None
      else Some (snd (append_staged io (\<lambda>seq. encode_frame crc ipc seq kind batches) tw)))"
| "tail_step crc ipc tw (Lead i) = lead i tw"
| "tail_step crc ipc tw (SyncDone i ok) = sync_done i ok tw"
| "tail_step crc ipc tw (WaitOk w) =
     (if w \<in> set (tw_waiting tw) \<and> wait_verdict (tw_syncs tw (fst (snd w))) (snd (snd w)) = Some (Inr ())
      then Some (tw\<lparr>tw_waiting := remove1 w (tw_waiting tw), tw_acked := tw_acked tw @ [w]\<rparr>) else None)"
| "tail_step crc ipc tw (WaitErr w io) =
     (let sy = tw_syncs tw (fst (snd w)) in
      if w \<in> set (tw_waiting tw) \<and> tw_poisoned tw = None
      then (case wait_verdict sy (snd (snd w)) of
              Some (Inl why) \<Rightarrow>
                (if \<not> sy_cleaned sy \<and> sy_syncing sy \<noteq> None then None
                 else Some (cleanup_failed_segment io (fst (snd w)) why (tw\<lparr>tw_waiting := remove1 w (tw_waiting tw)\<rparr>)))
            | _ \<Rightarrow> None)
      else None)"
| "tail_step crc ipc tw (Poisoned io) =
     (case tw_poisoned tw of
        None \<Rightarrow> None
      | Some i \<Rightarrow>
          (if sy_syncing (tw_syncs tw i) \<noteq> None then None
           else Some (cleanup_failed_segment io i ''append failed AND rollback failed'' (tw\<lparr>tw_poisoned := None\<rparr>))))"
| "tail_step crc ipc tw (Rotate io) = (if tw_poisoned tw \<noteq> None then None else map_option snd (tail_rotate io tw))"
| "tail_step crc ipc tw (Truncate rm unmark upto_seq) =
     (if tw_poisoned tw \<noteq> None then None else Some (snd (tail_truncate rm unmark upto_seq tw)))"
| "tail_step crc ipc tw (Floor n) = (if tw_poisoned tw \<noteq> None then None else Some (ensure_seq_floor n tw))"

fun tail_run ::
  "(bytes \<Rightarrow> 32 word) \<Rightarrow> ('b list \<Rightarrow> bytes result) \<Rightarrow> table_wal \<Rightarrow> 'b tail_event list \<Rightarrow> table_wal option" where
  "tail_run crc ipc tw [] = Some tw"
| "tail_run crc ipc tw (e # es) = Option.bind (tail_step crc ipc tw e) (\<lambda>tw'. tail_run crc ipc tw' es)"

text \<open>The state \<^verbatim>\<open>table_entry\<close> builds for a directory without segments.\<close>

definition fresh_table :: table_wal where
  "fresh_table =
     \<lparr>tw_next_seq = 1, tw_next_segment = 1, tw_active = None, tw_sealed = [], tw_files = Map.empty,
      tw_marks = Map.empty, tw_syncs = (\<lambda>_. seg_sync_new 0), tw_poisoned = None, tw_waiting = [], tw_acked = [],
      tw_disk = (\<lambda>_. 0), tw_trunc = 0\<rparr>"

end
