(* ===== verification/TailReplay.thy ===== *)
theory TailReplay
  imports TailFrames
begin

text \<open>
  What the boot scan of the local tail recovers.  Op payloads round-trip; a segment of whole
  frames followed by a torn one scans as the whole frames; a poison marker clamps the scan to the
  durable length; a directory in which only the newest segment may be torn replays every whole
  frame in order.
\<close>

section \<open>Payloads\<close>

lemma from_byte_to_byte [simp]: "from_byte (to_byte k) = Inr k"
  by (cases k) (simp_all add: from_byte_def)

text \<open>The IPC reader returns what the writer was given.\<close>

definition ipc_inverse :: "('b list \<Rightarrow> bytes result) \<Rightarrow> (bytes \<Rightarrow> 'b list result) \<Rightarrow> bool" where
  "ipc_inverse ipc unipc \<longleftrightarrow> (\<forall>batches bs. ipc batches = Inr bs \<longrightarrow> unipc bs = Inr batches)"

lemma op_payload_roundtrip:
  assumes "ipc_inverse ipc unipc" "encode_op_payload ipc k batches = Inr p"
  shows "decode_op_payload unipc p = Inr (mk_op k batches)"
  using assms
  by (auto simp: encode_op_payload_def encode_ipc_def rbind_Inr_conv decode_op_payload_def decode_ipc_def ipc_inverse_def
      split: if_splits)

lemma encode_frame_decodes:
  assumes "ipc_inverse ipc unipc" "encode_frame crc ipc seq k batches = Inr fb" "seq < 2 ^ 64"
  obtains p where "fb = frame crc p" "length p \<le> U32_MAX" "decode_payload unipc p = Inr (seq, mk_op k batches)"
proof -
  obtain body where b: "encode_op_payload ipc k batches = Inr body"
    and f: "length (le_bytes 8 seq @ body) \<le> U32_MAX" "fb = frame crc (le_bytes 8 seq @ body)"
    using assms(2) by (auto simp: encode_frame_def rbind_Inr_conv frame_bytes_Inr)
  have "decode_payload unipc (le_bytes 8 seq @ body) = Inr (seq, mk_op k batches)"
    using op_payload_roundtrip [OF assms(1) b] assms(3) by (simp add: decode_payload_def)
  then show ?thesis using that f by blast
qed

section \<open>The frame loop\<close>

text \<open>A payload on disk with the frame it decodes to.\<close>

definition stored :: "(bytes \<Rightarrow> 'b list result) \<Rightarrow> bytes \<Rightarrow> nat \<times> 'b tail_op \<Rightarrow> bool" where
  "stored unipc p f \<longleftrightarrow> length p \<le> U32_MAX \<and> decode_payload unipc p = Inr f"

lemma seg_loop_frame:
  assumes "length pre = off" "stored unipc p f"
  shows "seg_loop crc unipc (pre @ frame crc p @ rest) off acc =
         seg_loop crc unipc (pre @ frame crc p @ rest) (off + 8 + length p) (acc @ [f])"
proof -
  have "length p < 256 ^ 4" using assms(2) u32_lt by (auto simp: stored_def)
  moreover have "drop (off + 4) (pre @ frame crc p @ rest) = drop 4 (frame crc p @ rest)"
    "drop (off + 8) (pre @ frame crc p @ rest) = p @ rest" using assms(1) by (simp_all add: frame_def)
  moreover have "take 4 (drop 4 (frame crc p @ rest)) = le_bytes 4 (unat (crc p))" by (simp add: frame_def)
  moreover have "take 4 (frame crc p @ rest) = le_bytes 4 (length p)" by (simp add: frame_def)
  ultimately show ?thesis
    using assms u32_word_lt [of "crc p"] by (subst seg_loop.simps) (simp add: stored_def Let_def)
qed

lemma seg_loop_frames:
  assumes "list_all2 (stored unipc) ps fs" "length pre = off"
  shows "seg_loop crc unipc (pre @ frames crc ps @ rest) off acc =
         seg_loop crc unipc (pre @ frames crc ps @ rest) (off + length (frames crc ps)) (acc @ fs)"
  using assms
proof (induction ps fs arbitrary: pre off acc rule: list_all2_induct)
  case Nil
  then show ?case by simp
next
  case (Cons p ps f fs)
  have "seg_loop crc unipc (pre @ frame crc p @ frames crc ps @ rest) off acc =
      seg_loop crc unipc ((pre @ frame crc p) @ frames crc ps @ rest) (off + 8 + length p) (acc @ [f])"
    using seg_loop_frame [OF Cons.prems Cons.hyps(1), of crc "frames crc ps @ rest"] by simp
  also have "\<dots> = seg_loop crc unipc ((pre @ frame crc p) @ frames crc ps @ rest)
      (off + 8 + length p + length (frames crc ps)) ((acc @ [f]) @ fs)"
    by (rule Cons.IH) (simp add: Cons.prems)
  finally show ?case by (simp add: add.assoc)
qed

lemma seg_loop_torn:
  assumes "length pre = off" "length p \<le> U32_MAX" "0 < k" "k < 8 + length p"
  shows "\<exists>why. seg_loop crc unipc (pre @ take k (frame crc p)) off acc = Inr (acc, off, Some why)"
proof (cases "k < 8")
  case True
  then have "seg_loop crc unipc (pre @ take k (frame crc p)) off acc = Inr (acc, off, Some ''torn header'')"
    using assms by (subst seg_loop.simps) simp
  then show ?thesis by blast
next
  case False
  let ?data = "pre @ take k (frame crc p)"
  have "take 4 (take k (frame crc p)) = le_bytes 4 (length p)" using False by (simp add: frame_def min_def)
  moreover have "length p < 256 ^ 4" using assms(2) by (rule u32_lt)
  moreover have "k - 8 < length p" using False assms(4) by simp
  ultimately have "seg_loop crc unipc ?data off acc = Inr (acc, off, Some ''torn payload'')"
    using False assms by (subst seg_loop.simps) (simp add: Let_def)
  then show ?thesis by blast
qed

lemma seg_loop_end: "seg_loop crc unipc data (length data) acc = Inr (acc, length data, None)"
  by (subst seg_loop.simps) simp

text \<open>A cut through a sequence of frames leaves whole frames and a proper prefix of the next one.\<close>

lemma take_frames:
  "\<exists>n j. take k (frames crc ps) = frames crc (take n ps) @ (if n < length ps then take j (frame crc (ps ! n)) else []) \<and>
     n \<le> length ps \<and> (n < length ps \<longrightarrow> j < length (frame crc (ps ! n)))"
proof (induction ps arbitrary: k)
  case Nil
  then show ?case by simp
next
  case (Cons p ps)
  show ?case
  proof (cases "k < length (frame crc p)")
    case True
    then show ?thesis by (intro exI [of _ 0] exI [of _ k]) simp
  next
    case False
    obtain n j where n: "take (k - length (frame crc p)) (frames crc ps) =
        frames crc (take n ps) @ (if n < length ps then take j (frame crc (ps ! n)) else [])"
      "n \<le> length ps" "n < length ps \<longrightarrow> j < length (frame crc (ps ! n))" using Cons.IH by blast
    then have "take k (frames crc (p # ps)) =
        frames crc (take (Suc n) (p # ps)) @ (if Suc n < length (p # ps) then take j (frame crc ((p # ps) ! Suc n)) else [])"
      using False by simp
    then show ?thesis using n(2,3) by (intro exI [of _ "Suc n"] exI [of _ j]) simp
  qed
qed

lemma seg_loop_cut:
  assumes "list_all2 (stored unipc) ps fs"
  shows "\<exists>n why. seg_loop crc unipc (take k (frames crc ps)) 0 [] = Inr (take n fs, length (frames crc (take n ps)), why) \<and>
    n \<le> length fs \<and> (\<exists>rest. take k (frames crc ps) = frames crc (take n ps) @ rest \<and> (why = None \<longrightarrow> rest = [])) \<and>
    (\<forall>m\<le>length fs. length (frames crc (take m ps)) \<le> k \<longrightarrow> m \<le> n)"
proof -
  obtain n j where t: "take k (frames crc ps) = frames crc (take n ps) @ (if n < length ps then take j (frame crc (ps ! n)) else [])"
    and n: "n \<le> length ps" "n < length ps \<longrightarrow> j < length (frame crc (ps ! n))" using take_frames by blast
  let ?rest = "if n < length ps then take j (frame crc (ps ! n)) else []"
  have le: "length fs = length ps" using assms list_all2_lengthD by fastforce
  have wh: "list_all2 (stored unipc) (take n ps) (take n fs)" using assms by (rule list_all2_takeI)
  have loop: "seg_loop crc unipc (take k (frames crc ps)) 0 [] =
      seg_loop crc unipc (frames crc (take n ps) @ ?rest) (length (frames crc (take n ps))) (take n fs)"
    unfolding t using seg_loop_frames [OF wh, of "[]" 0 crc ?rest "[]"] by simp
  have most: "m \<le> n" if m: "m \<le> length fs" "length (frames crc (take m ps)) \<le> k" for m
  proof (rule ccontr)
    assume "\<not> m \<le> n"
    then have nm: "n < m" "n < length ps" using m(1) le by simp_all
    have tm: "take m ps = take n ps @ ps ! n # drop (Suc n) (take m ps)"
      using id_take_nth_drop [of n "take m ps"] nm m(1) le by (simp add: min_def)
    have "frames crc (take m ps) = frames crc (take n ps) @ frame crc (ps ! n) @ frames crc (drop (Suc n) (take m ps))"
      using arg_cong [OF tm, of "frames crc"] by (simp only: frames_append frames_Cons)
    then have "length (frames crc (take n ps)) + length (frame crc (ps ! n)) \<le> length (frames crc (take m ps))"
      by (metis (no_types, lifting) add_le_cancel_left le_add1 length_append)
    moreover have "length (take k (frames crc ps)) = length (frames crc (take n ps)) + min (length (frame crc (ps ! n))) j"
      using t nm(2) by simp
    moreover have "length (take k (frames crc ps)) = min (length (frames crc ps)) k" by simp
    moreover have "length (frames crc (take m ps)) \<le> length (frames crc ps)"
      using frames_append [of crc "take m ps" "drop m ps"] by simp
    ultimately show False using n(2) nm(2) m(2) by simp
  qed
  show ?thesis
  proof (cases "n < length ps \<and> 0 < j")
    case True
    then have "length (ps ! n) \<le> U32_MAX" using assms by (auto simp: list_all2_conv_all_nth stored_def)
    then obtain why where "seg_loop crc unipc (frames crc (take n ps) @ take j (frame crc (ps ! n)))
        (length (frames crc (take n ps))) (take n fs) = Inr (take n fs, length (frames crc (take n ps)), Some why)"
      using seg_loop_torn [where pre = "frames crc (take n ps)" and p = "ps ! n" and k = j and acc = "take n fs", OF refl]
        n(2) True by auto
    then show ?thesis using loop n le most True t by auto
  next
    case False
    then have "?rest = []" by auto
    then have "seg_loop crc unipc (frames crc (take n ps) @ ?rest) (length (frames crc (take n ps))) (take n fs) =
        Inr (take n fs, length (frames crc (take n ps)), None)"
      using seg_loop_end by simp
    then show ?thesis using loop n le most t \<open>?rest = []\<close> by auto
  qed
qed

section \<open>Markers\<close>

lemma split_ws_word:
  "\<forall>c\<in>set w. \<not> is_whitespace c \<Longrightarrow> split_ws cur (w @ r) = split_ws (rev w @ cur) r"
  by (induction w arbitrary: cur) auto

lemma space_ws: "is_whitespace CHR '' ''"
  by (simp add: is_whitespace_def Let_def)

lemma digits_plain: "\<forall>c\<in>set (u64_string n). \<not> is_whitespace c"
  using u64_string_digits digit_char_plain(2) by blast

lemma poison_marker_roundtrip:
  assumes "a < 2 ^ 64" "b < 2 ^ 64"
  shows "read_poison_marker (Some (poison_marker_text a b)) = Some \<lparr>pm_clamp = a, pm_resume_seq = Some b\<rparr>"
proof -
  have "split_ws [] (poison_marker_text a b) = [u64_string a, u64_string b]"
    unfolding poison_marker_text_def
    using split_ws_word [OF digits_plain, of "[]" a] split_ws_word [OF digits_plain, of "[]" b "[]"] space_ws
    by simp
  then show ?thesis using assms by (simp add: read_poison_marker_def)
qed

section \<open>One segment\<close>

lemma scan_segment_unmarked:
  assumes "seg_loop crc unipc data 0 [] = Inr (fs, fend, why)" "why = None \<or> cut_ok"
  shows "scan_segment crc unipc cut_ok unmark_ok (data, None) =
    Inr (\<lparr>ss_frames = fs, ss_hit_bad_frame = (why \<noteq> None), ss_resume_hint = None\<rparr>,
         (if why = None then data else take fend data, None))"
  using assms by (auto simp: scan_segment_def read_poison_marker_def Let_def)

lemma scan_segment_whole:
  assumes "list_all2 (stored unipc) ps fs"
  shows "scan_segment crc unipc cut_ok unmark_ok (frames crc ps, None) =
    Inr (\<lparr>ss_frames = fs, ss_hit_bad_frame = False, ss_resume_hint = None\<rparr>, (frames crc ps, None))"
proof -
  have "seg_loop crc unipc (frames crc ps) 0 [] = Inr (fs, length (frames crc ps), None)"
    using seg_loop_frames [OF assms, of "[]" 0 crc "[]" "[]"] seg_loop_end by simp
  then show ?thesis using scan_segment_unmarked by fastforce
qed

lemma scan_segment_cut:
  assumes "list_all2 (stored unipc) ps fs" "cut_ok"
  shows "\<exists>n hit. scan_segment crc unipc cut_ok unmark_ok (take k (frames crc ps), None) =
    Inr (\<lparr>ss_frames = take n fs, ss_hit_bad_frame = hit, ss_resume_hint = None\<rparr>, (frames crc (take n ps), None)) \<and>
    n \<le> length fs \<and> (\<forall>m\<le>length fs. length (frames crc (take m ps)) \<le> k \<longrightarrow> m \<le> n)"
proof -
  obtain n why rest where l: "seg_loop crc unipc (take k (frames crc ps)) 0 [] = Inr (take n fs, length (frames crc (take n ps)), why)"
    and n: "n \<le> length fs" "\<forall>m\<le>length fs. length (frames crc (take m ps)) \<le> k \<longrightarrow> m \<le> n"
    and t: "take k (frames crc ps) = frames crc (take n ps) @ rest" "why = None \<longrightarrow> rest = []"
    using seg_loop_cut [OF assms(1)] by blast
  have "(if why = None then take k (frames crc ps) else take (length (frames crc (take n ps))) (take k (frames crc ps))) =
      frames crc (take n ps)"
    unfolding t(1) using t(2) by simp
  then show ?thesis using scan_segment_unmarked [OF l, of cut_ok unmark_ok] assms(2) n by auto
qed

text \<open>A marker clamps the scan to the durable frames and hands on where numbering resumes.\<close>

lemma scan_segment_clamped:
  assumes "list_all2 (stored unipc) ps fs" "cut_ok" "length (frames crc ps) < 2 ^ 64" "resume < 2 ^ 64" "garbage \<noteq> []"
  shows "scan_segment crc unipc cut_ok unmark_ok
      (frames crc ps @ garbage, Some (poison_marker_text (length (frames crc ps)) resume)) =
    Inr (\<lparr>ss_frames = fs, ss_hit_bad_frame = True, ss_resume_hint = Some resume\<rparr>,
         (frames crc ps, if unmark_ok then None else Some (poison_marker_text (length (frames crc ps)) resume)))"
proof -
  have "seg_loop crc unipc (frames crc ps) 0 [] = Inr (fs, length (frames crc ps), None)"
    using seg_loop_frames [OF assms(1), of "[]" 0 crc "[]" "[]"] seg_loop_end by simp
  then show ?thesis
    using poison_marker_roundtrip [OF assms(3,4)] assms(2,5) by (simp add: scan_segment_def Let_def)
qed

section \<open>A directory\<close>

text \<open>A segment of whole frames without a marker: its number, its payloads and its frames.\<close>

definition clean_seg :: "(bytes \<Rightarrow> 32 word) \<Rightarrow> nat \<times> bytes list \<times> (nat \<times> 'b tail_op) list \<Rightarrow> nat \<times> seg_file" where
  "clean_seg crc e = (fst e, (frames crc (fst (snd e)), None))"

lemma scan_turn_unmarked:
  assumes "ts_bad st = False"
    and "scan_segment crc unipc (sio_cut io i) (sio_unmark io i) (data, None) =
      Inr (\<lparr>ss_frames = fs, ss_hit_bad_frame = hit, ss_resume_hint = None\<rparr>, f)"
  shows "\<exists>st'. scan_turn io crc unipc st (i, (data, None)) = Inr st' \<and> ts_frames st' = ts_frames st @ fs \<and>
    ts_bad st' = hit \<and> ts_sealed st' = ts_sealed st @ (if fs = [] then [] else [(i, fst (last fs))]) \<and>
    ts_next_segment st' = max (ts_next_segment st) (i + 1)"
  using assms by (simp add: scan_turn_def ss_max_seq_def Let_def)

lemma scan_turns_clean:
  assumes "\<forall>e\<in>set es. list_all2 (stored unipc) (fst (snd e)) (snd (snd e))" "ts_bad st = False"
  shows "\<exists>st'. scan_turns io crc unipc (map (clean_seg crc) es @ rest) st = scan_turns io crc unipc rest st' \<and>
    ts_bad st' = False \<and> ts_frames st' = ts_frames st @ concat (map (\<lambda>e. snd (snd e)) es)"
  using assms
proof (induction es arbitrary: st)
  case Nil
  then show ?case by auto
next
  case (Cons e es)
  obtain i ps fs where e: "e = (i, ps, fs)" by (cases e)
  have "list_all2 (stored unipc) ps fs" using Cons.prems(1) e by simp
  from scan_turn_unmarked [OF Cons.prems(2) scan_segment_whole [OF this], where io = io and i = i and crc = crc]
  obtain st1 where st1: "scan_turn io crc unipc st (clean_seg crc e) = Inr st1" "ts_frames st1 = ts_frames st @ fs" "ts_bad st1 = False"
    by (auto simp: clean_seg_def e)
  from Cons.IH [OF _ st1(3)] Cons.prems(1) obtain st' where
    "scan_turns io crc unipc (map (clean_seg crc) es @ rest) st1 = scan_turns io crc unipc rest st'"
    "ts_bad st' = False" "ts_frames st' = ts_frames st1 @ concat (map (\<lambda>e. snd (snd e)) es)" by auto
  then show ?case using st1 e by auto
qed

text \<open>
  Replay after a crash: sealed segments hold whole frames, the newest one may be cut anywhere.
  Every frame of a sealed segment is recovered, and every frame of the newest one that lies
  before the cut; nothing is reordered.
\<close>

lemma scan_table_recovers:
  assumes "\<forall>e\<in>set es. list_all2 (stored unipc) (fst (snd e)) (snd (snd e))"
    and "list_all2 (stored unipc) ps fs" "sio_cut io i"
  shows "\<exists>st n. scan_table io crc unipc (map (clean_seg crc) es @ [(i, (take k (frames crc ps), None))]) = Inr st \<and>
    ts_frames st = concat (map (\<lambda>e. snd (snd e)) es) @ take n fs \<and> n \<le> length fs \<and>
    (\<forall>m\<le>length fs. length (frames crc (take m ps)) \<le> k \<longrightarrow> m \<le> n)"
proof -
  obtain st1 where st1: "scan_table io crc unipc (map (clean_seg crc) es @ [(i, (take k (frames crc ps), None))]) =
      scan_turns io crc unipc [(i, (take k (frames crc ps), None))] st1" "ts_bad st1 = False"
    "ts_frames st1 = concat (map (\<lambda>e. snd (snd e)) es)"
    using scan_turns_clean [OF assms(1), of "\<lparr>ts_frames = [], ts_sealed = [], ts_next_segment = 1, ts_bad = False,
        ts_resume = None, ts_dir = []\<rparr>" io crc "[(i, (take k (frames crc ps), None))]"]
    by (auto simp: scan_table_def)
  obtain n hit where sc: "scan_segment crc unipc (sio_cut io i) (sio_unmark io i) (take k (frames crc ps), None) =
      Inr (\<lparr>ss_frames = take n fs, ss_hit_bad_frame = hit, ss_resume_hint = None\<rparr>, (frames crc (take n ps), None))"
    and n: "n \<le> length fs" "\<forall>m\<le>length fs. length (frames crc (take m ps)) \<le> k \<longrightarrow> m \<le> n"
    using scan_segment_cut [OF assms(2), of "sio_cut io i"] assms(3) by blast
  from scan_turn_unmarked [OF st1(2) sc] st1 n show ?thesis by auto
qed

text \<open>
  A frame behind a clamped segment survives only when its number is the marker's resume hint: a
  later segment that starts at any other number is dropped by replay.
\<close>

lemma scan_table_drops_after_marker:
  assumes "list_all2 (stored unipc) ps fs" "list_all2 (stored unipc) qs gs" "gs \<noteq> []" "fs \<noteq> []"
    and "sio_cut io i" "length (frames crc ps) < 2 ^ 64" "resume < 2 ^ 64" "garbage \<noteq> []" "fst (hd gs) \<noteq> resume"
  shows "\<exists>st. scan_table io crc unipc
      [(i, (frames crc ps @ garbage, Some (poison_marker_text (length (frames crc ps)) resume))), clean_seg crc (j, qs, gs)] = Inr st \<and>
    ts_frames st = fs"
proof -
  let ?sc = "scan_segment crc unipc (sio_cut io i) (sio_unmark io i)
    (frames crc ps @ garbage, Some (poison_marker_text (length (frames crc ps)) resume))"
  have s1: "?sc = Inr (\<lparr>ss_frames = fs, ss_hit_bad_frame = True, ss_resume_hint = Some resume\<rparr>,
      (frames crc ps, if sio_unmark io i then None else Some (poison_marker_text (length (frames crc ps)) resume)))"
    using assms by (intro scan_segment_clamped) auto
  have s2: "scan_segment crc unipc (sio_cut io j) (sio_unmark io j) (frames crc qs, None) =
      Inr (\<lparr>ss_frames = gs, ss_hit_bad_frame = False, ss_resume_hint = None\<rparr>, (frames crc qs, None))"
    using assms(2) by (rule scan_segment_whole)
  show ?thesis
    using assms(3,4,9) by (simp add: scan_table_def scan_turn_def clean_seg_def s1 s2 ss_max_seq_def Let_def)
qed

end
