(* ===== verification/TailDurable.thy ===== *)
theory TailDurable
  imports TailWal TailReplay
begin

text \<open>
  Fsync before acknowledgement, for every statement of a coalesced batch.  The invariant follows
  the frames of each segment file (\<open>L\<close>): the synced length is a frame boundary and durable, an
  acknowledged append lies before it, and a cleanup cuts exactly there.  The result is that a
  crash loses no acknowledged append: the boot scan recovers it, unless a truncation covered its
  sequence number.
\<close>

section \<open>Segments as lists of frames\<close>

text \<open>A frame in a file: its payload and what it decodes to (sequence number and operation).\<close>

type_synonym 'b rec = "bytes \<times> nat \<times> 'b tail_op"

definition seg_bytes :: "(bytes \<Rightarrow> 32 word) \<Rightarrow> 'b rec list \<Rightarrow> bytes" where
  "seg_bytes crc l = frames crc (map fst l)"

definition frame_seq :: "'b rec \<Rightarrow> nat" where
  "frame_seq x = fst (snd x)"

definition last_seq :: "'b rec list \<Rightarrow> nat" where
  "last_seq l = (if l = [] then 0 else frame_seq (last l))"

text \<open>
  A frame boundary with the sequence number of the frame that ends there; at the start of the
  segment, with a number below every frame.
\<close>

definition boundary :: "(bytes \<Rightarrow> 32 word) \<Rightarrow> 'b rec list \<Rightarrow> nat \<Rightarrow> nat \<Rightarrow> bool" where
  "boundary crc l len seq \<longleftrightarrow>
     (\<exists>n\<le>length l. len = length (seg_bytes crc (take n l)) \<and>
        (if n = 0 then \<forall>x\<in>set l. seq < frame_seq x else seq = frame_seq (l ! (n - 1))))"

lemma seg_bytes_Nil [simp]: "seg_bytes crc [] = []"
  by (simp add: seg_bytes_def)

lemma seg_bytes_append [simp]: "seg_bytes crc (l @ m) = seg_bytes crc l @ seg_bytes crc m"
  by (simp add: seg_bytes_def frames_append)

lemma seg_bytes_one [simp]: "seg_bytes crc [x] = frame crc (fst x)"
  by (simp add: seg_bytes_def)

lemma seg_bytes_take_mono: "m \<le> n \<Longrightarrow> length (seg_bytes crc (take m l)) \<le> length (seg_bytes crc (take n l))"
  by (metis append_take_drop_id length_append le_add1 min.absorb1 seg_bytes_append take_take)

lemma seg_bytes_take_strict:
  assumes "m < n" "n \<le> length l"
  shows "length (seg_bytes crc (take m l)) < length (seg_bytes crc (take n l))"
proof -
  have "take (Suc m) l = take m l @ [l ! m]" using assms by (simp add: take_Suc_conv_app_nth)
  then have "length (seg_bytes crc (take m l)) < length (seg_bytes crc (take (Suc m) l))" by simp
  also have "\<dots> \<le> length (seg_bytes crc (take n l))" using assms(1) by (intro seg_bytes_take_mono) simp
  finally show ?thesis .
qed

lemma seg_bytes_take_le_iff:
  assumes "m \<le> length l" "n \<le> length l"
  shows "length (seg_bytes crc (take m l)) \<le> length (seg_bytes crc (take n l)) \<longleftrightarrow> m \<le> n"
  using seg_bytes_take_strict [of n m l crc] seg_bytes_take_mono [of m n crc l] assms by (meson not_le)

lemma seg_bytes_take: "length (seg_bytes crc (take n l)) = k \<Longrightarrow> take k (seg_bytes crc l) = seg_bytes crc (take n l)"
  by (metis append_take_drop_id append_eq_conv_conj seg_bytes_append)

lemma boundary_Nil [simp]: "boundary crc [] 0 s"
  by (simp add: boundary_def)

lemma boundary_le: "boundary crc l len s \<Longrightarrow> len \<le> length (seg_bytes crc l)"
  unfolding boundary_def using seg_bytes_take_mono [of _ "length l" crc l] by force

lemma boundary_snoc:
  assumes "boundary crc l len s" "s < frame_seq x"
  shows "boundary crc (l @ [x]) len s"
proof -
  obtain n where "n \<le> length l" "len = length (seg_bytes crc (take n l))"
    "if n = 0 then \<forall>x\<in>set l. s < frame_seq x else s = frame_seq (l ! (n - 1))"
    using assms(1) unfolding boundary_def by blast
  then show ?thesis unfolding boundary_def using assms(2)
    by (intro exI [of _ n]) (auto simp: nth_append split: if_splits)
qed

lemma boundary_end: "l \<noteq> [] \<Longrightarrow> boundary crc l (length (seg_bytes crc l)) (last_seq l)"
  unfolding boundary_def by (rule exI [of _ "length l"]) (simp add: last_seq_def last_conv_nth)

lemma boundary_order:
  assumes "boundary crc l a s" "boundary crc l b t" "sorted_wrt (<) (map frame_seq l)" "a < b"
  shows "s \<le> t"
proof -
  obtain n where n: "n \<le> length l" "a = length (seg_bytes crc (take n l))"
    "if n = 0 then \<forall>x\<in>set l. s < frame_seq x else s = frame_seq (l ! (n - 1))"
    using assms(1) unfolding boundary_def by blast
  obtain m where m: "m \<le> length l" "b = length (seg_bytes crc (take m l))"
    "if m = 0 then \<forall>x\<in>set l. t < frame_seq x else t = frame_seq (l ! (m - 1))"
    using assms(2) unfolding boundary_def by blast
  have "n < m" using assms(4) seg_bytes_take_mono [of m n crc l] n(2) m(2) by (metis not_le)
  then have t: "t = frame_seq (l ! (m - 1))" "m - 1 < length l" using m(1,3) by (auto split: if_splits)
  show ?thesis
  proof (cases "n = 0")
    case True
    then show ?thesis using n(3) t by (simp add: less_imp_le)
  next
    case False
    then have "s = frame_seq (l ! (n - 1))" "n - 1 < m - 1" using n(3) \<open>n < m\<close> by (auto split: if_splits)
    then show ?thesis using assms(3) t by (auto simp: sorted_wrt_iff_nth_less less_imp_le)
  qed
qed

lemma boundary_same: "boundary crc l a s \<Longrightarrow> boundary crc l a t \<Longrightarrow> boundary crc l a (max s t)"
  by (auto simp: max_def)

lemma boundary_max:
  assumes "boundary crc l a s" "boundary crc l b t" "sorted_wrt (<) (map frame_seq l)"
  shows "boundary crc l (max a b) (max s t)"
proof (cases a b rule: linorder_cases)
  case less
  then show ?thesis using boundary_order [OF assms(1,2,3) less] assms(2) by (simp add: max_def)
next
  case equal
  then show ?thesis using assms(1,2) boundary_same by simp
next
  case greater
  then show ?thesis using boundary_order [OF assms(2,1,3) greater] assms(1) by (simp add: max_def)
qed

lemma boundary_split:
  assumes "boundary crc l len s"
  obtains n where "n \<le> length l" "len = length (seg_bytes crc (take n l))" "0 < n \<longrightarrow> s = frame_seq (l ! (n - 1))"
  using assms unfolding boundary_def by (metis not_gr0)

section \<open>The invariant\<close>

definition entry_in :: "(bytes \<Rightarrow> 32 word) \<Rightarrow> (nat \<Rightarrow> 'b rec list) \<Rightarrow> table_wal \<Rightarrow> staged \<Rightarrow> bool" where
  "entry_in crc L tw w \<longleftrightarrow>
     tw_files tw (fst (snd w)) \<noteq> None \<and>
     (\<exists>n<length (L (fst (snd w))). snd (snd w) = length (seg_bytes crc (take (Suc n) (L (fst (snd w))))) \<and>
        frame_seq (L (fst (snd w)) ! n) = fst w)"

definition not_active :: "table_wal \<Rightarrow> nat \<Rightarrow> bool" where
  "not_active tw i \<longleftrightarrow> (\<forall>a. tw_active tw = Some a \<longrightarrow> as_id a \<noteq> i)"

text \<open>The files hold the frames of \<open>L\<close>, in sequence order within a segment and across segments.\<close>

definition logs_ok ::
  "(bytes \<Rightarrow> 32 word) \<Rightarrow> (bytes \<Rightarrow> 'b list result) \<Rightarrow> (nat \<times> 'b tail_op) set \<Rightarrow> (nat \<Rightarrow> 'b rec list) \<Rightarrow> table_wal \<Rightarrow> bool" where
  "logs_ok crc unipc S L tw \<longleftrightarrow>
     1 \<le> tw_next_seq tw \<and>
     (\<forall>i d. tw_files tw i = Some d \<longrightarrow> d = seg_bytes crc (L i) \<and> i \<le> tw_next_segment tw) \<and>
     (\<forall>i. \<forall>x\<in>set (L i). snd x \<in> S \<and> 1 \<le> frame_seq x \<and> frame_seq x < tw_next_seq tw \<and>
        (frame_seq x < 2 ^ 64 \<longrightarrow> stored unipc (fst x) (snd x))) \<and>
     (\<forall>i. sorted_wrt (<) (map frame_seq (L i))) \<and>
     (\<forall>i j. i < j \<longrightarrow> tw_files tw i \<noteq> None \<longrightarrow> tw_files tw j \<noteq> None \<longrightarrow>
        (\<forall>x\<in>set (L i). \<forall>y\<in>set (L j). frame_seq x < frame_seq y)) \<and>
     (tw_files tw (tw_next_segment tw) \<noteq> None \<longrightarrow> L (tw_next_segment tw) = [] \<and> tw_active tw = None)"

definition active_ok :: "(bytes \<Rightarrow> 32 word) \<Rightarrow> (nat \<Rightarrow> 'b rec list) \<Rightarrow> table_wal \<Rightarrow> bool" where
  "active_ok crc L tw \<longleftrightarrow>
     (\<forall>a. tw_active tw = Some a \<longrightarrow>
        (let i = as_id a; sy = tw_syncs tw i in
         tw_files tw i \<noteq> None \<and> i < tw_next_segment tw \<and> (\<forall>j. tw_files tw j \<noteq> None \<longrightarrow> j \<le> i) \<and>
         as_good_len a = length (seg_bytes crc (L i)) \<and> as_max_seq a = last_seq (L i) \<and>
         sy_written_len sy = length (seg_bytes crc (L i)) \<and> (L i \<noteq> [] \<longrightarrow> sy_written_seq sy = last_seq (L i)) \<and>
         sy_written_seq sy < tw_next_seq tw \<and> sy_synced_seq sy < tw_next_seq tw \<and>
         \<not> sy_cleaned sy \<and> sy_synced_len sy \<le> tw_disk tw i \<and>
         boundary crc (L i) (sy_synced_len sy) (sy_synced_seq sy) \<and>
         (\<forall>tl ts. sy_syncing sy = Some (tl, ts) \<longrightarrow> boundary crc (L i) tl ts \<and> ts < tw_next_seq tw)))"

definition others_ok :: "(bytes \<Rightarrow> 32 word) \<Rightarrow> (nat \<Rightarrow> 'b rec list) \<Rightarrow> table_wal \<Rightarrow> bool" where
  "others_ok crc L tw \<longleftrightarrow>
     (\<forall>i. tw_files tw i \<noteq> None \<longrightarrow> not_active tw i \<longrightarrow> length (seg_bytes crc (L i)) \<le> tw_disk tw i) \<and>
     (\<forall>s\<in>set (tw_sealed tw). fst s < tw_next_segment tw \<and> not_active tw (fst s) \<and> (\<forall>x\<in>set (L (fst s)). frame_seq x \<le> snd s))"

definition entries_ok :: "(bytes \<Rightarrow> 32 word) \<Rightarrow> (nat \<Rightarrow> 'b rec list) \<Rightarrow> table_wal \<Rightarrow> bool" where
  "entries_ok crc L tw \<longleftrightarrow>
     (\<forall>w\<in>set (tw_waiting tw). fst (snd w) < tw_next_segment tw \<and>
        (sy_failed (tw_syncs tw (fst (snd w))) \<noteq> None \<or> fst w \<le> tw_trunc tw \<or> entry_in crc L tw w)) \<and>
     (\<forall>w\<in>set (tw_acked tw). fst (snd w) < tw_next_segment tw \<and>
        (fst w \<le> tw_trunc tw \<or>
         entry_in crc L tw w \<and> snd (snd w) \<le> tw_disk tw (fst (snd w)) \<and>
         (\<not> not_active tw (fst (snd w)) \<longrightarrow> snd (snd w) \<le> sy_synced_len (tw_syncs tw (fst (snd w))))))"

definition wal_inv ::
  "(bytes \<Rightarrow> 32 word) \<Rightarrow> (bytes \<Rightarrow> 'b list result) \<Rightarrow> (nat \<times> 'b tail_op) set \<Rightarrow> (nat \<Rightarrow> 'b rec list) \<Rightarrow> table_wal \<Rightarrow> bool" where
  "wal_inv crc unipc S L tw \<longleftrightarrow>
     logs_ok crc unipc S L tw \<and> active_ok crc L tw \<and> others_ok crc L tw \<and> entries_ok crc L tw \<and>
     tw_poisoned tw = None \<and> tw_marks tw = Map.empty"

lemmas inv_defs = logs_ok_def active_ok_def others_ok_def entries_ok_def entry_in_def not_active_def

lemma wal_inv_fresh: "wal_inv crc unipc S (\<lambda>_. []) fresh_table"
  by (simp add: wal_inv_def inv_defs fresh_table_def)

lemma logs_okD:
  assumes "logs_ok crc unipc S L tw"
  shows "1 \<le> tw_next_seq tw"
    "\<And>i d. tw_files tw i = Some d \<Longrightarrow> d = seg_bytes crc (L i) \<and> i \<le> tw_next_segment tw"
    "\<And>i x. x \<in> set (L i) \<Longrightarrow> snd x \<in> S \<and> 1 \<le> frame_seq x \<and> frame_seq x < tw_next_seq tw \<and>
       (frame_seq x < 2 ^ 64 \<longrightarrow> stored unipc (fst x) (snd x))"
    "\<And>i. sorted_wrt (<) (map frame_seq (L i))"
    "\<And>i j x y. i < j \<Longrightarrow> tw_files tw i \<noteq> None \<Longrightarrow> tw_files tw j \<noteq> None \<Longrightarrow> x \<in> set (L i) \<Longrightarrow> y \<in> set (L j) \<Longrightarrow>
       frame_seq x < frame_seq y"
    "tw_files tw (tw_next_segment tw) \<noteq> None \<Longrightarrow> L (tw_next_segment tw) = [] \<and> tw_active tw = None"
  using assms unfolding logs_ok_def by (elim conjE; metis)+

lemma logs_okI:
  assumes "1 \<le> tw_next_seq tw"
    "\<And>i d. tw_files tw i = Some d \<Longrightarrow> d = seg_bytes crc (L i) \<and> i \<le> tw_next_segment tw"
    "\<And>i x. x \<in> set (L i) \<Longrightarrow> snd x \<in> S \<and> 1 \<le> frame_seq x \<and> frame_seq x < tw_next_seq tw \<and>
       (frame_seq x < 2 ^ 64 \<longrightarrow> stored unipc (fst x) (snd x))"
    "\<And>i. sorted_wrt (<) (map frame_seq (L i))"
    "\<And>i j x y. i < j \<Longrightarrow> tw_files tw i \<noteq> None \<Longrightarrow> tw_files tw j \<noteq> None \<Longrightarrow> x \<in> set (L i) \<Longrightarrow> y \<in> set (L j) \<Longrightarrow>
       frame_seq x < frame_seq y"
    "tw_files tw (tw_next_segment tw) \<noteq> None \<Longrightarrow> L (tw_next_segment tw) = [] \<and> tw_active tw = None"
  shows "logs_ok crc unipc S L tw"
  unfolding logs_ok_def using assms by (intro conjI allI impI ballI) (simp_all del: not_None_eq)

lemma logs_ok_mono: "logs_ok crc unipc S L tw \<Longrightarrow> S \<subseteq> S' \<Longrightarrow> logs_ok crc unipc S' L tw"
proof (rule logs_okI)
  assume l: "logs_ok crc unipc S L tw" "S \<subseteq> S'"
  note d = logs_okD [OF l(1)]
  show "1 \<le> tw_next_seq tw" by (rule d(1))
  show "\<And>i d. tw_files tw i = Some d \<Longrightarrow> d = seg_bytes crc (L i) \<and> i \<le> tw_next_segment tw" by (rule d(2))
  show "\<And>i x. x \<in> set (L i) \<Longrightarrow> snd x \<in> S' \<and> 1 \<le> frame_seq x \<and> frame_seq x < tw_next_seq tw \<and>
       (frame_seq x < 2 ^ 64 \<longrightarrow> stored unipc (fst x) (snd x))" using d(3) l(2) by blast
  show "\<And>i. sorted_wrt (<) (map frame_seq (L i))" by (rule d(4))
  show "\<And>i j x y. i < j \<Longrightarrow> tw_files tw i \<noteq> None \<Longrightarrow> tw_files tw j \<noteq> None \<Longrightarrow> x \<in> set (L i) \<Longrightarrow> y \<in> set (L j) \<Longrightarrow>
       frame_seq x < frame_seq y" by (rule d(5))
  show "tw_files tw (tw_next_segment tw) \<noteq> None \<Longrightarrow> L (tw_next_segment tw) = [] \<and> tw_active tw = None" by (rule d(6))
qed

lemma active_okD:
  assumes "active_ok crc L tw" "tw_active tw = Some a" "i = as_id a" "sy = tw_syncs tw i"
  shows "tw_files tw i \<noteq> None" "i < tw_next_segment tw" "\<And>j. tw_files tw j \<noteq> None \<Longrightarrow> j \<le> i"
    "as_good_len a = length (seg_bytes crc (L i))" "as_max_seq a = last_seq (L i)"
    "sy_written_len sy = length (seg_bytes crc (L i))" "L i \<noteq> [] \<Longrightarrow> sy_written_seq sy = last_seq (L i)"
    "sy_written_seq sy < tw_next_seq tw" "sy_synced_seq sy < tw_next_seq tw"
    "\<not> sy_cleaned sy" "sy_synced_len sy \<le> tw_disk tw i" "boundary crc (L i) (sy_synced_len sy) (sy_synced_seq sy)"
    "\<And>tl ts. sy_syncing sy = Some (tl, ts) \<Longrightarrow> boundary crc (L i) tl ts \<and> ts < tw_next_seq tw"
  using assms by (simp_all add: active_ok_def Let_def)

lemma active_okI:
  assumes "\<And>a i sy. tw_active tw = Some a \<Longrightarrow> i = as_id a \<Longrightarrow> sy = tw_syncs tw i \<Longrightarrow>
     tw_files tw i \<noteq> None \<and> i < tw_next_segment tw \<and> (\<forall>j. tw_files tw j \<noteq> None \<longrightarrow> j \<le> i) \<and>
     as_good_len a = length (seg_bytes crc (L i)) \<and> as_max_seq a = last_seq (L i) \<and>
     sy_written_len sy = length (seg_bytes crc (L i)) \<and> (L i \<noteq> [] \<longrightarrow> sy_written_seq sy = last_seq (L i)) \<and>
     sy_written_seq sy < tw_next_seq tw \<and> sy_synced_seq sy < tw_next_seq tw \<and>
     \<not> sy_cleaned sy \<and> sy_synced_len sy \<le> tw_disk tw i \<and>
     boundary crc (L i) (sy_synced_len sy) (sy_synced_seq sy) \<and>
     (\<forall>tl ts. sy_syncing sy = Some (tl, ts) \<longrightarrow> boundary crc (L i) tl ts \<and> ts < tw_next_seq tw)"
  shows "active_ok crc L tw"
  unfolding active_ok_def Let_def using assms by blast

lemma others_okD:
  assumes "others_ok crc L tw"
  shows "\<And>i. tw_files tw i \<noteq> None \<Longrightarrow> not_active tw i \<Longrightarrow> length (seg_bytes crc (L i)) \<le> tw_disk tw i"
    "\<And>s. s \<in> set (tw_sealed tw) \<Longrightarrow> fst s < tw_next_segment tw \<and> not_active tw (fst s) \<and> (\<forall>x\<in>set (L (fst s)). frame_seq x \<le> snd s)"
  using assms unfolding others_ok_def by blast+

lemma entries_okD:
  assumes "entries_ok crc L tw"
  shows "\<And>w. w \<in> set (tw_waiting tw) \<Longrightarrow> fst (snd w) < tw_next_segment tw \<and>
      (sy_failed (tw_syncs tw (fst (snd w))) \<noteq> None \<or> fst w \<le> tw_trunc tw \<or> entry_in crc L tw w)"
    "\<And>w. w \<in> set (tw_acked tw) \<Longrightarrow> fst (snd w) < tw_next_segment tw \<and>
      (fst w \<le> tw_trunc tw \<or>
       entry_in crc L tw w \<and> snd (snd w) \<le> tw_disk tw (fst (snd w)) \<and>
       (\<not> not_active tw (fst (snd w)) \<longrightarrow> snd (snd w) \<le> sy_synced_len (tw_syncs tw (fst (snd w)))))"
  using assms unfolding entries_ok_def by blast+

lemma entry_in_end:
  assumes "entry_in crc L tw w"
  shows "snd (snd w) \<le> length (seg_bytes crc (L (fst (snd w))))"
proof -
  obtain n where "n < length (L (fst (snd w)))" "snd (snd w) = length (seg_bytes crc (take (Suc n) (L (fst (snd w)))))"
    using assms unfolding entry_in_def by blast
  then show ?thesis using seg_bytes_take_mono [of "Suc n" "length (L (fst (snd w)))" crc "L (fst (snd w))"] by simp
qed

lemma entry_in_mem:
  assumes "entry_in crc L tw w"
  obtains x where "x \<in> set (L (fst (snd w)))" "frame_seq x = fst w"
  using assms unfolding entry_in_def by (metis nth_mem)

lemma wal_invD:
  assumes "wal_inv crc unipc S L tw"
  shows "logs_ok crc unipc S L tw" "active_ok crc L tw" "others_ok crc L tw" "entries_ok crc L tw"
    "tw_poisoned tw = None" "tw_marks tw = Map.empty"
  using assms by (simp_all add: wal_inv_def)

section \<open>Syncing\<close>

text \<open>A change of one segment's sync state that keeps failures and does not take synced bytes back.\<close>

lemma inv_sync:
  assumes inv: "wal_inv crc unipc S L tw" and sy: "sy = tw_syncs tw i"
    and d: "tw_disk tw i \<le> d" and fl: "sy_failed sy \<noteq> None \<Longrightarrow> sy_failed sy' \<noteq> None"
    and sl: "sy_synced_len sy \<le> sy_synced_len sy'"
    and act: "\<not> not_active tw i \<Longrightarrow> sy_written_len sy' = sy_written_len sy \<and> sy_written_seq sy' = sy_written_seq sy \<and>
       sy_synced_seq sy' < tw_next_seq tw \<and> \<not> sy_cleaned sy' \<and> sy_synced_len sy' \<le> d \<and>
       boundary crc (L i) (sy_synced_len sy') (sy_synced_seq sy') \<and>
       (\<forall>tl ts. sy_syncing sy' = Some (tl, ts) \<longrightarrow> boundary crc (L i) tl ts \<and> ts < tw_next_seq tw)"
  shows "wal_inv crc unipc S L (tw\<lparr>tw_syncs := (tw_syncs tw)(i := sy'), tw_disk := (tw_disk tw)(i := d)\<rparr>)"
proof -
  let ?tw = "tw\<lparr>tw_syncs := (tw_syncs tw)(i := sy'), tw_disk := (tw_disk tw)(i := d)\<rparr>"
  note w = wal_invD [OF inv]
  have dm: "tw_disk tw j \<le> tw_disk ?tw j" for j using d by simp
  have "logs_ok crc unipc S L ?tw" using w(1) by (simp add: logs_ok_def)
  moreover have "active_ok crc L ?tw"
  proof (rule active_okI)
    fix a j s
    assume a: "tw_active ?tw = Some a" and j: "j = as_id a" and s: "s = tw_syncs ?tw j"
    have a0: "tw_active tw = Some a" using a by simp
    note ao = active_okD [OF w(2) a0 j refl]
    show "tw_files ?tw j \<noteq> None \<and> j < tw_next_segment ?tw \<and> (\<forall>k. tw_files ?tw k \<noteq> None \<longrightarrow> k \<le> j) \<and>
      as_good_len a = length (seg_bytes crc (L j)) \<and> as_max_seq a = last_seq (L j) \<and>
      sy_written_len s = length (seg_bytes crc (L j)) \<and> (L j \<noteq> [] \<longrightarrow> sy_written_seq s = last_seq (L j)) \<and>
      sy_written_seq s < tw_next_seq ?tw \<and> sy_synced_seq s < tw_next_seq ?tw \<and>
      \<not> sy_cleaned s \<and> sy_synced_len s \<le> tw_disk ?tw j \<and>
      boundary crc (L j) (sy_synced_len s) (sy_synced_seq s) \<and>
      (\<forall>tl ts. sy_syncing s = Some (tl, ts) \<longrightarrow> boundary crc (L j) tl ts \<and> ts < tw_next_seq ?tw)"
    proof (cases "j = i")
      case True
      then have "\<not> not_active tw i" using a0 j by (simp add: not_active_def)
      from act [OF this] show ?thesis using ao s True sy by simp
    next
      case False
      then show ?thesis using ao s by simp
    qed
  qed
  moreover have "others_ok crc L ?tw"
    unfolding others_ok_def
  proof (intro conjI allI impI ballI)
    fix j
    assume "tw_files ?tw j \<noteq> None" "not_active ?tw j"
    then have "length (seg_bytes crc (L j)) \<le> tw_disk tw j" using others_okD(1) [OF w(3), of j] by (simp add: not_active_def)
    then show "length (seg_bytes crc (L j)) \<le> tw_disk ?tw j" using dm [of j] by (rule order_trans)
  next
    fix s
    assume "s \<in> set (tw_sealed ?tw)"
    then show "fst s < tw_next_segment ?tw" "not_active ?tw (fst s)" "\<And>x. x \<in> set (L (fst s)) \<Longrightarrow> frame_seq x \<le> snd s"
      using others_okD(2) [OF w(3), of s] by (simp_all add: not_active_def)
  qed
  moreover have "entries_ok crc L ?tw"
    unfolding entries_ok_def
  proof (intro conjI ballI)
    fix v
    assume "v \<in> set (tw_waiting ?tw)"
    then have v: "fst (snd v) < tw_next_segment tw"
      "sy_failed (tw_syncs tw (fst (snd v))) \<noteq> None \<or> fst v \<le> tw_trunc tw \<or> entry_in crc L tw v"
      using entries_okD(1) [OF w(4), of v] by simp_all
    then show "fst (snd v) < tw_next_segment ?tw"
      "sy_failed (tw_syncs ?tw (fst (snd v))) \<noteq> None \<or> fst v \<le> tw_trunc ?tw \<or> entry_in crc L ?tw v"
      using fl sy by (auto simp: entry_in_def)
  next
    fix v
    assume "v \<in> set (tw_acked ?tw)"
    then have v: "fst (snd v) < tw_next_segment tw" "fst v \<le> tw_trunc tw \<or>
       entry_in crc L tw v \<and> snd (snd v) \<le> tw_disk tw (fst (snd v)) \<and>
       (\<not> not_active tw (fst (snd v)) \<longrightarrow> snd (snd v) \<le> sy_synced_len (tw_syncs tw (fst (snd v))))"
      using entries_okD(2) [OF w(4), of v] by simp_all
    show "fst (snd v) < tw_next_segment ?tw" using v(1) by simp
    show "fst v \<le> tw_trunc ?tw \<or>
       entry_in crc L ?tw v \<and> snd (snd v) \<le> tw_disk ?tw (fst (snd v)) \<and>
       (\<not> not_active ?tw (fst (snd v)) \<longrightarrow> snd (snd v) \<le> sy_synced_len (tw_syncs ?tw (fst (snd v))))"
      using v(2) d sl sy by (auto simp: entry_in_def not_active_def)
  qed
  ultimately show ?thesis using w(5,6) by (simp add: wal_inv_def)
qed

lemma lead_inv:
  assumes inv: "wal_inv crc unipc S L tw" and st: "lead i tw = Some tw'"
  shows "wal_inv crc unipc S L tw'"
proof -
  let ?sy = "tw_syncs tw i"
  let ?sy' = "?sy\<lparr>sy_syncing := Some (sy_written_len ?sy, sy_written_seq ?sy)\<rparr>"
  have tw': "tw' = tw\<lparr>tw_syncs := (tw_syncs tw)(i := ?sy'), tw_disk := (tw_disk tw)(i := tw_disk tw i)\<rparr>"
    using st by (auto simp: lead_def Let_def set_sync_def split: if_splits)
  show ?thesis unfolding tw'
  proof (rule inv_sync [OF inv refl])
    assume "\<not> not_active tw i"
    then obtain a where a: "tw_active tw = Some a" "i = as_id a" by (auto simp: not_active_def)
    note ao = active_okD [OF wal_invD(2) [OF inv] a refl]
    have "boundary crc (L i) (sy_written_len ?sy) (sy_written_seq ?sy)"
    proof (cases "L i = []")
      case True
      then show ?thesis using ao(6) by simp
    next
      case False
      then show ?thesis using boundary_end [OF False, of crc] ao(6,7) by simp
    qed
    then show "sy_written_len ?sy' = sy_written_len ?sy \<and> sy_written_seq ?sy' = sy_written_seq ?sy \<and>
       sy_synced_seq ?sy' < tw_next_seq tw \<and> \<not> sy_cleaned ?sy' \<and> sy_synced_len ?sy' \<le> tw_disk tw i \<and>
       boundary crc (L i) (sy_synced_len ?sy') (sy_synced_seq ?sy') \<and>
       (\<forall>tl ts. sy_syncing ?sy' = Some (tl, ts) \<longrightarrow> boundary crc (L i) tl ts \<and> ts < tw_next_seq tw)"
      using ao(8-12) by simp
  qed simp_all
qed

lemma sync_done_inv:
  assumes inv: "wal_inv crc unipc S L tw" and st: "sync_done i ok tw = Some tw'"
  shows "wal_inv crc unipc S L tw'"
proof -
  let ?sy = "tw_syncs tw i"
  obtain tl ts where s: "sy_syncing ?sy = Some (tl, ts)" using st by (auto simp: sync_done_def Let_def split: option.splits)
  let ?fl = "?sy\<lparr>sy_syncing := None, sy_failed := Some ''fsync failed''\<rparr>"
  let ?adv = "?sy\<lparr>sy_syncing := None, sy_synced_len := max (sy_synced_len ?sy) tl, sy_synced_seq := max (sy_synced_seq ?sy) ts\<rparr>"
  let ?ok = "if sy_failed ?sy = None \<and> \<not> sy_cleaned ?sy then ?adv else ?sy\<lparr>sy_syncing := None\<rparr>"
  let ?d = "max (tw_disk tw i) tl"
  have act: "boundary crc (L i) tl ts" "ts < tw_next_seq tw" "boundary crc (L i) (sy_synced_len ?sy) (sy_synced_seq ?sy)"
    "sy_synced_seq ?sy < tw_next_seq tw" "sy_synced_len ?sy \<le> tw_disk tw i" "\<not> sy_cleaned ?sy"
    if na: "\<not> not_active tw i"
  proof -
    obtain a where a: "tw_active tw = Some a" "i = as_id a" using na by (auto simp: not_active_def)
    note ao = active_okD [OF wal_invD(2) [OF inv] a refl]
    show "boundary crc (L i) tl ts" "ts < tw_next_seq tw" using ao(13) [OF s] by simp_all
    show "boundary crc (L i) (sy_synced_len ?sy) (sy_synced_seq ?sy)" "sy_synced_seq ?sy < tw_next_seq tw"
      "sy_synced_len ?sy \<le> tw_disk tw i" "\<not> sy_cleaned ?sy" using ao(9-12) by simp_all
  qed
  show ?thesis
  proof (cases ok)
    case True
    have tw': "tw' = tw\<lparr>tw_syncs := (tw_syncs tw)(i := ?ok), tw_disk := (tw_disk tw)(i := ?d)\<rparr>"
      using st s True by (simp add: sync_done_def set_sync_def)
    show ?thesis unfolding tw'
    proof (rule inv_sync [OF inv refl])
      assume na: "\<not> not_active tw i"
      have "boundary crc (L i) (max (sy_synced_len ?sy) tl) (max (sy_synced_seq ?sy) ts)"
        using boundary_max [OF act(3,1) [OF na]] logs_okD(4) [OF wal_invD(1) [OF inv]] by blast
      then show "sy_written_len ?ok = sy_written_len ?sy \<and> sy_written_seq ?ok = sy_written_seq ?sy \<and>
         sy_synced_seq ?ok < tw_next_seq tw \<and> \<not> sy_cleaned ?ok \<and> sy_synced_len ?ok \<le> ?d \<and>
         boundary crc (L i) (sy_synced_len ?ok) (sy_synced_seq ?ok) \<and>
         (\<forall>tl ts. sy_syncing ?ok = Some (tl, ts) \<longrightarrow> boundary crc (L i) tl ts \<and> ts < tw_next_seq tw)"
        using act [OF na] max.mono [OF act(5) [OF na] order_refl [of tl]] max.coboundedI1 [OF act(5) [OF na], of tl]
        by (simp del: max.bounded_iff)
    qed simp_all
  next
    case False
    have tw': "tw' = tw\<lparr>tw_syncs := (tw_syncs tw)(i := ?fl), tw_disk := (tw_disk tw)(i := tw_disk tw i)\<rparr>"
      using st s False by (auto simp: sync_done_def set_sync_def)
    show ?thesis unfolding tw'
      by (rule inv_sync [OF inv refl]) (use act in simp_all)
  qed
qed

lemma wait_ok_inv:
  assumes inv: "wal_inv crc unipc S L tw" and w: "w \<in> set (tw_waiting tw)"
    and ok: "wait_verdict (tw_syncs tw (fst (snd w))) (snd (snd w)) = Some (Inr ())"
  shows "wal_inv crc unipc S L (tw\<lparr>tw_waiting := remove1 w (tw_waiting tw), tw_acked := tw_acked tw @ [w]\<rparr>)"
proof -
  let ?i = "fst (snd w)" and ?e = "snd (snd w)"
  note v = wal_invD [OF inv]
  have s: "sy_failed (tw_syncs tw ?i) = None" "?e \<le> sy_synced_len (tw_syncs tw ?i)"
    using ok by (auto simp: wait_verdict_def split: option.splits if_splits)
  have en: "?i < tw_next_segment tw" "fst w \<le> tw_trunc tw \<or> entry_in crc L tw w"
    using entries_okD(1) [OF v(4) w] s(1) by auto
  have dk: "?e \<le> tw_disk tw ?i" if e: "entry_in crc L tw w"
  proof (cases "not_active tw ?i")
    case True
    have "tw_files tw ?i \<noteq> None" using e unfolding entry_in_def by blast
    then show ?thesis using others_okD(1) [OF v(3) _ True] entry_in_end [OF e] by linarith
  next
    case False
    then obtain a where a: "tw_active tw = Some a" "?i = as_id a" by (auto simp: not_active_def)
    show ?thesis using active_okD(11) [OF v(2) a refl] s(2) by simp
  qed
  have "entries_ok crc L (tw\<lparr>tw_waiting := remove1 w (tw_waiting tw), tw_acked := tw_acked tw @ [w]\<rparr>)"
    unfolding entries_ok_def
  proof (intro conjI ballI)
    fix u
    assume "u \<in> set (tw_waiting (tw\<lparr>tw_waiting := remove1 w (tw_waiting tw), tw_acked := tw_acked tw @ [w]\<rparr>))"
    then have "u \<in> set (tw_waiting tw)" using notin_set_remove1 by fastforce
    from entries_okD(1) [OF v(4) this]
    show "fst (snd u) < tw_next_segment (tw\<lparr>tw_waiting := remove1 w (tw_waiting tw), tw_acked := tw_acked tw @ [w]\<rparr>)"
      "sy_failed (tw_syncs (tw\<lparr>tw_waiting := remove1 w (tw_waiting tw), tw_acked := tw_acked tw @ [w]\<rparr>) (fst (snd u))) \<noteq> None \<or>
       fst u \<le> tw_trunc (tw\<lparr>tw_waiting := remove1 w (tw_waiting tw), tw_acked := tw_acked tw @ [w]\<rparr>) \<or>
       entry_in crc L (tw\<lparr>tw_waiting := remove1 w (tw_waiting tw), tw_acked := tw_acked tw @ [w]\<rparr>) u"
      by (simp_all add: entry_in_def)
  next
    fix u
    let ?t = "tw\<lparr>tw_waiting := remove1 w (tw_waiting tw), tw_acked := tw_acked tw @ [w]\<rparr>"
    assume "u \<in> set (tw_acked ?t)"
    then have u: "u \<in> set (tw_acked tw) \<or> u = w" by auto
    show "fst (snd u) < tw_next_segment ?t" using u entries_okD(2) [OF v(4), of u] en(1) by auto
    show "fst u \<le> tw_trunc ?t \<or> entry_in crc L ?t u \<and> snd (snd u) \<le> tw_disk ?t (fst (snd u)) \<and>
       (\<not> not_active ?t (fst (snd u)) \<longrightarrow> snd (snd u) \<le> sy_synced_len (tw_syncs ?t (fst (snd u))))"
      using u
    proof
      assume "u \<in> set (tw_acked tw)"
      from entries_okD(2) [OF v(4) this] show ?thesis by (simp add: entry_in_def not_active_def)
    next
      assume "u = w"
      then show ?thesis using en(2) dk s(2) by (auto simp: entry_in_def not_active_def)
    qed
  qed
  then show ?thesis using v by (simp add: wal_inv_def logs_ok_def active_ok_def others_ok_def not_active_def)
qed

end
