(* ===== verification/TailCrash.thy ===== *)
theory TailCrash
  imports TailDurable
begin

text \<open>
  The steps of a table's tail keep the invariant of the durability proof, as long as rollbacks and
  covered deletes succeed (\<open>tidy\<close>), and a crash of any reachable state loses no acknowledged append.
\<close>

section \<open>Staging\<close>

lemma entry_in_files:
  "entry_in crc L tw w \<Longrightarrow> tw_files tw' (fst (snd w)) \<noteq> None \<Longrightarrow> entry_in crc L tw' w"
  unfolding entry_in_def by blast

lemma entry_in_upd:
  assumes "entry_in crc L tw w" "tw_files tw' (fst (snd w)) \<noteq> None"
    and "fst (snd w) = i \<Longrightarrow> prefix (take n (L i)) l \<and> snd (snd w) \<le> length (seg_bytes crc (take n (L i)))" "n \<le> length (L i)"
  shows "entry_in crc (L(i := l)) tw' w"
proof (cases "fst (snd w) = i")
  case True
  obtain k where k: "k < length (L i)" "snd (snd w) = length (seg_bytes crc (take (Suc k) (L i)))" "frame_seq (L i ! k) = fst w"
    using assms(1) True unfolding entry_in_def by blast
  have "Suc k \<le> n" using assms(3) [OF True] k seg_bytes_take_le_iff [of "Suc k" "L i" n crc] assms(4) by simp
  obtain m where l: "l = take n (L i) @ m" using assms(3) [OF True] by (auto simp: prefix_def)
  have "take (Suc k) l = take (Suc k) (L i)" "l ! k = L i ! k" "k < length l"
    using \<open>Suc k \<le> n\<close> assms(4) by (auto simp: l nth_append min_def)
  then show ?thesis using k True assms(2) unfolding entry_in_def by (intro conjI exI [of _ k]) auto
next
  case False
  then show ?thesis using assms(1,2) unfolding entry_in_def by auto
qed

lemma seg_bytes_take_total: "length (seg_bytes crc (take n l)) \<le> length (seg_bytes crc l)"
  using seg_bytes_take_mono [of n "max n (length l)" crc l] by simp

text \<open>Waiting and acknowledged appends follow a change of the files that keeps their frames.\<close>

lemma entries_transfer:
  assumes "entries_ok crc L tw" "set (tw_waiting t) \<subseteq> set (tw_waiting tw)" "set (tw_acked t) \<subseteq> set (tw_acked tw)"
    and "tw_next_segment tw \<le> tw_next_segment t" "tw_trunc tw \<le> tw_trunc t"
    and "\<And>v. v \<in> set (tw_waiting tw) \<Longrightarrow> sy_failed (tw_syncs tw (fst (snd v))) \<noteq> None \<Longrightarrow> sy_failed (tw_syncs t (fst (snd v))) \<noteq> None"
    and "\<And>v. v \<in> set (tw_waiting tw) \<Longrightarrow> entry_in crc L tw v \<Longrightarrow>
      sy_failed (tw_syncs t (fst (snd v))) \<noteq> None \<or> fst v \<le> tw_trunc t \<or> entry_in crc L' t v"
    and "\<And>v. v \<in> set (tw_acked tw) \<Longrightarrow> entry_in crc L tw v \<Longrightarrow> snd (snd v) \<le> tw_disk tw (fst (snd v)) \<Longrightarrow>
      (\<not> not_active tw (fst (snd v)) \<Longrightarrow> snd (snd v) \<le> sy_synced_len (tw_syncs tw (fst (snd v)))) \<Longrightarrow>
      fst v \<le> tw_trunc t \<or> entry_in crc L' t v \<and> snd (snd v) \<le> tw_disk t (fst (snd v)) \<and>
      (\<not> not_active t (fst (snd v)) \<longrightarrow> snd (snd v) \<le> sy_synced_len (tw_syncs t (fst (snd v))))"
  shows "entries_ok crc L' t"
  unfolding entries_ok_def
proof (intro conjI ballI)
  fix v
  assume "v \<in> set (tw_waiting t)"
  then have v: "v \<in> set (tw_waiting tw)" using assms(2) by blast
  note e = entries_okD(1) [OF assms(1) v]
  show "fst (snd v) < tw_next_segment t" using e assms(4) by linarith
  show "sy_failed (tw_syncs t (fst (snd v))) \<noteq> None \<or> fst v \<le> tw_trunc t \<or> entry_in crc L' t v"
    using e assms(5) assms(6,7) [OF v] by (meson order_trans)
next
  fix v
  assume "v \<in> set (tw_acked t)"
  then have v: "v \<in> set (tw_acked tw)" using assms(3) by blast
  note e = entries_okD(2) [OF assms(1) v]
  show "fst (snd v) < tw_next_segment t" using e assms(4) by linarith
  show "fst v \<le> tw_trunc t \<or> entry_in crc L' t v \<and> snd (snd v) \<le> tw_disk t (fst (snd v)) \<and>
      (\<not> not_active t (fst (snd v)) \<longrightarrow> snd (snd v) \<le> sy_synced_len (tw_syncs t (fst (snd v))))"
    using e assms(5) assms(8) [OF v] by (meson order_trans)
qed

text \<open>A new, empty file with the next number, before and after it becomes the active segment.\<close>

lemma created_inv:
  assumes inv: "wal_inv crc unipc S L tw" and na: "tw_active tw = None" and i: "i = tw_next_segment tw" and fresh: "tw_files tw i = None"
  shows "wal_inv crc unipc S (L(i := [])) (tw\<lparr>tw_files := (tw_files tw)(i \<mapsto> []), tw_disk := (tw_disk tw)(i := 0)\<rparr>)"
    "wal_inv crc unipc S (L(i := [])) (tw\<lparr>tw_files := (tw_files tw)(i \<mapsto> []), tw_disk := (tw_disk tw)(i := 0),
       tw_next_segment := i + 1, tw_active := Some \<lparr>as_id = i, as_max_seq = 0, as_good_len = 0\<rparr>,
       tw_syncs := (tw_syncs tw)(i := seg_sync_new (tw_next_seq tw - 1))\<rparr>)"
proof -
  let ?L = "L(i := [])"
  note w = wal_invD [OF inv]
  note lo = logs_okD [OF w(1)]
  have up: "j \<le> i" if "tw_files tw j \<noteq> None" for j using lo(2) [of j] that i by auto
  have ei: "entry_in crc ?L t v" if "entry_in crc L tw v" "fst (snd v) < i" "tw_files t (fst (snd v)) \<noteq> None" for v t
    using that unfolding entry_in_def by auto
  have fn: "tw_files tw (fst (snd v)) \<noteq> None" if "entry_in crc L tw v" for v using that unfolding entry_in_def by blast
  let ?t1 = "tw\<lparr>tw_files := (tw_files tw)(i \<mapsto> []), tw_disk := (tw_disk tw)(i := 0)\<rparr>"
  let ?t2 = "?t1\<lparr>tw_next_segment := i + 1, tw_active := Some \<lparr>as_id = i, as_max_seq = 0, as_good_len = 0\<rparr>,
       tw_syncs := (tw_syncs tw)(i := seg_sync_new (tw_next_seq tw - 1))\<rparr>"
  have lg: "logs_ok crc unipc S ?L t" if t: "tw_next_seq t = tw_next_seq tw" "tw_files t = (tw_files tw)(i \<mapsto> [])"
    "i \<le> tw_next_segment t" "tw_next_segment t = i \<Longrightarrow> tw_active t = None" for t
  proof (rule logs_okI)
    show "1 \<le> tw_next_seq t" using lo(1) t by simp
    show "\<And>j d. tw_files t j = Some d \<Longrightarrow> d = seg_bytes crc (?L j) \<and> j \<le> tw_next_segment t"
      using lo(2) t i by (fastforce split: if_splits)
    show "\<And>j x. x \<in> set (?L j) \<Longrightarrow> snd x \<in> S \<and> 1 \<le> frame_seq x \<and> frame_seq x < tw_next_seq t \<and>
       (frame_seq x < 2 ^ 64 \<longrightarrow> stored unipc (fst x) (snd x))" using lo(3) t by (auto split: if_splits)
    show "\<And>j. sorted_wrt (<) (map frame_seq (?L j))" using lo(4) by simp
    show "\<And>j k x y. j < k \<Longrightarrow> tw_files t j \<noteq> None \<Longrightarrow> tw_files t k \<noteq> None \<Longrightarrow> x \<in> set (?L j) \<Longrightarrow> y \<in> set (?L k) \<Longrightarrow>
       frame_seq x < frame_seq y" using lo(5) t by (auto split: if_splits)
    show "?L (tw_next_segment t) = [] \<and> tw_active t = None" if "tw_files t (tw_next_segment t) \<noteq> None"
    proof -
      have "tw_next_segment t = i"
        using that t up [of "tw_next_segment t"] by (cases "tw_next_segment t = i") auto
      then show ?thesis using t(4) by simp
    qed
  qed
  have en: "entries_ok crc ?L t" if t: "tw_waiting t = tw_waiting tw" "tw_acked t = tw_acked tw" "tw_files t = (tw_files tw)(i \<mapsto> [])"
    "i \<le> tw_next_segment t" "tw_trunc t = tw_trunc tw" "\<And>j. j < i \<Longrightarrow> tw_syncs t j = tw_syncs tw j"
    "\<And>j. j < i \<Longrightarrow> tw_disk t j = tw_disk tw j" "\<And>j. j < i \<Longrightarrow> not_active t j" for t
    unfolding entries_ok_def
  proof (intro conjI ballI)
    fix v
    assume "v \<in> set (tw_waiting t)"
    then have v: "fst (snd v) < i" "sy_failed (tw_syncs tw (fst (snd v))) \<noteq> None \<or> fst v \<le> tw_trunc tw \<or> entry_in crc L tw v"
      using entries_okD(1) [OF w(4), of v] t(1) i by simp_all
    show "fst (snd v) < tw_next_segment t" using v(1) t(4) by simp
    show "sy_failed (tw_syncs t (fst (snd v))) \<noteq> None \<or> fst v \<le> tw_trunc t \<or> entry_in crc ?L t v"
      using v t(5,6) ei [of v t] fn [of v] t(3) by auto
  next
    fix v
    assume "v \<in> set (tw_acked t)"
    then have v: "fst (snd v) < i" "fst v \<le> tw_trunc tw \<or> entry_in crc L tw v \<and> snd (snd v) \<le> tw_disk tw (fst (snd v))"
      using entries_okD(2) [OF w(4), of v] t(2) i by auto
    show "fst (snd v) < tw_next_segment t" using v(1) t(4) by simp
    show "fst v \<le> tw_trunc t \<or> entry_in crc ?L t v \<and> snd (snd v) \<le> tw_disk t (fst (snd v)) \<and>
      (\<not> not_active t (fst (snd v)) \<longrightarrow> snd (snd v) \<le> sy_synced_len (tw_syncs t (fst (snd v))))"
      using v t(5,7,8) ei [of v t] fn [of v] t(3) by auto
  qed
  have ot: "others_ok crc ?L t" if t: "tw_files t = (tw_files tw)(i \<mapsto> [])" "i \<le> tw_next_segment t" "tw_sealed t = tw_sealed tw"
    "\<And>j. j \<noteq> i \<Longrightarrow> tw_disk t j = tw_disk tw j" "\<And>j. j < i \<Longrightarrow> not_active t j" for t
    unfolding others_ok_def
  proof (intro conjI allI impI ballI)
    fix j
    assume "tw_files t j \<noteq> None" "not_active t j"
    then show "length (seg_bytes crc (?L j)) \<le> tw_disk t j"
      using others_okD(1) [OF w(3), of j] t na by (cases "j = i") (auto simp: not_active_def)
  next
    fix s
    assume "s \<in> set (tw_sealed t)"
    then have s: "fst s < i" "\<forall>x\<in>set (L (fst s)). frame_seq x \<le> snd s" using others_okD(2) [OF w(3), of s] t(3) i by auto
    then show "fst s < tw_next_segment t" "not_active t (fst s)" "\<And>x. x \<in> set (?L (fst s)) \<Longrightarrow> frame_seq x \<le> snd s"
      using t(2,5) by auto
  qed
  have a1: "active_ok crc ?L ?t1" using na by (simp add: active_ok_def)
  have a2: "active_ok crc ?L ?t2"
    using lo(1) up by (auto simp: active_ok_def seg_sync_new_def last_seq_def)
  show "wal_inv crc unipc S ?L ?t1"
    unfolding wal_inv_def using lg [of ?t1] a1 ot [of ?t1] en [of ?t1] w(5,6) na i by (simp add: not_active_def)
  show "wal_inv crc unipc S ?L ?t2"
    unfolding wal_inv_def using lg [of ?t2] a2 ot [of ?t2] en [of ?t2] w(5,6) i by (simp add: not_active_def)
qed


lemma ensure_active_inv:
  assumes "wal_inv crc unipc S L tw" "ensure_active io tw = (r, tw')"
  shows "\<exists>L'. wal_inv crc unipc S L' tw' \<and> (r = Inr () \<longrightarrow> tw_active tw' \<noteq> None) \<and> tw_next_seq tw' = tw_next_seq tw"
proof (cases "tw_active tw")
  case (Some a)
  then show ?thesis using assms by (auto simp: ensure_active_def)
next
  case None
  show ?thesis
  proof (cases "\<not> ai_create io \<or> tw_files tw (tw_next_segment tw) \<noteq> None")
    case True
    then show ?thesis using None assms by (auto simp: ensure_active_def Let_def)
  next
    case False
    then have f: "tw_files tw (tw_next_segment tw) = None" by simp
    note c = created_inv [OF assms(1) None refl f]
    show ?thesis
    proof (cases "ai_sync_dir io")
      case True
      then have "r = Inr ()" and tw': "tw' = tw\<lparr>tw_files := (tw_files tw)(tw_next_segment tw \<mapsto> []),
          tw_disk := (tw_disk tw)(tw_next_segment tw := 0), tw_next_segment := tw_next_segment tw + 1,
          tw_active := Some \<lparr>as_id = tw_next_segment tw, as_max_seq = 0, as_good_len = 0\<rparr>,
          tw_syncs := (tw_syncs tw)(tw_next_segment tw := seg_sync_new (tw_next_seq tw - 1))\<rparr>"
        using None False assms(2) by (auto simp: ensure_active_def Let_def)
      show ?thesis by (rule exI [of _ "L(tw_next_segment tw := [])"]) (use c(2) tw' in simp)
    next
      case sd: False
      then have "r = Inl ''cannot sync tail dir''" and tw': "tw' = tw\<lparr>tw_files := (tw_files tw)(tw_next_segment tw \<mapsto> []),
          tw_disk := (tw_disk tw)(tw_next_segment tw := 0)\<rparr>"
        using None False assms(2) by (auto simp: ensure_active_def Let_def)
      then show ?thesis using c(1) by (intro exI [of _ "L(tw_next_segment tw := [])"]) simp
    qed
  qed
qed

text \<open>A failed write that was rolled back: the file is as before, and synced by the rollback.\<close>

lemma rolled_back_inv:
  assumes inv: "wal_inv crc unipc S L tw" and a: "tw_active tw = Some a" "i = as_id a"
  shows "wal_inv crc unipc S L (tw\<lparr>tw_files := (tw_files tw)(i \<mapsto> seg_bytes crc (L i)), tw_disk := (tw_disk tw)(i := as_good_len a)\<rparr>)"
proof -
  let ?t = "tw\<lparr>tw_files := (tw_files tw)(i \<mapsto> seg_bytes crc (L i)), tw_disk := (tw_disk tw)(i := as_good_len a)\<rparr>"
  note w = wal_invD [OF inv]
  note ao = active_okD [OF w(2) a refl]
  have "(tw_files tw)(i \<mapsto> seg_bytes crc (L i)) = tw_files tw"
    using logs_okD(2) [OF w(1), of i] ao(1) by (intro ext) auto
  then have t: "?t = tw\<lparr>tw_disk := (tw_disk tw)(i := as_good_len a)\<rparr>" by simp
  have g: "as_good_len a = length (seg_bytes crc (L i))" using ao(4) by simp
  have "active_ok crc L (tw\<lparr>tw_disk := (tw_disk tw)(i := as_good_len a)\<rparr>)"
    using w(2) a boundary_le [OF ao(12)] g by (auto simp: active_ok_def Let_def)
  moreover have "entries_ok crc L (tw\<lparr>tw_disk := (tw_disk tw)(i := as_good_len a)\<rparr>)"
    by (rule entries_transfer [OF w(4)]) (use g in \<open>auto simp: entry_in_def not_active_def seg_bytes_take_total\<close>)
  ultimately show ?thesis unfolding t
    using w a by (auto simp: wal_inv_def logs_ok_def others_ok_def not_active_def)
qed

text \<open>A complete write: one more frame at the end of the active segment.\<close>

lemma written_inv:
  assumes inv: "wal_inv crc unipc S L tw" and a: "tw_active tw = Some a" "i = as_id a"
    and f: "frame_seq x = tw_next_seq tw" "frame_seq x < 2 ^ 64 \<Longrightarrow> stored unipc (fst x) (snd x)"
    and g: "good = as_good_len a + length (frame crc (fst x))"
  shows "wal_inv crc unipc (insert (snd x) S) (L(i := L i @ [x]))
    ((set_sync tw i (\<lambda>s. s\<lparr>sy_written_len := good, sy_written_seq := tw_next_seq tw\<rparr>))
     \<lparr>tw_files := (tw_files tw)(i \<mapsto> seg_bytes crc (L i) @ frame crc (fst x)),
      tw_active := Some (a\<lparr>as_good_len := good, as_max_seq := tw_next_seq tw\<rparr>), tw_next_seq := tw_next_seq tw + 1,
      tw_waiting := tw_waiting tw @ [(tw_next_seq tw, i, good)]\<rparr>)"
    (is "wal_inv _ _ ?S ?L ?t")
proof -
  note w = wal_invD [OF inv]
  note ao = active_okD [OF w(2) a refl]
  note lo = logs_okD [OF w(1)]
  have g': "good = length (seg_bytes crc (L i @ [x]))" using g ao(4) by simp
  have ls: "last_seq (L i @ [x]) = tw_next_seq tw" using f(1) by (simp add: last_seq_def)
  have fl: "tw_files ?t j \<noteq> None \<longleftrightarrow> tw_files tw j \<noteq> None" for j using ao(1) by (simp add: set_sync_def)
  have nac: "not_active ?t j \<longleftrightarrow> not_active tw j" for j using a by (simp add: not_active_def set_sync_def)
  have old: "entry_in crc ?L ?t v" if e: "entry_in crc L tw v" for v
  proof (rule entry_in_upd [where n = "length (L i)", OF e])
    have "tw_files tw (fst (snd v)) \<noteq> None" using e unfolding entry_in_def by blast
    then show "tw_files ?t (fst (snd v)) \<noteq> None" using fl by blast
    assume "fst (snd v) = i"
    then show "prefix (take (length (L i)) (L i)) (L i @ [x]) \<and> snd (snd v) \<le> length (seg_bytes crc (take (length (L i)) (L i)))"
      using entry_in_end [OF e] by simp
  qed simp
  have new: "entry_in crc ?L ?t (tw_next_seq tw, i, good)"
    using g' f(1) by (auto simp: entry_in_def set_sync_def intro!: exI [of _ "length (L i)"])
  have "logs_ok crc unipc ?S ?L ?t"
  proof (rule logs_okI)
    show "1 \<le> tw_next_seq ?t" by simp
    show "\<And>j d. tw_files ?t j = Some d \<Longrightarrow> d = seg_bytes crc (?L j) \<and> j \<le> tw_next_segment ?t"
      using lo(2) ao(2) by (auto simp: set_sync_def split: if_splits)
    show "\<And>j y. y \<in> set (?L j) \<Longrightarrow> snd y \<in> ?S \<and> 1 \<le> frame_seq y \<and> frame_seq y < tw_next_seq ?t \<and>
       (frame_seq y < 2 ^ 64 \<longrightarrow> stored unipc (fst y) (snd y))"
      using lo(1,3) f by (auto simp: less_Suc_eq split: if_splits)
    show "\<And>j. sorted_wrt (<) (map frame_seq (?L j))" using lo(3,4) f(1) by (auto simp: sorted_wrt_append)
    show "\<And>j k y z. j < k \<Longrightarrow> tw_files ?t j \<noteq> None \<Longrightarrow> tw_files ?t k \<noteq> None \<Longrightarrow> y \<in> set (?L j) \<Longrightarrow> z \<in> set (?L k) \<Longrightarrow>
       frame_seq y < frame_seq z"
    proof -
      fix j k y z
      assume jk: "j < k" "tw_files ?t j \<noteq> None" "tw_files ?t k \<noteq> None" "y \<in> set (?L j)" "z \<in> set (?L k)"
      then have "k \<le> i" using ao(3) fl by blast
      then have y: "y \<in> set (L j)" using jk(1,4) by (simp split: if_splits)
      show "frame_seq y < frame_seq z"
      proof (cases "z \<in> set (L k)")
        case True
        then show ?thesis using lo(5) [OF jk(1) _ _ y] jk(2,3) fl by blast
      next
        case False
        then have "z = x" using jk(5) by (simp split: if_splits)
        then show ?thesis using lo(3) [OF y] f(1) by simp
      qed
    qed
    show "tw_files ?t (tw_next_segment ?t) \<noteq> None \<Longrightarrow> ?L (tw_next_segment ?t) = [] \<and> tw_active ?t = None"
      using lo(6) a ao(2) by (simp add: set_sync_def split: if_splits)
  qed
  moreover have "active_ok crc ?L ?t"
  proof (rule active_okI)
    fix b j sy
    assume b: "tw_active ?t = Some b" and j: "j = as_id b" and sy: "sy = tw_syncs ?t j"
    have b': "b = a\<lparr>as_good_len := good, as_max_seq := tw_next_seq tw\<rparr>" "j = i" using b j a by auto
    let ?o = "tw_syncs tw i"
    have s: "sy = ?o\<lparr>sy_written_len := good, sy_written_seq := tw_next_seq tw\<rparr>" using sy b' by (simp add: set_sync_def)
    show "tw_files ?t j \<noteq> None \<and> j < tw_next_segment ?t \<and> (\<forall>k. tw_files ?t k \<noteq> None \<longrightarrow> k \<le> j) \<and>
      as_good_len b = length (seg_bytes crc (?L j)) \<and> as_max_seq b = last_seq (?L j) \<and>
      sy_written_len sy = length (seg_bytes crc (?L j)) \<and> (?L j \<noteq> [] \<longrightarrow> sy_written_seq sy = last_seq (?L j)) \<and>
      sy_written_seq sy < tw_next_seq ?t \<and> sy_synced_seq sy < tw_next_seq ?t \<and>
      \<not> sy_cleaned sy \<and> sy_synced_len sy \<le> tw_disk ?t j \<and>
      boundary crc (?L j) (sy_synced_len sy) (sy_synced_seq sy) \<and>
      (\<forall>tl ts. sy_syncing sy = Some (tl, ts) \<longrightarrow> boundary crc (?L j) tl ts \<and> ts < tw_next_seq ?t)"
    proof (intro conjI allI impI)
      show "tw_files ?t j \<noteq> None" using b' by simp
      show "j < tw_next_segment ?t" using ao(2) b' by (simp add: set_sync_def)
      show "\<And>k. tw_files ?t k \<noteq> None \<Longrightarrow> k \<le> j" using ao(3) fl b'(2) by blast
      show "as_good_len b = length (seg_bytes crc (?L j))" "as_max_seq b = last_seq (?L j)" using b' g' ls by simp_all
      show "sy_written_len sy = length (seg_bytes crc (?L j))" "sy_written_seq sy = last_seq (?L j)" using b' g' ls s by simp_all
      show "sy_written_seq sy < tw_next_seq ?t" "sy_synced_seq sy < tw_next_seq ?t" using s ao(9) by simp_all
      show "\<not> sy_cleaned sy" "sy_synced_len sy \<le> tw_disk ?t j" using s ao(10,11) b' by (simp_all add: set_sync_def)
      show "boundary crc (?L j) (sy_synced_len sy) (sy_synced_seq sy)"
        using boundary_snoc [OF ao(12), of x] ao(9) f(1) s b' by simp
      fix tl ts
      assume "sy_syncing sy = Some (tl, ts)"
      then have "boundary crc (L i) tl ts \<and> ts < tw_next_seq tw" using ao(13) s by simp
      then show "boundary crc (?L j) tl ts" "ts < tw_next_seq ?t"
        using boundary_snoc [of crc "L i" tl ts x] f(1) b' by simp_all
    qed
  qed
  moreover have "others_ok crc ?L ?t"
    unfolding others_ok_def
  proof (intro conjI allI impI ballI)
    fix j
    assume j: "tw_files ?t j \<noteq> None" "not_active ?t j"
    then have "j \<noteq> i" using a by (auto simp: not_active_def)
    then show "length (seg_bytes crc (?L j)) \<le> tw_disk ?t j"
      using others_okD(1) [OF w(3), of j] j fl nac by (simp add: set_sync_def)
  next
    fix s
    assume "s \<in> set (tw_sealed ?t)"
    then have s: "fst s < tw_next_segment tw" "not_active tw (fst s)" "\<forall>x\<in>set (L (fst s)). frame_seq x \<le> snd s"
      using others_okD(2) [OF w(3), of s] by (auto simp: set_sync_def)
    have "fst s \<noteq> i" using s(2) a by (auto simp: not_active_def)
    then show "fst s < tw_next_segment ?t" "not_active ?t (fst s)" "\<And>x. x \<in> set (?L (fst s)) \<Longrightarrow> frame_seq x \<le> snd s"
      using s nac by (auto simp: set_sync_def)
  qed
  moreover have "entries_ok crc ?L ?t"
    unfolding entries_ok_def
  proof (intro conjI ballI)
    fix v
    assume "v \<in> set (tw_waiting ?t)"
    then have "v \<in> set (tw_waiting tw) \<or> v = (tw_next_seq tw, i, good)" by auto
    then show "fst (snd v) < tw_next_segment ?t"
      "sy_failed (tw_syncs ?t (fst (snd v))) \<noteq> None \<or> fst v \<le> tw_trunc ?t \<or> entry_in crc ?L ?t v"
      using entries_okD(1) [OF w(4), of v] ao(2) old [of v] new by (auto simp: set_sync_def)
  next
    fix v
    assume "v \<in> set (tw_acked ?t)"
    then have v: "fst (snd v) < tw_next_segment tw" "fst v \<le> tw_trunc tw \<or> entry_in crc L tw v \<and> snd (snd v) \<le> tw_disk tw (fst (snd v)) \<and>
       (\<not> not_active tw (fst (snd v)) \<longrightarrow> snd (snd v) \<le> sy_synced_len (tw_syncs tw (fst (snd v))))"
      using entries_okD(2) [OF w(4), of v] by (simp_all add: set_sync_def)
    show "fst (snd v) < tw_next_segment ?t" using v(1) by (simp add: set_sync_def)
    show "fst v \<le> tw_trunc ?t \<or> entry_in crc ?L ?t v \<and> snd (snd v) \<le> tw_disk ?t (fst (snd v)) \<and>
       (\<not> not_active ?t (fst (snd v)) \<longrightarrow> snd (snd v) \<le> sy_synced_len (tw_syncs ?t (fst (snd v))))"
      using v(2)
    proof
      assume "fst v \<le> tw_trunc tw"
      then show ?thesis by (simp add: set_sync_def)
    next
      assume "entry_in crc L tw v \<and> snd (snd v) \<le> tw_disk tw (fst (snd v)) \<and>
       (\<not> not_active tw (fst (snd v)) \<longrightarrow> snd (snd v) \<le> sy_synced_len (tw_syncs tw (fst (snd v))))"
      then show ?thesis using old [of v] nac [of "fst (snd v)"] by (auto simp: set_sync_def)
    qed
  qed
  ultimately show ?thesis using w(5,6) by (simp add: wal_inv_def set_sync_def)
qed


definition staged_op :: "staged result \<Rightarrow> 'b tail_op \<Rightarrow> (nat \<times> 'b tail_op) list" where
  "staged_op r op = (case r of Inl _ \<Rightarrow> [] | Inr w \<Rightarrow> [(fst w, op)])"

lemma roll_back_twice:
  assumes "r1 = RollOk \<or> r2 = RollOk" "tw_files tw i = Some (d @ junk)" "length d = n"
    and "roll_back_segment r1 i n tw = (ok1, tw1)"
    and "(if ok1 then (True, tw1) else roll_back_segment r2 i n tw1) = (ok2, tw2)"
  shows "ok2 \<and> tw2 = tw\<lparr>tw_files := (tw_files tw)(i \<mapsto> d), tw_disk := (tw_disk tw)(i := n)\<rparr>"
  using assms by (cases r1; cases r2) (auto simp: roll_back_segment_def)

lemma stage_inv:
  assumes ipc: "ipc_inverse ipc unipc" and inv: "wal_inv crc unipc S L tw"
    and st: "append_staged io (\<lambda>seq. encode_frame crc ipc seq kind batches) tw = (r, tw')"
    and tidy: "ai_write io \<noteq> None \<Longrightarrow> ai_roll1 io = RollOk \<or> ai_roll2 io = RollOk"
  shows "\<exists>L'. wal_inv crc unipc (S \<union> set (staged_op r (mk_op kind batches))) L' tw' \<and>
    tw_next_seq tw' = tw_next_seq tw + length (staged_op r (mk_op kind batches)) \<and>
    (\<forall>x\<in>set (staged_op r (mk_op kind batches)). fst x = tw_next_seq tw)"
proof -
  obtain r1 tw1 where e: "ensure_active io tw = (r1, tw1)" by (cases "ensure_active io tw")
  obtain L1 where L1: "wal_inv crc unipc S L1 tw1" "r1 = Inr () \<longrightarrow> tw_active tw1 \<noteq> None" "tw_next_seq tw1 = tw_next_seq tw"
    using ensure_active_inv [OF inv e] by blast
  show ?thesis
  proof (cases r1)
    case (Inl err)
    then show ?thesis using st e L1 by (auto simp: append_staged_def staged_op_def)
  next
    case (Inr u)
    then obtain a where a: "tw_active tw1 = Some a" using L1(2) by auto
    let ?i = "as_id a"
    note ao = active_okD [OF wal_invD(2) [OF L1(1)] a refl refl]
    have d: "tw_files tw1 ?i = Some (seg_bytes crc (L1 ?i))"
      using logs_okD(2) [OF wal_invD(1) [OF L1(1)], of ?i] ao(1) by auto
    note body = st [unfolded append_staged_def e Inr prod.case sum.case Let_def a option.sel d option.case]
    show ?thesis
    proof (cases "encode_frame crc ipc (tw_next_seq tw1) kind batches")
      case (Inl err)
      then have "r = Inl err" "tw' = tw1" using body by simp_all
      then show ?thesis using L1 by (auto simp: staged_op_def)
    next
      case f: (Inr fb)
      show ?thesis
      proof (cases "ai_write io")
        case None
        obtain p where p: "fb = frame crc p" "tw_next_seq tw1 < 2 ^ 64 \<Longrightarrow> stored unipc p (tw_next_seq tw1, mk_op kind batches)"
        proof (cases "tw_next_seq tw1 < 2 ^ 64")
          case True
          from encode_frame_decodes [OF ipc f True] obtain q where "fb = frame crc q" "length q \<le> U32_MAX"
            "decode_payload unipc q = Inr (tw_next_seq tw1, mk_op kind batches)" .
          then show ?thesis using that [of q] by (simp add: stored_def)
        next
          case False
          then show ?thesis using that f by (auto simp: encode_frame_def rbind_Inr_conv frame_bytes_Inr)
        qed
        let ?x = "(p, tw_next_seq tw1, mk_op kind batches)"
        have "r = Inr (tw_next_seq tw1, ?i, as_good_len a + length fb)"
          and t': "tw' = (set_sync tw1 ?i (\<lambda>s. s\<lparr>sy_written_len := as_good_len a + length fb, sy_written_seq := tw_next_seq tw1\<rparr>))
           \<lparr>tw_files := (tw_files tw1)(?i \<mapsto> seg_bytes crc (L1 ?i) @ frame crc (fst ?x)),
            tw_active := Some (a\<lparr>as_good_len := as_good_len a + length fb, as_max_seq := tw_next_seq tw1\<rparr>),
            tw_next_seq := tw_next_seq tw1 + 1, tw_waiting := tw_waiting tw1 @ [(tw_next_seq tw1, ?i, as_good_len a + length fb)]\<rparr>"
          using body f None p(1) by simp_all
        moreover have "wal_inv crc unipc (insert (snd ?x) S) (L1(?i := L1 ?i @ [?x])) tw'"
          unfolding t' by (rule written_inv [OF L1(1) a refl]) (use p in \<open>simp_all add: frame_seq_def\<close>)
        ultimately show ?thesis using L1(3) by (auto simp: staged_op_def set_sync_def)
      next
        case (Some k)
        let ?t2 = "tw1\<lparr>tw_files := (tw_files tw1)(?i \<mapsto> seg_bytes crc (L1 ?i) @ take k fb)\<rparr>"
        obtain ok1 t3 where t3: "roll_back_segment (ai_roll1 io) ?i (as_good_len a) ?t2 = (ok1, t3)"
          by (cases "roll_back_segment (ai_roll1 io) ?i (as_good_len a) ?t2")
        obtain ok2 t4 where t4: "(if ok1 then (True, t3) else roll_back_segment (ai_roll2 io) ?i (as_good_len a) t3) = (ok2, t4)"
          by (cases "if ok1 then (True, t3) else roll_back_segment (ai_roll2 io) ?i (as_good_len a) t3")
        have "ok2 \<and> t4 = ?t2\<lparr>tw_files := (tw_files ?t2)(?i \<mapsto> seg_bytes crc (L1 ?i)), tw_disk := (tw_disk ?t2)(?i := as_good_len a)\<rparr>"
          by (rule roll_back_twice [OF tidy _ _ t3 t4]) (use Some ao(4) in simp_all)
        then have "r = Inl ''tail append failed''"
          "tw' = tw1\<lparr>tw_files := (tw_files tw1)(?i \<mapsto> seg_bytes crc (L1 ?i)), tw_disk := (tw_disk tw1)(?i := as_good_len a)\<rparr>"
          using body f Some t3 t4 by (simp_all del: fun_upd_apply)
        then show ?thesis using rolled_back_inv [OF L1(1) a refl] L1(3) by (auto simp: staged_op_def)
      qed
    qed
  qed
qed

section \<open>Failure cleanup, rotation and truncation\<close>

lemma sealed_inv:
  assumes inv: "wal_inv crc unipc S L tw" and a: "tw_active tw = Some a" "i = as_id a" and n: "n \<le> length (L i)"
    and len: "len = length (seg_bytes crc (take n (L i)))" and sl: "sy_synced_len (tw_syncs tw i) \<le> len"
    and m: "\<And>x. x \<in> set (take n (L i)) \<Longrightarrow> frame_seq x \<le> m"
    and t: "tw_next_seq t = tw_next_seq tw" "tw_next_segment t = tw_next_segment tw" "tw_active t = None"
      "tw_files t = (tw_files tw)(i \<mapsto> seg_bytes crc (take n (L i)))" "len \<le> tw_disk t i"
      "\<And>j. j \<noteq> i \<Longrightarrow> tw_disk t j = tw_disk tw j" "set (tw_sealed t) \<subseteq> insert (i, m) (set (tw_sealed tw))" "set (tw_waiting t) \<subseteq> set (tw_waiting tw)" "tw_acked t = tw_acked tw"
      "tw_trunc t = tw_trunc tw" "tw_poisoned t = None" "tw_marks t = Map.empty"
      "\<And>j. sy_failed (tw_syncs tw j) \<noteq> None \<Longrightarrow> sy_failed (tw_syncs t j) \<noteq> None"
      "n = length (L i) \<or> sy_failed (tw_syncs t i) \<noteq> None"
  shows "wal_inv crc unipc S (L(i := take n (L i))) t"
proof -
  let ?L = "L(i := take n (L i))"
  note w = wal_invD [OF inv]
  note ao = active_okD [OF w(2) a refl]
  note lo = logs_okD [OF w(1)]
  have fl: "tw_files t j \<noteq> None \<longleftrightarrow> tw_files tw j \<noteq> None" for j using ao(1) t(4) by simp
  have sub: "set (?L j) \<subseteq> set (L j)" for j by (simp add: set_take_subset)
  have na: "not_active tw j" if "j \<noteq> i" for j using that a by (simp add: not_active_def)
  have keep: "entry_in crc ?L t v" if e: "entry_in crc L tw v" and le: "fst (snd v) = i \<Longrightarrow> snd (snd v) \<le> len" for v
  proof (rule entry_in_upd [OF e _ _ n])
    have "tw_files tw (fst (snd v)) \<noteq> None" using e unfolding entry_in_def by blast
    then show "tw_files t (fst (snd v)) \<noteq> None" using fl by blast
  qed (use le len in auto)
  have "logs_ok crc unipc S ?L t"
  proof (rule logs_okI)
    show "1 \<le> tw_next_seq t" using lo(1) t(1) by simp
    show "\<And>j d. tw_files t j = Some d \<Longrightarrow> d = seg_bytes crc (?L j) \<and> j \<le> tw_next_segment t"
      using lo(2) ao(2) t(2,4) by (auto split: if_splits)
    show "snd x \<in> S \<and> 1 \<le> frame_seq x \<and> frame_seq x < tw_next_seq t \<and>
       (frame_seq x < 2 ^ 64 \<longrightarrow> stored unipc (fst x) (snd x))" if "x \<in> set (?L j)" for j x
      using lo(3) [OF subsetD [OF sub that]] t(1) by simp
    show "\<And>j. sorted_wrt (<) (map frame_seq (?L j))" using lo(4) by (simp add: take_map [symmetric] sorted_wrt_take)
    show "frame_seq x < frame_seq y" if "j < k" "tw_files t j \<noteq> None" "tw_files t k \<noteq> None" "x \<in> set (?L j)" "y \<in> set (?L k)" for j k x y
      using lo(5) [OF that(1) _ _ subsetD [OF sub that(4)] subsetD [OF sub that(5)]] that(2,3) fl by blast
    show "tw_files t (tw_next_segment t) \<noteq> None \<Longrightarrow> ?L (tw_next_segment t) = [] \<and> tw_active t = None"
      using lo(6) fl t(2) a by auto
  qed
  moreover have "active_ok crc ?L t" using t(3) by (simp add: active_ok_def)
  moreover have "others_ok crc ?L t"
    unfolding others_ok_def
  proof (intro conjI allI impI ballI)
    fix j
    assume "tw_files t j \<noteq> None"
    then show "length (seg_bytes crc (?L j)) \<le> tw_disk t j"
      using others_okD(1) [OF w(3), of j] fl [of j] na [of j] t(5,6) len by (cases "j = i") auto
  next
    fix s
    assume "s \<in> set (tw_sealed t)"
    then have s: "s \<in> set (tw_sealed tw) \<or> s = (i, m)" using t(7) by auto
    then show "fst s < tw_next_segment t" "not_active t (fst s)" using others_okD(2) [OF w(3), of s] ao(2) t(2,3) by (auto simp: not_active_def)
    fix x
    assume x: "x \<in> set (?L (fst s))"
    from s show "frame_seq x \<le> snd s"
    proof
      assume "s \<in> set (tw_sealed tw)"
      then show ?thesis using others_okD(2) [OF w(3), of s] x sub by blast
    qed (use x m in auto)
  qed
  moreover have "entries_ok crc ?L t"
  proof (rule entries_transfer [OF w(4) t(8)])
    fix v
    assume "entry_in crc L tw v"
    then show "sy_failed (tw_syncs t (fst (snd v))) \<noteq> None \<or> fst v \<le> tw_trunc t \<or> entry_in crc ?L t v"
      using keep [of v] t(14) entry_in_end [of crc L tw v] len by (cases "fst (snd v) = i") auto
  next
    fix v
    assume v: "entry_in crc L tw v" "snd (snd v) \<le> tw_disk tw (fst (snd v))"
      "\<not> not_active tw (fst (snd v)) \<Longrightarrow> snd (snd v) \<le> sy_synced_len (tw_syncs tw (fst (snd v)))"
    have l: "snd (snd v) \<le> len" if "fst (snd v) = i" using v(3) that a sl by (auto simp: not_active_def)
    show "fst v \<le> tw_trunc t \<or> entry_in crc ?L t v \<and> snd (snd v) \<le> tw_disk t (fst (snd v)) \<and>
      (\<not> not_active t (fst (snd v)) \<longrightarrow> snd (snd v) \<le> sy_synced_len (tw_syncs t (fst (snd v))))"
      using keep [OF v(1) l] l v(2) t(3,5,6) by (cases "fst (snd v) = i") (auto simp: not_active_def)
  qed (use t in simp_all)
  ultimately show ?thesis using t(11,12) by (simp add: wal_inv_def)
qed


text \<open>A file whose frames are all covered by a truncation goes away.\<close>

lemma dropped_inv:
  assumes inv: "wal_inv crc unipc S L tw" and i: "\<And>x. x \<in> set (L i) \<Longrightarrow> frame_seq x \<le> tw_trunc t"
    and t: "tw_next_seq t = tw_next_seq tw" "tw_next_segment t = tw_next_segment tw"
      "tw_active t = (if not_active tw i then tw_active tw else None)" "tw_files t = (tw_files tw)(i := None)"
      "tw_disk t = tw_disk tw" "tw_syncs t = tw_syncs tw" "set (tw_sealed t) \<subseteq> set (tw_sealed tw)" "tw_waiting t = tw_waiting tw"
      "tw_acked t = tw_acked tw" "tw_trunc tw \<le> tw_trunc t" "tw_poisoned t = None" "tw_marks t = Map.empty"
  shows "wal_inv crc unipc S L t"
proof -
  note w = wal_invD [OF inv]
  note lo = logs_okD [OF w(1)]
  have fl: "tw_files t j \<noteq> None \<Longrightarrow> tw_files tw j \<noteq> None \<and> j \<noteq> i" for j using t(4) by (simp split: if_splits)
  have act: "tw_active t = Some a \<Longrightarrow> tw_active tw = Some a \<and> as_id a \<noteq> i" for a
    using t(3) by (auto simp: not_active_def split: if_splits)
  have nac: "not_active tw j \<Longrightarrow> not_active t j" for j using act by (auto simp: not_active_def)
  have nac': "not_active tw j" if "j \<noteq> i" "not_active t j" for j using that t(3) by (auto simp: not_active_def split: if_splits)
  have cov: "fst v \<le> tw_trunc t \<or> entry_in crc L t v" if e: "entry_in crc L tw v" for v
  proof (cases "fst (snd v) = i")
    case True
    obtain x where "x \<in> set (L i)" "frame_seq x = fst v" using entry_in_mem [OF e] True by blast
    then show ?thesis using i [of x] by simp
  next
    case False
    then show ?thesis using that t(4) by (simp add: entry_in_def)
  qed
  have "logs_ok crc unipc S L t"
  proof (rule logs_okI)
    show "\<And>j d. tw_files t j = Some d \<Longrightarrow> d = seg_bytes crc (L j) \<and> j \<le> tw_next_segment t"
      using lo(2) t(2,4) by (auto split: if_splits)
    show "frame_seq x < frame_seq y" if "j < k" "tw_files t j \<noteq> None" "tw_files t k \<noteq> None" "x \<in> set (L j)" "y \<in> set (L k)" for j k x y
      using lo(5) [OF that(1) _ _ that(4,5)] fl that(2,3) by blast
    show "tw_files t (tw_next_segment t) \<noteq> None \<Longrightarrow> L (tw_next_segment t) = [] \<and> tw_active t = None"
      using lo(6) fl t(2,3) by auto
  qed (use lo(1,3,4) t(1) in simp_all)
  moreover have "active_ok crc L t"
  proof (rule active_okI)
    fix a j sy
    assume a: "tw_active t = Some a" "j = as_id a" "sy = tw_syncs t j"
    have a0: "tw_active tw = Some a" "j \<noteq> i" using act [OF a(1)] a(2) by auto
    have "sy = tw_syncs tw j" using a(3) t(6) by simp
    note ao = active_okD [OF w(2) a0(1) a(2) this]
    show "tw_files t j \<noteq> None \<and> j < tw_next_segment t \<and> (\<forall>k. tw_files t k \<noteq> None \<longrightarrow> k \<le> j) \<and>
      as_good_len a = length (seg_bytes crc (L j)) \<and> as_max_seq a = last_seq (L j) \<and>
      sy_written_len sy = length (seg_bytes crc (L j)) \<and> (L j \<noteq> [] \<longrightarrow> sy_written_seq sy = last_seq (L j)) \<and>
      sy_written_seq sy < tw_next_seq t \<and> sy_synced_seq sy < tw_next_seq t \<and>
      \<not> sy_cleaned sy \<and> sy_synced_len sy \<le> tw_disk t j \<and>
      boundary crc (L j) (sy_synced_len sy) (sy_synced_seq sy) \<and>
      (\<forall>tl ts. sy_syncing sy = Some (tl, ts) \<longrightarrow> boundary crc (L j) tl ts \<and> ts < tw_next_seq t)"
    proof (intro conjI allI impI)
      show "tw_files t j \<noteq> None" using ao(1) a0(2) t(4) by simp
      show "j < tw_next_segment t" using ao(2) t(2) by simp
      show "\<And>k. tw_files t k \<noteq> None \<Longrightarrow> k \<le> j" using ao(3) fl by blast
      show "sy_written_seq sy < tw_next_seq t" "sy_synced_seq sy < tw_next_seq t" "sy_synced_len sy \<le> tw_disk t j"
        using ao(8,9,11) t(1,5) by simp_all
      show "\<And>tl ts. sy_syncing sy = Some (tl, ts) \<Longrightarrow> boundary crc (L j) tl ts"
        "\<And>tl ts. sy_syncing sy = Some (tl, ts) \<Longrightarrow> ts < tw_next_seq t" using ao(13) t(1) by auto
    qed (use ao in \<open>blast+\<close>)
  qed
  moreover have "others_ok crc L t"
    unfolding others_ok_def
  proof (intro conjI allI impI ballI)
    fix j
    assume "tw_files t j \<noteq> None" "not_active t j"
    then show "length (seg_bytes crc (L j)) \<le> tw_disk t j" using others_okD(1) [OF w(3), of j] fl [of j] nac' [of j] t(5) by simp
  next
    fix s
    assume "s \<in> set (tw_sealed t)"
    then have "s \<in> set (tw_sealed tw)" using t(7) by blast
    from others_okD(2) [OF w(3) this]
    show "fst s < tw_next_segment t" "not_active t (fst s)" "\<And>x. x \<in> set (L (fst s)) \<Longrightarrow> frame_seq x \<le> snd s"
      using t(2) nac by auto
  qed
  moreover have "entries_ok crc L t"
  proof (rule entries_transfer [OF w(4)])
    fix v
    assume "entry_in crc L tw v" "snd (snd v) \<le> tw_disk tw (fst (snd v))"
      "\<not> not_active tw (fst (snd v)) \<Longrightarrow> snd (snd v) \<le> sy_synced_len (tw_syncs tw (fst (snd v)))"
    then show "fst v \<le> tw_trunc t \<or> entry_in crc L t v \<and> snd (snd v) \<le> tw_disk t (fst (snd v)) \<and>
      (\<not> not_active t (fst (snd v)) \<longrightarrow> snd (snd v) \<le> sy_synced_len (tw_syncs t (fst (snd v))))"
      using cov [of v] nac [of "fst (snd v)"] t(5,6) by auto
  qed (use cov t(2,6,8,9,10) in simp_all)
  ultimately show ?thesis using t(11,12) by (simp add: wal_inv_def)
qed

lemma remove_segment_inv:
  assumes "wal_inv crc unipc S L tw" "L i = []" "tw_active tw = None"
  shows "wal_inv crc unipc S L (remove_segment rm_ok unmark_ok i tw)"
proof (cases rm_ok)
  case True
  show ?thesis
    by (rule dropped_inv [where i = i, OF assms(1)])
       (use assms(2,3) True wal_invD(5,6) [OF assms(1)] in \<open>auto simp: remove_segment_def\<close>)
qed (use assms in \<open>simp add: remove_segment_def\<close>)

lemma seal_inv:
  assumes inv: "wal_inv crc unipc S L tw" and a: "tw_active tw = Some a"
    and full: "0 < as_max_seq a \<Longrightarrow> sy_written_len (tw_syncs tw (as_id a)) \<le> sy_synced_len (tw_syncs tw (as_id a))"
  shows "wal_inv crc unipc S L (tail_seal_active rm_ok unmark_ok tw)"
proof -
  let ?i = "as_id a"
  note w = wal_invD [OF inv]
  note ao = active_okD [OF w(2) a refl refl]
  have f: "(tw_files tw)(?i \<mapsto> seg_bytes crc (L ?i)) = tw_files tw"
    using logs_okD(2) [OF w(1), of ?i] ao(1) by (intro ext) auto
  have sl: "sy_synced_len (tw_syncs tw ?i) \<le> length (seg_bytes crc (L ?i))" using boundary_le [OF ao(12)] .
  have whole: "wal_inv crc unipc S L t" if "tw_next_seq t = tw_next_seq tw" "tw_next_segment t = tw_next_segment tw"
    "tw_active t = None" "tw_files t = tw_files tw" "tw_disk t = tw_disk tw" "tw_syncs t = tw_syncs tw"
    "set (tw_sealed t) \<subseteq> insert (?i, last_seq (L ?i)) (set (tw_sealed tw))" "tw_waiting t = tw_waiting tw" "tw_acked t = tw_acked tw"
    "tw_trunc t = tw_trunc tw" "tw_poisoned t = None" "tw_marks t = Map.empty" and d: "length (seg_bytes crc (L ?i)) \<le> tw_disk tw ?i" for t
  proof -
    have m: "frame_seq x \<le> last_seq (L ?i)" if x: "x \<in> set (take (length (L ?i)) (L ?i))" for x
    proof -
      obtain k where k: "k < length (L ?i)" "x = L ?i ! k" using x by (auto simp: in_set_conv_nth)
      then have "last_seq (L ?i) = frame_seq (L ?i ! (length (L ?i) - 1))" by (auto simp: last_seq_def last_conv_nth)
      then show ?thesis using logs_okD(4) [OF w(1), of ?i] k
        by (cases "k = length (L ?i) - 1") (auto simp: sorted_wrt_iff_nth_less less_imp_le)
    qed
    have "wal_inv crc unipc S (L(?i := take (length (L ?i)) (L ?i))) t"
      by (rule sealed_inv [OF inv a refl order_refl refl _ m]) (use sl that f in simp_all)
    then show ?thesis by simp
  qed
  show ?thesis
  proof (cases "0 < as_max_seq a")
    case True
    then have "length (seg_bytes crc (L ?i)) \<le> tw_disk tw ?i" using full ao(6,11) by simp
    then show ?thesis using True a w(5,6) ao(5) by (intro whole) (simp_all add: tail_seal_active_def)
  next
    case False
    have e: "L ?i = []"
    proof (rule ccontr)
      assume "L ?i \<noteq> []"
      then have "1 \<le> last_seq (L ?i)" using logs_okD(3) [OF w(1), of "last (L ?i)" ?i] by (simp add: last_seq_def)
      then show False using False ao(5) by simp
    qed
    have "wal_inv crc unipc S L (tw\<lparr>tw_active := None\<rparr>)" by (rule whole) (use e w(5,6) in auto)
    from remove_segment_inv [OF this e] show ?thesis using False a by (simp add: tail_seal_active_def)
  qed
qed

lemma cleanup_inv:
  assumes inv: "wal_inv crc unipc S L tw" and ok: "ci_roll io = RollOk"
  shows "\<exists>L'. wal_inv crc unipc S L' (cleanup_failed_segment io i why tw) \<and>
    tw_next_seq (cleanup_failed_segment io i why tw) = tw_next_seq tw"
proof -
  let ?sy = "tw_syncs tw i"
  let ?sy' = "?sy\<lparr>sy_failed := (case sy_failed ?sy of None \<Rightarrow> Some why | Some e \<Rightarrow> Some e), sy_cleaned := True\<rparr>"
  note w = wal_invD [OF inv]
  consider "sy_cleaned ?sy" | "\<not> sy_cleaned ?sy" "not_active tw i" | a where "tw_active tw = Some a" "i = as_id a"
    by (auto simp: not_active_def)
  then show ?thesis
  proof cases
    case 1
    then show ?thesis using inv by (auto simp: cleanup_failed_segment_def)
  next
    case 2
    have "wal_inv crc unipc S L (tw\<lparr>tw_syncs := (tw_syncs tw)(i := ?sy'), tw_disk := (tw_disk tw)(i := tw_disk tw i)\<rparr>)"
      by (rule inv_sync [OF inv refl]) (use 2 in \<open>auto split: option.splits\<close>)
    moreover have "cleanup_failed_segment io i why tw = tw\<lparr>tw_syncs := (tw_syncs tw)(i := ?sy')\<rparr>"
      using 2 by (cases "tw_active tw") (simp_all add: cleanup_failed_segment_def set_sync_def not_active_def Let_def)
    ultimately show ?thesis by (auto intro: exI [of _ L])
  next
    case 3
    note ao = active_okD [OF w(2) 3 refl]
    obtain n where n: "n \<le> length (L i)" "sy_synced_len ?sy = length (seg_bytes crc (take n (L i)))"
      "0 < n \<longrightarrow> sy_synced_seq ?sy = frame_seq (L i ! (n - 1))" using boundary_split [OF ao(12)] .
    have d: "tw_files tw i = Some (seg_bytes crc (L i))" using logs_okD(2) [OF w(1), of i] ao(1) by auto
    have tk: "take (sy_synced_len ?sy) (seg_bytes crc (L i)) = seg_bytes crc (take n (L i))"
      by (rule seg_bytes_take) (simp add: n(2))
    let ?L = "L(i := take n (L i))"
    let ?t = "tw\<lparr>tw_syncs := (tw_syncs tw)(i := ?sy'), tw_active := None, tw_files := (tw_files tw)(i \<mapsto> seg_bytes crc (take n (L i))),
      tw_disk := (tw_disk tw)(i := sy_synced_len ?sy)\<rparr>"
    have cl: "cleanup_failed_segment io i why tw =
      (if sy_synced_len ?sy > 0 then ?t\<lparr>tw_sealed := tw_sealed tw @ [(i, sy_synced_seq ?sy)]\<rparr>
       else remove_segment (ci_remove io) (ci_unmark io) i ?t)"
      using ao(10) 3 ok d tk by (simp add: cleanup_failed_segment_def Let_def set_sync_def roll_back_segment_def)
    have m: "frame_seq x \<le> sy_synced_seq ?sy" if x: "x \<in> set (take n (L i))" for x
    proof -
      obtain k where k: "k < n" "x = L i ! k" using x n(1) by (auto simp: in_set_conv_nth)
      then show ?thesis using n(1,3) logs_okD(4) [OF w(1), of i]
        by (cases "k = n - 1") (auto simp: sorted_wrt_iff_nth_less less_imp_le)
    qed
    have s: "wal_inv crc unipc S ?L t" if "t = ?t \<or> t = ?t\<lparr>tw_sealed := tw_sealed tw @ [(i, sy_synced_seq ?sy)]\<rparr>" for t
      by (rule sealed_inv [OF inv 3 n(1,2) order_refl m]) (use that w(5,6) in \<open>auto split: option.splits\<close>)
    show ?thesis
    proof (cases "sy_synced_len ?sy > 0")
      case True
      then show ?thesis using cl s [of "?t\<lparr>tw_sealed := tw_sealed tw @ [(i, sy_synced_seq ?sy)]\<rparr>"] by (auto intro: exI [of _ ?L])
    next
      case False
      then have "n = 0" using n(1,2) seg_bytes_take_strict [of 0 n "L i" crc] by auto
      then have "wal_inv crc unipc S ?L (remove_segment (ci_remove io) (ci_unmark io) i ?t)"
        by (intro remove_segment_inv [OF s [of ?t]]) simp_all
      then show ?thesis using cl False by (auto simp: remove_segment_def intro: exI [of _ ?L])
    qed
  qed
qed


lemma remove_segment_trunc: "remove_segment b c i (t\<lparr>tw_trunc := v\<rparr>) = (remove_segment b c i t)\<lparr>tw_trunc := v\<rparr>"
  by (simp add: remove_segment_def)

lemma truncate_sealed_all:
  assumes "\<And>i. rm i"
  shows "truncate_sealed rm unmark u ss tw = (filter (\<lambda>s. u < snd s) ss, True,
    fold (\<lambda>s. remove_segment True (unmark (fst s)) (fst s)) (filter (\<lambda>s. \<not> u < snd s) ss) tw)"
  using assms by (induction ss arbitrary: tw) auto

lemma fold_remove_trunc:
  "fold (\<lambda>s. remove_segment True (unmark (fst s)) (fst s)) ss (t\<lparr>tw_trunc := v\<rparr>) =
   (fold (\<lambda>s. remove_segment True (unmark (fst s)) (fst s)) ss t)\<lparr>tw_trunc := v\<rparr>"
  by (induction ss arbitrary: t) (simp_all add: remove_segment_trunc)

lemma truncate_sealed_inv:
  assumes "wal_inv crc unipc S L tw" "set ss \<subseteq> set (tw_sealed tw)" "u \<le> tw_trunc tw" "\<And>i. rm i"
  shows "wal_inv crc unipc S L (snd (snd (truncate_sealed rm unmark u ss tw))) \<and>
    tw_sealed (snd (snd (truncate_sealed rm unmark u ss tw))) = tw_sealed tw \<and>
    tw_active (snd (snd (truncate_sealed rm unmark u ss tw))) = tw_active tw \<and>
    tw_next_seq (snd (snd (truncate_sealed rm unmark u ss tw))) = tw_next_seq tw \<and>
    tw_trunc (snd (snd (truncate_sealed rm unmark u ss tw))) = tw_trunc tw"
  using assms(1-3)
proof (induction ss arbitrary: tw)
  case Nil
  then show ?case by simp
next
  case (Cons s ss)
  obtain i m where s: "s = (i, m)" by (cases s)
  show ?case
  proof (cases "u < m")
    case True
    then show ?thesis using Cons.IH [OF Cons.prems(1)] Cons.prems(2,3) s by (simp add: case_prod_beta Let_def)
  next
    case False
    let ?t = "remove_segment True (unmark i) i tw"
    have so: "not_active tw i" "\<And>x. x \<in> set (L i) \<Longrightarrow> frame_seq x \<le> m"
      using others_okD(2) [OF wal_invD(3) [OF Cons.prems(1)], of s] Cons.prems(2) s by auto
    have "frame_seq x \<le> tw_trunc tw" if "x \<in> set (L i)" for x using so(2) [OF that] False Cons.prems(3) by simp
    then have "wal_inv crc unipc S L ?t"
      using so(1) wal_invD(5,6) [OF Cons.prems(1)]
      by (intro dropped_inv [where i = i, OF Cons.prems(1)]) (simp_all add: remove_segment_def)
    then show ?thesis using Cons.IH [of ?t] Cons.prems(2,3) s False assms(4) by (simp add: remove_segment_def)
  qed
qed

lemma truncate_sealed_trunc: "tw_trunc (snd (snd (truncate_sealed rm unmark u ss tw))) = tw_trunc tw"
  by (induction rm unmark u ss tw rule: truncate_sealed.induct) (auto simp: remove_segment_def case_prod_beta Let_def)

lemma trunc_up_inv:
  assumes "wal_inv crc unipc S L tw" "tw_trunc tw \<le> u" "set ss \<subseteq> set (tw_sealed tw)"
  shows "wal_inv crc unipc S L (tw\<lparr>tw_sealed := ss, tw_trunc := u\<rparr>)"
proof -
  note w = wal_invD [OF assms(1)]
  have "entries_ok crc L (tw\<lparr>tw_sealed := ss, tw_trunc := u\<rparr>)"
    by (rule entries_transfer [OF w(4)]) (use assms(2) in \<open>auto simp: entry_in_def not_active_def\<close>)
  then show ?thesis using w assms(3)
    by (auto simp: wal_inv_def logs_ok_def active_ok_def others_ok_def not_active_def Let_def)
qed

lemma truncate_inv:
  assumes inv: "wal_inv crc unipc S L tw" and rm: "\<And>i. rm i" and st: "tail_truncate rm unmark u tw = (r, tw')"
  shows "wal_inv crc unipc S L tw'" "tw_next_seq tw' = tw_next_seq tw" "r = Inr ()"
proof -
  text \<open>The truncation point may as well rise before the files go.\<close>
  let ?u = "max (tw_trunc tw) u"
  let ?tu = "tw\<lparr>tw_trunc := ?u\<rparr>"
  let ?kept = "filter (\<lambda>s. u < snd s) (tw_sealed tw)"
  let ?rm = "fold (\<lambda>s. remove_segment True (unmark (fst s)) (fst s)) (filter (\<lambda>s. \<not> u < snd s) (tw_sealed tw))"
  let ?t1 = "?rm tw"
  note all = truncate_sealed_all [where rm = rm and unmark = unmark, OF rm]
  have tu: "wal_inv crc unipc S L ?tu" using trunc_up_inv [OF inv, of ?u "tw_sealed tw"] by simp
  have "?rm ?tu = ?t1\<lparr>tw_trunc := ?u\<rparr>" by (rule fold_remove_trunc)
  then have t1u: "wal_inv crc unipc S L (?t1\<lparr>tw_trunc := ?u\<rparr>)" "tw_sealed ?t1 = tw_sealed tw" "tw_active ?t1 = tw_active tw"
    "tw_next_seq ?t1 = tw_next_seq tw"
    using truncate_sealed_inv [OF tu, of "tw_sealed tw" u rm unmark] rm all by simp_all
  have tr: "tw_trunc ?t1 = tw_trunc tw"
    using truncate_sealed_trunc [of rm unmark u "tw_sealed tw" tw] all by simp
  let ?t2 = "?t1\<lparr>tw_sealed := ?kept, tw_trunc := ?u\<rparr>"
  have t2: "wal_inv crc unipc S L ?t2"
    using trunc_up_inv [OF t1u(1), of ?u ?kept] t1u(2) by simp
  have body: "(r, tw') = (case tw_active ?t2 of
           Some a \<Rightarrow>
             (if 0 < as_max_seq a \<and> as_max_seq a \<le> u
              then (Inr (), remove_segment True (unmark (as_id a)) (as_id a) (?t2\<lparr>tw_active := None\<rparr>))
              else (Inr (), ?t2))
         | None \<Rightarrow> (Inr (), ?t2))"
    using st tr rm by (cases "tw_active ?t2") (auto simp: tail_truncate_def Let_def all)
  consider "tw' = ?t2" "r = Inr ()" | a where "tw_active ?t2 = Some a" "as_max_seq a \<le> u" "0 < as_max_seq a" "r = Inr ()"
      "tw' = remove_segment True (unmark (as_id a)) (as_id a) (?t2\<lparr>tw_active := None\<rparr>)"
    using body by (auto split: option.splits if_splits)
  then have "wal_inv crc unipc S L tw' \<and> tw_next_seq tw' = tw_next_seq tw \<and> r = Inr ()"
  proof cases
    case 1
    then show ?thesis using t2 t1u(4) by simp
  next
    case 2
    let ?i = "as_id a"
    note ao = active_okD [OF wal_invD(2) [OF t2] 2(1) refl refl]
    have m: "frame_seq x \<le> last_seq (L ?i)" if x: "x \<in> set (L ?i)" for x
    proof -
      obtain k where k: "k < length (L ?i)" "x = L ?i ! k" using x by (auto simp: in_set_conv_nth)
      then have "last_seq (L ?i) = frame_seq (L ?i ! (length (L ?i) - 1))" by (auto simp: last_seq_def last_conv_nth)
      then show ?thesis using logs_okD(4) [OF wal_invD(1) [OF t2], of ?i] k
        by (cases "k = length (L ?i) - 1") (auto simp: sorted_wrt_iff_nth_less less_imp_le)
    qed
    have "wal_inv crc unipc S L tw'"
    proof (rule dropped_inv [where i = ?i, OF t2])
      fix x
      assume "x \<in> set (L ?i)"
      then show "frame_seq x \<le> tw_trunc tw'" using m [of x] ao(5) 2(2,5) by (simp add: remove_segment_def)
    qed (use 2(1,5) wal_invD(5,6) [OF t2] in \<open>auto simp: remove_segment_def not_active_def\<close>)
    then show ?thesis using 2 t1u(4) by (simp add: remove_segment_def)
  qed
  then show "wal_inv crc unipc S L tw'" "tw_next_seq tw' = tw_next_seq tw" "r = Inr ()" by blast+
qed


lemma floor_inv:
  assumes "wal_inv crc unipc S L tw"
  shows "wal_inv crc unipc S L (ensure_seq_floor n tw)"
proof -
  note w = wal_invD [OF assms]
  let ?t = "ensure_seq_floor n tw"
  have up: "x < tw_next_seq ?t" if "x < tw_next_seq tw" for x using that by (simp add: ensure_seq_floor_def)
  have "logs_ok crc unipc S L ?t"
    by (rule logs_okI) (use logs_okD [OF w(1)] in \<open>simp_all add: ensure_seq_floor_def less_max_iff_disj\<close>)
  moreover have "active_ok crc L ?t"
    using w(2) by (auto simp: active_ok_def Let_def ensure_seq_floor_def less_max_iff_disj)
  ultimately show ?thesis
    using w(3-) by (simp add: wal_inv_def others_ok_def entries_ok_def entry_in_def not_active_def ensure_seq_floor_def)
qed

lemma rotate_inv:
  assumes "wal_inv crc unipc S L tw" "ci_roll io = RollOk" "tail_rotate io tw = Some (r, tw')"
  shows "\<exists>L'. wal_inv crc unipc S L' tw' \<and> tw_next_seq tw' = tw_next_seq tw"
proof (cases "tw_active tw")
  case None
  then show ?thesis using assms by (auto simp: tail_rotate_def)
next
  case (Some a)
  let ?sy = "tw_syncs tw (as_id a)"
  have ns: "tw_next_seq (tail_seal_active x y tw) = tw_next_seq tw" for x y
    using Some by (simp add: tail_seal_active_def remove_segment_def)
  consider "tw' = tail_seal_active (ci_remove io) (ci_unmark io) tw" "as_max_seq a = 0 \<or> sy_written_len ?sy \<le> sy_synced_len ?sy"
    | why where "tw' = cleanup_failed_segment io (as_id a) why tw"
    using assms(3) Some
    by (auto simp: tail_rotate_def Let_def wait_verdict_def split: if_splits option.splits)
  then show ?thesis
  proof cases
    case 1
    then show ?thesis using seal_inv [OF assms(1) Some, of "ci_remove io" "ci_unmark io"] ns by auto
  next
    case 2
    then show ?thesis using cleanup_inv [OF assms(1,2)] by blast
  qed
qed

section \<open>Runs\<close>

text \<open>
  The events of a tidy run: every rollback of a failed write and of a failed segment takes effect,
  and a covered segment is deleted when a truncation asks for it.  Creating a segment, syncing its
  directory, encoding, writing, syncing the data and removing empty files may fail.
\<close>

fun tidy :: "'b tail_event \<Rightarrow> bool" where
  "tidy (Stage io kind batches) \<longleftrightarrow> (ai_write io \<noteq> None \<longrightarrow> ai_roll1 io = RollOk \<or> ai_roll2 io = RollOk)"
| "tidy (WaitErr w io) \<longleftrightarrow> ci_roll io = RollOk"
| "tidy (Rotate io) \<longleftrightarrow> ci_roll io = RollOk"
| "tidy (Truncate rm unmark upto_seq) \<longleftrightarrow> (\<forall>i. rm i)"
| "tidy _ \<longleftrightarrow> True"

text \<open>The operations a run stages, with the sequence numbers they got.\<close>

fun step_staged :: "(bytes \<Rightarrow> 32 word) \<Rightarrow> ('b list \<Rightarrow> bytes result) \<Rightarrow> table_wal \<Rightarrow> 'b tail_event \<Rightarrow> (nat \<times> 'b tail_op) list" where
  "step_staged crc ipc tw (Stage io kind batches) =
     staged_op (fst (append_staged io (\<lambda>seq. encode_frame crc ipc seq kind batches) tw)) (mk_op kind batches)"
| "step_staged crc ipc tw _ = []"

fun run_staged :: "(bytes \<Rightarrow> 32 word) \<Rightarrow> ('b list \<Rightarrow> bytes result) \<Rightarrow> table_wal \<Rightarrow> 'b tail_event list \<Rightarrow> (nat \<times> 'b tail_op) list" where
  "run_staged crc ipc tw [] = []"
| "run_staged crc ipc tw (e # es) =
     (case tail_step crc ipc tw e of None \<Rightarrow> [] | Some tw' \<Rightarrow> step_staged crc ipc tw e @ run_staged crc ipc tw' es)"

lemma wal_inv_waiting:
  assumes "wal_inv crc unipc S L tw"
  shows "wal_inv crc unipc S L (tw\<lparr>tw_waiting := remove1 v (tw_waiting tw)\<rparr>)"
proof -
  note w = wal_invD [OF assms]
  have "entries_ok crc L (tw\<lparr>tw_waiting := remove1 v (tw_waiting tw)\<rparr>)"
    by (rule entries_transfer [OF w(4)]) (use set_remove1_subset [of v "tw_waiting tw"] in \<open>auto simp: entry_in_def not_active_def\<close>)
  then show ?thesis using w by (simp add: wal_inv_def logs_ok_def active_ok_def others_ok_def not_active_def)
qed

lemma step_inv:
  assumes ipc: "ipc_inverse ipc unipc" and inv: "wal_inv crc unipc S L tw" and st: "tail_step crc ipc tw e = Some tw'" and td: "tidy e"
  shows "\<exists>L'. wal_inv crc unipc (S \<union> set (step_staged crc ipc tw e)) L' tw' \<and>
    tw_next_seq tw + length (step_staged crc ipc tw e) \<le> tw_next_seq tw' \<and>
    (\<forall>x\<in>set (step_staged crc ipc tw e). fst x = tw_next_seq tw) \<and> length (step_staged crc ipc tw e) \<le> 1"
proof (cases e)
  case (Stage io kind batches)
  obtain r t where rt: "append_staged io (\<lambda>seq. encode_frame crc ipc seq kind batches) tw = (r, t)"
    by (cases "append_staged io (\<lambda>seq. encode_frame crc ipc seq kind batches) tw")
  then have "tw' = t" using st Stage by (simp split: if_splits)
  then show ?thesis using stage_inv [OF ipc inv rt] td Stage rt by (auto simp: staged_op_def split: sum.splits)
next
  case (Lead i)
  then show ?thesis using lead_inv [OF inv, of i tw'] st by (auto simp: lead_def set_sync_def Let_def split: if_splits)
next
  case (SyncDone i ok)
  then have s: "sync_done i ok tw = Some tw'" using st by simp
  then have "tw_next_seq tw' = tw_next_seq tw" by (auto simp: sync_done_def set_sync_def Let_def split: option.splits if_splits)
  then show ?thesis using sync_done_inv [OF inv s] SyncDone by auto
next
  case (WaitOk w)
  then show ?thesis using wait_ok_inv [OF inv, of w] st by (auto split: if_splits)
next
  case (WaitErr w io)
  then obtain why where "tw' = cleanup_failed_segment io (fst (snd w)) why (tw\<lparr>tw_waiting := remove1 w (tw_waiting tw)\<rparr>)"
    using st by (auto simp: Let_def split: if_splits option.splits sum.splits)
  then show ?thesis using cleanup_inv [OF wal_inv_waiting [OF inv, of w], where io = io and i = "fst (snd w)" and why = why] td WaitErr by auto
next
  case (Poisoned io)
  then show ?thesis using st wal_invD(5) [OF inv] by simp
next
  case (Rotate io)
  then obtain r where "tail_rotate io tw = Some (r, tw')" using st by (auto split: if_splits)
  from rotate_inv [OF inv _ this] show ?thesis using td Rotate by auto
next
  case (Truncate rm unmark u)
  then have "tw' = snd (tail_truncate rm unmark u tw)" using st by (simp split: if_splits)
  then show ?thesis using truncate_inv [OF inv, of rm unmark u _ tw'] td Truncate
    by (cases "tail_truncate rm unmark u tw") auto
next
  case (Floor n)
  then show ?thesis using floor_inv [OF inv, of n] st by (auto simp: ensure_seq_floor_def split: if_splits)
qed

lemma run_inv:
  assumes ipc: "ipc_inverse ipc unipc"
  shows "wal_inv crc unipc S L tw \<Longrightarrow> tail_run crc ipc tw es = Some tw' \<Longrightarrow> \<forall>e\<in>set es. tidy e \<Longrightarrow>
    (\<exists>L'. wal_inv crc unipc (S \<union> set (run_staged crc ipc tw es)) L' tw') \<and>
    sorted_wrt (<) (map fst (run_staged crc ipc tw es)) \<and>
    (\<forall>x\<in>set (run_staged crc ipc tw es). tw_next_seq tw \<le> fst x \<and> fst x < tw_next_seq tw') \<and> tw_next_seq tw \<le> tw_next_seq tw'"
proof (induction es arbitrary: tw S L)
  case Nil
  then show ?case by auto
next
  case (Cons e es)
  from Cons.prems(2) obtain tw1 where s: "tail_step crc ipc tw e = Some tw1" "tail_run crc ipc tw1 es = Some tw'"
    by (auto split: bind_splits)
  let ?st = "step_staged crc ipc tw e" and ?rs = "run_staged crc ipc tw1 es"
  obtain L1 where L1: "wal_inv crc unipc (S \<union> set ?st) L1 tw1" "tw_next_seq tw + length ?st \<le> tw_next_seq tw1"
    "\<forall>x\<in>set ?st. fst x = tw_next_seq tw" "length ?st \<le> 1"
    using step_inv [OF ipc Cons.prems(1) s(1)] Cons.prems(3) by auto
  from Cons.IH [OF L1(1) s(2)] Cons.prems(3)
  have ih: "\<exists>L'. wal_inv crc unipc (S \<union> set ?st \<union> set ?rs) L' tw'" "sorted_wrt (<) (map fst ?rs)"
    "\<forall>x\<in>set ?rs. tw_next_seq tw1 \<le> fst x \<and> fst x < tw_next_seq tw'" "tw_next_seq tw1 \<le> tw_next_seq tw'" by auto
  have c: "?st = [] \<or> (\<exists>x. ?st = [x])" using L1(4) by (cases ?st) auto
  have r: "run_staged crc ipc tw (e # es) = ?st @ ?rs" using s(1) by simp
  have le: "tw_next_seq tw \<le> tw_next_seq tw1" using L1(2) by simp
  show ?case unfolding r
  proof (intro conjI)
    show "\<exists>L'. wal_inv crc unipc (S \<union> set (?st @ ?rs)) L' tw'" using ih(1) by (simp add: Un_assoc)
    show "sorted_wrt (<) (map fst (?st @ ?rs))" using c ih(2,3) L1(2,3) by fastforce
    show "\<forall>x\<in>set (?st @ ?rs). tw_next_seq tw \<le> fst x \<and> fst x < tw_next_seq tw'"
      using c ih(3,4) L1(2,3) le by fastforce
    show "tw_next_seq tw \<le> tw_next_seq tw'" using le ih(4) by simp
  qed
qed


section \<open>A crash\<close>

text \<open>
  What a crash leaves of the directory: of each file a prefix that is at least as long as what
  completed syncs made durable, in the order of the segment numbers.
\<close>

definition crash_dir :: "(nat \<Rightarrow> nat) \<Rightarrow> table_wal \<Rightarrow> (nat \<times> seg_file) list" where
  "crash_dir torn tw =
     map (\<lambda>i. (i, (take (max (tw_disk tw i) (torn i)) (the (tw_files tw i)), tw_marks tw i)))
       (filter (\<lambda>i. tw_files tw i \<noteq> None) [0..<Suc (tw_next_segment tw)])"

lemma filter_upt_last:
  assumes "P i" "\<And>j. P j \<Longrightarrow> j \<le> i" "i < n"
  shows "filter P [0..<n] = filter P [0..<i] @ [i]"
proof -
  have "[0..<n] = [0..<i] @ i # [Suc i..<n]" using assms(3) by (metis append_Cons append_Nil less_imp_le upt_add_eq_append upt_conv_Cons le_add_diff_inverse zero_le)
  moreover have "filter P [Suc i..<n] = []" using assms(2) by (fastforce simp: filter_empty_conv)
  ultimately show ?thesis using assms(1) by simp
qed

lemma sorted_segs:
  assumes "sorted_wrt (<) js" "\<And>j. sorted_wrt (<) (map frame_seq (L j))"
    and "\<And>i j x y. i \<in> set js \<Longrightarrow> j \<in> set js \<Longrightarrow> i < j \<Longrightarrow> x \<in> set (L i) \<Longrightarrow> y \<in> set (L j) \<Longrightarrow> frame_seq x < frame_seq y"
  shows "sorted_wrt (<) (map frame_seq (concat (map L js)))"
  using assms(1,3)
proof (induction js)
  case (Cons j js)
  have "sorted_wrt (<) (map frame_seq (concat (map L js)))"
  proof (rule Cons.IH)
    show "sorted_wrt (<) js" using Cons.prems(1) by simp
    show "\<And>i k x y. i \<in> set js \<Longrightarrow> k \<in> set js \<Longrightarrow> i < k \<Longrightarrow> x \<in> set (L i) \<Longrightarrow> y \<in> set (L k) \<Longrightarrow> frame_seq x < frame_seq y"
      by (rule Cons.prems(2)) auto
  qed
  moreover have "frame_seq x < frame_seq y" if "x \<in> set (L j)" "y \<in> set (concat (map L js))" for x y
    using that Cons.prems(1) Cons.prems(2) [of j _ x y] by auto
  ultimately show ?case using assms(2) [of j] unfolding list.map concat.simps map_append sorted_wrt_append
    by (simp add: image_iff del: set_concat)
qed simp

lemma scan_crash_dir:
  assumes inv: "wal_inv crc unipc S L tw" and ns: "tw_next_seq tw \<le> 2 ^ 64" and io: "\<And>i. sio_cut io i"
  shows "\<exists>st l. scan_table io crc unipc (crash_dir torn tw) = Inr st \<and> ts_frames st = map snd l \<and>
    set l \<subseteq> (\<Union>i. set (L i)) \<and> sorted_wrt (<) (map frame_seq l) \<and>
    (\<forall>v. entry_in crc L tw v \<and> snd (snd v) \<le> tw_disk tw (fst (snd v)) \<longrightarrow> (\<exists>x\<in>set l. frame_seq x = fst v))"
proof -
  note w = wal_invD [OF inv]
  note lo = logs_okD [OF w(1)]
  let ?P = "\<lambda>i. tw_files tw i \<noteq> None"
  let ?seg = "\<lambda>j. (j, map fst (L j), map snd (L j))"
  have le: "i \<le> tw_next_segment tw" if "?P i" for i using lo(2) that by auto
  have st: "list_all2 (stored unipc) (map fst (L j)) (map snd (L j))" for j
  proof -
    have "stored unipc (fst x) (snd x)" if "x \<in> set (L j)" for x using lo(3) [OF that] ns by linarith
    then show ?thesis by (simp add: list_all2_conv_all_nth)
  qed
  have stl: "\<forall>e\<in>set (map ?seg js). list_all2 (stored unipc) (fst (snd e)) (snd (snd e))" for js using st by simp
  have clean: "(j, (take (max (tw_disk tw j) (torn j)) (the (tw_files tw j)), tw_marks tw j)) = clean_seg crc (?seg j)"
    if j: "?P j" "not_active tw j" for j
    using j lo(2) [of j] others_okD(1) [OF w(3) j] w(6) by (auto simp: clean_seg_def seg_bytes_def max_def)
  have srt: "sorted_wrt (<) (map frame_seq (concat (map L (filter ?P [0..<n]))))" for n
    using lo(4,5) by (intro sorted_segs) (auto simp: sorted_wrt_filter)
  have cat: "concat (map (\<lambda>e. snd (snd e)) (map ?seg js)) = map snd (concat (map L js))" for js
    by (induction js) simp_all
  have mem: "\<exists>x\<in>set (concat (map L js)). frame_seq x = fst v" if e: "entry_in crc L tw v" and j: "fst (snd v) \<in> set js" for v js
  proof -
    obtain x where "x \<in> set (L (fst (snd v)))" "frame_seq x = fst v" using entry_in_mem [OF e] .
    then show ?thesis using j by (intro bexI [of _ x]) auto
  qed
  show ?thesis
  proof (cases "tw_active tw")
    case None
    let ?js = "filter ?P [0..<Suc (tw_next_segment tw)]"
    have "crash_dir torn tw = map (clean_seg crc) (map ?seg ?js)"
      unfolding crash_dir_def map_map by (rule map_cong [OF refl]) (use None in \<open>auto intro!: clean simp: not_active_def simp del: upt_Suc\<close>)
    moreover obtain st where "scan_table io crc unipc (map (clean_seg crc) (map ?seg ?js)) = Inr st"
      "ts_frames st = map snd (concat (map L ?js))"
      using scan_turns_clean [OF stl, of "\<lparr>ts_frames = [], ts_sealed = [], ts_next_segment = 1, ts_bad = False,
        ts_resume = None, ts_dir = []\<rparr>" io crc ?js "[]"] cat [of ?js] unfolding scan_table_def by auto
    ultimately have s: "scan_table io crc unipc (crash_dir torn tw) = Inr st" "ts_frames st = map snd (concat (map L ?js))" by simp_all
    have m: "\<exists>x\<in>set (concat (map L ?js)). frame_seq x = fst v" if e: "entry_in crc L tw v" for v
    proof (rule mem [OF e])
      have "?P (fst (snd v))" using e unfolding entry_in_def by blast
      then show "fst (snd v) \<in> set ?js" using le by (simp add: less_Suc_eq_le del: upt_Suc)
    qed
    show ?thesis by (intro exI [of _ st] exI [of _ "concat (map L ?js)"]) (use s srt [of "Suc (tw_next_segment tw)"] m in \<open>simp del: upt_Suc filter.simps; blast\<close>)
  next
    case (Some a)
    let ?i = "as_id a"
    let ?js = "filter ?P [0..<?i]" and ?k = "max (tw_disk tw ?i) (torn ?i)"
    note ao = active_okD [OF w(2) Some refl refl]
    have ids: "filter ?P [0..<Suc (tw_next_segment tw)] = ?js @ [?i]"
      by (rule filter_upt_last) (use ao(1-3) in auto)
    have d: "the (tw_files tw ?i) = frames crc (map fst (L ?i))" using lo(2) [of ?i] ao(1) by (auto simp: seg_bytes_def)
    have "map (\<lambda>i. (i, (take (max (tw_disk tw i) (torn i)) (the (tw_files tw i)), tw_marks tw i))) ?js = map (clean_seg crc) (map ?seg ?js)"
      unfolding map_map by (rule map_cong [OF refl]) (use Some in \<open>auto intro!: clean simp: not_active_def\<close>)
    then have cd: "crash_dir torn tw = map (clean_seg crc) (map ?seg ?js) @ [(?i, (take ?k (frames crc (map fst (L ?i))), None))]"
      unfolding crash_dir_def ids using d w(6) by simp
    obtain st n where s: "scan_table io crc unipc (crash_dir torn tw) = Inr st"
      "ts_frames st = concat (map (\<lambda>e. snd (snd e)) (map ?seg ?js)) @ take n (map snd (L ?i))"
      and n: "\<forall>m\<le>length (map snd (L ?i)). length (frames crc (take m (map fst (L ?i)))) \<le> ?k \<longrightarrow> m \<le> n"
      unfolding cd using scan_table_recovers [OF stl [of ?js] st [of ?i] io [of ?i], of crc ?k] by blast
    let ?l = "concat (map L ?js) @ take n (L ?i)"
    have l: "ts_frames st = map snd ?l" using s(2) cat by (simp add: take_map)
    have le: "?l = take (length (concat (map L ?js)) + n) (concat (map L (filter ?P [0..<Suc (tw_next_segment tw)])))"
      unfolding ids by simp
    have "sorted_wrt (<) (map frame_seq ?l)"
      unfolding le take_map [symmetric] by (rule sorted_wrt_take [OF srt])
    moreover have "\<exists>x\<in>set ?l. frame_seq x = fst v" if e: "entry_in crc L tw v" "snd (snd v) \<le> tw_disk tw (fst (snd v))" for v
    proof (cases "fst (snd v) = ?i")
      case True
      obtain m where m: "m < length (L ?i)" "snd (snd v) = length (seg_bytes crc (take (Suc m) (L ?i)))" "frame_seq (L ?i ! m) = fst v"
        using e(1) unfolding entry_in_def True by blast
      have "length (frames crc (take (Suc m) (map fst (L ?i)))) \<le> ?k" using m(2) e(2) True by (simp add: seg_bytes_def take_map)
      then have "Suc m \<le> n" using n m(1) by simp
      then have "L ?i ! m \<in> set (take n (L ?i))" using m(1) by (auto simp: in_set_conv_nth intro!: exI [of _ m])
      then show ?thesis using m(3) by auto
    next
      case False
      have "?P (fst (snd v))" using e(1) unfolding entry_in_def by blast
      then have "fst (snd v) \<in> set ?js" using ao(3) [of "fst (snd v)"] False by simp
      from mem [OF e(1) this] show ?thesis by auto
    qed
    ultimately show ?thesis
      by (intro exI [of _ st] exI [of _ ?l]) (use s(1) l in \<open>auto dest: in_set_takeD\<close>)
  qed
qed

text \<open>
  Whatever tidy run happened before the crash and wherever the crash cut the files, the boot scan
  succeeds, every acknowledged append beyond the last truncation is replayed, with the operation
  that was staged under its sequence number, and nothing is replayed twice or was never staged.
\<close>

lemma crash_keeps_acked:
  assumes "ipc_inverse ipc unipc" "tail_run crc ipc fresh_table es = Some tw" "\<forall>e\<in>set es. tidy e"
    and "tw_next_seq tw \<le> 2 ^ 64" "\<And>i. sio_cut io i"
  shows "\<exists>st. scan_table io crc unipc (crash_dir torn tw) = Inr st \<and>
    set (ts_frames st) \<subseteq> set (run_staged crc ipc fresh_table es) \<and>
    sorted_wrt (<) (map fst (ts_frames st)) \<and> sorted_wrt (<) (map fst (run_staged crc ipc fresh_table es)) \<and>
    (\<forall>v\<in>set (tw_acked tw). tw_trunc tw < fst v \<longrightarrow> fst v \<in> fst ` set (ts_frames st))"
proof -
  let ?S = "set (run_staged crc ipc fresh_table es)"
  obtain L where L: "wal_inv crc unipc ?S L tw" and so: "sorted_wrt (<) (map fst (run_staged crc ipc fresh_table es))"
    using run_inv [OF assms(1) wal_inv_fresh [where S = "{}"] assms(2,3)] by auto
  from scan_crash_dir [OF L assms(4,5), of torn] obtain st l
    where st: "scan_table io crc unipc (crash_dir torn tw) = Inr st" "ts_frames st = map snd l"
    "set l \<subseteq> (\<Union>i. set (L i))" "sorted_wrt (<) (map frame_seq l)"
    and en: "\<forall>v. entry_in crc L tw v \<and> snd (snd v) \<le> tw_disk tw (fst (snd v)) \<longrightarrow> (\<exists>x\<in>set l. frame_seq x = fst v)"
    by (elim exE conjE)
  have fs: "map fst (ts_frames st) = map frame_seq l" by (simp add: st(2) frame_seq_def)
  have "set (ts_frames st) \<subseteq> ?S"
  proof
    fix f
    assume "f \<in> set (ts_frames st)"
    then obtain x i where "x \<in> set (L i)" "f = snd x" using st(2,3) by auto
    then show "f \<in> ?S" using logs_okD(3) [OF wal_invD(1) [OF L]] by blast
  qed
  moreover have "fst v \<in> fst ` set (ts_frames st)" if v: "v \<in> set (tw_acked tw)" "tw_trunc tw < fst v" for v
  proof -
    have "\<exists>x\<in>set l. frame_seq x = fst v" using en [rule_format, of v] entries_okD(2) [OF wal_invD(4) [OF L] v(1)] v(2) by auto
    then show ?thesis by (metis fs list.set_map imageI)
  qed
  ultimately show ?thesis using st(1,4) fs so by (intro exI [of _ st]) simp
qed

end
