(* ===== verification/TailQuorum.thy ===== *)
theory TailQuorum
  imports Proposer TailNames TailFrames
begin

text \<open>
  The quorum-replicated tail of \<^verbatim>\<open>icegres/src/tail_quorum.rs\<close>: the \<^verbatim>\<open>TailStore\<close> operations in front of
  the proposer.  A statement allocates its sequence number and sends a job under one lock; the
  worker takes the jobs in order and submits their records; the commit waits run beside the job
  loop.  The job channel is a queue, a reply is a value, and a spawned commit wait is the reply
  \<open>Spawned\<close> with the log position it waits for.
\<close>

section \<open>State\<close>

datatype job =
    JobAppend bytes nat bytes
  | JobReplay
  | JobTruncate bytes nat
  | JobRecordWatermark bytes nat
  | JobHealth

text \<open>The worker thread: the proposer, the records of the recovery, the watermarks it appended.\<close>

record worker =
  wk_sh :: shared
  wk_replay :: "log_record list option"
  wk_wm_max :: "bytes \<rightharpoonup> nat"

record quorum_tail =
  qt_prop_key :: string
  qt_next_seq :: "table_ident \<rightharpoonup> nat"
  qt_poisoned :: "string option"
  qt_jobs :: "job list"
  qt_alive :: bool
  qt_worker :: worker

section \<open>The worker\<close>

definition seed_of :: "log_record list \<Rightarrow> bytes \<Rightarrow> nat" where
  "seed_of recs k = fold max (map r_seq (filter (\<lambda>r. r_table_key r = k) recs)) 0"

definition wm_of :: "log_record list \<Rightarrow> bytes \<Rightarrow> nat option" where
  "wm_of recs k =
     (let ws = filter (\<lambda>r. r_table_key r = k \<and> r_kind r = RECORD_WATERMARK) recs
      in if ws = [] then None else Some (fold max (map r_seq ws) 0))"

definition worker_seeds :: "log_record list \<Rightarrow> (bytes \<times> nat) list" where
  "worker_seeds recs = map (\<lambda>k. (k, seed_of recs k + 1)) (remdups (map r_table_key recs))"

definition worker_start :: "shared \<Rightarrow> log_record list \<Rightarrow> worker" where
  "worker_start sh recovered = \<lparr>wk_sh = sh, wk_replay = Some recovered, wk_wm_max = wm_of recovered\<rparr>"

text \<open>
  The job outcomes: an answer sent at once, or a wait for the commit of a position.  The flag of
  \<open>Spawned\<close> says that the wait nudges the horizon when it succeeds.
\<close>

datatype reply = Done "unit result" | Records "log_record list" | Spawned lsn bool

definition wm_get :: "(bytes \<rightharpoonup> nat) \<Rightarrow> bytes \<Rightarrow> nat" where
  "wm_get m k = (case m k of None \<Rightarrow> 0 | Some s \<Rightarrow> s)"

definition append_watermark_off_loop ::
  "(bytes \<Rightarrow> 32 word) \<Rightarrow> worker \<Rightarrow> bytes \<Rightarrow> nat \<Rightarrow> reply \<times> worker" where
  "append_watermark_off_loop crc wk key seq =
     (case submit crc (wk_sh wk) RECORD_WATERMARK key seq [] of
        (Inr e, sh) \<Rightarrow>
          (Spawned e True,
           wk\<lparr>wk_sh := sh, wk_wm_max := (wk_wm_max wk)(key \<mapsto> max (wm_get (wk_wm_max wk) key) seq)\<rparr>)
      | (Inl err, sh) \<Rightarrow> (Done (Inl err), wk\<lparr>wk_sh := sh\<rparr>))"

definition run_job :: "(bytes \<Rightarrow> 32 word) \<Rightarrow> worker \<Rightarrow> job \<Rightarrow> reply \<times> worker" where
  "run_job crc wk j =
     (case j of
        JobAppend key seq payload \<Rightarrow>
          (case submit crc (wk_sh wk) RECORD_FRAME key seq payload of
             (Inr e, sh) \<Rightarrow> (Spawned e False, wk\<lparr>wk_sh := sh\<rparr>)
           | (Inl err, sh) \<Rightarrow> (Done (Inl err), wk\<lparr>wk_sh := sh\<rparr>))
      | JobReplay \<Rightarrow>
          (Records (case wk_replay wk of None \<Rightarrow> [] | Some rs \<Rightarrow> rs), wk\<lparr>wk_replay := None\<rparr>)
      | JobTruncate key upto_seq \<Rightarrow>
          (case note_covered (wk_sh wk) key upto_seq of
             (None, sh) \<Rightarrow> (Done (Inr ()), wk\<lparr>wk_sh := sh\<rparr>)
           | (Some (k, s), sh) \<Rightarrow> (Done (Inr ()), snd (append_watermark_off_loop crc (wk\<lparr>wk_sh := sh\<rparr>) k s)))
      | JobRecordWatermark key seq \<Rightarrow>
          (if wm_get (wk_wm_max wk) key \<ge> seq then (Done (Inr ()), wk)
           else append_watermark_off_loop crc wk key seq)
      | JobHealth \<Rightarrow>
          (case sh_poison (wk_sh wk) of
             None \<Rightarrow> (Done (Inr ()), wk)
           | Some why \<Rightarrow> (Done (Inl (''quorum tail is POISONED: '' @ why)), wk)))"

text \<open>The spawned wait: the commit wait of the proposer, then the horizon for a watermark.\<close>

definition spawned_wait ::
  "((shared \<Rightarrow> shared) \<times> wake) list \<Rightarrow> lsn \<Rightarrow> bool \<Rightarrow> worker \<Rightarrow> (unit result) option \<times> worker" where
  "spawned_wait awaits e nudge wk =
     (case wait_commit awaits (wk_sh wk) e False of
        (r, sh) \<Rightarrow>
          (r, wk\<lparr>wk_sh := (if nudge \<and> r = Some (Inr ()) then snd (nudge_horizon sh) else sh)\<rparr>))"

section \<open>The store\<close>

fun seed_map :: "(bytes list \<Rightarrow> table_ident option) \<Rightarrow> (bytes \<times> nat) list \<Rightarrow> (table_ident \<rightharpoonup> nat) \<Rightarrow> (table_ident \<rightharpoonup> nat)" where
  "seed_map from_strs [] m = m"
| "seed_map from_strs ((k, n) # ss) m =
     seed_map from_strs ss (case parse_table_dir_name from_strs k of None \<Rightarrow> m | Some t \<Rightarrow> m(t \<mapsto> n))"

definition open_tail ::
  "(bytes list \<Rightarrow> table_ident option) \<Rightarrow> shared \<Rightarrow> log_record list \<Rightarrow> quorum_tail" where
  "open_tail from_strs sh recovered =
     \<lparr>qt_prop_key = TAIL_SEQ_PROPERTY_PREFIX @ sh_tail_id sh,
      qt_next_seq = seed_map from_strs (worker_seeds recovered) Map.empty, qt_poisoned = None,
      qt_jobs = [], qt_alive = True, qt_worker = worker_start sh recovered\<rparr>"

definition check_poisoned :: "quorum_tail \<Rightarrow> unit result" where
  "check_poisoned qt =
     (case qt_poisoned qt of None \<Rightarrow> Inr () | Some why \<Rightarrow> Inl (''quorum tail is POISONED: '' @ why))"

text \<open>Sending a job: the channel is closed once the worker is gone.\<close>

definition call :: "job \<Rightarrow> quorum_tail \<Rightarrow> unit result \<times> quorum_tail" where
  "call j qt =
     (if qt_alive qt then (Inr (), qt\<lparr>qt_jobs := qt_jobs qt @ [j]\<rparr>)
      else (Inl ''tail-quorum worker is gone; restart the server'', qt))"

definition next_seq_of :: "quorum_tail \<Rightarrow> table_ident \<Rightarrow> nat" where
  "next_seq_of qt t = (case qt_next_seq qt t of None \<Rightarrow> 1 | Some s \<Rightarrow> s)"

definition quorum_append_staged ::
  "('b list \<Rightarrow> bytes result) \<Rightarrow> table_ident \<Rightarrow> tail_op_kind \<Rightarrow> 'b list \<Rightarrow> quorum_tail \<Rightarrow> nat result \<times> quorum_tail" where
  "quorum_append_staged ipc t kind batches qt =
     (case check_poisoned qt of
        Inl e \<Rightarrow> (Inl e, qt)
      | Inr _ \<Rightarrow>
          (case table_dir_name t of
             Inl e \<Rightarrow> (Inl e, qt)
           | Inr key \<Rightarrow>
               (case encode_op_payload ipc kind batches of
                  Inl e \<Rightarrow> (Inl e, qt)
                | Inr payload \<Rightarrow>
                    (let seq = next_seq_of qt t; qt1 = qt\<lparr>qt_next_seq := (qt_next_seq qt)(t \<mapsto> seq)\<rparr> in
                     case call (JobAppend key seq payload) qt1 of
                       (Inl e, qt2) \<Rightarrow> (Inl e, qt2)
                     | (Inr _, qt2) \<Rightarrow> (Inr seq, qt2\<lparr>qt_next_seq := (qt_next_seq qt2)(t \<mapsto> seq + 1)\<rparr>)))))"

text \<open>The waiter of a staged append: \<open>None\<close> is a channel that closed without an answer.\<close>

definition wait_append_outcome :: "(unit result) option \<Rightarrow> quorum_tail \<Rightarrow> unit result \<times> quorum_tail" where
  "wait_append_outcome received qt =
     (case received of
        Some r \<Rightarrow> (r, qt)
      | None \<Rightarrow>
          (Inl ''quorum tail is POISONED: the append died without reporting an outcome'',
           qt\<lparr>qt_poisoned := (case qt_poisoned qt of
                None \<Rightarrow> Some ''the append died without reporting an outcome'' | Some w \<Rightarrow> Some w)\<rparr>))"

definition quorum_truncate :: "table_ident \<Rightarrow> nat \<Rightarrow> quorum_tail \<Rightarrow> unit result \<times> quorum_tail" where
  "quorum_truncate t upto_seq qt =
     (case table_dir_name t of Inl e \<Rightarrow> (Inl e, qt) | Inr key \<Rightarrow> call (JobTruncate key upto_seq) qt)"

definition quorum_record_watermark :: "table_ident \<Rightarrow> nat \<Rightarrow> quorum_tail \<Rightarrow> unit result \<times> quorum_tail" where
  "quorum_record_watermark t seq qt =
     (case table_dir_name t of Inl e \<Rightarrow> (Inl e, qt) | Inr key \<Rightarrow> call (JobRecordWatermark key seq) qt)"

definition quorum_ensure_seq_floor :: "table_ident \<Rightarrow> nat \<Rightarrow> quorum_tail \<Rightarrow> quorum_tail" where
  "quorum_ensure_seq_floor t n qt = qt\<lparr>qt_next_seq := (qt_next_seq qt)(t \<mapsto> max (next_seq_of qt t) n)\<rparr>"

definition quorum_health :: "quorum_tail \<Rightarrow> unit result \<times> quorum_tail" where
  "quorum_health qt =
     (case check_poisoned qt of Inl e \<Rightarrow> (Inl e, qt) | Inr _ \<Rightarrow> call JobHealth qt)"

section \<open>Replay\<close>

record 'b replayed_table =
  rt_ident :: table_ident
  rt_frames :: "(nat \<times> 'b tail_op) list"
  rt_sidecar :: "nat option"

type_synonym 'b table_fold = "bytes \<times> (nat \<times> 'b tail_op) list \<times> nat option"

text \<open>The entry of a table: created on its first record, updated in place.\<close>

fun fold_entry ::
  "bytes \<Rightarrow> ((nat \<times> 'b tail_op) list \<times> nat option \<Rightarrow> (nat \<times> 'b tail_op) list \<times> nat option) \<Rightarrow>
   'b table_fold list \<Rightarrow> 'b table_fold list" where
  "fold_entry k f [] = [(k, f ([], None))]"
| "fold_entry k f ((k', v) # es) = (if k' = k then (k', f v) # es else (k', v) # fold_entry k f es)"

fun replay_fold ::
  "(bytes \<Rightarrow> 'b list result) \<Rightarrow> log_record list \<Rightarrow> 'b table_fold list \<Rightarrow> ('b table_fold list) result" where
  "replay_fold unipc [] acc = Inr acc"
| "replay_fold unipc (r # rs) acc =
     (if r_kind r = RECORD_FRAME
      then (case decode_op_payload unipc (r_body r) of
              Inl e \<Rightarrow> Inl ''quorum-tail record does not decode''
            | Inr op \<Rightarrow> replay_fold unipc rs (fold_entry (r_table_key r) (\<lambda>v. (fst v @ [(r_seq r, op)], snd v)) acc))
      else if r_kind r = RECORD_WATERMARK
      then replay_fold unipc rs (fold_entry (r_table_key r)
             (\<lambda>v. (fst v, Some (max (case snd v of None \<Rightarrow> 0 | Some s \<Rightarrow> s) (r_seq r)))) acc)
      else Inl ''quorum-tail record has unknown kind'')"

fun replay_idents :: "(bytes list \<Rightarrow> table_ident option) \<Rightarrow> 'b table_fold list \<Rightarrow> 'b replayed_table list" where
  "replay_idents from_strs [] = []"
| "replay_idents from_strs ((k, fs, wm) # es) =
     (case parse_table_dir_name from_strs k of
        None \<Rightarrow> replay_idents from_strs es
      | Some t \<Rightarrow> \<lparr>rt_ident = t, rt_frames = fs, rt_sidecar = wm\<rparr> # replay_idents from_strs es)"

definition quorum_replay ::
  "(bytes list \<Rightarrow> table_ident option) \<Rightarrow> (bytes \<Rightarrow> 'b list result) \<Rightarrow> log_record list \<Rightarrow> ('b replayed_table list) result" where
  "quorum_replay from_strs unipc recs =
     rbind (replay_fold unipc recs []) (\<lambda>es. Inr (replay_idents from_strs es))"

section \<open>Steps\<close>

text \<open>
  The operations of the store, one job of the worker, a change by the other tasks of the proposer,
  the outcome of a wait and the death of the worker, in any order.
\<close>

datatype 'b quorum_event =
    QStage table_ident tail_op_kind "'b list"
  | QTruncate table_ident nat
  | QWatermark table_ident nat
  | QFloor table_ident nat
  | QHealth
  | QReplay
  | QWork
  | QTasks "shared \<Rightarrow> shared"
  | QOutcome "(unit result) option"
  | QDeath

fun quorum_step :: "(bytes \<Rightarrow> 32 word) \<Rightarrow> ('b list \<Rightarrow> bytes result) \<Rightarrow> quorum_tail \<Rightarrow> 'b quorum_event \<Rightarrow> quorum_tail option" where
  "quorum_step crc ipc qt (QStage t kind batches) = Some (snd (quorum_append_staged ipc t kind batches qt))"
| "quorum_step crc ipc qt (QTruncate t n) = Some (snd (quorum_truncate t n qt))"
| "quorum_step crc ipc qt (QWatermark t n) = Some (snd (quorum_record_watermark t n qt))"
| "quorum_step crc ipc qt (QFloor t n) = Some (quorum_ensure_seq_floor t n qt)"
| "quorum_step crc ipc qt QHealth = Some (snd (quorum_health qt))"
| "quorum_step crc ipc qt QReplay = Some (snd (call JobReplay qt))"
| "quorum_step crc ipc qt QWork =
     (case qt_jobs qt of
        [] \<Rightarrow> None
      | j # js \<Rightarrow> Some (qt\<lparr>qt_jobs := js, qt_worker := snd (run_job crc (qt_worker qt) j)\<rparr>))"
| "quorum_step crc ipc qt (QTasks f) = Some (qt\<lparr>qt_worker := (qt_worker qt)\<lparr>wk_sh := f (wk_sh (qt_worker qt))\<rparr>\<rparr>)"
| "quorum_step crc ipc qt (QOutcome r) = Some (snd (wait_append_outcome r qt))"
| "quorum_step crc ipc qt QDeath = Some (qt\<lparr>qt_alive := False, qt_jobs := []\<rparr>)"

fun quorum_run :: "(bytes \<Rightarrow> 32 word) \<Rightarrow> ('b list \<Rightarrow> bytes result) \<Rightarrow> quorum_tail \<Rightarrow> 'b quorum_event list \<Rightarrow> quorum_tail option" where
  "quorum_run crc ipc qt [] = Some qt"
| "quorum_run crc ipc qt (e # es) = Option.bind (quorum_step crc ipc qt e) (\<lambda>qt'. quorum_run crc ipc qt' es)"

end
