(* ===== verification/TailQuorumSpec.thy ===== *)
theory TailQuorumSpec
  imports TailQuorum TailReplay LeaseSpec
begin

text \<open>
  What the quorum tail promises: per table, the log holds the staged operations in the order of
  their sequence numbers and no number twice, whatever fails in between; and replay returns, per
  table, exactly the operations of its log records in order, with the highest watermark.
\<close>

section \<open>Replay against a reference definition\<close>

definition first_keys :: "log_record list \<Rightarrow> bytes list" where
  "first_keys recs = rev (remdups (rev (map r_table_key recs)))"

definition frames_for :: "(bytes \<Rightarrow> 'b list result) \<Rightarrow> log_record list \<Rightarrow> bytes \<Rightarrow> (nat \<times> 'b tail_op) list" where
  "frames_for unipc recs k =
     map (\<lambda>r. (r_seq r, projr (decode_op_payload unipc (r_body r))))
       (filter (\<lambda>r. r_kind r = RECORD_FRAME \<and> r_table_key r = k) recs)"

definition legible :: "(bytes \<Rightarrow> 'b list result) \<Rightarrow> log_record \<Rightarrow> bool" where
  "legible unipc r \<longleftrightarrow>
     r_kind r = RECORD_FRAME \<and> \<not> isl (decode_op_payload unipc (r_body r)) \<or> r_kind r = RECORD_WATERMARK"

lemma kinds_differ [simp]: "RECORD_FRAME \<noteq> RECORD_WATERMARK" "RECORD_WATERMARK \<noteq> RECORD_FRAME"
  by (simp_all add: RECORD_FRAME_def RECORD_WATERMARK_def)

lemma first_keys_snoc:
  "first_keys (recs @ [r]) =
     (if r_table_key r \<in> set (first_keys recs) then first_keys recs else first_keys recs @ [r_table_key r])"
  by (simp add: first_keys_def)

lemma first_keys_set [simp]: "set (first_keys recs) = r_table_key ` set recs" "distinct (first_keys recs)"
  by (simp_all add: first_keys_def)

lemma fold_entry_map:
  assumes "distinct ks" "k \<notin> set ks \<Longrightarrow> g k = ([], None)"
  shows "fold_entry k f (map (\<lambda>k. (k, g k)) ks) =
    map (\<lambda>k'. (k', (g(k := f (g k))) k')) (if k \<in> set ks then ks else ks @ [k])"
  using assms by (induction ks) auto

lemma frames_for_snoc:
  "frames_for unipc (recs @ [r]) = (if r_kind r = RECORD_FRAME
     then (frames_for unipc recs)(r_table_key r := frames_for unipc recs (r_table_key r) @ [(r_seq r, projr (decode_op_payload unipc (r_body r)))])
     else frames_for unipc recs)"
  by (auto simp: frames_for_def)

lemma wm_of_snoc:
  "wm_of (recs @ [r]) = (if r_kind r = RECORD_WATERMARK
     then (wm_of recs)(r_table_key r \<mapsto> max (case wm_of recs (r_table_key r) of None \<Rightarrow> 0 | Some s \<Rightarrow> s) (r_seq r))
     else wm_of recs)"
  by (rule ext) (auto simp: wm_of_def Let_def max.commute)

lemma replay_fold_spec:
  assumes "\<forall>r\<in>set rs. legible unipc r"
  shows "replay_fold unipc rs (map (\<lambda>k. (k, frames_for unipc seen k, wm_of seen k)) (first_keys seen)) =
    Inr (map (\<lambda>k. (k, frames_for unipc (seen @ rs) k, wm_of (seen @ rs) k)) (first_keys (seen @ rs)))"
  using assms
proof (induction rs arbitrary: seen)
  case Nil
  then show ?case by simp
next
  case (Cons r rs)
  let ?g = "\<lambda>s k. (frames_for unipc s k, wm_of s k)" and ?k = "r_table_key r"
  have new: "?g seen ?k = ([], None)" if "?k \<notin> set (first_keys seen)"
    using that by (auto simp: frames_for_def wm_of_def filter_empty_conv image_iff)
  have turn: "fold_entry ?k f (map (\<lambda>k. (k, ?g seen k)) (first_keys seen)) = map (\<lambda>k. (k, ?g (seen @ [r]) k)) (first_keys (seen @ [r]))"
    if u: "(?g seen)(?k := f (?g seen ?k)) = ?g (seen @ [r])" for f
    using fold_entry_map [OF first_keys_set(2), where g = "?g seen" and f = f, OF new] unfolding u first_keys_snoc by blast
  have ih: "replay_fold unipc rs (map (\<lambda>k. (k, ?g (seen @ [r]) k)) (first_keys (seen @ [r]))) =
    Inr (map (\<lambda>k. (k, frames_for unipc (seen @ r # rs) k, wm_of (seen @ r # rs) k)) (first_keys (seen @ r # rs)))"
    using Cons.IH [of "seen @ [r]"] Cons.prems by simp
  show ?case
  proof (cases "r_kind r = RECORD_FRAME")
    case True
    then obtain op where op: "decode_op_payload unipc (r_body r) = Inr op"
      using Cons.prems by (cases "decode_op_payload unipc (r_body r)") (auto simp: legible_def)
    have "(?g seen)(?k := (\<lambda>v. (fst v @ [(r_seq r, op)], snd v)) (?g seen ?k)) = ?g (seen @ [r])"
      using True op by (auto simp: frames_for_snoc wm_of_snoc)
    note t = turn [of "\<lambda>v. (fst v @ [(r_seq r, op)], snd v)", OF this]
    show ?thesis by (simp only: replay_fold.simps True op simp_thms if_True sum.case t ih)
  next
    case False
    then have wm: "r_kind r = RECORD_WATERMARK" using Cons.prems by (auto simp: legible_def)
    have "(?g seen)(?k := (\<lambda>v. (fst v, Some (max (case snd v of None \<Rightarrow> 0 | Some s \<Rightarrow> s) (r_seq r)))) (?g seen ?k)) = ?g (seen @ [r])"
      using wm by (auto simp: frames_for_snoc wm_of_snoc)
    note t = turn [of "\<lambda>v. (fst v, Some (max (case snd v of None \<Rightarrow> 0 | Some s \<Rightarrow> s) (r_seq r)))", OF this]
    show ?thesis by (simp only: replay_fold.simps wm kinds_differ simp_thms if_True if_False t ih)
  qed
qed

lemma replay_fold_error:
  assumes "\<not> (\<forall>r\<in>set rs. legible unipc r)"
  shows "\<exists>e. replay_fold unipc rs acc = Inl e"
  using assms
proof (induction rs arbitrary: acc)
  case (Cons r rs)
  then show ?case by (cases "decode_op_payload unipc (r_body r)") (auto simp: legible_def)
qed simp

lemma replay_idents_eq:
  "replay_idents from_strs es =
     map (\<lambda>(k, fs, wm). \<lparr>rt_ident = the (parse_table_dir_name from_strs k), rt_frames = fs, rt_sidecar = wm\<rparr>)
       (filter (\<lambda>(k, fs, wm). parse_table_dir_name from_strs k \<noteq> None) es)"
  by (induction from_strs es rule: replay_idents.induct) (auto split: option.splits)

lemma quorum_replay_spec:
  "quorum_replay from_strs unipc recs = (if \<forall>r\<in>set recs. legible unipc r
     then Inr (map (\<lambda>k. \<lparr>rt_ident = the (parse_table_dir_name from_strs k), rt_frames = frames_for unipc recs k, rt_sidecar = wm_of recs k\<rparr>)
       (filter (\<lambda>k. parse_table_dir_name from_strs k \<noteq> None) (first_keys recs)))
     else Inl (projl (quorum_replay from_strs unipc recs)))"
proof (cases "\<forall>r\<in>set recs. legible unipc r")
  case True
  have "replay_fold unipc recs [] = Inr (map (\<lambda>k. (k, frames_for unipc recs k, wm_of recs k)) (first_keys recs))"
    using replay_fold_spec [OF True, of "[]"] by (simp add: first_keys_def)
  then show ?thesis using True by (simp add: quorum_replay_def replay_idents_eq filter_map comp_def)
next
  case False
  then show ?thesis using replay_fold_error [OF False, of "[]"] by (auto simp: quorum_replay_def rbind_def)
qed


section \<open>The log is in sequence order\<close>

definition frame_seqs :: "shared \<Rightarrow> bytes \<Rightarrow> nat list" where
  "frame_seqs sh k = map rm_seq (filter (\<lambda>m. rm_kind m = RECORD_FRAME \<and> rm_table_key m = k) (lb_records (sh_log sh)))"

fun job_seqs :: "bytes \<Rightarrow> job list \<Rightarrow> nat list" where
  "job_seqs k [] = []"
| "job_seqs k (JobAppend k' s p # js) = (if k' = k then s # job_seqs k js else job_seqs k js)"
| "job_seqs k (_ # js) = job_seqs k js"

text \<open>A table whose key parses back to it.\<close>

definition legal :: "(bytes list \<Rightarrow> table_ident option) \<Rightarrow> table_ident \<Rightarrow> bytes \<Rightarrow> bool" where
  "legal from_strs t k \<longleftrightarrow> table_dir_name t = Inr k \<and> parse_table_dir_name from_strs k = Some t"

definition order_inv :: "(bytes list \<Rightarrow> table_ident option) \<Rightarrow> quorum_tail \<Rightarrow> bool" where
  "order_inv from_strs qt \<longleftrightarrow>
     (\<forall>t k. legal from_strs t k \<longrightarrow>
        sorted_wrt (<) (frame_seqs (wk_sh (qt_worker qt)) k @ job_seqs k (qt_jobs qt)) \<and>
        (\<forall>s\<in>set (frame_seqs (wk_sh (qt_worker qt)) k @ job_seqs k (qt_jobs qt)). s < next_seq_of qt t))"

text \<open>
  The other tasks of the proposer (streaming, acknowledgements, re-election, horizon) never add a
  record to its log; they may drop a prefix.
\<close>

definition records_kept :: "(shared \<Rightarrow> shared) \<Rightarrow> bool" where
  "records_kept f \<longleftrightarrow> (\<forall>sh. \<exists>xs. lb_records (sh_log sh) = xs @ lb_records (sh_log (f sh)))"

fun keeps_records :: "'b quorum_event \<Rightarrow> bool" where
  "keeps_records (QTasks f) \<longleftrightarrow> records_kept f"
| "keeps_records _ \<longleftrightarrow> True"

lemma job_seqs_append [simp]: "job_seqs k (xs @ ys) = job_seqs k xs @ job_seqs k ys"
proof (induction xs)
  case (Cons x xs)
  then show ?case by (cases x) auto
qed simp

lemma drop_front_suffix: "\<exists>xs. rs = xs @ snd (drop_front d b rs)"
proof (induction rs arbitrary: b)
  case (Cons r rs)
  then obtain xs where "rs = xs @ snd (drop_front d (rm_end r) rs)" by blast
  then show ?case by (auto intro: exI [of _ "r # xs"])
qed simp

lemma advance_horizon_suffix: "\<exists>xs. lb_records (sh_log sh) = xs @ lb_records (sh_log (snd (advance_horizon_locked sh)))"
  using drop_front_suffix by (auto simp: advance_horizon_locked_def Let_def)

lemma note_covered_suffix: "\<exists>xs. lb_records (sh_log sh) = xs @ lb_records (sh_log (snd (note_covered sh k n)))"
proof -
  let ?sh = "sh\<lparr>sh_log := (sh_log sh)\<lparr>lb_covered := (lb_covered (sh_log sh))(k \<mapsto> max (covered_of (sh_log sh) k) n)\<rparr>\<rparr>"
  show ?thesis using advance_horizon_suffix [of ?sh] by (simp add: note_covered_def Let_def)
qed

lemma proposer_tasks_keep_records:
  "records_kept (\<lambda>sh. snd (store_ack sh i t f))" "records_kept (\<lambda>sh. snd (advance_horizon_locked sh))"
  "records_kept (\<lambda>sh. poison sh why)" "records_kept (\<lambda>sh. request_reelection sh r)"
  using advance_horizon_suffix
  by (auto simp: records_kept_def store_ack_def set_peer_def recompute_commit_at_def poison_def request_reelection_def Let_def
      split: option.splits)

lemma submit_records:
  assumes "submit crc sh kind k s body = (r, sh')"
  shows "case r of
      Inl _ \<Rightarrow> lb_records (sh_log sh') = lb_records (sh_log sh)
    | Inr e \<Rightarrow> \<exists>m. lb_records (sh_log sh') = lb_records (sh_log sh) @ [m] \<and> rm_kind m = kind \<and> rm_table_key m = k \<and> rm_seq m = s \<and>
        rm_end m = e \<and>
        record_encode crc \<lparr>r_lsn = rm_start m, r_kind = kind, r_table_key = k, r_seq = s, r_body = body\<rparr> = Inr (rm_frame m)"
  using assms by (auto simp: submit_def Let_def split: option.splits sum.splits if_splits)

lemma frame_seqs_submit:
  assumes "submit crc sh kind k s body = (r, sh')"
  shows "frame_seqs sh' k' = frame_seqs sh k' @ (if kind = RECORD_FRAME \<and> k' = k \<and> \<not> isl r then [s] else [])"
  using submit_records [OF assms] by (auto simp: frame_seqs_def split: sum.splits)

lemma frame_seqs_suffix:
  assumes "lb_records (sh_log sh) = xs @ lb_records (sh_log sh')"
  shows "\<exists>ys. frame_seqs sh k = ys @ frame_seqs sh' k"
  by (rule exI [of _ "map rm_seq (filter (\<lambda>m. rm_kind m = RECORD_FRAME \<and> rm_table_key m = k) xs)"])
     (simp add: frame_seqs_def assms)

lemma watermark_frames:
  assumes "append_watermark_off_loop crc wk k s = (r, wk')"
  shows "frame_seqs (wk_sh wk') k' = frame_seqs (wk_sh wk) k'"
  using assms frame_seqs_submit [of crc "wk_sh wk" RECORD_WATERMARK k s "[]" _ _ k']
  by (auto simp: append_watermark_off_loop_def split: prod.splits sum.splits)

text \<open>A job leaves a suffix of the frames and adds at most its own.\<close>

lemma run_job_frames:
  assumes "run_job crc wk j = (r, wk')"
  shows "\<exists>ys zs. frame_seqs (wk_sh wk) k = ys @ zs \<and>
    (frame_seqs (wk_sh wk') k = zs \<or> frame_seqs (wk_sh wk') k = zs @ job_seqs k [j])"
proof (cases j)
  case (JobAppend k1 s p)
  obtain rr sh' where s: "submit crc (wk_sh wk) RECORD_FRAME k1 s p = (rr, sh')"
    by (cases "submit crc (wk_sh wk) RECORD_FRAME k1 s p")
  then have "wk_sh wk' = sh'" using assms JobAppend by (auto simp: run_job_def split: sum.splits)
  then show ?thesis using frame_seqs_submit [OF s, of k] JobAppend by auto
next
  case (JobTruncate k1 n)
  obtain rf sh' where nc: "note_covered (wk_sh wk) k1 n = (rf, sh')" by (cases "note_covered (wk_sh wk) k1 n")
  then obtain xs where "lb_records (sh_log (wk_sh wk)) = xs @ lb_records (sh_log sh')"
    using note_covered_suffix [of "wk_sh wk" k1 n] by auto
  then obtain ys where ys: "frame_seqs (wk_sh wk) k = ys @ frame_seqs sh' k" using frame_seqs_suffix by blast
  have "frame_seqs (wk_sh wk') k = frame_seqs sh' k"
  proof (cases rf)
    case None
    then show ?thesis using assms JobTruncate nc by (auto simp: run_job_def)
  next
    case (Some ks)
    then show ?thesis using assms JobTruncate nc
      watermark_frames [of crc "wk\<lparr>wk_sh := sh'\<rparr>" "fst ks" "snd ks" _ wk' k]
      by (auto simp: run_job_def prod_eq_iff split: prod.splits)
  qed
  then show ?thesis using ys by blast
next
  case (JobRecordWatermark k1 s)
  then show ?thesis using assms watermark_frames [of crc wk k1 s r wk' k]
    by (intro exI [of _ "[]"] exI [of _ "frame_seqs (wk_sh wk) k"]) (auto simp: run_job_def split: if_splits)
qed (use assms in \<open>auto simp: run_job_def split: option.splits\<close>)


lemma sorted_wrt_suffix_front: "sorted_wrt P (ys @ zs @ ws) \<Longrightarrow> sorted_wrt P (zs @ ws)"
  by (simp add: sorted_wrt_append)

lemma order_inv_shrink:
  assumes "order_inv from_strs qt" "qt_next_seq qt' = qt_next_seq qt"
    and "\<And>k. \<exists>ys zs js. frame_seqs (wk_sh (qt_worker qt)) k = ys @ zs \<and> job_seqs k (qt_jobs qt) = js @ job_seqs k (qt_jobs qt') \<and>
      (frame_seqs (wk_sh (qt_worker qt')) k = zs \<or> frame_seqs (wk_sh (qt_worker qt')) k = zs @ js)"
  shows "order_inv from_strs qt'"
  unfolding order_inv_def
proof (intro allI impI)
  fix t k
  assume "legal from_strs t k"
  then have o: "sorted_wrt (<) (frame_seqs (wk_sh (qt_worker qt)) k @ job_seqs k (qt_jobs qt))"
    "\<forall>s\<in>set (frame_seqs (wk_sh (qt_worker qt)) k @ job_seqs k (qt_jobs qt)). s < next_seq_of qt t"
    using assms(1) unfolding order_inv_def by blast+
  obtain ys zs js where f: "frame_seqs (wk_sh (qt_worker qt)) k = ys @ zs" "job_seqs k (qt_jobs qt) = js @ job_seqs k (qt_jobs qt')"
    "frame_seqs (wk_sh (qt_worker qt')) k = zs \<or> frame_seqs (wk_sh (qt_worker qt')) k = zs @ js" using assms(3) by blast
  have n: "next_seq_of qt' t = next_seq_of qt t" using assms(2) by (simp add: next_seq_of_def)
  show "sorted_wrt (<) (frame_seqs (wk_sh (qt_worker qt')) k @ job_seqs k (qt_jobs qt')) \<and>
    (\<forall>s\<in>set (frame_seqs (wk_sh (qt_worker qt')) k @ job_seqs k (qt_jobs qt')). s < next_seq_of qt' t)"
    using o f n by (auto simp: sorted_wrt_append)
qed

lemma order_inv_same:
  assumes "order_inv from_strs qt" "qt_next_seq qt' = qt_next_seq qt" "qt_worker qt' = qt_worker qt"
    and "\<And>k. job_seqs k (qt_jobs qt') = job_seqs k (qt_jobs qt)"
  shows "order_inv from_strs qt'"
  using assms by (simp add: order_inv_def next_seq_of_def)

lemma stage_order:
  assumes "order_inv from_strs qt"
  shows "order_inv from_strs (snd (quorum_append_staged ipc t kind batches qt))"
proof (cases "check_poisoned qt")
  case (Inl e)
  then show ?thesis using assms by (simp add: quorum_append_staged_def)
next
  case p: (Inr u)
  show ?thesis
  proof (cases "table_dir_name t")
    case (Inl e)
    then show ?thesis using assms p by (simp add: quorum_append_staged_def)
  next
    case k: (Inr key)
    show ?thesis
    proof (cases "encode_op_payload ipc kind batches")
      case (Inl e)
      then show ?thesis using assms p k by (simp add: quorum_append_staged_def)
    next
      case (Inr payload)
      let ?n = "next_seq_of qt t"
      let ?qt = "qt\<lparr>qt_jobs := qt_jobs qt @ [JobAppend key ?n payload], qt_next_seq := (qt_next_seq qt)(t \<mapsto> ?n + 1)\<rparr>"
      have "order_inv from_strs ?qt"
        unfolding order_inv_def
      proof (intro allI impI)
        fix t' k'
        assume l: "legal from_strs t' k'"
        then have o: "sorted_wrt (<) (frame_seqs (wk_sh (qt_worker qt)) k' @ job_seqs k' (qt_jobs qt))"
          "\<forall>s\<in>set (frame_seqs (wk_sh (qt_worker qt)) k' @ job_seqs k' (qt_jobs qt)). s < next_seq_of qt t'"
          using assms unfolding order_inv_def by blast+
        show "sorted_wrt (<) (frame_seqs (wk_sh (qt_worker ?qt)) k' @ job_seqs k' (qt_jobs ?qt)) \<and>
          (\<forall>s\<in>set (frame_seqs (wk_sh (qt_worker ?qt)) k' @ job_seqs k' (qt_jobs ?qt)). s < next_seq_of ?qt t')"
        proof (cases "t' = t")
          case True
          then have "k' = key" "next_seq_of ?qt t' = ?n + 1" using l k by (simp_all add: legal_def next_seq_of_def)
          then show ?thesis using o True by (auto simp: sorted_wrt_append less_Suc_eq)
        next
          case False
          then have "k' \<noteq> key" using l k table_keys_distinct by (auto simp: legal_def)
          then show ?thesis using o False by (simp add: next_seq_of_def)
        qed
      qed
      moreover have "order_inv from_strs (qt\<lparr>qt_next_seq := (qt_next_seq qt)(t \<mapsto> ?n)\<rparr>)"
        using assms by (auto simp: order_inv_def next_seq_of_def)
      ultimately show ?thesis
        using p k Inr by (simp add: quorum_append_staged_def call_def Let_def)
    qed
  qed
qed

lemma step_order:
  assumes inv: "order_inv from_strs qt" and st: "quorum_step crc ipc qt e = Some qt'" and k: "keeps_records e"
  shows "order_inv from_strs qt'"
proof (cases e)
  case (QStage t kind batches)
  then show ?thesis using stage_order [OF inv, of ipc t kind batches] st by simp
next
  case QWork
  then obtain j js where j: "qt_jobs qt = j # js" "qt' = qt\<lparr>qt_jobs := js, qt_worker := snd (run_job crc (qt_worker qt) j)\<rparr>"
    using st by (auto split: list.splits)
  show ?thesis
  proof (rule order_inv_shrink [OF inv])
    fix k
    obtain ys zs where f: "frame_seqs (wk_sh (qt_worker qt)) k = ys @ zs"
      "frame_seqs (wk_sh (snd (run_job crc (qt_worker qt) j))) k = zs \<or> frame_seqs (wk_sh (snd (run_job crc (qt_worker qt) j))) k = zs @ job_seqs k [j]"
      using run_job_frames [of crc "qt_worker qt" j "fst (run_job crc (qt_worker qt) j)" "snd (run_job crc (qt_worker qt) j)" k] by auto
    have "job_seqs k (qt_jobs qt) = job_seqs k [j] @ job_seqs k (qt_jobs qt')" using j job_seqs_append [of k "[j]" js] by simp
    then show "\<exists>ys zs js. frame_seqs (wk_sh (qt_worker qt)) k = ys @ zs \<and> job_seqs k (qt_jobs qt) = js @ job_seqs k (qt_jobs qt') \<and>
      (frame_seqs (wk_sh (qt_worker qt')) k = zs \<or> frame_seqs (wk_sh (qt_worker qt')) k = zs @ js)" using f j(2) by auto
  qed (use j(2) in simp)
next
  case (QTasks f)
  then have qt': "qt' = qt\<lparr>qt_worker := (qt_worker qt)\<lparr>wk_sh := f (wk_sh (qt_worker qt))\<rparr>\<rparr>" using st by simp
  obtain xs where "lb_records (sh_log (wk_sh (qt_worker qt))) = xs @ lb_records (sh_log (f (wk_sh (qt_worker qt))))"
    using k QTasks by (auto simp: records_kept_def)
  from frame_seqs_suffix [OF this] show ?thesis
    by (intro order_inv_shrink [OF inv]) (auto simp: qt')
next
  case (QFloor t n)
  then show ?thesis using st inv
    by (auto simp: quorum_ensure_seq_floor_def order_inv_def next_seq_of_def less_max_iff_disj)
next
  case QDeath
  then have qt': "qt' = qt\<lparr>qt_alive := False, qt_jobs := []\<rparr>" using st by simp
  show ?thesis by (rule order_inv_shrink [OF inv]) (auto simp: qt' intro: exI [of _ "[]"])
qed (rule order_inv_same [OF inv], use st in \<open>auto simp: quorum_truncate_def quorum_record_watermark_def quorum_health_def
      call_def wait_append_outcome_def split: sum.splits option.splits if_splits\<close>)+

lemma run_order:
  "order_inv from_strs qt \<Longrightarrow> quorum_run crc ipc qt es = Some qt' \<Longrightarrow> \<forall>e\<in>set es. keeps_records e \<Longrightarrow> order_inv from_strs qt'"
  by (induction es arbitrary: qt) (auto split: bind_splits dest: step_order)


section \<open>The log holds what was staged\<close>

text \<open>The operations a run stages: the table, the sequence number it got and the operation.\<close>

fun staged_of :: "('b list \<Rightarrow> bytes result) \<Rightarrow> quorum_tail \<Rightarrow> 'b quorum_event \<Rightarrow> (table_ident \<times> nat \<times> 'b tail_op) list" where
  "staged_of ipc qt (QStage t kind batches) =
     (case fst (quorum_append_staged ipc t kind batches qt) of Inl _ \<Rightarrow> [] | Inr seq \<Rightarrow> [(t, seq, mk_op kind batches)])"
| "staged_of ipc qt _ = []"

fun quorum_staged :: "(bytes \<Rightarrow> 32 word) \<Rightarrow> ('b list \<Rightarrow> bytes result) \<Rightarrow> quorum_tail \<Rightarrow> 'b quorum_event list \<Rightarrow> (table_ident \<times> nat \<times> 'b tail_op) list" where
  "quorum_staged crc ipc qt [] = []"
| "quorum_staged crc ipc qt (e # es) =
     (case quorum_step crc ipc qt e of None \<Rightarrow> [] | Some qt' \<Rightarrow> staged_of ipc qt e @ quorum_staged crc ipc qt' es)"

definition op_ok :: "(table_ident \<times> nat \<times> 'b tail_op) set \<Rightarrow> (bytes \<Rightarrow> 'b list result) \<Rightarrow> bytes \<Rightarrow> nat \<Rightarrow> bytes \<Rightarrow> bool" where
  "op_ok S unipc k s p \<longleftrightarrow> (\<exists>t op. table_dir_name t = Inr k \<and> (t, s, op) \<in> S \<and> decode_op_payload unipc p = Inr op)"

text \<open>A record of the proposer's log and the log record it encodes.\<close>

definition holds :: "(bytes \<Rightarrow> 32 word) \<Rightarrow> record_meta \<Rightarrow> log_record \<Rightarrow> bool" where
  "holds crc m r \<longleftrightarrow> record_encode crc r = Inr (rm_frame m) \<and> r_kind r = rm_kind m \<and>
     r_table_key r = rm_table_key m \<and> r_seq r = rm_seq m"

definition rec_ok :: "(table_ident \<times> nat \<times> 'b tail_op) set \<Rightarrow> (bytes \<Rightarrow> 'b list result) \<Rightarrow> log_record \<Rightarrow> bool" where
  "rec_ok S unipc r \<longleftrightarrow> r_kind r = RECORD_FRAME \<and> op_ok S unipc (r_table_key r) (r_seq r) (r_body r) \<or> r_kind r = RECORD_WATERMARK"

definition content_inv ::
  "(bytes \<Rightarrow> 32 word) \<Rightarrow> (bytes \<Rightarrow> 'b list result) \<Rightarrow> (table_ident \<times> nat \<times> 'b tail_op) set \<Rightarrow> quorum_tail \<Rightarrow> bool" where
  "content_inv crc unipc S qt \<longleftrightarrow>
     (\<forall>k s p. JobAppend k s p \<in> set (qt_jobs qt) \<longrightarrow> op_ok S unipc k s p) \<and>
     (\<forall>m\<in>set (lb_records (sh_log (wk_sh (qt_worker qt)))). \<exists>r. holds crc m r \<and> rec_ok S unipc r)"

lemma op_ok_mono: "op_ok S unipc k s p \<Longrightarrow> S \<subseteq> S' \<Longrightarrow> op_ok S' unipc k s p"
  unfolding op_ok_def by blast

lemma content_mono: "content_inv crc unipc S qt \<Longrightarrow> S \<subseteq> S' \<Longrightarrow> content_inv crc unipc S' qt"
  unfolding content_inv_def rec_ok_def by (meson op_ok_mono)

text \<open>What a job adds to the log is the record of the job or a watermark.\<close>

lemma watermark_records:
  assumes "append_watermark_off_loop crc wk k s = (r, wk')" "m \<in> set (lb_records (sh_log (wk_sh wk')))"
  shows "m \<in> set (lb_records (sh_log (wk_sh wk))) \<or> (\<exists>r. holds crc m r \<and> rec_ok S unipc r)"
proof -
  obtain rr sh' where s: "submit crc (wk_sh wk) RECORD_WATERMARK k s [] = (rr, sh')"
    by (cases "submit crc (wk_sh wk) RECORD_WATERMARK k s []")
  then have "wk_sh wk' = sh'" using assms(1) by (auto simp: append_watermark_off_loop_def split: sum.splits)
  then show ?thesis using submit_records [OF s] assms(2)
    by (cases rr) (auto simp: holds_def rec_ok_def)
qed

lemma run_job_records:
  assumes "run_job crc wk j = (r, wk')" "m \<in> set (lb_records (sh_log (wk_sh wk')))"
    and "\<And>k s p. j = JobAppend k s p \<Longrightarrow> op_ok S unipc k s p"
  shows "m \<in> set (lb_records (sh_log (wk_sh wk))) \<or> (\<exists>r. holds crc m r \<and> rec_ok S unipc r)"
proof (cases j)
  case (JobAppend k s p)
  obtain rr sh' where s: "submit crc (wk_sh wk) RECORD_FRAME k s p = (rr, sh')"
    by (cases "submit crc (wk_sh wk) RECORD_FRAME k s p")
  then have "wk_sh wk' = sh'" using assms(1) JobAppend by (auto simp: run_job_def split: sum.splits)
  then show ?thesis using submit_records [OF s] assms(2) assms(3) [OF JobAppend]
    by (cases rr) (auto simp: holds_def rec_ok_def)
next
  case (JobTruncate k n)
  obtain rf sh' where nc: "note_covered (wk_sh wk) k n = (rf, sh')" by (cases "note_covered (wk_sh wk) k n")
  then have sub: "set (lb_records (sh_log sh')) \<subseteq> set (lb_records (sh_log (wk_sh wk)))"
    using note_covered_suffix [of "wk_sh wk" k n] by auto
  show ?thesis
  proof (cases rf)
    case None
    then show ?thesis using assms(1,2) JobTruncate nc sub by (auto simp: run_job_def)
  next
    case (Some ks)
    then have w: "append_watermark_off_loop crc (wk\<lparr>wk_sh := sh'\<rparr>) (fst ks) (snd ks) = (fst (append_watermark_off_loop crc (wk\<lparr>wk_sh := sh'\<rparr>) (fst ks) (snd ks)), wk')"
      using assms(1) JobTruncate nc by (auto simp: run_job_def prod_eq_iff split: prod.splits)
    show ?thesis using watermark_records [OF w assms(2), of S unipc] sub by auto
  qed
next
  case (JobRecordWatermark k s)
  then show ?thesis using assms(1,2) watermark_records [of crc wk k s r wk' m S unipc]
    by (auto simp: run_job_def split: if_splits)
qed (use assms in \<open>auto simp: run_job_def split: option.splits\<close>)

lemma step_content:
  assumes ipc: "ipc_inverse ipc unipc" and inv: "content_inv crc unipc S qt"
    and st: "quorum_step crc ipc qt e = Some qt'" and k: "keeps_records e"
  shows "content_inv crc unipc (S \<union> set (staged_of ipc qt e)) qt'"
proof (cases e)
  case (QStage t kind batches)
  let ?S = "S \<union> set (staged_of ipc qt e)"
  have i: "content_inv crc unipc ?S qt" by (rule content_mono [OF inv]) simp
  show ?thesis
  proof (cases "\<exists>seq. fst (quorum_append_staged ipc t kind batches qt) = Inr seq")
    case False
    then have "qt_jobs qt' = qt_jobs qt" "qt_worker qt' = qt_worker qt"
      using st QStage by (auto simp: quorum_append_staged_def call_def Let_def split: sum.splits)
    then show ?thesis using i by (simp add: content_inv_def)
  next
    case True
    then obtain seq where seq: "fst (quorum_append_staged ipc t kind batches qt) = Inr seq" by blast
    then obtain key payload where kp: "table_dir_name t = Inr key" "encode_op_payload ipc kind batches = Inr payload"
      "qt_jobs qt' = qt_jobs qt @ [JobAppend key seq payload]" "qt_worker qt' = qt_worker qt"
      using st QStage by (auto simp: quorum_append_staged_def call_def Let_def split: sum.splits if_splits)
    have "op_ok ?S unipc key seq payload"
      using kp(1) op_payload_roundtrip [OF ipc kp(2)] seq QStage by (auto simp: op_ok_def)
    then show ?thesis using i kp(3,4) by (auto simp: content_inv_def)
  qed
next
  case QWork
  then obtain j js where j: "qt_jobs qt = j # js" "qt' = qt\<lparr>qt_jobs := js, qt_worker := snd (run_job crc (qt_worker qt) j)\<rparr>"
    using st by (auto split: list.splits)
  have "\<exists>r. holds crc m r \<and> rec_ok S unipc r" if m: "m \<in> set (lb_records (sh_log (wk_sh (qt_worker qt'))))" for m
    using run_job_records [of crc "qt_worker qt" j "fst (run_job crc (qt_worker qt) j)" "qt_worker qt'" m S unipc] m inv j
    by (auto simp: content_inv_def)
  then show ?thesis using inv j QWork by (auto simp: content_inv_def)
next
  case (QTasks f)
  obtain xs where "lb_records (sh_log (wk_sh (qt_worker qt))) = xs @ lb_records (sh_log (f (wk_sh (qt_worker qt))))"
    using k QTasks by (auto simp: records_kept_def)
  then show ?thesis using st inv QTasks by (auto simp: content_inv_def)
qed (use st inv in \<open>auto simp: quorum_truncate_def quorum_record_watermark_def quorum_health_def call_def wait_append_outcome_def
      quorum_ensure_seq_floor_def content_inv_def split: sum.splits option.splits if_splits\<close>)

lemma run_content:
  assumes "ipc_inverse ipc unipc"
  shows "content_inv crc unipc S qt \<Longrightarrow> quorum_run crc ipc qt es = Some qt' \<Longrightarrow> \<forall>e\<in>set es. keeps_records e \<Longrightarrow>
    content_inv crc unipc (S \<union> set (quorum_staged crc ipc qt es)) qt'"
proof (induction es arbitrary: qt S)
  case (Cons e es)
  from Cons.prems(2) obtain q1 where s: "quorum_step crc ipc qt e = Some q1" "quorum_run crc ipc q1 es = Some qt'"
    by (auto split: bind_splits)
  have "content_inv crc unipc (S \<union> set (staged_of ipc qt e)) q1" using step_content [OF assms Cons.prems(1) s(1)] Cons.prems(3) by simp
  from Cons.IH [OF this s(2)] show ?case using Cons.prems(3) s(1) by (simp add: Un_assoc)
qed simp


section \<open>Opening\<close>

text \<open>The recovered records of a table: every number below the seed.\<close>

definition canonical :: "(bytes list \<Rightarrow> table_ident option) \<Rightarrow> log_record list \<Rightarrow> bool" where
  "canonical from_strs recs \<longleftrightarrow>
     (\<forall>r\<in>set recs. \<forall>t. parse_table_dir_name from_strs (r_table_key r) = Some t \<longrightarrow> table_dir_name t = Inr (r_table_key r))"

definition in_order :: "log_record list \<Rightarrow> bool" where
  "in_order recs \<longleftrightarrow>
     (\<forall>k. sorted_wrt (<) (map r_seq (filter (\<lambda>r. r_kind r = RECORD_FRAME \<and> r_table_key r = k) recs)))"

lemma fold_max_start: "a \<le> fold max xs (a :: nat)"
proof (induction xs arbitrary: a)
  case (Cons x xs)
  then show ?case using order_trans [OF max.cobounded2 Cons.IH] by simp
qed simp

lemma fold_max_ge: "x \<in> set xs \<Longrightarrow> x \<le> fold max xs (a :: nat)"
proof (induction xs arbitrary: a)
  case (Cons y xs)
  then show ?case using order_trans [OF max.cobounded1 fold_max_start [of "max y a" xs]] by auto
qed simp

lemma seed_of_ge: "r \<in> set recs \<Longrightarrow> r_seq r \<le> seed_of recs (r_table_key r)"
  unfolding seed_of_def by (rule fold_max_ge) auto

lemma seed_map_None: "\<forall>s\<in>set ss. parse_table_dir_name from_strs (fst s) \<noteq> Some t \<Longrightarrow> seed_map from_strs ss m t = m t"
proof (induction from_strs ss m rule: seed_map.induct)
  case (2 from_strs k n ss m)
  then show ?case by (auto split: option.splits)
qed simp

lemma seed_map_get:
  assumes "(k, n) \<in> set ss" "distinct (map fst ss)" "parse_table_dir_name from_strs k = Some t"
    and "\<And>k'. k' \<in> fst ` set ss \<Longrightarrow> parse_table_dir_name from_strs k' = Some t \<Longrightarrow> k' = k"
  shows "seed_map from_strs ss m t = Some n"
  using assms
proof (induction ss arbitrary: m)
  case (Cons s ss)
  obtain k' n' where s: "s = (k', n')" by (cases s)
  show ?case
  proof (cases "k' = k")
    case True
    then have "n' = n" "k \<notin> fst ` set ss" using Cons.prems(1,2) s by (auto simp: image_iff)
    moreover have "seed_map from_strs ss (m(t \<mapsto> n)) t = (m(t \<mapsto> n)) t"
    proof (rule seed_map_None, intro ballI)
      fix x
      assume "x \<in> set ss"
      then show "parse_table_dir_name from_strs (fst x) \<noteq> Some t"
        using Cons.prems(4) [of "fst x"] \<open>k \<notin> fst ` set ss\<close> s by auto
    qed
    ultimately show ?thesis using True s Cons.prems(3) by simp
  next
    case False
    then show ?thesis using Cons s by (auto split: option.splits)
  qed
qed simp

lemma seed_records_holds:
  assumes "seed_records crc pos rs ms wm = Inr (ms', wm')"
  shows "\<exists>ns. ms' = ms @ ns \<and> list_all2 (holds crc) ns rs"
  using assms
proof (induction rs arbitrary: pos ms wm)
  case (Cons r rs)
  obtain fb where fb: "record_encode crc r = Inr fb" using Cons.prems(1) by (auto simp: rbind_Inr_conv)
  let ?m = "\<lparr>rm_start = pos, rm_end = pos + length fb, rm_kind = r_kind r, rm_table_key = r_table_key r, rm_seq = r_seq r, rm_frame = fb\<rparr>"
  obtain wm1 where "seed_records crc (pos + length fb) rs (ms @ [?m]) wm1 = Inr (ms', wm')"
    using Cons.prems(1) fb by (auto simp: rbind_Inr_conv Let_def)
  from Cons.IH [OF this] obtain ns where "ms' = ms @ [?m] @ ns" "list_all2 (holds crc) ns rs" by auto
  moreover have "holds crc ?m r" using fb by (simp add: holds_def)
  ultimately show ?case by (intro exI [of _ "?m # ns"]) simp
qed simp

lemma open_shared_holds:
  assumes "open_shared crc tid term h base start recovered = Inr sh"
  shows "list_all2 (holds crc) (lb_records (sh_log sh)) recovered"
  using assms seed_records_holds [of crc base recovered "[]" Map.empty]
  by (auto simp: open_shared_def rbind_Inr_conv)

lemma holds_seqs:
  "list_all2 (holds crc) ms recs \<Longrightarrow>
   map rm_seq (filter (\<lambda>m. rm_kind m = RECORD_FRAME \<and> rm_table_key m = k) ms) =
   map r_seq (filter (\<lambda>r. r_kind r = RECORD_FRAME \<and> r_table_key r = k) recs)"
  by (induction rule: list_all2_induct) (auto simp: holds_def)

lemma open_order:
  assumes "open_shared crc tid term h base start recovered = Inr sh" "canonical from_strs recovered" "in_order recovered"
  shows "order_inv from_strs (open_tail from_strs sh recovered)"
proof -
  have fs: "frame_seqs sh k = map r_seq (filter (\<lambda>r. r_kind r = RECORD_FRAME \<and> r_table_key r = k) recovered)" for k
    using holds_seqs [OF open_shared_holds [OF assms(1)]] by (simp add: frame_seqs_def)
  show ?thesis
    unfolding order_inv_def
  proof (intro allI impI conjI ballI)
    fix t k
    assume l: "legal from_strs t k"
    show "sorted_wrt (<) (frame_seqs (wk_sh (qt_worker (open_tail from_strs sh recovered))) k @ job_seqs k (qt_jobs (open_tail from_strs sh recovered)))"
      using assms(3) by (simp add: open_tail_def worker_start_def fs in_order_def)
    fix s
    assume "s \<in> set (frame_seqs (wk_sh (qt_worker (open_tail from_strs sh recovered))) k @ job_seqs k (qt_jobs (open_tail from_strs sh recovered)))"
    then obtain r where r: "r \<in> set recovered" "r_table_key r = k" "s = r_seq r"
      by (auto simp: open_tail_def worker_start_def fs)
    have "seed_map from_strs (worker_seeds recovered) Map.empty t = Some (seed_of recovered k + 1)"
    proof (rule seed_map_get)
      show "(k, seed_of recovered k + 1) \<in> set (worker_seeds recovered)" using r by (auto simp: worker_seeds_def)
      show "distinct (map fst (worker_seeds recovered))" by (simp add: worker_seeds_def comp_def)
      show "parse_table_dir_name from_strs k = Some t" using l by (simp add: legal_def)
      fix k'
      assume "k' \<in> fst ` set (worker_seeds recovered)" "parse_table_dir_name from_strs k' = Some t"
      then show "k' = k" using assms(2) l by (auto simp: worker_seeds_def canonical_def legal_def)
    qed
    then show "s < next_seq_of (open_tail from_strs sh recovered) t"
      using seed_of_ge [OF r(1)] r by (simp add: next_seq_of_def open_tail_def)
  qed
qed


text \<open>Recovered records this code wrote: operations that decode, of tables whose keys parse back.\<close>

definition well_kept :: "(bytes list \<Rightarrow> table_ident option) \<Rightarrow> (bytes \<Rightarrow> 'b list result) \<Rightarrow> log_record \<Rightarrow> bool" where
  "well_kept from_strs unipc r \<longleftrightarrow>
     r_kind r = RECORD_WATERMARK \<or>
     r_kind r = RECORD_FRAME \<and> \<not> isl (decode_op_payload unipc (r_body r)) \<and> (\<exists>t. legal from_strs t (r_table_key r))"

definition ops_in :: "(bytes list \<Rightarrow> table_ident option) \<Rightarrow> (bytes \<Rightarrow> 'b list result) \<Rightarrow> log_record list \<Rightarrow> (table_ident \<times> nat \<times> 'b tail_op) list" where
  "ops_in from_strs unipc recs =
     map (\<lambda>r. (the (parse_table_dir_name from_strs (r_table_key r)), r_seq r, projr (decode_op_payload unipc (r_body r))))
       (filter (\<lambda>r. r_kind r = RECORD_FRAME) recs)"

fun stages_legal :: "(bytes list \<Rightarrow> table_ident option) \<Rightarrow> 'b quorum_event \<Rightarrow> bool" where
  "stages_legal from_strs (QStage t kind batches) \<longleftrightarrow> (\<exists>k. legal from_strs t k)"
| "stages_legal from_strs _ \<longleftrightarrow> True"

lemma open_content:
  assumes "open_shared crc tid term h base start recovered = Inr sh" "\<forall>r\<in>set recovered. well_kept from_strs unipc r"
  shows "content_inv crc unipc (set (ops_in from_strs unipc recovered)) (open_tail from_strs sh recovered)"
proof -
  have "rec_ok (set (ops_in from_strs unipc recovered)) unipc r" if r: "r \<in> set recovered" for r
  proof (cases "r_kind r = RECORD_FRAME")
    case True
    then obtain t where t: "legal from_strs t (r_table_key r)" and d: "\<not> isl (decode_op_payload unipc (r_body r))"
      using assms(2) r by (auto simp: well_kept_def)
    have "(t, r_seq r, projr (decode_op_payload unipc (r_body r))) \<in> set (ops_in from_strs unipc recovered)"
      using r True t by (auto simp: ops_in_def legal_def image_iff intro!: bexI [of _ r])
    then show ?thesis using t d True
      by (cases "decode_op_payload unipc (r_body r)") (auto simp: rec_ok_def op_ok_def legal_def)
  next
    case False
    then show ?thesis using assms(2) r by (auto simp: well_kept_def rec_ok_def)
  qed
  moreover have "\<exists>r\<in>set recovered. holds crc m r" if "m \<in> set (lb_records (sh_log sh))" for m
    using open_shared_holds [OF assms(1)] that by (metis in_set_conv_nth list_all2_conv_all_nth)
  ultimately have "\<exists>r. holds crc m r \<and> rec_ok (set (ops_in from_strs unipc recovered)) unipc r" if "m \<in> set (lb_records (sh_log sh))" for m
    using that by blast
  then show ?thesis unfolding content_inv_def by (simp add: open_tail_def worker_start_def)
qed

lemma staged_legal:
  "\<forall>e\<in>set es. stages_legal from_strs e \<Longrightarrow> x \<in> set (quorum_staged crc ipc qt es) \<Longrightarrow> \<exists>k. legal from_strs (fst x) k"
proof (induction es arbitrary: qt)
  case (Cons e es)
  then show ?case by (cases e) (auto split: option.splits sum.splits)
qed simp

lemma ops_in_legal:
  assumes "\<forall>r\<in>set recs. well_kept from_strs unipc r" "x \<in> set (ops_in from_strs unipc recs)"
  shows "\<exists>k. legal from_strs (fst x) k"
  using assms by (auto simp: ops_in_def well_kept_def legal_def)

lemma replay_of_log:
  assumes ms: "list_all2 (holds crc) (lb_records (sh_log sh)) recs" and ok: "\<forall>r\<in>set recs. rec_ok S unipc r"
    and leg: "\<And>x. x \<in> S \<Longrightarrow> \<exists>k. legal from_strs (fst x) k"
    and srt: "\<And>t k. legal from_strs t k \<Longrightarrow> sorted_wrt (<) (frame_seqs sh k)"
  shows "\<exists>out. quorum_replay from_strs unipc recs = Inr out \<and>
    (\<forall>e\<in>set out. sorted_wrt (<) (map fst (rt_frames e)) \<and> (\<forall>f\<in>set (rt_frames e). (rt_ident e, f) \<in> S))"
proof -
  have "\<forall>r\<in>set recs. legible unipc r" using ok by (auto simp: rec_ok_def op_ok_def legible_def)
  then have out: "quorum_replay from_strs unipc recs = Inr (map (\<lambda>k. \<lparr>rt_ident = the (parse_table_dir_name from_strs k),
      rt_frames = frames_for unipc recs k, rt_sidecar = wm_of recs k\<rparr>)
       (filter (\<lambda>k. parse_table_dir_name from_strs k \<noteq> None) (first_keys recs)))"
    using quorum_replay_spec [of from_strs unipc recs] by simp
  have own: "\<exists>op. legal from_strs t k \<and> (t, r_seq r, op) \<in> S \<and> decode_op_payload unipc (r_body r) = Inr op"
    if r: "r \<in> set recs" "r_kind r = RECORD_FRAME" "r_table_key r = k" and t: "parse_table_dir_name from_strs k = Some t" for r k t
  proof -
    obtain t' op where t': "table_dir_name t' = Inr k" "(t', r_seq r, op) \<in> S" "decode_op_payload unipc (r_body r) = Inr op"
      using ok r by (auto simp: rec_ok_def op_ok_def)
    then have "legal from_strs t' k" using leg [OF t'(2)] by (auto simp: legal_def)
    then show ?thesis using t t' by (auto simp: legal_def)
  qed
  have "sorted_wrt (<) (map fst (frames_for unipc recs k)) \<and> (\<forall>f\<in>set (frames_for unipc recs k). (t, f) \<in> S)"
    if t: "parse_table_dir_name from_strs k = Some t" for k t
  proof
    have eq: "map fst (frames_for unipc recs k) = frame_seqs sh k"
      using holds_seqs [OF ms, of k] by (simp add: frames_for_def frame_seqs_def comp_def)
    show "sorted_wrt (<) (map fst (frames_for unipc recs k))"
    proof (cases "filter (\<lambda>r. r_kind r = RECORD_FRAME \<and> r_table_key r = k) recs = []")
      case True
      then show ?thesis by (simp add: frames_for_def)
    next
      case False
      then obtain r where "r \<in> set recs" "r_kind r = RECORD_FRAME" "r_table_key r = k" by (auto simp: filter_empty_conv)
      from own [OF this t] show ?thesis unfolding eq using srt by blast
    qed
    show "\<forall>f\<in>set (frames_for unipc recs k). (t, f) \<in> S" using own [OF _ _ _ t] by (fastforce simp: frames_for_def)
  qed
  then show ?thesis using out by auto
qed

text \<open>
  Every generation of the log: opened on records in order, whatever happens then, the records of
  the log are in order again, they replay, and replay returns for each table, in order and without
  repetition, only operations that were recovered or staged for it.
\<close>

lemma quorum_log_replays:
  assumes ipc: "ipc_inverse ipc unipc" and op: "open_shared crc tid term h base start recovered = Inr sh"
    and rec: "canonical from_strs recovered" "in_order recovered" "\<forall>r\<in>set recovered. well_kept from_strs unipc r"
    and run: "quorum_run crc ipc (open_tail from_strs sh recovered) es = Some qt"
    and ev: "\<forall>e\<in>set es. keeps_records e \<and> stages_legal from_strs e"
  shows "\<exists>recs out. list_all2 (holds crc) (lb_records (sh_log (wk_sh (qt_worker qt)))) recs \<and>
    quorum_replay from_strs unipc recs = Inr out \<and>
    (\<forall>e\<in>set out. sorted_wrt (<) (map fst (rt_frames e)) \<and>
       (\<forall>f\<in>set (rt_frames e). (rt_ident e, f) \<in> set (ops_in from_strs unipc recovered) \<union>
          set (quorum_staged crc ipc (open_tail from_strs sh recovered) es)))"
proof -
  let ?S = "set (ops_in from_strs unipc recovered) \<union> set (quorum_staged crc ipc (open_tail from_strs sh recovered) es)"
  have kr: "\<forall>e\<in>set es. keeps_records e" using ev by blast
  have c: "content_inv crc unipc ?S qt" by (rule run_content [OF ipc open_content [OF op rec(3)] run kr])
  have o: "order_inv from_strs qt" by (rule run_order [OF open_order [OF op rec(1,2)] run kr])
  let ?ms = "lb_records (sh_log (wk_sh (qt_worker qt)))"
  have "\<forall>m\<in>set ?ms. \<exists>r. holds crc m r \<and> rec_ok ?S unipc r" using c by (simp add: content_inv_def)
  then obtain g where g: "\<forall>m\<in>set ?ms. holds crc m (g m) \<and> rec_ok ?S unipc (g m)" by (rule bchoice [THEN exE])
  have ms: "list_all2 (holds crc) ?ms (map g ?ms)" using g by (simp add: list_all2_conv_all_nth)
  have "\<exists>out. quorum_replay from_strs unipc (map g ?ms) = Inr out \<and>
    (\<forall>e\<in>set out. sorted_wrt (<) (map fst (rt_frames e)) \<and> (\<forall>f\<in>set (rt_frames e). (rt_ident e, f) \<in> ?S))"
  proof (rule replay_of_log [OF ms])
    show "\<forall>r\<in>set (map g ?ms). rec_ok ?S unipc r" using g by simp
    show "\<exists>k. legal from_strs (fst x) k" if "x \<in> ?S" for x
      using that ops_in_legal [OF rec(3)] staged_legal ev by blast
    show "\<And>t k. legal from_strs t k \<Longrightarrow> sorted_wrt (<) (frame_seqs (wk_sh (qt_worker qt)) k)"
      using o by (auto simp: order_inv_def sorted_wrt_append)
  qed
  then show ?thesis using ms by blast
qed

text \<open>An acknowledged append: its record is in the log at the position its wait saw committed.\<close>

lemma quorum_ack_committed:
  assumes "run_job crc wk (JobAppend k s p) = (Spawned e nudge, wk1)"
    and "wait_commit aw (f (wk_sh wk1)) e False = (Some (Inr ()), sh2)"
  shows "(\<exists>m\<in>set (lb_records (sh_log (wk_sh wk1))). rm_end m = e \<and> holds crc m \<lparr>r_lsn = rm_start m, r_kind = RECORD_FRAME, r_table_key = k, r_seq = s, r_body = p\<rparr>) \<and>
    e \<le> sh_commit sh2 \<and> sh_poison sh2 = None"
proof -
  obtain sh' where s: "submit crc (wk_sh wk) RECORD_FRAME k s p = (Inr e, sh')" "wk_sh wk1 = sh'"
    using assms(1) by (auto simp: run_job_def split: prod.splits sum.splits)
  from submit_records [OF s(1)] have "\<exists>m\<in>set (lb_records (sh_log (wk_sh wk1))). rm_end m = e \<and>
      holds crc m \<lparr>r_lsn = rm_start m, r_kind = RECORD_FRAME, r_table_key = k, r_seq = s, r_body = p\<rparr>"
    using s(2) by (auto simp: holds_def)
  then show ?thesis using wait_commit_committed [OF assms(2)] by blast
qed

end
