(* ===== verification/TailSequence.thy ===== *)
theory TailSequence
  imports TailCrash TailQuorumSpec
begin

text \<open>
  The contract of \<^verbatim>\<open>TailStore::append_staged\<close> that both backends share: a staged append gets the next
  sequence number of its table and consumes it, every other operation leaves the next number where
  it is or raises it.  Whatever fails afterwards, a number is never given out twice.
\<close>

locale tail_sequence =
  fixes next_seq :: "'s \<Rightarrow> nat"
    and step :: "'s \<Rightarrow> 'e \<Rightarrow> 's option"
    and given :: "'s \<Rightarrow> 'e \<Rightarrow> nat list"
  assumes given_next: "step s e = Some s' \<Longrightarrow> given s e = [] \<or> given s e = [next_seq s]"
    and consumed: "step s e = Some s' \<Longrightarrow> next_seq s + length (given s e) \<le> next_seq s'"
begin

fun run :: "'s \<Rightarrow> 'e list \<Rightarrow> 's option" where
  "run s [] = Some s"
| "run s (e # es) = Option.bind (step s e) (\<lambda>s'. run s' es)"

fun numbers :: "'s \<Rightarrow> 'e list \<Rightarrow> nat list" where
  "numbers s [] = []"
| "numbers s (e # es) = (case step s e of None \<Rightarrow> [] | Some s' \<Rightarrow> given s e @ numbers s' es)"

lemma numbers_ascend:
  "run s es = Some s' \<Longrightarrow>
   sorted_wrt (<) (numbers s es) \<and> (\<forall>n\<in>set (numbers s es). next_seq s \<le> n \<and> n < next_seq s') \<and> next_seq s \<le> next_seq s'"
proof (induction es arbitrary: s)
  case (Cons e es)
  then obtain s1 where s1: "step s e = Some s1" "run s1 es = Some s'" by (auto split: bind_splits)
  note ih = Cons.IH [OF s1(2)]
  have g: "given s e = [] \<or> given s e = [next_seq s]" "next_seq s + length (given s e) \<le> next_seq s1"
    using given_next [OF s1(1)] consumed [OF s1(1)] .
  from g(1) show ?case
  proof
    assume "given s e = []"
    then show ?thesis using ih g(2) s1(1) by fastforce
  next
    assume "given s e = [next_seq s]"
    then show ?thesis using ih g(2) s1(1) by fastforce
  qed
qed simp

end

section \<open>The local tail\<close>

definition tail_given :: "(bytes \<Rightarrow> 32 word) \<Rightarrow> ('b list \<Rightarrow> bytes result) \<Rightarrow> table_wal \<Rightarrow> 'b tail_event \<Rightarrow> nat list" where
  "tail_given crc ipc tw e = map fst (step_staged crc ipc tw e)"

lemma roll_back_next: "tw_next_seq (snd (roll_back_segment r i n tw)) = tw_next_seq tw"
  by (cases r) (simp_all add: roll_back_segment_def Let_def)

lemma cleanup_next: "tw_next_seq (cleanup_failed_segment io i why tw) = tw_next_seq tw"
  by (simp add: cleanup_failed_segment_def set_sync_def remove_segment_def case_prod_beta Let_def roll_back_next split: option.split)

lemma seal_next: "tw_next_seq (tail_seal_active x y tw) = tw_next_seq tw"
  by (simp add: tail_seal_active_def remove_segment_def split: option.splits)

lemma ensure_active_next: "tw_next_seq (snd (ensure_active io tw)) = tw_next_seq tw"
  by (simp add: ensure_active_def Let_def)

lemma truncate_sealed_next: "tw_next_seq (snd (snd (truncate_sealed rm unmark u ss tw))) = tw_next_seq tw"
  by (induction rm unmark u ss tw rule: truncate_sealed.induct) (auto simp: remove_segment_def case_prod_beta Let_def)

lemma truncate_next: "tw_next_seq (snd (tail_truncate rm unmark u tw)) = tw_next_seq tw"
  using truncate_sealed_next [of rm unmark u "tw_sealed tw" tw]
  by (simp add: tail_truncate_def remove_segment_def case_prod_beta Let_def split: option.splits)

lemma rotate_next: "tail_rotate io tw = Some (r, tw') \<Longrightarrow> tw_next_seq tw' = tw_next_seq tw"
  by (auto simp: tail_rotate_def Let_def seal_next cleanup_next split: option.splits if_splits sum.splits)

lemma append_staged_next:
  assumes "append_staged io enc tw = (r, tw')"
  shows "case r of Inl _ \<Rightarrow> tw_next_seq tw' = tw_next_seq tw | Inr w \<Rightarrow> fst w = tw_next_seq tw \<and> tw_next_seq tw' = tw_next_seq tw + 1"
proof -
  obtain r1 tw1 where e: "ensure_active io tw = (r1, tw1)" by (cases "ensure_active io tw")
  have n: "tw_next_seq tw1 = tw_next_seq tw" using ensure_active_next [of io tw] e by simp
  have rb: "tw_next_seq t' = tw_next_seq t" if "roll_back_segment r j n t = (ok, t')" for r j n t ok t'
    using roll_back_next [of r j n t] that by simp
  show ?thesis using assms e n
    by (auto simp: append_staged_def set_sync_def Let_def dest!: rb split: sum.splits option.splits prod.splits if_splits)
qed

lemma tail_step_sequence:
  assumes "tail_step crc ipc tw e = Some tw'"
  shows "(tail_given crc ipc tw e = [] \<or> tail_given crc ipc tw e = [tw_next_seq tw]) \<and>
    tw_next_seq tw + length (tail_given crc ipc tw e) \<le> tw_next_seq tw'"
proof (cases e)
  case (Stage io kind batches)
  obtain r t where rt: "append_staged io (\<lambda>seq. encode_frame crc ipc seq kind batches) tw = (r, t)"
    by (cases "append_staged io (\<lambda>seq. encode_frame crc ipc seq kind batches) tw")
  then show ?thesis using append_staged_next [OF rt] assms Stage
    by (auto simp: tail_given_def staged_op_def split: if_splits sum.splits)
next
  case (SyncDone i ok)
  then have "tw_next_seq tw' = tw_next_seq tw" using assms
    by (auto simp: sync_done_def set_sync_def Let_def split: option.splits if_splits)
  then show ?thesis using SyncDone by (simp add: tail_given_def)
next
  case (Rotate io)
  then have "tw_next_seq tw' = tw_next_seq tw" using assms rotate_next by (auto split: if_splits)
  then show ?thesis using Rotate by (simp add: tail_given_def)
next
  case (Lead i)
  then show ?thesis using assms by (auto simp: tail_given_def lead_def set_sync_def Let_def split: if_splits)
next
  case (WaitErr w io)
  then show ?thesis using assms
    by (auto simp: tail_given_def cleanup_next Let_def split: if_splits option.splits sum.splits)
qed (use assms in \<open>auto simp: tail_given_def cleanup_next truncate_next ensure_seq_floor_def split: if_splits option.splits\<close>)

interpretation lt: tail_sequence tw_next_seq "tail_step crc ipc" "tail_given crc ipc" for crc ipc
  using tail_step_sequence by unfold_locales blast+

lemma lt_run_eq: "lt.run crc ipc tw es = tail_run crc ipc tw es"
  by (induction es arbitrary: tw) simp_all

lemma lt_numbers_eq: "lt.numbers crc ipc tw es = map fst (run_staged crc ipc tw es)"
  by (induction es arbitrary: tw) (auto simp: tail_given_def split: option.splits)

section \<open>The quorum tail\<close>

definition quorum_given :: "('b list \<Rightarrow> bytes result) \<Rightarrow> table_ident \<Rightarrow> quorum_tail \<Rightarrow> 'b quorum_event \<Rightarrow> nat list" where
  "quorum_given ipc t qt e = map (\<lambda>x. fst (snd x)) (filter (\<lambda>x. fst x = t) (staged_of ipc qt e))"

lemma quorum_stage_next:
  assumes "quorum_append_staged ipc t kind batches qt = (r, qt')"
  shows "case r of Inl _ \<Rightarrow> (\<forall>u. next_seq_of qt' u = next_seq_of qt u)
    | Inr s \<Rightarrow> s = next_seq_of qt t \<and> next_seq_of qt' t = s + 1 \<and> (\<forall>u. u \<noteq> t \<longrightarrow> next_seq_of qt' u = next_seq_of qt u)"
  using assms
  by (auto simp: quorum_append_staged_def call_def next_seq_of_def Let_def split: sum.splits if_splits option.splits)

lemma quorum_step_sequence:
  assumes "quorum_step crc ipc qt e = Some qt'"
  shows "(quorum_given ipc t qt e = [] \<or> quorum_given ipc t qt e = [next_seq_of qt t]) \<and>
    next_seq_of qt t + length (quorum_given ipc t qt e) \<le> next_seq_of qt' t"
proof (cases e)
  case (QStage u kind batches)
  obtain r q where rq: "quorum_append_staged ipc u kind batches qt = (r, q)" by (cases "quorum_append_staged ipc u kind batches qt")
  then show ?thesis using quorum_stage_next [OF rq] assms QStage
    by (cases "u = t") (auto simp: quorum_given_def split: sum.splits)
next
  case QWork
  then show ?thesis using assms by (auto simp: quorum_given_def next_seq_of_def split: list.splits)
qed (use assms in \<open>auto simp: quorum_given_def quorum_truncate_def quorum_record_watermark_def quorum_health_def call_def
      wait_append_outcome_def quorum_ensure_seq_floor_def next_seq_of_def split: sum.splits option.splits if_splits\<close>)

interpretation qs: tail_sequence "\<lambda>qt. next_seq_of qt t" "quorum_step crc ipc" "quorum_given ipc t" for crc ipc t
  using quorum_step_sequence by unfold_locales blast+

lemma qs_run_eq: "qs.run crc ipc qt es = quorum_run crc ipc qt es"
  by (induction es arbitrary: qt) simp_all

lemma qs_numbers_eq:
  "qs.numbers crc ipc t qt es = map (\<lambda>x. fst (snd x)) (filter (\<lambda>x. fst x = t) (quorum_staged crc ipc qt es))"
  by (induction es arbitrary: qt) (auto simp: quorum_given_def split: option.splits)

end
