(* ===== verification/Buffer.thy ===== *)
theory Buffer
  imports TailNames TailFrames "HOL-Library.AList"
begin

text \<open>
  The write buffer of one table (\<^verbatim>\<open>BufferState\<close> and \<^verbatim>\<open>WriteBuffer::flush_table\<close> in
  \<^verbatim>\<open>icegres/src/buffer.rs\<close>): acknowledged rows wait in \<open>tb_pending\<close>, keyed updates and deletes in a
  map from keys to their latest operation, and committed generations stay readable until every
  scan can see them.  Every operation that holds the buffer lock is one function on \<open>table_buf\<close>.

  A record batch is a list of rows.  The row encoding of the primary-key columns (crate \<open>arrow\<close>) is
  the parameter \<open>key\<close>, from the declared columns and a row to the key; \<open>pk_ok\<close> says whether the
  canonical schema has the columns.  A key row and its encoding are identified.  The keyed map is an
  association list: the order in which a Rust hash map is iterated is not specified, and no result
  below depends on it beyond the order of rows.
\<close>

section \<open>State\<close>

datatype 'r keyed_kind = Upsert 'r | Delete

record ('r, 'k) keyed_op =
  ko_key_row :: 'k
  ko_kind :: "'r keyed_kind"
  ko_seq :: "nat option"

record ('r, 'k) keyed_entry =
  ke_stamp :: nat
  ke_op :: "('r, 'k) keyed_op"

record ('r, 'k) keyed_state =
  ks_pk_cols :: "string list"
  ks_entries :: "('k \<times> ('r, 'k) keyed_entry) list"
  ks_next_stamp :: nat
  ks_claimed_below :: nat

datatype gen_commit = Snapshot int | CoveredByWatermark nat

type_synonym ('r, 'k) keyed_snap = "('k \<times> nat \<times> ('r, 'k) keyed_op) list"

record ('r, 'k) flushed_gen =
  fg_commit :: gen_commit
  fg_batches :: "(nat option \<times> 'r list) list"
  fg_keyed :: "('r, 'k) keyed_snap"
  fg_committed_at :: nat
  fg_observed :: bool

record 'r pending_batch =
  pb_id :: nat
  pb_claimed :: bool
  pb_seq :: "nat option"
  pb_batch :: "'r list"

record ('r, 'k) table_buf =
  tb_pending :: "'r pending_batch list"
  tb_pending_rows :: nat
  tb_next_batch_id :: nat
  tb_keyed :: "('r, 'k) keyed_state option"
  tb_flushed :: "('r, 'k) flushed_gen list"
  tb_tail_high :: "nat option"
  tb_undurable :: "nat list"

definition table_buf_new :: "('r, 'k) table_buf" where
  "table_buf_new =
     \<lparr>tb_pending = [], tb_pending_rows = 0, tb_next_batch_id = 1, tb_keyed = None, tb_flushed = [],
      tb_tail_high = None, tb_undurable = []\<rparr>"

definition keyed_entries :: "('r, 'k) table_buf \<Rightarrow> ('k \<times> ('r, 'k) keyed_entry) list" where
  "keyed_entries tb = (case tb_keyed tb of None \<Rightarrow> [] | Some k \<Rightarrow> ks_entries k)"

section \<open>Keys\<close>

definition encode_batch_keys ::
  "(string list \<Rightarrow> 'r \<Rightarrow> 'k) \<Rightarrow> (string list \<Rightarrow> bool) \<Rightarrow> 'r list \<Rightarrow> string list \<Rightarrow> ('k list) result" where
  "encode_batch_keys key pk_ok batch pk_cols =
     (if pk_ok pk_cols then Inr (map (key pk_cols) batch) else Inl ''PK column missing from batch schema'')"

definition suppress_batch ::
  "(string list \<Rightarrow> 'r \<Rightarrow> 'k) \<Rightarrow> (string list \<Rightarrow> bool) \<Rightarrow> 'r list \<Rightarrow> string list \<Rightarrow> 'k set \<Rightarrow> ('r list) result" where
  "suppress_batch key pk_ok batch pk_cols keys =
     (if keys = {} \<or> batch = [] then Inr batch
      else rbind (encode_batch_keys key pk_ok batch pk_cols) (\<lambda>encoded.
             Inr (map fst (filter (\<lambda>(r, k). k \<notin> keys) (zip batch encoded)))))"

section \<open>Routing\<close>

text \<open>The undo record of a statement: its batches and, per keyed entry, what it displaced.\<close>

record ('r, 'k) routed_stmt =
  rs_batch_ids :: "nat list"
  rs_keyed :: "('k \<times> nat \<times> ('r, 'k) keyed_entry option) list"

definition push_pending ::
  "'r list \<Rightarrow> nat option \<Rightarrow> ('r, 'k) table_buf \<times> ('r, 'k) routed_stmt \<Rightarrow> ('r, 'k) table_buf \<times> ('r, 'k) routed_stmt" where
  "push_pending batch seq st =
     (let tb = fst st; i = tb_next_batch_id tb in
      (tb\<lparr>tb_next_batch_id := i + 1, tb_pending_rows := tb_pending_rows tb + length batch,
          tb_pending := tb_pending tb @ [\<lparr>pb_id = i, pb_claimed = False, pb_seq = seq, pb_batch = batch\<rparr>]\<rparr>,
       (snd st)\<lparr>rs_batch_ids := rs_batch_ids (snd st) @ [i]\<rparr>))"

text \<open>The insertion of one keyed entry, with the next stamp.\<close>

definition keyed_insert ::
  "'k \<Rightarrow> ('r, 'k) keyed_op \<Rightarrow> ('r, 'k) keyed_state \<times> ('k \<times> nat \<times> ('r, 'k) keyed_entry option) list \<Rightarrow>
   ('r, 'k) keyed_state \<times> ('k \<times> nat \<times> ('r, 'k) keyed_entry option) list" where
  "keyed_insert k op st =
     (let ks = fst st; stamp = ks_next_stamp ks in
      (ks\<lparr>ks_next_stamp := stamp + 1, ks_entries := AList.update k \<lparr>ke_stamp = stamp, ke_op = op\<rparr> (ks_entries ks)\<rparr>,
       snd st @ [(k, stamp, map_of (ks_entries ks) k)]))"

text \<open>The rows of one batch whose key has an entry become newer upserts, in row order.\<close>

fun route_hits ::
  "nat option \<Rightarrow> ('k \<times> 'r) list \<Rightarrow> ('r, 'k) keyed_state \<times> ('k \<times> nat \<times> ('r, 'k) keyed_entry option) list \<Rightarrow>
   ('r, 'k) keyed_state \<times> ('k \<times> nat \<times> ('r, 'k) keyed_entry option) list" where
  "route_hits seq [] st = st"
| "route_hits seq ((k, r) # hs) st =
     route_hits seq hs (keyed_insert k \<lparr>ko_key_row = k, ko_kind = Upsert r, ko_seq = seq\<rparr> st)"

definition route_batch ::
  "(string list \<Rightarrow> 'r \<Rightarrow> 'k) \<Rightarrow> (string list \<Rightarrow> bool) \<Rightarrow> nat option \<Rightarrow> 'r list \<Rightarrow>
   ('r, 'k) table_buf \<times> ('r, 'k) routed_stmt \<Rightarrow> (('r, 'k) table_buf \<times> ('r, 'k) routed_stmt) result" where
  "route_batch key pk_ok seq batch st =
     (if batch = [] then Inr st
      else case tb_keyed (fst st) of
             None \<Rightarrow> Inr st
           | Some ks \<Rightarrow>
               rbind (encode_batch_keys key pk_ok batch (ks_pk_cols ks)) (\<lambda>keys.
                 let kr = zip keys batch;
                     hit = (\<lambda>x. map_of (ks_entries ks) (fst x) \<noteq> None)
                 in if filter hit kr = [] then Inr (push_pending batch seq st)
                    else
                      (let (ks', log) = route_hits seq (filter hit kr) (ks, rs_keyed (snd st));
                           st' = ((fst st)\<lparr>tb_keyed := Some ks'\<rparr>, (snd st)\<lparr>rs_keyed := log\<rparr>)
                       in if filter (\<lambda>x. \<not> hit x) kr = [] then Inr st'
                          else Inr (push_pending (map snd (filter (\<lambda>x. \<not> hit x) kr)) seq st'))))"

fun route_batches ::
  "(string list \<Rightarrow> 'r \<Rightarrow> 'k) \<Rightarrow> (string list \<Rightarrow> bool) \<Rightarrow> nat option \<Rightarrow> 'r list list \<Rightarrow>
   ('r, 'k) table_buf \<times> ('r, 'k) routed_stmt \<Rightarrow> (('r, 'k) table_buf \<times> ('r, 'k) routed_stmt) result" where
  "route_batches key pk_ok seq [] st = Inr st"
| "route_batches key pk_ok seq (b # bs) st =
     rbind (route_batch key pk_ok seq b st) (route_batches key pk_ok seq bs)"

definition route_appends ::
  "(string list \<Rightarrow> 'r \<Rightarrow> 'k) \<Rightarrow> (string list \<Rightarrow> bool) \<Rightarrow> ('r, 'k) table_buf \<Rightarrow> 'r list list \<Rightarrow> nat option \<Rightarrow>
   (('r, 'k) table_buf \<times> ('r, 'k) routed_stmt) result" where
  "route_appends key pk_ok tb aligned seq =
     (let st = (tb, \<lparr>rs_batch_ids = [], rs_keyed = []\<rparr>) in
      if keyed_entries tb = [] then Inr (fold (\<lambda>b. push_pending b seq) aligned st)
      else route_batches key pk_ok seq aligned st)"

section \<open>Statements\<close>

text \<open>
  The locked part of \<^verbatim>\<open>append\<close>: \<open>staged\<close> is the outcome of staging the frame on the tail, \<open>None\<close> without
  a tail; \<open>replay_seq\<close> is the sequence number of a frame that boot replays.
\<close>

definition stage_seq :: "(nat result) option \<Rightarrow> ('r, 'k) table_buf \<Rightarrow> (nat option \<times> ('r, 'k) table_buf) result" where
  "stage_seq staged tb =
     (case staged of
        None \<Rightarrow> Inr (None, tb)
      | Some (Inl e) \<Rightarrow> Inl e
      | Some (Inr s) \<Rightarrow> Inr (Some s, tb\<lparr>tb_tail_high := Some s, tb_undurable := List.insert s (tb_undurable tb)\<rparr>))"

text \<open>
  A routing error leaves in place what was routed before it, which is nothing: it comes at the first
  batch that has rows (\<open>route_error_is_first\<close>).
\<close>

definition buf_append ::
  "(string list \<Rightarrow> 'r \<Rightarrow> 'k) \<Rightarrow> (string list \<Rightarrow> bool) \<Rightarrow> ('r, 'k) table_buf \<Rightarrow> 'r list list \<Rightarrow> (nat result) option \<Rightarrow> nat option \<Rightarrow>
   (('r, 'k) routed_stmt \<times> nat option) result \<times> ('r, 'k) table_buf" where
  "buf_append key pk_ok tb aligned staged replay_seq =
     (case stage_seq (if aligned = [] then None else staged) tb of
        Inl e \<Rightarrow> (Inl e, tb)
      | Inr (s, tb1) \<Rightarrow>
          (let seq = (case s of None \<Rightarrow> replay_seq | Some n \<Rightarrow> Some n) in
           case route_appends key pk_ok tb1 aligned seq of
             Inl e \<Rightarrow> (Inl e, tb1)
           | Inr (tb2, routed) \<Rightarrow> (Inr (routed, seq), tb2)))"

definition note_durable :: "('r, 'k) table_buf \<Rightarrow> nat \<Rightarrow> ('r, 'k) table_buf" where
  "note_durable tb seq = tb\<lparr>tb_undurable := removeAll seq (tb_undurable tb)\<rparr>"

definition note_tail_high :: "('r, 'k) table_buf \<Rightarrow> nat \<Rightarrow> ('r, 'k) table_buf" where
  "note_tail_high tb seq =
     tb\<lparr>tb_tail_high := Some (case tb_tail_high tb of None \<Rightarrow> seq | Some h \<Rightarrow> max h seq)\<rparr>"

definition buf_has_pending :: "('r, 'k) table_buf \<Rightarrow> bool" where
  "buf_has_pending tb \<longleftrightarrow> tb_pending tb \<noteq> [] \<or> keyed_entries tb \<noteq> []"

definition keyed_current :: "('r, 'k) table_buf \<Rightarrow> 'k \<Rightarrow> string list \<Rightarrow> ('r option) option" where
  "keyed_current tb k pk_cols =
     (case tb_keyed tb of
        None \<Rightarrow> None
      | Some ks \<Rightarrow>
          (if ks_pk_cols ks \<noteq> pk_cols then None
           else map_option (\<lambda>e. case ko_kind (ke_op e) of Upsert r \<Rightarrow> Some r | Delete \<Rightarrow> None) (map_of (ks_entries ks) k)))"

definition keyed_write ::
  "('r, 'k) table_buf \<Rightarrow> string list \<Rightarrow> 'k \<Rightarrow> ('r, 'k) keyed_op \<Rightarrow> (nat result) option \<Rightarrow>
   (('r, 'k) routed_stmt \<times> nat option) result \<times> ('r, 'k) table_buf" where
  "keyed_write tb pk_cols k op staged =
     (let ks = (case tb_keyed tb of
                  None \<Rightarrow> \<lparr>ks_pk_cols = pk_cols, ks_entries = [], ks_next_stamp = 1, ks_claimed_below = 1\<rparr>
                | Some ks \<Rightarrow> ks);
          old_keys_buffered = (ks_entries ks \<noteq> [] \<or> (\<exists>g\<in>set (tb_flushed tb). fg_keyed g \<noteq> []));
          tb1 = tb\<lparr>tb_keyed := Some ks\<rparr>
      in if ks_pk_cols ks \<noteq> pk_cols \<and> old_keys_buffered then (Inl ''the primary key changed while keyed tail ops were pending'', tb1)
         else
           (let ks1 = ks\<lparr>ks_pk_cols := pk_cols\<rparr>; tb2 = tb1\<lparr>tb_keyed := Some ks1\<rparr> in
            case stage_seq staged tb2 of
              Inl e \<Rightarrow> (Inl e, tb2)
            | Inr (s, tb3) \<Rightarrow>
                (let op1 = (case s of None \<Rightarrow> op | Some n \<Rightarrow> op\<lparr>ko_seq := Some n\<rparr>);
                     (ks2, log) = keyed_insert k op1 (ks1, [])
                 in (Inr (\<lparr>rs_batch_ids = [], rs_keyed = log\<rparr>, ko_seq op1), tb3\<lparr>tb_keyed := Some ks2\<rparr>))))"

text \<open>The undo of a statement whose durability wait failed, unless a flush snapshot claimed it.\<close>

definition stmt_claimed :: "('r, 'k) table_buf \<Rightarrow> ('r, 'k) routed_stmt \<Rightarrow> bool" where
  "stmt_claimed tb routed \<longleftrightarrow>
     length (filter (\<lambda>pb. pb_id pb \<in> set (rs_batch_ids routed) \<and> \<not> pb_claimed pb) (tb_pending tb)) \<noteq>
       length (remdups (rs_batch_ids routed)) \<or>
     (\<exists>(k, stamp, d)\<in>set (rs_keyed routed).
        case tb_keyed tb of
          None \<Rightarrow> True
        | Some ks \<Rightarrow> stamp < ks_claimed_below ks \<or> map_of (ks_entries ks) k = None)"

definition unroute_keyed ::
  "('k \<times> nat \<times> ('r, 'k) keyed_entry option) \<Rightarrow> ('k \<times> ('r, 'k) keyed_entry) list \<Rightarrow> ('k \<times> ('r, 'k) keyed_entry) list" where
  "unroute_keyed x es =
     (case x of (k, stamp, displaced) \<Rightarrow>
        (case map_of es k of
           Some e \<Rightarrow>
             (if ke_stamp e = stamp
              then (case displaced of Some prev \<Rightarrow> AList.update k prev es | None \<Rightarrow> AList.delete k es)
              else es)
         | None \<Rightarrow> es))"

definition unroute_failed :: "('r, 'k) table_buf \<Rightarrow> nat \<Rightarrow> ('r, 'k) routed_stmt \<Rightarrow> ('r, 'k) table_buf" where
  "unroute_failed tb seq routed =
     (if stmt_claimed tb routed then tb
      else
        (let ids = set (rs_batch_ids routed);
             gone = filter (\<lambda>pb. pb_id pb \<in> ids) (tb_pending tb)
         in tb\<lparr>tb_undurable := removeAll seq (tb_undurable tb),
               tb_pending := filter (\<lambda>pb. pb_id pb \<notin> ids) (tb_pending tb),
               tb_pending_rows := tb_pending_rows tb - sum_list (map (\<lambda>pb. length (pb_batch pb)) gone),
               tb_keyed := map_option (\<lambda>ks. ks\<lparr>ks_entries := fold unroute_keyed (rs_keyed routed) (ks_entries ks)\<rparr>) (tb_keyed tb)\<rparr>))"

section \<open>Flushing\<close>

record ('r, 'k) pending_snapshot =
  sn_batches :: "'r list list"
  sn_keyed :: "('r, 'k) keyed_snap"
  sn_tail_mark :: "nat option"

definition snap_keyed :: "('k \<times> ('r, 'k) keyed_entry) list \<Rightarrow> ('r, 'k) keyed_snap" where
  "snap_keyed es = sort_key (\<lambda>x. fst (snd x)) (map (\<lambda>(k, e). (k, ke_stamp e, ke_op e)) es)"

definition snapshot_pending :: "('r, 'k) table_buf \<Rightarrow> ('r, 'k) pending_snapshot \<times> ('r, 'k) table_buf" where
  "snapshot_pending tb =
     (\<lparr>sn_batches = map pb_batch (tb_pending tb), sn_keyed = snap_keyed (keyed_entries tb), sn_tail_mark = tb_tail_high tb\<rparr>,
      tb\<lparr>tb_pending := map (\<lambda>pb. pb\<lparr>pb_claimed := True\<rparr>) (tb_pending tb),
         tb_keyed := map_option (\<lambda>ks. ks\<lparr>ks_claimed_below := ks_next_stamp ks\<rparr>) (tb_keyed tb)\<rparr>)"

definition snap_empty :: "('r, 'k) pending_snapshot \<Rightarrow> bool" where
  "snap_empty sn \<longleftrightarrow> sn_batches sn = [] \<and> sn_keyed sn = []"

definition drain_entry :: "'k \<times> nat \<times> ('r, 'k) keyed_op \<Rightarrow> ('k \<times> ('r, 'k) keyed_entry) list \<Rightarrow> ('k \<times> ('r, 'k) keyed_entry) list" where
  "drain_entry x es =
     (case map_of es (fst x) of
        Some e \<Rightarrow> (if ke_stamp e = fst (snd x) then AList.delete (fst x) es else es)
      | None \<Rightarrow> es)"

definition drain_keyed_snapshot :: "('r, 'k) keyed_snap \<Rightarrow> ('r, 'k) table_buf \<Rightarrow> ('r, 'k) table_buf" where
  "drain_keyed_snapshot keyed tb =
     tb\<lparr>tb_keyed := map_option (\<lambda>ks. ks\<lparr>ks_entries := fold drain_entry keyed (ks_entries ks)\<rparr>) (tb_keyed tb)\<rparr>"

definition pending_size :: "'r pending_batch list \<Rightarrow> nat" where
  "pending_size pbs = sum_list (map (\<lambda>pb. length (pb_batch pb)) pbs)"

definition drop_pending_prefix :: "nat \<Rightarrow> ('r, 'k) keyed_snap \<Rightarrow> ('r, 'k) table_buf \<Rightarrow> ('r, 'k) table_buf" where
  "drop_pending_prefix n keyed tb =
     drain_keyed_snapshot keyed
       (tb\<lparr>tb_pending := drop n (tb_pending tb), tb_pending_rows := tb_pending_rows tb - pending_size (take n (tb_pending tb))\<rparr>)"

definition move_pending_to_flushed_gen ::
  "nat \<Rightarrow> nat \<Rightarrow> ('r, 'k) keyed_snap \<Rightarrow> gen_commit \<Rightarrow> ('r, 'k) table_buf \<Rightarrow> ('r, 'k) table_buf" where
  "move_pending_to_flushed_gen now n keyed commit tb =
     (let tb1 = drop_pending_prefix n keyed tb in
      tb1\<lparr>tb_flushed := tb_flushed tb1 @
            [\<lparr>fg_commit = commit, fg_batches = map (\<lambda>pb. (pb_seq pb, pb_batch pb)) (take n (tb_pending tb)),
              fg_keyed = keyed, fg_committed_at = now, fg_observed = False\<rparr>]\<rparr>)"

text \<open>The first generation with the snapshot, and the others.\<close>

fun take_gen :: "int \<Rightarrow> ('r, 'k) flushed_gen list \<Rightarrow> (('r, 'k) flushed_gen \<times> ('r, 'k) flushed_gen list) option" where
  "take_gen sid [] = None"
| "take_gen sid (g # gs) =
     (if fg_commit g = Snapshot sid then Some (g, gs)
      else map_option (\<lambda>(h, hs). (h, g # hs)) (take_gen sid gs))"

definition restore_batches :: "nat \<Rightarrow> (nat option \<times> 'r list) list \<Rightarrow> 'r pending_batch list" where
  "restore_batches i bs =
     map (\<lambda>(j, b). \<lparr>pb_id = i + j, pb_claimed = True, pb_seq = fst b, pb_batch = snd b\<rparr>) (enumerate 0 bs)"

definition merge_back :: "'k \<times> nat \<times> ('r, 'k) keyed_op \<Rightarrow> ('k \<times> ('r, 'k) keyed_entry) list \<Rightarrow> ('k \<times> ('r, 'k) keyed_entry) list" where
  "merge_back x es =
     (if map_of es (fst x) = None then es @ [(fst x, \<lparr>ke_stamp = fst (snd x), ke_op = snd (snd x)\<rparr>)] else es)"

definition move_flushed_back_to_pending :: "int \<Rightarrow> ('r, 'k) table_buf \<Rightarrow> ('r, 'k) table_buf" where
  "move_flushed_back_to_pending sid tb =
     (case take_gen sid (tb_flushed tb) of
        None \<Rightarrow> tb
      | Some (g, gs) \<Rightarrow>
          tb\<lparr>tb_flushed := gs,
             tb_pending_rows := tb_pending_rows tb + sum_list (map (\<lambda>b. length (snd b)) (fg_batches g)),
             tb_next_batch_id := tb_next_batch_id tb + length (fg_batches g),
             tb_pending := restore_batches (tb_next_batch_id tb) (fg_batches g) @ tb_pending tb,
             tb_keyed := map_option (\<lambda>ks. ks\<lparr>ks_entries := fold merge_back (fg_keyed g) (ks_entries ks)\<rparr>) (tb_keyed tb)\<rparr>)"

definition note_observed :: "(gen_commit \<Rightarrow> bool) \<Rightarrow> ('r, 'k) table_buf \<Rightarrow> ('r, 'k) table_buf" where
  "note_observed is_committed tb =
     tb\<lparr>tb_flushed := map (\<lambda>g. if \<not> fg_observed g \<and> is_committed (fg_commit g) then g\<lparr>fg_observed := True\<rparr> else g) (tb_flushed tb)\<rparr>"

definition FLUSHED_GC :: nat where
  "FLUSHED_GC = 30000"

definition flushed_gen_expired :: "nat \<Rightarrow> nat \<Rightarrow> ('r, 'k) flushed_gen \<Rightarrow> bool" where
  "flushed_gen_expired now gc_age g \<longleftrightarrow> fg_observed g \<and> now - fg_committed_at g \<ge> gc_age"

definition gc_flushed :: "nat \<Rightarrow> ('r, 'k) table_buf \<Rightarrow> ('r, 'k) table_buf" where
  "gc_flushed now tb = tb\<lparr>tb_flushed := filter (\<lambda>g. \<not> flushed_gen_expired now FLUSHED_GC g) (tb_flushed tb)\<rparr>"

definition generation_already_committed :: "nat option \<Rightarrow> nat \<Rightarrow> bool" where
  "generation_already_committed prev mark = (case prev of None \<Rightarrow> False | Some p \<Rightarrow> p \<ge> mark)"

section \<open>The overlay of a scan\<close>

record ('r, 'k) layer =
  ly_appends :: "'r list list"
  ly_upserts :: "'r list list"
  ly_keys :: "'k list"

definition upsert_rows :: "('r, 'k) keyed_op list \<Rightarrow> 'r list list" where
  "upsert_rows ops = concat (map (\<lambda>op. case ko_kind op of Upsert r \<Rightarrow> [[r]] | Delete \<Rightarrow> []) ops)"

definition gen_layer :: "('r, 'k) flushed_gen \<Rightarrow> ('r, 'k) layer" where
  "gen_layer g =
     \<lparr>ly_appends = map snd (fg_batches g), ly_upserts = upsert_rows (map (\<lambda>x. snd (snd x)) (fg_keyed g)),
      ly_keys = map fst (fg_keyed g)\<rparr>"

definition pending_layer :: "('r, 'k) table_buf \<Rightarrow> ('r, 'k) layer" where
  "pending_layer tb =
     \<lparr>ly_appends = map pb_batch (tb_pending tb), ly_upserts = upsert_rows (map (\<lambda>x. ke_op (snd x)) (keyed_entries tb)),
      ly_keys = map fst (keyed_entries tb)\<rparr>"

definition overlay_layers :: "(gen_commit \<Rightarrow> bool) \<Rightarrow> ('r, 'k) table_buf \<Rightarrow> ('r, 'k) layer list" where
  "overlay_layers is_committed tb =
     map gen_layer (filter (\<lambda>g. \<not> is_committed (fg_commit g)) (tb_flushed tb)) @ [pending_layer tb]"

text \<open>The batches of the layers: the keys of newer layers hide everything, own keys hide appends.\<close>

fun overlay_batches ::
  "(string list \<Rightarrow> 'r \<Rightarrow> 'k) \<Rightarrow> (string list \<Rightarrow> bool) \<Rightarrow> string list \<Rightarrow> ('r, 'k) layer list \<Rightarrow> ('r list list) result" where
  "overlay_batches key pk_ok pk_cols [] = Inr []"
| "overlay_batches key pk_ok pk_cols (l # ls) =
     (let newer = set (concat (map ly_keys ls)) in
      rbind (collect_results (map (\<lambda>b. suppress_batch key pk_ok b pk_cols (newer \<union> set (ly_keys l))) (ly_appends l))) (\<lambda>as.
      rbind (collect_results (map (\<lambda>b. suppress_batch key pk_ok b pk_cols newer) (ly_upserts l))) (\<lambda>us.
      rbind (overlay_batches key pk_ok pk_cols ls) (\<lambda>rest.
        Inr (filter (\<lambda>b. b \<noteq> []) as @ filter (\<lambda>b. b \<noteq> []) us @ rest)))))"

record ('r, 'k) overlay =
  ov_batches :: "'r list list"
  ov_suppress :: "(string list \<times> 'k set) option"

definition overlay_with ::
  "(string list \<Rightarrow> 'r \<Rightarrow> 'k) \<Rightarrow> (string list \<Rightarrow> bool) \<Rightarrow> (gen_commit \<Rightarrow> bool) \<Rightarrow> ('r, 'k) table_buf \<Rightarrow>
   (('r, 'k) overlay option) result \<times> ('r, 'k) table_buf" where
  "overlay_with key pk_ok is_committed tb =
     (let tb1 = tb\<lparr>tb_flushed := map (\<lambda>g. if is_committed (fg_commit g) then g\<lparr>fg_observed := True\<rparr> else g) (tb_flushed tb)\<rparr>;
          layers = overlay_layers is_committed tb;
          keys = set (concat (map ly_keys layers))
      in if keys = {}
         then (let batches = concat (map ly_appends layers) in
               (Inr (if batches = [] then None else Some \<lparr>ov_batches = batches, ov_suppress = None\<rparr>), tb1))
         else case tb_keyed tb of
                None \<Rightarrow> (Inl ''keyed generations without keyed state'', tb1)
              | Some ks \<Rightarrow>
                  (rbind (overlay_batches key pk_ok (ks_pk_cols ks) layers) (\<lambda>batches.
                     Inr (Some \<lparr>ov_batches = batches, ov_suppress = Some (ks_pk_cols ks, keys)\<rparr>)), tb1))"

end
