(* ===== verification/BufferLayers.thy ===== *)
theory BufferLayers
  imports Buffer "HOL-Library.Multiset"
begin

text \<open>
  Union reads.  The reference is what the lake itself would return: a flush commits a layer as
  \<^verbatim>\<open>[Append(pending), Delete(keys), Append(upserts)]\<close>, and \<open>layer_apply\<close> is that commit on the rows of
  the table.  The overlay of a scan is proved to be the commits of all the layers that the scan's
  metadata does not contain, and splitting a layer into a flushed generation and a newer pending
  layer, or merging it back, to change nothing under the routing invariant.
\<close>

section \<open>Committing a layer\<close>

definition layer_apply :: "('r \<Rightarrow> 'k) \<Rightarrow> ('r, 'k) layer \<Rightarrow> 'r list \<Rightarrow> 'r list" where
  "layer_apply key l rows =
     filter (\<lambda>r. key r \<notin> set (ly_keys l)) (rows @ concat (ly_appends l)) @ concat (ly_upserts l)"

text \<open>What a scan returns: the committed rows less the suppressed keys, and the overlay.\<close>

definition union_read :: "(string list \<Rightarrow> 'r \<Rightarrow> 'k) \<Rightarrow> 'r list \<Rightarrow> ('r, 'k) overlay option \<Rightarrow> 'r list" where
  "union_read key committed ov =
     (case ov of
        None \<Rightarrow> committed
      | Some ov \<Rightarrow>
          (case ov_suppress ov of
             None \<Rightarrow> committed
           | Some (pk_cols, keys) \<Rightarrow> filter (\<lambda>r. key pk_cols r \<notin> keys) committed) @ concat (ov_batches ov))"

definition pk_of :: "('r, 'k) table_buf \<Rightarrow> string list" where
  "pk_of tb = (case tb_keyed tb of None \<Rightarrow> [] | Some ks \<Rightarrow> ks_pk_cols ks)"

fun layers_out :: "('r \<Rightarrow> 'k) \<Rightarrow> ('r, 'k) layer list \<Rightarrow> 'r list" where
  "layers_out key [] = []"
| "layers_out key (l # ls) =
     (let newer = set (concat (map ly_keys ls)) in
      filter (\<lambda>r. key r \<notin> newer \<union> set (ly_keys l)) (concat (ly_appends l)) @
      filter (\<lambda>r. key r \<notin> newer) (concat (ly_upserts l)) @ layers_out key ls)"

lemma fold_layer_apply:
  "fold (layer_apply key) ls rows =
     filter (\<lambda>r. key r \<notin> set (concat (map ly_keys ls))) rows @ layers_out key ls"
proof (induction ls arbitrary: rows)
  case (Cons l ls)
  then show ?case
    by (simp add: layer_apply_def Let_def filter_filter) (auto intro!: arg_cong2 [where f = append] filter_cong)
qed simp

lemma suppress_batch_ok:
  assumes "pk_ok pk"
  shows "suppress_batch key pk_ok b pk ks = Inr (filter (\<lambda>r. key pk r \<notin> ks) b)"
proof -
  have "map fst (filter (\<lambda>(r, k). k \<notin> ks) (zip b (map (key pk) b))) = filter (\<lambda>r. key pk r \<notin> ks) b"
    by (induction b) auto
  then show ?thesis using assms by (simp add: suppress_batch_def encode_batch_keys_def rbind_def)
qed

lemma concat_nonempty: "concat (filter (\<lambda>b. b \<noteq> []) bs) = concat bs"
  by (induction bs) auto

lemma collect_suppressed:
  assumes "pk_ok pk"
  shows "collect_results (map (\<lambda>b. suppress_batch key pk_ok b pk ks) bs) = Inr (map (filter (\<lambda>r. key pk r \<notin> ks)) bs)"
  using assms by (induction bs) (simp_all add: suppress_batch_ok rbind_def)

lemma overlay_batches_ok:
  assumes "pk_ok pk"
  shows "\<exists>bs. overlay_batches key pk_ok pk ls = Inr bs \<and> concat bs = layers_out (key pk) ls"
proof (induction ls)
  case (Cons l ls)
  then obtain bs where "overlay_batches key pk_ok pk ls = Inr bs" "concat bs = layers_out (key pk) ls" by blast
  then show ?case
    using assms by (auto simp: collect_suppressed rbind_def Let_def concat_nonempty filter_concat)
qed simp

text \<open>
  The overlay is the commits of the unseen layers: whatever generations the scan's metadata
  contains, committed rows and overlay together are the committed rows with every other layer
  committed on top, in order.
\<close>

lemma overlay_commits_layers:
  assumes "concat (map ly_keys (overlay_layers is_committed tb)) \<noteq> [] \<Longrightarrow> tb_keyed tb \<noteq> None \<and> pk_ok (pk_of tb)"
  shows "\<exists>ov. fst (overlay_with key pk_ok is_committed tb) = Inr ov \<and>
    union_read key committed ov = fold (layer_apply (key (pk_of tb))) (overlay_layers is_committed tb) committed"
proof (cases "set (concat (map ly_keys (overlay_layers is_committed tb))) = {}")
  case True
  let ?ls = "overlay_layers is_committed tb"
  have u: "concat (ly_upserts l) = []" if "l \<in> set ?ls" for l
  proof -
    have "ly_keys l = []" using True that by auto
    then show ?thesis using that
      by (auto simp: overlay_layers_def gen_layer_def pending_layer_def upsert_rows_def)
  qed
  have "layers_out k ls = concat (concat (map ly_appends ls))"
    if "\<forall>l\<in>set ls. ly_keys l = [] \<and> concat (ly_upserts l) = []" for ls k
    using that by (induction ls) auto
  from this [of ?ls] have "layers_out (key (pk_of tb)) ?ls = concat (concat (map ly_appends ?ls))" using True u by auto
  then show ?thesis using True
    by (auto simp: overlay_with_def Let_def union_read_def fold_layer_apply)
next
  case False
  then obtain ks where ks: "tb_keyed tb = Some ks" "pk_ok (ks_pk_cols ks)" using assms by (auto simp: pk_of_def)
  from overlay_batches_ok [where pk_ok = pk_ok and pk = "ks_pk_cols ks" and key = key and ls = "overlay_layers is_committed tb", OF ks(2)]
  show ?thesis using False ks by (auto simp: overlay_with_def Let_def union_read_def fold_layer_apply pk_of_def rbind_def)
qed


section \<open>Splitting and merging layers\<close>

definition up :: "('r, 'k) keyed_op \<Rightarrow> 'r list" where
  "up op = (case ko_kind op of Upsert r \<Rightarrow> [r] | Delete \<Rightarrow> [])"

lemma concat_upsert_rows: "concat (upsert_rows ops) = concat (map up ops)"
  by (induction ops) (auto simp: upsert_rows_def up_def split: keyed_kind.splits)

text \<open>Two layers as one: the newer layer wins per key, and its appends are not hidden by older keys.\<close>

lemma layer_merge:
  assumes "set (ly_keys l) = set (ly_keys l1) \<union> set (ly_keys l2)" "concat (ly_appends l) = concat (ly_appends l1) @ concat (ly_appends l2)"
    and "mset (concat (ly_upserts l)) =
      mset (concat (ly_upserts l2)) + mset (filter (\<lambda>r. key r \<notin> set (ly_keys l2)) (concat (ly_upserts l1)))"
    and "\<forall>r\<in>set (concat (ly_appends l2)). key r \<in> set (ly_keys l1) \<longrightarrow> key r \<in> set (ly_keys l2)"
  shows "mset (layer_apply key l rows) = mset (layer_apply key l2 (layer_apply key l1 rows))"
proof -
  let ?k1 = "set (ly_keys l1)" and ?k2 = "set (ly_keys l2)"
  have a2: "filter (\<lambda>r. key r \<notin> ?k1 \<and> key r \<notin> ?k2) (concat (ly_appends l2)) = filter (\<lambda>r. key r \<notin> ?k2) (concat (ly_appends l2))"
    by (rule filter_cong) (use assms(4) in auto)
  have two: "filter (\<lambda>r. key r \<notin> ?k2) (filter (\<lambda>r. key r \<notin> ?k1) xs) = filter (\<lambda>r. key r \<notin> ?k1 \<and> key r \<notin> ?k2) xs" for xs
    by (simp add: filter_filter conj_commute)
  have "mset (layer_apply key l rows) =
    mset (filter (\<lambda>r. key r \<notin> ?k1 \<and> key r \<notin> ?k2) rows) +
    mset (filter (\<lambda>r. key r \<notin> ?k1 \<and> key r \<notin> ?k2) (concat (ly_appends l1))) +
    mset (filter (\<lambda>r. key r \<notin> ?k2) (concat (ly_appends l2))) + mset (concat (ly_upserts l))"
    unfolding layer_apply_def assms(1,2) filter_append mset_append a2 [symmetric] by (simp add: add.assoc)
  also have "\<dots> = mset (layer_apply key l2 (layer_apply key l1 rows))"
    unfolding layer_apply_def filter_append mset_append two assms(3) by (simp add: ac_simps)
  finally show ?thesis .
qed

text \<open>Keyed maps: one entry per key, which it names; and an upsert row carries its key.\<close>

definition op_keyed :: "('r \<Rightarrow> 'k) \<Rightarrow> 'k \<Rightarrow> ('r, 'k) keyed_op \<Rightarrow> bool" where
  "op_keyed key k op \<longleftrightarrow> ko_key_row op = k \<and> (\<forall>r. ko_kind op = Upsert r \<longrightarrow> key r = k)"

definition entries_wf :: "('r \<Rightarrow> 'k) \<Rightarrow> ('k \<times> ('r, 'k) keyed_entry) list \<Rightarrow> bool" where
  "entries_wf key es \<longleftrightarrow> distinct (map fst es) \<and> (\<forall>(k, e)\<in>set es. op_keyed key k (ke_op e))"

definition snap_wf :: "('r \<Rightarrow> 'k) \<Rightarrow> ('r, 'k) keyed_snap \<Rightarrow> bool" where
  "snap_wf key K \<longleftrightarrow> distinct (map fst K) \<and> (\<forall>(k, s, op)\<in>set K. op_keyed key k op)"

lemma up_filter: "op_keyed key k op \<Longrightarrow> filter (\<lambda>r. key r \<notin> S) (up op) = (if k \<in> S then [] else up op)"
  by (auto simp: op_keyed_def up_def split: keyed_kind.splits)

lemma snap_up_filter:
  assumes "\<forall>(k, s, op)\<in>set K. op_keyed key k op"
  shows "filter (\<lambda>r. key r \<notin> S) (concat (map (\<lambda>x. up (snd (snd x))) K)) =
    concat (map (\<lambda>x. up (snd (snd x))) (filter (\<lambda>x. fst x \<notin> S) K))"
  using assms by (induction K) (auto simp: up_filter)

definition drained :: "('r, 'k) keyed_snap \<Rightarrow> 'k \<times> ('r, 'k) keyed_entry \<Rightarrow> bool" where
  "drained K x \<longleftrightarrow> (\<exists>op. (fst x, ke_stamp (snd x), op) \<in> set K)"

lemma drain_entry_filter:
  assumes "distinct (map fst es)"
  shows "drain_entry x es = filter (\<lambda>y. \<not> (fst y = fst x \<and> ke_stamp (snd y) = fst (snd x))) es"
proof (cases "map_of es (fst x)")
  case None
  then have "\<forall>y\<in>set es. fst y \<noteq> fst x" by (metis imageI map_of_eq_None_iff)
  then show ?thesis using None by (auto simp: drain_entry_def intro!: filter_True [symmetric])
next
  case (Some e)
  then have u: "\<forall>y\<in>set es. fst y = fst x \<longrightarrow> snd y = e" using assms by (auto simp: map_of_eq_Some_iff) (metis Some assms map_of_is_SomeI option.inject)
  show ?thesis
  proof (cases "ke_stamp e = fst (snd x)")
    case True
    then show ?thesis using Some u by (auto simp: drain_entry_def AList.delete_eq case_prod_beta intro!: filter_cong)
  next
    case False
    then show ?thesis using Some u by (auto simp: drain_entry_def intro!: filter_True [symmetric])
  qed
qed

lemma drain_fold: "distinct (map fst es) \<Longrightarrow> fold drain_entry K es = filter (\<lambda>y. \<not> drained K y) es"
proof (induction K arbitrary: es)
  case Nil
  then show ?case by (simp add: drained_def)
next
  case (Cons x K)
  have "distinct (map fst (drain_entry x es))" using Cons.prems by (simp add: drain_entry_filter distinct_map_filter)
  then have "fold drain_entry (x # K) es = filter (\<lambda>y. \<not> drained K y) (drain_entry x es)" using Cons.IH by simp
  also have "\<dots> = filter (\<lambda>y. \<not> drained (x # K) y) es"
    by (cases x) (auto simp: drain_entry_filter [OF Cons.prems] drained_def intro!: filter_cong)
  finally show ?case .
qed

lemma merge_fold:
  "distinct (map fst K) \<Longrightarrow> fold merge_back K es =
     es @ map (\<lambda>x. (fst x, \<lparr>ke_stamp = fst (snd x), ke_op = snd (snd x)\<rparr>)) (filter (\<lambda>x. fst x \<notin> fst ` set es) K)"
proof (induction K arbitrary: es)
  case (Cons x K)
  show ?case
  proof (cases "fst x \<in> fst ` set es")
    case True
    then have "merge_back x es = es" by (simp add: merge_back_def map_of_eq_None_iff)
    then show ?thesis using Cons.IH [of es] Cons.prems True by simp
  next
    case False
    then have "merge_back x es = es @ [(fst x, \<lparr>ke_stamp = fst (snd x), ke_op = snd (snd x)\<rparr>)]"
      by (simp add: merge_back_def map_of_eq_None_iff)
    moreover have "filter (\<lambda>y. fst y \<noteq> fst x \<and> fst y \<notin> fst ` set es) K = filter (\<lambda>y. fst y \<notin> fst ` set es) K"
      using Cons.prems by (intro filter_cong refl) (simp, metis imageI)
    ultimately show ?thesis using Cons.IH [of "merge_back x es"] Cons.prems False by simp
  qed
qed simp


section \<open>A flush in flight\<close>

text \<open>
  Between a flush snapshot and its end: the snapshot's batches are the front of the pending list,
  its keys are still in the live map (with the same operation when the stamp is the same), and no
  batch behind them carries a key of the snapshot.
\<close>

definition flight_ok :: "('r \<Rightarrow> 'k) \<Rightarrow> ('r, 'k) pending_snapshot \<Rightarrow> ('r, 'k) table_buf \<Rightarrow> bool" where
  "flight_ok key sn tb \<longleftrightarrow>
     snap_wf key (sn_keyed sn) \<and>
     (\<exists>pbs. map pb_batch (tb_pending tb) = sn_batches sn @ pbs \<and>
        (\<forall>r\<in>set (concat pbs). key r \<notin> fst ` set (sn_keyed sn))) \<and>
     (\<forall>(k, s, op)\<in>set (sn_keyed sn). \<exists>e. map_of (keyed_entries tb) k = Some e \<and> (ke_stamp e = s \<longrightarrow> ke_op e = op))"

lemma mset_concat_map: "mset xs = mset ys \<Longrightarrow> mset (concat (map f xs)) = mset (concat (map f ys))"
  by (metis mset_concat mset_map map_map sum_mset_sum_list)

lemma mset_of_pairs:
  assumes "distinct (map fst xs)" "distinct (map fst ys)" "set xs = set ys"
  shows "mset xs = mset ys"
  using assms by (metis distinct_map set_eq_iff_mset_eq_distinct)

text \<open>Moving the snapshot of a flush into a generation changes no union read that does not contain it.\<close>

lemma move_to_flushed_layers:
  assumes wf: "entries_wf key (keyed_entries tb)" and fl: "flight_ok key sn tb"
    and tb': "tb' = move_pending_to_flushed_gen now (length (sn_batches sn)) (sn_keyed sn) c tb"
  shows "\<exists>g. tb_flushed tb' = tb_flushed tb @ [g] \<and> fg_commit g = c \<and>
    ly_keys (gen_layer g) = map fst (sn_keyed sn) \<and> snap_wf key (fg_keyed g) \<and> entries_wf key (keyed_entries tb') \<and>
    mset (layer_apply key (pending_layer tb) rows) = mset (layer_apply key (pending_layer tb') (layer_apply key (gen_layer g) rows))"
proof -
  let ?K = "sn_keyed sn" and ?es = "keyed_entries tb" and ?n = "length (sn_batches sn)"
  let ?es' = "filter (\<lambda>y. \<not> drained ?K y) ?es"
  let ?g = "\<lparr>fg_commit = c, fg_batches = map (\<lambda>pb. (pb_seq pb, pb_batch pb)) (take ?n (tb_pending tb)), fg_keyed = ?K, fg_committed_at = now, fg_observed = False\<rparr>"
  have d: "distinct (map fst ?es)" "distinct (map fst ?K)" and ok: "\<forall>(k, s, op)\<in>set ?K. op_keyed key k op"
    using wf fl by (auto simp: entries_wf_def flight_ok_def snap_wf_def)
  obtain pbs where pbs: "map pb_batch (tb_pending tb) = sn_batches sn @ pbs" "\<forall>r\<in>set (concat pbs). key r \<notin> fst ` set ?K"
    using fl by (auto simp: flight_ok_def)
  have live: "\<exists>e. map_of ?es k = Some e \<and> (ke_stamp e = s \<longrightarrow> ke_op e = op)" if "(k, s, op) \<in> set ?K" for k s op
    using fl that by (auto simp: flight_ok_def)
  have ke: "keyed_entries tb' = ?es'"
    using drain_fold [OF d(1)]
    by (cases "tb_keyed tb") (simp_all add: tb' move_pending_to_flushed_gen_def drop_pending_prefix_def drain_keyed_snapshot_def keyed_entries_def Let_def)
  have fg: "tb_flushed tb' = tb_flushed tb @ [?g]"
    by (simp add: tb' move_pending_to_flushed_gen_def drop_pending_prefix_def drain_keyed_snapshot_def Let_def)
  have pd: "map pb_batch (tb_pending tb') = pbs"
    using pbs(1) by (simp add: tb' move_pending_to_flushed_gen_def drop_pending_prefix_def drain_keyed_snapshot_def drop_map [symmetric] Let_def)
  have gb: "map snd (fg_batches ?g) = sn_batches sn"
    using pbs(1) by (simp add: comp_def take_map [symmetric])
  let ?K1 = "fst ` set ?K" and ?K2 = "fst ` set ?es'"
  have K1es: "?K1 \<subseteq> fst ` set ?es" 
  proof
    fix k
    assume "k \<in> ?K1"
    then obtain s op where "(k, s, op) \<in> set ?K" by force
    then obtain e where "map_of ?es k = Some e" using live by blast
    then show "k \<in> fst ` set ?es" using map_of_SomeD [of ?es k e] by force
  qed
  have uniq: "e = e'" if "(k, e) \<in> set ?es" "(k, e') \<in> set ?es" for k e e' using that d(1) by (metis map_of_is_SomeI option.inject)
  have keys: "fst ` set ?es = ?K1 \<union> ?K2" using K1es by (force simp: drained_def)
  let ?old = "map (\<lambda>x. (fst x, ke_op (snd x))) (filter (drained ?K) ?es)"
  let ?new = "map (\<lambda>x. (fst x, snd (snd x))) (filter (\<lambda>x. fst x \<notin> ?K2) ?K)"
  have "mset ?old = mset ?new"
  proof (rule mset_of_pairs)
    show "distinct (map fst ?old)" using d(1) by (simp add: comp_def distinct_map_filter)
    show "distinct (map fst ?new)" using d(2) by (simp add: comp_def distinct_map_filter)
    show "set ?old = set ?new"
    proof (intro set_eqI iffI)
      fix y
      assume "y \<in> set ?old"
      then obtain k e where e: "(k, e) \<in> set ?es" "drained ?K (k, e)" "y = (k, ke_op e)" by auto
      then obtain op where op: "(k, ke_stamp e, op) \<in> set ?K" by (auto simp: drained_def)
      have "op = ke_op e" using live [OF op] e(1) d(1) by auto
      moreover have "k \<notin> ?K2" using uniq e(1,2) by (auto simp: image_iff)
      ultimately show "y \<in> set ?new" using op e(3) by (auto simp: image_iff intro!: bexI [of _ "(k, ke_stamp e, op)"])
    next
      fix y
      assume "y \<in> set ?new"
      then obtain k s op where x: "(k, s, op) \<in> set ?K" "k \<notin> ?K2" "y = (k, op)" by auto
      then obtain e where e: "map_of ?es k = Some e" "ke_stamp e = s \<longrightarrow> ke_op e = op" using live by blast
      have m: "(k, e) \<in> set ?es" using e(1) by (rule map_of_SomeD)
      then have dr: "drained ?K (k, e)" using x(2) by (auto simp: image_iff)
      then obtain op' where "(k, ke_stamp e, op') \<in> set ?K" by (auto simp: drained_def)
      then have "ke_stamp e = s" using x(1) d(2) by (metis Pair_inject map_of_is_SomeI option.inject)
      then show "y \<in> set ?old" using m dr e(2) x(3) by (auto simp: image_iff intro!: bexI [of _ "(k, e)"])
    qed
  qed
  from mset_concat_map [OF this, of "\<lambda>y. up (snd y)"]
  have ups: "mset (concat (map (\<lambda>x. up (ke_op (snd x))) (filter (drained ?K) ?es))) =
      mset (concat (map (\<lambda>x. up (snd (snd x))) (filter (\<lambda>x. fst x \<notin> ?K2) ?K)))" by (simp add: comp_def)
  have part: "mset (concat (map f ?es)) = mset (concat (map f ?es')) + mset (concat (map f (filter (drained ?K) ?es)))" for f :: "_ \<Rightarrow> 'a list"
  proof -
    have "mset ?es = mset (?es' @ filter (drained ?K) ?es)" using multiset_partition [of "mset ?es" "drained ?K"] by (simp add: union_commute)
    from mset_concat_map [OF this, of f] show ?thesis by simp
  qed
  have m: "mset (layer_apply key (pending_layer tb) rows) = mset (layer_apply key (pending_layer tb') (layer_apply key (gen_layer ?g) rows))"
  proof (rule layer_merge)
    show "set (ly_keys (pending_layer tb)) = set (ly_keys (gen_layer ?g)) \<union> set (ly_keys (pending_layer tb'))"
      using keys by (simp add: pending_layer_def gen_layer_def ke)
    show "concat (ly_appends (pending_layer tb)) = concat (ly_appends (gen_layer ?g)) @ concat (ly_appends (pending_layer tb'))"
      using pbs(1) pd gb by (simp add: pending_layer_def gen_layer_def)
    show "mset (concat (ly_upserts (pending_layer tb))) = mset (concat (ly_upserts (pending_layer tb'))) +
      mset (filter (\<lambda>r. key r \<notin> set (ly_keys (pending_layer tb'))) (concat (ly_upserts (gen_layer ?g))))"
      using part [of "\<lambda>x. up (ke_op (snd x))"] ups snap_up_filter [OF ok, of ?K2]
      by (simp add: pending_layer_def gen_layer_def concat_upsert_rows comp_def ke)
    show "\<forall>r\<in>set (concat (ly_appends (pending_layer tb'))). key r \<in> set (ly_keys (gen_layer ?g)) \<longrightarrow> key r \<in> set (ly_keys (pending_layer tb'))"
      using pbs(2) pd by (simp add: pending_layer_def gen_layer_def)
  qed
  have "entries_wf key (keyed_entries tb')" using wf by (auto simp: ke entries_wf_def distinct_map_filter)
  then show ?thesis using fg m d(2) ok by (intro exI [of _ ?g]) (simp add: gen_layer_def snap_wf_def)
qed

end
