(* ===== verification/BufferRoute.thy ===== *)
theory BufferRoute
  imports BufferLayers
begin

text \<open>
  What statements do to the newest layer of a table.  A statement on a key replaces the key's rows
  in every read (\<open>put_key\<close>); a plain insert adds its row.  Routing an insert is proved to do, row by row,
  the first for keys that are buffered and the second for the others, and to keep a flush in
  flight intact.
\<close>

section \<open>Keyed entries\<close>

definition put_key :: "('r \<Rightarrow> 'k) \<Rightarrow> 'k \<Rightarrow> 'r multiset \<Rightarrow> 'r multiset \<Rightarrow> 'r multiset" where
  "put_key key k M A = filter_mset (\<lambda>x. key x \<noteq> k) A + M"

definition ups :: "('k \<times> ('r, 'k) keyed_entry) list \<Rightarrow> 'r list" where
  "ups es = concat (map (\<lambda>x. up (ke_op (snd x))) es)"

definition newest :: "('r \<Rightarrow> 'k) \<Rightarrow> ('r, 'k) table_buf \<Rightarrow> 'r list \<Rightarrow> 'r multiset" where
  "newest key tb rows = mset (layer_apply key (pending_layer tb) rows)"

lemma newest_eq:
  "newest key tb rows =
     filter_mset (\<lambda>r. key r \<notin> fst ` set (keyed_entries tb)) (mset rows + mset (concat (map pb_batch (tb_pending tb)))) +
     mset (ups (keyed_entries tb))"
  by (simp add: newest_def layer_apply_def pending_layer_def concat_upsert_rows ups_def comp_def)

lemma update_mset:
  "distinct (map fst es) \<Longrightarrow> mset (AList.update k e es) = add_mset (k, e) (mset (filter (\<lambda>x. fst x \<noteq> k) es))"
proof (induction es)
  case (Cons x es)
  have "\<forall>y\<in>set es. fst y \<noteq> fst x" using Cons.prems by (metis distinct.simps(2) imageI list.map(2) list.set_map)
  then have "filter_mset (\<lambda>y. fst y \<noteq> fst x) (mset es) = mset es" by (simp add: filter_mset_eq_conv)
  then show ?case using Cons by (cases x) auto
qed simp

lemma update_keys: "fst ` set (AList.update k e es) = insert k (fst ` set es)"
  by (simp add: dom_update [unfolded dom_map_of_conv_image_fst] flip: dom_map_of_conv_image_fst) (auto simp: dom_map_of_conv_image_fst update_conv')

lemma up_key: "op_keyed key k op \<Longrightarrow> r \<in> set (up op) \<Longrightarrow> key r = k"
  by (auto simp: op_keyed_def up_def split: keyed_kind.splits)

lemma update_wf:
  assumes "entries_wf key es" "op_keyed key k (ke_op e)"
  shows "entries_wf key (AList.update k e es) \<and>
    mset (ups (AList.update k e es)) = put_key key k (mset (up (ke_op e))) (mset (ups es))"
proof -
  have d: "distinct (map fst es)" and ok: "\<forall>(k, e)\<in>set es. op_keyed key k (ke_op e)" using assms(1) by (auto simp: entries_wf_def)
  have m: "mset (AList.update k e es) = mset ((k, e) # filter (\<lambda>x. fst x \<noteq> k) es)" using update_mset [OF d] by simp
  have "mset (ups (AList.update k e es)) = mset (ups ((k, e) # filter (\<lambda>x. fst x \<noteq> k) es))"
    unfolding ups_def using m by (rule mset_concat_map)
  moreover have "filter (\<lambda>r. key r \<noteq> k) (ups es) = ups (filter (\<lambda>x. fst x \<noteq> k) es)"
    using ok
  proof (induction es)
    case (Cons x es)
    have "filter (\<lambda>r. key r \<noteq> k) (up (ke_op (snd x))) = (if fst x = k then [] else up (ke_op (snd x)))"
      using Cons.prems up_key [of key "fst x" "ke_op (snd x)"] by (auto simp: filter_empty_conv intro: filter_True)
    then show ?case using Cons by (simp add: ups_def)
  qed (simp add: ups_def)
  ultimately have "mset (ups (AList.update k e es)) = put_key key k (mset (up (ke_op e))) (mset (ups es))"
    by (simp add: put_key_def ups_def flip: mset_filter)
  moreover have "set (AList.update k e es) \<subseteq> insert (k, e) (set es)" using mset_eq_setD [OF m] by auto
  then have "entries_wf key (AList.update k e es)"
    using assms(2) ok d distinct_update [of es k e] by (auto simp: entries_wf_def)
  ultimately show ?thesis by blast
qed

text \<open>Writing a key replaces what every read of the table returns for it.\<close>

lemma newest_update:
  assumes "entries_wf key (keyed_entries tb)" "op_keyed key k (ke_op e)"
    and "keyed_entries tb' = AList.update k e (keyed_entries tb)" "tb_pending tb' = tb_pending tb"
  shows "newest key tb' rows = put_key key k (mset (up (ke_op e))) (newest key tb rows)"
proof -
  note u = update_wf [OF assms(1,2)]
  have "filter_mset (\<lambda>r. key r \<notin> insert k S) M = filter_mset (\<lambda>r. key r \<noteq> k) (filter_mset (\<lambda>r. key r \<notin> S) M)" for S and M :: "'a multiset"
    by (simp add: filter_filter_mset conj_commute)
  then show ?thesis using u by (simp add: newest_eq assms(3,4) update_keys put_key_def)
qed

section \<open>Routing\<close>

definition buf_wf :: "('r \<Rightarrow> 'k) \<Rightarrow> string list \<Rightarrow> ('r, 'k) table_buf \<Rightarrow> bool" where
  "buf_wf key pk tb \<longleftrightarrow>
     entries_wf key (keyed_entries tb) \<and>
     (\<forall>ks. tb_keyed tb = Some ks \<longrightarrow> ks_pk_cols ks = pk \<and> (\<forall>(k, e)\<in>set (ks_entries ks). ke_stamp e < ks_next_stamp ks))"

text \<open>A flush in flight whose stamps are all in the past.\<close>

definition in_flight :: "('r \<Rightarrow> 'k) \<Rightarrow> ('r, 'k) pending_snapshot \<Rightarrow> ('r, 'k) table_buf \<Rightarrow> bool" where
  "in_flight key sn tb \<longleftrightarrow> flight_ok key sn tb \<and>
     (\<forall>(k, s, op)\<in>set (sn_keyed sn). \<exists>ks. tb_keyed tb = Some ks \<and> s < ks_next_stamp ks)"

definition insert_effect :: "('r \<Rightarrow> 'k) \<Rightarrow> 'k set \<Rightarrow> 'r \<Rightarrow> 'r multiset \<Rightarrow> 'r multiset" where
  "insert_effect key K r A = (if key r \<in> K then put_key key (key r) {#r#} A else add_mset r A)"

text \<open>From \<open>tb\<close> to \<open>tb'\<close> the rows have been inserted and nothing else happened.\<close>

definition evolves ::
  "('r \<Rightarrow> 'k) \<Rightarrow> string list \<Rightarrow> 'r list \<Rightarrow> ('r, 'k) table_buf \<Rightarrow> ('r, 'k) table_buf \<Rightarrow> bool" where
  "evolves key pk rows tb tb' \<longleftrightarrow>
     buf_wf key pk tb' \<and> fst ` set (keyed_entries tb') = fst ` set (keyed_entries tb) \<and> tb_flushed tb' = tb_flushed tb \<and>
     tb_tail_high tb' = tb_tail_high tb \<and> (tb_keyed tb = None \<longleftrightarrow> tb_keyed tb' = None) \<and>
     (\<forall>X. newest key tb' X = fold (insert_effect key (fst ` set (keyed_entries tb))) rows (newest key tb X)) \<and>
     (\<forall>sn. in_flight key sn tb \<longrightarrow> in_flight key sn tb')"

lemma evolves_refl: "buf_wf key pk tb \<Longrightarrow> evolves key pk [] tb tb"
  by (simp add: evolves_def)

lemma evolves_trans: "evolves key pk xs a b \<Longrightarrow> evolves key pk ys b c \<Longrightarrow> evolves key pk (xs @ ys) a c"
  by (simp add: evolves_def)

lemma fold_insert_new:
  "\<forall>r\<in>set rows. key r \<notin> K \<Longrightarrow> fold (insert_effect key K) rows A = mset rows + A"
  by (induction rows arbitrary: A) (auto simp: insert_effect_def)

lemma insert_commute:
  assumes "key r \<in> K" "key s \<notin> K"
  shows "insert_effect key K r (insert_effect key K s A) = insert_effect key K s (insert_effect key K r A)"
  using assms by (auto simp: insert_effect_def put_key_def)

text \<open>Rows of buffered keys and new rows do not disturb each other.\<close>

lemma insert_split:
  "fold (insert_effect key K) rows A =
     fold (insert_effect key K) (filter (\<lambda>r. key r \<in> K) rows @ filter (\<lambda>r. key r \<notin> K) rows) A"
proof (induction rows arbitrary: A)
  case (Cons r rows)
  show ?case
  proof (cases "key r \<in> K")
    case False
    have "fold (insert_effect key K) hs (insert_effect key K r A) = insert_effect key K r (fold (insert_effect key K) hs A)"
      if "\<forall>h\<in>set hs. key h \<in> K" for hs
      using that
    proof (induction hs arbitrary: A)
      case (Cons h hs)
      then show ?case using insert_commute [of key h K r A] False by simp
    qed simp
    from this [of "filter (\<lambda>r. key r \<in> K) rows"] show ?thesis using Cons.IH [of "insert_effect key K r A"] False by simp
  qed (use Cons in simp)
qed simp

lemma keyed_entries_Some: "tb_keyed tb = Some ks \<Longrightarrow> keyed_entries tb = ks_entries ks"
  by (simp add: keyed_entries_def)

text \<open>A flush in flight survives a newer entry for any key.\<close>

lemma in_flight_update:
  assumes "in_flight key sn tb" "tb_keyed tb = Some ks" "tb_pending tb' = tb_pending tb"
    and "tb_keyed tb' = Some ks'" "ks_entries ks' = AList.update k e (ks_entries ks)" "ks_next_stamp ks' = ks_next_stamp ks + 1"
    and "ke_stamp e = ks_next_stamp ks"
  shows "in_flight key sn tb'"
proof -
  have f: "flight_ok key sn tb" and st: "\<forall>(k, s, op)\<in>set (sn_keyed sn). s < ks_next_stamp ks"
    using assms(1,2) by (auto simp: in_flight_def)
  have "\<exists>e'. map_of (keyed_entries tb') k' = Some e' \<and> (ke_stamp e' = s \<longrightarrow> ke_op e' = op)" if x: "(k', s, op) \<in> set (sn_keyed sn)" for k' s op
  proof (cases "k' = k")
    case True
    moreover have "s \<noteq> ke_stamp e" using st x assms(7) by auto
    ultimately show ?thesis by (simp add: keyed_entries_Some [OF assms(4)] assms(5) update_conv')
  next
    case False
    moreover have "\<exists>e'. map_of (keyed_entries tb) k' = Some e' \<and> (ke_stamp e' = s \<longrightarrow> ke_op e' = op)" using f x by (auto simp: flight_ok_def)
    ultimately show ?thesis by (simp add: keyed_entries_Some [OF assms(4)] keyed_entries_Some [OF assms(2)] assms(5) update_conv')
  qed
  then have "flight_ok key sn tb'" using f assms(3) by (auto simp: flight_ok_def)
  then show ?thesis using st assms(4,6) by (auto simp: in_flight_def)
qed

lemma buf_wf_update:
  assumes "buf_wf key pk tb" "tb_keyed tb = Some ks" "op_keyed key k (ke_op e)"
    and "tb_keyed tb' = Some ks'" "ks_entries ks' = AList.update k e (ks_entries ks)" "ks_next_stamp ks' = ks_next_stamp ks + 1"
    and "ke_stamp e = ks_next_stamp ks" "ks_pk_cols ks' = ks_pk_cols ks"
  shows "buf_wf key pk tb'"
proof -
  have w: "entries_wf key (ks_entries ks)" "ks_pk_cols ks = pk" "\<forall>(k, e)\<in>set (ks_entries ks). ke_stamp e < ks_next_stamp ks"
    using assms(1,2) by (auto simp: buf_wf_def keyed_entries_def)
  have d: "distinct (map fst (ks_entries ks))" using w(1) by (simp add: entries_wf_def)
  have "set (AList.update k e (ks_entries ks)) \<subseteq> insert (k, e) (set (ks_entries ks))"
    using mset_eq_setD [OF update_mset [OF d, of k e, folded mset.simps(2)]] by auto
  then show ?thesis using update_wf [OF w(1) assms(3)] w assms(4-) by (auto simp: buf_wf_def keyed_entries_def less_Suc_eq)
qed

text \<open>One keyed entry, for a key that is already buffered: the row of an insert.\<close>

lemma keyed_insert_evolves:
  assumes "buf_wf key pk tb" "tb_keyed tb = Some ks" "key r \<in> fst ` set (ks_entries ks)"
    and "keyed_insert (key r) \<lparr>ko_key_row = key r, ko_kind = Upsert r, ko_seq = seq\<rparr> (ks, log) = (ks', log')"
  shows "evolves key pk [r] tb (tb\<lparr>tb_keyed := Some ks'\<rparr>)"
proof -
  let ?op = "\<lparr>ko_key_row = key r, ko_kind = Upsert r, ko_seq = seq\<rparr>" and ?tb = "tb\<lparr>tb_keyed := Some ks'\<rparr>"
  let ?e = "\<lparr>ke_stamp = ks_next_stamp ks, ke_op = ?op\<rparr>"
  have op: "op_keyed key (key r) ?op" by (simp add: op_keyed_def)
  have k: "ks_entries ks' = AList.update (key r) ?e (ks_entries ks)" "ks_next_stamp ks' = ks_next_stamp ks + 1" "ks_pk_cols ks' = ks_pk_cols ks"
    using assms(4) by (auto simp: keyed_insert_def Let_def)
  have ke: "keyed_entries tb = ks_entries ks" "keyed_entries ?tb = ks_entries ks'" using assms(2) by (simp_all add: keyed_entries_def)
  have n: "newest key ?tb X = put_key key (key r) {#r#} (newest key tb X)" for X
    using newest_update [of key tb "key r" ?e ?tb X] assms(1) op k(1) ke by (simp add: buf_wf_def up_def)
  have "buf_wf key pk ?tb" by (rule buf_wf_update [OF assms(1,2), of "key r" ?e _ ks']) (use op k in simp_all)
  moreover have "in_flight key sn ?tb" if "in_flight key sn tb" for sn
    by (rule in_flight_update [OF that assms(2), of _ ks' "key r" ?e]) (use k in simp_all)
  moreover have "fst ` set (ks_entries ks') = fst ` set (ks_entries ks)" using assms(3) by (auto simp: k(1) update_keys)
  ultimately show ?thesis using n assms(2,3) ke by (simp add: evolves_def insert_effect_def)
qed

lemma route_hits_evolves:
  assumes "buf_wf key pk tb" "tb_keyed tb = Some ks" "\<forall>(k, r)\<in>set hs. k = key r \<and> k \<in> fst ` set (ks_entries ks)"
    and "route_hits seq hs (ks, log) = (ks', log')"
  shows "evolves key pk (map snd hs) tb (tb\<lparr>tb_keyed := Some ks'\<rparr>)"
  using assms
proof (induction hs arbitrary: tb ks log)
  case Nil
  then show ?case using evolves_refl [of key pk tb] by (cases tb) simp
next
  case (Cons h hs)
  obtain r where h: "h = (key r, r)" "key r \<in> fst ` set (ks_entries ks)" using Cons.prems(3) by (cases h) auto
  obtain ks1 log1 where i: "keyed_insert (key r) \<lparr>ko_key_row = key r, ko_kind = Upsert r, ko_seq = seq\<rparr> (ks, log) = (ks1, log1)"
    by (cases "keyed_insert (key r) \<lparr>ko_key_row = key r, ko_kind = Upsert r, ko_seq = seq\<rparr> (ks, log)")
  let ?tb = "tb\<lparr>tb_keyed := Some ks1\<rparr>"
  note e1 = keyed_insert_evolves [OF Cons.prems(1,2) h(2) i]
  have r: "route_hits seq hs (ks1, log1) = (ks', log')" using Cons.prems(4) h(1) i by simp
  have "fst ` set (ks_entries ks1) = fst ` set (ks_entries ks)"
    using e1 Cons.prems(2) by (simp add: evolves_def keyed_entries_def)
  then have "\<forall>(k, r)\<in>set hs. k = key r \<and> k \<in> fst ` set (ks_entries ks1)" using Cons.prems(3) by auto
  from Cons.IH [OF _ _ this r, of ?tb] e1 have "evolves key pk (map snd hs) ?tb (?tb\<lparr>tb_keyed := Some ks'\<rparr>)"
    by (simp add: evolves_def)
  from evolves_trans [OF e1 this] show ?case by (simp add: h(1))
qed

lemma push_pending_evolves:
  assumes "buf_wf key pk (fst st)" "\<forall>r\<in>set batch. key r \<notin> fst ` set (keyed_entries (fst st))"
  shows "evolves key pk batch (fst st) (fst (push_pending batch seq st))"
proof -
  let ?tb = "fst (push_pending batch seq st)"
  have same: "keyed_entries ?tb = keyed_entries (fst st)" "tb_keyed ?tb = tb_keyed (fst st)" "tb_flushed ?tb = tb_flushed (fst st)"
    "tb_tail_high ?tb = tb_tail_high (fst st)" "map pb_batch (tb_pending ?tb) = map pb_batch (tb_pending (fst st)) @ [batch]"
    by (simp_all add: push_pending_def keyed_entries_def Let_def)
  have "filter_mset (\<lambda>r. key r \<notin> fst ` set (keyed_entries (fst st))) (mset batch) = mset batch"
    using assms(2) by (simp add: filter_mset_eq_conv)
  then have n: "newest key ?tb X = mset batch + newest key (fst st) X" for X by (simp add: newest_eq same)
  have fl: "in_flight key sn ?tb" if "in_flight key sn (fst st)" for sn
  proof -
    have f: "flight_ok key sn (fst st)" using that by (simp add: in_flight_def)
    have "fst ` set (sn_keyed sn) \<subseteq> fst ` set (keyed_entries (fst st))"
    proof
      fix k
      assume "k \<in> fst ` set (sn_keyed sn)"
      then obtain e where "map_of (keyed_entries (fst st)) k = Some e" using f by (force simp: flight_ok_def)
      then show "k \<in> fst ` set (keyed_entries (fst st))" using map_of_SomeD by force
    qed
    moreover obtain pbs where "map pb_batch (tb_pending (fst st)) = sn_batches sn @ pbs" "\<forall>r\<in>set (concat pbs). key r \<notin> fst ` set (sn_keyed sn)"
      using f by (auto simp: flight_ok_def)
    ultimately have "\<exists>pbs. map pb_batch (tb_pending ?tb) = sn_batches sn @ pbs \<and> (\<forall>r\<in>set (concat pbs). key r \<notin> fst ` set (sn_keyed sn))"
      using assms(2) same(5) by (intro exI [of _ "pbs @ [batch]"]) auto
    then show ?thesis using that same(1,2) by (auto simp: in_flight_def flight_ok_def)
  qed
  show ?thesis using assms(1) same(1-4) n fl fold_insert_new [OF assms(2)]
    by (simp add: evolves_def buf_wf_def)
qed

lemma zip_map_keys: "zip (map key batch) batch = map (\<lambda>r. (key r, r)) batch"
  by (induction batch) auto

lemma route_batch_evolves:
  assumes "buf_wf (key pk) pk (fst st)" "tb_keyed (fst st) \<noteq> None" "route_batch key pk_ok seq batch st = Inr st'"
  shows "evolves (key pk) pk batch (fst st) (fst st')"
proof (cases "batch = []")
  case True
  then show ?thesis using assms evolves_refl by (simp add: route_batch_def)
next
  case False
  obtain ks where ks: "tb_keyed (fst st) = Some ks" "ks_pk_cols ks = pk" using assms(1,2) by (auto simp: buf_wf_def)
  let ?key = "key pk" and ?K = "fst ` set (ks_entries ks)"
  have ke: "keyed_entries (fst st) = ks_entries ks" using ks by (simp add: keyed_entries_def)
  have hit: "map_of (ks_entries ks) k \<noteq> None \<longleftrightarrow> k \<in> ?K" for k by (simp add: map_of_eq_None_iff)
  let ?hs = "filter (\<lambda>x. map_of (ks_entries ks) (fst x) \<noteq> None) (map (\<lambda>r. (?key r, r)) batch)"
    and ?ns = "filter (\<lambda>x. \<not> map_of (ks_entries ks) (fst x) \<noteq> None) (map (\<lambda>r. (?key r, r)) batch)"
  have hs: "map snd ?hs = filter (\<lambda>r. ?key r \<in> ?K) batch" "map snd ?ns = filter (\<lambda>r. ?key r \<notin> ?K) batch"
    by (simp_all add: filter_map comp_def map_of_eq_None_iff hit [unfolded not_None_eq])
  have ok: "pk_ok pk" using assms(3) False ks by (auto simp: route_batch_def encode_batch_keys_def split: if_splits)
  have "route_batch key pk_ok seq batch st = (if ?hs = [] then Inr (push_pending batch seq st)
      else (let (ks', log) = route_hits seq ?hs (ks, rs_keyed (snd st));
                st1 = ((fst st)\<lparr>tb_keyed := Some ks'\<rparr>, (snd st)\<lparr>rs_keyed := log\<rparr>)
            in if ?ns = [] then Inr st1 else Inr (push_pending (map snd ?ns) seq st1)))"
    unfolding route_batch_def encode_batch_keys_def Let_def
    by (simp only: False ks ok option.case if_False if_True rbind_simps zip_map_keys simp_thms)
  note r = this [unfolded assms(3), symmetric]
  show ?thesis
  proof (cases "?hs = []")
    case True
    then have "\<forall>r\<in>set batch. ?key r \<notin> ?K" by (auto simp: filter_empty_conv map_of_eq_None_iff)
    then show ?thesis using push_pending_evolves [OF assms(1), of batch seq] r True ke by simp
  next
    case no: False
    obtain ks' log where h: "route_hits seq ?hs (ks, rs_keyed (snd st)) = (ks', log)"
      by (cases "route_hits seq ?hs (ks, rs_keyed (snd st))")
    let ?st = "((fst st)\<lparr>tb_keyed := Some ks'\<rparr>, (snd st)\<lparr>rs_keyed := log\<rparr>)"
    have e1: "evolves ?key pk (map snd ?hs) (fst st) (fst ?st)"
    proof -
      have "\<forall>(k, r)\<in>set ?hs. k = ?key r \<and> k \<in> ?K" by (auto simp: map_of_eq_None_iff dest: map_of_SomeD)
      from route_hits_evolves [OF assms(1) ks(1) this h] show ?thesis by (simp only: fst_conv)
    qed
    have e2: "evolves ?key pk (map snd ?ns) (fst ?st) (fst st')"
    proof (cases "?ns = []")
      case True
      have st: "st' = ?st" using r no h True by (simp add: Let_def)
      show ?thesis unfolding st True using e1 evolves_refl [of ?key pk "fst ?st"] by (simp add: evolves_def)
    next
      case ns: False
      have "\<forall>r\<in>set (map snd ?ns). ?key r \<notin> fst ` set (keyed_entries (fst ?st))"
        using e1 ke hs(2) by (auto simp: evolves_def)
      from push_pending_evolves [OF _ this, of pk seq] show ?thesis using r no h ns e1 by (simp add: evolves_def)
    qed
    have "evolves ?key pk (map snd ?hs @ map snd ?ns) (fst st) (fst st')" using evolves_trans [OF e1 e2] .
    then show ?thesis unfolding hs using insert_split [of ?key ?K batch] ke by (simp add: evolves_def)
  qed
qed

lemma route_batches_evolves:
  assumes "buf_wf (key pk) pk (fst st)" "tb_keyed (fst st) \<noteq> None" "route_batches key pk_ok seq bs st = Inr st'"
  shows "evolves (key pk) pk (concat bs) (fst st) (fst st')"
  using assms
proof (induction bs arbitrary: st)
  case Nil
  then show ?case by (simp add: evolves_refl)
next
  case (Cons b bs)
  then obtain st1 where r: "route_batch key pk_ok seq b st = Inr st1" "route_batches key pk_ok seq bs st1 = Inr st'"
    by (auto simp: rbind_Inr_conv)
  note e1 = route_batch_evolves [OF Cons.prems(1,2) r(1)]
  have "buf_wf (key pk) pk (fst st1)" "tb_keyed (fst st1) \<noteq> None" using e1 Cons.prems(2) by (auto simp: evolves_def)
  from evolves_trans [OF e1 Cons.IH [OF this r(2)]] show ?case by simp
qed

lemma push_all_evolves:
  assumes "buf_wf key pk (fst st)" "keyed_entries (fst st) = []"
  shows "evolves key pk (concat bs) (fst st) (fst (fold (\<lambda>b. push_pending b seq) bs st))"
  using assms
proof (induction bs arbitrary: st)
  case Nil
  then show ?case by (simp add: evolves_refl)
next
  case (Cons b bs)
  have e1: "evolves key pk b (fst st) (fst (push_pending b seq st))"
    by (rule push_pending_evolves) (use Cons.prems in simp_all)
  have "keyed_entries (fst (push_pending b seq st)) = []" using e1 Cons.prems(2) by (simp add: evolves_def)
  from evolves_trans [OF e1 Cons.IH [OF _ this]] e1 show ?case by (simp add: evolves_def)
qed

text \<open>
  Routing fails only on the first batch that has rows, before it has touched the buffer: the
  encoder depends on the key columns alone, and routing does not change them.
\<close>

lemma route_hits_pk: "ks_pk_cols (fst (route_hits seq hs st)) = ks_pk_cols (fst st)"
  by (induction hs arbitrary: st) (auto simp: keyed_insert_def Let_def)

lemma route_batch_pk:
  assumes "route_batch key pk_ok seq b st = Inr st'"
  shows "map_option ks_pk_cols (tb_keyed (fst st')) = map_option ks_pk_cols (tb_keyed (fst st))"
proof (cases "tb_keyed (fst st)")
  case (Some ks)
  have "ks_pk_cols ks' = ks_pk_cols ks" if "route_hits seq hs (ks, rs_keyed (snd st)) = (ks', log)" for hs ks' log
    using route_hits_pk [of seq hs "(ks, rs_keyed (snd st))"] that by simp
  then show ?thesis using assms Some
    by (auto simp: route_batch_def push_pending_def rbind_Inr_conv Let_def split: if_splits prod.splits)
qed (use assms in \<open>auto simp: route_batch_def split: if_splits\<close>)

lemma route_batch_fails_iff:
  "(\<exists>e. route_batch key pk_ok seq b st = Inl e) \<longleftrightarrow>
     b \<noteq> [] \<and> (\<exists>pk. map_option ks_pk_cols (tb_keyed (fst st)) = Some pk \<and> \<not> pk_ok pk)"
  by (auto simp: route_batch_def encode_batch_keys_def Let_def split: option.splits prod.splits)

lemma route_error_is_first:
  assumes "route_batches key pk_ok seq bs st = Inl e"
  shows "\<exists>bs1 b bs2. bs = bs1 @ b # bs2 \<and> (\<forall>x\<in>set bs1. x = []) \<and> route_batch key pk_ok seq b st = Inl e"
  using assms
proof (induction bs arbitrary: st)
  case (Cons b bs)
  show ?case
  proof (cases "route_batch key pk_ok seq b st")
    case (Inl e')
    then show ?thesis using Cons.prems by (intro exI [of _ "[]"] exI [of _ b] exI [of _ bs]) simp
  next
    case (Inr st')
    then have rest: "route_batches key pk_ok seq bs st' = Inl e" using Cons.prems by simp
    from Cons.IH [OF this] obtain bs1 c bs2 where c: "bs = bs1 @ c # bs2" "\<forall>x\<in>set bs1. x = []" "route_batch key pk_ok seq c st' = Inl e" by blast
    then have "\<exists>pk. map_option ks_pk_cols (tb_keyed (fst st)) = Some pk \<and> \<not> pk_ok pk"
      using route_batch_fails_iff [of key pk_ok seq c st'] route_batch_pk [OF Inr] by auto
    then have "b = []" using route_batch_fails_iff [of key pk_ok seq b st] Inr by auto
    then have "st' = st" using Inr by (simp add: route_batch_def)
    then show ?thesis using c \<open>b = []\<close> by (intro exI [of _ "b # bs1"] exI [of _ c] exI [of _ bs2]) simp
  qed
qed simp

text \<open>Routing a whole statement inserts its rows, one after the other.\<close>

lemma route_appends_evolves:
  assumes "buf_wf (key pk) pk tb" "route_appends key pk_ok tb aligned seq = Inr (tb', routed)"
  shows "evolves (key pk) pk (concat aligned) tb tb'"
proof (cases "keyed_entries tb = []")
  case True
  then show ?thesis
    using push_all_evolves [of "key pk" pk "(tb, \<lparr>rs_batch_ids = [], rs_keyed = []\<rparr>)" aligned seq] assms
    by (simp add: route_appends_def Let_def)
next
  case False
  then have "tb_keyed tb \<noteq> None" by (auto simp: keyed_entries_def split: option.splits)
  then show ?thesis
    using route_batches_evolves [of key pk "(tb, \<lparr>rs_batch_ids = [], rs_keyed = []\<rparr>)" pk_ok seq aligned "(tb', routed)"] assms False
    by (simp add: route_appends_def Let_def)
qed

section \<open>Statements\<close>

text \<open>Staging touches neither rows nor keys.\<close>

definition same_rows :: "('r, 'k) table_buf \<Rightarrow> ('r, 'k) table_buf \<Rightarrow> bool" where
  "same_rows tb tb' \<longleftrightarrow> map pb_batch (tb_pending tb') = map pb_batch (tb_pending tb) \<and> tb_flushed tb' = tb_flushed tb \<and> tb_keyed tb' = tb_keyed tb"

lemma same_rows_buf:
  assumes "same_rows tb tb'"
  shows "keyed_entries tb' = keyed_entries tb" "newest key tb' = newest key tb" "buf_wf key pk tb' = buf_wf key pk tb"
    "in_flight key sn tb' = in_flight key sn tb" "flight_ok key sn tb' = flight_ok key sn tb"
proof -
  have k: "keyed_entries tb' = keyed_entries tb" using assms by (simp add: same_rows_def keyed_entries_def)
  then show "keyed_entries tb' = keyed_entries tb" "newest key tb' = newest key tb" "buf_wf key pk tb' = buf_wf key pk tb"
    "in_flight key sn tb' = in_flight key sn tb" "flight_ok key sn tb' = flight_ok key sn tb"
    using assms by (auto simp: same_rows_def newest_eq buf_wf_def in_flight_def flight_ok_def)
qed

lemma stage_seq_rows: "stage_seq staged tb = Inr (s, tb') \<Longrightarrow> same_rows tb tb'"
  by (auto simp: stage_seq_def same_rows_def split: option.splits sum.splits)

lemma evolves_same_rows: "same_rows tb tb1 \<Longrightarrow> evolves key pk rows tb1 tb2 \<Longrightarrow> tb_tail_high tb = tb_tail_high tb1 \<Longrightarrow> evolves key pk rows tb tb2"
  using same_rows_buf [of tb tb1] by (auto simp: evolves_def same_rows_def)

text \<open>An insert that is staged: its rows, one after the other, and the staged number as the tail mark.\<close>

lemma append_evolves:
  assumes "buf_wf (key pk) pk tb" "buf_append key pk_ok tb aligned (Some (Inr n)) None = (Inr x, tb')" "aligned \<noteq> []"
  shows "evolves (key pk) pk (concat aligned) tb (tb'\<lparr>tb_tail_high := tb_tail_high tb\<rparr>) \<and> tb_tail_high tb' = Some n"
proof -
  let ?tb = "tb\<lparr>tb_tail_high := Some n, tb_undurable := List.insert n (tb_undurable tb)\<rparr>"
  obtain routed where r: "route_appends key pk_ok ?tb aligned (Some n) = Inr (tb', routed)"
    using assms(2,3) by (auto simp: buf_append_def stage_seq_def Let_def split: sum.splits prod.splits)
  have s: "same_rows tb ?tb" by (simp add: same_rows_def)
  have e: "evolves (key pk) pk (concat aligned) ?tb tb'"
    by (rule route_appends_evolves [OF _ r]) (use same_rows_buf(3) [OF s] assms(1) in simp)
  have "same_rows tb' (tb'\<lparr>tb_tail_high := tb_tail_high tb\<rparr>)" by (simp add: same_rows_def)
  note t = same_rows_buf [OF this] and b = same_rows_buf [OF s]
  show ?thesis using e t b by (simp add: evolves_def)
qed

end
