(* ===== verification/BufferSpec.thy ===== *)
theory BufferSpec
  imports BufferRoute
begin

text \<open>
  What a client sees of the write buffer.  \<open>scan_rows\<close> is the answer of a scan: the committed rows under
  the overlay of the buffer.  Every statement that the buffer takes changes the answer of every scan
  in the same way, at once; a flush that moves its snapshot to a generation changes no answer, neither
  for scans whose metadata does not contain the commit yet nor for those whose metadata does.
\<close>

section \<open>Scans\<close>

definition scan_rows ::
  "(string list \<Rightarrow> 'r \<Rightarrow> 'k) \<Rightarrow> (string list \<Rightarrow> bool) \<Rightarrow> (gen_commit \<Rightarrow> bool) \<Rightarrow> ('r, 'k) table_buf \<Rightarrow> 'r list \<Rightarrow> 'r multiset result" where
  "scan_rows key pk_ok seen tb committed =
     rbind (fst (overlay_with key pk_ok seen tb)) (\<lambda>ov. Inr (mset (union_read key committed ov)))"

text \<open>The committed rows with the generations on top that the scan's metadata does not contain.\<close>

definition gens_applied :: "('r \<Rightarrow> 'k) \<Rightarrow> (gen_commit \<Rightarrow> bool) \<Rightarrow> ('r, 'k) table_buf \<Rightarrow> 'r list \<Rightarrow> 'r list" where
  "gens_applied key seen tb committed =
     fold (layer_apply key) (map gen_layer (filter (\<lambda>g. \<not> seen (fg_commit g)) (tb_flushed tb))) committed"

definition buffer_ok :: "('r \<Rightarrow> 'k) \<Rightarrow> string list \<Rightarrow> ('r, 'k) table_buf \<Rightarrow> bool" where
  "buffer_ok key pk tb \<longleftrightarrow> buf_wf key pk tb \<and> ((\<exists>g\<in>set (tb_flushed tb). fg_keyed g \<noteq> []) \<longrightarrow> tb_keyed tb \<noteq> None)"

lemma newest_mset: "mset xs = mset ys \<Longrightarrow> newest key tb xs = newest key tb ys"
  by (simp add: newest_eq)

lemma unkeyed_layers:
  "\<forall>l\<in>set ls. ly_keys l = [] \<Longrightarrow> fold (layer_apply key) ls rows = fold (layer_apply key') ls rows"
  by (induction ls arbitrary: rows) (simp_all add: layer_apply_def)

lemma overlay_eq:
  assumes "buffer_ok (key pk) pk tb" "pk_ok pk"
  shows "\<exists>ov. fst (overlay_with key pk_ok seen tb) = Inr ov \<and>
    union_read key committed ov = fold (layer_apply (key pk)) (overlay_layers seen tb) committed"
proof -
  let ?ls = "overlay_layers seen tb"
  have k: "tb_keyed tb \<noteq> None \<Longrightarrow> pk_of tb = pk" using assms(1) by (auto simp: buffer_ok_def buf_wf_def pk_of_def)
  have n: "tb_keyed tb = None \<Longrightarrow> \<forall>l\<in>set ?ls. ly_keys l = []"
    using assms(1) by (auto simp: buffer_ok_def overlay_layers_def gen_layer_def pending_layer_def keyed_entries_def)
  have "fold (layer_apply (key (pk_of tb))) ?ls committed = fold (layer_apply (key pk)) ?ls committed"
    using k unkeyed_layers [OF n] by (cases "tb_keyed tb") auto
  then show ?thesis
    using overlay_commits_layers [of seen tb pk_ok key committed] k n assms(2) by (cases "tb_keyed tb") auto
qed

lemma scan_eq:
  assumes "buffer_ok (key pk) pk tb" "pk_ok pk"
  shows "scan_rows key pk_ok seen tb committed = Inr (newest (key pk) tb (gens_applied (key pk) seen tb committed))"
  using overlay_eq [of key pk tb pk_ok seen committed] assms
  by (auto simp: scan_rows_def rbind_def newest_def gens_applied_def overlay_layers_def)

section \<open>Statements\<close>

datatype ('r, 'k) buf_statement =
    Insert "'r list list" "(nat result) option" "nat option"
  | Write 'k "('r, 'k) keyed_op" "(nat result) option"

fun buf_execute ::
  "(string list \<Rightarrow> 'r \<Rightarrow> 'k) \<Rightarrow> (string list \<Rightarrow> bool) \<Rightarrow> string list \<Rightarrow> ('r, 'k) table_buf \<Rightarrow> ('r, 'k) buf_statement \<Rightarrow>
   (('r, 'k) routed_stmt \<times> nat option) result \<times> ('r, 'k) table_buf" where
  "buf_execute key pk_ok pk tb (Insert aligned staged replay_seq) = buf_append key pk_ok tb aligned staged replay_seq"
| "buf_execute key pk_ok pk tb (Write k op staged) = keyed_write tb pk k op staged"

fun stmt_ok :: "('r \<Rightarrow> 'k) \<Rightarrow> ('r, 'k) buf_statement \<Rightarrow> bool" where
  "stmt_ok key (Insert aligned staged replay_seq) \<longleftrightarrow> True"
| "stmt_ok key (Write k op staged) \<longleftrightarrow> op_keyed key k op"

text \<open>An insert replaces the rows of a key that has a buffered entry and adds the others; a keyed statement replaces.\<close>

fun stmt_effect :: "('r \<Rightarrow> 'k) \<Rightarrow> 'k set \<Rightarrow> ('r, 'k) buf_statement \<Rightarrow> 'r multiset \<Rightarrow> 'r multiset" where
  "stmt_effect key K (Insert aligned staged replay_seq) A = fold (insert_effect key K) (concat aligned) A"
| "stmt_effect key K (Write k op staged) A = put_key key k (mset (up op)) A"

definition buffered_keys :: "('r, 'k) table_buf \<Rightarrow> 'k set" where
  "buffered_keys tb = fst ` set (keyed_entries tb)"

definition advances ::
  "('r \<Rightarrow> 'k) \<Rightarrow> string list \<Rightarrow> ('r multiset \<Rightarrow> 'r multiset) \<Rightarrow> ('r, 'k) table_buf \<Rightarrow> ('r, 'k) table_buf \<Rightarrow> bool" where
  "advances key pk f tb tb' \<longleftrightarrow>
     buf_wf key pk tb' \<and> tb_flushed tb' = tb_flushed tb \<and> (tb_keyed tb \<noteq> None \<longrightarrow> tb_keyed tb' \<noteq> None) \<and>
     (\<forall>X. newest key tb' X = f (newest key tb X)) \<and> (\<forall>sn. in_flight key sn tb \<longrightarrow> in_flight key sn tb')"

lemma same_rows_advances: "buf_wf key pk tb \<Longrightarrow> same_rows tb tb' \<Longrightarrow> advances key pk id tb tb'"
  using same_rows_buf [of tb tb'] by (auto simp: advances_def same_rows_def)

lemma advances_trans: "advances key pk f a b \<Longrightarrow> advances key pk g b c \<Longrightarrow> advances key pk (g \<circ> f) a c"
  by (auto simp: advances_def)

lemma evolves_advances: "evolves key pk rows tb tb' \<Longrightarrow> advances key pk (fold (insert_effect key (buffered_keys tb)) rows) tb tb'"
  by (auto simp: evolves_def advances_def buffered_keys_def)

lemma append_advances:
  assumes "buf_wf (key pk) pk tb" "buf_append key pk_ok tb aligned staged replay_seq = (r, tb')"
  shows "advances (key pk) pk (case r of Inl e \<Rightarrow> id | Inr x \<Rightarrow> fold (insert_effect (key pk) (buffered_keys tb)) (concat aligned)) tb tb'"
proof (cases "stage_seq (if aligned = [] then None else staged) tb")
  case (Inl e)
  then show ?thesis using assms same_rows_advances [OF assms(1), of tb] by (auto simp: buf_append_def same_rows_def)
next
  case (Inr x)
  obtain s tb1 where x: "x = (s, tb1)" by (cases x)
  have s: "same_rows tb tb1" using stage_seq_rows Inr x by blast
  note a1 = same_rows_advances [OF assms(1) s]
  let ?seq = "case s of None \<Rightarrow> replay_seq | Some n \<Rightarrow> Some n"
  show ?thesis
  proof (cases "route_appends key pk_ok tb1 aligned ?seq")
    case (Inl e)
    then show ?thesis using assms(2) Inr x a1 by (auto simp: buf_append_def)
  next
    case (Inr y)
    obtain tb2 routed where y: "y = (tb2, routed)" by (cases y)
    have "tb' = tb2" "\<exists>z. r = Inr z" using assms(2) \<open>stage_seq _ tb = Inr x\<close> x Inr y by (auto simp: buf_append_def)
    moreover have "buf_wf (key pk) pk tb1" using a1 by (simp add: advances_def)
    then have "evolves (key pk) pk (concat aligned) tb1 tb2" using route_appends_evolves Inr y by blast
    ultimately show ?thesis using advances_trans [OF a1 evolves_advances] same_rows_buf(1) [OF s] by (auto simp: buffered_keys_def)
  qed
qed

lemma fresh_keyed_advances:
  assumes "buf_wf key pk tb" "tb_keyed tb = None" "ks_pk_cols ks = pk" "ks_entries ks = []"
  shows "advances key pk id tb (tb\<lparr>tb_keyed := Some ks\<rparr>)"
proof -
  let ?tb = "tb\<lparr>tb_keyed := Some ks\<rparr>"
  have e: "keyed_entries tb = []" "keyed_entries ?tb = []" using assms by (simp_all add: keyed_entries_def)
  have n: "sn_keyed sn = []" if "in_flight key sn tb" for sn using that assms(2) by (cases "sn_keyed sn") (auto simp: in_flight_def)
  have "in_flight key sn ?tb" if f: "in_flight key sn tb" for sn
    using n [OF f] f by (simp add: in_flight_def flight_ok_def)
  then show ?thesis using assms(1,3,4) e by (auto simp: advances_def buf_wf_def newest_eq)
qed

lemma keyed_insert_advances:
  assumes "buf_wf key pk tb" "tb_keyed tb = Some ks" "op_keyed key k op" "keyed_insert k op (ks, log) = (ks', log')"
  shows "advances key pk (put_key key k (mset (up op))) tb (tb\<lparr>tb_keyed := Some ks'\<rparr>)"
proof -
  let ?e = "\<lparr>ke_stamp = ks_next_stamp ks, ke_op = op\<rparr>" and ?tb = "tb\<lparr>tb_keyed := Some ks'\<rparr>"
  have k: "ks_entries ks' = AList.update k ?e (ks_entries ks)" "ks_next_stamp ks' = ks_next_stamp ks + 1" "ks_pk_cols ks' = ks_pk_cols ks"
    using assms(4) by (auto simp: keyed_insert_def Let_def)
  have ke: "keyed_entries tb = ks_entries ks" "keyed_entries ?tb = ks_entries ks'" using assms(2) by (simp_all add: keyed_entries_def)
  have "newest key ?tb X = put_key key k (mset (up op)) (newest key tb X)" for X
    using newest_update [of key tb k ?e ?tb X] assms(1,3) k(1) ke by (simp add: buf_wf_def)
  moreover have "buf_wf key pk ?tb" by (rule buf_wf_update [OF assms(1,2), of k ?e _ ks']) (use assms(3) k in simp_all)
  moreover have "in_flight key sn ?tb" if "in_flight key sn tb" for sn
    by (rule in_flight_update [OF that assms(2), of _ ks' k ?e]) (use k in simp_all)
  ultimately show ?thesis by (simp add: advances_def)
qed

lemma write_advances:
  assumes "buf_wf (key pk) pk tb" "op_keyed (key pk) k op" "keyed_write tb pk k op staged = (r, tb')"
  shows "advances (key pk) pk (case r of Inl e \<Rightarrow> id | Inr x \<Rightarrow> put_key (key pk) k (mset (up op))) tb tb'"
proof -
  define ks where "ks = (case tb_keyed tb of
      None \<Rightarrow> \<lparr>ks_pk_cols = pk, ks_entries = [], ks_next_stamp = 1, ks_claimed_below = 1\<rparr> | Some ks \<Rightarrow> ks)"
  let ?tb = "tb\<lparr>tb_keyed := Some ks\<rparr>"
  have pk: "ks_pk_cols ks = pk" "ks\<lparr>ks_pk_cols := pk\<rparr> = ks"
    using assms(1) by (auto simp: ks_def buf_wf_def split: option.splits)
  have a1: "advances (key pk) pk id tb ?tb"
  proof (cases "tb_keyed tb")
    case None
    then show ?thesis using fresh_keyed_advances [OF assms(1) None] by (simp add: ks_def)
  next
    case (Some k0)
    then show ?thesis using same_rows_advances [OF assms(1), of ?tb] by (simp add: ks_def same_rows_def)
  qed
  have w: "keyed_write tb pk k op staged =
      (case stage_seq staged ?tb of
         Inl e \<Rightarrow> (Inl e, ?tb)
       | Inr (s, tb3) \<Rightarrow>
           (let op1 = (case s of None \<Rightarrow> op | Some n \<Rightarrow> op\<lparr>ko_seq := Some n\<rparr>); (ks2, log) = keyed_insert k op1 (ks, [])
            in (Inr (\<lparr>rs_batch_ids = [], rs_keyed = log\<rparr>, ko_seq op1), tb3\<lparr>tb_keyed := Some ks2\<rparr>)))"
    unfolding keyed_write_def ks_def [symmetric] Let_def pk(2) by (simp add: pk(1) Let_def split: sum.splits)
  show ?thesis
  proof (cases "stage_seq staged ?tb")
    case (Inl e)
    then show ?thesis using w assms(3) a1 by auto
  next
    case (Inr x)
    obtain s tb3 where x: "x = (s, tb3)" by (cases x)
    define op1 where "op1 = (case s of None \<Rightarrow> op | Some n \<Rightarrow> op\<lparr>ko_seq := Some n\<rparr>)"
    obtain ks2 log where i: "keyed_insert k op1 (ks, []) = (ks2, log)" by (cases "keyed_insert k op1 (ks, [])")
    have s: "same_rows ?tb tb3" using stage_seq_rows Inr x by blast
    have "buf_wf (key pk) pk ?tb" using a1 by (simp add: advances_def)
    then have a2: "advances (key pk) pk id ?tb tb3" using s by (rule same_rows_advances)
    have o1: "op_keyed (key pk) k op1" "up op1 = up op" using assms(2) by (simp_all add: op1_def op_keyed_def up_def split: option.splits)
    have a3: "advances (key pk) pk (put_key (key pk) k (mset (up op))) tb3 (tb3\<lparr>tb_keyed := Some ks2\<rparr>)"
      using keyed_insert_advances [OF _ _ o1(1) i, of pk tb3] a2 s o1(2) by (simp add: advances_def same_rows_def)
    have "tb' = tb3\<lparr>tb_keyed := Some ks2\<rparr>" "\<exists>z. r = Inr z"
      using w assms(3) Inr x i by (auto simp: op1_def [symmetric] Let_def)
    then show ?thesis using advances_trans [OF advances_trans [OF a1 a2] a3] by auto
  qed
qed

lemma execute_advances:
  assumes "buf_wf (key pk) pk tb" "stmt_ok (key pk) st" "buf_execute key pk_ok pk tb st = (r, tb')"
  shows "advances (key pk) pk (case r of Inl e \<Rightarrow> id | Inr x \<Rightarrow> stmt_effect (key pk) (buffered_keys tb) st) tb tb'"
proof (cases st)
  case (Insert aligned staged replay_seq)
  have e: "stmt_effect (key pk) (buffered_keys tb) (Insert aligned staged replay_seq) = fold (insert_effect (key pk) (buffered_keys tb)) (concat aligned)"
    by (rule ext) simp
  show ?thesis unfolding Insert e using append_advances [of key pk tb pk_ok aligned staged replay_seq r tb'] assms Insert by simp
next
  case (Write k op staged)
  have e: "stmt_effect (key pk) (buffered_keys tb) (Write k op staged) = put_key (key pk) k (mset (up op))" by (rule ext) simp
  show ?thesis unfolding Write e using write_advances [of key pk tb k op staged r tb'] assms Write by simp
qed

lemma advances_scan:
  assumes "buffer_ok (key pk) pk tb" "pk_ok pk" "advances (key pk) pk f tb tb'"
  shows "buffer_ok (key pk) pk tb' \<and>
    scan_rows key pk_ok seen tb' committed = rbind (scan_rows key pk_ok seen tb committed) (\<lambda>A. Inr (f A))"
proof -
  have b: "buffer_ok (key pk) pk tb'" using assms(1,3) by (auto simp: buffer_ok_def advances_def)
  have "gens_applied (key pk) seen tb' committed = gens_applied (key pk) seen tb committed"
    using assms(3) by (simp add: gens_applied_def advances_def)
  then show ?thesis
    using assms(3) b scan_eq [of key pk tb pk_ok seen committed] scan_eq [of key pk tb' pk_ok seen committed] assms(1,2)
    by (simp add: rbind_def advances_def)
qed

lemma executed_scan:
  assumes "buffer_ok (key pk) pk tb" "pk_ok pk" "stmt_ok (key pk) st" "buf_execute key pk_ok pk tb st = (r, tb')"
  shows "buffer_ok (key pk) pk tb' \<and>
    scan_rows key pk_ok seen tb' committed =
      rbind (scan_rows key pk_ok seen tb committed)
        (\<lambda>A. Inr (case r of Inl e \<Rightarrow> A | Inr x \<Rightarrow> stmt_effect (key pk) (buffered_keys tb) st A))"
proof -
  have "buf_wf (key pk) pk tb" using assms(1) by (simp add: buffer_ok_def)
  note a = execute_advances [of key pk tb st pk_ok r tb', OF this assms(3,4)]
  show ?thesis
    using advances_scan [of key pk tb pk_ok "case r of Inl e \<Rightarrow> id | Inr x \<Rightarrow> stmt_effect (key pk) (buffered_keys tb) st" tb' seen committed, OF assms(1,2) a]
    by (cases r) simp_all
qed

section \<open>Flushes\<close>

definition execute_all ::
  "(string list \<Rightarrow> 'r \<Rightarrow> 'k) \<Rightarrow> (string list \<Rightarrow> bool) \<Rightarrow> string list \<Rightarrow> ('r, 'k) buf_statement list \<Rightarrow> ('r, 'k) table_buf \<Rightarrow> ('r, 'k) table_buf" where
  "execute_all key pk_ok pk = fold (\<lambda>st tb. snd (buf_execute key pk_ok pk tb st))"

definition snap_layer :: "('r, 'k) pending_snapshot \<Rightarrow> ('r, 'k) layer" where
  "snap_layer sn =
     \<lparr>ly_appends = sn_batches sn, ly_upserts = upsert_rows (map (\<lambda>x. snd (snd x)) (sn_keyed sn)), ly_keys = map fst (sn_keyed sn)\<rparr>"

lemma snapshot_in_flight:
  assumes "buffer_ok key pk tb" "snapshot_pending tb = (sn, tb')"
  shows "buffer_ok key pk tb' \<and> in_flight key sn tb'"
proof -
  have w: "entries_wf key (keyed_entries tb)" "buf_wf key pk tb" using assms(1) by (auto simp: buffer_ok_def buf_wf_def)
  have sn: "sn_batches sn = map pb_batch (tb_pending tb)" "sn_keyed sn = snap_keyed (keyed_entries tb)"
    and tb': "map pb_batch (tb_pending tb') = map pb_batch (tb_pending tb)" "keyed_entries tb' = keyed_entries tb"
      "tb_flushed tb' = tb_flushed tb" "tb_keyed tb' = map_option (\<lambda>ks. ks\<lparr>ks_claimed_below := ks_next_stamp ks\<rparr>) (tb_keyed tb)"
    using assms(2) by (auto simp: snapshot_pending_def keyed_entries_def comp_def split: option.splits)
  have m: "set (sn_keyed sn) = (\<lambda>(k, e). (k, ke_stamp e, ke_op e)) ` set (keyed_entries tb)" by (simp add: sn(2) snap_keyed_def)
  have "mset (sn_keyed sn) = mset (map (\<lambda>(k, e). (k, ke_stamp e, ke_op e)) (keyed_entries tb))" by (simp add: sn(2) snap_keyed_def)
  then have "mset (map fst (sn_keyed sn)) = mset (map fst (map (\<lambda>(k, e). (k, ke_stamp e, ke_op e)) (keyed_entries tb)))" by (simp only: mset_map)
  then have "mset (map fst (sn_keyed sn)) = mset (map fst (keyed_entries tb))" by (simp add: comp_def case_prod_unfold)
  then have d: "distinct (map fst (sn_keyed sn))" using w(1) by (metis entries_wf_def mset_eq_imp_distinct_iff)
  have "snap_wf key (sn_keyed sn)" using w(1) d m by (auto simp: snap_wf_def entries_wf_def)
  moreover have "map_of (keyed_entries tb) k = Some e" if "(k, e) \<in> set (keyed_entries tb)" for k e
    using that w(1) by (simp add: entries_wf_def)
  ultimately have "flight_ok key sn tb'" using m tb' sn(1) by (auto simp: flight_ok_def)
  moreover have "\<exists>ks. tb_keyed tb = Some ks \<and> ke_stamp e < ks_next_stamp ks" if "(k, e) \<in> set (keyed_entries tb)" for k e
    using that w(2) by (cases "tb_keyed tb") (auto simp: keyed_entries_def buf_wf_def)
  ultimately have "in_flight key sn tb'" using m tb'(4) by (fastforce simp: in_flight_def)
  moreover have "buffer_ok key pk tb'" using assms(1) tb' by (auto simp: buffer_ok_def buf_wf_def)
  ultimately show ?thesis by blast
qed

lemma executed_in_flight:
  "buffer_ok (key pk) pk tb \<Longrightarrow> in_flight (key pk) sn tb \<Longrightarrow> \<forall>st\<in>set sts. stmt_ok (key pk) st \<Longrightarrow>
     buffer_ok (key pk) pk (execute_all key pk_ok pk sts tb) \<and> in_flight (key pk) sn (execute_all key pk_ok pk sts tb)"
proof (induction sts arbitrary: tb)
  case Nil
  then show ?case by (simp add: execute_all_def)
next
  case (Cons st sts)
  obtain r tb' where e: "buf_execute key pk_ok pk tb st = (r, tb')" by (cases "buf_execute key pk_ok pk tb st")
  have "buf_wf (key pk) pk tb" using Cons.prems(1) by (simp add: buffer_ok_def)
  then have "advances (key pk) pk (case r of Inl e \<Rightarrow> id | Inr x \<Rightarrow> stmt_effect (key pk) (buffered_keys tb) st) tb tb'"
    using execute_advances e Cons.prems(3) by fastforce
  then have "buffer_ok (key pk) pk tb'" "in_flight (key pk) sn tb'" using Cons.prems by (auto simp: advances_def buffer_ok_def)
  from Cons.IH [OF this] Cons.prems(3) show ?case using e by (simp add: execute_all_def)
qed

lemma handed_over:
  assumes "buffer_ok key pk tb" "in_flight key sn tb"
    and "tb' = move_pending_to_flushed_gen now (length (sn_batches sn)) (sn_keyed sn) c tb"
  shows "\<exists>g. tb_flushed tb' = tb_flushed tb @ [g] \<and> fg_commit g = c \<and> gen_layer g = snap_layer sn \<and> buffer_ok key pk tb' \<and>
    (\<forall>rows. newest key tb' (layer_apply key (snap_layer sn) rows) = newest key tb rows)"
proof -
  have w: "entries_wf key (keyed_entries tb)" and f: "flight_ok key sn tb" using assms(1,2) by (auto simp: buffer_ok_def buf_wf_def in_flight_def)
  let ?n = "length (sn_batches sn)"
  let ?g = "\<lparr>fg_commit = c, fg_batches = map (\<lambda>pb. (pb_seq pb, pb_batch pb)) (take ?n (tb_pending tb)), fg_keyed = sn_keyed sn, fg_committed_at = now, fg_observed = False\<rparr>"
  have fg: "tb_flushed tb' = tb_flushed tb @ [?g]"
    by (simp add: assms(3) move_pending_to_flushed_gen_def drop_pending_prefix_def drain_keyed_snapshot_def Let_def)
  have "map pb_batch (take ?n (tb_pending tb)) = sn_batches sn" using f by (auto simp: flight_ok_def take_map [symmetric])
  then have l: "gen_layer ?g = snap_layer sn" by (simp add: gen_layer_def snap_layer_def comp_def)
  have m: "newest key tb rows = newest key tb' (layer_apply key (snap_layer sn) rows)" "entries_wf key (keyed_entries tb')" for rows
    using move_to_flushed_layers [OF w f assms(3), of rows] fg l by (auto simp: newest_def)
  have k: "tb_keyed tb' = map_option (\<lambda>ks. ks\<lparr>ks_entries := fold drain_entry (sn_keyed sn) (ks_entries ks)\<rparr>) (tb_keyed tb)"
    by (simp add: assms(3) move_pending_to_flushed_gen_def drop_pending_prefix_def drain_keyed_snapshot_def Let_def)
  have "set (fold drain_entry (sn_keyed sn) (ks_entries ks)) \<subseteq> set (ks_entries ks)" if "tb_keyed tb = Some ks" for ks
    using drain_fold [of "ks_entries ks" "sn_keyed sn"] w that by (auto simp: keyed_entries_def entries_wf_def)
  then have "buf_wf key pk tb'" using assms(1) m(2) k by (fastforce simp: buffer_ok_def buf_wf_def)
  moreover have "sn_keyed sn \<noteq> [] \<Longrightarrow> tb_keyed tb \<noteq> None" using assms(2) by (cases "sn_keyed sn") (auto simp: in_flight_def)
  ultimately have "buffer_ok key pk tb'" using assms(1) fg k by (auto simp: buffer_ok_def)
  then show ?thesis using fg l m(1) by (intro exI [of _ ?g]) simp
qed

lemma handover_scan:
  assumes "buffer_ok (key pk) pk tb" "pk_ok pk" "in_flight (key pk) sn tb"
    and "tb' = move_pending_to_flushed_gen now (length (sn_batches sn)) (sn_keyed sn) c tb"
  shows "\<not> seen c \<Longrightarrow> scan_rows key pk_ok seen tb' committed = scan_rows key pk_ok seen tb committed"
    and "\<forall>g\<in>set (tb_flushed tb'). seen' (fg_commit g) \<Longrightarrow>
      mset committed' = mset (layer_apply (key pk) (snap_layer sn) (gens_applied (key pk) seen tb committed)) \<Longrightarrow>
      scan_rows key pk_ok seen' tb' committed' = scan_rows key pk_ok seen tb committed"
proof -
  obtain g where g: "tb_flushed tb' = tb_flushed tb @ [g]" "fg_commit g = c" "gen_layer g = snap_layer sn" "buffer_ok (key pk) pk tb'"
    "\<And>rows. newest (key pk) tb' (layer_apply (key pk) (snap_layer sn) rows) = newest (key pk) tb rows"
    using handed_over [OF assms(1,3,4)] by blast
  have e: "scan_rows key pk_ok s tb rows = Inr (newest (key pk) tb (gens_applied (key pk) s tb rows))"
    "scan_rows key pk_ok s tb' rows = Inr (newest (key pk) tb' (gens_applied (key pk) s tb' rows))" for s rows
    using scan_eq [of key pk tb pk_ok s rows] scan_eq [of key pk tb' pk_ok s rows] assms(1,2) g(4) by simp_all
  show "\<not> seen c \<Longrightarrow> scan_rows key pk_ok seen tb' committed = scan_rows key pk_ok seen tb committed"
    using g by (simp add: e gens_applied_def)
  assume s: "\<forall>g\<in>set (tb_flushed tb'). seen' (fg_commit g)"
    and c: "mset committed' = mset (layer_apply (key pk) (snap_layer sn) (gens_applied (key pk) seen tb committed))"
  have "gens_applied (key pk) seen' tb' committed' = committed'" using s by (simp add: gens_applied_def filter_False)
  then show "scan_rows key pk_ok seen' tb' committed' = scan_rows key pk_ok seen tb committed"
    using newest_mset [OF c, of "key pk" tb'] g(5) by (simp add: e)
qed

text \<open>The whole flush: a snapshot, any statements, and the move.\<close>

lemma flushed_scan:
  assumes "buffer_ok (key pk) pk tb" "pk_ok pk" "snapshot_pending tb = (sn, tb1)" "\<forall>st\<in>set sts. stmt_ok (key pk) st"
    and "tb2 = execute_all key pk_ok pk sts tb1"
    and "tb3 = move_pending_to_flushed_gen now (length (sn_batches sn)) (sn_keyed sn) c tb2"
  shows "(\<not> seen c \<longrightarrow> scan_rows key pk_ok seen tb3 committed = scan_rows key pk_ok seen tb2 committed) \<and>
    ((\<forall>g\<in>set (tb_flushed tb3). seen' (fg_commit g)) \<longrightarrow>
      mset committed' = mset (layer_apply (key pk) (snap_layer sn) (gens_applied (key pk) seen tb2 committed)) \<longrightarrow>
      scan_rows key pk_ok seen' tb3 committed' = scan_rows key pk_ok seen tb2 committed)"
proof -
  have "buffer_ok (key pk) pk tb1 \<and> in_flight (key pk) sn tb1" by (rule snapshot_in_flight [OF assms(1,3)])
  then have f: "buffer_ok (key pk) pk tb2" "in_flight (key pk) sn tb2"
    using executed_in_flight [of key pk tb1 sn sts pk_ok] assms(4,5) by auto
  show ?thesis
    using handover_scan [of key pk tb2 pk_ok sn tb3 now c, OF f(1) assms(2) f(2) assms(6)] by blast
qed

end
