(* ===== verification/BufferInputs.thy ===== *)
theory BufferInputs
  imports BufferSpec
begin

text \<open>
  The concrete buffer of the instances: rows are numbers whose key is the last digit.  One plain row is
  pending and one key has a buffered upsert.
\<close>

definition digit_key :: "string list \<Rightarrow> nat \<Rightarrow> nat" where
  "digit_key pk r = r mod 10"

definition busy_buf :: "(nat, nat) table_buf" where
  "busy_buf =
     \<lparr>tb_pending = [\<lparr>pb_id = 1, pb_claimed = False, pb_seq = Some 2, pb_batch = [4]\<rparr>], tb_pending_rows = 1, tb_next_batch_id = 2,
      tb_keyed = Some \<lparr>ks_pk_cols = [''id''], ks_entries = [(3, \<lparr>ke_stamp = 1, ke_op = \<lparr>ko_key_row = 3, ko_kind = Upsert 13, ko_seq = Some 1\<rparr>\<rparr>)],
        ks_next_stamp = 2, ks_claimed_below = 1\<rparr>,
      tb_flushed = [], tb_tail_high = Some 2, tb_undurable = []\<rparr>"

definition later_insert :: "(nat, nat) buf_statement" where
  "later_insert = Insert [[23, 6]] (Some (Inr 3)) None"

definition inserted_buf :: "(nat, nat) table_buf" where
  "inserted_buf = snd (buf_execute digit_key (\<lambda>_. True) [''id''] busy_buf later_insert)"

lemma busy_ok: "buffer_ok (digit_key [''id'']) [''id''] busy_buf"
  by (simp add: buffer_ok_def buf_wf_def entries_wf_def keyed_entries_def op_keyed_def busy_buf_def digit_key_def)

lemma later_ok: "stmt_ok key later_insert"
  by (simp add: later_insert_def)

lemma inserted_ok: "\<exists>x. buf_execute digit_key (\<lambda>_. True) [''id''] busy_buf later_insert = (Inr x, inserted_buf)"
  by (simp add: inserted_buf_def later_insert_def busy_buf_def buf_append_def stage_seq_def route_appends_def keyed_entries_def route_batch_def
      encode_batch_keys_def digit_key_def rbind_def Let_def keyed_insert_def push_pending_def)

lemma busy_scan: "scan_rows digit_key (\<lambda>_. True) (\<lambda>_. False) busy_buf [3, 5] = Inr {#5, 4, 13#}"
  using busy_ok
  by (subst scan_eq [of digit_key "[''id'']"]) (simp_all add: gens_applied_def busy_buf_def newest_def layer_apply_def pending_layer_def
      keyed_entries_def upsert_rows_def digit_key_def)

lemma busy_effect: "stmt_effect (digit_key [''id'']) (buffered_keys busy_buf) later_insert {#5, 4, 13#} = {#4, 5, 6, 23#}"
  by (simp add: later_insert_def busy_buf_def buffered_keys_def keyed_entries_def insert_effect_def put_key_def digit_key_def add_mset_commute)

lemma busy_layers: "fold (layer_apply (digit_key [''id''])) (overlay_layers (\<lambda>_. False) busy_buf) [3, 5] = [5, 4, 13]"
  by (simp add: overlay_layers_def busy_buf_def layer_apply_def pending_layer_def keyed_entries_def upsert_rows_def digit_key_def)

definition busy_snapshot :: "(nat, nat) pending_snapshot" where
  "busy_snapshot = fst (snapshot_pending busy_buf)"

definition claimed_buf :: "(nat, nat) table_buf" where
  "claimed_buf = snd (snapshot_pending busy_buf)"

lemma busy_snap: "snapshot_pending busy_buf = (busy_snapshot, claimed_buf)"
  by (simp add: busy_snapshot_def claimed_buf_def)

lemma busy_layer: "layer_apply (digit_key [''id'']) (snap_layer busy_snapshot) [3, 5] = [5, 4, 13]"
  by (simp add: layer_apply_def snap_layer_def busy_snapshot_def snapshot_pending_def busy_buf_def snap_keyed_def keyed_entries_def
      upsert_rows_def digit_key_def)

lemma claimed_gens: "gens_applied key seen (execute_all digit_key (\<lambda>_. True) [''id''] [later_insert] claimed_buf) rows = rows"
  by (simp add: gens_applied_def execute_all_def later_insert_def claimed_buf_def snapshot_pending_def busy_buf_def buf_append_def stage_seq_def
      route_appends_def keyed_entries_def route_batch_def encode_batch_keys_def digit_key_def rbind_def Let_def keyed_insert_def push_pending_def)

end
