(* ===== verification/Overwrite.thy ===== *)
theory Overwrite
  imports RustStrings
begin

text \<open>
  Copy-on-write commits (\<^verbatim>\<open>icegres/src/overwrite.rs\<close>): one snapshot that applies a list of operations to
  the head of a branch.  \<open>prepare_commit\<close> reads every live data file of the head when a statement or a
  primary key needs it, keeps, removes or rewrites it, folds buffered appends through the later
  statements, and produces the new manifests with the requirement that the branch has not moved.

  A set of record batches is the list of its rows and a data file is its rows with its size.  What
  the crates \<open>datafusion\<close>, \<open>parquet\<close> and \<open>iceberg\<close> do is the parameter \<open>engine\<close>: the evaluation of a SQL
  text on an in-memory table, casts, reading and writing files.
\<close>

section \<open>Tables\<close>

record 'r data_file =
  df_path :: string
  df_rows :: "'r list"
  df_size :: nat

definition df_record_count :: "'r data_file \<Rightarrow> nat" where
  "df_record_count f = length (df_rows f)"

record 'r manifest_entry =
  me_alive :: bool
  me_snapshot :: "int option"
  me_seq :: "nat option"
  me_file_seq :: "nat option"
  me_file :: "'r data_file"

record 'r manifest_file =
  mf_path :: string
  mf_data :: bool
  mf_seq :: nat
  mf_added_snapshot :: int
  mf_entries :: "'r manifest_entry list"

datatype operation = OpAppendOnly | OpDeleteOnly | OpOverwrite

record summary =
  su_operation :: operation
  su_added_files :: nat
  su_added_records :: nat
  su_added_size :: nat
  su_deleted_files :: nat
  su_deleted_records :: nat
  su_removed_size :: nat
  su_totals :: "(nat \<times> nat \<times> nat) option"

record 'r lake_snapshot =
  sp_id :: int
  sp_parent :: "int option"
  sp_seq :: nat
  sp_timestamp :: int
  sp_manifests :: "'r manifest_file list"
  sp_summary :: summary

text \<open>A table identifier is its namespace path and its name.\<close>

type_synonym lake_ident = "string list \<times> string"

record 'r table_metadata =
  tm_uuid :: string
  tm_format_v2 :: bool
  tm_unpartitioned :: bool
  tm_columns :: "string list"
  tm_snapshots :: "'r lake_snapshot list"
  tm_current :: "int option"
  tm_refs :: "string \<rightharpoonup> int"
  tm_next_seq :: nat
  tm_props :: "string \<rightharpoonup> string"

definition MAIN_BRANCH :: string where
  "MAIN_BRANCH = ''main''"

definition snapshot_by_id :: "'r table_metadata \<Rightarrow> int \<Rightarrow> 'r lake_snapshot option" where
  "snapshot_by_id tm i = find (\<lambda>s. sp_id s = i) (tm_snapshots tm)"

definition branch_head :: "'r table_metadata \<Rightarrow> string \<Rightarrow> ('r lake_snapshot option) result" where
  "branch_head tm branch =
     (if branch = MAIN_BRANCH then Inr (Option.bind (tm_current tm) (snapshot_by_id tm))
      else case Option.bind (tm_refs tm branch) (snapshot_by_id tm) of
             Some s \<Rightarrow> Inr (Some s)
           | None \<Rightarrow> Inl ''branch does not exist on this table'')"

section \<open>Statements\<close>

datatype dml_kind = DmlDelete | DmlUpdate "(string \<times> string) list"

record dml_statement =
  ds_kind :: dml_kind
  ds_namespace :: string
  ds_table :: string
  ds_alias :: "string option"
  ds_predicate :: "string option"

datatype 'r table_op =
    TAppend "'r list"
  | TAppendFiles "'r data_file list"
  | TDml dml_statement

text \<open>\<^verbatim>\<open>quote_ident\<close> doubles the quotes inside an identifier.\<close>

definition quote_ident :: "string \<Rightarrow> string" where
  "quote_ident s = CHR 0x22 # concat (map (\<lambda>c. if c = CHR 0x22 then [c, c] else [c]) s) @ [CHR 0x22]"

fun join_str :: "string \<Rightarrow> string list \<Rightarrow> string" where
  "join_str sep [] = []"
| "join_str sep [s] = s"
| "join_str sep (s # t # ss) = s @ sep @ join_str sep (t # ss)"

record dml_sql =
  sq_count_matched :: "string option"
  sq_survivors :: "string option"
  sq_rewrite :: "string option"

definition dml_from :: "dml_statement \<Rightarrow> string" where
  "dml_from st =
     quote_ident (ds_namespace st) @ ''.'' @ quote_ident (ds_table st) @
     (case ds_alias st of None \<Rightarrow> [] | Some a \<Rightarrow> '' AS '' @ quote_ident a)"

definition projection_item :: "dml_statement \<Rightarrow> (string \<times> string) list \<Rightarrow> string \<Rightarrow> string" where
  "projection_item st assignments c =
     (let q = quote_ident c in
      case (map_of (rev assignments) c, ds_predicate st) of
        (Some expr, Some p) \<Rightarrow> ''CASE WHEN ('' @ p @ '') THEN ('' @ expr @ '') ELSE '' @ q @ '' END AS '' @ q
      | (Some expr, None) \<Rightarrow> ''('' @ expr @ '') AS '' @ q
      | (None, _) \<Rightarrow> q)"

definition dml_sql_new :: "dml_statement \<Rightarrow> string list \<Rightarrow> dml_sql result" where
  "dml_sql_new st columns =
     (let from = dml_from st;
          count = map_option (\<lambda>p. ''SELECT count(*) FROM '' @ from @ '' WHERE ('' @ p @ '')'') (ds_predicate st)
      in case ds_kind st of
           DmlDelete \<Rightarrow>
             Inr \<lparr>sq_count_matched = count,
                  sq_survivors = map_option (\<lambda>p. ''SELECT '' @ join_str '', '' (map quote_ident columns) @ '' FROM '' @ from @
                      '' WHERE ('' @ p @ '') IS DISTINCT FROM TRUE'') (ds_predicate st),
                  sq_rewrite = None\<rparr>
         | DmlUpdate assignments \<Rightarrow>
             (if \<exists>a\<in>set assignments. fst a \<notin> set columns then Inl ''column of relation does not exist''
              else Inr \<lparr>sq_count_matched = count, sq_survivors = None,
                        sq_rewrite = Some (''SELECT '' @ join_str '', '' (map (projection_item st assignments) columns) @
                          '' FROM '' @ from)\<rparr>))"

text \<open>
  The third-party side: SQL on a table of rows, the column names of the batch a row comes in, the
  cast of a row's values to the types and nullability of the table's columns, object storage.  A cast may
  change values: \<^verbatim>\<open>cast_with_options\<close> with \<^verbatim>\<open>safe: false\<close> truncates a fraction.
\<close>

record 'r engine =
  en_count :: "string \<Rightarrow> 'r list \<Rightarrow> nat result"
  en_query :: "string \<Rightarrow> 'r list \<Rightarrow> 'r list result"
  en_names :: "'r \<Rightarrow> string list"
  en_cast :: "'r \<Rightarrow> 'r result"
  en_read :: "'r data_file \<Rightarrow> 'r list result"
  en_close :: "'r list \<Rightarrow> 'r data_file list result"
  en_load :: "string \<Rightarrow> unit result"
  en_put :: "string \<Rightarrow> unit result"
  en_now :: int

datatype 'r file_fate = Keep | Remove nat | Rewrite nat "'r list"

definition evaluate_rows :: "'r engine \<Rightarrow> dml_sql \<Rightarrow> 'r list \<Rightarrow> ('r file_fate) result" where
  "evaluate_rows en sql rows =
     rbind (case sq_count_matched sql of None \<Rightarrow> Inr (length rows) | Some q \<Rightarrow> en_count en q rows) (\<lambda>matched.
       if matched = 0 then Inr Keep
       else case sq_rewrite sql of
              None \<Rightarrow>
                (if matched = length rows then Inr (Remove matched)
                 else case sq_survivors sql of
                        None \<Rightarrow> Inl ''survivors SQL exists for predicated DELETE''
                      | Some q \<Rightarrow>
                          rbind (en_query en q rows) (\<lambda>out.
                            if length out + matched \<noteq> length rows then Inl ''DELETE row accounting mismatch''
                            else if out = [] then Inr (Remove matched)
                            else Inr (Rewrite matched out)))
            | Some q \<Rightarrow>
                rbind (en_query en q rows) (\<lambda>out.
                  if length out \<noteq> length rows then Inl ''UPDATE row accounting mismatch''
                  else Inr (Rewrite matched out)))"

definition apply_dml_to_batches :: "'r engine \<Rightarrow> dml_statement \<Rightarrow> string list \<Rightarrow> 'r list \<Rightarrow> (nat \<times> 'r list) result" where
  "apply_dml_to_batches en st columns rows =
     (if rows = [] then Inr (0, rows)
      else rbind (dml_sql_new st columns) (\<lambda>sql.
             rbind (evaluate_rows en sql rows) (\<lambda>fate.
               Inr (case fate of
                      Keep \<Rightarrow> (0, rows)
                    | Remove matched \<Rightarrow> (matched, [])
                    | Rewrite matched out \<Rightarrow> (matched, out)))))"

text \<open>
  The statements of the operation list over a set of rows: \<open>iops\<close> carries the index of each operation
  from \<^verbatim>\<open>first_op\<close> on.
\<close>

fun fold_dml_ops ::
  "'r engine \<Rightarrow> string list \<Rightarrow> (nat \<times> 'r table_op) list \<Rightarrow> bool \<times> 'r list \<times> nat list \<Rightarrow> (bool \<times> 'r list \<times> nat list) result" where
  "fold_dml_ops en columns [] st = Inr st"
| "fold_dml_ops en columns ((i, TDml s) # iops) (changed, rows, by_op) =
     rbind (apply_dml_to_batches en s columns rows) (\<lambda>(matched, out).
       fold_dml_ops en columns iops (changed \<or> matched > 0, out, by_op[i := by_op ! i + matched]))"
| "fold_dml_ops en columns ((i, op) # iops) st = fold_dml_ops en columns iops st"

definition is_dml :: "'r table_op \<Rightarrow> bool" where
  "is_dml op = (case op of TDml _ \<Rightarrow> True | _ \<Rightarrow> False)"

section \<open>Primary keys\<close>

text \<open>A key is the list of its column values, \<open>None\<close> for SQL null; column names match ignoring case.\<close>

definition ascii_lower :: "char \<Rightarrow> char" where
  "ascii_lower c = (let n = of_char c :: nat in if 65 \<le> n \<and> n \<le> 90 then char_of (n + 32) else c)"

definition eq_ignore_ascii_case :: "string \<Rightarrow> string \<Rightarrow> bool" where
  "eq_ignore_ascii_case a b \<longleftrightarrow> map ascii_lower a = map ascii_lower b"

text \<open>Rows onto the table's schema: the same columns in the same order, then the cast of every row.\<close>

definition align_batch :: "'r engine \<Rightarrow> string list \<Rightarrow> 'r list \<Rightarrow> ('r list) result" where
  "align_batch en columns rows =
     (if \<exists>r\<in>set rows. length (en_names en r) \<noteq> length columns then Inl ''row batch and table differ in their number of columns''
      else if \<exists>r\<in>set rows. \<not> list_all2 eq_ignore_ascii_case (en_names en r) columns then Inl ''row batch column has another name''
      else collect_results (map (en_cast en) rows))"

definition project_columns ::
  "(string list \<Rightarrow> 'r \<Rightarrow> 'v option list) \<Rightarrow> string list \<Rightarrow> string list \<Rightarrow> 'r list \<Rightarrow> ('v option list list) result" where
  "project_columns pkey columns cols rows =
     (if \<exists>c\<in>set cols. \<not> (\<exists>f\<in>set columns. eq_ignore_ascii_case f c) then Inl ''PK column missing from row batch''
      else Inr (map (pkey cols) rows))"

definition check_pk :: "'v option list list \<Rightarrow> unit result" where
  "check_pk keys =
     (if \<exists>k\<in>set keys. None \<in> set k then Inl ''23502''
      else if \<not> distinct keys then Inl ''23505''
      else Inr ())"

definition PK_PROPERTY :: string where
  "PK_PROPERTY = ''icegres.primary-key''"

definition pk_columns_of :: "'r table_metadata \<Rightarrow> (string list option) result" where
  "pk_columns_of tm =
     (case tm_props tm PK_PROPERTY of
        None \<Rightarrow> Inr None
      | Some raw \<Rightarrow>
          (let cols = filter (\<lambda>c. c \<noteq> []) (map trim (split_on (CHR '','') raw)) in
           if cols = [] then Inr None
           else if \<exists>c\<in>set cols. c \<notin> set (tm_columns tm) then Inl ''table property names a column which does not exist''
           else Inr (Some cols)))"

section \<open>The file scan\<close>

record ('r, 'v) scan_acc =
  sa_carried :: "'r manifest_file list"
  sa_existing :: "('r data_file \<times> int \<times> nat \<times> nat option) list"
  sa_deleted :: "('r data_file \<times> nat \<times> nat option) list"
  sa_removed_records :: nat
  sa_removed_bytes :: nat
  sa_kept_files :: nat
  sa_kept_records :: nat
  sa_kept_bytes :: nat
  sa_changed :: bool
  sa_pk :: "'v option list list"
  sa_writer :: "'r list option"
  sa_by_op :: "nat list"

definition scan_acc_new :: "nat \<Rightarrow> ('r, 'v) scan_acc" where
  "scan_acc_new n =
     \<lparr>sa_carried = [], sa_existing = [], sa_deleted = [], sa_removed_records = 0, sa_removed_bytes = 0,
      sa_kept_files = 0, sa_kept_records = 0, sa_kept_bytes = 0, sa_changed = False, sa_pk = [],
      sa_writer = None, sa_by_op = replicate n 0\<rparr>"

definition write_rows :: "'r list \<Rightarrow> ('r, 'v) scan_acc \<Rightarrow> ('r, 'v) scan_acc" where
  "write_rows rows acc =
     acc\<lparr>sa_writer := Some ((case sa_writer acc of None \<Rightarrow> [] | Some w \<Rightarrow> w) @ rows)\<rparr>"

definition file_fate_of ::
  "'r engine \<Rightarrow> string list \<Rightarrow> 'r table_op list \<Rightarrow> 'r list \<Rightarrow> nat list \<Rightarrow> ('r file_fate \<times> nat list) result" where
  "file_fate_of en columns ops rows by_op =
     (if \<exists>op\<in>set ops. is_dml op
      then rbind (fold_dml_ops en columns (enumerate 0 ops) (False, rows, by_op)) (\<lambda>(changed, out, by_op').
             Inr (if \<not> changed then Keep
                  else if out = [] then Remove (length rows)
                  else Rewrite (length rows - length out) out, by_op'))
      else Inr (Keep, by_op))"

text \<open>The final rows of a file, as far as the key check sees them.\<close>

definition fate_pk ::
  "(string list \<Rightarrow> 'r \<Rightarrow> 'v option list) \<Rightarrow> string list \<Rightarrow> string list option \<Rightarrow> 'r list \<Rightarrow> 'r file_fate \<Rightarrow>
   ('v option list list) result" where
  "fate_pk pkey columns pk rows fate =
     (case pk of
        None \<Rightarrow> Inr []
      | Some cols \<Rightarrow>
          (case fate of
             Keep \<Rightarrow> (if rows = [] then Inr [] else project_columns pkey columns cols rows)
           | Rewrite m out \<Rightarrow> (if out = [] then Inr [] else project_columns pkey columns cols out)
           | Remove m \<Rightarrow> Inr []))"

definition note_fate :: "'r manifest_entry \<Rightarrow> 'r file_fate \<Rightarrow> ('r, 'v) scan_acc \<Rightarrow> ('r, 'v) scan_acc" where
  "note_fate e fate acc =
     (case fate of
        Keep \<Rightarrow> acc\<lparr>sa_kept_files := sa_kept_files acc + 1,
                    sa_kept_records := sa_kept_records acc + df_record_count (me_file e),
                    sa_kept_bytes := sa_kept_bytes acc + df_size (me_file e)\<rparr>
      | _ \<Rightarrow> acc\<lparr>sa_changed := True\<rparr>)"

text \<open>One manifest: the fates of its live entries, and whether it must be rewritten.\<close>

fun scan_entries ::
  "'r engine \<Rightarrow> (string list \<Rightarrow> 'r \<Rightarrow> 'v option list) \<Rightarrow> string list \<Rightarrow> string list option \<Rightarrow> 'r table_op list \<Rightarrow>
   'r manifest_entry list \<Rightarrow> (('r manifest_entry \<times> 'r file_fate) list \<times> bool \<times> ('r, 'v) scan_acc) \<Rightarrow>
   (('r manifest_entry \<times> 'r file_fate) list \<times> bool \<times> ('r, 'v) scan_acc) result" where
  "scan_entries en pkey columns pk ops [] st = Inr st"
| "scan_entries en pkey columns pk ops (e # es) (fates, rewrite, acc) =
     (if \<not> me_alive e then scan_entries en pkey columns pk ops es (fates, True, acc)
      else rbind (en_read en (me_file e)) (\<lambda>rows.
             rbind (file_fate_of en columns ops rows (sa_by_op acc)) (\<lambda>(fate, by_op).
               rbind (fate_pk pkey columns pk rows fate) (\<lambda>keys.
                 scan_entries en pkey columns pk ops es
                   (fates @ [(e, fate)], rewrite \<or> fate \<noteq> Keep,
                    note_fate e fate (acc\<lparr>sa_by_op := by_op, sa_pk := sa_pk acc @ keys\<rparr>))))))"

definition place_fate ::
  "'r engine \<Rightarrow> string list \<Rightarrow> 'r manifest_file \<Rightarrow> 'r manifest_entry \<times> 'r file_fate \<Rightarrow> ('r, 'v) scan_acc \<Rightarrow>
   (('r, 'v) scan_acc) result" where
  "place_fate en columns mf x acc =
     (let e = fst x; f = me_file e; data_seq = (case me_seq e of None \<Rightarrow> mf_seq mf | Some s \<Rightarrow> s);
          gone = acc\<lparr>sa_removed_records := sa_removed_records acc + df_record_count f,
                     sa_removed_bytes := sa_removed_bytes acc + df_size f,
                     sa_deleted := sa_deleted acc @ [(f, data_seq, me_file_seq e)]\<rparr>
      in case snd x of
           Keep \<Rightarrow>
             Inr (acc\<lparr>sa_existing := sa_existing acc @
               [(f, (case me_snapshot e of None \<Rightarrow> mf_added_snapshot mf | Some s \<Rightarrow> s), data_seq, me_file_seq e)]\<rparr>)
         | Remove m \<Rightarrow> Inr gone
         | Rewrite m out \<Rightarrow> rbind (align_batch en columns out) (\<lambda>rows. Inr (write_rows rows gone)))"

fun place_fates ::
  "'r engine \<Rightarrow> string list \<Rightarrow> 'r manifest_file \<Rightarrow> ('r manifest_entry \<times> 'r file_fate) list \<Rightarrow> ('r, 'v) scan_acc \<Rightarrow>
   (('r, 'v) scan_acc) result" where
  "place_fates en columns mf [] acc = Inr acc"
| "place_fates en columns mf (x # xs) acc = rbind (place_fate en columns mf x acc) (place_fates en columns mf xs)"

fun scan_manifests ::
  "'r engine \<Rightarrow> (string list \<Rightarrow> 'r \<Rightarrow> 'v option list) \<Rightarrow> string list \<Rightarrow> string list option \<Rightarrow> 'r table_op list \<Rightarrow>
   'r manifest_file list \<Rightarrow> ('r, 'v) scan_acc \<Rightarrow> (('r, 'v) scan_acc) result" where
  "scan_manifests en pkey columns pk ops [] acc = Inr acc"
| "scan_manifests en pkey columns pk ops (mf # mfs) acc =
     rbind (en_load en (mf_path mf)) (\<lambda>_.
       rbind (scan_entries en pkey columns pk ops (mf_entries mf) ([], False, acc)) (\<lambda>(fates, rewrite, acc').
         rbind (if rewrite then place_fates en columns mf fates acc' else Inr (acc'\<lparr>sa_carried := sa_carried acc' @ [mf]\<rparr>))
           (scan_manifests en pkey columns pk ops mfs)))"

definition load_manifest_list :: "'r engine \<Rightarrow> 'r lake_snapshot \<Rightarrow> ('r manifest_file list) result" where
  "load_manifest_list en s =
     rbind (en_load en ''manifest list'') (\<lambda>_.
       if \<exists>mf\<in>set (sp_manifests s). \<not> mf_data mf then Inl ''table has delete manifests (merge-on-read)''
       else Inr (sp_manifests s))"

section \<open>The commit\<close>

text \<open>Appends, each through the statements after it; \<open>n\<close> counts the rows that remain.\<close>

fun fold_appends ::
  "'r engine \<Rightarrow> (string list \<Rightarrow> 'r \<Rightarrow> 'v option list) \<Rightarrow> string list \<Rightarrow> string list option \<Rightarrow> (nat \<times> 'r table_op) list \<Rightarrow>
   nat \<times> ('r, 'v) scan_acc \<Rightarrow> (nat \<times> ('r, 'v) scan_acc) result" where
  "fold_appends en pkey columns pk [] st = Inr st"
| "fold_appends en pkey columns pk ((i, TAppend rows) # iops) (n, acc) =
     rbind (fold_dml_ops en columns iops (False, rows, (sa_by_op acc)[i := length rows])) (\<lambda>(changed, out, by_op).
       let acc1 = acc\<lparr>sa_by_op := by_op\<rparr> in
       if out = [] then fold_appends en pkey columns pk iops (n, acc1)
       else rbind (align_batch en columns out) (\<lambda>aligned.
              rbind (case pk of None \<Rightarrow> Inr [] | Some cols \<Rightarrow> project_columns pkey columns cols aligned) (\<lambda>keys.
                fold_appends en pkey columns pk iops
                  (n + length out, write_rows aligned (acc1\<lparr>sa_pk := sa_pk acc1 @ keys\<rparr>)))))"
| "fold_appends en pkey columns pk ((i, op) # iops) st = fold_appends en pkey columns pk iops st"

definition op_files :: "'r table_op \<Rightarrow> 'r data_file list" where
  "op_files op = (case op of TAppendFiles fs \<Rightarrow> fs | _ \<Rightarrow> [])"

definition prewritten :: "'r table_op list \<Rightarrow> 'r data_file list" where
  "prewritten ops = concat (map op_files ops)"

fun note_files :: "(nat \<times> 'r table_op) list \<Rightarrow> nat list \<Rightarrow> nat list" where
  "note_files [] by_op = by_op"
| "note_files ((i, TAppendFiles fs) # iops) by_op = note_files iops (by_op[i := sum_list (map df_record_count fs)])"
| "note_files ((i, op) # iops) by_op = note_files iops by_op"

text \<open>A random id not in use: the first of the drawn candidates that no snapshot has.\<close>

definition generate_unique_snapshot_id :: "int list \<Rightarrow> 'r table_metadata \<Rightarrow> int option" where
  "generate_unique_snapshot_id draws tm = find (\<lambda>i. i \<notin> sp_id ` set (tm_snapshots tm)) draws"

datatype table_requirement = UuidMatch string | RefSnapshotIdMatch string "int option"

datatype 'r table_update =
    AddSnapshot "'r lake_snapshot"
  | SetSnapshotRef string int
  | RemoveSnapshotRef string
  | RemoveSnapshots "int list"
  | SetProperties "(string \<times> string) list"

record 'r commit_table_request =
  rq_identifier :: "lake_ident option"
  rq_requirements :: "table_requirement list"
  rq_updates :: "'r table_update list"

record 'r prepared_commit =
  pc_request :: "'r commit_table_request"
  pc_rows_by_op :: "nat list"
  pc_snapshot_id :: int

definition m0_manifest :: "int \<Rightarrow> ('r, 'v) scan_acc \<Rightarrow> 'r manifest_file list" where
  "m0_manifest sid acc =
     (if sa_existing acc = [] \<and> sa_deleted acc = [] then []
      else [\<lparr>mf_path = ''m0.avro'', mf_data = True, mf_seq = 0, mf_added_snapshot = sid,
             mf_entries =
               map (\<lambda>(f, snap, seq, fseq). \<lparr>me_alive = True, me_snapshot = Some snap, me_seq = Some seq,
                      me_file_seq = Some (case fseq of None \<Rightarrow> seq | Some x \<Rightarrow> x), me_file = f\<rparr>) (sa_existing acc) @
               map (\<lambda>(f, seq, fseq). \<lparr>me_alive = False, me_snapshot = Some sid, me_seq = Some seq,
                      me_file_seq = Some (case fseq of None \<Rightarrow> seq | Some x \<Rightarrow> x), me_file = f\<rparr>) (sa_deleted acc)\<rparr>])"

definition m1_manifest :: "int \<Rightarrow> 'r data_file list \<Rightarrow> 'r manifest_file list" where
  "m1_manifest sid added =
     (if added = [] then []
      else [\<lparr>mf_path = ''m1.avro'', mf_data = True, mf_seq = 0, mf_added_snapshot = sid,
             mf_entries = map (\<lambda>f. \<lparr>me_alive = True, me_snapshot = Some sid, me_seq = None, me_file_seq = None, me_file = f\<rparr>) added\<rparr>])"

definition commit_summary :: "bool \<Rightarrow> ('r, 'v) scan_acc \<Rightarrow> 'r data_file list \<Rightarrow> summary" where
  "commit_summary need_file_scan acc added =
     (let records = sum_list (map df_record_count added); size = sum_list (map df_size added) in
      \<lparr>su_operation = (if \<not> sa_changed acc then OpAppendOnly else if added = [] then OpDeleteOnly else OpOverwrite),
       su_added_files = length added, su_added_records = records, su_added_size = size,
       su_deleted_files = length (sa_deleted acc), su_deleted_records = sa_removed_records acc,
       su_removed_size = sa_removed_bytes acc,
       su_totals = (if need_file_scan
                    then Some (sa_kept_files acc + length added, sa_kept_records acc + records, sa_kept_bytes acc + size)
                    else None)\<rparr>)"

definition validate_ops :: "string list \<Rightarrow> 'r table_op list \<Rightarrow> unit result" where
  "validate_ops columns ops =
     (if \<exists>op\<in>set ops. (case op of TDml st \<Rightarrow> isl (dml_sql_new st columns) | _ \<Rightarrow> False) then Inl ''column of relation does not exist'' else Inr ())"

text \<open>The commit of a snapshot: the branch must still point where the preparation started.\<close>

definition snapshot_request ::
  "lake_ident \<Rightarrow> string \<Rightarrow> string \<Rightarrow> int option \<Rightarrow> 'r lake_snapshot \<Rightarrow> (string \<times> string) list \<Rightarrow> 'r commit_table_request" where
  "snapshot_request ident uuid branch head_id snapshot props =
     \<lparr>rq_identifier = Some ident,
      rq_requirements = [UuidMatch uuid, RefSnapshotIdMatch branch head_id],
      rq_updates = [AddSnapshot snapshot, SetSnapshotRef branch (sp_id snapshot)] @ (if props = [] then [] else [SetProperties props])\<rparr>"

text \<open>The snapshot from what the scan left: close the writer, then the manifests and their list.\<close>

definition produce_snapshot ::
  "'r engine \<Rightarrow> int \<Rightarrow> lake_ident \<Rightarrow> 'r table_metadata \<Rightarrow> string \<Rightarrow> 'r lake_snapshot option \<Rightarrow> bool \<Rightarrow> 'r table_op list \<Rightarrow>
   (string \<times> string) list \<Rightarrow> ('r, 'v) scan_acc \<Rightarrow> ('r prepared_commit) result" where
  "produce_snapshot en sid ident tm branch head need_file_scan ops props acc =
     rbind (case sa_writer acc of None \<Rightarrow> Inr [] | Some rows \<Rightarrow> en_close en rows) (\<lambda>files.
     rbind (if sa_existing acc = [] \<and> sa_deleted acc = [] then Inr () else en_put en ''m0.avro'') (\<lambda>_.
     rbind (case head of Some s \<Rightarrow> (if need_file_scan then Inr [] else load_manifest_list en s) | None \<Rightarrow> Inr []) (\<lambda>carried.
     let added = files @ prewritten ops in
     rbind (if added = [] then Inr () else en_put en ''m1.avro'') (\<lambda>_.
     rbind (en_put en ''manifest list'') (\<lambda>_.
       Inr \<lparr>pc_request =
              snapshot_request ident (tm_uuid tm) branch (map_option sp_id head)
                \<lparr>sp_id = sid, sp_parent = map_option sp_id head, sp_seq = tm_next_seq tm, sp_timestamp = en_now en,
                 sp_manifests = sa_carried acc @ carried @ m0_manifest sid acc @ m1_manifest sid added,
                 sp_summary = commit_summary need_file_scan acc added\<rparr>
                props,
            pc_rows_by_op = note_files (enumerate 0 ops) (sa_by_op acc),
            pc_snapshot_id = sid\<rparr>)))))"

text \<open>The rows of the head, only when a statement or a key check needs them.\<close>

definition scan_head ::
  "'r engine \<Rightarrow> (string list \<Rightarrow> 'r \<Rightarrow> 'v option list) \<Rightarrow> string list \<Rightarrow> string list option \<Rightarrow> 'r table_op list \<Rightarrow>
   bool \<Rightarrow> 'r lake_snapshot option \<Rightarrow> (('r, 'v) scan_acc) result" where
  "scan_head en pkey columns pk ops need_file_scan head =
     (case head of
        Some s \<Rightarrow>
          (if need_file_scan
           then rbind (load_manifest_list en s) (\<lambda>mfs. scan_manifests en pkey columns pk ops mfs (scan_acc_new (length ops)))
           else Inr (scan_acc_new (length ops)))
      | None \<Rightarrow> Inr (scan_acc_new (length ops)))"

text \<open>Nothing to commit, or the key check and the snapshot.\<close>

definition finish_commit ::
  "'r engine \<Rightarrow> int list \<Rightarrow> lake_ident \<Rightarrow> 'r table_metadata \<Rightarrow> 'r table_op list \<Rightarrow> string list option \<Rightarrow> string \<Rightarrow> (string \<times> string) list \<Rightarrow>
   'r lake_snapshot option \<Rightarrow> bool \<Rightarrow> nat \<times> ('r, 'v) scan_acc \<Rightarrow> ('r prepared_commit option) result" where
  "finish_commit en draws ident tm ops pk branch props head need_file_scan st =
     (let acc = snd st in
      if \<not> sa_changed acc \<and> fst st + sum_list (map df_record_count (prewritten ops)) = 0 then Inr None
      else
        rbind (if pk = None then Inr () else check_pk (sa_pk acc)) (\<lambda>_.
        rbind (ok_or (generate_unique_snapshot_id draws tm) ''no unused snapshot id was drawn'') (\<lambda>sid.
        rbind (produce_snapshot en sid ident tm branch head need_file_scan ops props acc) (\<lambda>pc. Inr (Some pc)))))"

definition prepare_commit ::
  "'r engine \<Rightarrow> (string list \<Rightarrow> 'r \<Rightarrow> 'v option list) \<Rightarrow> int list \<Rightarrow> lake_ident \<Rightarrow> 'r table_metadata \<Rightarrow> 'r table_op list \<Rightarrow>
   string list option \<Rightarrow> string \<Rightarrow> (string \<times> string) list \<Rightarrow> ('r prepared_commit option) result" where
  "prepare_commit en pkey draws ident tm ops pk branch props =
     (if \<not> tm_format_v2 tm then Inl ''writes through icegres require an Iceberg format v2 table''
      else if \<not> tm_unpartitioned tm then Inl ''writes on partitioned tables are not supported yet''
      else
        rbind (branch_head tm branch) (\<lambda>head.
        rbind (validate_ops (tm_columns tm) ops) (\<lambda>_.
        let need_file_scan = ((\<exists>op\<in>set ops. is_dml op) \<or> pk \<noteq> None) in
        rbind (scan_head en pkey (tm_columns tm) pk ops need_file_scan head) (\<lambda>acc.
        rbind (fold_appends en pkey (tm_columns tm) pk (enumerate 0 ops) (0, acc))
          (finish_commit en draws ident tm ops pk branch props head need_file_scan)))))"

end
