(* ===== verification/Commit.thy ===== *)
theory Commit
  imports Overwrite Json "HOL-Library.List_Lexorder" "HOL-Library.Char_ord"
begin

text \<open>
  The commit paths of \<^verbatim>\<open>OverwriteEngine\<close> (\<^verbatim>\<open>icegres/src/overwrite.rs\<close>): autocommit statements with bounded
  retries, enforced inserts, streamed appends, pinned transactions on one and on several tables, branch
  creation, removal and fast-forward, snapshot expiry, and the requests they post.

  The REST catalog is the parameter \<open>catalog\<close>: each call may return anything and moves the world on,
  which includes what other clients do meanwhile.  The environment variables that inject conflicts
  for tests are unset.
\<close>

section \<open>Calls to the catalog\<close>

datatype http_answer = NoAnswer | Answer nat string

record ('r, 'w) catalog =
  ct_load :: "lake_ident \<Rightarrow> 'w \<Rightarrow> ('r table_metadata) result \<times> 'w"
  ct_post :: "lake_ident \<Rightarrow> 'r commit_table_request \<Rightarrow> 'w \<Rightarrow> http_answer \<times> 'w"
  ct_transaction :: "'r commit_table_request list \<Rightarrow> 'w \<Rightarrow> http_answer \<times> 'w"
  ct_metadata :: "lake_ident \<Rightarrow> 'w \<Rightarrow> json result \<times> 'w"
  ct_namespaces :: "string list option \<Rightarrow> 'w \<Rightarrow> (string list list) result \<times> 'w"
  ct_tables :: "string list \<Rightarrow> 'w \<Rightarrow> (lake_ident list) result \<times> 'w"

text \<open>A step that may fail, over a world; \<open>fails\<close> and \<open>returns\<close> leave the world alone.\<close>

type_synonym ('w, 'a) io = "'w \<Rightarrow> 'a result \<times> 'w"

definition io_bind :: "('w, 'a) io \<Rightarrow> ('a \<Rightarrow> ('w, 'b) io) \<Rightarrow> ('w, 'b) io" where
  "io_bind m f w = (case m w of (Inl e, w') \<Rightarrow> (Inl e, w') | (Inr x, w') \<Rightarrow> f x w')"

definition io_lift :: "'a result \<Rightarrow> ('w, 'a) io" where
  "io_lift r w = (r, w)"

abbreviation returns :: "'a \<Rightarrow> ('w, 'a) io" where
  "returns x \<equiv> io_lift (Inr x)"

abbreviation fails :: "string \<Rightarrow> ('w, 'a) io" where
  "fails e \<equiv> io_lift (Inl e)"

fun io_map :: "('a \<Rightarrow> ('w, 'b) io) \<Rightarrow> 'a list \<Rightarrow> ('w, 'b list) io" where
  "io_map f [] = returns []"
| "io_map f (x # xs) = io_bind (f x) (\<lambda>y. io_bind (io_map f xs) (\<lambda>ys. returns (y # ys)))"

text \<open>The engine: its settings, and the world with the cached capability of the catalog.\<close>

record overwrite_engine =
  oe_enforce_pk :: bool
  oe_branch :: string

record 'w engine_world =
  ew_catalog :: 'w
  ew_txn_endpoint :: "bool option"

definition on_catalog :: "('w \<Rightarrow> 'a \<times> 'w) \<Rightarrow> 'w engine_world \<Rightarrow> 'a \<times> 'w engine_world" where
  "on_catalog m ew = (case m (ew_catalog ew) of (x, w') \<Rightarrow> (x, ew\<lparr>ew_catalog := w'\<rparr>))"

datatype commit_outcome = Committed | Conflict string

definition is_success :: "nat \<Rightarrow> bool" where
  "is_success status \<longleftrightarrow> 200 \<le> status \<and> status < 300"

definition post_commit_inner :: "('r, 'w) catalog \<Rightarrow> lake_ident \<Rightarrow> 'r commit_table_request \<Rightarrow> ('w engine_world, commit_outcome) io" where
  "post_commit_inner ct ident request ew =
     (case on_catalog (ct_post ct ident request) ew of
        (NoAnswer, ew') \<Rightarrow> (Inl ''commit POST failed'', ew')
      | (Answer status body, ew') \<Rightarrow>
          (if is_success status then (Inr Committed, ew')
           else if status = 409 then (Inr (Conflict body), ew')
           else (Inl ''catalog rejected commit'', ew')))"

definition post_commit :: "('r, 'w) catalog \<Rightarrow> lake_ident \<Rightarrow> 'r commit_table_request \<Rightarrow> ('w engine_world, commit_outcome) io" where
  "post_commit = post_commit_inner"

definition txn_endpoint_capability :: "nat \<Rightarrow> bool option" where
  "txn_endpoint_capability status =
     (if is_success status \<or> status = 409 then Some True
      else if status = 400 \<or> status = 422 then Some True
      else if status = 404 \<or> status = 405 \<or> status = 501 then Some False
      else None)"

definition probe_change :: "'r commit_table_request" where
  "probe_change = \<lparr>rq_identifier = None, rq_requirements = [], rq_updates = []\<rparr>"

definition probe_txn_endpoint :: "('r, 'w) catalog \<Rightarrow> ('w engine_world, bool) io" where
  "probe_txn_endpoint ct ew =
     (case ew_txn_endpoint ew of
        Some known \<Rightarrow> (Inr known, ew)
      | None \<Rightarrow>
          (case on_catalog (ct_transaction ct [probe_change]) ew of
             (NoAnswer, ew') \<Rightarrow> (Inl ''capability probe POST failed'', ew')
           | (Answer status body, ew') \<Rightarrow>
               (case txn_endpoint_capability status of
                  Some supported \<Rightarrow> (Inr supported, ew'\<lparr>ew_txn_endpoint := Some supported\<rparr>)
                | None \<Rightarrow> (Inl ''could not determine whether the catalog implements transactions/commit'', ew'))))"

datatype txn_commit_outcome = TxnCommitted | TxnConflict string | TxnUnsupported

definition post_transaction_inner :: "('r, 'w) catalog \<Rightarrow> 'r commit_table_request list \<Rightarrow> ('w engine_world, txn_commit_outcome) io" where
  "post_transaction_inner ct requests =
     io_bind (probe_txn_endpoint ct) (\<lambda>supported ew.
       if \<not> supported then (Inr TxnUnsupported, ew)
       else case on_catalog (ct_transaction ct requests) ew of
              (NoAnswer, ew') \<Rightarrow> (Inl ''transaction commit POST failed'', ew')
            | (Answer status body, ew') \<Rightarrow>
                (if is_success status then (Inr TxnCommitted, ew')
                 else if status = 409 then (Inr (TxnConflict body), ew')
                 else (Inl ''catalog rejected transaction commit'', ew')))"

definition post_transaction :: "('r, 'w) catalog \<Rightarrow> 'r commit_table_request list \<Rightarrow> ('w engine_world, txn_commit_outcome) io" where
  "post_transaction = post_transaction_inner"

definition load_table :: "('r, 'w) catalog \<Rightarrow> lake_ident \<Rightarrow> ('w engine_world, 'r table_metadata) io" where
  "load_table ct ident = on_catalog (ct_load ct ident)"

section \<open>Statements and transactions\<close>

definition MAX_COMMIT_ATTEMPTS :: nat where
  "MAX_COMMIT_ATTEMPTS = 3"

definition pk_columns :: "overwrite_engine \<Rightarrow> 'r table_metadata \<Rightarrow> (string list option) result" where
  "pk_columns oe tm = (if \<not> oe_enforce_pk oe then Inr None else pk_columns_of tm)"

text \<open>
  What the crates do in each attempt, and the random numbers it draws: a client of a table \<open>ident\<close>.
\<close>

record ('r, 'v) client =
  cl_engine :: "nat \<Rightarrow> 'r engine"
  cl_draws :: "nat \<Rightarrow> int list"
  cl_pkey :: "string list \<Rightarrow> 'r \<Rightarrow> 'v option list"

record dml_outcome =
  do_rows :: nat
  do_attempts :: nat
  do_snapshot_id :: "int option"

text \<open>One attempt on loaded metadata: prepare and post.  \<open>None\<close> is a net no-op.\<close>

definition try_commit ::
  "('r, 'w) catalog \<Rightarrow> overwrite_engine \<Rightarrow> ('r, 'v) client \<Rightarrow> nat \<Rightarrow> lake_ident \<Rightarrow> 'r table_metadata \<Rightarrow> 'r table_op list \<Rightarrow>
   string list option \<Rightarrow> ('w engine_world, ('r prepared_commit \<times> commit_outcome) option) io" where
  "try_commit ct oe cl attempt ident tm ops pk =
     io_bind (io_lift (prepare_commit (cl_engine cl attempt) (cl_pkey cl) (cl_draws cl attempt) ident tm ops pk (oe_branch oe) [])) (\<lambda>prepared.
       case prepared of
         None \<Rightarrow> returns None
       | Some pc \<Rightarrow> io_bind (post_commit ct ident (pc_request pc)) (\<lambda>outcome. returns (Some (pc, outcome))))"

fun execute_loop ::
  "('r, 'w) catalog \<Rightarrow> overwrite_engine \<Rightarrow> ('r, 'v) client \<Rightarrow> lake_ident \<Rightarrow> dml_statement \<Rightarrow> nat list \<Rightarrow> ('w engine_world, dml_outcome) io" where
  "execute_loop ct oe cl ident stmt [] = fails ''lost the optimistic-concurrency race''"
| "execute_loop ct oe cl ident stmt (attempt # attempts) =
     io_bind (load_table ct ident) (\<lambda>tm.
     io_bind (io_lift (pk_columns oe tm)) (\<lambda>pk.
     io_bind (try_commit ct oe cl attempt ident tm [TDml stmt] pk) (\<lambda>tried.
       case tried of
         None \<Rightarrow> returns \<lparr>do_rows = 0, do_attempts = attempt, do_snapshot_id = None\<rparr>
       | Some (pc, Committed) \<Rightarrow>
           returns \<lparr>do_rows = pc_rows_by_op pc ! 0, do_attempts = attempt, do_snapshot_id = Some (pc_snapshot_id pc)\<rparr>
       | Some (pc, Conflict msg) \<Rightarrow> execute_loop ct oe cl ident stmt attempts)))"

definition execute ::
  "('r, 'w) catalog \<Rightarrow> overwrite_engine \<Rightarrow> ('r, 'v) client \<Rightarrow> dml_statement \<Rightarrow> ('w engine_world, dml_outcome) io" where
  "execute ct oe cl stmt = execute_loop ct oe cl ([ds_namespace stmt], ds_table stmt) stmt [1..<MAX_COMMIT_ATTEMPTS + 1]"

text \<open>The first attempt of an insert uses the table its caller has loaded.\<close>

fun insert_loop ::
  "('r, 'w) catalog \<Rightarrow> overwrite_engine \<Rightarrow> ('r, 'v) client \<Rightarrow> lake_ident \<Rightarrow> 'r list \<Rightarrow> 'r table_metadata option \<Rightarrow> nat list \<Rightarrow>
   ('w engine_world, dml_outcome) io" where
  "insert_loop ct oe cl ident rows preloaded [] = fails ''lost the optimistic-concurrency race''"
| "insert_loop ct oe cl ident rows preloaded (attempt # attempts) =
     io_bind (case preloaded of Some tm \<Rightarrow> returns tm | None \<Rightarrow> load_table ct ident) (\<lambda>tm.
     io_bind (io_lift (pk_columns oe tm)) (\<lambda>pk.
     io_bind (try_commit ct oe cl attempt ident tm [TAppend rows] pk) (\<lambda>tried.
       case tried of
         None \<Rightarrow> returns \<lparr>do_rows = 0, do_attempts = attempt, do_snapshot_id = None\<rparr>
       | Some (pc, Committed) \<Rightarrow>
           returns \<lparr>do_rows = length rows, do_attempts = attempt, do_snapshot_id = Some (pc_snapshot_id pc)\<rparr>
       | Some (pc, Conflict msg) \<Rightarrow> insert_loop ct oe cl ident rows None attempts)))"

definition insert_enforced ::
  "('r, 'w) catalog \<Rightarrow> overwrite_engine \<Rightarrow> ('r, 'v) client \<Rightarrow> lake_ident \<Rightarrow> 'r list \<Rightarrow> 'r table_metadata option \<Rightarrow>
   ('w engine_world, dml_outcome) io" where
  "insert_enforced ct oe cl ident rows preloaded = insert_loop ct oe cl ident rows preloaded [1..<MAX_COMMIT_ATTEMPTS + 1]"

text \<open>A stream is the list of its batches, each a batch or an error of the upload.\<close>

fun write_stream :: "'r engine \<Rightarrow> string list \<Rightarrow> ('r list result) list \<Rightarrow> 'r list \<times> nat \<Rightarrow> ('r list \<times> nat) result" where
  "write_stream en columns [] acc = Inr acc"
| "write_stream en columns (item # items) (written, rows) =
     rbind item (\<lambda>batch.
       if batch = [] then write_stream en columns items (written, rows)
       else rbind (align_batch en columns batch) (\<lambda>aligned. write_stream en columns items (written @ aligned, rows + length batch)))"

fun append_loop ::
  "('r, 'w) catalog \<Rightarrow> overwrite_engine \<Rightarrow> ('r, 'v) client \<Rightarrow> lake_ident \<Rightarrow> nat \<Rightarrow> 'r data_file list \<Rightarrow> nat list \<Rightarrow>
   ('w engine_world, dml_outcome) io" where
  "append_loop ct oe cl ident rows files [] = fails ''lost the optimistic-concurrency race''"
| "append_loop ct oe cl ident rows files (attempt # attempts) =
     io_bind (load_table ct ident) (\<lambda>tm.
     io_bind (try_commit ct oe cl attempt ident tm [TAppendFiles files] None) (\<lambda>tried.
       case tried of
         None \<Rightarrow> returns \<lparr>do_rows = 0, do_attempts = attempt, do_snapshot_id = None\<rparr>
       | Some (pc, Committed) \<Rightarrow> returns \<lparr>do_rows = rows, do_attempts = attempt, do_snapshot_id = Some (pc_snapshot_id pc)\<rparr>
       | Some (pc, Conflict msg) \<Rightarrow> append_loop ct oe cl ident rows files attempts))"

definition append_stream ::
  "('r, 'w) catalog \<Rightarrow> overwrite_engine \<Rightarrow> ('r, 'v) client \<Rightarrow> lake_ident \<Rightarrow> ('r list result) list \<Rightarrow> ('w engine_world, dml_outcome) io" where
  "append_stream ct oe cl ident stream =
     io_bind (load_table ct ident) (\<lambda>tm.
     io_bind (io_lift (write_stream (cl_engine cl 0) (tm_columns tm) stream ([], 0))) (\<lambda>(written, rows).
     io_bind (io_lift (en_close (cl_engine cl 0) written)) (\<lambda>data_files.
       if rows = 0 \<or> data_files = [] then returns \<lparr>do_rows = 0, do_attempts = 0, do_snapshot_id = None\<rparr>
       else append_loop ct oe cl ident rows data_files [1..<MAX_COMMIT_ATTEMPTS + 1])))"

text \<open>A transaction is anchored at the head pinned when it began; \<^verbatim>\<open>40001\<close> is a serialization failure.\<close>

definition check_pin :: "overwrite_engine \<Rightarrow> 'r table_metadata \<Rightarrow> int option \<Rightarrow> unit result" where
  "check_pin oe tm expected_head =
     rbind (branch_head tm (oe_branch oe)) (\<lambda>head. if map_option sp_id head \<noteq> expected_head then Inl ''40001'' else Inr ())"

definition commit_pinned ::
  "('r, 'w) catalog \<Rightarrow> overwrite_engine \<Rightarrow> ('r, 'v) client \<Rightarrow> lake_ident \<Rightarrow> int option \<Rightarrow> 'r table_op list \<Rightarrow> ('w engine_world, int option) io" where
  "commit_pinned ct oe cl ident expected_head ops =
     io_bind (load_table ct ident) (\<lambda>tm.
     io_bind (io_lift (check_pin oe tm expected_head)) (\<lambda>_.
     io_bind (io_lift (pk_columns oe tm)) (\<lambda>pk.
     io_bind (try_commit ct oe cl 1 ident tm ops pk) (\<lambda>tried.
       case tried of
         None \<Rightarrow> returns None
       | Some (pc, Committed) \<Rightarrow> returns (Some (pc_snapshot_id pc))
       | Some (pc, Conflict msg) \<Rightarrow> fails ''40001''))))"

type_synonym 'r pinned_table = "lake_ident \<times> int option \<times> 'r table_op list"

datatype multi_table_commit = MultiCommitted | MultiUnsupported

definition prepare_pinned ::
  "('r, 'w) catalog \<Rightarrow> overwrite_engine \<Rightarrow> (lake_ident \<Rightarrow> ('r, 'v) client) \<Rightarrow> 'r pinned_table \<Rightarrow> ('w engine_world, 'r prepared_commit option) io" where
  "prepare_pinned ct oe cls t =
     (case t of (ident, expected_head, ops) \<Rightarrow>
        io_bind (load_table ct ident) (\<lambda>tm.
        io_bind (io_lift (check_pin oe tm expected_head)) (\<lambda>_.
        io_bind (io_lift (pk_columns oe tm)) (\<lambda>pk.
          io_lift (prepare_commit (cl_engine (cls ident) 1) (cl_pkey (cls ident)) (cl_draws (cls ident) 1) ident tm ops pk (oe_branch oe) [])))))"

definition commit_pinned_multi ::
  "('r, 'w) catalog \<Rightarrow> overwrite_engine \<Rightarrow> (lake_ident \<Rightarrow> ('r, 'v) client) \<Rightarrow> 'r pinned_table list \<Rightarrow> ('w engine_world, multi_table_commit) io" where
  "commit_pinned_multi ct oe cls tables =
     io_bind (probe_txn_endpoint ct) (\<lambda>supported.
       if \<not> supported then returns MultiUnsupported
       else
         io_bind (io_map (prepare_pinned ct oe cls) tables) (\<lambda>prepared_all.
           let live = concat (map (\<lambda>p. case p of None \<Rightarrow> [] | Some pc \<Rightarrow> [pc]) prepared_all) in
           if live = [] then returns MultiCommitted
           else io_bind (post_transaction ct (map pc_request live)) (\<lambda>outcome.
                  case outcome of
                    TxnCommitted \<Rightarrow> returns MultiCommitted
                  | TxnConflict msg \<Rightarrow> fails ''40001''
                  | TxnUnsupported \<Rightarrow> returns MultiUnsupported)))"

definition post_prepared :: "('r, 'w) catalog \<Rightarrow> lake_ident \<Rightarrow> 'r prepared_commit \<Rightarrow> ('w engine_world, commit_outcome) io" where
  "post_prepared ct ident prepared = post_commit ct ident (pc_request prepared)"

end
