(* ===== verification/Branch.thy ===== *)
theory Branch
  imports Commit
begin

text \<open>
  Branches and snapshot expiry: the reference-moving requests of \<^verbatim>\<open>icegres/src/overwrite.rs\<close> and the
  comparison and fast-forward merge of \<^verbatim>\<open>icegres/src/branch.rs\<close>.  A branch operation never touches data
  files: it posts requirements on references and moves or removes one.
\<close>

section \<open>Requests\<close>

definition snapshot_for_ref :: "'r table_metadata \<Rightarrow> string \<Rightarrow> 'r lake_snapshot option" where
  "snapshot_for_ref tm r = Option.bind (tm_refs tm r) (snapshot_by_id tm)"

definition set_branch_ref_request :: "lake_ident \<Rightarrow> string \<Rightarrow> string \<Rightarrow> int \<Rightarrow> bool \<Rightarrow> 'r commit_table_request" where
  "set_branch_ref_request ident uuid name src anchor_main =
     \<lparr>rq_identifier = Some ident,
      rq_requirements = [UuidMatch uuid, RefSnapshotIdMatch name None] @
        (if anchor_main then [RefSnapshotIdMatch MAIN_BRANCH (Some src)] else []),
      rq_updates = [SetSnapshotRef name src]\<rparr>"

definition remove_branch_ref_request :: "lake_ident \<Rightarrow> string \<Rightarrow> string \<Rightarrow> int \<Rightarrow> 'r commit_table_request" where
  "remove_branch_ref_request ident uuid name head =
     \<lparr>rq_identifier = Some ident,
      rq_requirements = [UuidMatch uuid, RefSnapshotIdMatch name (Some head)],
      rq_updates = [RemoveSnapshotRef name]\<rparr>"

record fast_forward_move =
  fm_ident :: lake_ident
  fm_uuid :: string
  fm_from_head :: int
  fm_to_head :: int

definition fast_forward_request :: "fast_forward_move \<Rightarrow> string \<Rightarrow> string \<Rightarrow> 'r commit_table_request" where
  "fast_forward_request mv from_ref to_ref =
     \<lparr>rq_identifier = Some (fm_ident mv),
      rq_requirements = [UuidMatch (fm_uuid mv), RefSnapshotIdMatch to_ref (Some (fm_to_head mv)),
                         RefSnapshotIdMatch from_ref (Some (fm_from_head mv))],
      rq_updates = [SetSnapshotRef to_ref (fm_from_head mv)]\<rparr>"

section \<open>One table\<close>

definition branch_source :: "'r table_metadata \<Rightarrow> int option \<Rightarrow> int result" where
  "branch_source tm at_snapshot =
     (case at_snapshot of
        Some i \<Rightarrow> (if snapshot_by_id tm i \<noteq> None then Inr i else Inl ''snapshot does not exist in table'')
      | None \<Rightarrow> ok_or (tm_current tm) ''table has no snapshot yet; write to it before branching'')"

definition create_branch :: "('r, 'w) catalog \<Rightarrow> lake_ident \<Rightarrow> string \<Rightarrow> int option \<Rightarrow> ('w engine_world, int) io" where
  "create_branch ct ident name at_snapshot =
     (if name = MAIN_BRANCH then fails ''branch always exists; pick another name''
      else
        io_bind (load_table ct ident) (\<lambda>tm.
        io_bind (io_lift (branch_source tm at_snapshot)) (\<lambda>src.
        io_bind (post_commit ct ident (set_branch_ref_request ident (tm_uuid tm) name src (at_snapshot = None))) (\<lambda>outcome.
          case outcome of
            Committed \<Rightarrow> returns src
          | Conflict msg \<Rightarrow> fails ''branch already exists, or main moved concurrently''))))"

definition drop_branch :: "('r, 'w) catalog \<Rightarrow> lake_ident \<Rightarrow> string \<Rightarrow> ('w engine_world, int) io" where
  "drop_branch ct ident name =
     (if name = MAIN_BRANCH then fails ''refusing to drop the default branch''
      else
        io_bind (load_table ct ident) (\<lambda>tm.
        io_bind (io_lift (ok_or (map_option sp_id (snapshot_for_ref tm name)) ''branch does not exist on table'')) (\<lambda>head.
        io_bind (post_commit ct ident (remove_branch_ref_request ident (tm_uuid tm) name head)) (\<lambda>outcome.
          case outcome of
            Committed \<Rightarrow> returns head
          | Conflict msg \<Rightarrow> fails ''branch moved while dropping it''))))"

text \<open>References as the catalog lists them: \<^verbatim>\<open>main\<close> first, then by name.\<close>

definition as_i64 :: "json \<Rightarrow> int option" where
  "as_i64 j = (case j of JInt i \<Rightarrow> if - (2 ^ 63) \<le> i \<and> i < 2 ^ 63 then Some i else None | _ \<Rightarrow> None)"

definition ref_entry :: "string \<times> json \<Rightarrow> (string \<times> int \<times> string) option" where
  "ref_entry nr =
     map_option (\<lambda>i. (fst nr, i, case Option.bind (json_get (snd nr) ''type'') as_str of None \<Rightarrow> ''branch'' | Some k \<Rightarrow> k))
       (Option.bind (json_get (snd nr) ''snapshot-id'') as_i64)"

definition refs_object :: "json \<Rightarrow> (string \<times> json) list" where
  "refs_object body =
     (case Option.bind (json_get body ''metadata'') (\<lambda>m. json_get m ''refs'') of Some (JObject fs) \<Rightarrow> fs | _ \<Rightarrow> [])"

definition list_refs :: "('r, 'w) catalog \<Rightarrow> lake_ident \<Rightarrow> ('w engine_world, (string \<times> int \<times> string) list) io" where
  "list_refs ct ident =
     io_bind (on_catalog (ct_metadata ct ident)) (\<lambda>body.
       returns (sort_key (\<lambda>(name, _). (if name \<noteq> MAIN_BRANCH then 1 else 0 :: nat) # map of_char name)
         (List.map_filter ref_entry (refs_object body))))"

text \<open>The snapshots to expire: all but the newest \<open>keep_last\<close> and the referenced ones.\<close>

definition expired_ids :: "'r table_metadata \<Rightarrow> int set \<Rightarrow> nat \<Rightarrow> int list" where
  "expired_ids tm referenced keep_last =
     (let ordered = rev (sort_key (\<lambda>(t, i). [t, i]) (map (\<lambda>s. (sp_timestamp s, sp_id s)) (tm_snapshots tm)));
          keep = referenced \<union> snd ` set (take keep_last ordered)
      in filter (\<lambda>i. i \<notin> keep) (map snd ordered))"

definition expire_request :: "lake_ident \<Rightarrow> 'r table_metadata \<Rightarrow> int list \<Rightarrow> 'r commit_table_request" where
  "expire_request ident tm expire =
     \<lparr>rq_identifier = Some ident,
      rq_requirements = UuidMatch (tm_uuid tm) #
        (case tm_current tm of None \<Rightarrow> [] | Some head \<Rightarrow> [RefSnapshotIdMatch MAIN_BRANCH (Some head)]),
      rq_updates = [RemoveSnapshots expire]\<rparr>"

definition expire_snapshots :: "('r, 'w) catalog \<Rightarrow> lake_ident \<Rightarrow> nat \<Rightarrow> ('w engine_world, nat) io" where
  "expire_snapshots ct ident keep_last =
     io_bind (load_table ct ident) (\<lambda>tm.
     io_bind (list_refs ct ident) (\<lambda>refs.
       let expire = expired_ids tm ((\<lambda>(_, i, _). i) ` set refs) keep_last in
       if expire = [] then returns 0
       else io_bind (post_commit ct ident (expire_request ident tm expire)) (\<lambda>outcome.
              case outcome of
                Committed \<Rightarrow> returns (length expire)
              | Conflict msg \<Rightarrow> fails ''table changed while expiring snapshots; retry'')))"

section \<open>All tables\<close>

definition ident_string :: "lake_ident \<Rightarrow> string" where
  "ident_string i = join_with (CHR ''.'') (fst i @ [snd i])"

text \<open>The walk over nested namespaces; \<open>None\<close> when a catalog answers ever new namespaces.\<close>

partial_function (option) walk_namespaces ::
  "('r, 'w) catalog \<Rightarrow> string list list \<Rightarrow> string list list \<Rightarrow> lake_ident list \<Rightarrow> 'w engine_world \<Rightarrow>
   ((lake_ident list) result \<times> 'w engine_world) option" where
  "walk_namespaces ct stack visited out ew =
     (if stack = [] then Some (Inr out, ew)
      else if last stack \<in> set visited then walk_namespaces ct (butlast stack) visited out ew
      else case on_catalog (ct_tables ct (last stack)) ew of
             (Inl e, ew1) \<Rightarrow> Some (Inl e, ew1)
           | (Inr tables, ew1) \<Rightarrow>
               (case on_catalog (ct_namespaces ct (Some (last stack))) ew1 of
                  (Inl e, ew2) \<Rightarrow> Some (Inl e, ew2)
                | (Inr children, ew2) \<Rightarrow>
                    walk_namespaces ct (butlast stack @ children) (last stack # visited) (out @ tables) ew2))"

definition list_all_tables :: "('r, 'w) catalog \<Rightarrow> 'w engine_world \<Rightarrow> ((lake_ident list) result \<times> 'w engine_world) option" where
  "list_all_tables ct ew =
     (case on_catalog (ct_namespaces ct None) ew of
        (Inl e, ew1) \<Rightarrow> Some (Inl e, ew1)
      | (Inr stack, ew1) \<Rightarrow>
          map_option (\<lambda>(r, ew2). (rbind r (\<lambda>out. Inr (sort_key ident_string out)), ew2)) (walk_namespaces ct stack [] [] ew1))"

text \<open>The captured cut: for every table with a snapshot its head on \<^verbatim>\<open>main\<close>, with the request that pins it.\<close>

definition capture_branch ::
  "('r, 'w) catalog \<Rightarrow> string \<Rightarrow> lake_ident \<Rightarrow> ('w engine_world, lake_ident \<times> ('r commit_table_request \<times> int) option) io" where
  "capture_branch ct name ident =
     io_bind (load_table ct ident) (\<lambda>tm.
       returns (ident, map_option (\<lambda>src. (set_branch_ref_request ident (tm_uuid tm) name src True, src)) (tm_current tm)))"

definition branch_idents ::
  "('r, 'w) catalog \<Rightarrow> string \<Rightarrow> lake_ident list \<Rightarrow> ('w engine_world, (lake_ident \<times> int) list \<times> lake_ident list) io" where
  "branch_idents ct name idents =
     (if idents = [] then fails ''the catalog has no tables to branch''
      else
        io_bind (io_map (capture_branch ct name) idents) (\<lambda>captured.
          let requests = List.map_filter (\<lambda>(i, c). map_option fst c) captured;
              branched = List.map_filter (\<lambda>(i, c). map_option (\<lambda>x. (i, snd x)) c) captured;
              skipped = List.map_filter (\<lambda>(i, c). if c = None then Some i else None) captured
          in if branched = [] then fails ''no table in the catalog has a snapshot yet''
             else io_bind (post_transaction ct requests) (\<lambda>outcome.
                    case outcome of
                      TxnCommitted \<Rightarrow> returns (branched, skipped)
                    | TxnConflict msg \<Rightarrow> fails ''branch already exists on at least one table, or a main head moved''
                    | TxnUnsupported \<Rightarrow> fails ''the catalog does not implement transactions/commit'')))"

definition create_branch_all ::
  "('r, 'w) catalog \<Rightarrow> string \<Rightarrow> 'w engine_world \<Rightarrow> (((lake_ident \<times> int) list \<times> lake_ident list) result \<times> 'w engine_world) option" where
  "create_branch_all ct name ew =
     (if name = MAIN_BRANCH then Some (Inl ''branch always exists; pick another name'', ew)
      else map_option (\<lambda>(r, ew1). io_bind (io_lift r) (branch_idents ct name) ew1) (list_all_tables ct ew))"

definition capture_drop ::
  "('r, 'w) catalog \<Rightarrow> string \<Rightarrow> lake_ident \<Rightarrow> ('w engine_world, lake_ident \<times> ('r commit_table_request \<times> int) option) io" where
  "capture_drop ct name ident =
     io_bind (load_table ct ident) (\<lambda>tm.
       returns (ident, map_option (\<lambda>s. (remove_branch_ref_request ident (tm_uuid tm) name (sp_id s), sp_id s)) (snapshot_for_ref tm name)))"

definition drop_idents ::
  "('r, 'w) catalog \<Rightarrow> string \<Rightarrow> lake_ident list \<Rightarrow> ('w engine_world, (lake_ident \<times> int) list \<times> nat) io" where
  "drop_idents ct name idents =
     io_bind (io_map (capture_drop ct name) idents) (\<lambda>captured.
       let requests = List.map_filter (\<lambda>(i, c). map_option fst c) captured;
           dropped = List.map_filter (\<lambda>(i, c). map_option (\<lambda>x. (i, snd x)) c) captured;
           skipped = length (filter (\<lambda>(i, c). c = None) captured)
       in if dropped = [] then fails ''branch does not exist on any table in the catalog''
          else io_bind (post_transaction ct requests) (\<lambda>outcome.
                 case outcome of
                   TxnCommitted \<Rightarrow> returns (dropped, skipped)
                 | TxnConflict msg \<Rightarrow> fails ''branch moved on at least one table while dropping it''
                 | TxnUnsupported \<Rightarrow> fails ''the catalog does not implement transactions/commit''))"

definition drop_branch_all ::
  "('r, 'w) catalog \<Rightarrow> string \<Rightarrow> 'w engine_world \<Rightarrow> (((lake_ident \<times> int) list \<times> nat) result \<times> 'w engine_world) option" where
  "drop_branch_all ct name ew =
     (if name = MAIN_BRANCH then Some (Inl ''refusing to drop the default branch'', ew)
      else map_option (\<lambda>(r, ew1). io_bind (io_lift r) (drop_idents ct name) ew1) (list_all_tables ct ew))"

definition merge_fast_forward_all :: "('r, 'w) catalog \<Rightarrow> string \<Rightarrow> string \<Rightarrow> fast_forward_move list \<Rightarrow> ('w engine_world, unit) io" where
  "merge_fast_forward_all ct from_ref to_ref moves =
     (if moves = [] then fails ''no tables to merge''
      else
        let requests = map (\<lambda>mv. fast_forward_request mv from_ref to_ref) moves in
        case moves of
          [mv] \<Rightarrow>
            io_bind (post_commit ct (fm_ident mv) (fast_forward_request mv from_ref to_ref)) (\<lambda>outcome.
              case outcome of
                Committed \<Rightarrow> returns ()
              | Conflict msg \<Rightarrow> fails ''a branch moved between plan and commit'')
        | _ \<Rightarrow>
            io_bind (post_transaction ct requests) (\<lambda>outcome.
              case outcome of
                TxnCommitted \<Rightarrow> returns ()
              | TxnConflict msg \<Rightarrow> fails ''a branch moved on at least one table between plan and commit''
              | TxnUnsupported \<Rightarrow> fails ''the catalog does not implement transactions/commit''))"

section \<open>Comparison and merge\<close>

definition DEFAULT_SCHEMA :: string where
  "DEFAULT_SCHEMA = ''demo''"

definition parse_table :: "string \<Rightarrow> lake_ident result" where
  "parse_table table =
     (case split_on (CHR ''.'') table of
        [name] \<Rightarrow> (if name = [] then Inl ''table must be <table> or <namespace>.<table>'' else Inr ([DEFAULT_SCHEMA], name))
      | [ns, name] \<Rightarrow> (if ns = [] \<or> name = [] then Inl ''table must be <table> or <namespace>.<table>'' else Inr ([ns], name))
      | _ \<Rightarrow> Inl ''table must be <table> or <namespace>.<table>'')"

definition is_ascii_alphanumeric :: "char \<Rightarrow> bool" where
  "is_ascii_alphanumeric c \<longleftrightarrow>
     (let n = of_char c :: nat in 48 \<le> n \<and> n \<le> 57 \<or> 65 \<le> n \<and> n \<le> 90 \<or> 97 \<le> n \<and> n \<le> 122)"

definition validate_name :: "string \<Rightarrow> unit result" where
  "validate_name name =
     (if name = [] \<or> \<not> list_all (\<lambda>c. is_ascii_alphanumeric c \<or> c \<in> {CHR ''_'', CHR ''-'', CHR ''.''}) name
      then Inl ''branch name is invalid'' else Inr ())"

datatype diff_status = Unchanged | AdvancedA | AdvancedB | Diverged | OnlyA | OnlyB | NoRef

definition parent_of :: "'r table_metadata \<Rightarrow> int \<Rightarrow> int option option" where
  "parent_of tm i = map_option sp_parent (snapshot_by_id tm i)"

text \<open>The chain of parents from a head, inclusive, as far as the metadata knows it.\<close>

function lineage_walk :: "'r table_metadata \<Rightarrow> int set \<Rightarrow> int option \<Rightarrow> int list" where
  "lineage_walk tm seen None = []"
| "lineage_walk tm seen (Some i) =
     (if i \<in> seen then []
      else case parent_of tm i of
             None \<Rightarrow> []
           | Some parent \<Rightarrow> i # lineage_walk tm (insert i seen) parent)"
  by pat_completeness auto
termination
proof (relation "measure (\<lambda>(tm, seen, _). card (sp_id ` set (tm_snapshots tm) - seen))", goal_cases)
  case (2 tm seen i parent)
  then have "i \<in> sp_id ` set (tm_snapshots tm)" by (auto simp: parent_of_def snapshot_by_id_def find_Some_iff)
  then have "sp_id ` set (tm_snapshots tm) - insert i seen \<subset> sp_id ` set (tm_snapshots tm) - seen" using 2(1) by auto
  then show ?case by (simp only: in_measure split_conv psubset_card_mono finite_Diff finite_imageI finite_set)
qed simp

definition lineage_of :: "'r table_metadata \<Rightarrow> int \<Rightarrow> int list" where
  "lineage_of tm head = lineage_walk tm {} (Some head)"

definition fork_point :: "'r table_metadata \<Rightarrow> int \<Rightarrow> int \<Rightarrow> int option" where
  "fork_point tm a_head b_head = find (\<lambda>i. i \<in> set (lineage_of tm a_head)) (lineage_of tm b_head)"

definition classify :: "int option \<Rightarrow> int option \<Rightarrow> int option \<Rightarrow> diff_status" where
  "classify a_head b_head fork =
     (case (a_head, b_head) of
        (None, None) \<Rightarrow> NoRef
      | (Some _, None) \<Rightarrow> OnlyA
      | (None, Some _) \<Rightarrow> OnlyB
      | (Some a, Some b) \<Rightarrow>
          (if a = b then Unchanged
           else if fork = Some b then AdvancedA
           else if fork = Some a then AdvancedB
           else Diverged))"

record table_cmp =
  tc_ident :: lake_ident
  tc_uuid :: string
  tc_a_head :: "int option"
  tc_b_head :: "int option"
  tc_fork :: "int option"
  tc_status :: diff_status

definition compare_table :: "'r table_metadata \<Rightarrow> lake_ident \<Rightarrow> string \<Rightarrow> string \<Rightarrow> table_cmp" where
  "compare_table tm ident a b =
     (let a_head = map_option sp_id (snapshot_for_ref tm a);
          b_head = map_option sp_id (snapshot_for_ref tm b);
          fork = (case (a_head, b_head) of (Some ah, Some bh) \<Rightarrow> fork_point tm ah bh | _ \<Rightarrow> None)
      in \<lparr>tc_ident = ident, tc_uuid = tm_uuid tm, tc_a_head = a_head, tc_b_head = b_head, tc_fork = fork,
          tc_status = classify a_head b_head fork\<rparr>)"

definition compare_idents :: "('r, 'w) catalog \<Rightarrow> string \<Rightarrow> string \<Rightarrow> lake_ident list \<Rightarrow> ('w engine_world, table_cmp list) io" where
  "compare_idents ct a b idents =
     (if idents = [] then fails ''the catalog has no tables to compare''
      else
        io_bind (io_map (\<lambda>ident. io_bind (load_table ct ident) (\<lambda>tm. returns (compare_table tm ident a b))) idents) (\<lambda>cmps.
          if \<forall>c\<in>set cmps. tc_a_head c = None then fails ''ref does not exist on any table in scope''
          else if \<forall>c\<in>set cmps. tc_b_head c = None then fails ''ref does not exist on any table in scope''
          else returns cmps))"

definition compare_all ::
  "('r, 'w) catalog \<Rightarrow> string \<Rightarrow> string \<Rightarrow> string option \<Rightarrow> 'w engine_world \<Rightarrow> ((table_cmp list) result \<times> 'w engine_world) option" where
  "compare_all ct a b table ew =
     (case table of
        Some t \<Rightarrow> Some (io_bind (io_lift (rbind (parse_table t) (\<lambda>i. Inr [i]))) (compare_idents ct a b) ew)
      | None \<Rightarrow> map_option (\<lambda>(r, ew1). io_bind (io_lift r) (compare_idents ct a b) ew1) (list_all_tables ct ew))"

datatype merge_plan = FastForward fast_forward_move | Skip lake_ident | MergeConflict lake_ident

definition plan_merge :: "table_cmp \<Rightarrow> merge_plan" where
  "plan_merge c =
     (case tc_status c of
        AdvancedA \<Rightarrow> FastForward \<lparr>fm_ident = tc_ident c, fm_uuid = tc_uuid c, fm_from_head = the (tc_a_head c), fm_to_head = the (tc_b_head c)\<rparr>
      | Unchanged \<Rightarrow> Skip (tc_ident c)
      | AdvancedB \<Rightarrow> Skip (tc_ident c)
      | NoRef \<Rightarrow> Skip (tc_ident c)
      | OnlyB \<Rightarrow> Skip (tc_ident c)
      | OnlyA \<Rightarrow> MergeConflict (tc_ident c)
      | Diverged \<Rightarrow> MergeConflict (tc_ident c))"

fun plan_moves :: "merge_plan list \<Rightarrow> fast_forward_move list" where
  "plan_moves [] = []"
| "plan_moves (FastForward mv # ps) = mv # plan_moves ps"
| "plan_moves (p # ps) = plan_moves ps"

fun plan_conflicts :: "merge_plan list \<Rightarrow> lake_ident list" where
  "plan_conflicts [] = []"
| "plan_conflicts (MergeConflict i # ps) = i # plan_conflicts ps"
| "plan_conflicts (p # ps) = plan_conflicts ps"

definition merge_compared :: "('r, 'w) catalog \<Rightarrow> string \<Rightarrow> string \<Rightarrow> bool \<Rightarrow> table_cmp list \<Rightarrow> ('w engine_world, unit) io" where
  "merge_compared ct from_ref to_ref exec cmps =
     (let plans = map plan_merge cmps in
      if plan_conflicts plans \<noteq> [] then fails ''refusing the merge: nothing was applied''
      else if plan_moves plans = [] then returns ()
      else if \<not> exec then returns ()
      else merge_fast_forward_all ct from_ref to_ref (plan_moves plans))"

definition merge ::
  "('r, 'w) catalog \<Rightarrow> string \<Rightarrow> string \<Rightarrow> string option \<Rightarrow> bool \<Rightarrow> 'w engine_world \<Rightarrow> (unit result \<times> 'w engine_world) option" where
  "merge ct from_ref to_ref table exec ew =
     (if isl (validate_name from_ref) \<or> isl (validate_name to_ref) then Some (Inl ''branch name is invalid'', ew)
      else if from_ref = to_ref then Some (Inl ''merging a ref into itself is a no-op'', ew)
      else map_option (\<lambda>(r, ew1). io_bind (io_lift r) (merge_compared ct from_ref to_ref exec) ew1)
             (compare_all ct from_ref to_ref table ew))"

end
