(* ===== verification/OverwriteSpec.thy ===== *)
theory OverwriteSpec
  imports Overwrite "HOL-Library.Multiset"
begin

text \<open>
  A copy-on-write commit is the execution of its operations, in order, on the rows of the head.  The
  reference \<open>ops_rows\<close> runs the operations one after the other on a plain list of rows; the commit works
  file by file, keeps untouched files and manifests, and folds each append through the later
  statements.  Rows are compared as multisets: the order of rows in a table is not specified.
\<close>

section \<open>Reference semantics\<close>

definition dml_rows :: "(dml_statement \<Rightarrow> 'r \<Rightarrow> bool) \<Rightarrow> (dml_statement \<Rightarrow> 'r \<Rightarrow> 'r) \<Rightarrow> dml_statement \<Rightarrow> 'r list \<Rightarrow> 'r list" where
  "dml_rows hit upd st rows =
     (case ds_kind st of
        DmlDelete \<Rightarrow> filter (\<lambda>r. \<not> hit st r) rows
      | DmlUpdate _ \<Rightarrow> map (\<lambda>r. if hit st r then upd st r else r) rows)"

fun ops_rows :: "(dml_statement \<Rightarrow> 'r \<Rightarrow> bool) \<Rightarrow> (dml_statement \<Rightarrow> 'r \<Rightarrow> 'r) \<Rightarrow> 'r table_op list \<Rightarrow> 'r list \<Rightarrow> 'r list" where
  "ops_rows hit upd [] rows = rows"
| "ops_rows hit upd (TAppend rs # ops) rows = ops_rows hit upd ops (rows @ rs)"
| "ops_rows hit upd (TAppendFiles fs # ops) rows = ops_rows hit upd ops (rows @ concat (map df_rows fs))"
| "ops_rows hit upd (TDml st # ops) rows = ops_rows hit upd ops (dml_rows hit upd st rows)"

text \<open>The rows a statement matches when its turn comes.\<close>

fun ops_matched :: "(dml_statement \<Rightarrow> 'r \<Rightarrow> bool) \<Rightarrow> (dml_statement \<Rightarrow> 'r \<Rightarrow> 'r) \<Rightarrow> 'r table_op list \<Rightarrow> 'r list \<Rightarrow> nat list" where
  "ops_matched hit upd [] rows = []"
| "ops_matched hit upd (TAppend rs # ops) rows = length rs # ops_matched hit upd ops (rows @ rs)"
| "ops_matched hit upd (TAppendFiles fs # ops) rows =
     length (concat (map df_rows fs)) # ops_matched hit upd ops (rows @ concat (map df_rows fs))"
| "ops_matched hit upd (TDml st # ops) rows = length (filter (hit st) rows) # ops_matched hit upd ops (dml_rows hit upd st rows)"

text \<open>Files written elsewhere come last: no statement of the list runs after them.\<close>

fun files_last :: "'r table_op list \<Rightarrow> bool" where
  "files_last [] \<longleftrightarrow> True"
| "files_last (TAppendFiles fs # ops) \<longleftrightarrow> (\<forall>op\<in>set ops. \<not> is_dml op) \<and> files_last ops"
| "files_last (op # ops) \<longleftrightarrow> files_last ops"

text \<open>
  What the crates promise: when a query of a statement returns, it returns what the statement means
  on the given rows; a cast leaves alone what it has cast already (\<^verbatim>\<open>align_batch\<close> copies a column that has
  the target type); files hold what was written.
\<close>

definition sql_sound ::
  "'r engine \<Rightarrow> (dml_statement \<Rightarrow> 'r \<Rightarrow> bool) \<Rightarrow> (dml_statement \<Rightarrow> 'r \<Rightarrow> 'r) \<Rightarrow> string list \<Rightarrow> dml_statement \<Rightarrow> bool" where
  "sql_sound en hit upd columns st \<longleftrightarrow>
     (ds_predicate st = None \<longrightarrow> (\<forall>r. hit st r)) \<and>
     (\<forall>sql rows q n. dml_sql_new st columns = Inr sql \<longrightarrow> sq_count_matched sql = Some q \<longrightarrow> en_count en q rows = Inr n \<longrightarrow>
        n = length (filter (hit st) rows)) \<and>
     (\<forall>sql rows q out. dml_sql_new st columns = Inr sql \<longrightarrow> sq_survivors sql = Some q \<longrightarrow> en_query en q rows = Inr out \<longrightarrow>
        mset out = mset (filter (\<lambda>r. \<not> hit st r) rows)) \<and>
     (\<forall>sql rows q out. dml_sql_new st columns = Inr sql \<longrightarrow> sq_rewrite sql = Some q \<longrightarrow> en_query en q rows = Inr out \<longrightarrow>
        mset out = mset (map (\<lambda>r. if hit st r then upd st r else r) rows))"

definition storage_sound :: "'r engine \<Rightarrow> bool" where
  "storage_sound en \<longleftrightarrow>
     (\<forall>r r'. en_cast en r = Inr r' \<longrightarrow> en_cast en r' = Inr r') \<and>
     (\<forall>f rows. en_read en f = Inr rows \<longrightarrow> rows = df_rows f) \<and>
     (\<forall>rows fs. en_close en rows = Inr fs \<longrightarrow> mset (concat (map df_rows fs)) = mset rows)"

text \<open>
  The row a cast makes of a row.  Rows are \<open>typed\<close> when they have the table's types already, as the
  rows of the table's own files do.
\<close>

definition fit :: "'r engine \<Rightarrow> 'r \<Rightarrow> 'r" where
  "fit en r = (case en_cast en r of Inl e \<Rightarrow> r | Inr r' \<Rightarrow> r')"

definition typed :: "'r engine \<Rightarrow> 'r list \<Rightarrow> bool" where
  "typed en rows \<longleftrightarrow> (\<forall>r\<in>set rows. fit en r = r)"

definition casts_lossless :: "'r engine \<Rightarrow> bool" where
  "casts_lossless en \<longleftrightarrow> (\<forall>r r'. en_cast en r = Inr r' \<longrightarrow> r' = r)"

lemma fit_fit: "storage_sound en \<Longrightarrow> fit en (fit en r) = fit en r"
  by (cases "en_cast en r") (auto simp: fit_def storage_sound_def)

lemma lossless_fit: "casts_lossless en \<Longrightarrow> fit en r = r"
  by (auto simp: fit_def casts_lossless_def split: sum.splits)

lemma typed_fit: "typed en rows \<Longrightarrow> image_mset (fit en) (mset rows) = mset rows"
  by (metis map_idI mset_map typed_def)

lemma align_batch_fit: "align_batch en columns rows = Inr out \<Longrightarrow> out = map (fit en) rows"
proof -
  have "collect_results (map (en_cast en) rows) = Inr out \<Longrightarrow> out = map (fit en) rows"
    by (induction rows arbitrary: out) (auto simp: rbind_Inr_conv fit_def)
  then show "align_batch en columns rows = Inr out \<Longrightarrow> ?thesis" by (simp add: align_batch_def split: if_splits)
qed

section \<open>Statements over a set of rows\<close>

lemma rbind_Inr_eq: "Inr y = rbind r f \<longleftrightarrow> (\<exists>x. r = Inr x \<and> f x = Inr y)"
  by (cases r) auto

lemma dml_rows_mset: "mset rows = mset rows' \<Longrightarrow> mset (dml_rows hit upd st rows) = mset (dml_rows hit upd st rows')"
  by (simp add: dml_rows_def split: dml_kind.splits)

lemma dml_rows_append: "dml_rows hit upd st (xs @ ys) = dml_rows hit upd st xs @ dml_rows hit upd st ys"
  by (simp add: dml_rows_def split: dml_kind.splits)

lemma dml_rows_none: "\<forall>r\<in>set rows. \<not> hit st r \<Longrightarrow> dml_rows hit upd st rows = rows"
  by (auto simp: dml_rows_def intro: map_idI split: dml_kind.splits)

lemma no_predicate_sql:
  "dml_sql_new st columns = Inr sql \<Longrightarrow> sq_count_matched sql = None \<longleftrightarrow> ds_predicate st = None"
  by (auto simp: dml_sql_new_def Let_def split: dml_kind.splits if_splits)

lemma sql_shape:
  assumes "dml_sql_new st columns = Inr sql"
  shows "ds_kind st = DmlDelete \<longleftrightarrow> sq_rewrite sql = None"
  using assms by (auto simp: dml_sql_new_def Let_def split: dml_kind.splits if_splits)

lemma filter_all_count: "length (filter P rows) = length rows \<Longrightarrow> filter (\<lambda>r. \<not> P r) rows = []"
  by (metis filter_False length_filter_less less_irrefl)

lemma evaluate_rows_sound:
  assumes "sql_sound en hit upd columns st" "dml_sql_new st columns = Inr sql" "evaluate_rows en sql rows = Inr fate"
  shows "case fate of
      Keep \<Rightarrow> filter (hit st) rows = []
    | Remove m \<Rightarrow> m = length (filter (hit st) rows) \<and> 0 < m \<and> dml_rows hit upd st rows = []
    | Rewrite m out \<Rightarrow> m = length (filter (hit st) rows) \<and> 0 < m \<and> mset out = mset (dml_rows hit upd st rows)"
proof -
  obtain m where m: "(case sq_count_matched sql of None \<Rightarrow> Inr (length rows) | Some q \<Rightarrow> en_count en q rows) = Inr m"
    and e: "evaluate_rows en sql rows = (if m = 0 then Inr Keep
       else case sq_rewrite sql of
              None \<Rightarrow>
                (if m = length rows then Inr (Remove m)
                 else case sq_survivors sql of
                        None \<Rightarrow> Inl ''survivors SQL exists for predicated DELETE''
                      | Some q \<Rightarrow>
                          rbind (en_query en q rows) (\<lambda>out.
                            if length out + m \<noteq> length rows then Inl ''DELETE row accounting mismatch''
                            else if out = [] then Inr (Remove m)
                            else Inr (Rewrite m out)))
            | Some q \<Rightarrow>
                rbind (en_query en q rows) (\<lambda>out.
                  if length out \<noteq> length rows then Inl ''UPDATE row accounting mismatch''
                  else Inr (Rewrite m out)))"
    using assms(3) by (auto simp: evaluate_rows_def rbind_Inr_conv)
  have c: "m = length (filter (hit st) rows)"
  proof (cases "sq_count_matched sql")
    case None
    then have "\<forall>r. hit st r" using assms(1,2) no_predicate_sql by (auto simp: sql_sound_def)
    then show ?thesis using m None by simp
  next
    case (Some q)
    then show ?thesis using m assms(1,2) by (auto simp: sql_sound_def)
  qed
  show ?thesis
  proof (cases "m = 0")
    case True
    then show ?thesis using c e assms(3) by simp
  next
    case False
    show ?thesis
    proof (cases "sq_rewrite sql")
      case None
      then have k: "ds_kind st = DmlDelete" using sql_shape [OF assms(2)] by blast
      show ?thesis
      proof (cases "m = length rows")
        case True
        then show ?thesis using c e False None k assms(3) filter_all_count [of "hit st" rows] by (simp add: dml_rows_def)
      next
        case nall: False
        then obtain q out where q: "sq_survivors sql = Some q" "en_query en q rows = Inr out"
          and f: "fate = (if out = [] then Remove m else Rewrite m out)"
          using e False None assms(3) by (auto simp: rbind_Inr_conv rbind_Inr_eq split: option.splits if_splits)
        have "mset out = mset (dml_rows hit upd st rows)"
          using assms(1,2) q k by (auto simp: sql_sound_def dml_rows_def)
        then show ?thesis using c f False by auto
      qed
    next
      case (Some q)
      then obtain ass where k: "ds_kind st = DmlUpdate ass" using sql_shape [OF assms(2)] by (cases "ds_kind st") auto
      obtain out where q: "en_query en q rows = Inr out" "fate = Rewrite m out"
        using e False Some assms(3) by (auto simp: rbind_Inr_conv rbind_Inr_eq split: if_splits)
      have "mset out = mset (dml_rows hit upd st rows)"
        using assms(1,2) q(1) Some k by (auto simp: sql_sound_def dml_rows_def)
      then show ?thesis using c q False by simp
    qed
  qed
qed

lemma apply_dml_sound:
  assumes "sql_sound en hit upd columns st" "apply_dml_to_batches en st columns rows = Inr (m, out)"
  shows "m = length (filter (hit st) rows) \<and> mset out = mset (dml_rows hit upd st rows) \<and> (m = 0 \<longrightarrow> out = rows)"
proof (cases "rows = []")
  case True
  then show ?thesis using assms(2) by (simp add: apply_dml_to_batches_def dml_rows_def split: dml_kind.splits)
next
  case False
  then obtain sql fate where f: "dml_sql_new st columns = Inr sql" "evaluate_rows en sql rows = Inr fate"
    "(m, out) = (case fate of Keep \<Rightarrow> (0, rows) | Remove matched \<Rightarrow> (matched, []) | Rewrite matched out \<Rightarrow> (matched, out))"
    using assms(2) by (auto simp: apply_dml_to_batches_def rbind_Inr_conv)
  show ?thesis using evaluate_rows_sound [OF assms(1) f(1,2)] f(3)
    by (cases fate) (auto simp: filter_empty_conv dml_rows_none)
qed

text \<open>All the statements of a list over one set of rows, and what each of them matches.\<close>

fun dmls :: "(dml_statement \<Rightarrow> 'r \<Rightarrow> bool) \<Rightarrow> (dml_statement \<Rightarrow> 'r \<Rightarrow> 'r) \<Rightarrow> 'r table_op list \<Rightarrow> 'r list \<Rightarrow> 'r list" where
  "dmls hit upd [] rows = rows"
| "dmls hit upd (TDml st # ops) rows = dmls hit upd ops (dml_rows hit upd st rows)"
| "dmls hit upd (op # ops) rows = dmls hit upd ops rows"

fun dml_hits :: "(dml_statement \<Rightarrow> 'r \<Rightarrow> bool) \<Rightarrow> (dml_statement \<Rightarrow> 'r \<Rightarrow> 'r) \<Rightarrow> 'r table_op list \<Rightarrow> 'r list \<Rightarrow> nat list" where
  "dml_hits hit upd [] rows = []"
| "dml_hits hit upd (TDml st # ops) rows = length (filter (hit st) rows) # dml_hits hit upd ops (dml_rows hit upd st rows)"
| "dml_hits hit upd (op # ops) rows = 0 # dml_hits hit upd ops rows"

lemma dmls_mset: "mset rows = mset rows' \<Longrightarrow> mset (dmls hit upd ops rows) = mset (dmls hit upd ops rows')"
proof (induction hit upd ops rows arbitrary: rows' rule: dmls.induct)
  case (2 hit upd st ops rows)
  then show ?case using dml_rows_mset [OF 2(2)] by simp
qed simp_all

lemma dmls_append: "dmls hit upd ops (xs @ ys) = dmls hit upd ops xs @ dmls hit upd ops ys"
  by (induction hit upd ops xs arbitrary: ys rule: dmls.induct) (auto simp: dml_rows_append)

lemma dmls_Nil [simp]: "dmls hit upd ops [] = []"
  using dmls_append [of hit upd ops "[]" "[]"] by simp

lemma dmls_concat: "dmls hit upd ops (concat xss) = concat (map (dmls hit upd ops) xss)"
  by (induction xss) (simp_all add: dmls_append)

lemma dmls_none: "\<forall>op\<in>set ops. \<not> is_dml op \<Longrightarrow> dmls hit upd ops rows = rows"
  by (induction hit upd ops rows rule: dmls.induct) (auto simp: is_dml_def)

lemma hits_length [simp]: "length (dml_hits hit upd ops rows) = length ops"
  by (induction hit upd ops rows rule: dml_hits.induct) auto

lemma filter_length_mset: "mset xs = mset ys \<Longrightarrow> length (filter P xs) = length (filter P ys)"
  by (metis mset_filter size_mset)

lemma hits_mset: "mset rows = mset rows' \<Longrightarrow> dml_hits hit upd ops rows = dml_hits hit upd ops rows'"
proof (induction hit upd ops rows arbitrary: rows' rule: dml_hits.induct)
  case (2 hit upd st ops rows)
  then show ?case using dml_rows_mset [OF 2(2)] filter_length_mset [OF 2(2)] by simp
qed simp_all

lemma hits_append:
  "dml_hits hit upd ops (xs @ ys) = map2 (+) (dml_hits hit upd ops xs) (dml_hits hit upd ops ys)"
  by (induction hit upd ops xs arbitrary: ys rule: dml_hits.induct) (auto simp: dml_rows_append)

text \<open>The statements of \<open>ops\<close> at indices from \<open>n\<close>: the counters from \<open>n\<close> on grow by the matches.\<close>

definition add_hits :: "nat \<Rightarrow> nat list \<Rightarrow> nat list \<Rightarrow> nat list" where
  "add_hits n hs by_op = take n by_op @ map2 (+) (drop n by_op) hs"

lemma add_hits_Cons:
  assumes "n < length by_op"
  shows "add_hits n (h # hs) by_op = add_hits (Suc n) hs (by_op[n := by_op ! n + h])"
proof -
  have "drop n by_op = by_op ! n # drop (Suc n) by_op" using assms by (simp add: Cons_nth_drop_Suc)
  then show ?thesis using assms by (simp add: add_hits_def take_Suc_conv_app_nth)
qed

lemma add_hits_0: "n \<le> length by_op \<Longrightarrow> length hs = length by_op - n \<Longrightarrow> \<forall>h\<in>set hs. h = 0 \<Longrightarrow> add_hits n hs by_op = by_op"
proof (induction hs arbitrary: n by_op)
  case (Cons h hs)
  then show ?case using add_hits_Cons [of n by_op h hs] by simp
qed (simp add: add_hits_def)

lemma fold_dml_sound:
  assumes "\<forall>st. TDml st \<in> set ops \<longrightarrow> sql_sound en hit upd columns st"
    and "fold_dml_ops en columns (enumerate n ops) (changed, rows, by_op) = Inr (changed', out, by_op')"
    and "length by_op = n + length ops"
  shows "mset out = mset (dmls hit upd ops rows) \<and> by_op' = add_hits n (dml_hits hit upd ops rows) by_op \<and>
    (changed' \<longleftrightarrow> changed \<or> (\<exists>h\<in>set (dml_hits hit upd ops rows). 0 < h)) \<and> (\<not> changed' \<longrightarrow> out = rows)"
  using assms
proof (induction ops arbitrary: n changed rows by_op)
  case Nil
  then show ?case by (simp add: add_hits_def)
next
  case (Cons op ops)
  show ?case
  proof (cases "is_dml op")
    case False
    then have "fold_dml_ops en columns (enumerate (Suc n) ops) (changed, rows, by_op) = Inr (changed', out, by_op')"
      using Cons.prems(2) by (cases op) (simp_all add: is_dml_def)
    moreover have "dml_hits hit upd (op # ops) rows = 0 # dml_hits hit upd ops rows" "dmls hit upd (op # ops) rows = dmls hit upd ops rows"
      using False by (cases op; simp add: is_dml_def)+
    ultimately show ?thesis using Cons.IH [of "Suc n" changed rows by_op] Cons.prems(1,3) add_hits_Cons [of n by_op 0]
      by simp
  next
    case True
    then obtain st where st: "op = TDml st" by (cases op) (auto simp: is_dml_def)
    then obtain m mid where a: "apply_dml_to_batches en st columns rows = Inr (m, mid)"
      and f: "fold_dml_ops en columns (enumerate (Suc n) ops) (changed \<or> m > 0, mid, by_op[n := by_op ! n + m]) = Inr (changed', out, by_op')"
      using Cons.prems(2) by (auto simp: rbind_Inr_conv)
    have s: "sql_sound en hit upd columns st" using Cons.prems(1) st by simp
    note ap = apply_dml_sound [OF s a]
    have ih: "mset out = mset (dmls hit upd ops mid) \<and> by_op' = add_hits (Suc n) (dml_hits hit upd ops mid) (by_op[n := by_op ! n + m]) \<and>
      (changed' \<longleftrightarrow> (changed \<or> m > 0) \<or> (\<exists>h\<in>set (dml_hits hit upd ops mid). 0 < h)) \<and> (\<not> changed' \<longrightarrow> out = mid)"
      using Cons.IH [OF _ f] Cons.prems(1,3) by simp
    have h: "dml_hits hit upd ops mid = dml_hits hit upd ops (dml_rows hit upd st rows)" using ap by (intro hits_mset) blast
    have d: "mset (dmls hit upd ops mid) = mset (dmls hit upd ops (dml_rows hit upd st rows))" using ap by (intro dmls_mset) blast
    show ?thesis using ih ap h d st Cons.prems(3) by (auto simp: add_hits_Cons)
  qed
qed

section \<open>Files and manifests\<close>

definition live_entry :: "'r manifest_entry \<Rightarrow> 'r list" where
  "live_entry e = (if me_alive e then df_rows (me_file e) else [])"

definition live_manifest :: "'r manifest_file \<Rightarrow> 'r list" where
  "live_manifest mf = concat (map live_entry (mf_entries mf))"

definition live_rows :: "'r lake_snapshot \<Rightarrow> 'r list" where
  "live_rows s = concat (map live_manifest (sp_manifests s))"

text \<open>What the scan has placed so far: rows of kept files, rows for the writer, rows of a fate.\<close>

definition held_rows :: "('r, 'v) scan_acc \<Rightarrow> 'r list" where
  "held_rows acc = concat (map live_manifest (sa_carried acc)) @ concat (map (\<lambda>x. df_rows (fst x)) (sa_existing acc))"

definition written_rows :: "('r, 'v) scan_acc \<Rightarrow> 'r list" where
  "written_rows acc = (case sa_writer acc of None \<Rightarrow> [] | Some w \<Rightarrow> w)"

definition fate_rows :: "'r list \<Rightarrow> 'r file_fate \<Rightarrow> 'r list" where
  "fate_rows rows fate = (case fate of Keep \<Rightarrow> rows | Remove m \<Rightarrow> [] | Rewrite m out \<Rightarrow> out)"

definition kept_part :: "'r manifest_entry \<times> 'r file_fate \<Rightarrow> 'r list" where
  "kept_part x = (if snd x = Keep then df_rows (me_file (fst x)) else [])"

definition new_part :: "'r manifest_entry \<times> 'r file_fate \<Rightarrow> 'r list" where
  "new_part x = (case snd x of Rewrite m out \<Rightarrow> out | _ \<Rightarrow> [])"

lemma fate_parts: "mset (fate_rows (df_rows (me_file (fst x))) (snd x)) = mset (kept_part x) + mset (new_part x)"
  by (simp add: fate_rows_def kept_part_def new_part_def split: file_fate.splits)

lemma add_hits_twice:
  "length h1 = length b \<Longrightarrow> length h2 = length b \<Longrightarrow> add_hits 0 h2 (add_hits 0 h1 b) = add_hits 0 (map2 (+) h1 h2) b"
  by (simp add: add_hits_def list_eq_iff_nth_eq)

lemma hits_none: "\<forall>op\<in>set ops. \<not> is_dml op \<Longrightarrow> \<forall>h\<in>set (dml_hits hit upd ops rows). h = 0"
  by (induction hit upd ops rows rule: dml_hits.induct) (auto simp: is_dml_def)

lemma file_fate_sound:
  assumes "\<forall>st. TDml st \<in> set ops \<longrightarrow> sql_sound en hit upd columns st"
    and "file_fate_of en columns ops rows by_op = Inr (fate, by_op')" "length by_op = length ops"
  shows "mset (fate_rows rows fate) = mset (dmls hit upd ops rows) \<and> by_op' = add_hits 0 (dml_hits hit upd ops rows) by_op \<and>
    (fate = Keep \<longleftrightarrow> (\<forall>h\<in>set (dml_hits hit upd ops rows). h = 0))"
proof (cases "\<exists>op\<in>set ops. is_dml op")
  case True
  then obtain ch out where f: "fold_dml_ops en columns (enumerate 0 ops) (False, rows, by_op) = Inr (ch, out, by_op')"
    "fate = (if \<not> ch then Keep else if out = [] then Remove (length rows) else Rewrite (length rows - length out) out)"
    using assms(2) by (auto simp: file_fate_of_def rbind_Inr_conv)
  show ?thesis using fold_dml_sound [OF assms(1) f(1)] assms(3) f(2) by (auto simp: fate_rows_def)
next
  case False
  then have n: "\<forall>op\<in>set ops. \<not> is_dml op" by blast
  have z: "\<forall>h\<in>set (dml_hits hit upd ops rows). h = 0" using hits_none [OF n] .
  have f: "fate = Keep" "by_op' = by_op" using False assms(2) by (auto simp: file_fate_of_def)
  have "add_hits 0 (dml_hits hit upd ops rows) by_op = by_op" by (rule add_hits_0) (use z assms(3) in simp_all)
  then show ?thesis using f z dmls_none [OF n] by (simp add: fate_rows_def)
qed

text \<open>The key rows of a fate are the keys of its final rows.\<close>

lemma fate_pk_sound:
  assumes "fate_pk pkey columns (Some cols) rows fate = Inr keys"
  shows "keys = map (pkey cols) (fate_rows rows fate)"
  using assms by (auto simp: fate_pk_def fate_rows_def project_columns_def split: file_fate.splits if_splits)

lemma fate_pk_none: "fate_pk pkey columns None rows fate = Inr keys \<Longrightarrow> keys = []"
  by (simp add: fate_pk_def)

text \<open>One relation for every stage of the scan: \<open>rows\<close> have been processed between the two accumulators.\<close>

definition scanned ::
  "(dml_statement \<Rightarrow> 'r \<Rightarrow> bool) \<Rightarrow> (dml_statement \<Rightarrow> 'r \<Rightarrow> 'r) \<Rightarrow> (string list \<Rightarrow> 'r \<Rightarrow> 'v option list) \<Rightarrow> string list option \<Rightarrow>
   'r table_op list \<Rightarrow> 'r list \<Rightarrow> ('r, 'v) scan_acc \<Rightarrow> ('r, 'v) scan_acc \<Rightarrow> bool" where
  "scanned hit upd pkey pk ops rows acc acc' \<longleftrightarrow>
     sa_by_op acc' = add_hits 0 (dml_hits hit upd ops rows) (sa_by_op acc) \<and>
     (\<forall>cols. pk = Some cols \<longrightarrow> mset (sa_pk acc') = mset (sa_pk acc) + image_mset (pkey cols) (mset (dmls hit upd ops rows))) \<and>
     (\<not> sa_changed acc' \<longrightarrow> \<not> sa_changed acc \<and> (\<forall>h\<in>set (dml_hits hit upd ops rows). h = 0) \<and> mset (dmls hit upd ops rows) = mset rows)"

lemma scanned_refl: "length (sa_by_op acc) = length ops \<Longrightarrow> scanned hit upd pkey pk ops [] acc acc"
proof -
  assume l: "length (sa_by_op acc) = length ops"
  have z: "\<forall>h\<in>set (dml_hits hit upd ops []). h = 0"
  proof (induction ops)
    case (Cons op ops)
    then show ?case by (cases op) (simp_all add: dml_rows_def split: dml_kind.splits)
  qed simp
  then have "add_hits 0 (dml_hits hit upd ops []) (sa_by_op acc) = sa_by_op acc" using l by (intro add_hits_0) simp_all
  then show ?thesis using z by (simp add: scanned_def)
qed

lemma scanned_trans:
  assumes "scanned hit upd pkey pk ops r1 a b" "scanned hit upd pkey pk ops r2 b c" "length (sa_by_op a) = length ops"
  shows "scanned hit upd pkey pk ops (r1 @ r2) a c"
  using assms by (auto simp: scanned_def add_hits_twice hits_append dmls_append dest: set_zip_leftD set_zip_rightD)

lemma scanned_by_op: "scanned hit upd pkey pk ops rows a b \<Longrightarrow> length (sa_by_op a) = length ops \<Longrightarrow> length (sa_by_op b) = length ops"
  by (simp add: scanned_def add_hits_def)

text \<open>The entries of one manifest, with the fates they got.\<close>

definition entries_done ::
  "(dml_statement \<Rightarrow> 'r \<Rightarrow> bool) \<Rightarrow> (dml_statement \<Rightarrow> 'r \<Rightarrow> 'r) \<Rightarrow> 'r table_op list \<Rightarrow> 'r list \<Rightarrow>
   ('r manifest_entry \<times> 'r file_fate) list \<Rightarrow> bool \<Rightarrow> bool" where
  "entries_done hit upd ops rows new rw \<longleftrightarrow>
     mset (concat (map kept_part new)) + mset (concat (map new_part new)) = mset (dmls hit upd ops rows) \<and>
     set (concat (map kept_part new)) \<subseteq> set rows \<and>
     (rw \<or> concat (map kept_part new) = rows \<and> concat (map new_part new) = [])"

definition counts_kept :: "('r, 'v) scan_acc \<Rightarrow> ('r, 'v) scan_acc \<Rightarrow> nat \<Rightarrow> bool" where
  "counts_kept acc acc' n \<longleftrightarrow>
     sa_kept_records acc' = sa_kept_records acc + n \<and>
     sa_carried acc' = sa_carried acc \<and> sa_existing acc' = sa_existing acc \<and> sa_writer acc' = sa_writer acc"

lemma entries_done_Cons:
  assumes "entries_done hit upd ops rows new rw'" "mset (fate_rows (df_rows (me_file e)) fate) = mset (dmls hit upd ops (df_rows (me_file e)))"
    and "rw' \<or> fate = Keep"
  shows "entries_done hit upd ops (df_rows (me_file e) @ rows) ((e, fate) # new) rw'"
proof -
  have "mset (kept_part (e, fate)) + mset (new_part (e, fate)) = mset (dmls hit upd ops (df_rows (me_file e)))"
    using fate_parts [of "(e, fate)"] assms(2) by simp
  then show ?thesis using assms(1,3) by (auto simp: entries_done_def dmls_append kept_part_def new_part_def)
qed

lemma scan_entries_sound:
  assumes "\<forall>st. TDml st \<in> set ops \<longrightarrow> sql_sound en hit upd columns st" "storage_sound en"
    and "scan_entries en pkey columns pk ops es (fates, rw, acc) = Inr (fates', rw', acc')" "length (sa_by_op acc) = length ops"
  shows "(rw \<longrightarrow> rw') \<and> scanned hit upd pkey pk ops (concat (map live_entry es)) acc acc' \<and>
    (\<exists>new. fates' = fates @ new \<and> entries_done hit upd ops (concat (map live_entry es)) new rw' \<and>
      counts_kept acc acc' (length (concat (map kept_part new))))"
  using assms(3,4)
proof (induction es arbitrary: fates rw acc)
  case Nil
  then show ?case by (simp add: scanned_refl entries_done_def counts_kept_def)
next
  case (Cons e es)
  show ?case
  proof (cases "me_alive e")
    case False
    then have "scan_entries en pkey columns pk ops es (fates, True, acc) = Inr (fates', rw', acc')" using Cons.prems(1) by simp
    from Cons.IH [OF this Cons.prems(2)] False show ?thesis by (auto simp: live_entry_def)
  next
    case True
    then obtain rows fate by_op keys where r: "en_read en (me_file e) = Inr rows"
      and f: "file_fate_of en columns ops rows (sa_by_op acc) = Inr (fate, by_op)"
      and k: "fate_pk pkey columns pk rows fate = Inr keys"
      and rest: "scan_entries en pkey columns pk ops es (fates @ [(e, fate)], rw \<or> fate \<noteq> Keep,
        note_fate e fate (acc\<lparr>sa_by_op := by_op, sa_pk := sa_pk acc @ keys\<rparr>)) = Inr (fates', rw', acc')"
      using Cons.prems(1) by (auto simp: rbind_Inr_conv)
    let ?acc = "note_fate e fate (acc\<lparr>sa_by_op := by_op, sa_pk := sa_pk acc @ keys\<rparr>)"
    have rows: "rows = df_rows (me_file e)" "live_entry e = rows" using r assms(2) True by (auto simp: storage_sound_def live_entry_def)
    note fs = file_fate_sound [OF assms(1) f Cons.prems(2)]
    have same: "sa_by_op ?acc = by_op" "sa_pk ?acc = sa_pk acc @ keys" "sa_changed ?acc \<longleftrightarrow> sa_changed acc \<or> fate \<noteq> Keep"
      "counts_kept acc ?acc (length (kept_part (e, fate)))"
      by (cases fate; simp add: note_fate_def kept_part_def df_record_count_def counts_kept_def)+
    have keys: "mset keys = image_mset (pkey cols) (mset (dmls hit upd ops rows))" if "pk = Some cols" for cols
      using fate_pk_sound [of pkey columns cols rows fate keys] k that fs by simp
    have sc: "scanned hit upd pkey pk ops rows acc ?acc"
      unfolding scanned_def same using fs keys by (auto simp: fate_rows_def)
    have l: "length (sa_by_op ?acc) = length ops" using scanned_by_op [OF sc Cons.prems(2)] .
    note ih = Cons.IH [OF rest l]
    then obtain new where new: "fates' = (fates @ [(e, fate)]) @ new" "entries_done hit upd ops (concat (map live_entry es)) new rw'"
      "counts_kept ?acc acc' (length (concat (map kept_part new)))" by blast
    have rw: "rw \<longrightarrow> rw'" "rw' \<or> fate = Keep" using ih by blast+
    have "entries_done hit upd ops (concat (map live_entry (e # es))) ((e, fate) # new) rw'"
      using entries_done_Cons [OF new(2) _ rw(2), of e] fs rows by simp
    moreover have "counts_kept acc acc' (length (concat (map kept_part ((e, fate) # new))))"
      using same(4) new(3) by (simp add: counts_kept_def)
    moreover have "scanned hit upd pkey pk ops (concat (map live_entry (e # es))) acc acc'"
      using scanned_trans [OF sc conjunct1 [OF conjunct2 [OF ih]] Cons.prems(2)] rows(2) by simp
    ultimately show ?thesis using new(1) rw(1) by (intro conjI exI [of _ "(e, fate) # new"]) simp_all
  qed
qed

lemma written_write [simp]: "written_rows (write_rows rows acc) = written_rows acc @ rows"
  by (simp add: written_rows_def write_rows_def split: option.split)

text \<open>Placing fates adds the kept files to the manifest of existing files and the new rows to the writer.\<close>

lemma place_fates_sound:
  assumes "place_fates en columns mf xs acc = Inr acc'"
  shows "mset (held_rows acc') = mset (held_rows acc) + mset (concat (map kept_part xs)) \<and>
    written_rows acc' = written_rows acc @ map (fit en) (concat (map new_part xs)) \<and>
    sa_by_op acc' = sa_by_op acc \<and> sa_pk acc' = sa_pk acc \<and> sa_changed acc' = sa_changed acc \<and> sa_kept_records acc' = sa_kept_records acc"
  using assms
proof (induction xs arbitrary: acc)
  case (Cons x xs)
  then obtain acc1 where p: "place_fate en columns mf x acc = Inr acc1" "place_fates en columns mf xs acc1 = Inr acc'"
    by (auto simp: rbind_Inr_conv)
  have "mset (held_rows acc1) = mset (held_rows acc) + mset (kept_part x)" "written_rows acc1 = written_rows acc @ map (fit en) (new_part x)"
    "sa_by_op acc1 = sa_by_op acc" "sa_pk acc1 = sa_pk acc" "sa_changed acc1 = sa_changed acc" "sa_kept_records acc1 = sa_kept_records acc"
    using p(1)
    by (auto simp: place_fate_def rbind_Inr_conv dest!: align_batch_fit simp: held_rows_def written_rows_def kept_part_def new_part_def write_rows_def
        Let_def split: file_fate.splits option.splits)
  then show ?case using Cons.IH [OF p(2)] by simp
qed simp

text \<open>Kept and written rows between two accumulators, with the exact record count of the kept ones.\<close>

definition placed :: "('r, 'v) scan_acc \<Rightarrow> ('r, 'v) scan_acc \<Rightarrow> 'r multiset \<Rightarrow> bool" where
  "placed acc acc' M \<longleftrightarrow>
     mset (held_rows acc') + mset (written_rows acc') = mset (held_rows acc) + mset (written_rows acc) + M \<and>
     sa_kept_records acc' + length (held_rows acc) = sa_kept_records acc + length (held_rows acc')"

lemma placed_trans: "placed a b M \<Longrightarrow> placed b c N \<Longrightarrow> placed a c (M + N)"
  by (auto simp: placed_def)

lemma scan_manifest_sound:
  assumes "typed en (live_manifest mf)" "counts_kept acc acc1 (length (concat (map kept_part new)))"
    and "entries_done hit upd ops (live_manifest mf) new rw"
    and "(if rw then place_fates en columns mf new acc1 else Inr (acc1\<lparr>sa_carried := sa_carried acc1 @ [mf]\<rparr>)) = Inr acc2"
    and "scanned hit upd pkey pk ops rows acc acc1"
  shows "placed acc acc2 (image_mset (fit en) (mset (dmls hit upd ops (live_manifest mf)))) \<and> scanned hit upd pkey pk ops rows acc acc2"
proof (cases rw)
  case True
  then have p: "place_fates en columns mf new acc1 = Inr acc2" using assms(4) by simp
  have h: "held_rows acc1 = held_rows acc" "written_rows acc1 = written_rows acc" using assms(2) by (simp_all add: counts_kept_def held_rows_def written_rows_def)
  note pf = place_fates_sound [OF p]
  have "typed en (concat (map kept_part new))" using assms(1,3) unfolding typed_def entries_done_def by blast
  then have k: "image_mset (fit en) (mset (dmls hit upd ops (live_manifest mf))) =
      mset (concat (map kept_part new)) + image_mset (fit en) (mset (concat (map new_part new)))"
    using assms(3) unfolding entries_done_def by (metis image_mset_union typed_fit)
  have "length (held_rows acc2) = length (held_rows acc) + length (concat (map kept_part new))"
    using arg_cong [OF conjunct1 [OF pf], of size] h by simp
  then have "placed acc acc2 (image_mset (fit en) (mset (dmls hit upd ops (live_manifest mf))))"
    unfolding k using pf h assms(2) by (auto simp: placed_def counts_kept_def)
  then show ?thesis using pf assms(5) by (simp add: scanned_def)
next
  case False
  have k: "concat (map kept_part new) = live_manifest mf" "concat (map new_part new) = []"
    and e: "mset (concat (map kept_part new)) + mset (concat (map new_part new)) = mset (dmls hit upd ops (live_manifest mf))"
    using assms(3) False unfolding entries_done_def by blast+
  have d: "image_mset (fit en) (mset (dmls hit upd ops (live_manifest mf))) = mset (live_manifest mf)"
    using e typed_fit [OF assms(1)] unfolding k by simp
  have "acc2 = acc1\<lparr>sa_carried := sa_carried acc1 @ [mf]\<rparr>" using assms(4) False by simp
  then show ?thesis using assms(2,5) d k(1) by (simp add: placed_def scanned_def counts_kept_def held_rows_def written_rows_def)
qed

lemma scan_manifests_sound:
  assumes "\<forall>st. TDml st \<in> set ops \<longrightarrow> sql_sound en hit upd columns st" "storage_sound en"
    and "scan_manifests en pkey columns pk ops mfs acc = Inr acc'" "length (sa_by_op acc) = length ops"
    and "typed en (concat (map live_manifest mfs))"
  shows "placed acc acc' (image_mset (fit en) (mset (dmls hit upd ops (concat (map live_manifest mfs))))) \<and>
    scanned hit upd pkey pk ops (concat (map live_manifest mfs)) acc acc'"
  using assms(3-5)
proof (induction mfs arbitrary: acc)
  case Nil
  then show ?case by (simp add: placed_def scanned_refl)
next
  case (Cons mf mfs)
  then obtain fates rw acc1 acc2 where e: "scan_entries en pkey columns pk ops (mf_entries mf) ([], False, acc) = Inr (fates, rw, acc1)"
    and p: "(if rw then place_fates en columns mf fates acc1 else Inr (acc1\<lparr>sa_carried := sa_carried acc1 @ [mf]\<rparr>)) = Inr acc2"
    and r: "scan_manifests en pkey columns pk ops mfs acc2 = Inr acc'"
    by (auto simp: rbind_Inr_conv)
  from scan_entries_sound [OF assms(1,2) e Cons.prems(2)]
  have s: "scanned hit upd pkey pk ops (live_manifest mf) acc acc1" and d: "entries_done hit upd ops (live_manifest mf) fates rw"
    and c: "counts_kept acc acc1 (length (concat (map kept_part fates)))" by (simp_all add: live_manifest_def)
  have ty: "typed en (live_manifest mf)" "typed en (concat (map live_manifest mfs))" using Cons.prems(3) by (auto simp: typed_def)
  have m: "placed acc acc2 (image_mset (fit en) (mset (dmls hit upd ops (live_manifest mf))))" "scanned hit upd pkey pk ops (live_manifest mf) acc acc2"
    using scan_manifest_sound [OF ty(1) c d p s] by blast+
  have l: "length (sa_by_op acc2) = length ops" using scanned_by_op [OF m(2) Cons.prems(2)] .
  show ?case using Cons.IH [OF r l ty(2)] placed_trans [OF m(1)] scanned_trans [OF m(2) _ Cons.prems(2)] by (simp add: dmls_append)
qed

section \<open>Appends\<close>

fun app_rows :: "(dml_statement \<Rightarrow> 'r \<Rightarrow> bool) \<Rightarrow> (dml_statement \<Rightarrow> 'r \<Rightarrow> 'r) \<Rightarrow> 'r table_op list \<Rightarrow> 'r list" where
  "app_rows hit upd [] = []"
| "app_rows hit upd (TAppend rs # ops) = dmls hit upd ops rs @ app_rows hit upd ops"
| "app_rows hit upd (op # ops) = app_rows hit upd ops"

text \<open>Sequential execution splits into the statements over the old rows and over each append.\<close>

lemma ops_rows_split:
  "files_last ops \<Longrightarrow> mset (ops_rows hit upd ops rows) =
     mset (dmls hit upd ops rows) + mset (app_rows hit upd ops) + mset (concat (map df_rows (prewritten ops)))"
proof (induction ops arbitrary: rows)
  case (Cons op ops)
  show ?case
  proof (cases op)
    case (TAppendFiles fs)
    then have n: "\<forall>op\<in>set ops. \<not> is_dml op" "files_last ops" using Cons.prems by auto
    show ?thesis using Cons.IH [OF n(2)] TAppendFiles
      by (simp add: dmls_none [OF n(1)] prewritten_def op_files_def)
  qed (use Cons in \<open>simp_all add: dmls_append prewritten_def op_files_def\<close>)
qed (simp add: prewritten_def)

text \<open>The counters without the files, which are noted at the end.\<close>

fun ops_counts :: "(dml_statement \<Rightarrow> 'r \<Rightarrow> bool) \<Rightarrow> (dml_statement \<Rightarrow> 'r \<Rightarrow> 'r) \<Rightarrow> 'r table_op list \<Rightarrow> 'r list \<Rightarrow> nat list" where
  "ops_counts hit upd [] rows = []"
| "ops_counts hit upd (TAppend rs # ops) rows = length rs # ops_counts hit upd ops (rows @ rs)"
| "ops_counts hit upd (TAppendFiles fs # ops) rows = 0 # ops_counts hit upd ops (rows @ concat (map df_rows fs))"
| "ops_counts hit upd (TDml st # ops) rows = length (filter (hit st) rows) # ops_counts hit upd ops (dml_rows hit upd st rows)"

lemma ops_counts_length [simp]: "length (ops_counts hit upd ops rows) = length ops"
  by (induction hit upd ops rows rule: ops_counts.induct) auto

lemma hits_replicate: "\<forall>op\<in>set ops. \<not> is_dml op \<Longrightarrow> dml_hits hit upd ops rows = replicate (length ops) 0"
  by (induction hit upd ops rows rule: dml_hits.induct) (auto simp: is_dml_def)

lemma record_count_eta: "df_record_count = (\<lambda>f. length (df_rows f))"
  by (auto simp: df_record_count_def)

lemma counts_suffix:
  assumes "take (Suc n) b' = take (Suc n) b" "drop (Suc n) b' = xs" "n < length b"
  shows "take n b' = take n b \<and> drop n b' = b ! n # xs"
proof -
  have l: "n < length b'" using arg_cong [OF assms(1), of length] assms(3) by (simp add: min_def split: if_splits)
  have "take n b' = take n b" using arg_cong [OF assms(1), of "take n"] by (simp add: min_def)
  moreover have "b' ! n = b ! n" using arg_cong [OF assms(1), of "\<lambda>ys. ys ! n"] assms(3) l by simp
  ultimately show ?thesis using l assms(2) by (simp add: Cons_nth_drop_Suc [symmetric])
qed

lemma note_files_counts:
  assumes "length by_op = n + length ops" "drop n by_op = ops_counts hit upd ops rows"
  shows "take n (note_files (enumerate n ops) by_op) = take n by_op \<and> drop n (note_files (enumerate n ops) by_op) = ops_matched hit upd ops rows"
  using assms
proof (induction ops arbitrary: n by_op rows)
  case (Cons op ops)
  have d: "drop n by_op = by_op ! n # drop (Suc n) by_op" using Cons.prems(1) by (simp add: Cons_nth_drop_Suc)
  let ?v = "case op of TAppendFiles fs \<Rightarrow> sum_list (map df_record_count fs) | _ \<Rightarrow> by_op ! n"
  let ?b = "by_op[n := ?v]" and ?rest = "case op of TAppend rs \<Rightarrow> rows @ rs | TAppendFiles fs \<Rightarrow> rows @ concat (map df_rows fs) | TDml st \<Rightarrow> dml_rows hit upd st rows"
  have nf: "note_files (enumerate n (op # ops)) by_op = note_files (enumerate (Suc n) ops) ?b"
    by (cases op) simp_all
  have "drop (Suc n) ?b = ops_counts hit upd ops ?rest" using Cons.prems(2) d by (cases op) simp_all
  then have ih: "take (Suc n) (note_files (enumerate (Suc n) ops) ?b) = take (Suc n) ?b"
    "drop (Suc n) (note_files (enumerate (Suc n) ops) ?b) = ops_matched hit upd ops ?rest"
    using Cons.IH [of ?b "Suc n" ?rest] Cons.prems(1) by auto
  have t: "take n (note_files (enumerate (Suc n) ops) ?b) = take n by_op"
    and "drop n (note_files (enumerate (Suc n) ops) ?b) = ?v # ops_matched hit upd ops ?rest"
    using counts_suffix [OF ih] Cons.prems(1) by simp_all
  moreover have "ops_matched hit upd (op # ops) rows = ?v # ops_matched hit upd ops ?rest"
    using Cons.prems(2) d by (cases op) (simp_all add: record_count_eta length_concat comp_def)
  ultimately show ?case using nf t by simp
qed simp

lemma hits_Cons_other: "\<not> is_dml op \<Longrightarrow> dml_hits hit upd (op # ops) rows = 0 # dml_hits hit upd ops rows"
  by (cases op) (simp_all add: is_dml_def)

lemma add_hits_suffix:
  "length by_op = n + length hs \<Longrightarrow> take n (add_hits n hs by_op) = take n by_op \<and> drop n (add_hits n hs by_op) = map2 (+) (drop n by_op) hs"
  by (simp add: add_hits_def)

text \<open>One append: its rows go through the statements behind it and, when some remain, to the writer.\<close>

definition wrote :: "(string list \<Rightarrow> 'r \<Rightarrow> 'v option list) \<Rightarrow> string list option \<Rightarrow> 'r multiset \<Rightarrow> ('r, 'v) scan_acc \<Rightarrow> ('r, 'v) scan_acc \<Rightarrow> bool" where
  "wrote pkey pk M acc acc' \<longleftrightarrow>
     held_rows acc' = held_rows acc \<and> sa_changed acc' = sa_changed acc \<and> sa_kept_records acc' = sa_kept_records acc \<and>
     mset (written_rows acc') = mset (written_rows acc) + M \<and>
     sa_carried acc' = sa_carried acc \<and> sa_existing acc' = sa_existing acc \<and> sa_deleted acc' = sa_deleted acc \<and>
     (\<forall>cols. pk = Some cols \<longrightarrow> mset (sa_pk acc') = mset (sa_pk acc) + image_mset (pkey cols) M)"

lemma wrote_trans: "wrote pkey pk M a b \<Longrightarrow> wrote pkey pk N b c \<Longrightarrow> wrote pkey pk (M + N) a c"
  by (simp add: wrote_def)

lemma wrote_by_op: "wrote pkey pk {#} acc (acc\<lparr>sa_by_op := b\<rparr>)"
  by (simp add: wrote_def held_rows_def written_rows_def)

lemma wrote_rows:
  "(\<forall>cols. pk = Some cols \<longrightarrow> keys = map (pkey cols) out) \<Longrightarrow>
   wrote pkey pk (mset out) acc (write_rows out (acc\<lparr>sa_by_op := b, sa_pk := sa_pk acc @ keys\<rparr>))"
  by (auto simp: wrote_def held_rows_def written_rows_def write_rows_def split: option.split)

lemma append_one:
  assumes "fold_appends en pkey columns pk (enumerate n (TAppend rs # ops)) (m, acc) = Inr st"
  obtains ch out by_op acc1 where
    "fold_dml_ops en columns (enumerate (Suc n) ops) (False, rs, (sa_by_op acc)[n := length rs]) = Inr (ch, out, by_op)"
    "fold_appends en pkey columns pk (enumerate (Suc n) ops) (m + length out, acc1) = Inr st"
    "wrote pkey pk (image_mset (fit en) (mset out)) acc acc1" "sa_by_op acc1 = by_op"
proof -
  obtain ch out by_op where fd: "fold_dml_ops en columns (enumerate (Suc n) ops) (False, rs, (sa_by_op acc)[n := length rs]) = Inr (ch, out, by_op)"
    using assms by (auto simp: rbind_Inr_conv)
  show thesis
  proof (cases "out = []")
    case True
    then show thesis using that [OF fd, of "acc\<lparr>sa_by_op := by_op\<rparr>"] assms fd wrote_by_op [of pkey pk acc by_op] by (simp add: Let_def)
  next
    case False
    then obtain aligned keys where al: "align_batch en columns out = Inr aligned"
      "(case pk of None \<Rightarrow> Inr [] | Some cols \<Rightarrow> project_columns pkey columns cols aligned) = Inr keys"
      "fold_appends en pkey columns pk (enumerate (Suc n) ops)
         (m + length out, write_rows aligned (acc\<lparr>sa_by_op := by_op, sa_pk := sa_pk acc @ keys\<rparr>)) = Inr st"
      using assms fd by (auto simp: rbind_Inr_conv Let_def)
    have o: "mset aligned = image_mset (fit en) (mset out)" using align_batch_fit [OF al(1)] by simp
    have k: "\<forall>cols. pk = Some cols \<longrightarrow> keys = map (pkey cols) aligned"
      using al(2) by (auto simp: project_columns_def split: if_splits)
    show thesis using that [OF fd al(3)] wrote_rows [OF k] unfolding o by (simp add: write_rows_def)
  qed
qed

lemma fold_appends_sound:
  assumes "\<forall>st. TDml st \<in> set ops \<longrightarrow> sql_sound en hit upd columns st"
    and "fold_appends en pkey columns pk (enumerate n ops) (m, acc) = Inr (m', acc')" "length (sa_by_op acc) = n + length ops"
    and "drop n (sa_by_op acc) = dml_hits hit upd ops R" "files_last ops"
  shows "m' = m + length (app_rows hit upd ops) \<and> wrote pkey pk (image_mset (fit en) (mset (app_rows hit upd ops))) acc acc' \<and>
    take n (sa_by_op acc') = take n (sa_by_op acc) \<and> drop n (sa_by_op acc') = ops_counts hit upd ops R"
  using assms
proof (induction ops arbitrary: n m acc R)
  case Nil
  then show ?case by (simp add: wrote_def)
next
  case (Cons op ops)
  have sqs: "\<forall>st. TDml st \<in> set ops \<longrightarrow> sql_sound en hit upd columns st" using Cons.prems(1) by simp
  have d: "drop n (sa_by_op acc) = sa_by_op acc ! n # drop (Suc n) (sa_by_op acc)"
    using Cons.prems(3) by (simp add: Cons_nth_drop_Suc)
  have fl: "files_last ops" using Cons.prems(5) by (cases op) simp_all
  have skip: ?case if f: "fold_appends en pkey columns pk (enumerate (Suc n) ops) (m, acc) = Inr (m', acc')"
    and r: "drop (Suc n) (sa_by_op acc) = dml_hits hit upd ops R'" "ops_counts hit upd (op # ops) R = sa_by_op acc ! n # ops_counts hit upd ops R'"
    and a: "app_rows hit upd (op # ops) = app_rows hit upd ops" for R'
    using Cons.IH [OF sqs f _ r(1) fl] Cons.prems(3) r(2) a counts_suffix [of n "sa_by_op acc'" "sa_by_op acc"] by simp
  show ?case
  proof (cases op)
    case (TDml st)
    show ?thesis by (rule skip [of "dml_rows hit upd st R"]) (use Cons.prems(2,4) d TDml in simp_all)
  next
    case (TAppendFiles fs)
    then have nd: "\<forall>op\<in>set ops. \<not> is_dml op" using Cons.prems(5) by simp
    show ?thesis
      by (rule skip [of "R @ concat (map df_rows fs)"]) (use Cons.prems(2,4) d TAppendFiles in \<open>simp_all add: hits_replicate [OF nd]\<close>)
  next
    case (TAppend rs)
    let ?b = "(sa_by_op acc)[n := length rs]"
    obtain ch out by_op acc1 where fd: "fold_dml_ops en columns (enumerate (Suc n) ops) (False, rs, ?b) = Inr (ch, out, by_op)"
      and f: "fold_appends en pkey columns pk (enumerate (Suc n) ops) (m + length out, acc1) = Inr (m', acc')"
      and w: "wrote pkey pk (image_mset (fit en) (mset out)) acc acc1" and b1: "sa_by_op acc1 = by_op"
      using append_one [of en pkey columns pk n rs ops m acc] Cons.prems(2) TAppend by blast
    have out: "mset out = mset (dmls hit upd ops rs)" and by_op: "by_op = add_hits (Suc n) (dml_hits hit upd ops rs) ?b"
      using fold_dml_sound [OF sqs fd] Cons.prems(3) by simp_all
    have sb: "length by_op = Suc n + length ops" "take (Suc n) by_op = take (Suc n) ?b" "drop (Suc n) by_op = dml_hits hit upd ops (R @ rs)"
      using add_hits_suffix [of ?b "Suc n" "dml_hits hit upd ops rs"] Cons.prems(3,4) d TAppend by_op
      by (simp_all add: hits_append add_hits_def)
    have ih: "m' = m + length out + length (app_rows hit upd ops) \<and> wrote pkey pk (image_mset (fit en) (mset (app_rows hit upd ops))) acc1 acc' \<and>
      take (Suc n) (sa_by_op acc') = take (Suc n) (sa_by_op acc1) \<and> drop (Suc n) (sa_by_op acc') = ops_counts hit upd ops (R @ rs)"
      by (rule Cons.IH [OF sqs f _ _ fl]) (use sb b1 in simp_all)
    have "length out = length (dmls hit upd ops rs)" using arg_cong [OF out, of size] by simp
    moreover have "take n (sa_by_op acc') = take n ?b \<and> drop n (sa_by_op acc') = ?b ! n # ops_counts hit upd ops (R @ rs)"
      by (rule counts_suffix) (use ih sb(2) b1 Cons.prems(3) in simp_all)
    ultimately show ?thesis using ih wrote_trans [OF w] out TAppend Cons.prems(3) by simp
  qed
qed

section \<open>The commit\<close>

definition head_rows :: "'r lake_snapshot option \<Rightarrow> 'r list" where
  "head_rows head = (case head of None \<Rightarrow> [] | Some s \<Rightarrow> live_rows s)"

lemma hits_Nil: "dml_hits hit upd ops [] = replicate (length ops) 0"
proof (induction ops)
  case (Cons op ops)
  then show ?case by (cases op) (simp_all add: dml_rows_def split: dml_kind.splits)
qed simp

lemma add_hits_zero: "length hs = n \<Longrightarrow> add_hits 0 hs (replicate n 0) = hs"
  by (simp add: add_hits_def list_eq_iff_nth_eq)

text \<open>After the scan of the head (when there is one): its rows through all the statements.\<close>

lemma head_scan_sound:
  assumes "\<forall>st. TDml st \<in> set ops \<longrightarrow> sql_sound en hit upd columns st" "storage_sound en"
    and "scan_head en pkey columns pk ops need head = Inr acc"
    and "\<not> need \<longrightarrow> (\<forall>op\<in>set ops. \<not> is_dml op) \<and> pk = None" "typed en (head_rows head)"
  shows "sa_by_op acc = dml_hits hit upd ops (head_rows head) \<and>
    mset (held_rows acc) + mset (written_rows acc) = (if need then image_mset (fit en) (mset (dmls hit upd ops (head_rows head))) else {#}) \<and>
    sa_kept_records acc = length (held_rows acc) \<and>
    (\<forall>cols. pk = Some cols \<longrightarrow> mset (sa_pk acc) = image_mset (pkey cols) (mset (dmls hit upd ops (head_rows head)))) \<and>
    (\<not> sa_changed acc \<longrightarrow> mset (dmls hit upd ops (head_rows head)) = mset (head_rows head))"
proof (cases "need \<and> head \<noteq> None")
  case True
  let ?n = "scan_acc_new (length ops) :: ('a, 'b) scan_acc"
  have new: "held_rows ?n = []" "written_rows ?n = []" "sa_by_op ?n = replicate (length ops) 0" "sa_pk ?n = []" "sa_kept_records ?n = 0"
    by (simp_all add: scan_acc_new_def held_rows_def written_rows_def)
  obtain s where s: "head = Some s" "scan_manifests en pkey columns pk ops (sp_manifests s) ?n = Inr acc"
    using assms(3) True by (auto simp: scan_head_def rbind_Inr_conv load_manifest_list_def split: if_splits)
  from scan_manifests_sound [OF assms(1,2) s(2)] new True s(1) assms(5) show ?thesis
    by (simp add: placed_def scanned_def head_rows_def live_rows_def [symmetric] add_hits_zero)
next
  case False
  then have a: "acc = scan_acc_new (length ops)" using assms(3) by (auto simp: scan_head_def split: option.splits)
  have "dml_hits hit upd ops (head_rows head) = replicate (length ops) 0 \<and>
    mset (dmls hit upd ops (head_rows head)) = mset (head_rows head) \<and> (need \<longrightarrow> head_rows head = []) \<and> (pk \<noteq> None \<longrightarrow> head_rows head = [])"
  proof (cases need)
    case True
    then have "head_rows head = []" using False by (simp add: head_rows_def)
    then show ?thesis by (simp add: hits_Nil)
  next
    case no: False
    then show ?thesis using assms(4) by (simp add: hits_replicate dmls_none)
  qed
  then show ?thesis by (auto simp: a scan_acc_new_def held_rows_def written_rows_def)
qed

lemma live_m0: "concat (map live_manifest (m0_manifest sid acc)) = concat (map (\<lambda>x. df_rows (fst x)) (sa_existing acc))"
  by (auto simp: m0_manifest_def live_manifest_def live_entry_def comp_def case_prod_beta)

lemma live_m1: "concat (map live_manifest (m1_manifest sid added)) = concat (map df_rows added)"
  by (auto simp: m1_manifest_def live_manifest_def live_entry_def comp_def)

lemma produced_rows:
  assumes "storage_sound en" "produce_snapshot en sid ident tm branch head need ops props acc = Inr pc"
  shows "\<exists>new. pc_request pc = snapshot_request ident (tm_uuid tm) branch (map_option sp_id head) new props \<and>
    mset (live_rows new) =
      mset (held_rows acc) + mset (written_rows acc) + mset (concat (map df_rows (prewritten ops))) + (if need then {#} else mset (head_rows head)) \<and>
    pc_rows_by_op pc = note_files (enumerate 0 ops) (sa_by_op acc) \<and> sp_parent new = map_option sp_id head \<and>
    sp_id new = sid \<and> pc_snapshot_id pc = sid \<and>
    (need \<longrightarrow> (\<exists>n size. su_totals (sp_summary new) =
      Some (n, sa_kept_records acc + length (written_rows acc) + length (concat (map df_rows (prewritten ops))), size)))"
proof -
  obtain files carried where f: "(case sa_writer acc of None \<Rightarrow> Inr [] | Some rows \<Rightarrow> en_close en rows) = Inr files"
    and c: "(case head of Some s \<Rightarrow> (if need then Inr [] else load_manifest_list en s) | None \<Rightarrow> Inr []) = Inr carried"
    and pc: "pc = \<lparr>pc_request =
              snapshot_request ident (tm_uuid tm) branch (map_option sp_id head)
                \<lparr>sp_id = sid, sp_parent = map_option sp_id head, sp_seq = tm_next_seq tm, sp_timestamp = en_now en,
                 sp_manifests = sa_carried acc @ carried @ m0_manifest sid acc @ m1_manifest sid (files @ prewritten ops),
                 sp_summary = commit_summary need acc (files @ prewritten ops)\<rparr>
                props,
            pc_rows_by_op = note_files (enumerate 0 ops) (sa_by_op acc),
            pc_snapshot_id = sid\<rparr>"
    using assms(2) by (auto simp: produce_snapshot_def rbind_Inr_conv Let_def)
  let ?new = "\<lparr>sp_id = sid, sp_parent = map_option sp_id head, sp_seq = tm_next_seq tm, sp_timestamp = en_now en,
                 sp_manifests = sa_carried acc @ carried @ m0_manifest sid acc @ m1_manifest sid (files @ prewritten ops),
                 sp_summary = commit_summary need acc (files @ prewritten ops)\<rparr>"
  have w: "mset (concat (map df_rows files)) = mset (written_rows acc)"
    using f assms(1) by (auto simp: written_rows_def storage_sound_def split: option.splits)
  have ca: "concat (map live_manifest carried) = (if need then [] else head_rows head)"
    using c by (auto simp: head_rows_def live_rows_def load_manifest_list_def rbind_Inr_conv split: option.splits if_splits)
  have "live_rows ?new = concat (map live_manifest (sa_carried acc)) @ (if need then [] else head_rows head) @
      concat (map (\<lambda>x. df_rows (fst x)) (sa_existing acc)) @ concat (map df_rows files) @ concat (map df_rows (prewritten ops))"
    by (simp add: live_rows_def ca live_m0 live_m1)
  then have "mset (live_rows ?new) =
      mset (held_rows acc) + mset (written_rows acc) + mset (concat (map df_rows (prewritten ops))) + (if need then {#} else mset (head_rows head))"
    using w by (simp add: held_rows_def)
  moreover have "su_totals (commit_summary need acc (files @ prewritten ops)) =
      Some (sa_kept_files acc + length (files @ prewritten ops),
        sa_kept_records acc + length (written_rows acc) + length (concat (map df_rows (prewritten ops))),
        sa_kept_bytes acc + sum_list (map df_size (files @ prewritten ops)))" if need
    using arg_cong [OF w, of size] that by (simp add: commit_summary_def Let_def record_count_eta length_concat comp_def)
  ultimately show ?thesis by (intro exI [of _ ?new]) (simp add: pc)
qed

lemma check_pk_keys:
  assumes "check_pk keys = Inr ()" "mset keys = mset (map f rows)"
  shows "distinct (map f rows) \<and> (\<forall>x\<in>set rows. None \<notin> set (f x))"
proof -
  have "distinct keys" "\<forall>k\<in>set keys. None \<notin> set k" using assms(1) by (auto simp: check_pk_def split: if_splits)
  then show ?thesis using assms(2) mset_eq_imp_distinct_iff [OF assms(2)] mset_eq_setD [OF assms(2)] by auto
qed

text \<open>What the stages before the snapshot leave, against the sequential execution.\<close>

lemma prepare_stages:
  assumes "\<forall>st. TDml st \<in> set ops \<longrightarrow> sql_sound en hit upd (tm_columns tm) st" "storage_sound en" "files_last ops"
    and "scan_head en pkey (tm_columns tm) pk ops need head = Inr acc" "need = ((\<exists>op\<in>set ops. is_dml op) \<or> pk \<noteq> None)"
    and "fold_appends en pkey (tm_columns tm) pk (enumerate 0 ops) (0, acc) = Inr (n, acc1)"
    and "typed en (head_rows head)" "typed en (concat (map df_rows (prewritten ops)))"
  shows "n = length (app_rows hit upd ops) \<and> sa_by_op acc1 = ops_counts hit upd ops (head_rows head) \<and>
    mset (held_rows acc1) + mset (written_rows acc1) + mset (concat (map df_rows (prewritten ops))) + (if need then {#} else mset (head_rows head)) =
      image_mset (fit en) (mset (ops_rows hit upd ops (head_rows head))) \<and>
    sa_kept_records acc1 = length (held_rows acc1) \<and>
    (\<forall>cols. pk = Some cols \<longrightarrow> mset (sa_pk acc1) =
       image_mset (pkey cols) (mset (dmls hit upd ops (head_rows head)) + image_mset (fit en) (mset (app_rows hit upd ops)))) \<and>
    (\<not> sa_changed acc1 \<longrightarrow> mset (dmls hit upd ops (head_rows head)) = mset (head_rows head))"
proof -
  let ?R = "head_rows head" and ?f = "image_mset (fit en)" and ?pre = "mset (concat (map df_rows (prewritten ops)))"
  have hs: "sa_by_op acc = dml_hits hit upd ops ?R"
    "mset (held_rows acc) + mset (written_rows acc) = (if need then ?f (mset (dmls hit upd ops ?R)) else {#})"
    "sa_kept_records acc = length (held_rows acc)"
    "\<forall>cols. pk = Some cols \<longrightarrow> mset (sa_pk acc) = image_mset (pkey cols) (mset (dmls hit upd ops ?R))"
    "\<not> sa_changed acc \<longrightarrow> mset (dmls hit upd ops ?R) = mset ?R"
    using head_scan_sound [OF assms(1,2,4) _ assms(7)] assms(5) by blast+
  have fs: "n = length (app_rows hit upd ops)" "wrote pkey pk (?f (mset (app_rows hit upd ops))) acc acc1" "sa_by_op acc1 = ops_counts hit upd ops ?R"
    using fold_appends_sound [OF assms(1,6), of ?R] assms(3) hs(1) by simp_all
  have "\<not> need \<longrightarrow> dmls hit upd ops ?R = ?R" using assms(5) dmls_none by blast
  then have "mset (held_rows acc) + mset (written_rows acc) + (if need then {#} else mset ?R) = ?f (mset (dmls hit upd ops ?R))"
    using hs(2) typed_fit [OF assms(7)] by simp
  moreover have "mset (held_rows acc1) + mset (written_rows acc1) + ?pre + (if need then {#} else mset ?R) =
      mset (held_rows acc) + mset (written_rows acc) + (if need then {#} else mset ?R) + ?f (mset (app_rows hit upd ops)) + ?pre"
    using fs(2) by (simp add: wrote_def)
  ultimately have "mset (held_rows acc1) + mset (written_rows acc1) + ?pre + (if need then {#} else mset ?R) = ?f (mset (ops_rows hit upd ops ?R))"
    unfolding ops_rows_split [OF assms(3), of hit upd ?R] image_mset_union typed_fit [OF assms(8)] by simp
  moreover have "mset (sa_pk acc1) = image_mset (pkey cols) (mset (dmls hit upd ops ?R) + ?f (mset (app_rows hit upd ops)))"
    if "pk = Some cols" for cols using that hs(4) fs(2) by (simp add: wrote_def)
  ultimately show ?thesis using fs hs(3,5) by (auto simp: wrote_def)
qed

text \<open>
  A prepared commit holds exactly the rows of the sequential execution, cast to the table's types,
  counts exactly what every statement matched, and asserts that the branch still points at the head
  it read; when nothing is prepared, the operations change nothing.  The key check reads the rows a
  statement rewrote before they are cast, so its verdict is about the committed rows only when the
  casts keep the keys of those rows.
\<close>

lemma prepare_commit_sound:
  assumes "\<forall>st. TDml st \<in> set ops \<longrightarrow> sql_sound en hit upd (tm_columns tm) st" "storage_sound en" "files_last ops"
    and "\<forall>head. branch_head tm branch = Inr head \<longrightarrow> typed en (head_rows head)" "typed en (concat (map df_rows (prewritten ops)))"
    and "prepare_commit en pkey draws ident tm ops pk branch props = Inr r"
  shows "\<exists>head. branch_head tm branch = Inr head \<and>
    (case r of
       None \<Rightarrow> mset (ops_rows hit upd ops (head_rows head)) = mset (head_rows head)
     | Some pc \<Rightarrow>
         (\<exists>new. pc_request pc = snapshot_request ident (tm_uuid tm) branch (map_option sp_id head) new props \<and>
          mset (live_rows new) = mset (map (fit en) (ops_rows hit upd ops (head_rows head))) \<and> typed en (live_rows new) \<and>
          sp_parent new = map_option sp_id head \<and> pc_rows_by_op pc = ops_matched hit upd ops (head_rows head) \<and>
          sp_id new = pc_snapshot_id pc \<and> pc_snapshot_id pc \<notin> sp_id ` set (tm_snapshots tm) \<and>
          (\<forall>cols. pk = Some cols \<longrightarrow> prewritten ops = [] \<longrightarrow>
             (\<forall>r\<in>set (dmls hit upd ops (head_rows head)). pkey cols (fit en r) = pkey cols r) \<longrightarrow>
             distinct (map (pkey cols) (live_rows new)) \<and> (\<forall>r\<in>set (live_rows new). None \<notin> set (pkey cols r))) \<and>
          ((\<exists>op\<in>set ops. is_dml op) \<or> pk \<noteq> None \<longrightarrow>
             (\<exists>n size. su_totals (sp_summary new) = Some (n, length (live_rows new), size)))))"
proof -
  let ?need = "(\<exists>op\<in>set ops. is_dml op) \<or> pk \<noteq> None"
  obtain head acc n acc1 where h: "branch_head tm branch = Inr head"
    and sc: "scan_head en pkey (tm_columns tm) pk ops ?need head = Inr acc"
    and fa: "fold_appends en pkey (tm_columns tm) pk (enumerate 0 ops) (0, acc) = Inr (n, acc1)"
    and fin: "finish_commit en draws ident tm ops pk branch props head ?need (n, acc1) = Inr r"
    using assms(6) by (auto simp: prepare_commit_def rbind_Inr_conv Let_def split: if_splits)
  let ?R = "head_rows head"
  have ty: "typed en ?R" using assms(4) h by blast
  note st = prepare_stages [OF assms(1-3) sc refl fa ty assms(5)]
  show ?thesis
  proof (cases "\<not> sa_changed acc1 \<and> n + sum_list (map df_record_count (prewritten ops)) = 0")
    case True
    then have "app_rows hit upd ops = []" "concat (map df_rows (prewritten ops)) = []" "r = None"
      using st fin by (auto simp: record_count_eta finish_commit_def)
    then show ?thesis using h st True ops_rows_split [OF assms(3), of hit upd ?R] by auto
  next
    case False
    then obtain sid pc where pk: "pk \<noteq> None \<longrightarrow> check_pk (sa_pk acc1) = Inr ()"
      and sid: "generate_unique_snapshot_id draws tm = Some sid"
      and pr: "produce_snapshot en sid ident tm branch head ?need ops props acc1 = Inr pc" and r: "r = Some pc"
      using fin unfolding finish_commit_def Let_def
      by (auto simp: rbind_Inr_conv ok_or_def split: option.splits if_splits)
    obtain new where pd: "pc_request pc = snapshot_request ident (tm_uuid tm) branch (map_option sp_id head) new props"
      "mset (live_rows new) = mset (held_rows acc1) + mset (written_rows acc1) + mset (concat (map df_rows (prewritten ops))) + (if ?need then {#} else mset ?R)"
      "pc_rows_by_op pc = note_files (enumerate 0 ops) (sa_by_op acc1)" "sp_parent new = map_option sp_id head"
      "sp_id new = sid" "pc_snapshot_id pc = sid"
      "?need \<longrightarrow> (\<exists>n size. su_totals (sp_summary new) =
        Some (n, sa_kept_records acc1 + length (written_rows acc1) + length (concat (map df_rows (prewritten ops))), size))"
      using produced_rows [OF assms(2) pr] by auto
    have rows: "mset (live_rows new) = image_mset (fit en) (mset (ops_rows hit upd ops ?R))" using pd(2) st by simp
    then have "set (live_rows new) = fit en ` set (ops_rows hit upd ops ?R)" by (metis set_image_mset set_mset_mset)
    then have "typed en (live_rows new)" using fit_fit [OF assms(2)] by (auto simp: typed_def)
    moreover have "pc_rows_by_op pc = ops_matched hit upd ops ?R"
      using pd(3) note_files_counts [of "sa_by_op acc1" 0 ops hit upd ?R] st by simp
    moreover have "sid \<notin> sp_id ` set (tm_snapshots tm)" using sid by (auto simp: generate_unique_snapshot_id_def find_Some_iff)
    moreover have "distinct (map (pkey cols) (live_rows new)) \<and> (\<forall>x\<in>set (live_rows new). None \<notin> set (pkey cols x))"
      if c: "pk = Some cols" "prewritten ops = []" and k: "\<forall>r\<in>set (dmls hit upd ops ?R). pkey cols (fit en r) = pkey cols r" for cols
    proof (rule check_pk_keys)
      show "check_pk (sa_pk acc1) = Inr ()" using pk c(1) by simp
      have "image_mset (pkey cols) (mset (dmls hit upd ops ?R)) = image_mset (pkey cols) (image_mset (fit en) (mset (dmls hit upd ops ?R)))"
        using k by (auto simp: image_mset.compositionality intro!: image_mset_cong)
      then show "mset (sa_pk acc1) = mset (map (pkey cols) (live_rows new))"
        using st c ops_rows_split [OF assms(3), of hit upd ?R] by (simp add: rows)
    qed
    moreover have "\<exists>m size. su_totals (sp_summary new) = Some (m, length (live_rows new), size)" if need: ?need
    proof -
      have l: "length (live_rows new) = sa_kept_records acc1 + length (written_rows acc1) + length (concat (map df_rows (prewritten ops)))"
        using arg_cong [OF pd(2), of size] need st by simp
      show ?thesis using pd(7) need unfolding l by blast
    qed
    ultimately show ?thesis using h rows pd(1,4-6) unfolding r option.case
      by (intro exI [of _ head] conjI exI [of _ new]) simp_all
  qed
qed

text \<open>The same when no cast changes a row.\<close>

lemma prepare_commit_lossless:
  assumes "\<forall>st. TDml st \<in> set ops \<longrightarrow> sql_sound en hit upd (tm_columns tm) st" "storage_sound en" "casts_lossless en" "files_last ops"
    and "prepare_commit en pkey draws ident tm ops pk branch props = Inr r"
  shows "\<exists>head. branch_head tm branch = Inr head \<and>
    (case r of
       None \<Rightarrow> mset (ops_rows hit upd ops (head_rows head)) = mset (head_rows head)
     | Some pc \<Rightarrow>
         (\<exists>new. pc_request pc = snapshot_request ident (tm_uuid tm) branch (map_option sp_id head) new props \<and>
          mset (live_rows new) = mset (ops_rows hit upd ops (head_rows head)) \<and> sp_parent new = map_option sp_id head \<and>
          pc_rows_by_op pc = ops_matched hit upd ops (head_rows head) \<and> sp_id new = pc_snapshot_id pc))"
proof -
  have f: "fit en = (\<lambda>r. r)" using lossless_fit [OF assms(3)] by blast
  have t: "typed en rows" for rows by (simp add: typed_def f)
  obtain head where "branch_head tm branch = Inr head"
    "case r of
       None \<Rightarrow> mset (ops_rows hit upd ops (head_rows head)) = mset (head_rows head)
     | Some pc \<Rightarrow>
         (\<exists>new. pc_request pc = snapshot_request ident (tm_uuid tm) branch (map_option sp_id head) new props \<and>
          mset (live_rows new) = mset (map (fit en) (ops_rows hit upd ops (head_rows head))) \<and>
          sp_parent new = map_option sp_id head \<and> pc_rows_by_op pc = ops_matched hit upd ops (head_rows head) \<and>
          sp_id new = pc_snapshot_id pc)"
    using prepare_commit_sound [OF assms(1,2,4) _ t assms(5)] t by (fastforce split: option.splits)
  then show ?thesis by (auto simp: f split: option.splits)
qed

end
