(* ===== verification/CommitSpec.thy ===== *)
theory CommitSpec
  imports Commit OverwriteSpec
begin

text \<open>
  What the REST catalog promises, as a history of its states, and what the commit paths do to that
  history: a statement takes effect at one accepted request, on the head of its branch at that moment,
  whatever other clients do between the load and the post.
\<close>

section \<open>The history of the catalog\<close>

text \<open>
  A history lists the states of the catalog, the newest last.  An entry is marked when it is the
  effect of an accepted request of this engine; the other entries are the work of other clients.
\<close>

type_synonym 'r lake = "lake_ident \<Rightarrow> 'r table_metadata option"

type_synonym 'r history = "(bool \<times> 'r lake) list"

definition snapshot_ids :: "'r table_metadata \<Rightarrow> int set" where
  "snapshot_ids tm = sp_id ` set (tm_snapshots tm)"

fun requirement_holds :: "'r table_metadata \<Rightarrow> table_requirement \<Rightarrow> bool" where
  "requirement_holds tm (UuidMatch u) \<longleftrightarrow> tm_uuid tm = u"
| "requirement_holds tm (RefSnapshotIdMatch r i) \<longleftrightarrow> tm_refs tm r = i"

fun update_ok :: "'r table_update \<Rightarrow> 'r table_metadata \<Rightarrow> 'r table_metadata \<Rightarrow> bool" where
  "update_ok (AddSnapshot s) tm tm' \<longleftrightarrow> sp_id s \<notin> snapshot_ids tm \<and> tm_snapshots tm' = tm_snapshots tm @ [s] \<and> tm_refs tm' = tm_refs tm"
| "update_ok (SetSnapshotRef r i) tm tm' \<longleftrightarrow> i \<in> snapshot_ids tm \<and> tm_snapshots tm' = tm_snapshots tm \<and> tm_refs tm' = (tm_refs tm)(r \<mapsto> i)"
| "update_ok (RemoveSnapshotRef r) tm tm' \<longleftrightarrow> tm_snapshots tm' = tm_snapshots tm \<and> tm_refs tm' = (tm_refs tm)(r := None)"
| "update_ok (RemoveSnapshots is) tm tm' \<longleftrightarrow>
     tm_snapshots tm' = filter (\<lambda>s. sp_id s \<notin> set is) (tm_snapshots tm) \<and>
     (\<forall>r i. tm_refs tm r = Some i \<longrightarrow> i \<notin> set is \<longrightarrow> tm_refs tm' r = Some i)"
| "update_ok (SetProperties ps) tm tm' \<longleftrightarrow> tm_snapshots tm' = tm_snapshots tm \<and> tm_refs tm' = tm_refs tm"

fun updates_ok :: "'r table_update list \<Rightarrow> 'r table_metadata \<Rightarrow> 'r table_metadata \<Rightarrow> bool" where
  "updates_ok [] tm tm' \<longleftrightarrow> tm_snapshots tm' = tm_snapshots tm \<and> tm_refs tm' = tm_refs tm"
| "updates_ok (u # us) tm tm' \<longleftrightarrow> (\<exists>tm1. update_ok u tm tm1 \<and> updates_ok us tm1 tm')"

definition commits_one :: "'r commit_table_request \<Rightarrow> 'r lake \<Rightarrow> 'r lake \<Rightarrow> bool" where
  "commits_one rq old new \<longleftrightarrow>
     (\<exists>ident tm tm'. rq_identifier rq = Some ident \<and> old ident = Some tm \<and> new ident = Some tm' \<and>
        (\<forall>q\<in>set (rq_requirements rq). requirement_holds tm q) \<and> updates_ok (rq_updates rq) tm tm')"

text \<open>All requests of a transaction on one state, at once; tables that no request names stay as they are.\<close>

definition commits :: "'r commit_table_request list \<Rightarrow> 'r lake \<Rightarrow> 'r lake \<Rightarrow> bool" where
  "commits rqs old new \<longleftrightarrow>
     (\<forall>rq\<in>set rqs. commits_one rq old new) \<and> (\<forall>ident. Some ident \<notin> rq_identifier ` set rqs \<longrightarrow> new ident = old ident)"

definition quiet :: "'r history \<Rightarrow> bool" where
  "quiet new \<longleftrightarrow> (\<forall>e\<in>set new. \<not> fst e)"

definition latest :: "'r history \<Rightarrow> 'r lake" where
  "latest h = snd (last h)"

definition landed :: "('r lake \<Rightarrow> 'r lake \<Rightarrow> bool) \<Rightarrow> 'r history \<Rightarrow> 'r history \<Rightarrow> bool" where
  "landed step old new \<longleftrightarrow> (\<exists>f1 l f2. new = f1 @ (True, l) # f2 \<and> quiet f1 \<and> quiet f2 \<and> step (latest (old @ f1)) l)"

text \<open>References resolve, \<^verbatim>\<open>main\<close> is the current snapshot, and a snapshot id always names the same snapshot.\<close>

definition meta_wf :: "'r table_metadata \<Rightarrow> bool" where
  "meta_wf tm \<longleftrightarrow> tm_refs tm MAIN_BRANCH = tm_current tm \<and> ran (tm_refs tm) \<subseteq> snapshot_ids tm \<and> distinct (map sp_id (tm_snapshots tm))"

definition known :: "'r history \<Rightarrow> lake_ident \<Rightarrow> 'r table_metadata \<Rightarrow> bool" where
  "known h ident tm \<longleftrightarrow> (\<exists>e\<in>set h. snd e ident = Some tm)"

definition history_wf :: "'r history \<Rightarrow> bool" where
  "history_wf h \<longleftrightarrow> h \<noteq> [] \<and> (\<forall>ident tm. known h ident tm \<longrightarrow> meta_wf tm) \<and>
     (\<forall>ident tm tm' s s'. known h ident tm \<longrightarrow> known h ident tm' \<longrightarrow> tm_uuid tm = tm_uuid tm' \<longrightarrow>
        s \<in> set (tm_snapshots tm) \<longrightarrow> s' \<in> set (tm_snapshots tm') \<longrightarrow> sp_id s = sp_id s' \<longrightarrow> s = s')"

text \<open>
  The promises: an answer of success means the request was accepted once, a conflict means it was not,
  anything else means at most once; loads return a state of the history; other calls change nothing.
\<close>

definition answered :: "http_answer \<Rightarrow> ('r lake \<Rightarrow> 'r lake \<Rightarrow> bool) \<Rightarrow> 'r history \<Rightarrow> 'r history \<Rightarrow> bool" where
  "answered a step old new \<longleftrightarrow>
     (case a of
        NoAnswer \<Rightarrow> quiet new \<or> landed step old new
      | Answer status _ \<Rightarrow>
          (if is_success status then landed step old new
           else if status = 409 then quiet new
           else quiet new \<or> landed step old new))"

definition loads_known :: "('r, 'w) catalog \<Rightarrow> ('w \<Rightarrow> 'r history) \<Rightarrow> bool" where
  "loads_known ct hist \<longleftrightarrow>
     (\<forall>ident w r w'. ct_load ct ident w = (r, w') \<longrightarrow>
        (\<exists>new. hist w' = hist w @ new \<and> quiet new) \<and> (\<forall>tm. r = Inr tm \<longrightarrow> known (hist w') ident tm))"

definition posts_once :: "('r, 'w) catalog \<Rightarrow> ('w \<Rightarrow> 'r history) \<Rightarrow> bool" where
  "posts_once ct hist \<longleftrightarrow>
     (\<forall>ident rq w a w'. ct_post ct ident rq w = (a, w') \<longrightarrow> rq_identifier rq = Some ident \<longrightarrow>
        (\<exists>new. hist w' = hist w @ new \<and> answered a (commits [rq]) (hist w) new))"

definition transacts_once :: "('r, 'w) catalog \<Rightarrow> ('w \<Rightarrow> 'r history) \<Rightarrow> bool" where
  "transacts_once ct hist \<longleftrightarrow>
     (\<forall>rqs w a w'. ct_transaction ct rqs w = (a, w') \<longrightarrow>
        (\<exists>new. hist w' = hist w @ new \<and>
           (if \<exists>rq\<in>set rqs. rq_identifier rq = None then quiet new else answered a (commits rqs) (hist w) new)))"

definition lists_quietly :: "('r, 'w) catalog \<Rightarrow> ('w \<Rightarrow> 'r history) \<Rightarrow> bool" where
  "lists_quietly ct hist \<longleftrightarrow>
     (\<forall>i w r w'. ct_metadata ct i w = (r, w') \<longrightarrow> (\<exists>new. hist w' = hist w @ new \<and> quiet new)) \<and>
     (\<forall>n w r w'. ct_namespaces ct n w = (r, w') \<longrightarrow> (\<exists>new. hist w' = hist w @ new \<and> quiet new)) \<and>
     (\<forall>n w r w'. ct_tables ct n w = (r, w') \<longrightarrow> (\<exists>new. hist w' = hist w @ new \<and> quiet new))"

definition catalog_sound :: "('r, 'w) catalog \<Rightarrow> ('w \<Rightarrow> 'r history) \<Rightarrow> bool" where
  "catalog_sound ct hist \<longleftrightarrow>
     (\<forall>w. history_wf (hist w)) \<and> loads_known ct hist \<and> posts_once ct hist \<and> transacts_once ct hist \<and> lists_quietly ct hist"

abbreviation past :: "('w \<Rightarrow> 'r history) \<Rightarrow> 'w engine_world \<Rightarrow> 'r history" where
  "past hist ew \<equiv> hist (ew_catalog ew)"

text \<open>The errors after which a request may have been accepted all the same.\<close>

definition ambiguous :: "string \<Rightarrow> bool" where
  "ambiguous e \<longleftrightarrow> e \<in> {''commit POST failed'', ''catalog rejected commit'', ''transaction commit POST failed'', ''catalog rejected transaction commit''}"

section \<open>Rules\<close>

lemma quiet_append [simp]: "quiet (a @ b) \<longleftrightarrow> quiet a \<and> quiet b" "quiet []"
  by (auto simp: quiet_def)

lemma landed_quiet_before: "quiet a \<Longrightarrow> landed step (old @ a) new \<Longrightarrow> landed step old (a @ new)"
  unfolding landed_def by (metis append.assoc quiet_append(1))

lemma landed_quiet_after: "quiet b \<Longrightarrow> landed step old new \<Longrightarrow> landed step old (new @ b)"
  unfolding landed_def
  by (metis (no_types, lifting) append.assoc append_Cons quiet_append(1))

lemma landed_mono: "landed step old new \<Longrightarrow> (\<And>a b. step a b \<Longrightarrow> step' a b) \<Longrightarrow> landed step' old new"
  unfolding landed_def by blast

lemma known_mono: "known h ident tm \<Longrightarrow> known (h @ new) ident tm"
  by (auto simp: known_def)

lemma io_bind_Inr: "io_bind m f ew = (Inr y, ew') \<longleftrightarrow> (\<exists>x ew1. m ew = (Inr x, ew1) \<and> f x ew1 = (Inr y, ew'))"
  by (auto simp: io_bind_def split: prod.splits sum.splits)

lemma io_bind_cases:
  assumes "io_bind m f ew = (r, ew')"
  obtains e where "m ew = (Inl e, ew')" "r = Inl e"
  | x ew1 where "m ew = (Inr x, ew1)" "f x ew1 = (r, ew')"
proof (cases "m ew")
  case (Pair y ew1)
  then show ?thesis using assms that by (cases y) (simp_all add: io_bind_def)
qed

lemma io_lift_eq [simp]: "io_lift r ew = (r, ew)"
  by (simp add: io_lift_def)

lemma io_bind_returns [simp]: "io_bind (returns x) f = f x"
  by (rule ext) (simp add: io_bind_def)

lemma on_catalog_eq:
  "on_catalog m ew = (x, ew') \<Longrightarrow> \<exists>w'. m (ew_catalog ew) = (x, w') \<and> ew_catalog ew' = w' \<and> ew_txn_endpoint ew' = ew_txn_endpoint ew"
  by (auto simp: on_catalog_def split: prod.splits)

lemma load_table_quiet:
  assumes "catalog_sound ct hist" "load_table ct ident ew = (r, ew')"
  obtains new where "past hist ew' = past hist ew @ new" "quiet new" "\<And>tm. r = Inr tm \<Longrightarrow> known (past hist ew') ident tm"
proof -
  obtain w' where w: "ct_load ct ident (ew_catalog ew) = (r, w')" "ew_catalog ew' = w'"
    using on_catalog_eq [of "ct_load ct ident" ew r ew'] assms(2) unfolding load_table_def by blast
  have "loads_known ct hist" using assms(1) by (simp add: catalog_sound_def)
  from this [unfolded loads_known_def, rule_format, OF w(1)] show ?thesis using that w(2) by metis
qed

lemma post_commit_answered:
  assumes "catalog_sound ct hist" "post_commit ct ident rq ew = (r, ew')" "rq_identifier rq = Some ident"
  obtains new where "past hist ew' = past hist ew @ new"
    "case r of Inr Committed \<Rightarrow> landed (commits [rq]) (past hist ew) new | Inr (Conflict msg) \<Rightarrow> quiet new
     | Inl e \<Rightarrow> quiet new \<or> ambiguous e \<and> landed (commits [rq]) (past hist ew) new"
proof -
  obtain a ew1 where a: "on_catalog (ct_post ct ident rq) ew = (a, ew1)" by (cases "on_catalog (ct_post ct ident rq) ew")
  then obtain w' where w: "ct_post ct ident rq (ew_catalog ew) = (a, w')" "ew_catalog ew1 = w'"
    using on_catalog_eq [of "ct_post ct ident rq" ew a ew1] by blast
  have "posts_once ct hist" using assms(1) by (simp add: catalog_sound_def)
  from this [unfolded posts_once_def, rule_format, OF w(1) assms(3)] obtain new where n: "hist w' = past hist ew @ new" "answered a (commits [rq]) (past hist ew) new"
    by blast
  have "ew' = ew1" using assms(2) a by (auto simp: post_commit_def post_commit_inner_def split: http_answer.splits if_splits)
  then show ?thesis using that [of new] n w(2) assms(2) a
    by (auto simp: answered_def ambiguous_def post_commit_def post_commit_inner_def split: http_answer.splits if_splits)
qed

section \<open>A snapshot lands\<close>

lemma history_wfD: "history_wf h \<Longrightarrow> known h ident tm \<Longrightarrow> meta_wf tm" "history_wf h \<Longrightarrow> h \<noteq> []"
  unfolding history_wf_def by blast+

lemma commits_snapshot:
  assumes "commits_one (snapshot_request ident uuid branch hid s props) old new"
  obtains tm tm' where "old ident = Some tm" "new ident = Some tm'" "tm_uuid tm = uuid" "tm_refs tm branch = hid"
    "tm_refs tm' = (tm_refs tm)(branch \<mapsto> sp_id s)" "tm_snapshots tm' = tm_snapshots tm @ [s]"
  using assms by (auto simp: commits_one_def snapshot_request_def split: if_splits)

lemma snapshot_by_id_Some: "snapshot_by_id tm i = Some s \<Longrightarrow> s \<in> set (tm_snapshots tm) \<and> sp_id s = i"
  by (auto simp: snapshot_by_id_def find_Some_iff)

lemma snapshot_by_id_ids: "i \<in> snapshot_ids tm \<Longrightarrow> \<exists>s. snapshot_by_id tm i = Some s"
  by (auto simp: snapshot_by_id_def snapshot_ids_def find_None_iff simp flip: not_None_eq)

lemma branch_head_ref:
  assumes "meta_wf tm"
  shows "branch_head tm branch = Inr (Some s) \<longleftrightarrow> Option.bind (tm_refs tm branch) (snapshot_by_id tm) = Some s"
    "branch_head tm branch = Inr None \<Longrightarrow> tm_refs tm branch = None"
proof -
  show "branch_head tm branch = Inr (Some s) \<longleftrightarrow> Option.bind (tm_refs tm branch) (snapshot_by_id tm) = Some s"
    using assms by (auto simp: branch_head_def meta_wf_def split: option.splits)
  assume h: "branch_head tm branch = Inr None"
  then have m: "branch = MAIN_BRANCH" by (auto simp: branch_head_def split: if_splits option.splits)
  show "tm_refs tm branch = None"
  proof (cases "tm_refs tm branch")
    case (Some i)
    then have "i \<in> snapshot_ids tm" using assms by (auto simp: meta_wf_def ran_def)
    then obtain s where "snapshot_by_id tm i = Some s" using snapshot_by_id_ids by blast
    moreover have "tm_current tm = Some i" using Some m assms by (simp add: meta_wf_def)
    ultimately show ?thesis using h m by (simp add: branch_head_def)
  qed
qed

text \<open>A reference that still names the snapshot it named when the table was loaded heads the same rows.\<close>

lemma same_head:
  assumes "history_wf h" "known h ident tm0" "known h ident tm" "tm_uuid tm = tm_uuid tm0"
    and "branch_head tm0 branch = Inr head" "tm_refs tm branch = map_option sp_id head"
  shows "branch_head tm branch = Inr head"
proof (cases head)
  case None
  then have "branch = MAIN_BRANCH" using assms(5) by (auto simp: branch_head_def split: if_splits option.splits)
  moreover have "meta_wf tm" using history_wfD(1) assms(1,3) by blast
  ultimately show ?thesis using assms(6) None by (simp add: branch_head_def meta_wf_def)
next
  case (Some s)
  have w: "meta_wf tm0" "meta_wf tm" using history_wfD(1) assms(1-3) by blast+
  have s: "s \<in> set (tm_snapshots tm0)"
    using assms(5) [unfolded Some branch_head_ref(1) [OF w(1)]] snapshot_by_id_Some [of tm0 _ s] by (auto simp: Option.bind_eq_Some_conv)
  have "sp_id s \<in> snapshot_ids tm" using assms(6) Some w(2) by (auto simp: meta_wf_def ran_def)
  then obtain s' where s': "snapshot_by_id tm (sp_id s) = Some s'" using snapshot_by_id_ids by blast
  then have t: "s' \<in> set (tm_snapshots tm)" "sp_id s = sp_id s'" using snapshot_by_id_Some by force+
  have "s = s'" using assms(1) [unfolded history_wf_def] assms(2-4) s t by metis
  then show ?thesis using assms(6) Some s' by (simp add: branch_head_ref(1) [OF w(2)])
qed

text \<open>
  The operations \<open>ops\<close> on the head \<open>pin\<close> of \<open>branch\<close>, in one step from a state to the next: the new head holds
  the rows of the sequential execution on the old head and is its child; other branches stay.
\<close>

definition table_step ::
  "(dml_statement \<Rightarrow> 'r \<Rightarrow> bool) \<Rightarrow> (dml_statement \<Rightarrow> 'r \<Rightarrow> 'r) \<Rightarrow> string \<Rightarrow> lake_ident \<Rightarrow> int option \<Rightarrow> 'r table_op list \<Rightarrow>
   nat list \<Rightarrow> int \<Rightarrow> 'r lake \<Rightarrow> 'r lake \<Rightarrow> bool" where
  "table_step hit upd branch ident pin ops counts sid old new \<longleftrightarrow>
     (\<exists>tm tm' head s. old ident = Some tm \<and> branch_head tm branch = Inr head \<and> map_option sp_id head = pin \<and> new ident = Some tm' \<and>
        branch_head tm' branch = Inr (Some s) \<and> sp_id s = sid \<and> sp_parent s = pin \<and>
        mset (live_rows s) = mset (ops_rows hit upd ops (head_rows head)) \<and> counts = ops_matched hit upd ops (head_rows head) \<and>
        (\<forall>r. r \<noteq> branch \<longrightarrow> tm_refs tm' r = tm_refs tm r))"

text \<open>The same on one table, with every other table left as it is.\<close>

definition applies ::
  "(dml_statement \<Rightarrow> 'r \<Rightarrow> bool) \<Rightarrow> (dml_statement \<Rightarrow> 'r \<Rightarrow> 'r) \<Rightarrow> string \<Rightarrow> lake_ident \<Rightarrow> 'r table_op list \<Rightarrow> nat list \<Rightarrow> int \<Rightarrow>
   'r lake \<Rightarrow> 'r lake \<Rightarrow> bool" where
  "applies hit upd branch ident ops counts sid old new \<longleftrightarrow>
     (\<exists>pin. table_step hit upd branch ident pin ops counts sid old new) \<and> (\<forall>i. i \<noteq> ident \<longrightarrow> new i = old i)"

text \<open>
  What a client relies on: files and casts as the commit specification has them, casts that keep the
  values, and statements that mean \<open>hit\<close> and \<open>upd\<close> on the columns of the metadata \<open>M\<close>.  \<open>table_states\<close> is the
  metadata a table has in any state of a history.
\<close>

definition client_sound ::
  "('r, 'v) client \<Rightarrow> (dml_statement \<Rightarrow> 'r \<Rightarrow> bool) \<Rightarrow> (dml_statement \<Rightarrow> 'r \<Rightarrow> 'r) \<Rightarrow> 'r table_metadata set \<Rightarrow>
   'r table_op list \<Rightarrow> bool" where
  "client_sound cl hit upd M ops \<longleftrightarrow>
     (\<forall>n. storage_sound (cl_engine cl n) \<and> casts_lossless (cl_engine cl n) \<and>
        (\<forall>st tm. TDml st \<in> set ops \<longrightarrow> tm \<in> M \<longrightarrow> sql_sound (cl_engine cl n) hit upd (tm_columns tm) st)) \<and> files_last ops"

definition table_states :: "('w \<Rightarrow> 'r history) \<Rightarrow> lake_ident \<Rightarrow> 'r table_metadata set" where
  "table_states hist ident = {tm. \<exists>w. known (hist w) ident tm}"

lemma known_states: "known (hist w) ident tm \<Longrightarrow> tm \<in> table_states hist ident"
  by (auto simp: table_states_def)

lemma client_prepares:
  assumes "client_sound cl hit upd M ops" "tm \<in> M"
    and "prepare_commit (cl_engine cl n) (cl_pkey cl) draws ident tm ops pk branch props = Inr r"
  shows "\<exists>head. branch_head tm branch = Inr head \<and>
    (case r of
       None \<Rightarrow> mset (ops_rows hit upd ops (head_rows head)) = mset (head_rows head)
     | Some pc \<Rightarrow>
         (\<exists>new. pc_request pc = snapshot_request ident (tm_uuid tm) branch (map_option sp_id head) new props \<and>
          mset (live_rows new) = mset (ops_rows hit upd ops (head_rows head)) \<and> sp_parent new = map_option sp_id head \<and>
          pc_rows_by_op pc = ops_matched hit upd ops (head_rows head) \<and> sp_id new = pc_snapshot_id pc))"
  by (rule prepare_commit_lossless [OF _ _ _ _ assms(3)]) (use assms(1,2) in \<open>auto simp: client_sound_def\<close>)

lemma client_request: "client_sound cl hit upd M ops \<Longrightarrow> tm \<in> M \<Longrightarrow>
  prepare_commit (cl_engine cl n) (cl_pkey cl) draws ident tm ops pk branch props = Inr (Some pc) \<Longrightarrow> rq_identifier (pc_request pc) = Some ident"
  by (drule (2) client_prepares) (auto simp: snapshot_request_def)

lemma find_snoc: "\<forall>x\<in>set xs. \<not> P x \<Longrightarrow> P y \<Longrightarrow> find P (xs @ [y]) = Some y"
  by (induction xs) auto

lemma last_known: "h \<noteq> [] \<Longrightarrow> latest h ident = Some tm \<Longrightarrow> known h ident tm"
  by (auto simp: known_def latest_def intro: bexI [of _ "last h"])

lemma landed_within:
  assumes "landed step old new" "old \<noteq> []"
  shows "landed (\<lambda>b0 l. step b0 l \<and> b0 \<in> snd ` set (old @ new) \<and> l \<in> snd ` set (old @ new)) old new"
proof -
  obtain f1 l f2 where f: "new = f1 @ (True, l) # f2" "quiet f1" "quiet f2" "step (latest (old @ f1)) l" using assms(1) by (auto simp: landed_def)
  have "last (old @ f1) \<in> set (old @ f1)" by (rule last_in_set) (simp add: assms(2))
  then have "latest (old @ f1) \<in> snd ` set (old @ new)" unfolding latest_def f(1) by (intro imageI) auto
  moreover have "l \<in> snd ` set (old @ new)" by (force simp: f(1))
  ultimately show ?thesis using f unfolding landed_def by blast
qed

lemma known_in: "b0 \<in> snd ` set h \<Longrightarrow> b0 ident = Some tm \<Longrightarrow> known h ident tm"
  by (auto simp: known_def)

text \<open>What a prepared commit does once the catalog accepts it.\<close>

lemma prepared_step:
  assumes "client_sound cl hit upd M ops" "history_wf h" "known h ident tm0" "tm0 \<in> M"
    and "prepare_commit (cl_engine cl n) (cl_pkey cl) draws ident tm0 ops pk branch props = Inr (Some pc)"
    and "commits_one (pc_request pc) old new" "old \<in> snd ` set h" "new \<in> snd ` set h"
  shows "\<exists>head. branch_head tm0 branch = Inr head \<and>
    table_step hit upd branch ident (map_option sp_id head) ops (pc_rows_by_op pc) (pc_snapshot_id pc) old new"
proof -
  from client_prepares [OF assms(1,4,5)] obtain head s where h: "branch_head tm0 branch = Inr head"
    and rq: "pc_request pc = snapshot_request ident (tm_uuid tm0) branch (map_option sp_id head) s props"
    and s: "mset (live_rows s) = mset (ops_rows hit upd ops (head_rows head))" "sp_parent s = map_option sp_id head"
      "pc_rows_by_op pc = ops_matched hit upd ops (head_rows head)" "sp_id s = pc_snapshot_id pc" by auto
  obtain tm tm' where t: "old ident = Some tm" "new ident = Some tm'" "tm_uuid tm = tm_uuid tm0" "tm_refs tm branch = map_option sp_id head"
    "tm_refs tm' = (tm_refs tm)(branch \<mapsto> sp_id s)" "tm_snapshots tm' = tm_snapshots tm @ [s]"
    using assms(6) unfolding rq by (rule commits_snapshot)
  note k = known_in [OF assms(7) t(1)] known_in [OF assms(8) t(2)]
  have h1: "branch_head tm branch = Inr head" by (rule same_head [OF assms(2,3) k(1) t(3) h t(4)])
  have w: "meta_wf tm'" using history_wfD(1) assms(2) k(2) by blast
  have "sp_id s \<notin> sp_id ` set (tm_snapshots tm)" using w t(6) by (auto simp: meta_wf_def)
  then have "snapshot_by_id tm' (sp_id s) = Some s"
    unfolding snapshot_by_id_def t(6) by (intro find_snoc) (force simp: image_iff)+
  then have "branch_head tm' branch = Inr (Some s)" by (simp add: branch_head_ref(1) [OF w] t(5))
  then have "table_step hit upd branch ident (map_option sp_id head) ops (pc_rows_by_op pc) (pc_snapshot_id pc) old new"
    unfolding table_step_def using h1 t s by (intro exI [of _ tm] exI [of _ tm'] exI [of _ head] exI [of _ s]) simp
  then show ?thesis using h by blast
qed

lemma prepared_applies:
  assumes "client_sound cl hit upd M ops" "history_wf (old @ new)" "history_wf old" "known old ident tm0" "tm0 \<in> M"
    and "prepare_commit (cl_engine cl n) (cl_pkey cl) draws ident tm0 ops pk branch props = Inr (Some pc)"
    and "landed (commits [pc_request pc]) old new"
  shows "landed (applies hit upd branch ident ops (pc_rows_by_op pc) (pc_snapshot_id pc)) old new"
proof (rule landed_mono [OF landed_within [OF assms(7) history_wfD(2) [OF assms(3)]]])
  fix b0 l
  assume b: "commits [pc_request pc] b0 l \<and> b0 \<in> snd ` set (old @ new) \<and> l \<in> snd ` set (old @ new)"
  then have c: "commits_one (pc_request pc) b0 l" "\<forall>i. i \<noteq> ident \<longrightarrow> l i = b0 i"
    using client_request [OF assms(1,5,6)] by (auto simp: commits_def)
  show "applies hit upd branch ident ops (pc_rows_by_op pc) (pc_snapshot_id pc) b0 l"
    using prepared_step [OF assms(1,2) known_mono [OF assms(4)] assms(5,6) c(1)] b c(2) by (auto simp: applies_def)
qed

section \<open>Statements\<close>

lemma try_commit_effect:
  assumes "catalog_sound ct hist" "client_sound cl hit upd (table_states hist ident) ops" "known (past hist ew) ident tm"
    and "try_commit ct oe cl n ident tm ops pk ew = (r, ew')"
  obtains new where "past hist ew' = past hist ew @ new"
    "case r of
       Inl e \<Rightarrow> quiet new \<or> ambiguous e \<and> (\<exists>counts sid. landed (applies hit upd (oe_branch oe) ident ops counts sid) (past hist ew) new)
     | Inr None \<Rightarrow> quiet new
     | Inr (Some (pc, Committed)) \<Rightarrow>
         landed (applies hit upd (oe_branch oe) ident ops (pc_rows_by_op pc) (pc_snapshot_id pc)) (past hist ew) new
     | Inr (Some (pc, Conflict msg)) \<Rightarrow> quiet new"
proof -
  have hw: "history_wf (hist w)" for w using assms(1) by (simp add: catalog_sound_def)
  let ?p = "prepare_commit (cl_engine cl n) (cl_pkey cl) (cl_draws cl n) ident tm ops pk (oe_branch oe) []"
  consider (err) e where "?p = Inl e" | (none) "?p = Inr None" | (some) pc where "?p = Inr (Some pc)" by (metis not_None_eq sum.exhaust)
  then show ?thesis
  proof cases
    case some
    have rq: "rq_identifier (pc_request pc) = Some ident"
      by (rule client_request [OF assms(2) known_states [of hist "ew_catalog ew", OF assms(3)] some])
    obtain q ew1 where q: "post_commit ct ident (pc_request pc) ew = (q, ew1)" by (cases "post_commit ct ident (pc_request pc) ew")
    obtain new where n: "past hist ew1 = past hist ew @ new"
      "case q of Inr Committed \<Rightarrow> landed (commits [pc_request pc]) (past hist ew) new | Inr (Conflict msg) \<Rightarrow> quiet new
       | Inl e \<Rightarrow> quiet new \<or> ambiguous e \<and> landed (commits [pc_request pc]) (past hist ew) new"
      using post_commit_answered [OF assms(1) q rq] by blast
    have ap: "landed (applies hit upd (oe_branch oe) ident ops (pc_rows_by_op pc) (pc_snapshot_id pc)) (past hist ew) new"
      if l: "landed (commits [pc_request pc]) (past hist ew) new"
      using hw [of "ew_catalog ew1"] unfolding n(1) by (rule prepared_applies [OF assms(2) _ hw assms(3) known_states [of hist "ew_catalog ew", OF assms(3)] some l])
    have r: "r = (case q of Inl e \<Rightarrow> Inl e | Inr out \<Rightarrow> Inr (Some (pc, out)))" "ew' = ew1"
      using assms(4) some q by (auto simp: try_commit_def io_bind_def split: sum.splits)
    show ?thesis
      by (rule that [of new]) (use n ap r in \<open>auto split: sum.splits commit_outcome.splits\<close>)
  qed (use that [of "[]"] assms(4) in \<open>auto simp: try_commit_def io_bind_def\<close>)
qed

definition statement_effect ::
  "(dml_statement \<Rightarrow> 'r \<Rightarrow> bool) \<Rightarrow> (dml_statement \<Rightarrow> 'r \<Rightarrow> 'r) \<Rightarrow> string \<Rightarrow> lake_ident \<Rightarrow> 'r table_op list \<Rightarrow>
   dml_outcome result \<Rightarrow> 'r history \<Rightarrow> 'r history \<Rightarrow> bool" where
  "statement_effect hit upd branch ident ops r old new \<longleftrightarrow>
     (case r of
        Inl e \<Rightarrow> quiet new \<or> ambiguous e \<and> (\<exists>counts sid. landed (applies hit upd branch ident ops counts sid) old new)
      | Inr out \<Rightarrow>
          (case do_snapshot_id out of
             None \<Rightarrow> quiet new \<and> do_rows out = 0
           | Some sid \<Rightarrow> landed (applies hit upd branch ident ops [do_rows out] sid) old new))"

lemma effect_after_quiet:
  "quiet a \<Longrightarrow> statement_effect hit upd branch ident ops r (old @ a) new \<Longrightarrow> statement_effect hit upd branch ident ops r old (a @ new)"
  unfolding statement_effect_def
  by (auto split: sum.splits option.splits intro: landed_quiet_before)

lemma applies_counts: "landed (applies hit upd branch ident ops counts sid) old new \<Longrightarrow> length counts = length ops"
proof -
  have "length (ops_matched hit upd ops rows) = length ops" for rows by (induction hit upd ops rows rule: ops_matched.induct) auto
  then show "landed (applies hit upd branch ident ops counts sid) old new \<Longrightarrow> length counts = length ops"
    by (auto simp: landed_def applies_def table_step_def)
qed

text \<open>The three retry loops: a load or a pure check in front of an attempt changes nothing.\<close>

definition has_effect ::
  "('w \<Rightarrow> 'r history) \<Rightarrow> (dml_statement \<Rightarrow> 'r \<Rightarrow> bool) \<Rightarrow> (dml_statement \<Rightarrow> 'r \<Rightarrow> 'r) \<Rightarrow> string \<Rightarrow> lake_ident \<Rightarrow> 'r table_op list \<Rightarrow>
   'w engine_world \<Rightarrow> dml_outcome result \<times> 'w engine_world \<Rightarrow> bool" where
  "has_effect hist hit upd branch ident ops ew out \<longleftrightarrow>
     (\<exists>new. past hist (snd out) = past hist ew @ new \<and> statement_effect hit upd branch ident ops (fst out) (past hist ew) new)"

lemma effect_fails [simp]: "has_effect hist hit upd branch ident ops ew (Inl e, ew)"
  by (simp add: has_effect_def statement_effect_def)

lemma effect_load:
  assumes "catalog_sound ct hist"
    and "\<And>tm ew1. known (past hist ew1) ident tm \<Longrightarrow> has_effect hist hit upd branch ident' ops ew1 (f tm ew1)"
  shows "has_effect hist hit upd branch ident' ops ew (io_bind (load_table ct ident) f ew)"
proof -
  obtain q ew1 where q: "load_table ct ident ew = (q, ew1)" by (cases "load_table ct ident ew")
  obtain a where a: "past hist ew1 = past hist ew @ a" "quiet a" "\<And>tm. q = Inr tm \<Longrightarrow> known (past hist ew1) ident tm"
    using load_table_quiet [OF assms(1) q] by metis
  show ?thesis
  proof (cases q)
    case (Inl e)
    then show ?thesis using a q by (auto simp: io_bind_def has_effect_def statement_effect_def)
  next
    case (Inr tm)
    obtain new where "past hist (snd (f tm ew1)) = past hist ew1 @ new" "statement_effect hit upd branch ident' ops (fst (f tm ew1)) (past hist ew1) new"
      using assms(2) [OF a(3) [OF Inr]] by (auto simp: has_effect_def)
    then show ?thesis using a(1) effect_after_quiet [OF a(2)] q Inr
      by (auto simp: io_bind_def has_effect_def intro!: exI [of _ "a @ new"])
  qed
qed

lemma effect_pure: "(\<And>x. q = Inr x \<Longrightarrow> has_effect hist hit upd branch ident ops ew (f x ew)) \<Longrightarrow> has_effect hist hit upd branch ident ops ew (io_bind (io_lift q) f ew)"
  by (cases q) (simp_all add: io_bind_def)

lemma effect_attempt:
  assumes "catalog_sound ct hist" "client_sound cl hit upd (table_states hist ident) [op]" "known (past hist ew) ident tm"
    and "\<And>ew. has_effect hist hit upd (oe_branch oe) ident [op] ew (rest ew)"
    and "\<And>sid old new pc. landed (applies hit upd (oe_branch oe) ident [op] (pc_rows_by_op pc) sid) old new \<Longrightarrow> pc_rows_by_op pc = [rows pc]"
  shows "has_effect hist hit upd (oe_branch oe) ident [op] ew
     (io_bind (try_commit ct oe cl n ident tm [op] pk) (\<lambda>tried. case tried of
           None \<Rightarrow> returns \<lparr>do_rows = 0, do_attempts = n, do_snapshot_id = None\<rparr>
         | Some (pc, Committed) \<Rightarrow> returns \<lparr>do_rows = rows pc, do_attempts = n, do_snapshot_id = Some (pc_snapshot_id pc)\<rparr>
         | Some (pc, Conflict msg) \<Rightarrow> rest) ew)"
proof -
  obtain t ew1 where t: "try_commit ct oe cl n ident tm [op] pk ew = (t, ew1)" by (cases "try_commit ct oe cl n ident tm [op] pk ew")
  obtain new where n: "past hist ew1 = past hist ew @ new"
    "case t of
       Inl e \<Rightarrow> quiet new \<or> ambiguous e \<and> (\<exists>counts sid. landed (applies hit upd (oe_branch oe) ident [op] counts sid) (past hist ew) new)
     | Inr None \<Rightarrow> quiet new
     | Inr (Some (pc, Committed)) \<Rightarrow>
         landed (applies hit upd (oe_branch oe) ident [op] (pc_rows_by_op pc) (pc_snapshot_id pc)) (past hist ew) new
     | Inr (Some (pc, Conflict msg)) \<Rightarrow> quiet new"
    using try_commit_effect [OF assms(1-3) t] by blast
  consider (err) e where "t = Inl e" | (none) "t = Inr None" | (okay) pc where "t = Inr (Some (pc, Committed))"
    | (conflict) pc msg where "t = Inr (Some (pc, Conflict msg))"
    by (metis commit_outcome.exhaust not_None_eq sum.exhaust surj_pair)
  then show ?thesis
  proof cases
    case conflict
    obtain new' where m: "past hist (snd (rest ew1)) = past hist ew1 @ new'"
      "statement_effect hit upd (oe_branch oe) ident [op] (fst (rest ew1)) (past hist ew @ new) new'"
      using assms(4) [of ew1] n(1) by (auto simp: has_effect_def)
    have "quiet new" using n(2) conflict by simp
    from effect_after_quiet [OF this m(2)] show ?thesis
      using m(1) n(1) t conflict by (auto simp: io_bind_def has_effect_def)
  next
    case okay
    then have l: "landed (applies hit upd (oe_branch oe) ident [op] (pc_rows_by_op pc) (pc_snapshot_id pc)) (past hist ew) new"
      using n(2) by simp
    then show ?thesis using assms(5) [OF l] n(1) t okay by (auto simp: io_bind_def has_effect_def statement_effect_def)
  qed (use n t in \<open>auto simp: io_bind_def has_effect_def statement_effect_def\<close>)
qed

text \<open>
  The contract of the retry loops: an attempt loads the table, resolves the enforced key, prepares,
  posts, and on a conflict leaves the rest to the next attempt.  \<open>rows\<close> is the count the loop reports.
\<close>

locale retry_loop =
  fixes ct :: "('r, 'w) catalog" and oe :: overwrite_engine and cl :: "('r, 'v) client" and ident :: lake_ident and op :: "'r table_op"
    and keys :: "'r table_metadata \<Rightarrow> (string list option) result" and rows :: "'r prepared_commit \<Rightarrow> nat"
    and loop :: "nat list \<Rightarrow> ('w engine_world, dml_outcome) io"
  assumes loop_Nil: "loop [] ew = (Inl ''lost the optimistic-concurrency race'', ew)"
    and loop_Cons: "loop (n # ns) ew =
      io_bind (load_table ct ident) (\<lambda>tm.
      io_bind (io_lift (keys tm)) (\<lambda>pk.
      io_bind (try_commit ct oe cl n ident tm [op] pk) (\<lambda>tried.
        case tried of
          None \<Rightarrow> returns \<lparr>do_rows = 0, do_attempts = n, do_snapshot_id = None\<rparr>
        | Some (pc, Committed) \<Rightarrow> returns \<lparr>do_rows = rows pc, do_attempts = n, do_snapshot_id = Some (pc_snapshot_id pc)\<rparr>
        | Some (pc, Conflict msg) \<Rightarrow> loop ns))) ew"
    and rows_counted: "landed (applies hit upd (oe_branch oe) ident [op] (pc_rows_by_op pc) sid) old new \<Longrightarrow> pc_rows_by_op pc = [rows pc]"
begin

lemma attempt_has_effect:
  assumes "catalog_sound ct hist" "client_sound cl hit upd (table_states hist ident) [op]" "known (past hist ew) ident tm"
    and "\<And>ew. has_effect hist hit upd (oe_branch oe) ident [op] ew (rest ew)"
  shows "has_effect hist hit upd (oe_branch oe) ident [op] ew
     (io_bind (io_lift (keys tm)) (\<lambda>pk. io_bind (try_commit ct oe cl n ident tm [op] pk) (\<lambda>tried. case tried of
           None \<Rightarrow> returns \<lparr>do_rows = 0, do_attempts = n, do_snapshot_id = None\<rparr>
         | Some (pc, Committed) \<Rightarrow> returns \<lparr>do_rows = rows pc, do_attempts = n, do_snapshot_id = Some (pc_snapshot_id pc)\<rparr>
         | Some (pc, Conflict msg) \<Rightarrow> rest)) ew)"
  by (intro effect_pure effect_attempt [OF assms] rows_counted)

lemma loop_has_effect:
  assumes "catalog_sound ct hist" "client_sound cl hit upd (table_states hist ident) [op]"
  shows "has_effect hist hit upd (oe_branch oe) ident [op] ew (loop ns ew)"
proof (induction ns arbitrary: ew)
  case Nil
  then show ?case by (simp add: loop_Nil)
next
  case (Cons n ns)
  show ?case unfolding loop_Cons by (intro effect_load [OF assms(1)] attempt_has_effect [OF assms] Cons.IH)
qed

end

lemma append_counts:
  "landed (applies hit upd branch ident [TAppend rows] counts sid) old new \<Longrightarrow> counts = [length rows]"
  "landed (applies hit upd branch ident [TAppendFiles fs] counts sid) old new \<Longrightarrow> counts = [length (concat (map df_rows fs))]"
  by (auto simp: landed_def applies_def table_step_def)

lemma one_count: "landed (applies hit upd branch ident [op] counts sid) old new \<Longrightarrow> counts = [counts ! 0]"
  using applies_counts [of hit upd branch ident "[op]" counts sid old new] by (cases counts) simp_all

interpretation ex: retry_loop ct oe cl ident "TDml stmt" "pk_columns oe" "\<lambda>pc. pc_rows_by_op pc ! 0" "execute_loop ct oe cl ident stmt"
  for ct oe cl ident stmt
  by unfold_locales (simp, simp, rule one_count)

interpretation ins: retry_loop ct oe cl ident "TAppend rows" "pk_columns oe" "\<lambda>_. length rows" "insert_loop ct oe cl ident rows None"
  for ct oe cl ident rows
  by unfold_locales (simp, simp, rule append_counts(1))

interpretation app: retry_loop ct oe cl ident "TAppendFiles files" "\<lambda>_. Inr None" "\<lambda>_. length (concat (map df_rows files))"
    "append_loop ct oe cl ident (length (concat (map df_rows files))) files"
  for ct oe cl ident files
  by unfold_locales (simp, simp, rule append_counts(2))

lemma insert_loop_effect:
  assumes "catalog_sound ct hist" "client_sound cl hit upd (table_states hist ident) [TAppend rows]" "\<And>tm. preloaded = Some tm \<Longrightarrow> known (past hist ew) ident tm"
  shows "has_effect hist hit upd (oe_branch oe) ident [TAppend rows] ew (insert_loop ct oe cl ident rows preloaded ns ew)"
proof (cases "preloaded = None \<or> ns = []")
  case True
  then show ?thesis using ins.loop_has_effect [OF assms(1,2), of oe ew ns] by auto
next
  case False
  then obtain tm n ns' where c: "preloaded = Some tm" "ns = n # ns'" by (auto simp: neq_Nil_conv)
  show ?thesis
    using ins.attempt_has_effect [OF assms(1,2) assms(3) [OF c(1)] ins.loop_has_effect [OF assms(1,2)], where n = n]
    unfolding c insert_loop.simps option.case io_bind_returns .
qed

end
