(* ===== verification/TransactionSpec.thy ===== *)
theory TransactionSpec
  imports CommitSpec
begin

text \<open>
  Transactions.  A pinned transaction on one table either runs on the head it was pinned to or changes
  nothing; a transaction on several tables changes all of them in one step, each on its pinned head, or
  none of them.
\<close>

section \<open>Quiet steps\<close>

definition stays :: "('w \<Rightarrow> 'r history) \<Rightarrow> 'w engine_world \<Rightarrow> 'w engine_world \<Rightarrow> bool" where
  "stays hist ew ew' \<longleftrightarrow> (\<exists>new. past hist ew' = past hist ew @ new \<and> quiet new)"

lemma stays_refl [simp]: "stays hist ew ew"
  by (simp add: stays_def)

lemma stays_trans: "stays hist a b \<Longrightarrow> stays hist b c \<Longrightarrow> stays hist a c"
  unfolding stays_def by (metis append.assoc quiet_append(1))

lemma stays_known: "stays hist a b \<Longrightarrow> known (past hist a) ident tm \<Longrightarrow> known (past hist b) ident tm"
  by (auto simp: stays_def known_mono)

lemma stays_landed:
  assumes "stays hist a b" "past hist c = past hist b @ new" "landed step (past hist b) new"
  shows "\<exists>new. past hist c = past hist a @ new \<and> landed step (past hist a) new"
proof -
  obtain m where m: "past hist b = past hist a @ m" "quiet m" using assms(1) by (auto simp: stays_def)
  have "landed step (past hist a) (m @ new)" using landed_quiet_before [OF m(2)] assms(3) m(1) by simp
  then show ?thesis using assms(2) m(1) by (intro exI [of _ "m @ new"]) simp
qed

lemma load_stays:
  assumes "catalog_sound ct hist" "load_table ct ident ew = (r, ew')"
  shows "stays hist ew ew' \<and> (\<forall>tm. r = Inr tm \<longrightarrow> known (past hist ew') ident tm)"
  using load_table_quiet [OF assms] unfolding stays_def by metis

text \<open>A sequence of quiet steps, each with what it learns, as long as that stays true.\<close>

lemma io_map_stays:
  assumes "\<And>x ew r ew'. f x ew = (r, ew') \<Longrightarrow> stays hist ew ew' \<and> (\<forall>y. r = Inr y \<longrightarrow> P (past hist ew') x y)"
    and "\<And>h new x y. P h x y \<Longrightarrow> P (h @ new) x y"
    and "io_map f xs ew = (r, ew')"
  shows "stays hist ew ew' \<and> (\<forall>ys. r = Inr ys \<longrightarrow> list_all2 (P (past hist ew')) xs ys)"
  using assms(3)
proof (induction xs arbitrary: ew r ew')
  case Nil
  then show ?case by auto
next
  case (Cons x xs)
  from Cons.prems show ?case unfolding io_map.simps
  proof (cases rule: io_bind_cases)
    case (1 e)
    then show ?thesis using assms(1) by blast
  next
    case (2 y ew1)
    then have y: "stays hist ew ew1" "P (past hist ew1) x y" using assms(1) by blast+
    from 2(2) show ?thesis
    proof (cases rule: io_bind_cases)
      case (1 e)
      then show ?thesis using Cons.IH y stays_trans by blast
    next
      case b: (2 ys ew2)
      have t: "stays hist ew1 ew2" "list_all2 (P (past hist ew2)) xs ys" using Cons.IH [OF b(1)] by auto
      then have "P (past hist ew2) x y" using y(2) assms(2) by (auto simp: stays_def)
      then show ?thesis using b(2) t y(1) stays_trans by auto
    qed
  qed
qed

section \<open>One table\<close>

lemma check_pin_head:
  "check_pin oe tm pin = Inr u \<longleftrightarrow> (\<exists>head. branch_head tm (oe_branch oe) = Inr head \<and> map_option sp_id head = pin)"
  by (auto simp: check_pin_def rbind_Inr_conv)

definition pinned_step ::
  "(dml_statement \<Rightarrow> 'r \<Rightarrow> bool) \<Rightarrow> (dml_statement \<Rightarrow> 'r \<Rightarrow> 'r) \<Rightarrow> string \<Rightarrow> 'r pinned_table list \<Rightarrow> 'r lake \<Rightarrow> 'r lake \<Rightarrow> bool" where
  "pinned_step hit upd branch tables old new \<longleftrightarrow>
     (\<forall>(ident, pin, ops)\<in>set tables. \<exists>counts sid. table_step hit upd branch ident pin ops counts sid old new) \<and>
     (\<forall>i. i \<notin> fst ` set tables \<longrightarrow> new i = old i)"

text \<open>What a table's preparation leaves: nothing to do on the pinned head, or a commit anchored at it.\<close>

definition prepared_for ::
  "overwrite_engine \<Rightarrow> (lake_ident \<Rightarrow> ('r, 'v) client) \<Rightarrow> 'r history \<Rightarrow> 'r pinned_table \<Rightarrow> 'r prepared_commit option \<Rightarrow> bool" where
  "prepared_for oe cls h t p \<longleftrightarrow>
     (case t of (ident, pin, ops) \<Rightarrow>
        \<exists>tm pk. known h ident tm \<and> check_pin oe tm pin = Inr () \<and>
          prepare_commit (cl_engine (cls ident) 1) (cl_pkey (cls ident)) (cl_draws (cls ident) 1) ident tm ops pk (oe_branch oe) [] = Inr p)"

lemma prepared_for_mono: "prepared_for oe cls h t p \<Longrightarrow> prepared_for oe cls (h @ new) t p"
  unfolding prepared_for_def using known_mono by (fastforce split: prod.splits)

lemma prepare_pinned_stays:
  assumes "catalog_sound ct hist" "prepare_pinned ct oe cls t ew = (r, ew')"
  shows "stays hist ew ew' \<and> (\<forall>p. r = Inr p \<longrightarrow> prepared_for oe cls (past hist ew') t p)"
proof -
  obtain ident pin ops where t: "t = (ident, pin, ops)" by (cases t)
  from assms(2) [unfolded prepare_pinned_def t prod.case] show ?thesis
  proof (cases rule: io_bind_cases)
    case (1 e)
    then show ?thesis using load_stays [OF assms(1)] by blast
  next
    case (2 tm ew1)
    have k: "stays hist ew ew1" "known (past hist ew1) ident tm" using load_stays [OF assms(1) 2(1)] by auto
    show ?thesis using 2(2) k unfolding t
      by (cases "check_pin oe tm pin"; cases "pk_columns oe tm") (auto simp: io_bind_def prepared_for_def)
  qed
qed

lemma prepared_for_step:
  assumes "prepared_for oe cls h (ident, pin, ops) (Some pc)" "client_sound (cls ident) hit upd M ops" "history_wf h"
    and "\<And>tm. known h ident tm \<Longrightarrow> tm \<in> M"
    and "commits_one (pc_request pc) old new" "old \<in> snd ` set h" "new \<in> snd ` set h"
  shows "\<exists>counts sid. table_step hit upd (oe_branch oe) ident pin ops counts sid old new"
proof -
  obtain tm pk where t: "known h ident tm" "check_pin oe tm pin = Inr ()"
    "prepare_commit (cl_engine (cls ident) 1) (cl_pkey (cls ident)) (cl_draws (cls ident) 1) ident tm ops pk (oe_branch oe) [] = Inr (Some pc)"
    using assms(1) by (auto simp: prepared_for_def)
  show ?thesis using prepared_step [OF assms(2,3) t(1) assms(4) [OF t(1)] t(3) assms(5-7)] t(2) unfolding check_pin_head by fastforce
qed

lemma produced_ident: "produce_snapshot en sid ident tm branch head need ops props acc = Inr pc \<Longrightarrow> rq_identifier (pc_request pc) = Some ident"
  by (auto simp: produce_snapshot_def snapshot_request_def Let_def rbind_Inr_conv)

lemma finished_ident: "finish_commit en draws ident tm ops pk branch props head need st = Inr (Some pc) \<Longrightarrow> rq_identifier (pc_request pc) = Some ident"
  unfolding finish_commit_def Let_def by (auto simp: rbind_Inr_conv dest: produced_ident split: if_splits)

lemma prepared_ident: "prepare_commit en pkey draws ident tm ops pk branch props = Inr (Some pc) \<Longrightarrow> rq_identifier (pc_request pc) = Some ident"
  unfolding prepare_commit_def Let_def by (auto simp: rbind_Inr_conv dest: finished_ident split: if_splits)

lemma prepared_for_ident: "prepared_for oe cls h (ident, pin, ops) (Some pc) \<Longrightarrow> rq_identifier (pc_request pc) = Some ident"
  unfolding prepared_for_def prod.case using prepared_ident by blast

section \<open>Several tables\<close>

lemma transaction_answered:
  assumes "catalog_sound ct hist" "on_catalog (ct_transaction ct rqs) ew = (a, ew')"
  obtains new where "past hist ew' = past hist ew @ new"
    "if \<exists>rq\<in>set rqs. rq_identifier rq = None then quiet new else answered a (commits rqs) (past hist ew) new"
proof -
  obtain w' where w: "ct_transaction ct rqs (ew_catalog ew) = (a, w')" "ew_catalog ew' = w'"
    using on_catalog_eq [of "ct_transaction ct rqs" ew a ew'] assms(2) by blast
  have "transacts_once ct hist" using assms(1) by (simp add: catalog_sound_def)
  from this [unfolded transacts_once_def, rule_format, OF w(1)] show ?thesis using that w(2) by blast
qed

lemma probe_stays:
  assumes "catalog_sound ct hist" "probe_txn_endpoint ct ew = (r, ew')"
  shows "stays hist ew ew'"
proof (cases "ew_txn_endpoint ew")
  case None
  obtain a ew1 where a: "on_catalog (ct_transaction ct [probe_change]) ew = (a, ew1)"
    by (cases "on_catalog (ct_transaction ct [probe_change]) ew")
  have "ew_catalog ew' = ew_catalog ew1"
    using assms(2) a None by (auto simp: probe_txn_endpoint_def split: http_answer.splits option.splits)
  moreover obtain new where "past hist ew1 = past hist ew @ new" "quiet new"
    using transaction_answered [OF assms(1) a] by (auto simp: probe_change_def)
  ultimately show ?thesis by (auto simp: stays_def)
qed (use assms(2) in \<open>simp add: probe_txn_endpoint_def\<close>)

lemma post_transaction_answered:
  assumes "catalog_sound ct hist" "post_transaction ct rqs ew = (r, ew')" "\<forall>rq\<in>set rqs. rq_identifier rq \<noteq> None"
  shows "\<exists>new. past hist ew' = past hist ew @ new \<and>
    (case r of Inr TxnCommitted \<Rightarrow> landed (commits rqs) (past hist ew) new
     | Inr _ \<Rightarrow> quiet new
     | Inl e \<Rightarrow> quiet new \<or> ambiguous e \<and> landed (commits rqs) (past hist ew) new)"
  using assms(2) [unfolded post_transaction_def post_transaction_inner_def]
proof (cases rule: io_bind_cases)
  case (1 e)
  show ?thesis using probe_stays [OF assms(1) 1(1)] 1(2) by (auto simp: stays_def)
next
  case (2 supported ew1)
  have p: "stays hist ew ew1" by (rule probe_stays [OF assms(1) 2(1)])
  show ?thesis
  proof (cases supported)
    case False
    then show ?thesis using 2(2) p by (auto simp: stays_def)
  next
    case True
    obtain a ew2 where a: "on_catalog (ct_transaction ct rqs) ew1 = (a, ew2)" by (cases "on_catalog (ct_transaction ct rqs) ew1")
    obtain new where n: "past hist ew2 = past hist ew1 @ new" "answered a (commits rqs) (past hist ew1) new"
      using transaction_answered [OF assms(1) a] assms(3) by auto
    have e: "ew' = ew2" using 2(2) True a by (auto split: http_answer.splits if_splits)
    have r: "r = (case a of NoAnswer \<Rightarrow> Inl ''transaction commit POST failed''
        | Answer status body \<Rightarrow> if is_success status then Inr TxnCommitted else if status = 409 then Inr (TxnConflict body)
            else Inl ''catalog rejected transaction commit'')"
      using 2(2) True a by (cases a) (auto split: if_splits)
    have "quiet new \<and> r \<noteq> Inr TxnCommitted \<or>
        landed (commits rqs) (past hist ew1) new \<and> (r = Inr TxnCommitted \<or> (\<exists>e. r = Inl e \<and> ambiguous e))"
      using n(2) unfolding r answered_def ambiguous_def by (cases a) (simp_all split: if_splits)
    then consider "quiet new" "r \<noteq> Inr TxnCommitted"
      | "landed (commits rqs) (past hist ew1) new" "r = Inr TxnCommitted \<or> (\<exists>e. r = Inl e \<and> ambiguous e)" by blast
    then show ?thesis
    proof cases
      case 1
      then obtain m where "past hist ew' = past hist ew @ m" "quiet m" using stays_trans [OF p, of ew2] n(1) e unfolding stays_def by blast
      then show ?thesis using 1(2) by (intro exI [of _ m]) (auto split: sum.splits txn_commit_outcome.splits)
    next
      case 2
      then obtain m where "past hist ew' = past hist ew @ m" "landed (commits rqs) (past hist ew) m" using stays_landed [OF p n(1)] e by blast
      then show ?thesis using 2(2) by (intro exI [of _ m]) auto
    qed
  qed
qed

lemma live_requests:
  "concat (map (\<lambda>p. case p of None \<Rightarrow> [] | Some pc \<Rightarrow> [pc]) ps) = map (\<lambda>x. the (snd x)) (filter (\<lambda>x. snd x \<noteq> None) (zip ts ps))"
  if "length ts = length ps" using that by (induction ts ps rule: list_induct2) (auto split: option.splits)

definition nothing_to_do ::
  "(dml_statement \<Rightarrow> 'r \<Rightarrow> bool) \<Rightarrow> (dml_statement \<Rightarrow> 'r \<Rightarrow> 'r) \<Rightarrow> string \<Rightarrow> 'r history \<Rightarrow> 'r pinned_table \<Rightarrow> bool" where
  "nothing_to_do hit upd branch h t \<longleftrightarrow>
     (case t of (ident, pin, ops) \<Rightarrow>
        \<exists>tm head. known h ident tm \<and> branch_head tm branch = Inr head \<and> map_option sp_id head = pin \<and>
          mset (ops_rows hit upd ops (head_rows head)) = mset (head_rows head))"

lemma prepared_for_nothing:
  assumes "prepared_for oe cls h (ident, pin, ops) None" "client_sound (cls ident) hit upd M ops"
    and "\<And>tm. known h ident tm \<Longrightarrow> tm \<in> M"
  shows "nothing_to_do hit upd (oe_branch oe) (h @ new) (ident, pin, ops)"
proof -
  obtain tm pk where t: "known h ident tm" "check_pin oe tm pin = Inr ()"
    "prepare_commit (cl_engine (cls ident) 1) (cl_pkey (cls ident)) (cl_draws (cls ident) 1) ident tm ops pk (oe_branch oe) [] = Inr None"
    using assms(1) by (auto simp: prepared_for_def)
  show ?thesis using client_prepares [OF assms(2) assms(3) [OF t(1)] t(3)] t(2) known_mono [OF t(1), of new]
    unfolding check_pin_head nothing_to_do_def by auto
qed

definition transaction_effect ::
  "(dml_statement \<Rightarrow> 'r \<Rightarrow> bool) \<Rightarrow> (dml_statement \<Rightarrow> 'r \<Rightarrow> 'r) \<Rightarrow> string \<Rightarrow> 'r pinned_table list \<Rightarrow>
   multi_table_commit result \<Rightarrow> 'r history \<Rightarrow> 'r history \<Rightarrow> bool" where
  "transaction_effect hit upd branch tables r old new \<longleftrightarrow>
     (case r of
        Inl e \<Rightarrow> quiet new \<or> ambiguous e \<and> (\<exists>live. set live \<subseteq> set tables \<and> live \<noteq> [] \<and> landed (pinned_step hit upd branch live) old new)
      | Inr MultiUnsupported \<Rightarrow> quiet new
      | Inr MultiCommitted \<Rightarrow>
          (\<exists>live. set live \<subseteq> set tables \<and> (\<forall>t\<in>set tables - set live. nothing_to_do hit upd branch (old @ new) t) \<and>
             (if live = [] then quiet new else landed (pinned_step hit upd branch live) old new)))"

text \<open>The tables with a prepared commit, posted together.\<close>

lemma accepted_live:
  assumes "\<forall>(ident, pin, ops)\<in>set tables. client_sound (cls ident) hit upd (table_states hist ident) ops" "history_wf (hist w)" "set Z \<subseteq> set (zip tables ps)"
    and "list_all2 (prepared_for oe cls (hist w)) tables ps" "\<forall>x\<in>set Z. snd x \<noteq> None"
    and "commits (map (\<lambda>x. pc_request (the (snd x))) Z) old new" "old \<in> snd ` set (hist w)" "new \<in> snd ` set (hist w)"
  shows "pinned_step hit upd (oe_branch oe) (map fst Z) old new"
proof -
  have z: "prepared_for oe cls (hist w) t (Some pc) \<and> t \<in> set tables" if x: "(t, Some pc) \<in> set Z" for t pc
    using x assms(3,4) by (auto simp: list_all2_iff dest: set_zip_leftD)
  have step: "\<exists>counts sid. table_step hit upd (oe_branch oe) ident pin ops counts sid old new"
    if x: "((ident, pin, ops), Some pc) \<in> set Z" for ident pin ops pc
  proof -
    have "commits_one (pc_request pc) old new" using x assms(6) by (force simp: commits_def)
    then show ?thesis using prepared_for_step [of oe cls "hist w" ident pin ops pc hit upd "table_states hist ident" old new]
        z [OF x] assms(1,2,7,8) known_states [of hist w ident] by auto
  qed
  have "new i = old i" if i: "i \<notin> fst ` set (map fst Z)" for i
  proof -
    have "rq_identifier (pc_request (the (snd x))) \<noteq> Some i" if xz: "x \<in> set Z" for x
    proof -
      obtain ident pin ops pc where x: "x = ((ident, pin, ops), Some pc)" using assms(5) xz by (cases x) force
      then have "rq_identifier (pc_request pc) = Some ident" using z prepared_for_ident xz by blast
      moreover have "ident \<noteq> i" using i xz x by force
      ultimately show ?thesis using x by simp
    qed
    then have "Some i \<notin> rq_identifier ` set (map (\<lambda>x. pc_request (the (snd x))) Z)" unfolding set_map by fastforce
    then show ?thesis using assms(6) unfolding commits_def by blast
  qed
  moreover have "case t of (ident, pin, ops) \<Rightarrow> \<exists>counts sid. table_step hit upd (oe_branch oe) ident pin ops counts sid old new"
    if t: "t \<in> set (map fst Z)" for t
  proof -
    obtain ident pin ops where t': "t = (ident, pin, ops)" by (cases t)
    then obtain p where "((ident, pin, ops), p) \<in> set Z" using t by auto
    moreover from this obtain pc where "p = Some pc" using assms(5) by fastforce
    ultimately show ?thesis unfolding t' prod.case using step by blast
  qed
  ultimately show ?thesis unfolding pinned_step_def by blast
qed

lemma post_live_effect:
  assumes "catalog_sound ct hist" "\<forall>(ident, pin, ops)\<in>set tables. client_sound (cls ident) hit upd (table_states hist ident) ops" "stays hist ew ew2"
    and "list_all2 (prepared_for oe cls (past hist ew2)) tables ps"
    and "(let live = concat (map (\<lambda>p. case p of None \<Rightarrow> [] | Some pc \<Rightarrow> [pc]) ps) in
           if live = [] then returns MultiCommitted
           else io_bind (post_transaction ct (map pc_request live)) (\<lambda>outcome.
                  case outcome of
                    TxnCommitted \<Rightarrow> returns MultiCommitted
                  | TxnConflict msg \<Rightarrow> fails ''40001''
                  | TxnUnsupported \<Rightarrow> returns MultiUnsupported)) ew2 = (r, ew')"
  shows "\<exists>new. past hist ew' = past hist ew @ new \<and> transaction_effect hit upd (oe_branch oe) tables r (past hist ew) new"
proof -
  let ?Z = "filter (\<lambda>x. snd x \<noteq> None) (zip tables ps)"
  let ?rqs = "map (\<lambda>x. pc_request (the (snd x))) ?Z"
  have hw: "history_wf (hist w)" for w using assms(1) by (simp add: catalog_sound_def)
  have len: "length tables = length ps" using assms(4) by (rule list_all2_lengthD)
  have rest: "nothing_to_do hit upd (oe_branch oe) (past hist ew2 @ m) t" if t: "t \<in> set tables - set (map fst ?Z)" for t m
  proof -
    obtain p where p: "(t, p) \<in> set (zip tables ps)" using in_set_impl_in_set_zip1 [OF len] t by blast
    have "p = None"
    proof (rule ccontr)
      assume "p \<noteq> None"
      then have "(t, p) \<in> set ?Z" using p unfolding set_filter by (intro CollectI conjI) simp_all
      then have "fst (t, p) \<in> fst ` set ?Z" by (rule imageI)
      then show False using t by (simp only: set_map fst_conv Diff_iff) blast
    qed
    then have f: "prepared_for oe cls (past hist ew2) t None" using p assms(4) unfolding list_all2_iff by blast
    obtain ident pin ops where t': "t = (ident, pin, ops)" by (cases t)
    then have "client_sound (cls ident) hit upd (table_states hist ident) ops" using assms(2) t by blast
    then show ?thesis using prepared_for_nothing [OF f [unfolded t']] known_states [of hist "ew_catalog ew2" ident] unfolding t' by blast
  qed
  have sub: "set (map fst ?Z) \<subseteq> set tables" by (auto dest: set_zip_leftD)
  show ?thesis
  proof (cases "?Z = []")
    case True
    then have r: "r = Inr MultiCommitted" "ew' = ew2" using assms(5) live_requests [OF len] by (simp_all add: Let_def)
    obtain m where "past hist ew2 = past hist ew @ m" "quiet m" using assms(3) by (auto simp: stays_def)
    moreover have "\<forall>t\<in>set tables - set []. nothing_to_do hit upd (oe_branch oe) (past hist ew2) t"
      using rest [of _ "[]"] unfolding True append_Nil2 list.map by blast
    ultimately show ?thesis unfolding r transaction_effect_def
      by (intro exI [of _ m] conjI) (auto simp del: set_empty simp: r intro!: exI [of _ "[]"])
  next
    case False
    obtain q ew3 where q: "post_transaction ct ?rqs ew2 = (q, ew3)" by (cases "post_transaction ct ?rqs ew2")
    have r: "r = (case q of Inl e \<Rightarrow> Inl e | Inr TxnCommitted \<Rightarrow> Inr MultiCommitted | Inr (TxnConflict _) \<Rightarrow> Inl ''40001'' | Inr TxnUnsupported \<Rightarrow> Inr MultiUnsupported)"
      "ew' = ew3"
      using assms(5) False q live_requests [OF len]
      by (auto simp: Let_def io_bind_def comp_def split: sum.splits txn_commit_outcome.splits)
    have "\<forall>rq\<in>set ?rqs. rq_identifier rq \<noteq> None"
      using assms(4) prepared_for_ident by (fastforce simp: list_all2_iff)
    from post_transaction_answered [OF assms(1) q this] obtain new where n: "past hist ew3 = past hist ew2 @ new"
      "case q of Inr TxnCommitted \<Rightarrow> landed (commits ?rqs) (past hist ew2) new | Inr _ \<Rightarrow> quiet new
       | Inl e \<Rightarrow> quiet new \<or> ambiguous e \<and> landed (commits ?rqs) (past hist ew2) new" by blast
    have land: "\<exists>new. past hist ew3 = past hist ew @ new \<and> landed (pinned_step hit upd (oe_branch oe) (map fst ?Z)) (past hist ew) new"
      if l: "landed (commits ?rqs) (past hist ew2) new"
    proof (rule stays_landed [OF assms(3) n(1)], rule landed_mono [OF landed_within [OF l history_wfD(2) [OF hw]]])
      fix b0 l
      assume "commits ?rqs b0 l \<and> b0 \<in> snd ` set (past hist ew2 @ new) \<and> l \<in> snd ` set (past hist ew2 @ new)"
      moreover have "history_wf (past hist ew2 @ new)" using hw [of "ew_catalog ew3"] n(1) by simp
      moreover have "list_all2 (prepared_for oe cls (past hist ew2 @ new)) tables ps"
        using assms(4) prepared_for_mono by (rule list_all2_mono)
      ultimately show "pinned_step hit upd (oe_branch oe) (map fst ?Z) b0 l"
        unfolding n(1) [symmetric]
        by (intro accepted_live [OF assms(2), where w = "ew_catalog ew3" and ps = ps]) auto
    qed
    define live where "live = map fst ?Z"
    have live: "live \<noteq> []" "set live \<subseteq> set tables" "\<forall>t\<in>set tables - set live. nothing_to_do hit upd (oe_branch oe) (past hist ew3) t"
      using False sub rest unfolding live_def n(1) by (simp, blast, blast)
    have "quiet new \<and> q \<noteq> Inr TxnCommitted \<or>
        landed (commits ?rqs) (past hist ew2) new \<and> (q = Inr TxnCommitted \<or> (\<exists>e. q = Inl e \<and> ambiguous e))"
      using n(2) by (simp split: sum.splits txn_commit_outcome.splits) blast
    then consider "quiet new" "q \<noteq> Inr TxnCommitted"
      | "landed (commits ?rqs) (past hist ew2) new" "q = Inr TxnCommitted \<or> (\<exists>e. q = Inl e \<and> ambiguous e)" by blast
    then show ?thesis
    proof cases
      case 1
      then obtain m where "past hist ew3 = past hist ew @ m" "quiet m" using stays_trans [OF assms(3), of ew3] n(1) unfolding stays_def by blast
      then show ?thesis using 1(2) unfolding r transaction_effect_def
        by (intro exI [of _ m]) (simp split: sum.splits txn_commit_outcome.splits)
    next
      case 2
      then obtain m where m: "past hist ew3 = past hist ew @ m" "landed (pinned_step hit upd (oe_branch oe) live) (past hist ew) m"
        using land unfolding live_def by blast
      from 2(2) show ?thesis
      proof
        assume "q = Inr TxnCommitted"
        then show ?thesis using m live unfolding r transaction_effect_def
          by (intro exI [of _ m] conjI) (simp_all, intro exI [of _ live], simp)
      next
        assume "\<exists>e. q = Inl e \<and> ambiguous e"
        then obtain e where e: "q = Inl e" "ambiguous e" by blast
        show ?thesis using m live(1,2) e(2) unfolding r transaction_effect_def e(1) sum.case
          by (intro exI [of _ m] conjI disjI2 exI [of _ live])
      qed
    qed
  qed
qed

lemma pinned_multi_effect:
  assumes "catalog_sound ct hist" "\<forall>(ident, pin, ops)\<in>set tables. client_sound (cls ident) hit upd (table_states hist ident) ops"
    and "commit_pinned_multi ct oe cls tables ew = (r, ew')"
  shows "\<exists>new. past hist ew' = past hist ew @ new \<and> transaction_effect hit upd (oe_branch oe) tables r (past hist ew) new"
  using assms(3) [unfolded commit_pinned_multi_def]
proof (cases rule: io_bind_cases)
  case (1 e)
  show ?thesis using probe_stays [OF assms(1) 1(1)] 1(2) by (auto simp: stays_def transaction_effect_def)
next
  case (2 supported ew1)
  have p: "stays hist ew ew1" by (rule probe_stays [OF assms(1) 2(1)])
  show ?thesis
  proof (cases supported)
    case False
    then show ?thesis using 2(2) p by (auto simp: stays_def transaction_effect_def)
  next
    case True
    from 2(2) True obtain q ew2 where q: "io_map (prepare_pinned ct oe cls) tables ew1 = (q, ew2)" by (metis surj_pair)
    have st: "stays hist ew1 ew2 \<and> (\<forall>ps. q = Inr ps \<longrightarrow> list_all2 (prepared_for oe cls (past hist ew2)) tables ps)"
      by (rule io_map_stays [OF prepare_pinned_stays [OF assms(1)] prepared_for_mono q])
    then have s: "stays hist ew ew2" using p stays_trans by blast
    show ?thesis
    proof (cases q)
      case (Inl e)
      then show ?thesis using 2(2) True q s by (auto simp: io_bind_def stays_def transaction_effect_def)
    next
      case (Inr ps)
      then have l: "list_all2 (prepared_for oe cls (past hist ew2)) tables ps" using st by blast
      show ?thesis using 2(2) True q Inr by (intro post_live_effect [OF assms(1,2) s l]) (simp add: io_bind_def Let_def)
    qed
  qed
qed

end
