(* ===== verification/BranchSpec.thy ===== *)
theory BranchSpec
  imports Branch TransactionSpec
begin

text \<open>
  What the branch operations promise.  A branch of the whole lake is a consistent cut: at one moment every
  branched table's \<^verbatim>\<open>main\<close> is where the branch points.  A merge only moves a branch forward along its own
  history, for all tables in one step or for none.  The walk over nested namespaces returns when the
  namespaces are finitely many, and expiry keeps what is referenced or recent.
\<close>

section \<open>Lineage\<close>

lemma lineage_closed:
  "x \<in> set (lineage_walk tm seen cur) \<Longrightarrow> parent_of tm x = Some (Some y) \<Longrightarrow> parent_of tm y \<noteq> None \<Longrightarrow>
     y \<in> seen \<union> set (lineage_walk tm seen cur)"
proof (induction tm seen cur rule: lineage_walk.induct)
  case (2 tm seen i)
  show ?case
  proof (cases "i \<in> seen \<or> parent_of tm i = None")
    case True
    then show ?thesis using 2(2) by auto
  next
    case False
    then obtain p where p: "parent_of tm i = Some p" by blast
    show ?thesis
    proof (cases "x = i")
      case True
      then have "p = Some y" using p 2(3) by simp
      then show ?thesis using 2(4) p False by (cases "y = i") auto
    next
      case x: False
      then have "x \<in> set (lineage_walk tm (insert i seen) p)" using 2(2) p False by simp
      from 2(1) [OF _ p this 2(3,4)] False show ?thesis using p by auto
    qed
  qed
qed simp

lemma lineage_within:
  assumes "\<And>x y. x \<in> C \<Longrightarrow> parent_of tm x = Some (Some y) \<Longrightarrow> parent_of tm y \<noteq> None \<Longrightarrow> y \<in> C"
  shows "(\<And>i. cur = Some i \<Longrightarrow> parent_of tm i \<noteq> None \<Longrightarrow> i \<in> C) \<Longrightarrow> set (lineage_walk tm seen cur) \<subseteq> C"
  using assms
proof (induction tm seen cur rule: lineage_walk.induct)
  case (2 tm seen i)
  show ?case
  proof (cases "i \<in> seen \<or> parent_of tm i = None")
    case False
    then obtain p where p: "parent_of tm i = Some p" by blast
    have i: "i \<in> C" using 2(2) False by simp
    have "set (lineage_walk tm (insert i seen) p) \<subseteq> C"
      by (rule 2(1) [OF _ p]) (use False i p 2(3) in auto)
    then show ?thesis using p False i by simp
  qed auto
qed simp

text \<open>A head on the lineage of another: its whole known history is part of the other's.\<close>

lemma lineage_of_ancestor: "b \<in> set (lineage_of tm a) \<Longrightarrow> set (lineage_of tm b) \<subseteq> set (lineage_of tm a)"
  unfolding lineage_of_def using lineage_closed [of _ tm "{}" "Some a"] by (intro lineage_within) auto

lemma fork_at_target: "fork_point tm a b = Some c \<Longrightarrow> c \<in> set (lineage_of tm a) \<and> c \<in> set (lineage_of tm b)"
  by (auto simp: fork_point_def find_Some_iff)

section \<open>Requests\<close>

lemma commits_set_ref:
  assumes "commits_one rq old new" "rq_identifier rq = Some ident" "rq_updates rq = [SetSnapshotRef r i]"
  obtains tm tm' where "old ident = Some tm" "new ident = Some tm'" "\<forall>q\<in>set (rq_requirements rq). requirement_holds tm q"
    "tm_refs tm' = (tm_refs tm)(r \<mapsto> i)" "tm_snapshots tm' = tm_snapshots tm"
  using assms by (auto simp: commits_one_def)

text \<open>The branch \<open>name\<close> of every captured table, set at one moment at which \<^verbatim>\<open>main\<close> is where it was captured.\<close>

definition cut_step :: "string \<Rightarrow> (lake_ident \<times> int) list \<Rightarrow> 'r lake \<Rightarrow> 'r lake \<Rightarrow> bool" where
  "cut_step name branched old new \<longleftrightarrow>
     (\<forall>(ident, src)\<in>set branched. \<exists>tm tm'. old ident = Some tm \<and> new ident = Some tm' \<and> tm_refs tm name = None \<and>
        tm_refs tm MAIN_BRANCH = Some src \<and> tm_refs tm' = (tm_refs tm)(name \<mapsto> src) \<and> tm_snapshots tm' = tm_snapshots tm) \<and>
     (\<forall>i. i \<notin> fst ` set branched \<longrightarrow> new i = old i)"

lemma branch_request_step:
  assumes "commits_one (set_branch_ref_request ident uuid name src True) old new"
  shows "\<exists>tm tm'. old ident = Some tm \<and> new ident = Some tm' \<and> tm_refs tm name = None \<and>
        tm_refs tm MAIN_BRANCH = Some src \<and> tm_refs tm' = (tm_refs tm)(name \<mapsto> src) \<and> tm_snapshots tm' = tm_snapshots tm"
  by (rule commits_set_ref [OF assms, of ident name src]) (auto simp: set_branch_ref_request_def)

text \<open>A fast-forward moves \<open>to_ref\<close> to the head of \<open>from_ref\<close>, both still where they were compared.\<close>

definition forward_step :: "string \<Rightarrow> string \<Rightarrow> fast_forward_move list \<Rightarrow> 'r lake \<Rightarrow> 'r lake \<Rightarrow> bool" where
  "forward_step from_ref to_ref moves old new \<longleftrightarrow>
     (\<forall>mv\<in>set moves. \<exists>tm tm'. old (fm_ident mv) = Some tm \<and> new (fm_ident mv) = Some tm' \<and>
        tm_refs tm to_ref = Some (fm_to_head mv) \<and> tm_refs tm from_ref = Some (fm_from_head mv) \<and>
        tm_refs tm' = (tm_refs tm)(to_ref \<mapsto> fm_from_head mv) \<and> tm_snapshots tm' = tm_snapshots tm) \<and>
     (\<forall>i. i \<notin> fm_ident ` set moves \<longrightarrow> new i = old i)"

lemma forward_requests_step:
  assumes "commits (map (\<lambda>mv. fast_forward_request mv from_ref to_ref) moves) old new"
  shows "forward_step from_ref to_ref moves old new"
proof -
  have "\<exists>tm tm'. old (fm_ident mv) = Some tm \<and> new (fm_ident mv) = Some tm' \<and>
        tm_refs tm to_ref = Some (fm_to_head mv) \<and> tm_refs tm from_ref = Some (fm_from_head mv) \<and>
        tm_refs tm' = (tm_refs tm)(to_ref \<mapsto> fm_from_head mv) \<and> tm_snapshots tm' = tm_snapshots tm" if mv: "mv \<in> set moves" for mv
  proof -
    have "commits_one (fast_forward_request mv from_ref to_ref) old new" using assms mv by (simp add: commits_def)
    then show ?thesis by (rule commits_set_ref [of _ _ _ "fm_ident mv" to_ref "fm_from_head mv"]) (auto simp: fast_forward_request_def)
  qed
  moreover have "new i = old i" if i: "i \<notin> fm_ident ` set moves" for i
  proof -
    have "Some i \<notin> rq_identifier ` set (map (\<lambda>mv. fast_forward_request mv from_ref to_ref) moves)"
      using i by (auto simp: fast_forward_request_def)
    then show ?thesis using assms unfolding commits_def by blast
  qed
  ultimately show ?thesis unfolding forward_step_def by blast
qed

lemma forward_landed:
  "landed (commits (map (\<lambda>mv. fast_forward_request mv from_ref to_ref) moves)) old new \<Longrightarrow> landed (forward_step from_ref to_ref moves) old new"
  by (erule landed_mono) (rule forward_requests_step)

section \<open>Listing\<close>

lemma list_stays:
  assumes "catalog_sound ct hist"
  shows "on_catalog (ct_tables ct n) ew = (r1, ew') \<Longrightarrow> stays hist ew ew'" "on_catalog (ct_namespaces ct p) ew = (r2, ew') \<Longrightarrow> stays hist ew ew'"
    "on_catalog (ct_metadata ct i) ew = (r3, ew') \<Longrightarrow> stays hist ew ew'"
proof -
  have l: "lists_quietly ct hist" using assms by (simp add: catalog_sound_def)
  show "on_catalog (ct_tables ct n) ew = (r1, ew') \<Longrightarrow> stays hist ew ew'"
    using l on_catalog_eq [of "ct_tables ct n" ew r1 ew'] unfolding lists_quietly_def stays_def by blast
  show "on_catalog (ct_namespaces ct p) ew = (r2, ew') \<Longrightarrow> stays hist ew ew'"
    using l on_catalog_eq [of "ct_namespaces ct p" ew r2 ew'] unfolding lists_quietly_def stays_def by blast
  show "on_catalog (ct_metadata ct i) ew = (r3, ew') \<Longrightarrow> stays hist ew ew'"
    using l on_catalog_eq [of "ct_metadata ct i" ew r3 ew'] unfolding lists_quietly_def stays_def by blast
qed

lemma walk_stays: "walk_namespaces ct stack visited out ew = Some res \<Longrightarrow> catalog_sound ct hist \<Longrightarrow> stays hist ew (snd res)"
proof (induction ct stack visited out ew res rule: walk_namespaces.raw_induct [rotated, consumes 1, case_names walk])
  case (walk f ct stack visited out ew res)
  note assms = walk(3)
  obtain q1 e1 where q1: "on_catalog (ct_tables ct (last stack)) ew = (q1, e1)" by (cases "on_catalog (ct_tables ct (last stack)) ew")
  obtain q2 e2 where q2: "on_catalog (ct_namespaces ct (Some (last stack))) e1 = (q2, e2)"
    by (cases "on_catalog (ct_namespaces ct (Some (last stack))) e1")
  have s: "stays hist ew e1" "stays hist ew e2" using list_stays(1) [OF assms q1] list_stays(2) [OF assms q2] stays_trans by blast+
  show ?case
  proof (cases "stack = [] \<or> last stack \<in> set visited")
    case True
    then show ?thesis using walk by (auto split: if_splits)
  next
    case False
    have r: "(case q1 of Inl e \<Rightarrow> Some (Inl e, e1) | Inr ts \<Rightarrow> (case q2 of Inl e \<Rightarrow> Some (Inl e, e2)
        | Inr cs \<Rightarrow> f ct (butlast stack @ cs) (last stack # visited) (out @ ts) e2)) = Some res"
      using walk(2) False by (cases q1; cases q2) (simp_all add: q1 q2)
    show ?thesis
    proof (cases "\<exists>ts cs. q1 = Inr ts \<and> q2 = Inr cs")
      case True
      then obtain ts cs where "f ct (butlast stack @ cs) (last stack # visited) (out @ ts) e2 = Some res" using r by auto
      then show ?thesis using walk(1) assms s(2) stays_trans by blast
    qed (use s r in \<open>cases q1; cases q2; auto\<close>)
  qed
qed

text \<open>With finitely many namespaces the walk returns: each is expanded at most once.\<close>

lemma walk_returns:
  assumes "finite N" "\<And>p ew cs ew'. on_catalog (ct_namespaces ct p) ew = (Inr cs, ew') \<Longrightarrow> set cs \<subseteq> N" "set stack \<subseteq> N"
  shows "\<exists>res. walk_namespaces ct stack visited out ew = Some res"
  using assms(3)
proof (induction "(card (N - set visited), length stack)" arbitrary: stack visited out ew rule: wf_induct_rule [OF wf_lex_prod [OF wf_less_than wf_less_than]])
  case 1
  show ?case
  proof (cases "stack = []")
    case True
    then show ?thesis by (simp add: walk_namespaces.simps)
  next
    case ne: False
    then have l: "last stack \<in> N" "set (butlast stack) \<subseteq> N" using 1(2) by (auto dest: in_set_butlastD)
    obtain q1 e1 where q1: "on_catalog (ct_tables ct (last stack)) ew = (q1, e1)" by (cases "on_catalog (ct_tables ct (last stack)) ew")
    obtain q2 e2 where q2: "on_catalog (ct_namespaces ct (Some (last stack))) e1 = (q2, e2)"
      by (cases "on_catalog (ct_namespaces ct (Some (last stack))) e1")
    show ?thesis
    proof (cases "last stack \<in> set visited")
      case True
      have "\<exists>res. walk_namespaces ct (butlast stack) visited out ew = Some res" by (rule 1(1)) (use ne l in auto)
      then show ?thesis using ne True by (simp add: walk_namespaces.simps [of ct stack])
    next
      case False
      have "card (N - set (last stack # visited)) < card (N - set visited)"
        by (rule psubset_card_mono) (use assms(1) False l in auto)
      then have "\<exists>res. walk_namespaces ct (butlast stack @ cs) (last stack # visited) (out @ ts) e2 = Some res" if "q2 = Inr cs" for cs ts
        by (intro 1(1)) (use assms(2) q2 that l in auto)
      then show ?thesis using ne False q1 q2 by (cases q1; cases q2) (auto simp: walk_namespaces.simps [of ct stack])
    qed
  qed
qed

lemma list_returns:
  assumes "finite N" "\<And>p ew cs ew'. on_catalog (ct_namespaces ct p) ew = (Inr cs, ew') \<Longrightarrow> set cs \<subseteq> N"
  shows "\<exists>res. list_all_tables ct ew = Some res"
proof -
  obtain q e1 where q: "on_catalog (ct_namespaces ct None) ew = (q, e1)" by (cases "on_catalog (ct_namespaces ct None) ew")
  show ?thesis
  proof (cases q)
    case (Inr stack)
    then have "\<exists>res. walk_namespaces ct stack [] [] e1 = Some res" using q assms(2) by (intro walk_returns [OF assms(1)]) blast+
    then show ?thesis using q Inr by (auto simp: list_all_tables_def)
  qed (use q in \<open>simp add: list_all_tables_def\<close>)
qed

lemma listed_stays:
  assumes "catalog_sound ct hist" "list_all_tables ct ew = Some (r, ew')"
  shows "stays hist ew ew'"
proof -
  obtain q e1 where q: "on_catalog (ct_namespaces ct None) ew = (q, e1)" by (cases "on_catalog (ct_namespaces ct None) ew")
  have s: "stays hist ew e1" by (rule list_stays(2) [OF assms(1) q])
  show ?thesis
  proof (cases q)
    case (Inl e)
    then show ?thesis using assms(2) q s by (simp add: list_all_tables_def)
  next
    case (Inr stack)
    then obtain res where "walk_namespaces ct stack [] [] e1 = Some res" "ew' = snd res" using assms(2) q by (auto simp: list_all_tables_def)
    then show ?thesis using walk_stays [OF _ assms(1)] s stays_trans by blast
  qed
qed

section \<open>A branch of the whole lake\<close>

definition captured_as :: "string \<Rightarrow> lake_ident \<Rightarrow> lake_ident \<times> ('r commit_table_request \<times> int) option \<Rightarrow> bool" where
  "captured_as name ident c \<longleftrightarrow> fst c = ident \<and>
     (\<forall>rq src. snd c = Some (rq, src) \<longrightarrow> (\<exists>uuid. rq = set_branch_ref_request ident uuid name src True))"

lemma capture_stays:
  assumes "catalog_sound ct hist" "capture_branch ct name ident ew = (r, ew')"
  shows "stays hist ew ew' \<and> (\<forall>c. r = Inr c \<longrightarrow> captured_as name ident c)"
  using assms(2) [unfolded capture_branch_def]
proof (cases rule: io_bind_cases)
  case (1 e)
  then show ?thesis using load_stays [OF assms(1) 1(1)] by simp
next
  case (2 tm ew1)
  then show ?thesis using load_stays [OF assms(1) 2(1)] by (auto simp: captured_as_def)
qed

lemma captured_requests:
  assumes "\<forall>c\<in>set captured. \<exists>ident. captured_as name ident c"
    and "commits (List.map_filter (\<lambda>(i, c). map_option fst c) captured) old new"
  shows "cut_step name (List.map_filter (\<lambda>(i, c). map_option (\<lambda>x. (i, snd x)) c) captured) old new"
proof -
  have "\<exists>tm tm'. old ident = Some tm \<and> new ident = Some tm' \<and> tm_refs tm name = None \<and>
        tm_refs tm MAIN_BRANCH = Some src \<and> tm_refs tm' = (tm_refs tm)(name \<mapsto> src) \<and> tm_snapshots tm' = tm_snapshots tm"
    if m: "(ident, src) \<in> set (List.map_filter (\<lambda>(i, c). map_option (\<lambda>x. (i, snd x)) c) captured)" for ident src
  proof -
    obtain rq where c: "(ident, Some (rq, src)) \<in> set captured" using m by (auto simp: List.map_filter_def split: option.splits)
    obtain uuid where "rq = set_branch_ref_request ident uuid name src True" using bspec [OF assms(1) c] by (auto simp: captured_as_def)
    moreover have "rq \<in> set (List.map_filter (\<lambda>(i, c). map_option fst c) captured)" using c by (force simp: List.map_filter_def)
    then have "commits_one rq old new" using assms(2) unfolding commits_def by blast
    ultimately show ?thesis using branch_request_step by blast
  qed
  moreover have "new i = old i" if i: "i \<notin> fst ` set (List.map_filter (\<lambda>(i, c). map_option (\<lambda>x. (i, snd x)) c) captured)" for i
  proof -
    have "rq_identifier rq \<noteq> Some i" if c: "(ident, Some (rq, src)) \<in> set captured" for ident rq src
    proof -
      have "rq_identifier rq = Some ident" using bspec [OF assms(1) c] by (auto simp: captured_as_def set_branch_ref_request_def)
      moreover have "(ident, src) \<in> set (List.map_filter (\<lambda>(i, c). map_option (\<lambda>x. (i, snd x)) c) captured)"
        using c by (force simp: List.map_filter_def)
      ultimately show ?thesis using i by force
    qed
    then have "Some i \<notin> rq_identifier ` set (List.map_filter (\<lambda>(i, c). map_option fst c) captured)"
      by (force simp: List.map_filter_def split: option.splits)
    then show ?thesis using assms(2) unfolding commits_def by blast
  qed
  ultimately show ?thesis unfolding cut_step_def by blast
qed

definition branch_all_effect ::
  "string \<Rightarrow> ((lake_ident \<times> int) list \<times> lake_ident list) result \<Rightarrow> 'r history \<Rightarrow> 'r history \<Rightarrow> bool" where
  "branch_all_effect name r old new \<longleftrightarrow>
     (case r of
        Inr (branched, skipped) \<Rightarrow> branched \<noteq> [] \<and> landed (cut_step name branched) old new
      | Inl e \<Rightarrow> quiet new \<or> ambiguous e \<and> (\<exists>branched. branched \<noteq> [] \<and> landed (cut_step name branched) old new))"

lemma branch_effect_stays:
  assumes "stays hist a b" "past hist c = past hist b @ new" "branch_all_effect name r (past hist b) new"
  shows "\<exists>new. past hist c = past hist a @ new \<and> branch_all_effect name r (past hist a) new"
proof -
  obtain m where m: "past hist b = past hist a @ m" "quiet m" using assms(1) by (auto simp: stays_def)
  have "branch_all_effect name r (past hist a) (m @ new)"
    using assms(3) m landed_quiet_before [OF m(2)] unfolding branch_all_effect_def by (auto split: sum.splits)
  then show ?thesis using assms(2) m(1) by (intro exI [of _ "m @ new"]) simp
qed

lemma branch_idents_effect:
  assumes "catalog_sound ct hist" "branch_idents ct name idents ew = (r, ew')"
  shows "\<exists>new. past hist ew' = past hist ew @ new \<and> branch_all_effect name r (past hist ew) new"
proof (cases "idents = []")
  case True
  then show ?thesis using assms(2) by (auto simp: branch_idents_def branch_all_effect_def)
next
  case False
  from assms(2) [unfolded branch_idents_def if_not_P [OF False]] show ?thesis
  proof (cases rule: io_bind_cases)
    case (1 e)
    have "stays hist ew ew'" using io_map_stays [where P = "\<lambda>_. captured_as name", OF capture_stays [OF assms(1)] _ 1(1)] by blast
    then show ?thesis using 1(2) by (auto simp: stays_def branch_all_effect_def)
  next
    case (2 captured ew1)
    let ?rqs = "List.map_filter (\<lambda>(i, c). map_option fst c) captured"
      and ?br = "List.map_filter (\<lambda>(i, c). map_option (\<lambda>x. (i, snd x)) c) captured"
    have st: "stays hist ew ew1 \<and> (\<forall>cs. (Inr captured :: _ result) = Inr cs \<longrightarrow> list_all2 (captured_as name) idents cs)"
      by (rule io_map_stays [where P = "\<lambda>_. captured_as name", OF capture_stays [OF assms(1)] _ 2(1)])
    then have s: "stays hist ew ew1" "\<forall>c\<in>set captured. \<exists>ident. captured_as name ident c"
      by (blast, metis list_all2_conv_all_nth in_set_conv_nth)
    show ?thesis
    proof (cases "?br = []")
      case True
      then show ?thesis using 2(2) s(1) by (auto simp: Let_def stays_def branch_all_effect_def)
    next
      case False
      obtain q ew2 where q: "post_transaction ct ?rqs ew1 = (q, ew2)" by (cases "post_transaction ct ?rqs ew1")
      have "\<forall>rq\<in>set ?rqs. rq_identifier rq \<noteq> None"
        using s(2) by (fastforce simp: List.map_filter_def captured_as_def set_branch_ref_request_def split: option.splits)
      from post_transaction_answered [OF assms(1) q this] obtain new where n: "past hist ew2 = past hist ew1 @ new"
        "case q of Inr TxnCommitted \<Rightarrow> landed (commits ?rqs) (past hist ew1) new | Inr _ \<Rightarrow> quiet new
         | Inl e \<Rightarrow> quiet new \<or> ambiguous e \<and> landed (commits ?rqs) (past hist ew1) new" by blast
      have l: "landed (cut_step name ?br) (past hist ew1) new" if "landed (commits ?rqs) (past hist ew1) new"
        using that captured_requests [OF s(2)] by (rule landed_mono)
      have r: "ew' = ew2"
        using 2(2) False q by (auto simp: Let_def io_bind_def split: sum.splits txn_commit_outcome.splits)
      have "branch_all_effect name r (past hist ew1) new"
        using n(2) l False 2(2) q unfolding branch_all_effect_def
        by (cases q) (auto simp: Let_def io_bind_def split: txn_commit_outcome.splits)
      then show ?thesis using branch_effect_stays [OF s(1)] n(1) r by blast
    qed
  qed
qed

lemma create_branch_all_effect:
  assumes "catalog_sound ct hist" "create_branch_all ct name ew = Some (r, ew')"
  shows "\<exists>new. past hist ew' = past hist ew @ new \<and> branch_all_effect name r (past hist ew) new"
proof (cases "name = MAIN_BRANCH")
  case True
  then show ?thesis using assms(2) by (auto simp: create_branch_all_def branch_all_effect_def)
next
  case False
  then obtain q ew1 where q: "list_all_tables ct ew = Some (q, ew1)" "io_bind (io_lift q) (branch_idents ct name) ew1 = (r, ew')"
    using assms(2) by (auto simp: create_branch_all_def)
  have s: "stays hist ew ew1" by (rule listed_stays [OF assms(1) q(1)])
  show ?thesis
  proof (cases q)
    case (Inl e)
    then show ?thesis using q(2) s by (auto simp: io_bind_def stays_def branch_all_effect_def)
  next
    case (Inr idents)
    then have "branch_idents ct name idents ew1 = (r, ew')" using q(2) by simp
    then show ?thesis using branch_idents_effect [OF assms(1)] branch_effect_stays [OF s] by blast
  qed
qed

section \<open>Merge\<close>

text \<open>The target's known history is part of the source's, on metadata the catalog has had.\<close>

definition ahead :: "'r history \<Rightarrow> fast_forward_move \<Rightarrow> bool" where
  "ahead h mv \<longleftrightarrow> fm_from_head mv \<noteq> fm_to_head mv \<and>
     (\<exists>tm. known h (fm_ident mv) tm \<and> fm_to_head mv \<in> set (lineage_of tm (fm_from_head mv)) \<and>
        set (lineage_of tm (fm_to_head mv)) \<subseteq> set (lineage_of tm (fm_from_head mv)))"

lemma ahead_mono: "ahead h mv \<Longrightarrow> ahead (h @ new) mv"
  unfolding ahead_def using known_mono by blast

lemma plan_ahead:
  assumes "plan_merge (compare_table tm ident a b) = FastForward mv" "known h ident tm"
  shows "ahead h mv"
proof -
  obtain ah bh where h: "map_option sp_id (snapshot_for_ref tm a) = Some ah" "map_option sp_id (snapshot_for_ref tm b) = Some bh" "ah \<noteq> bh"
    "fork_point tm ah bh = Some bh" "mv = \<lparr>fm_ident = ident, fm_uuid = tm_uuid tm, fm_from_head = ah, fm_to_head = bh\<rparr>"
    using assms(1) by (auto simp: plan_merge_def compare_table_def classify_def Let_def split: option.splits if_splits)
  have "bh \<in> set (lineage_of tm ah)" using fork_at_target [OF h(4)] by blast
  then show ?thesis using assms(2) h(3,5) lineage_of_ancestor [of bh tm ah] unfolding ahead_def by (intro conjI exI [of _ tm]) simp_all
qed

lemma plan_moves_in: "mv \<in> set (plan_moves ps) \<longleftrightarrow> FastForward mv \<in> set ps"
  by (induction ps rule: plan_moves.induct) auto

definition merge_effect :: "string \<Rightarrow> string \<Rightarrow> bool \<Rightarrow> unit result \<Rightarrow> 'r history \<Rightarrow> 'r history \<Rightarrow> bool" where
  "merge_effect from_ref to_ref exec r old new \<longleftrightarrow>
     quiet new \<or>
     exec \<and> (\<forall>e. r = Inl e \<longrightarrow> ambiguous e) \<and>
     (\<exists>moves. moves \<noteq> [] \<and> (\<forall>mv\<in>set moves. ahead (old @ new) mv) \<and> landed (forward_step from_ref to_ref moves) old new)"

lemma merge_effect_stays:
  assumes "stays hist a b" "past hist c = past hist b @ new" "merge_effect f t exec r (past hist b) new"
  shows "\<exists>new. past hist c = past hist a @ new \<and> merge_effect f t exec r (past hist a) new"
proof -
  obtain m where m: "past hist b = past hist a @ m" "quiet m" using assms(1) by (auto simp: stays_def)
  have "merge_effect f t exec r (past hist a) (m @ new)"
    using assms(3) m landed_quiet_before [OF m(2)] unfolding merge_effect_def by auto
  then show ?thesis using assms(2) m(1) by (intro exI [of _ "m @ new"]) simp
qed

lemma forward_all_effect:
  assumes "catalog_sound ct hist" "merge_fast_forward_all ct from_ref to_ref moves ew = (r, ew')"
  shows "\<exists>new. past hist ew' = past hist ew @ new \<and>
    (quiet new \<or> (\<forall>e. r = Inl e \<longrightarrow> ambiguous e) \<and> moves \<noteq> [] \<and> landed (forward_step from_ref to_ref moves) (past hist ew) new)"
proof -
  let ?rqs = "map (\<lambda>mv. fast_forward_request mv from_ref to_ref) moves"
  consider "moves = []" | mv where "moves = [mv]" | "moves \<noteq> []" "\<forall>mv. moves \<noteq> [mv]" by blast
  then show ?thesis
  proof cases
    case 1
    then show ?thesis using assms(2) by (auto simp: merge_fast_forward_all_def)
  next
    case 2
    obtain q ew1 where q: "post_commit ct (fm_ident mv) (fast_forward_request mv from_ref to_ref) ew = (q, ew1)"
      by (cases "post_commit ct (fm_ident mv) (fast_forward_request mv from_ref to_ref) ew")
    have "rq_identifier (fast_forward_request mv from_ref to_ref) = Some (fm_ident mv)" by (simp add: fast_forward_request_def)
    from post_commit_answered [OF assms(1) q this] obtain new where n: "past hist ew1 = past hist ew @ new"
      "case q of Inr Committed \<Rightarrow> landed (commits ?rqs) (past hist ew) new | Inr (Conflict msg) \<Rightarrow> quiet new
       | Inl e \<Rightarrow> quiet new \<or> ambiguous e \<and> landed (commits ?rqs) (past hist ew) new" unfolding 2 list.map by blast
    have "ew' = ew1" "quiet new \<or> (\<forall>e. r = Inl e \<longrightarrow> ambiguous e) \<and> landed (commits ?rqs) (past hist ew) new"
      using assms(2) q n(2) unfolding 2 merge_fast_forward_all_def
      by (auto simp: io_bind_def split: sum.splits commit_outcome.splits)
    then show ?thesis using n(1) 2 forward_landed by blast
  next
    case 3
    obtain q ew1 where q: "post_transaction ct ?rqs ew = (q, ew1)" by (cases "post_transaction ct ?rqs ew")
    have m: "merge_fast_forward_all ct from_ref to_ref moves = io_bind (post_transaction ct ?rqs) (\<lambda>outcome.
              case outcome of
                TxnCommitted \<Rightarrow> returns ()
              | TxnConflict msg \<Rightarrow> fails ''a branch moved on at least one table between plan and commit''
              | TxnUnsupported \<Rightarrow> fails ''the catalog does not implement transactions/commit'')"
    proof -
      obtain m1 m2 ms where "moves = m1 # m2 # ms" using 3 by (metis neq_Nil_conv)
      then show ?thesis by (simp add: merge_fast_forward_all_def Let_def)
    qed
    have "\<forall>rq\<in>set ?rqs. rq_identifier rq \<noteq> None" by (simp add: fast_forward_request_def)
    from post_transaction_answered [OF assms(1) q this] obtain new where n: "past hist ew1 = past hist ew @ new"
      "case q of Inr TxnCommitted \<Rightarrow> landed (commits ?rqs) (past hist ew) new | Inr _ \<Rightarrow> quiet new
       | Inl e \<Rightarrow> quiet new \<or> ambiguous e \<and> landed (commits ?rqs) (past hist ew) new" by blast
    have "ew' = ew1" "quiet new \<or> (\<forall>e. r = Inl e \<longrightarrow> ambiguous e) \<and> landed (commits ?rqs) (past hist ew) new"
      using assms(2) q n(2) unfolding m by (auto simp: io_bind_def split: sum.splits txn_commit_outcome.splits)
    then show ?thesis using n(1) 3(1) forward_landed by blast
  qed
qed

definition compared_as :: "string \<Rightarrow> string \<Rightarrow> 'r history \<Rightarrow> lake_ident \<Rightarrow> table_cmp \<Rightarrow> bool" where
  "compared_as a b h ident c \<longleftrightarrow> (\<exists>tm. known h ident tm \<and> c = compare_table tm ident a b)"

lemma merge_compared_effect:
  assumes "catalog_sound ct hist" "merge_compared ct f t exec cmps ew = (r, ew')" "\<forall>c\<in>set cmps. \<exists>ident. compared_as f t (past hist ew) ident c"
  shows "\<exists>new. past hist ew' = past hist ew @ new \<and> merge_effect f t exec r (past hist ew) new"
proof -
  let ?moves = "plan_moves (map plan_merge cmps)"
  consider "ew' = ew" | "exec" "merge_fast_forward_all ct f t ?moves ew = (r, ew')"
    using assms(2) by (auto simp: merge_compared_def Let_def split: if_splits)
  then show ?thesis
  proof cases
    case 1
    then show ?thesis by (auto simp: merge_effect_def)
  next
    case 2
    have "ahead (past hist ew) mv" if "mv \<in> set ?moves" for mv
      using that assms(3) plan_ahead [of _ _ f t mv "past hist ew"] unfolding plan_moves_in compared_as_def by fastforce
    then show ?thesis using forward_all_effect [OF assms(1) 2(2)] 2(1) ahead_mono unfolding merge_effect_def by blast
  qed
qed

lemma compare_stays:
  assumes "catalog_sound ct hist" "compare_idents ct a b idents ew = (r, ew')"
  shows "stays hist ew ew' \<and> (\<forall>cmps. r = Inr cmps \<longrightarrow> (\<forall>c\<in>set cmps. \<exists>ident. compared_as a b (past hist ew') ident c))"
proof (cases "idents = []")
  case True
  then show ?thesis using assms(2) by (auto simp: compare_idents_def)
next
  case False
  let ?f = "\<lambda>ident. io_bind (load_table ct ident) (\<lambda>tm. returns (compare_table tm ident a b))"
  have f: "stays hist ew ew' \<and> (\<forall>c. r = Inr c \<longrightarrow> compared_as a b (past hist ew') x c)" if "?f x ew = (r, ew')" for x ew r ew'
    using that by (cases rule: io_bind_cases) (auto simp: compared_as_def dest: load_stays [OF assms(1)])
  have mono: "compared_as a b h x c \<Longrightarrow> compared_as a b (h @ new) x c" for h new x c
    unfolding compared_as_def using known_mono by blast
  from assms(2) [unfolded compare_idents_def if_not_P [OF False]] show ?thesis
  proof (cases rule: io_bind_cases)
    case (1 e)
    then show ?thesis using io_map_stays [where P = "compared_as a b", OF f mono 1(1)] by simp
  next
    case (2 cmps ew1)
    then have "stays hist ew ew1" "list_all2 (compared_as a b (past hist ew1)) idents cmps"
      using io_map_stays [where P = "compared_as a b", OF f mono 2(1)] by auto
    moreover have "ew' = ew1" "\<forall>cs. r = Inr cs \<longrightarrow> cs = cmps" using 2(2) by (auto split: if_splits)
    ultimately show ?thesis by (metis list_all2_conv_all_nth in_set_conv_nth)
  qed
qed

lemma compare_all_stays:
  assumes "catalog_sound ct hist" "compare_all ct a b table ew = Some (r, ew')"
  shows "stays hist ew ew' \<and> (\<forall>cmps. r = Inr cmps \<longrightarrow> (\<forall>c\<in>set cmps. \<exists>ident. compared_as a b (past hist ew') ident c))"
proof -
  have "\<exists>q ew1. stays hist ew ew1 \<and> io_bind (io_lift q) (compare_idents ct a b) ew1 = (r, ew')"
  proof (cases table)
    case None
    then obtain q ew1 where "list_all_tables ct ew = Some (q, ew1)" "io_bind (io_lift q) (compare_idents ct a b) ew1 = (r, ew')"
      using assms(2) by (auto simp: compare_all_def)
    then show ?thesis using listed_stays [OF assms(1)] by blast
  next
    case (Some t)
    then show ?thesis using assms(2) by (intro exI [of _ "rbind (parse_table t) (\<lambda>i. Inr [i])"] exI [of _ ew]) (simp add: compare_all_def)
  qed
  then obtain q ew1 where q: "stays hist ew ew1" "io_bind (io_lift q) (compare_idents ct a b) ew1 = (r, ew')" by blast
  show ?thesis
  proof (cases q)
    case (Inl e)
    then show ?thesis using q by (auto simp: io_bind_def)
  next
    case (Inr idents)
    then show ?thesis using q compare_stays [OF assms(1), of a b idents ew1 r ew'] stays_trans [OF q(1)] by auto
  qed
qed

lemma merge_all_effect:
  assumes "catalog_sound ct hist" "merge ct f t table exec ew = Some (r, ew')"
  shows "\<exists>new. past hist ew' = past hist ew @ new \<and> merge_effect f t exec r (past hist ew) new"
proof -
  consider "ew' = ew"
    | q ew1 where "compare_all ct f t table ew = Some (q, ew1)" "io_bind (io_lift q) (merge_compared ct f t exec) ew1 = (r, ew')"
    using assms(2) by (auto simp: merge_def split: if_splits)
  then show ?thesis
  proof cases
    case 1
    then show ?thesis by (auto simp: merge_effect_def)
  next
    case 2
    note s = compare_all_stays [OF assms(1) 2(1)]
    show ?thesis
    proof (cases q)
      case (Inl e)
      then show ?thesis using 2(2) s by (auto simp: io_bind_def stays_def merge_effect_def)
    next
      case (Inr cmps)
      then have "merge_compared ct f t exec cmps ew1 = (r, ew')" using 2(2) by simp
      from merge_compared_effect [OF assms(1) this] s Inr obtain new
        where "past hist ew' = past hist ew1 @ new" "merge_effect f t exec r (past hist ew1) new" by auto
      then show ?thesis using s by (intro merge_effect_stays) auto
    qed
  qed
qed

section \<open>Expiry\<close>

text \<open>Expiry removes snapshots of the table only, never one that is referenced or among the newest.\<close>

lemma expired_ids_safe:
  assumes "i \<in> set (expired_ids tm referenced keep_last)"
  shows "i \<in> snapshot_ids tm \<and> i \<notin> referenced"
  using assms by (auto simp: expired_ids_def Let_def snapshot_ids_def)

end
