(* ===== verification/LakeInputs.thy ===== *)
theory LakeInputs
  imports BranchSpec
begin

text \<open>
  A small lake for the instances of the commit properties: one table of numbers, a statement that
  deletes the even ones, and a catalog of one table that accepts one request once.
\<close>

definition even_delete :: dml_statement where
  "even_delete = \<lparr>ds_kind = DmlDelete, ds_namespace = ''demo'', ds_table = ''t'', ds_alias = None, ds_predicate = Some ''even''\<rparr>"

definition even_engine :: "nat engine" where
  "even_engine =
     \<lparr>en_count = (\<lambda>q rows. Inr (length (filter even rows))), en_query = (\<lambda>q rows. Inr (filter odd rows)),
      en_names = (\<lambda>_. [''id'']), en_cast = Inr, en_read = (\<lambda>f. Inr (df_rows f)), en_close = (\<lambda>rows. Inr [\<lparr>df_path = ''new'', df_rows = rows, df_size = 1\<rparr>]),
      en_load = (\<lambda>_. Inr ()), en_put = (\<lambda>_. Inr ()), en_now = 7\<rparr>"

definition first_file :: "nat data_file" where
  "first_file = \<lparr>df_path = ''old'', df_rows = [1, 2, 3], df_size = 1\<rparr>"

definition first_snapshot :: "nat lake_snapshot" where
  "first_snapshot =
     \<lparr>sp_id = 1, sp_parent = None, sp_seq = 1, sp_timestamp = 1,
      sp_manifests = [\<lparr>mf_path = ''m'', mf_data = True, mf_seq = 1, mf_added_snapshot = 1,
        mf_entries = [\<lparr>me_alive = True, me_snapshot = None, me_seq = None, me_file_seq = None, me_file = first_file\<rparr>]\<rparr>],
      sp_summary = \<lparr>su_operation = OpAppendOnly, su_added_files = 1, su_added_records = 3, su_added_size = 1,
        su_deleted_files = 0, su_deleted_records = 0, su_removed_size = 0, su_totals = None\<rparr>\<rparr>"

definition first_meta :: "nat table_metadata" where
  "first_meta =
     \<lparr>tm_uuid = ''u'', tm_format_v2 = True, tm_unpartitioned = True, tm_columns = [''id''], tm_snapshots = [first_snapshot],
      tm_current = Some 1, tm_refs = [''main'' \<mapsto> 1], tm_next_seq = 2, tm_props = Map.empty\<rparr>"

abbreviation the_table :: lake_ident where
  "the_table \<equiv> ([''demo''], ''t'')"

definition all_even :: "dml_statement \<Rightarrow> nat \<Rightarrow> bool" where
  "all_even st = even"

definition no_update :: "dml_statement \<Rightarrow> nat \<Rightarrow> nat" where
  "no_update st r = r"

definition self_key :: "string list \<Rightarrow> nat \<Rightarrow> nat option list" where
  "self_key cols r = [Some r]"

lemma even_sql: "sql_sound even_engine all_even no_update columns even_delete"
  by (auto simp: sql_sound_def even_engine_def even_delete_def all_even_def dml_sql_new_def Let_def)

lemma even_storage: "storage_sound even_engine" "casts_lossless even_engine"
  by (simp_all add: storage_sound_def casts_lossless_def even_engine_def)

lemmas lake_defs = prepare_commit_def branch_head_def MAIN_BRANCH_def first_meta_def first_snapshot_def first_file_def snapshot_by_id_def
  validate_ops_def even_delete_def dml_sql_new_def scan_head_def load_manifest_list_def even_engine_def is_dml_def
  file_fate_of_def apply_dml_to_batches_def evaluate_rows_def fate_pk_def note_fate_def place_fate_def write_rows_def scan_acc_new_def
  project_columns_def finish_commit_def prewritten_def op_files_def check_pk_def generate_unique_snapshot_id_def produce_snapshot_def
  df_record_count_def self_key_def align_batch_def eq_ignore_ascii_case_def Let_def

lemma even_prepared:
  "\<exists>pc. prepare_commit even_engine self_key [1, 5] the_table first_meta [TAppend [4, 5], TDml even_delete] (Some [''id'']) ''main'' [] = Inr (Some pc)"
  by (simp add: lake_defs enumerate_eq_zip)

section \<open>Casts\<close>

text \<open>
  A table of one integer column whose rows are counted in tenths: the cast of a row to the column's type
  drops the fraction.  \<open>tenth_update v\<close> sets the number 2 to \<open>v\<close> tenths.
\<close>

definition tenth_update :: "string \<Rightarrow> dml_statement" where
  "tenth_update v = \<lparr>ds_kind = DmlUpdate [(''id'', v)], ds_namespace = ''demo'', ds_table = ''t'', ds_alias = None, ds_predicate = Some ''id = 2''\<rparr>"

definition is_two :: "dml_statement \<Rightarrow> nat \<Rightarrow> bool" where
  "is_two st = (\<lambda>r. r = 20)"

definition set_to :: "nat \<Rightarrow> dml_statement \<Rightarrow> nat \<Rightarrow> nat" where
  "set_to v st = (\<lambda>r. v)"

definition tenth_engine :: "nat \<Rightarrow> nat engine" where
  "tenth_engine v = even_engine\<lparr>en_count := (\<lambda>q rows. Inr (length (filter (\<lambda>r. r = 20) rows))),
     en_query := (\<lambda>q rows. Inr (map (\<lambda>r. if r = 20 then v else r) rows)), en_cast := (\<lambda>r. Inr (r div 10 * 10))\<rparr>"

definition tenth_snapshot :: "nat lake_snapshot" where
  "tenth_snapshot = first_snapshot\<lparr>sp_manifests := [\<lparr>mf_path = ''m'', mf_data = True, mf_seq = 1, mf_added_snapshot = 1,
     mf_entries = [\<lparr>me_alive = True, me_snapshot = None, me_seq = None, me_file_seq = None, me_file = first_file\<lparr>df_rows := [10, 20]\<rparr>\<rparr>]\<rparr>]\<rparr>"

definition tenth_meta :: "nat table_metadata" where
  "tenth_meta = first_meta\<lparr>tm_snapshots := [tenth_snapshot]\<rparr>"

lemma tenth_sound: "sql_sound (tenth_engine v) is_two (set_to v) columns (tenth_update e)" "storage_sound (tenth_engine v)"
  "fit (tenth_engine v) r = r div 10 * 10"
  by (auto simp: sql_sound_def storage_sound_def tenth_engine_def even_engine_def tenth_update_def is_two_def set_to_def dml_sql_new_def
      fit_def Let_def cong: if_cong split: if_splits)

lemma tenth_head:
  "branch_head tenth_meta ''main'' = Inr (Some tenth_snapshot)" "head_rows (Some tenth_snapshot) = [10, 20]" "sp_id tenth_snapshot = 1"
  "tm_uuid tenth_meta = ''u''"
  by (simp_all add: tenth_meta_def tenth_snapshot_def first_meta_def first_snapshot_def first_file_def branch_head_def MAIN_BRANCH_def
      snapshot_by_id_def head_rows_def live_rows_def live_manifest_def live_entry_def)

lemma tenth_prepared:
  "\<exists>pc. prepare_commit (tenth_engine 40) self_key [1, 5] the_table tenth_meta [TAppend [35], TDml (tenth_update ''4.0'')] (Some [''id'']) ''main'' [] =
     Inr (Some pc)"
  by (simp add: lake_defs enumerate_eq_zip tenth_meta_def tenth_snapshot_def tenth_engine_def tenth_update_def)

text \<open>
  The key check of rewritten rows comes before their cast, and the cast may make two keys equal: with
  the numbers 1 and 2 in one file, setting 2 to 1.7 passes the check and commits the number 1 twice.
\<close>

lemma cast_after_key_check:
  "\<exists>pc new. prepare_commit (tenth_engine 17) self_key [5] the_table tenth_meta [TDml (tenth_update ''1.7'')] (Some [''id'']) ''main'' [] =
     Inr (Some pc) \<and> rq_updates (pc_request pc) = [AddSnapshot new, SetSnapshotRef ''main'' 5] \<and>
     live_rows new = [10, 10] \<and> \<not> distinct (map (self_key [''id'']) (live_rows new))"
  by (simp add: lake_defs enumerate_eq_zip tenth_meta_def tenth_snapshot_def tenth_engine_def tenth_update_def snapshot_request_def
      m0_manifest_def m1_manifest_def live_rows_def live_manifest_def live_entry_def)

section \<open>One commit\<close>

text \<open>The commit of the statement alone, and the lake before and after it.\<close>

definition even_commit :: "nat prepared_commit" where
  "even_commit = the (projr (prepare_commit even_engine self_key [5] the_table first_meta [TDml even_delete] None ''main'' []))"

lemma even_commit_eq: "prepare_commit even_engine self_key [5] the_table first_meta [TDml even_delete] None ''main'' [] = Inr (Some even_commit)"
  unfolding even_commit_def by (simp add: lake_defs)

definition even_snapshot :: "nat lake_snapshot" where
  "even_snapshot = (case rq_updates (pc_request even_commit) of AddSnapshot s # _ \<Rightarrow> s | _ \<Rightarrow> first_snapshot)"

lemma even_request:
  "pc_request even_commit = snapshot_request the_table ''u'' ''main'' (Some 1) even_snapshot []" "sp_id even_snapshot = 5"
  "pc_snapshot_id even_commit = 5" "sp_parent even_snapshot = Some 1"
  unfolding even_snapshot_def even_commit_def by (simp_all add: lake_defs snapshot_request_def)

definition after_meta :: "nat table_metadata" where
  "after_meta = first_meta\<lparr>tm_snapshots := [first_snapshot, even_snapshot], tm_current := Some 5, tm_refs := [''main'' \<mapsto> 5]\<rparr>"

section \<open>A catalog of one table\<close>

text \<open>The world is the number of accepted requests; only the given one is accepted, once.\<close>

definition once_history :: "nat table_metadata \<Rightarrow> nat table_metadata \<Rightarrow> nat \<Rightarrow> nat history" where
  "once_history tm tm' w = (False, [the_table \<mapsto> tm]) # (if w = 0 then [] else [(True, [the_table \<mapsto> tm'])])"

definition once_catalog :: "nat table_metadata \<Rightarrow> nat commit_table_request \<Rightarrow> (nat, nat) catalog" where
  "once_catalog tm rq =
     \<lparr>ct_load = (\<lambda>i w. (if i = the_table then Inr tm else Inl ''no such table'', w)),
      ct_post = (\<lambda>i rq' w. if w = 0 \<and> rq' = rq then (Answer 200 [], 1) else (Answer 409 [], w)),
      ct_transaction = (\<lambda>rqs w. if w = 0 \<and> rqs = [rq] then (Answer 200 [], 1) else (Answer 409 [], w)),
      ct_metadata = (\<lambda>i w. (Inr JNull, w)),
      ct_namespaces = (\<lambda>n w. (Inr (case n of None \<Rightarrow> [[''demo'']] | Some _ \<Rightarrow> []), w)),
      ct_tables = (\<lambda>n w. (Inr (if n = [''demo''] then [the_table] else []), w))\<rparr>"

definition small_world :: "nat engine_world" where
  "small_world = \<lparr>ew_catalog = 0, ew_txn_endpoint = Some True\<rparr>"

lemma once_answers:
  "commits [rq] [the_table \<mapsto> tm] [the_table \<mapsto> tm'] \<Longrightarrow> answered (Answer 200 b) (commits [rq]) (once_history tm tm' 0) [(True, [the_table \<mapsto> tm'])]"
  "answered (Answer 409 b) step old []"
  by (auto simp: answered_def is_success_def landed_def quiet_def latest_def once_history_def)

lemma once_sound:
  assumes "\<And>w. history_wf (once_history tm tm' w)" "commits [rq] [the_table \<mapsto> tm] [the_table \<mapsto> tm']"
  shows "catalog_sound (once_catalog tm rq) (once_history tm tm')"
proof -
  have i: "rq_identifier rq \<noteq> None" using assms(2) by (auto simp: commits_def commits_one_def)
  have "loads_known (once_catalog tm rq) (once_history tm tm')"
    by (auto simp: loads_known_def once_catalog_def known_def once_history_def)
  moreover have "posts_once (once_catalog tm rq) (once_history tm tm')"
    using once_answers(1) [OF assms(2)] once_answers(2) by (auto simp: posts_once_def once_catalog_def once_history_def split: if_splits)
  moreover have "transacts_once (once_catalog tm rq) (once_history tm tm')"
    using once_answers(1) [OF assms(2)] once_answers(2) i by (auto simp: transacts_once_def once_catalog_def once_history_def split: if_splits)
  moreover have "lists_quietly (once_catalog tm rq) (once_history tm tm')" by (auto simp: lists_quietly_def once_catalog_def)
  ultimately show ?thesis using assms(1) by (simp add: catalog_sound_def)
qed

lemma once_calls:
  "load_table (once_catalog tm rq) the_table ew = (Inr tm, ew)"
  "ew_catalog ew = 0 \<Longrightarrow> post_commit (once_catalog tm rq) i rq ew = (Inr Committed, ew\<lparr>ew_catalog := 1\<rparr>)"
  "ew_catalog ew = 0 \<Longrightarrow> ew_txn_endpoint ew = Some True \<Longrightarrow> post_transaction (once_catalog tm rq) [rq] ew = (Inr TxnCommitted, ew\<lparr>ew_catalog := 1\<rparr>)"
  by (simp_all add: load_table_def on_catalog_def once_catalog_def post_commit_def post_commit_inner_def is_success_def
      post_transaction_def post_transaction_inner_def probe_txn_endpoint_def io_bind_def)

lemma once_listing: "list_all_tables (once_catalog tm rq) ew = Some (Inr [the_table], ew)"
  by (simp add: list_all_tables_def once_catalog_def on_catalog_def walk_namespaces.simps)

text \<open>Two states of a table with the same snapshots, or with one more, are a history.\<close>

lemma once_wf:
  assumes "meta_wf tm" "meta_wf tm'" "set (tm_snapshots tm) \<subseteq> set (tm_snapshots tm')"
  shows "history_wf (once_history tm tm' w)"
proof -
  have "s = s'" if "s \<in> set (tm_snapshots tm')" "s' \<in> set (tm_snapshots tm')" "sp_id s = sp_id s'" for s s'
    using assms(2) that by (auto simp: meta_wf_def distinct_map inj_on_def)
  then show ?thesis using assms by (auto simp: history_wf_def once_history_def known_def split: if_splits)
qed

section \<open>The statement\<close>

lemma first_id: "sp_id first_snapshot = 1"
  by (simp add: first_snapshot_def)

lemma even_wf: "meta_wf first_meta" "meta_wf after_meta"
  by (auto simp: meta_wf_def snapshot_ids_def first_meta_def after_meta_def MAIN_BRANCH_def first_id even_request(2))

lemma even_commits: "commits [pc_request even_commit] [the_table \<mapsto> first_meta] [the_table \<mapsto> after_meta]"
proof -
  let ?a = "first_meta\<lparr>tm_snapshots := [first_snapshot, even_snapshot]\<rparr>"
  have "update_ok (AddSnapshot even_snapshot) first_meta ?a" "update_ok (SetSnapshotRef ''main'' 5) ?a after_meta"
    by (simp_all add: snapshot_ids_def first_meta_def after_meta_def first_id even_request(2))
  moreover have "updates_ok [] after_meta after_meta" by simp
  ultimately have "updates_ok [AddSnapshot even_snapshot, SetSnapshotRef ''main'' 5] first_meta after_meta" unfolding updates_ok.simps(2) by blast
  then have "updates_ok (rq_updates (pc_request even_commit)) first_meta after_meta" by (simp add: even_request(1,2) snapshot_request_def)
  then show ?thesis
    by (auto simp: commits_def commits_one_def even_request(1,2) snapshot_request_def first_meta_def)
qed

abbreviation small_catalog :: "(nat, nat) catalog" where
  "small_catalog \<equiv> once_catalog first_meta (pc_request even_commit)"

abbreviation small_history :: "nat \<Rightarrow> nat history" where
  "small_history \<equiv> once_history first_meta after_meta"

lemma small_sound: "catalog_sound small_catalog small_history"
  by (intro once_sound even_commits once_wf even_wf) (auto simp: first_meta_def after_meta_def)

definition small_client :: "(nat, nat) client" where
  "small_client = \<lparr>cl_engine = (\<lambda>_. even_engine), cl_draws = (\<lambda>_. [5]), cl_pkey = self_key\<rparr>"

definition small_engine :: overwrite_engine where
  "small_engine = \<lparr>oe_enforce_pk = False, oe_branch = ''main''\<rparr>"

lemma small_client_sound: "client_sound small_client all_even no_update M [TDml even_delete]"
  using even_sql even_storage by (simp add: client_sound_def small_client_def)

lemma small_prepared:
  "prepare_commit (cl_engine small_client n) (cl_pkey small_client) (cl_draws small_client n) the_table first_meta [TDml even_delete] None
      (oe_branch small_engine) [] = Inr (Some even_commit)" "pk_columns small_engine first_meta = Inr None"
  using even_commit_eq by (simp_all add: small_client_def small_engine_def pk_columns_def)

lemma small_run:
  "execute small_catalog small_engine small_client even_delete small_world =
     (Inr \<lparr>do_rows = pc_rows_by_op even_commit ! 0, do_attempts = 1, do_snapshot_id = Some 5\<rparr>, small_world\<lparr>ew_catalog := 1\<rparr>)"
proof -
  have u: "[1..<MAX_COMMIT_ATTEMPTS + 1] = [1, 2, 3]" by (simp add: MAX_COMMIT_ATTEMPTS_def upt_rec)
  have d: "ds_namespace even_delete = ''demo''" "ds_table even_delete = ''t''" by (simp_all add: even_delete_def)
  have w: "ew_catalog small_world = 0" by (simp add: small_world_def)
  show ?thesis unfolding execute_def u d execute_loop.simps try_commit_def
    by (simp add: io_bind_def once_calls w small_prepared even_request(3) del: One_nat_def)
qed

section \<open>A transaction\<close>

text \<open>Two tables with the same snapshots, and the statement on both of them in one request.\<close>

abbreviation other_table :: lake_ident where
  "other_table \<equiv> ([''demo''], ''s'')"

abbreviation even_request_on :: "lake_ident \<Rightarrow> nat commit_table_request" where
  "even_request_on i \<equiv> snapshot_request i ''u'' ''main'' (Some 1) even_snapshot []"

definition pair_history :: "nat \<Rightarrow> nat history" where
  "pair_history w = (False, [the_table \<mapsto> first_meta, other_table \<mapsto> first_meta]) #
     (if w = 0 then [] else [(True, [the_table \<mapsto> after_meta, other_table \<mapsto> after_meta])])"

definition pair_catalog :: "(nat, nat) catalog" where
  "pair_catalog = (once_catalog first_meta (even_request_on the_table))
     \<lparr>ct_load := (\<lambda>i w. (if i = the_table \<or> i = other_table then Inr first_meta else Inl ''no such table'', w)),
      ct_post := (\<lambda>i rq w. (Answer 409 [], w)),
      ct_transaction := (\<lambda>rqs w. if w = 0 \<and> rqs = [even_request_on the_table, even_request_on other_table] then (Answer 200 [], 1)
                                 else (Answer 409 [], w))\<rparr>"

definition small_txn :: "nat pinned_table list" where
  "small_txn = [(the_table, Some 1, [TDml even_delete]), (other_table, Some 1, [TDml even_delete])]"

lemma pair_commits:
  "commits [even_request_on the_table, even_request_on other_table] [the_table \<mapsto> first_meta, other_table \<mapsto> first_meta]
     [the_table \<mapsto> after_meta, other_table \<mapsto> after_meta]"
proof -
  have u: "updates_ok [AddSnapshot even_snapshot, SetSnapshotRef ''main'' 5] first_meta after_meta"
    using even_commits by (simp add: commits_def commits_one_def even_request(1,2) snapshot_request_def)
  have "commits_one (even_request_on i) old new" if "old i = Some first_meta" "new i = Some after_meta" for i old new
    using that u unfolding commits_one_def
    by (intro exI [of _ i] exI [of _ first_meta] exI [of _ after_meta]) (simp add: snapshot_request_def even_request(2) first_meta_def)
  then show ?thesis by (auto simp: commits_def snapshot_request_def)
qed

lemma pair_sound: "catalog_sound pair_catalog pair_history"
proof -
  have "history_wf (pair_history w)" for w
    using once_wf [OF even_wf, of 1] even_wf
    by (auto simp: history_wf_def pair_history_def once_history_def known_def first_meta_def after_meta_def split: if_splits)
  moreover have "loads_known pair_catalog pair_history" by (auto simp: loads_known_def pair_catalog_def known_def pair_history_def)
  moreover have "posts_once pair_catalog pair_history" using once_answers(2) by (auto simp: posts_once_def pair_catalog_def)
  moreover have "answered (Answer 200 []) (commits [even_request_on the_table, even_request_on other_table]) (pair_history 0)
      [(True, [the_table \<mapsto> after_meta, other_table \<mapsto> after_meta])]"
    using pair_commits by (auto simp: answered_def is_success_def landed_def quiet_def latest_def pair_history_def)
  then have "transacts_once pair_catalog pair_history"
    using once_answers(2) by (auto simp: transacts_once_def pair_catalog_def pair_history_def snapshot_request_def split: if_splits)
  moreover have "lists_quietly pair_catalog pair_history" by (auto simp: lists_quietly_def pair_catalog_def once_catalog_def)
  ultimately show ?thesis by (simp add: catalog_sound_def)
qed

lemma other_prepared:
  "prepare_commit (cl_engine small_client n) (cl_pkey small_client) (cl_draws small_client n) other_table first_meta [TDml even_delete] None
      (oe_branch small_engine) [] = Inr (Some (even_commit\<lparr>pc_request := even_request_on other_table\<rparr>))"
  unfolding even_snapshot_def even_commit_def small_client_def small_engine_def by (simp add: lake_defs snapshot_request_def)

lemma small_txn_run:
  "commit_pinned_multi pair_catalog small_engine (\<lambda>_. small_client) small_txn small_world = (Inr MultiCommitted, small_world\<lparr>ew_catalog := 1\<rparr>)"
proof -
  have w: "ew_catalog small_world = 0" "ew_txn_endpoint small_world = Some True" by (simp_all add: small_world_def)
  have p: "probe_txn_endpoint pair_catalog small_world = (Inr True, small_world)" by (simp add: probe_txn_endpoint_def w)
  have c: "check_pin small_engine first_meta (Some 1) = Inr ()"
    by (simp add: check_pin_def small_engine_def branch_head_def MAIN_BRANCH_def first_meta_def snapshot_by_id_def first_id)
  have l: "load_table pair_catalog the_table ew = (Inr first_meta, ew)" "load_table pair_catalog other_table ew = (Inr first_meta, ew)" for ew
    by (simp_all add: load_table_def on_catalog_def pair_catalog_def)
  have t: "post_transaction pair_catalog [even_request_on the_table, even_request_on other_table] small_world =
      (Inr TxnCommitted, small_world\<lparr>ew_catalog := 1\<rparr>)"
    by (simp add: post_transaction_def post_transaction_inner_def probe_txn_endpoint_def on_catalog_def pair_catalog_def is_success_def io_bind_def w)
  have m: "io_map (prepare_pinned pair_catalog small_engine (\<lambda>_. small_client)) small_txn small_world =
      (Inr [Some even_commit, Some (even_commit\<lparr>pc_request := even_request_on other_table\<rparr>)], small_world)"
    by (simp add: small_txn_def prepare_pinned_def io_bind_def l c small_prepared other_prepared)
  show ?thesis unfolding commit_pinned_multi_def by (simp add: io_bind_def p m Let_def t even_request(1))
qed

text \<open>The statement has work on both tables.\<close>

lemma small_txn_work: "t \<in> set small_txn \<Longrightarrow> \<not> nothing_to_do all_even no_update ''main'' (pair_history 1) t"
proof -
  have h: "branch_head first_meta ''main'' = Inr (Some first_snapshot)" "branch_head after_meta ''main'' = Inr (Some even_snapshot)"
    by (simp_all add: first_meta_def after_meta_def branch_head_def MAIN_BRANCH_def snapshot_by_id_def first_id even_request(2))
  have "head_rows (Some first_snapshot) = [1, 2, 3]"
    by (simp add: head_rows_def live_rows_def live_manifest_def live_entry_def first_snapshot_def first_file_def)
  then have r: "mset (ops_rows all_even no_update [TDml even_delete] (head_rows (Some first_snapshot))) \<noteq> mset (head_rows (Some first_snapshot))"
    by (simp add: dml_rows_def all_even_def even_delete_def)
  have "tm = first_meta \<or> tm = after_meta" if "known (pair_history 1) i tm" "i = the_table \<or> i = other_table" for i tm
    using that by (auto simp: known_def pair_history_def)
  then show "t \<in> set small_txn \<Longrightarrow> ?thesis"
    using h r even_request(2) unfolding nothing_to_do_def small_txn_def by fastforce
qed

section \<open>Branches\<close>

text \<open>A branch of the table as it is, and a merge of a branch that is one commit ahead.\<close>

definition branched_meta :: "nat table_metadata" where
  "branched_meta = first_meta\<lparr>tm_refs := [''main'' \<mapsto> 1, ''dev'' \<mapsto> 1]\<rparr>"

abbreviation dev_request :: "nat commit_table_request" where
  "dev_request \<equiv> set_branch_ref_request the_table ''u'' ''dev'' 1 True"

lemma dev_sound: "catalog_sound (once_catalog first_meta dev_request) (once_history first_meta branched_meta)"
proof (intro once_sound once_wf)
  show "meta_wf first_meta" "meta_wf branched_meta" "set (tm_snapshots first_meta) \<subseteq> set (tm_snapshots branched_meta)"
    by (auto simp: meta_wf_def snapshot_ids_def first_meta_def branched_meta_def MAIN_BRANCH_def first_id)
  show "commits [dev_request] [the_table \<mapsto> first_meta] [the_table \<mapsto> branched_meta]"
    by (auto simp: commits_def commits_one_def set_branch_ref_request_def first_meta_def branched_meta_def MAIN_BRANCH_def snapshot_ids_def first_id
        intro!: exI [of _ "branched_meta"])
qed

lemma dev_run:
  "create_branch_all (once_catalog first_meta dev_request) ''dev'' small_world = Some (Inr ([(the_table, 1)], []), small_world\<lparr>ew_catalog := 1\<rparr>)"
proof -
  have w: "ew_catalog small_world = 0" "ew_txn_endpoint small_world = Some True" by (simp_all add: small_world_def)
  have m: "tm_current first_meta = Some 1" "tm_uuid first_meta = ''u''" by (simp_all add: first_meta_def)
  have "io_map (capture_branch (once_catalog first_meta dev_request) ''dev'') [the_table] small_world =
      (Inr [(the_table, Some (dev_request, 1))], small_world)"
    by (simp add: capture_branch_def io_bind_def once_calls m)
  then show ?thesis
    by (simp add: create_branch_all_def MAIN_BRANCH_def once_listing branch_idents_def io_bind_def Let_def List.map_filter_def once_calls w)
qed

definition ahead_meta :: "nat table_metadata" where
  "ahead_meta = first_meta\<lparr>tm_snapshots := [first_snapshot, even_snapshot], tm_refs := [''main'' \<mapsto> 1, ''dev'' \<mapsto> 5]\<rparr>"

definition merged_meta :: "nat table_metadata" where
  "merged_meta = ahead_meta\<lparr>tm_current := Some 5, tm_refs := [''main'' \<mapsto> 5, ''dev'' \<mapsto> 5]\<rparr>"

definition dev_move :: fast_forward_move where
  "dev_move = \<lparr>fm_ident = the_table, fm_uuid = ''u'', fm_from_head = 5, fm_to_head = 1\<rparr>"

abbreviation move_request :: "nat commit_table_request" where
  "move_request \<equiv> fast_forward_request dev_move ''dev'' ''main''"

lemmas ahead_defs = ahead_meta_def merged_meta_def first_meta_def MAIN_BRANCH_def snapshot_ids_def first_id even_request(2,4)

lemma move_sound: "catalog_sound (once_catalog ahead_meta move_request) (once_history ahead_meta merged_meta)"
proof (intro once_sound once_wf)
  show "meta_wf ahead_meta" "meta_wf merged_meta" "set (tm_snapshots ahead_meta) \<subseteq> set (tm_snapshots merged_meta)"
    by (auto simp: meta_wf_def ahead_defs)
  show "commits [move_request] [the_table \<mapsto> ahead_meta] [the_table \<mapsto> merged_meta]"
    by (auto simp: commits_def commits_one_def fast_forward_request_def dev_move_def ahead_defs intro!: exI [of _ merged_meta])
qed

lemma ahead_lineage: "lineage_of ahead_meta 5 = [5, 1]" "lineage_of ahead_meta 1 = [1]"
proof -
  have "sp_parent first_snapshot = None" by (simp add: first_snapshot_def)
  then show "lineage_of ahead_meta 5 = [5, 1]" "lineage_of ahead_meta 1 = [1]"
    by (simp_all add: lineage_of_def parent_of_def snapshot_by_id_def ahead_defs)
qed

lemma move_run:
  "merge (once_catalog ahead_meta move_request) ''dev'' ''main'' None True small_world = Some (Inr (), small_world\<lparr>ew_catalog := 1\<rparr>)"
proof -
  have w: "ew_catalog small_world = 0" by (simp add: small_world_def)
  have h: "snapshot_for_ref ahead_meta ''dev'' = Some even_snapshot" "snapshot_for_ref ahead_meta ''main'' = Some first_snapshot" "tm_uuid ahead_meta = ''u''"
    by (simp_all add: snapshot_for_ref_def snapshot_by_id_def ahead_defs)
  let ?c = "\<lparr>tc_ident = the_table, tc_uuid = ''u'', tc_a_head = Some 5, tc_b_head = Some 1, tc_fork = Some 1, tc_status = AdvancedA\<rparr>"
  have c: "compare_table ahead_meta the_table ''dev'' ''main'' = ?c"
    by (simp add: compare_table_def h first_id even_request(2) fork_point_def ahead_lineage classify_def Let_def)
  have "compare_all (once_catalog ahead_meta move_request) ''dev'' ''main'' None small_world = Some (Inr [?c], small_world)"
    by (simp add: compare_all_def once_listing compare_idents_def io_bind_def once_calls c)
  moreover have "merge_compared (once_catalog ahead_meta move_request) ''dev'' ''main'' True [?c] small_world = (Inr (), small_world\<lparr>ew_catalog := 1\<rparr>)"
  proof -
    have "plan_merge ?c = FastForward dev_move" by (simp add: plan_merge_def dev_move_def)
    moreover have "fm_ident dev_move = the_table" by (simp add: dev_move_def)
    ultimately show ?thesis by (simp add: merge_compared_def merge_fast_forward_all_def Let_def io_bind_def once_calls w)
  qed
  moreover have "validate_name ''dev'' = Inr ()" "validate_name ''main'' = Inr ()"
    by (simp_all add: validate_name_def is_ascii_alphanumeric_def)
  ultimately show ?thesis by (simp add: merge_def)
qed

end
