(* ===== verification/Flush.thy ===== *)
theory Flush
  imports BufferSpec CommitSpec TailFrames
begin

text \<open>
  The flusher (\<^verbatim>\<open>WriteBuffer::flush_table\<close>, \<^verbatim>\<open>icegres/src/buffer.rs\<close>) and the predicate it renders for the keys of a
  window (\<^verbatim>\<open>keyed.rs\<close>).  The lock on the buffer is released at every \<^verbatim>\<open>await\<close>: the script of the world says which
  statements other tasks run on the table's entry there, and how late it is afterwards.  The tail is the
  parameter \<open>tail_store\<close>, the methods of the trait that the flusher calls.
\<close>

section \<open>The key predicate\<close>

datatype data_type = Int8 | Int16 | Int32 | Int64 | Boolean | Utf8 | LargeUtf8 | Date32 | OtherType string

text \<open>A value of a key column: its type, whether it is null and its display text.\<close>

record key_cell =
  kc_type :: data_type
  kc_null :: bool
  kc_text :: "string result"

definition ascii_upper :: "char \<Rightarrow> char" where
  "ascii_upper c = (let n = of_char c :: nat in if 97 \<le> n \<and> n \<le> 122 then char_of (n - 32) else c)"

definition render_sql_literal :: "key_cell \<Rightarrow> string result" where
  "render_sql_literal c =
     (if kc_null c then Inl ''keyed op holds a NULL key component''
      else rbind (kc_text c) (\<lambda>text.
        case kc_type c of
          Int8 \<Rightarrow> Inr text | Int16 \<Rightarrow> Inr text | Int32 \<Rightarrow> Inr text | Int64 \<Rightarrow> Inr text
        | Boolean \<Rightarrow> Inr (map ascii_upper text)
        | Utf8 \<Rightarrow> Inr (CHR 0x27 # concat (map (\<lambda>c. if c = CHR 0x27 then [c, c] else [c]) text) @ [CHR 0x27])
        | LargeUtf8 \<Rightarrow> Inr (CHR 0x27 # concat (map (\<lambda>c. if c = CHR 0x27 then [c, c] else [c]) text) @ [CHR 0x27])
        | Date32 \<Rightarrow> Inr (''DATE '' @ CHR 0x27 # text @ [CHR 0x27])
        | OtherType t \<Rightarrow> Inl ''unsupported keyed PK literal type''))"

fun join_text :: "string \<Rightarrow> string list \<Rightarrow> string" where
  "join_text sep [] = []"
| "join_text sep [p] = p"
| "join_text sep (p # q # ps) = p @ sep @ join_text sep (q # ps)"

definition render_key_row :: "string list \<Rightarrow> key_cell list \<Rightarrow> string result" where
  "render_key_row names row =
     rbind (collect_results (map2 (\<lambda>c n. rbind (render_sql_literal c) (\<lambda>l. Inr (n @ '' = '' @ l))) row names)) (\<lambda>conj.
       Inr (''('' @ join_text '' AND '' conj @ '')''))"

definition render_keys_predicate :: "string list \<Rightarrow> key_cell list list \<Rightarrow> string result" where
  "render_keys_predicate cols keys =
     (if keys = [] then Inl ''empty keyed predicate''
      else
        (let names = map quote_ident cols in
         if length cols = 1
         then rbind (collect_results (map (\<lambda>row. render_sql_literal (hd row)) keys)) (\<lambda>vals.
                Inr (hd names @ '' IN ('' @ join_text '', '' vals @ '')''))
         else rbind (collect_results (map (render_key_row names) keys)) (\<lambda>rows.
                Inr (''('' @ join_text '' OR '' rows @ '')''))))"

section \<open>The window as operations\<close>

text \<open>
  Pending rows first, then one delete of every keyed key, then the rows of the upserts.  \<open>cells\<close> is the
  batch of the key rows, concatenated.
\<close>

definition delete_keys :: "lake_ident \<Rightarrow> string \<Rightarrow> dml_statement" where
  "delete_keys ident predicate =
     \<lparr>ds_kind = DmlDelete, ds_namespace = join_with CHR ''.'' (fst ident), ds_table = snd ident, ds_alias = None, ds_predicate = Some predicate\<rparr>"

definition flush_ops ::
  "('k list \<Rightarrow> (string list \<times> key_cell list list) result) \<Rightarrow> lake_ident \<Rightarrow> ('r, 'k) pending_snapshot \<Rightarrow> ('r table_op list) result" where
  "flush_ops cells ident sn =
     (let appends = (if sn_batches sn = [] then [] else [TAppend (concat (sn_batches sn))]);
          upserts = upsert_rows (map (\<lambda>x. snd (snd x)) (sn_keyed sn))
      in if sn_keyed sn = [] then Inr appends
         else
           rbind (cells (map (\<lambda>x. ko_key_row (snd (snd x))) (sn_keyed sn))) (\<lambda>(cols, rows).
           rbind (render_keys_predicate cols rows) (\<lambda>predicate.
             Inr (appends @ [TDml (delete_keys ident predicate)] @ (if upserts = [] then [] else [TAppend (concat upserts)])))))"

section \<open>The tail and the world\<close>

record 't tail_store =
  ts_rotate :: "'t \<Rightarrow> unit result \<times> 't"
  ts_record_watermark :: "nat \<Rightarrow> 't \<Rightarrow> unit result \<times> 't"
  ts_truncate :: "nat \<Rightarrow> 't \<Rightarrow> unit result \<times> 't"
  ts_watermark_property :: string

record ('r, 'k, 'w, 't) flush_world =
  fw_engine :: "'w engine_world"
  fw_buf :: "('r, 'k) table_buf"
  fw_tail :: 't
  fw_now :: nat
  fw_published :: "nat list"
  fw_script :: "(nat \<times> ('r, 'k) buf_statement list) list"

record ('r, 'k, 'v, 'w, 't) flusher =
  fl_catalog :: "('r, 'w) catalog"
  fl_engine :: overwrite_engine
  fl_client :: "('r, 'v) client"
  fl_tail :: "'t tail_store option"
  fl_cells :: "'k list \<Rightarrow> (string list \<times> key_cell list list) result"
  fl_key :: "string list \<Rightarrow> 'r \<Rightarrow> 'k"
  fl_pk_ok :: "string list \<Rightarrow> bool"
  fl_pk :: "string list"

text \<open>A call that is awaited, and what the other tasks do in the meantime.\<close>

definition meanwhile :: "('r, 'k, 'v, 'w, 't) flusher \<Rightarrow> ('r, 'k, 'w, 't) flush_world \<Rightarrow> ('r, 'k, 'w, 't) flush_world" where
  "meanwhile fl w =
     (case fw_script w of
        [] \<Rightarrow> w
      | (t, sts) # script \<Rightarrow>
          w\<lparr>fw_buf := execute_all (fl_key fl) (fl_pk_ok fl) (fl_pk fl) sts (fw_buf w), fw_now := fw_now w + t, fw_script := script\<rparr>)"

definition awaits :: "('r, 'k, 'v, 'w, 't) flusher \<Rightarrow> ('w engine_world, 'a) io \<Rightarrow> (('r, 'k, 'w, 't) flush_world, 'a) io" where
  "awaits fl m w = (case m (fw_engine w) of (r, ew') \<Rightarrow> (r, meanwhile fl (w\<lparr>fw_engine := ew'\<rparr>)))"

definition on_buf :: "(('r, 'k) table_buf \<Rightarrow> ('r, 'k) table_buf) \<Rightarrow> ('r, 'k, 'w, 't) flush_world \<Rightarrow> ('r, 'k, 'w, 't) flush_world" where
  "on_buf f w = w\<lparr>fw_buf := f (fw_buf w)\<rparr>"

definition stamped_mark :: "'t tail_store option \<Rightarrow> 'r table_metadata \<Rightarrow> nat option" where
  "stamped_mark tail tm =
     Option.bind tail (\<lambda>t. parse_watermark_property (tm_props tm (ts_watermark_property t)))"

definition contained_in :: "'t tail_store option \<Rightarrow> 'r table_metadata \<Rightarrow> gen_commit \<Rightarrow> bool" where
  "contained_in tail tm commit =
     (case commit of
        Snapshot s \<Rightarrow> snapshot_by_id tm s \<noteq> None
      | CoveredByWatermark mark \<Rightarrow> (case stamped_mark tail tm of None \<Rightarrow> False | Some w \<Rightarrow> mark \<le> w))"

definition tail_truncate_covered :: "'t tail_store option \<Rightarrow> nat option \<Rightarrow> 't \<Rightarrow> 't" where
  "tail_truncate_covered tail mark t =
     (case (tail, mark) of
        (Some ts, Some upto_seq) \<Rightarrow>
          (case ts_record_watermark ts upto_seq t of
             (Inl e, t1) \<Rightarrow> t1
           | (Inr _, t1) \<Rightarrow> snd (ts_truncate ts upto_seq t1))
      | _ \<Rightarrow> t)"

definition publish_watermark :: "nat option \<Rightarrow> nat list \<Rightarrow> nat list" where
  "publish_watermark mark published = (case mark of None \<Rightarrow> published | Some m \<Rightarrow> published @ [m])"

definition covered :: "('r, 'k, 'v, 'w, 't) flusher \<Rightarrow> nat option \<Rightarrow> ('r, 'k, 'w, 't) flush_world \<Rightarrow> ('r, 'k, 'w, 't) flush_world" where
  "covered fl mark w =
     w\<lparr>fw_tail := tail_truncate_covered (fl_tail fl) mark (fw_tail w), fw_published := publish_watermark mark (fw_published w)\<rparr>"

section \<open>One table\<close>

text \<open>After a post that failed: the commit landed when fresh metadata carries the window's mark.\<close>

definition disambiguate ::
  "('r, 'k, 'v, 'w, 't) flusher \<Rightarrow> lake_ident \<Rightarrow> nat option \<Rightarrow> int \<Rightarrow> string \<Rightarrow> (('r, 'k, 'w, 't) flush_world, unit) io" where
  "disambiguate fl ident mark sid e w =
     (case (fl_tail fl, mark) of
        (Some ts, Some m) \<Rightarrow>
          (case awaits fl (load_table (fl_catalog fl) ident) w of
             (Inl load_err, w1) \<Rightarrow> (Inl e, on_buf (move_flushed_back_to_pending sid) w1)
           | (Inr fresh, w1) \<Rightarrow>
               (if (case stamped_mark (fl_tail fl) fresh of None \<Rightarrow> False | Some seen \<Rightarrow> m \<le> seen)
                then (Inr (), covered fl mark w1)
                else (Inl e, on_buf (move_flushed_back_to_pending sid) w1)))
      | _ \<Rightarrow> (Inl e, on_buf (move_flushed_back_to_pending sid) w))"

text \<open>The properties of the commit, or \<open>None\<close> when the stamp covers the window already.\<close>

definition tail_props :: "'t tail_store option \<Rightarrow> nat option \<Rightarrow> 'r table_metadata \<Rightarrow> (string \<times> string) list option" where
  "tail_props tail mark tm =
     (case (tail, mark) of
        (Some ts, Some m) \<Rightarrow>
          (let prev = stamped_mark tail tm in
           if generation_already_committed prev m then None
           else Some [(ts_watermark_property ts, u64_string (case prev of None \<Rightarrow> m | Some p \<Rightarrow> max p m))])
      | _ \<Rightarrow> Some [])"

text \<open>An attempt once its metadata is loaded; \<open>retry\<close> is what follows a conflict.\<close>

definition flush_loaded ::
  "('r, 'k, 'v, 'w, 't) flusher \<Rightarrow> lake_ident \<Rightarrow> nat \<Rightarrow> ('r, 'k) pending_snapshot \<Rightarrow> 'r table_metadata \<Rightarrow>
   (('r, 'k, 'w, 't) flush_world, unit) io \<Rightarrow> (('r, 'k, 'w, 't) flush_world, unit) io" where
  "flush_loaded fl ident attempt sn tm retry =
     (let n = length (sn_batches sn); keyed = sn_keyed sn; mark = sn_tail_mark sn in
      io_bind (io_lift (pk_columns (fl_engine fl) tm)) (\<lambda>pk.
      io_bind (io_lift (flush_ops (fl_cells fl) ident sn)) (\<lambda>ops.
        case tail_props (fl_tail fl) mark tm of
          None \<Rightarrow> (\<lambda>w. (Inr (), covered fl mark (on_buf (move_pending_to_flushed_gen (fw_now w) n keyed (CoveredByWatermark (the mark))) w)))
        | Some props \<Rightarrow>
            io_bind (awaits fl (io_lift (prepare_commit (cl_engine (fl_client fl) attempt) (cl_pkey (fl_client fl)) (cl_draws (fl_client fl) attempt)
              ident tm ops pk (oe_branch (fl_engine fl)) props))) (\<lambda>prepared w.
              case prepared of
                None \<Rightarrow> (Inr (), covered fl mark (on_buf (drop_pending_prefix n keyed) w))
              | Some pc \<Rightarrow>
                  (let sid = pc_snapshot_id pc in
                   case awaits fl (post_prepared (fl_catalog fl) ident pc) (on_buf (move_pending_to_flushed_gen (fw_now w) n keyed (Snapshot sid)) w) of
                     (Inr Committed, w1) \<Rightarrow> (Inr (), covered fl mark w1)
                   | (Inr (Conflict msg), w1) \<Rightarrow> retry (on_buf (move_flushed_back_to_pending sid) w1)
                   | (Inl e, w1) \<Rightarrow> disambiguate fl ident mark sid e w1)))))"

fun flush_attempts ::
  "('r, 'k, 'v, 'w, 't) flusher \<Rightarrow> lake_ident \<Rightarrow> nat list \<Rightarrow> (('r, 'k, 'w, 't) flush_world, unit) io" where
  "flush_attempts fl ident [] w = (Inl ''lost the optimistic-concurrency race'', w)"
| "flush_attempts fl ident (attempt # attempts) w =
     (case snapshot_pending (fw_buf w) of (sn, tb) \<Rightarrow>
      let w1 = w\<lparr>fw_buf := tb\<rparr> in
      if snap_empty sn then (Inr (), w1)
      else
        io_bind (awaits fl (load_table (fl_catalog fl) ident)) (\<lambda>tm w2.
          flush_loaded fl ident attempt sn tm (flush_attempts fl ident attempts)
            (on_buf (note_observed (contained_in (fl_tail fl) tm)) w2)) w1)"

definition flush_table :: "('r, 'k, 'v, 'w, 't) flusher \<Rightarrow> lake_ident \<Rightarrow> (('r, 'k, 'w, 't) flush_world, unit) io" where
  "flush_table fl ident w =
     (case fl_tail fl of
        None \<Rightarrow> flush_attempts fl ident [1..<MAX_COMMIT_ATTEMPTS + 1] w
      | Some ts \<Rightarrow>
          (case ts_rotate ts (fw_tail w) of
             (Inl e, t1) \<Rightarrow> (Inl e, w\<lparr>fw_tail := t1\<rparr>)
           | (Inr _, t1) \<Rightarrow> flush_attempts fl ident [1..<MAX_COMMIT_ATTEMPTS + 1] (w\<lparr>fw_tail := t1\<rparr>)))"

end
