(* ===== verification/FlushSpec.thy ===== *)
theory FlushSpec
  imports Flush
begin

text \<open>
  What one flush of a table does, from the first snapshot over any number of attempts to its return,
  with other tasks running statements at every \<^verbatim>\<open>await\<close>.  Either the window stays in the buffer, or it has
  left it for exactly one commit of the lake, or for a commit that a watermark proves, or because it
  would have changed nothing; and every scan reads on as if only the statements had run.

  The keys of a table are split: plain inserts stay out of the set \<open>K\<close> and keyed statements stay in it.
  Without that split a failed post puts older keyed entries in front of newer plain rows.
\<close>

section \<open>Statements on separate keys\<close>

fun stmt_apart :: "('r \<Rightarrow> 'k) \<Rightarrow> 'k set \<Rightarrow> ('r, 'k) buf_statement \<Rightarrow> bool" where
  "stmt_apart key K (Insert aligned staged replay_seq) \<longleftrightarrow> (\<forall>r\<in>set (concat aligned). key r \<notin> K)"
| "stmt_apart key K (Write k op staged) \<longleftrightarrow> k \<in> K \<and> op_keyed key k op"

text \<open>A statement is refused exactly when the tail refuses its frame.\<close>

fun refused :: "('r, 'k) buf_statement \<Rightarrow> bool" where
  "refused (Insert aligned staged replay_seq) \<longleftrightarrow> aligned \<noteq> [] \<and> (\<exists>e. staged = Some (Inl e))"
| "refused (Write k op staged) \<longleftrightarrow> (\<exists>e. staged = Some (Inl e))"

definition own_effect :: "('r \<Rightarrow> 'k) \<Rightarrow> ('r, 'k) buf_statement \<Rightarrow> 'r multiset \<Rightarrow> 'r multiset" where
  "own_effect key st A = (if refused st then A else stmt_effect key {} st A)"

definition own_effects :: "('r \<Rightarrow> 'k) \<Rightarrow> ('r, 'k) buf_statement list \<Rightarrow> 'r multiset \<Rightarrow> 'r multiset" where
  "own_effects key = fold (own_effect key)"

definition keys_in :: "'k set \<Rightarrow> ('r, 'k) table_buf \<Rightarrow> bool" where
  "keys_in K tb \<longleftrightarrow> buffered_keys tb \<subseteq> K \<and> (\<forall>g\<in>set (tb_flushed tb). fst ` set (fg_keyed g) \<subseteq> K)"

lemma apart_ok: "stmt_apart key K st \<Longrightarrow> stmt_ok key st"
  by (cases st) auto

lemma apart_effect:
  assumes "stmt_apart key K st" "S \<subseteq> K"
  shows "stmt_effect key S st A = stmt_effect key {} st A"
proof (cases st)
  case (Insert aligned staged replay_seq)
  have "fold (insert_effect key S) rows A = fold (insert_effect key {}) rows A" if "\<forall>r\<in>set rows. key r \<notin> K" for rows
    using that assms(2) by (induction rows arbitrary: A) (auto simp: insert_effect_def)
  then show ?thesis using assms(1) Insert by simp
qed simp

text \<open>Routing rows whose keys have no entry appends their batches; it never fails on valid key columns.\<close>

lemma route_batch_apart:
  assumes "tb_keyed (fst st) = Some ks" "pk_ok (ks_pk_cols ks)" "\<forall>r\<in>set batch. key (ks_pk_cols ks) r \<notin> fst ` set (ks_entries ks)"
  shows "route_batch key pk_ok seq batch st = Inr (if batch = [] then st else push_pending batch seq st)"
proof -
  have "filter (\<lambda>x. map_of (ks_entries ks) (fst x) \<noteq> None) (zip (map (key (ks_pk_cols ks)) batch) batch) = []"
    using assms(3) by (auto simp: filter_empty_conv zip_map_keys map_of_eq_None_iff)
  then show ?thesis using assms(1,2) by (simp add: route_batch_def encode_batch_keys_def rbind_def Let_def)
qed

lemma push_pending_fields [simp]:
  "tb_keyed (fst (push_pending b seq st)) = tb_keyed (fst st)" "tb_flushed (fst (push_pending b seq st)) = tb_flushed (fst st)"
  "map pb_batch (tb_pending (fst (push_pending b seq st))) = map pb_batch (tb_pending (fst st)) @ [b]"
  by (simp_all add: push_pending_def Let_def)

definition pushes :: "('r \<Rightarrow> bool) \<Rightarrow> ('r, 'k) table_buf \<Rightarrow> ('r, 'k) table_buf \<Rightarrow> bool" where
  "pushes P tb tb' \<longleftrightarrow> tb_keyed tb' = tb_keyed tb \<and> tb_flushed tb' = tb_flushed tb \<and>
     (\<exists>pbs. map pb_batch (tb_pending tb') = map pb_batch (tb_pending tb) @ pbs \<and> (\<forall>r\<in>set (concat pbs). P r))"

lemma pushes_refl [simp]: "pushes P tb tb"
  by (simp add: pushes_def)

lemma pushes_trans: "pushes P a b \<Longrightarrow> pushes P b c \<Longrightarrow> pushes P a c"
proof -
  assume "pushes P a b" "pushes P b c"
  then obtain p q where "map pb_batch (tb_pending b) = map pb_batch (tb_pending a) @ p" "\<forall>r\<in>set (concat p). P r"
    "map pb_batch (tb_pending c) = map pb_batch (tb_pending b) @ q" "\<forall>r\<in>set (concat q). P r"
    "tb_keyed c = tb_keyed a" "tb_flushed c = tb_flushed a" by (auto simp: pushes_def)
  then show ?thesis unfolding pushes_def by (intro conjI exI [of _ "p @ q"]) auto
qed

lemma push_pending_pushes: "\<forall>r\<in>set b. P r \<Longrightarrow> pushes P (fst st) (fst (push_pending b seq st))"
  by (auto simp: pushes_def)

lemma route_batches_apart:
  assumes "tb_keyed (fst st) = Some ks" "pk_ok (ks_pk_cols ks)"
    and "\<forall>r\<in>set (concat bs). key (ks_pk_cols ks) r \<notin> fst ` set (ks_entries ks) \<and> P r"
  shows "\<exists>st'. route_batches key pk_ok seq bs st = Inr st' \<and> pushes P (fst st) (fst st')"
  using assms
proof (induction bs arbitrary: st)
  case (Cons b bs)
  let ?st = "if b = [] then st else push_pending b seq st"
  have r: "route_batch key pk_ok seq b st = Inr ?st"
    by (rule route_batch_apart) (use Cons.prems in auto)
  have "\<exists>st'. route_batches key pk_ok seq bs ?st = Inr st' \<and> pushes P (fst ?st) (fst st')"
    by (rule Cons.IH) (use Cons.prems in auto)
  moreover have "pushes P (fst st) (fst ?st)" using Cons.prems(3) push_pending_pushes [of b P st seq] by auto
  ultimately show ?case using r pushes_trans by (auto simp: rbind_def)
qed simp

lemma fold_push_pushes: "\<forall>r\<in>set (concat bs). P r \<Longrightarrow> pushes P (fst st) (fst (fold (\<lambda>b. push_pending b seq) bs st))"
proof (induction bs arbitrary: st)
  case (Cons b bs)
  then show ?case using pushes_trans [OF push_pending_pushes [of b P st seq]] by simp
qed simp

lemma route_appends_apart:
  assumes "buf_wf (key pk) pk tb" "pk_ok pk" "\<forall>r\<in>set (concat bs). key pk r \<notin> buffered_keys tb \<and> P r"
  shows "\<exists>tb' routed. route_appends key pk_ok tb bs seq = Inr (tb', routed) \<and> pushes P tb tb'"
proof (cases "keyed_entries tb = []")
  case True
  then show ?thesis
    using fold_push_pushes [of bs P "(tb, \<lparr>rs_batch_ids = [], rs_keyed = []\<rparr>)" seq] assms(3)
    by (cases "fold (\<lambda>b. push_pending b seq) bs (tb, \<lparr>rs_batch_ids = [], rs_keyed = []\<rparr>)") (auto simp: route_appends_def)
next
  case False
  then obtain ks where ks: "tb_keyed tb = Some ks" by (auto simp: keyed_entries_def split: option.splits)
  have "ks_pk_cols ks = pk" using assms(1) ks by (auto simp: buf_wf_def)
  then show ?thesis
    using route_batches_apart [of "(tb, \<lparr>rs_batch_ids = [], rs_keyed = []\<rparr>)" ks pk_ok bs key P seq] assms(2,3) ks False
    by (auto simp: route_appends_def buffered_keys_def keyed_entries_def)
qed

text \<open>A statement on its side of the split: accepted exactly when it is not refused, with its own effect.\<close>

definition grows :: "('r \<Rightarrow> bool) \<Rightarrow> ('r, 'k) table_buf \<Rightarrow> ('r, 'k) table_buf \<Rightarrow> bool" where
  "grows P tb tb' \<longleftrightarrow>
     (\<exists>pbs. map pb_batch (tb_pending tb') = map pb_batch (tb_pending tb) @ pbs \<and> (\<forall>r\<in>set (concat pbs). P r)) \<and>
     (\<forall>ks. tb_keyed tb = Some ks \<longrightarrow> (\<exists>ks'. tb_keyed tb' = Some ks' \<and> ks_next_stamp ks \<le> ks_next_stamp ks'))"

lemma pushes_grows: "pushes P tb tb' \<Longrightarrow> grows P tb tb'"
  by (auto simp: pushes_def grows_def)

lemma grows_refl [simp]: "grows P tb tb"
  by (simp add: grows_def)

lemma grows_trans:
  assumes "grows P a b" "grows P b c"
  shows "grows P a c"
proof -
  obtain p q where "map pb_batch (tb_pending b) = map pb_batch (tb_pending a) @ p" "\<forall>r\<in>set (concat p). P r"
    "map pb_batch (tb_pending c) = map pb_batch (tb_pending b) @ q" "\<forall>r\<in>set (concat q). P r"
    using assms by (auto simp: grows_def)
  moreover have "\<exists>ks'. tb_keyed c = Some ks' \<and> ks_next_stamp ks \<le> ks_next_stamp ks'" if "tb_keyed a = Some ks" for ks
    using assms that unfolding grows_def by (meson le_trans)
  ultimately show ?thesis unfolding grows_def by (intro conjI exI [of _ "p @ q"]) auto
qed

lemma stage_seq_ok:
  assumes "\<forall>e. staged \<noteq> Some (Inl e)"
  shows "\<exists>s tb'. stage_seq staged tb = Inr (s, tb') \<and> same_rows tb tb' \<and> tb_pending tb' = tb_pending tb"
proof (cases staged)
  case (Some r)
  then show ?thesis using assms by (cases r) (auto simp: stage_seq_def same_rows_def)
qed (simp add: stage_seq_def same_rows_def)

lemma insert_apart:
  assumes "buffer_ok (key pk) pk tb" "pk_ok pk" "keys_in K tb" "stmt_apart (key pk) K (Insert aligned staged replay_seq)"
  shows "\<exists>r tb'. buf_append key pk_ok tb aligned staged replay_seq = (r, tb') \<and>
    ((\<exists>e. r = Inl e) \<longleftrightarrow> refused (Insert aligned staged replay_seq)) \<and> grows (\<lambda>r. key pk r \<notin> K) tb tb' \<and> keys_in K tb'"
proof (cases "refused (Insert aligned staged replay_seq)")
  case True
  then obtain e where "aligned \<noteq> []" "staged = Some (Inl e)" by auto
  then show ?thesis using assms(3) True by (auto simp: buf_append_def stage_seq_def)
next
  case False
  then obtain s tb1 where st: "stage_seq (if aligned = [] then None else staged) tb = Inr (s, tb1)" "same_rows tb tb1" "tb_pending tb1 = tb_pending tb"
    using stage_seq_ok [of "if aligned = [] then None else staged" tb] by (cases "aligned = []") auto
  have w: "buf_wf (key pk) pk tb1" using assms(1) same_rows_buf(3) [OF st(2)] by (simp add: buffer_ok_def)
  have b: "buffered_keys tb1 = buffered_keys tb" using same_rows_buf(1) [OF st(2)] by (simp add: buffered_keys_def)
  let ?seq = "case s of None \<Rightarrow> replay_seq | Some n \<Rightarrow> Some n"
  have "\<forall>r\<in>set (concat aligned). key pk r \<notin> buffered_keys tb1 \<and> key pk r \<notin> K" using assms(3,4) b by (auto simp: keys_in_def)
  then obtain tb' routed where r: "route_appends key pk_ok tb1 aligned ?seq = Inr (tb', routed)" "pushes (\<lambda>r. key pk r \<notin> K) tb1 tb'"
    using route_appends_apart [of key pk tb1 pk_ok aligned "\<lambda>r. key pk r \<notin> K" ?seq] w assms(2) by auto
  have "grows (\<lambda>r. key pk r \<notin> K) tb tb1" using st(2,3) by (simp add: grows_def same_rows_def)
  then have "grows (\<lambda>r. key pk r \<notin> K) tb tb'" using pushes_grows [OF r(2)] grows_trans by blast
  moreover have "keys_in K tb'" using assms(3) r(2) st(2) b by (auto simp: keys_in_def pushes_def same_rows_def buffered_keys_def keyed_entries_def)
  ultimately show ?thesis using st(1) r(1) False by (auto simp: buf_append_def Let_def)
qed

lemma write_apart:
  assumes "buffer_ok (key pk) pk tb" "keys_in K tb" "stmt_apart (key pk) K (Write k op staged)"
  shows "\<exists>r tb'. keyed_write tb pk k op staged = (r, tb') \<and>
    ((\<exists>e. r = Inl e) \<longleftrightarrow> refused (Write k op staged)) \<and> grows P tb tb' \<and> keys_in K tb'"
proof -
  define ks where "ks = (case tb_keyed tb of
      None \<Rightarrow> \<lparr>ks_pk_cols = pk, ks_entries = [], ks_next_stamp = 1, ks_claimed_below = 1\<rparr> | Some ks \<Rightarrow> ks)"
  let ?tb = "tb\<lparr>tb_keyed := Some ks\<rparr>"
  have pk: "ks_pk_cols ks = pk" "ks\<lparr>ks_pk_cols := pk\<rparr> = ks"
    using assms(1) by (auto simp: ks_def buf_wf_def buffer_ok_def split: option.splits)
  have e: "ks_entries ks = keyed_entries tb" by (simp add: ks_def keyed_entries_def split: option.splits)
  have w: "keyed_write tb pk k op staged =
      (case stage_seq staged ?tb of
         Inl e \<Rightarrow> (Inl e, ?tb)
       | Inr (s, tb3) \<Rightarrow>
           (let op1 = (case s of None \<Rightarrow> op | Some n \<Rightarrow> op\<lparr>ko_seq := Some n\<rparr>); (ks2, log) = keyed_insert k op1 (ks, [])
            in (Inr (\<lparr>rs_batch_ids = [], rs_keyed = log\<rparr>, ko_seq op1), tb3\<lparr>tb_keyed := Some ks2\<rparr>)))"
    unfolding keyed_write_def ks_def [symmetric] Let_def pk(2) by (simp add: pk(1) Let_def split: sum.splits)
  have g: "grows P tb ?tb" by (auto simp: grows_def ks_def)
  have k: "keys_in K ?tb" using assms(2) e by (simp add: keys_in_def buffered_keys_def keyed_entries_def)
  show ?thesis
  proof (cases "refused (Write k op staged)")
    case True
    then show ?thesis using w g k by (auto simp: stage_seq_def)
  next
    case False
    then obtain s tb3 where st: "stage_seq staged ?tb = Inr (s, tb3)" "same_rows ?tb tb3" "tb_pending tb3 = tb_pending ?tb"
      using stage_seq_ok [of staged ?tb] by auto
    define op1 where "op1 = (case s of None \<Rightarrow> op | Some n \<Rightarrow> op\<lparr>ko_seq := Some n\<rparr>)"
    obtain ks2 log where i: "keyed_insert k op1 (ks, []) = (ks2, log)" by (cases "keyed_insert k op1 (ks, [])")
    have "ks2 = ks\<lparr>ks_next_stamp := ks_next_stamp ks + 1, ks_entries := AList.update k \<lparr>ke_stamp = ks_next_stamp ks, ke_op = op1\<rparr> (ks_entries ks)\<rparr>"
      using i by (simp add: keyed_insert_def Let_def)
    then have k2: "ks_next_stamp ks2 = ks_next_stamp ks + 1" "fst ` set (ks_entries ks2) = insert k (fst ` set (ks_entries ks))"
      by (simp_all add: update_keys)
    let ?tb' = "tb3\<lparr>tb_keyed := Some ks2\<rparr>"
    have "grows P ?tb ?tb'" using st(2,3) k2(1) by (simp add: grows_def same_rows_def)
    moreover have "keys_in K ?tb'" using k k2(2) assms(3) st(2) by (auto simp: keys_in_def buffered_keys_def keyed_entries_def same_rows_def)
    ultimately show ?thesis using w st(1) i g grows_trans False by (auto simp: op1_def [symmetric] Let_def)
  qed
qed

section \<open>What a window keeps\<close>

definition gens :: "('r, 'k) table_buf \<Rightarrow> (gen_commit \<times> (nat option \<times> 'r list) list \<times> ('r, 'k) keyed_snap) list" where
  "gens tb = map (\<lambda>g. (fg_commit g, fg_batches g, fg_keyed g)) (tb_flushed tb)"

text \<open>The statements have had their effect \<open>F\<close> on every read; a flush in flight is still intact.\<close>

definition keeps ::
  "('r \<Rightarrow> 'k) \<Rightarrow> string list \<Rightarrow> 'k set \<Rightarrow> ('r multiset \<Rightarrow> 'r multiset) \<Rightarrow> ('r, 'k) table_buf \<Rightarrow> ('r, 'k) table_buf \<Rightarrow> bool" where
  "keeps key pk K F tb tb' \<longleftrightarrow>
     buffer_ok key pk tb' \<and> keys_in K tb' \<and> gens tb' = gens tb \<and> (\<forall>X. newest key tb' X = F (newest key tb X)) \<and>
     grows (\<lambda>r. key r \<notin> K) tb tb' \<and> (\<forall>sn. in_flight key sn tb \<longrightarrow> in_flight key sn tb')"

lemma keeps_refl: "buffer_ok key pk tb \<Longrightarrow> keys_in K tb \<Longrightarrow> keeps key pk K id tb tb"
  by (simp add: keeps_def)

lemma keeps_trans: "keeps key pk K F a b \<Longrightarrow> keeps key pk K G b c \<Longrightarrow> keeps key pk K (G \<circ> F) a c"
  unfolding keeps_def using grows_trans by fastforce

lemma execute_keeps:
  assumes "buffer_ok (key pk) pk tb" "pk_ok pk" "keys_in K tb" "stmt_apart (key pk) K st"
  shows "keeps (key pk) pk K (own_effect (key pk) st) tb (snd (buf_execute key pk_ok pk tb st))"
proof -
  obtain r tb' where e: "buf_execute key pk_ok pk tb st = (r, tb')" by (cases "buf_execute key pk_ok pk tb st")
  have g: "((\<exists>e. r = Inl e) \<longleftrightarrow> refused st) \<and> grows (\<lambda>r. key pk r \<notin> K) tb tb' \<and> keys_in K tb'"
  proof (cases st)
    case (Insert aligned staged replay_seq)
    then show ?thesis using insert_apart [of key pk tb pk_ok K aligned staged replay_seq] assms e by auto
  next
    case (Write k op staged)
    then show ?thesis using write_apart [of key pk tb K k op staged] assms e by auto
  qed
  have w: "buf_wf (key pk) pk tb" using assms(1) by (simp add: buffer_ok_def)
  have a: "advances (key pk) pk (case r of Inl e \<Rightarrow> id | Inr x \<Rightarrow> stmt_effect (key pk) (buffered_keys tb) st) tb tb'"
    by (rule execute_advances [OF w apart_ok [OF assms(4)] e])
  have "(case r of Inl e \<Rightarrow> id | Inr x \<Rightarrow> stmt_effect (key pk) (buffered_keys tb) st) = own_effect (key pk) st"
    using g apart_effect [OF assms(4), of "buffered_keys tb"] assms(3)
    by (intro ext) (cases r; auto simp: own_effect_def keys_in_def)
  then have a': "advances (key pk) pk (own_effect (key pk) st) tb tb'" using a by simp
  then have "buffer_ok (key pk) pk tb'" using assms(1) by (auto simp: advances_def buffer_ok_def)
  moreover have "gens tb' = gens tb" using a' by (simp add: advances_def gens_def)
  ultimately show ?thesis using a' g e unfolding keeps_def advances_def by simp
qed

lemma execute_all_keeps:
  assumes "buffer_ok (key pk) pk tb" "pk_ok pk" "keys_in K tb" "\<forall>st\<in>set sts. stmt_apart (key pk) K st"
  shows "keeps (key pk) pk K (own_effects (key pk) sts) tb (execute_all key pk_ok pk sts tb)"
  using assms
proof (induction sts arbitrary: tb)
  case Nil
  then show ?case using keeps_refl by (simp add: execute_all_def own_effects_def id_def [symmetric])
next
  case (Cons st sts)
  let ?tb = "snd (buf_execute key pk_ok pk tb st)"
  have k: "keeps (key pk) pk K (own_effect (key pk) st) tb ?tb" by (rule execute_keeps) (use Cons.prems in auto)
  then have k2: "keeps (key pk) pk K (own_effects (key pk) sts) ?tb (execute_all key pk_ok pk sts ?tb)"
    by (intro Cons.IH) (use Cons.prems in \<open>auto simp: keeps_def\<close>)
  have e: "own_effects (key pk) (st # sts) = own_effects (key pk) sts \<circ> own_effect (key pk) st" by (simp add: own_effects_def)
  have x: "execute_all key pk_ok pk (st # sts) tb = execute_all key pk_ok pk sts ?tb" by (simp add: execute_all_def)
  show ?case unfolding e x by (rule keeps_trans [OF k k2])
qed

lemma observed_keeps:
  assumes "buffer_ok key pk tb" "keys_in K tb"
  shows "keeps key pk K id tb (note_observed f tb)"
proof -
  let ?tb = "note_observed f tb"
  have s: "tb_pending ?tb = tb_pending tb" "tb_keyed ?tb = tb_keyed tb" "keyed_entries ?tb = keyed_entries tb"
    by (simp_all add: note_observed_def keyed_entries_def)
  have "map fg_keyed (tb_flushed ?tb) = map fg_keyed (tb_flushed tb)" by (auto simp: note_observed_def)
  then have i: "fg_keyed ` set (tb_flushed ?tb) = fg_keyed ` set (tb_flushed tb)" by (metis list.set_map)
  have k: "(\<forall>g\<in>set (tb_flushed ?tb). P (fg_keyed g)) = (\<forall>g\<in>set (tb_flushed tb). P (fg_keyed g))" for P
  proof -
    have "(\<forall>x\<in>fg_keyed ` set (tb_flushed ?tb). P x) = (\<forall>x\<in>fg_keyed ` set (tb_flushed tb). P x)" by (simp only: i)
    then show ?thesis by simp
  qed
  have "gens ?tb = gens tb" by (auto simp: gens_def note_observed_def)
  moreover have "keys_in K ?tb" using assms(2) k [of "\<lambda>x. fst ` set x \<subseteq> K"] s by (simp add: keys_in_def buffered_keys_def)
  moreover have "buffer_ok key pk ?tb" using assms(1) k [of "\<lambda>x. x = []"] s by (auto simp: buffer_ok_def buf_wf_def)
  ultimately show ?thesis using s by (simp add: keeps_def newest_eq grows_def in_flight_def flight_ok_def)
qed

lemma snapshot_keeps:
  assumes "buffer_ok key pk tb" "keys_in K tb" "snapshot_pending tb = (sn, tb')"
  shows "keeps key pk K id tb tb' \<and> in_flight key sn tb' \<and> fst ` set (sn_keyed sn) \<subseteq> K"
proof -
  have tb': "map pb_batch (tb_pending tb') = map pb_batch (tb_pending tb)" "keyed_entries tb' = keyed_entries tb"
      "tb_flushed tb' = tb_flushed tb" "tb_keyed tb' = map_option (\<lambda>ks. ks\<lparr>ks_claimed_below := ks_next_stamp ks\<rparr>) (tb_keyed tb)"
    and sn: "sn_keyed sn = snap_keyed (keyed_entries tb)"
    using assms(3) by (auto simp: snapshot_pending_def keyed_entries_def comp_def split: option.splits)
  have "in_flight key s tb'" if "in_flight key s tb" for s
    using that tb' by (fastforce simp: in_flight_def flight_ok_def)
  moreover have "fst ` set (sn_keyed sn) \<subseteq> K" using assms(2) sn by (auto simp: snap_keyed_def keys_in_def buffered_keys_def)
  ultimately show ?thesis
    using snapshot_in_flight [OF assms(1,3)] tb' assms(2)
    by (auto simp: keeps_def keys_in_def buffered_keys_def gens_def newest_eq grows_def)
qed

section \<open>Moving out and back\<close>

definition parked ::
  "('r \<Rightarrow> 'k) \<Rightarrow> string list \<Rightarrow> 'k set \<Rightarrow> ('r multiset \<Rightarrow> 'r multiset) \<Rightarrow> ('r, 'k) pending_snapshot \<Rightarrow> gen_commit \<Rightarrow>
   ('r, 'k) table_buf \<Rightarrow> ('r, 'k) table_buf \<Rightarrow> bool" where
  "parked key pk K F sn c tb tb' \<longleftrightarrow>
     buffer_ok key pk tb' \<and> keys_in K tb' \<and> (\<exists>bs. gens tb' = gens tb @ [(c, bs, sn_keyed sn)] \<and> map snd bs = sn_batches sn) \<and>
     (\<forall>X. newest key tb' (layer_apply key (snap_layer sn) X) = F (newest key tb X))"

text \<open>What a move leaves for the way back: stamps of the past, and nothing newer under the keys of the window.\<close>

definition returnable :: "('r \<Rightarrow> 'k) \<Rightarrow> ('r, 'k) pending_snapshot \<Rightarrow> ('r, 'k) table_buf \<Rightarrow> bool" where
  "returnable key sn tb \<longleftrightarrow> snap_wf key (sn_keyed sn) \<and>
     (\<forall>r\<in>set (concat (map pb_batch (tb_pending tb))). key r \<notin> fst ` set (sn_keyed sn)) \<and>
     (\<forall>(k, s, op)\<in>set (sn_keyed sn). \<exists>ks. tb_keyed tb = Some ks \<and> s < ks_next_stamp ks)"

lemma move_parked:
  assumes "buffer_ok key pk tb" "keys_in K tb" "in_flight key sn tb" "fst ` set (sn_keyed sn) \<subseteq> K"
    and "tb' = move_pending_to_flushed_gen now (length (sn_batches sn)) (sn_keyed sn) c tb"
  shows "parked key pk K id sn c tb tb' \<and> returnable key sn tb'"
proof -
  obtain g where g: "tb_flushed tb' = tb_flushed tb @ [g]" "fg_commit g = c" "gen_layer g = snap_layer sn" "buffer_ok key pk tb'"
    "\<And>rows. newest key tb' (layer_apply key (snap_layer sn) rows) = newest key tb rows"
    using handed_over [OF assms(1,3,5)] by blast
  have fk: "fg_keyed g = sn_keyed sn" using g(1) by (auto simp: assms(5) move_pending_to_flushed_gen_def drop_pending_prefix_def drain_keyed_snapshot_def Let_def)
  have fb: "map snd (fg_batches g) = sn_batches sn" using g(3) by (simp add: gen_layer_def snap_layer_def)
  have k: "tb_keyed tb' = map_option (\<lambda>ks. ks\<lparr>ks_entries := fold drain_entry (sn_keyed sn) (ks_entries ks)\<rparr>) (tb_keyed tb)"
    and p: "tb_pending tb' = drop (length (sn_batches sn)) (tb_pending tb)"
    by (simp_all add: assms(5) move_pending_to_flushed_gen_def drop_pending_prefix_def drain_keyed_snapshot_def Let_def)
  have fl: "flight_ok key sn tb" using assms(3) by (simp add: in_flight_def)
  have "distinct (map fst (keyed_entries tb))" using assms(1) by (simp add: buffer_ok_def buf_wf_def entries_wf_def)
  then have "keyed_entries tb' = filter (\<lambda>y. \<not> drained (sn_keyed sn) y) (keyed_entries tb)"
    using drain_fold k by (cases "tb_keyed tb") (auto simp: keyed_entries_def)
  then have "buffered_keys tb' \<subseteq> K" using assms(2) by (auto simp: buffered_keys_def keys_in_def)
  then have "keys_in K tb'" using assms(2,4) g(1) fk by (auto simp: keys_in_def)
  moreover have "snap_wf key (sn_keyed sn)" using fl by (simp add: flight_ok_def)
  moreover have "\<forall>r\<in>set (concat (map pb_batch (tb_pending tb'))). key r \<notin> fst ` set (sn_keyed sn)"
  proof -
    obtain pbs where "map pb_batch (tb_pending tb) = sn_batches sn @ pbs" "\<forall>r\<in>set (concat pbs). key r \<notin> fst ` set (sn_keyed sn)"
      using fl unfolding flight_ok_def by blast
    then show ?thesis by (simp add: p drop_map [symmetric])
  qed
  moreover have "\<forall>(k, s, op)\<in>set (sn_keyed sn). \<exists>ks. tb_keyed tb' = Some ks \<and> s < ks_next_stamp ks"
    using assms(3) k by (fastforce simp: in_flight_def)
  ultimately show ?thesis using g fk fb by (auto simp: parked_def returnable_def gens_def)
qed

lemma parked_keeps:
  assumes "parked key pk K F sn c tb tb1" "keeps key pk K G tb1 tb2"
  shows "parked key pk K (G \<circ> F) sn c tb tb2"
  using assms by (auto simp: parked_def keeps_def)

lemma returnable_keeps:
  assumes "returnable key sn tb1" "keeps key pk K G tb1 tb2" "fst ` set (sn_keyed sn) \<subseteq> K"
  shows "returnable key sn tb2"
proof -
  have g: "grows (\<lambda>r. key r \<notin> K) tb1 tb2" using assms(2) by (simp add: keeps_def)
  then obtain pbs where p: "map pb_batch (tb_pending tb2) = map pb_batch (tb_pending tb1) @ pbs" "\<forall>r\<in>set (concat pbs). key r \<notin> K"
    by (auto simp: grows_def)
  moreover have "\<exists>ks. tb_keyed tb2 = Some ks \<and> s < ks_next_stamp ks" if "\<exists>ks. tb_keyed tb1 = Some ks \<and> s < ks_next_stamp ks" for s
    using g that unfolding grows_def by (meson less_le_trans)
  moreover have "set (concat (map pb_batch (tb_pending tb2))) = set (concat (map pb_batch (tb_pending tb1))) \<union> set (concat pbs)"
    by (simp only: p(1) concat_append set_append)
  ultimately show ?thesis using p(2) assms(1,3) unfolding returnable_def by (simp only: case_prod_unfold) blast
qed

lemma take_gen_last:
  "\<forall>g\<in>set gs. fg_commit g \<noteq> Snapshot sid \<Longrightarrow> fg_commit g = Snapshot sid \<Longrightarrow> take_gen sid (gs @ [g]) = Some (g, gs)"
  by (induction gs) auto

lemma restored_rows: "map pb_batch (restore_batches i bs) = map snd bs"
  by (rule nth_equalityI) (simp_all add: restore_batches_def enumerate_eq_zip case_prod_unfold)

definition same_view ::
  "('r \<Rightarrow> 'k) \<Rightarrow> string list \<Rightarrow> 'k set \<Rightarrow> ('r multiset \<Rightarrow> 'r multiset) \<Rightarrow> ('r, 'k) table_buf \<Rightarrow> ('r, 'k) table_buf \<Rightarrow> bool" where
  "same_view key pk K F tb tb' \<longleftrightarrow>
     buffer_ok key pk tb' \<and> keys_in K tb' \<and> gens tb' = gens tb \<and> (\<forall>X. newest key tb' X = F (newest key tb X))"

lemma keeps_same_view: "keeps key pk K F tb tb' \<Longrightarrow> same_view key pk K F tb tb'"
  by (simp add: keeps_def same_view_def)

lemma same_view_trans: "same_view key pk K F a b \<Longrightarrow> same_view key pk K G b c \<Longrightarrow> same_view key pk K (G \<circ> F) a c"
  by (simp add: same_view_def)

lemma parked_after: "same_view key pk K F a b \<Longrightarrow> parked key pk K G sn c b d \<Longrightarrow> parked key pk K (G \<circ> F) sn c a d"
  by (auto simp: same_view_def parked_def)

text \<open>A window that is moved back is read as if it had never left.\<close>

lemma moved_back:
  assumes "parked key pk K F sn (Snapshot sid) tb tb1" "returnable key sn tb1" "Snapshot sid \<notin> fst ` set (gens tb)"
  shows "same_view key pk K F tb (move_flushed_back_to_pending sid tb1)"
proof -
  let ?tb = "move_flushed_back_to_pending sid tb1" and ?K = "sn_keyed sn"
  obtain bs where ok: "buffer_ok key pk tb1" "keys_in K tb1" and gs: "gens tb1 = gens tb @ [(Snapshot sid, bs, ?K)]" "map snd bs = sn_batches sn"
    and n: "\<And>X. newest key tb1 (layer_apply key (snap_layer sn) X) = F (newest key tb X)"
    using assms(1) unfolding parked_def by blast
  obtain fs g where fg: "tb_flushed tb1 = fs @ [g]" "map (\<lambda>g. (fg_commit g, fg_batches g, fg_keyed g)) fs = gens tb"
    "fg_commit g = Snapshot sid" "fg_batches g = bs" "fg_keyed g = ?K"
    using gs(1) by (auto simp: gens_def map_eq_append_conv)
  have "\<forall>g\<in>set fs. fg_commit g \<noteq> Snapshot sid"
    using assms(3) unfolding fg(2) [symmetric] by force
  then have t: "take_gen sid (tb_flushed tb1) = Some (g, fs)" using take_gen_last fg(1,3) by metis
  have w: "snap_wf key ?K" using assms(2) by (simp add: returnable_def)
  then have d: "distinct (map fst ?K)" "\<forall>(k, s, op)\<in>set ?K. op_keyed key k op" by (simp_all add: snap_wf_def)
  have p: "map pb_batch (tb_pending ?tb) = sn_batches sn @ map pb_batch (tb_pending tb1)"
    using gs(2) by (simp add: move_flushed_back_to_pending_def t fg(3-5) restored_rows)
  have f: "gens ?tb = gens tb" by (simp add: move_flushed_back_to_pending_def t gens_def fg(2) [unfolded gens_def])
  have k: "tb_keyed ?tb = map_option (\<lambda>ks. ks\<lparr>ks_entries := fold merge_back ?K (ks_entries ks)\<rparr>) (tb_keyed tb1)"
    by (simp add: move_flushed_back_to_pending_def t fg(5))
  have st: "\<forall>(k, s, op)\<in>set ?K. \<exists>ks. tb_keyed tb1 = Some ks \<and> s < ks_next_stamp ks" using assms(2) by (simp add: returnable_def)
  let ?new = "filter (\<lambda>x. fst x \<notin> buffered_keys tb1) ?K"
  let ?restored = "map (\<lambda>x. (fst x, \<lparr>ke_stamp = fst (snd x), ke_op = snd (snd x)\<rparr>)) ?new"
  have e: "keyed_entries ?tb = keyed_entries tb1 @ ?restored"
  proof (cases "tb_keyed tb1")
    case None
    then have "?K = []" using st by (cases ?K) auto
    then show ?thesis using None k by (simp add: keyed_entries_def)
  next
    case (Some ks)
    then show ?thesis using k merge_fold [OF d(1), of "ks_entries ks"] by (simp add: keyed_entries_def buffered_keys_def)
  qed
  have ew: "entries_wf key (keyed_entries tb1)" using ok(1) by (simp add: buffer_ok_def buf_wf_def)
  have "distinct (map fst ?restored)" using d(1) by (simp add: comp_def distinct_map_filter)
  moreover have "set (map fst ?restored) \<inter> buffered_keys tb1 = {}" by auto
  moreover have "\<forall>(k, e)\<in>set ?restored. op_keyed key k (ke_op e)" using d(2) by (auto simp: case_prod_unfold)
  ultimately have we: "entries_wf key (keyed_entries ?tb)"
    using ew unfolding e entries_wf_def buffered_keys_def set_append ball_Un map_append distinct_append by (simp only: set_map) blast
  have "buffered_keys ?tb = buffered_keys tb1 \<union> fst ` set ?new" by (simp add: buffered_keys_def e image_Un image_image)
  moreover have "fst ` set ?new = fst ` set ?K - buffered_keys tb1" by force
  ultimately have keys: "buffered_keys ?tb = fst ` set ?K \<union> buffered_keys tb1" by blast
  have m: "newest key ?tb X = newest key tb1 (layer_apply key (snap_layer sn) X)" for X
    unfolding newest_def
  proof (rule layer_merge)
    show "set (ly_keys (pending_layer ?tb)) = set (ly_keys (snap_layer sn)) \<union> set (ly_keys (pending_layer tb1))"
      using keys by (simp add: pending_layer_def snap_layer_def buffered_keys_def)
    show "concat (ly_appends (pending_layer ?tb)) = concat (ly_appends (snap_layer sn)) @ concat (ly_appends (pending_layer tb1))"
      using p by (simp add: pending_layer_def snap_layer_def)
    show "mset (concat (ly_upserts (pending_layer ?tb))) = mset (concat (ly_upserts (pending_layer tb1))) +
      mset (filter (\<lambda>r. key r \<notin> set (ly_keys (pending_layer tb1))) (concat (ly_upserts (snap_layer sn))))"
      using snap_up_filter [OF d(2), of "buffered_keys tb1"]
      by (simp add: pending_layer_def snap_layer_def concat_upsert_rows comp_def e buffered_keys_def)
    show "\<forall>r\<in>set (concat (ly_appends (pending_layer tb1))). key r \<in> set (ly_keys (snap_layer sn)) \<longrightarrow> key r \<in> set (ly_keys (pending_layer tb1))"
      using assms(2) by (simp add: pending_layer_def snap_layer_def returnable_def)
  qed
  have "\<forall>(k, e)\<in>set (ks_entries ks). ke_stamp e < ks_next_stamp ks" if sk: "tb_keyed ?tb = Some ks" for ks
  proof -
    obtain ks1 where k1: "tb_keyed tb1 = Some ks1" "ks_next_stamp ks = ks_next_stamp ks1" using k sk by (cases "tb_keyed tb1") auto
    have "\<forall>(k, e)\<in>set (keyed_entries tb1). ke_stamp e < ks_next_stamp ks1"
      using ok(1) k1(1) by (auto simp: buffer_ok_def buf_wf_def keyed_entries_def)
    moreover have "\<forall>(k, e)\<in>set ?restored. ke_stamp e < ks_next_stamp ks1" using st k1(1) by fastforce
    moreover have "ks_entries ks = keyed_entries tb1 @ ?restored" using e keyed_entries_Some [OF sk] by simp
    ultimately show ?thesis by (simp only: k1(2) set_append ball_Un simp_thms)
  qed
  moreover have "ks_pk_cols ks = pk" if "tb_keyed ?tb = Some ks" for ks using ok(1) k that by (cases "tb_keyed tb1") (auto simp: buffer_ok_def buf_wf_def)
  moreover have fl: "tb_flushed ?tb = fs" by (simp add: move_flushed_back_to_pending_def t)
  moreover have "(\<exists>g\<in>set fs. fg_keyed g \<noteq> []) \<longrightarrow> tb_keyed ?tb \<noteq> None" using ok(1) fg(1) unfolding k buffer_ok_def by auto
  ultimately have "buffer_ok key pk ?tb" using we by (simp only: buffer_ok_def buf_wf_def) blast
  moreover have "keys_in K ?tb" using ok(2) fl fg(1,5) keys by (auto simp: keys_in_def)
  ultimately show ?thesis unfolding same_view_def using f m n by simp
qed

text \<open>A window that would change nothing is dropped.\<close>

definition dropped ::
  "('r \<Rightarrow> 'k) \<Rightarrow> string list \<Rightarrow> 'k set \<Rightarrow> ('r multiset \<Rightarrow> 'r multiset) \<Rightarrow> ('r, 'k) pending_snapshot \<Rightarrow>
   ('r, 'k) table_buf \<Rightarrow> ('r, 'k) table_buf \<Rightarrow> bool" where
  "dropped key pk K F sn tb tb' \<longleftrightarrow>
     buffer_ok key pk tb' \<and> keys_in K tb' \<and> gens tb' = gens tb \<and> (\<forall>X. newest key tb' (layer_apply key (snap_layer sn) X) = F (newest key tb X))"

lemma drop_dropped:
  assumes "buffer_ok key pk tb" "keys_in K tb" "in_flight key sn tb" "fst ` set (sn_keyed sn) \<subseteq> K"
  shows "dropped key pk K id sn tb (drop_pending_prefix (length (sn_batches sn)) (sn_keyed sn) tb)"
proof -
  let ?tb = "drop_pending_prefix (length (sn_batches sn)) (sn_keyed sn) tb"
  let ?m = "move_pending_to_flushed_gen 0 (length (sn_batches sn)) (sn_keyed sn) (Snapshot 0) tb"
  have s: "tb_pending ?m = tb_pending ?tb" "tb_keyed ?m = tb_keyed ?tb" "keyed_entries ?m = keyed_entries ?tb" "tb_flushed ?tb = tb_flushed tb"
    by (simp_all add: move_pending_to_flushed_gen_def Let_def keyed_entries_def drop_pending_prefix_def drain_keyed_snapshot_def)
  have m: "parked key pk K id sn (Snapshot 0) tb ?m" using move_parked [OF assms refl] by blast
  have g: "set (tb_flushed tb) \<subseteq> set (tb_flushed ?m)" by (auto simp: move_pending_to_flushed_gen_def Let_def drop_pending_prefix_def drain_keyed_snapshot_def)
  have "newest key ?tb X = newest key ?m X" for X by (simp add: newest_eq s)
  moreover have bm: "buffer_ok key pk ?m" "keys_in K ?m" using m by (simp_all add: parked_def)
  moreover have "buf_wf key pk ?tb" using bm(1) by (simp add: buffer_ok_def buf_wf_def s)
  then have "buffer_ok key pk ?tb" using bm(1) g unfolding buffer_ok_def s by blast
  moreover have "keys_in K ?tb" using bm(2) g unfolding keys_in_def buffered_keys_def s by blast
  ultimately show ?thesis using m s(4) by (simp add: dropped_def parked_def gens_def)
qed

lemma dropped_after: "same_view key pk K F a b \<Longrightarrow> dropped key pk K G sn b d \<Longrightarrow> dropped key pk K (G \<circ> F) sn a d"
  by (auto simp: same_view_def dropped_def)

section \<open>The window as a commit\<close>

text \<open>What the rendered predicate selects: the rows of the keys.\<close>

definition deletes_keys ::
  "(dml_statement \<Rightarrow> 'r \<Rightarrow> bool) \<Rightarrow> ('r \<Rightarrow> 'k) \<Rightarrow> ('k list \<Rightarrow> (string list \<times> key_cell list list) result) \<Rightarrow> lake_ident \<Rightarrow> bool" where
  "deletes_keys hit key cells ident \<longleftrightarrow>
     (\<forall>ks cols rows predicate r. cells ks = Inr (cols, rows) \<longrightarrow> render_keys_predicate cols rows = Inr predicate \<longrightarrow>
        hit (delete_keys ident predicate) r = (key r \<in> set ks))"

lemma flush_ops_rows:
  assumes "flush_ops cells ident sn = Inr ops" "snap_wf key (sn_keyed sn)" "deletes_keys hit key cells ident"
  shows "ops_rows hit upd ops rows = layer_apply key (snap_layer sn) rows"
proof (cases "sn_keyed sn = []")
  case True
  then show ?thesis using assms(1) by (auto simp: flush_ops_def layer_apply_def snap_layer_def upsert_rows_def split: if_splits)
next
  case False
  let ?up = "upsert_rows (map (\<lambda>x. snd (snd x)) (sn_keyed sn))"
  have k: "map (\<lambda>x. ko_key_row (snd (snd x))) (sn_keyed sn) = map fst (sn_keyed sn)"
    using assms(2) by (auto simp: snap_wf_def op_keyed_def)
  obtain cols rs predicate where c: "cells (map fst (sn_keyed sn)) = Inr (cols, rs)" "render_keys_predicate cols rs = Inr predicate"
    and ops: "ops = (if sn_batches sn = [] then [] else [TAppend (concat (sn_batches sn))]) @ [TDml (delete_keys ident predicate)] @
      (if ?up = [] then [] else [TAppend (concat ?up)])"
    using assms(1) False k by (auto simp: flush_ops_def rbind_Inr_conv Let_def)
  have "hit (delete_keys ident predicate) r = (key r \<in> fst ` set (sn_keyed sn))" for r
    using assms(3) c unfolding deletes_keys_def by (metis list.set_map)
  then have "dml_rows hit upd (delete_keys ident predicate) X = filter (\<lambda>r. key r \<notin> fst ` set (sn_keyed sn)) X" for X
    by (simp add: dml_rows_def delete_keys_def)
  then show ?thesis by (auto simp: ops layer_apply_def snap_layer_def)
qed

text \<open>One step of the lake that commits a window on the head of the branch.\<close>

definition layer_step ::
  "('r \<Rightarrow> 'k) \<Rightarrow> string \<Rightarrow> lake_ident \<Rightarrow> ('r, 'k) pending_snapshot \<Rightarrow> int \<Rightarrow> 'r lake \<Rightarrow> 'r lake \<Rightarrow> bool" where
  "layer_step key branch ident sn sid old new \<longleftrightarrow>
     (\<exists>tm tm' head s. old ident = Some tm \<and> branch_head tm branch = Inr head \<and> new ident = Some tm' \<and>
        branch_head tm' branch = Inr (Some s) \<and> sp_id s = sid \<and> sp_parent s = map_option sp_id head \<and>
        mset (live_rows s) = mset (layer_apply key (snap_layer sn) (head_rows head)) \<and>
        (\<forall>r. r \<noteq> branch \<longrightarrow> tm_refs tm' r = tm_refs tm r)) \<and>
     (\<forall>i. i \<noteq> ident \<longrightarrow> new i = old i)"

lemma applies_layer_step:
  assumes "applies hit upd branch ident ops counts sid old new" "\<And>rows. ops_rows hit upd ops rows = layer_apply key (snap_layer sn) rows"
  shows "layer_step key branch ident sn sid old new"
  using assms unfolding applies_def table_step_def layer_step_def by metis

section \<open>The flusher\<close>

abbreviation fkey :: "('r, 'k, 'v, 'w, 't) flusher \<Rightarrow> 'r \<Rightarrow> 'k" where
  "fkey fl \<equiv> fl_key fl (fl_pk fl)"

definition flush_sound ::
  "('r, 'k, 'v, 'w, 't) flusher \<Rightarrow> ('w \<Rightarrow> 'r history) \<Rightarrow> (dml_statement \<Rightarrow> 'r \<Rightarrow> bool) \<Rightarrow> (dml_statement \<Rightarrow> 'r \<Rightarrow> 'r) \<Rightarrow> lake_ident \<Rightarrow> bool" where
  "flush_sound fl hist hit upd ident \<longleftrightarrow>
     catalog_sound (fl_catalog fl) hist \<and> fl_pk_ok fl (fl_pk fl) \<and> deletes_keys hit (fkey fl) (fl_cells fl) ident \<and>
     (\<forall>sn ops. flush_ops (fl_cells fl) ident sn = Inr ops \<longrightarrow> client_sound (fl_client fl) hit upd (table_states hist ident) ops)"

definition script_apart :: "('r, 'k, 'v, 'w, 't) flusher \<Rightarrow> 'k set \<Rightarrow> ('r, 'k, 'w, 't) flush_world \<Rightarrow> bool" where
  "script_apart fl K w \<longleftrightarrow> (\<forall>x\<in>set (fw_script w). \<forall>st\<in>set (snd x). stmt_apart (fkey fl) K st)"

definition ready :: "('r, 'k, 'v, 'w, 't) flusher \<Rightarrow> 'k set \<Rightarrow> ('r, 'k, 'w, 't) flush_world \<Rightarrow> bool" where
  "ready fl K w \<longleftrightarrow> buffer_ok (fkey fl) (fl_pk fl) (fw_buf w) \<and> keys_in K (fw_buf w) \<and> script_apart fl K w"

definition script_effect :: "('r, 'k, 'v, 'w, 't) flusher \<Rightarrow> (nat \<times> ('r, 'k) buf_statement list) list \<Rightarrow> 'r multiset \<Rightarrow> 'r multiset" where
  "script_effect fl used = own_effects (fkey fl) (concat (map snd used))"

lemma script_effect_append [simp]: "script_effect fl (u @ v) = script_effect fl v \<circ> script_effect fl u"
  by (simp add: script_effect_def own_effects_def)

lemma script_effect_Nil [simp]: "script_effect fl [] = id"
  by (simp add: script_effect_def own_effects_def id_def)

lemma awaits_keeps:
  assumes "ready fl K w" "fl_pk_ok fl (fl_pk fl)" "awaits fl m w = (r, w')"
  shows "\<exists>used. m (fw_engine w) = (r, fw_engine w') \<and> fw_script w = used @ fw_script w' \<and> script_apart fl K w' \<and>
    keeps (fkey fl) (fl_pk fl) K (script_effect fl used) (fw_buf w) (fw_buf w')"
proof -
  obtain ew where m: "m (fw_engine w) = (r, ew)" "w' = meanwhile fl (w\<lparr>fw_engine := ew\<rparr>)"
    using assms(3) by (auto simp: awaits_def split: prod.splits)
  show ?thesis
  proof (cases "fw_script w")
    case Nil
    then show ?thesis using m assms(1) keeps_refl by (auto simp: meanwhile_def ready_def script_apart_def)
  next
    case (Cons x script)
    obtain t sts where x: "x = (t, sts)" by (cases x)
    have "\<forall>st\<in>set sts. stmt_apart (fkey fl) K st" using assms(1) Cons x by (auto simp: ready_def script_apart_def)
    then have "keeps (fkey fl) (fl_pk fl) K (own_effects (fkey fl) sts) (fw_buf w) (execute_all (fl_key fl) (fl_pk_ok fl) (fl_pk fl) sts (fw_buf w))"
      using execute_all_keeps [of "fl_key fl" "fl_pk fl" "fw_buf w" "fl_pk_ok fl" K sts] assms(1,2) by (simp add: ready_def)
    then show ?thesis
      using m assms(1) Cons x by (intro exI [of _ "[x]"]) (auto simp: meanwhile_def ready_def script_apart_def script_effect_def)
  qed
qed

lemma ready_keeps:
  "keeps (fkey fl) (fl_pk fl) K F tb (fw_buf w) \<Longrightarrow> script_apart fl K w \<Longrightarrow> ready fl K w"
  "parked (fkey fl) (fl_pk fl) K F sn c tb (fw_buf w) \<Longrightarrow> script_apart fl K w \<Longrightarrow> ready fl K w"
  "same_view (fkey fl) (fl_pk fl) K F tb (fw_buf w) \<Longrightarrow> script_apart fl K w \<Longrightarrow> ready fl K w"
  by (simp_all add: ready_def keeps_def parked_def same_view_def)

lemma known_past: "known (past hist ew) ident tm \<Longrightarrow> past hist ew' = past hist ew @ new \<Longrightarrow> known (past hist ew') ident tm"
  using known_mono by metis

abbreviation wpast :: "('w \<Rightarrow> 'r history) \<Rightarrow> ('r, 'k, 'w, 't) flush_world \<Rightarrow> 'r history" where
  "wpast hist w \<equiv> hist (ew_catalog (fw_engine w))"

text \<open>A load that is awaited.\<close>

lemma load_stage:
  assumes "flush_sound fl hist hit upd ident" "ready fl K w" "awaits fl (load_table (fl_catalog fl) ident) w = (r, w')"
  shows "\<exists>new used. wpast hist w' = wpast hist w @ new \<and> quiet new \<and> fw_script w = used @ fw_script w' \<and> script_apart fl K w' \<and>
    keeps (fkey fl) (fl_pk fl) K (script_effect fl used) (fw_buf w) (fw_buf w') \<and> (\<forall>tm. r = Inr tm \<longrightarrow> known (wpast hist w') ident tm)"
proof -
  have f: "catalog_sound (fl_catalog fl) hist" "fl_pk_ok fl (fl_pk fl)" using assms(1) by (simp_all add: flush_sound_def)
  obtain used where u: "load_table (fl_catalog fl) ident (fw_engine w) = (r, fw_engine w')" "fw_script w = used @ fw_script w'" "script_apart fl K w'"
    "keeps (fkey fl) (fl_pk fl) K (script_effect fl used) (fw_buf w) (fw_buf w')" using awaits_keeps [OF assms(2) f(2) assms(3)] by blast
  obtain new where "wpast hist w' = wpast hist w @ new" "quiet new" "\<And>tm. r = Inr tm \<Longrightarrow> known (wpast hist w') ident tm"
    using load_table_quiet [OF f(1) u(1)] by metis
  then show ?thesis using u by blast
qed

text \<open>The window moved out and posted.\<close>

lemma post_stage:
  assumes "flush_sound fl hist hit upd ident" "ready fl K w" "in_flight (fkey fl) sn (fw_buf w)" "fst ` set (sn_keyed sn) \<subseteq> K"
    and "flush_ops (fl_cells fl) ident sn = Inr ops" "known (wpast hist w) ident tm"
    and "prepare_commit (cl_engine (fl_client fl) n) (cl_pkey (fl_client fl)) draws ident tm ops pk (oe_branch (fl_engine fl)) props = Inr (Some pc)"
    and "awaits fl (post_prepared (fl_catalog fl) ident pc)
      (on_buf (move_pending_to_flushed_gen t (length (sn_batches sn)) (sn_keyed sn) (Snapshot (pc_snapshot_id pc))) w) = (q, w')"
  shows "\<exists>new used. wpast hist w' = wpast hist w @ new \<and> fw_script w = used @ fw_script w' \<and> script_apart fl K w' \<and>
    parked (fkey fl) (fl_pk fl) K (script_effect fl used) sn (Snapshot (pc_snapshot_id pc)) (fw_buf w) (fw_buf w') \<and> returnable (fkey fl) sn (fw_buf w') \<and>
    (let took = landed (layer_step (fkey fl) (oe_branch (fl_engine fl)) ident sn (pc_snapshot_id pc)) (wpast hist w) new in
     case q of Inr Committed \<Rightarrow> took | Inr (Conflict msg) \<Rightarrow> quiet new | Inl e \<Rightarrow> quiet new \<or> ambiguous e \<and> took)"
proof -
  let ?c = "Snapshot (pc_snapshot_id pc)"
  let ?w = "on_buf (move_pending_to_flushed_gen t (length (sn_batches sn)) (sn_keyed sn) ?c) w"
  have f: "catalog_sound (fl_catalog fl) hist" "fl_pk_ok fl (fl_pk fl)" "deletes_keys hit (fkey fl) (fl_cells fl) ident"
    "client_sound (fl_client fl) hit upd (table_states hist ident) ops" using assms(1,5) by (auto simp: flush_sound_def)
  have hw: "history_wf (hist x)" for x using f(1) by (simp add: catalog_sound_def)
  have b: "fw_buf ?w = move_pending_to_flushed_gen t (length (sn_batches sn)) (sn_keyed sn) ?c (fw_buf w)" "fw_engine ?w = fw_engine w" "fw_script ?w = fw_script w"
    by (simp_all add: on_buf_def)
  have p: "parked (fkey fl) (fl_pk fl) K id sn ?c (fw_buf w) (fw_buf ?w)" "returnable (fkey fl) sn (fw_buf ?w)"
    using move_parked [OF _ _ assms(3,4) b(1), of "fl_pk fl"] assms(2) by (simp_all add: ready_def)
  have "script_apart fl K ?w" using assms(2) b(3) by (simp add: ready_def script_apart_def)
  then have rd: "ready fl K ?w" using ready_keeps(2) [OF p(1)] by blast
  obtain used where u: "post_prepared (fl_catalog fl) ident pc (fw_engine w) = (q, fw_engine w')" "fw_script w = used @ fw_script w'"
    "script_apart fl K w'" "keeps (fkey fl) (fl_pk fl) K (script_effect fl used) (fw_buf ?w) (fw_buf w')"
    using awaits_keeps [OF rd f(2) assms(8)] unfolding b by blast
  have sn: "tm \<in> table_states hist ident" by (rule known_states [of hist "ew_catalog (fw_engine w)", OF assms(6)])
  have rq: "rq_identifier (pc_request pc) = Some ident" by (rule client_request [OF f(4) sn assms(7)])
  obtain new where n: "wpast hist w' = wpast hist w @ new"
    "case q of Inr Committed \<Rightarrow> landed (commits [pc_request pc]) (wpast hist w) new | Inr (Conflict msg) \<Rightarrow> quiet new
     | Inl e \<Rightarrow> quiet new \<or> ambiguous e \<and> landed (commits [pc_request pc]) (wpast hist w) new"
    using post_commit_answered [OF f(1) u(1) [unfolded post_prepared_def] rq] by blast
  have sw: "snap_wf (fkey fl) (sn_keyed sn)" using assms(3) by (simp add: in_flight_def flight_ok_def)
  have l: "landed (layer_step (fkey fl) (oe_branch (fl_engine fl)) ident sn (pc_snapshot_id pc)) (wpast hist w) new"
    if c: "landed (commits [pc_request pc]) (wpast hist w) new"
  proof -
    have "landed (applies hit upd (oe_branch (fl_engine fl)) ident ops (pc_rows_by_op pc) (pc_snapshot_id pc)) (wpast hist w) new"
      using hw [of "ew_catalog (fw_engine w')"] unfolding n(1) by (rule prepared_applies [OF f(4) _ hw assms(6) sn assms(7) c])
    then show ?thesis by (rule landed_mono) (rule applies_layer_step [OF _ flush_ops_rows [OF assms(5) sw f(3)]])
  qed
  have "parked (fkey fl) (fl_pk fl) K (script_effect fl used) sn ?c (fw_buf w) (fw_buf w')" using parked_keeps [OF p(1) u(4)] by simp
  moreover have "returnable (fkey fl) sn (fw_buf w')" by (rule returnable_keeps [OF p(2) u(4) assms(4)])
  ultimately show ?thesis using n l u(2,3) by (intro exI [of _ new] exI [of _ used]) (auto simp: Let_def split: sum.splits commit_outcome.splits)
qed

definition stamped :: "('r, 'k, 'v, 'w, 't) flusher \<Rightarrow> 'r history \<Rightarrow> lake_ident \<Rightarrow> nat option \<Rightarrow> bool" where
  "stamped fl h ident mark \<longleftrightarrow> (\<exists>m tm p. mark = Some m \<and> known h ident tm \<and> stamped_mark (fl_tail fl) tm = Some p \<and> m \<le> p)"

lemma disambiguate_stage:
  assumes "flush_sound fl hist hit upd ident" "parked (fkey fl) (fl_pk fl) K F sn (Snapshot sid) tb (fw_buf w)" "script_apart fl K w"
    and "returnable (fkey fl) sn (fw_buf w)" "fst ` set (sn_keyed sn) \<subseteq> K" "Snapshot sid \<notin> fst ` set (gens tb)"
    and "disambiguate fl ident mark sid e w = (r, w')"
  shows "\<exists>new used. wpast hist w' = wpast hist w @ new \<and> quiet new \<and> fw_script w = used @ fw_script w' \<and> script_apart fl K w' \<and>
    (case r of
       Inl e' \<Rightarrow> e' = e \<and> same_view (fkey fl) (fl_pk fl) K (script_effect fl used \<circ> F) tb (fw_buf w')
     | Inr _ \<Rightarrow> parked (fkey fl) (fl_pk fl) K (script_effect fl used \<circ> F) sn (Snapshot sid) tb (fw_buf w') \<and> stamped fl (wpast hist w') ident mark)"
proof (cases "fl_tail fl = None \<or> mark = None")
  case True
  then have "(r, w') = (Inl e, on_buf (move_flushed_back_to_pending sid) w)" using assms(7) by (auto simp: disambiguate_def split: option.splits)
  then show ?thesis using moved_back [OF assms(2,4,6)] assms(3)
    by (intro exI [of _ "[]"]) (auto simp: on_buf_def script_apart_def)
next
  case False
  then obtain ts m where tm: "fl_tail fl = Some ts" "mark = Some m" by auto
  obtain q w1 where q: "awaits fl (load_table (fl_catalog fl) ident) w = (q, w1)" by (cases "awaits fl (load_table (fl_catalog fl) ident) w")
  obtain new used where n: "wpast hist w1 = wpast hist w @ new" "quiet new" "fw_script w = used @ fw_script w1" "script_apart fl K w1"
    "keeps (fkey fl) (fl_pk fl) K (script_effect fl used) (fw_buf w) (fw_buf w1)" "\<forall>tm. q = Inr tm \<longrightarrow> known (wpast hist w1) ident tm"
    using load_stage [OF assms(1) ready_keeps(2) [OF assms(2,3)] q] by blast
  note p = parked_keeps [OF assms(2) n(5)] and ret = moved_back [OF parked_keeps [OF assms(2) n(5)] returnable_keeps [OF assms(4) n(5) assms(5)] assms(6)]
  show ?thesis
  proof (cases "\<exists>fresh seen. q = Inr fresh \<and> stamped_mark (fl_tail fl) fresh = Some seen \<and> m \<le> seen")
    case True
    then have "r = Inr ()" "w' = covered fl mark w1" using assms(7) tm q by (auto simp: disambiguate_def)
    moreover have "stamped fl (wpast hist w1) ident mark" using True n(6) tm(2) by (auto simp: stamped_def)
    ultimately show ?thesis using n p by (intro exI [of _ new] exI [of _ used]) (auto simp: covered_def script_apart_def)
  next
    case c: False
    then have "r = Inl e" "w' = on_buf (move_flushed_back_to_pending sid) w1"
      using assms(7) tm q by (auto simp: disambiguate_def split: sum.splits option.splits if_splits)
    then show ?thesis using n ret by (intro exI [of _ new] exI [of _ used]) (auto simp: on_buf_def script_apart_def)
  qed
qed

text \<open>
  The outcome of a flush.  After an error the window is still in the buffer, and it has been committed
  only when the error is that of a failed post.  After success there was nothing to flush, or the window
  has left the buffer for one commit of it on the head, or for a commit that metadata proves by its
  watermark, or because a state of the table was already what the window would have made it.
\<close>

definition flush_result ::
  "('r, 'k, 'v, 'w, 't) flusher \<Rightarrow> 'k set \<Rightarrow> lake_ident \<Rightarrow> ('r multiset \<Rightarrow> 'r multiset) \<Rightarrow> unit result \<Rightarrow> 'r history \<Rightarrow> 'r history \<Rightarrow>
   ('r, 'k) table_buf \<Rightarrow> ('r, 'k) table_buf \<Rightarrow> bool" where
  "flush_result fl K ident F r old new tb tb' \<longleftrightarrow>
     (let key = fkey fl; pk = fl_pk fl; branch = oe_branch (fl_engine fl) in
      case r of
        Inl e \<Rightarrow> same_view key pk K F tb tb' \<and> (quiet new \<or> ambiguous e \<and> (\<exists>sn sid. landed (layer_step key branch ident sn sid) old new))
      | Inr _ \<Rightarrow>
          same_view key pk K F tb tb' \<and> quiet new \<or>
          (\<exists>sn sid. parked key pk K F sn (Snapshot sid) tb tb' \<and> landed (layer_step key branch ident sn sid) old new) \<or>
          (\<exists>sn c. parked key pk K F sn c tb tb' \<and> quiet new \<and> stamped fl (old @ new) ident (sn_tail_mark sn)) \<or>
          (\<exists>sn tm head. dropped key pk K F sn tb tb' \<and> quiet new \<and> known (old @ new) ident tm \<and> branch_head tm branch = Inr head \<and>
             mset (layer_apply key (snap_layer sn) (head_rows head)) = mset (head_rows head)))"

lemma flush_result_after:
  assumes "same_view (fkey fl) (fl_pk fl) K F a b" "quiet n1" "flush_result fl K ident G r (old @ n1) n2 b c"
  shows "flush_result fl K ident (G \<circ> F) r old (n1 @ n2) a c"
proof (cases r)
  case (Inl e)
  have "quiet (n1 @ n2)" if "quiet n2" using that assms(2) by simp
  then show ?thesis using assms(3) landed_quiet_before [OF assms(2)] same_view_trans [OF assms(1)]
    unfolding flush_result_def Let_def Inl sum.case by blast
next
  case (Inr u)
  from assms(3) [unfolded flush_result_def Let_def Inr sum.case] show ?thesis
  proof (elim disjE exE conjE)
    assume "same_view (fkey fl) (fl_pk fl) K G b c" "quiet n2"
    then show ?thesis using same_view_trans [OF assms(1)] assms(2) unfolding flush_result_def Let_def Inr sum.case by simp
  next
    fix sn sid
    assume "parked (fkey fl) (fl_pk fl) K G sn (Snapshot sid) b c"
      "landed (layer_step (fkey fl) (oe_branch (fl_engine fl)) ident sn sid) (old @ n1) n2"
    then show ?thesis using parked_after [OF assms(1)] landed_quiet_before [OF assms(2)] unfolding flush_result_def Let_def Inr sum.case by blast
  next
    fix sn d
    assume "parked (fkey fl) (fl_pk fl) K G sn d b c" "quiet n2" "stamped fl ((old @ n1) @ n2) ident (sn_tail_mark sn)"
    then have "parked (fkey fl) (fl_pk fl) K (G \<circ> F) sn d a c" "quiet (n1 @ n2)" "stamped fl (old @ n1 @ n2) ident (sn_tail_mark sn)"
      using parked_after [OF assms(1)] assms(2) by simp_all
    then show ?thesis unfolding flush_result_def Let_def Inr sum.case by blast
  next
    fix sn tm head
    assume "dropped (fkey fl) (fl_pk fl) K G sn b c" "quiet n2" "known ((old @ n1) @ n2) ident tm"
      and h: "branch_head tm (oe_branch (fl_engine fl)) = Inr head"
        "mset (layer_apply (fkey fl) (snap_layer sn) (head_rows head)) = mset (head_rows head)"
    then have "dropped (fkey fl) (fl_pk fl) K (G \<circ> F) sn a c" "quiet (n1 @ n2)" "known (old @ n1 @ n2) ident tm"
      using dropped_after [OF assms(1)] assms(2) by simp_all
    then show ?thesis using h unfolding flush_result_def Let_def Inr sum.case by blast
  qed
qed

text \<open>After the metadata is loaded: the guard, the preparation and the post.\<close>

definition fresh_draws :: "('r, 'k, 'v, 'w, 't) flusher \<Rightarrow> ('r, 'k) table_buf \<Rightarrow> bool" where
  "fresh_draws fl tb \<longleftrightarrow> (\<forall>n d. d \<in> set (cl_draws (fl_client fl) n) \<longrightarrow> Snapshot d \<notin> fst ` set (gens tb))"

lemma produced_id: "produce_snapshot en sid ident tm branch head need ops props acc = Inr pc \<Longrightarrow> pc_snapshot_id pc = sid"
  by (auto simp: produce_snapshot_def Let_def rbind_Inr_conv)

lemma finished_id: "finish_commit en draws ident tm ops pk branch props head need st = Inr (Some pc) \<Longrightarrow> pc_snapshot_id pc \<in> set draws"
  unfolding finish_commit_def Let_def
  by (auto simp: rbind_Inr_conv ok_or_def generate_unique_snapshot_id_def find_Some_iff dest!: produced_id split: if_splits option.splits)

lemma drawn_id: "prepare_commit en pkey draws ident tm ops pk branch props = Inr (Some pc) \<Longrightarrow> pc_snapshot_id pc \<in> set draws"
  unfolding prepare_commit_def Let_def by (auto simp: rbind_Inr_conv dest: finished_id split: if_splits)

definition flushes ::
  "('r, 'k, 'v, 'w, 't) flusher \<Rightarrow> ('w \<Rightarrow> 'r history) \<Rightarrow> 'k set \<Rightarrow> lake_ident \<Rightarrow> ('r, 'k, 'w, 't) flush_world \<Rightarrow> unit result \<Rightarrow>
   ('r, 'k, 'w, 't) flush_world \<Rightarrow> bool" where
  "flushes fl hist K ident w r w' \<longleftrightarrow>
     (\<exists>new used. wpast hist w' = wpast hist w @ new \<and> fw_script w = used @ fw_script w' \<and>
        flush_result fl K ident (script_effect fl used) r (wpast hist w) new (fw_buf w) (fw_buf w'))"

lemma flushes_after:
  assumes "same_view (fkey fl) (fl_pk fl) K (script_effect fl used) (fw_buf a) (fw_buf b)" "wpast hist b = wpast hist a @ new" "quiet new"
    and "fw_script a = used @ fw_script b" "flushes fl hist K ident b r c"
  shows "flushes fl hist K ident a r c"
proof -
  obtain n2 u2 where n: "wpast hist c = wpast hist b @ n2" "fw_script b = u2 @ fw_script c"
    "flush_result fl K ident (script_effect fl u2) r (wpast hist a @ new) n2 (fw_buf b) (fw_buf c)"
    using assms(5) unfolding flushes_def assms(2) by blast
  have "flush_result fl K ident (script_effect fl (used @ u2)) r (wpast hist a) (new @ n2) (fw_buf a) (fw_buf c)"
    using flush_result_after [OF assms(1,3) n(3)] by (simp only: script_effect_append)
  then show ?thesis unfolding flushes_def using n assms(2,4) by (intro exI [of _ "new @ n2"] exI [of _ "used @ u2"]) simp
qed

lemma flushes_fails: "ready fl K w \<Longrightarrow> flushes fl hist K ident w (Inl e) w"
  unfolding flushes_def flush_result_def by (intro exI [of _ "[]"]) (simp add: ready_def same_view_def)

text \<open>The end of an attempt that has posted.\<close>

lemma posted_flushes:
  assumes "flush_sound fl hist hit upd ident" "ready fl K w" "in_flight (fkey fl) sn (fw_buf w)" "fst ` set (sn_keyed sn) \<subseteq> K"
    and "flush_ops (fl_cells fl) ident sn = Inr ops" "known (wpast hist w) ident tm" "fresh_draws fl (fw_buf w)"
    and "prepare_commit (cl_engine (fl_client fl) n) (cl_pkey (fl_client fl)) (cl_draws (fl_client fl) n) ident tm ops pk (oe_branch (fl_engine fl)) props =
      Inr (Some pc)"
    and "awaits fl (post_prepared (fl_catalog fl) ident pc)
      (on_buf (move_pending_to_flushed_gen t (length (sn_batches sn)) (sn_keyed sn) (Snapshot (pc_snapshot_id pc))) w) = (q, w1)"
    and "(case q of
        Inr Committed \<Rightarrow> (Inr (), covered fl (sn_tail_mark sn) w1)
      | Inr (Conflict msg) \<Rightarrow> retry (on_buf (move_flushed_back_to_pending (pc_snapshot_id pc)) w1)
      | Inl e \<Rightarrow> disambiguate fl ident (sn_tail_mark sn) (pc_snapshot_id pc) e w1) = (r, w')"
    and "\<And>w r w'. retry w = (r, w') \<Longrightarrow> ready fl K w \<Longrightarrow> fresh_draws fl (fw_buf w) \<Longrightarrow> flushes fl hist K ident w r w'"
  shows "flushes fl hist K ident w r w'"
proof -
  let ?sid = "pc_snapshot_id pc" and ?branch = "oe_branch (fl_engine fl)"
  let ?took = "\<lambda>new. landed (layer_step (fkey fl) ?branch ident sn ?sid) (wpast hist w) new"
  obtain new used where n: "wpast hist w1 = wpast hist w @ new" "fw_script w = used @ fw_script w1" "script_apart fl K w1"
    "parked (fkey fl) (fl_pk fl) K (script_effect fl used) sn (Snapshot ?sid) (fw_buf w) (fw_buf w1)" "returnable (fkey fl) sn (fw_buf w1)"
    and l: "case q of Inr Committed \<Rightarrow> ?took new | Inr (Conflict msg) \<Rightarrow> quiet new | Inl e \<Rightarrow> quiet new \<or> ambiguous e \<and> ?took new"
    using post_stage [OF assms(1-6,8,9)] unfolding Let_def by blast
  have sid: "Snapshot ?sid \<notin> fst ` set (gens (fw_buf w))" using drawn_id [OF assms(8)] assms(7) by (auto simp: fresh_draws_def)
  consider (com) "q = Inr Committed" | (conf) msg where "q = Inr (Conflict msg)" | (err) e where "q = Inl e"
    by (metis commit_outcome.exhaust sum.exhaust)
  then show ?thesis
  proof cases
    case com
    then have "r = Inr ()" "fw_buf w' = fw_buf w1" "fw_engine w' = fw_engine w1" "fw_script w' = fw_script w1" "?took new"
      using assms(10) l by (auto simp: covered_def)
    then show ?thesis unfolding flushes_def flush_result_def Let_def using n by (intro exI [of _ new] exI [of _ used]) auto
  next
    case conf
    let ?w = "on_buf (move_flushed_back_to_pending ?sid) w1"
    have v: "same_view (fkey fl) (fl_pk fl) K (script_effect fl used) (fw_buf w) (fw_buf ?w)"
      using moved_back [OF n(4,5) sid] by (simp add: on_buf_def)
    have "script_apart fl K ?w" using n(3) by (simp add: on_buf_def script_apart_def)
    then have "ready fl K ?w" using ready_keeps(3) [OF v] by blast
    moreover have "fresh_draws fl (fw_buf ?w)" using v assms(7) by (simp add: same_view_def fresh_draws_def)
    ultimately have "flushes fl hist K ident ?w r w'" using assms(10,11) conf by simp
    then show ?thesis using flushes_after [OF v] n l conf by (simp add: on_buf_def)
  next
    case err
    then have d: "disambiguate fl ident (sn_tail_mark sn) ?sid e w1 = (r, w')" using assms(10) by simp
    obtain n2 u2 where n2: "wpast hist w' = wpast hist w1 @ n2" "quiet n2" "fw_script w1 = u2 @ fw_script w'" "script_apart fl K w'"
      and c: "case r of
         Inl e' \<Rightarrow> e' = e \<and> same_view (fkey fl) (fl_pk fl) K (script_effect fl u2 \<circ> script_effect fl used) (fw_buf w) (fw_buf w')
       | Inr _ \<Rightarrow> parked (fkey fl) (fl_pk fl) K (script_effect fl u2 \<circ> script_effect fl used) sn (Snapshot ?sid) (fw_buf w) (fw_buf w') \<and>
           stamped fl (wpast hist w') ident (sn_tail_mark sn)"
      using disambiguate_stage [OF assms(1) n(4,3,5) assms(4) sid d] by blast
    have q: "quiet (new @ n2) \<or> ambiguous e \<and> ?took (new @ n2)" using l err n2(2) landed_quiet_after [OF n2(2)] by auto
    have "flush_result fl K ident (script_effect fl (used @ u2)) r (wpast hist w) (new @ n2) (fw_buf w) (fw_buf w')"
    proof (cases r)
      case (Inl e')
      then show ?thesis using c q unfolding flush_result_def Let_def script_effect_append Inl sum.case by blast
    next
      case (Inr u)
      have "stamped fl (wpast hist w @ new @ n2) ident (sn_tail_mark sn)" using c Inr n(1) n2(1) by simp
      then show ?thesis using c q unfolding flush_result_def Let_def script_effect_append Inr sum.case by blast
    qed
    then show ?thesis unfolding flushes_def using n(1,2) n2(1,3) by (intro exI [of _ "new @ n2"] exI [of _ "used @ u2"]) simp
  qed
qed

text \<open>The guard: metadata that carries the mark of the window already.\<close>

lemma guard_stamped:
  assumes "tail_props (fl_tail fl) mark tm = None" "known h ident tm"
  shows "stamped fl h ident mark"
  using assms unfolding stamped_def tail_props_def generation_already_committed_def
  by (auto simp: Let_def split: option.splits if_splits)

lemma loaded_flushes:
  assumes "flush_sound fl hist hit upd ident" "ready fl K w" "in_flight (fkey fl) sn (fw_buf w)" "fst ` set (sn_keyed sn) \<subseteq> K"
    and "known (wpast hist w) ident tm" "fresh_draws fl (fw_buf w)" "flush_loaded fl ident n sn tm retry w = (r, w')"
    and "\<And>w r w'. retry w = (r, w') \<Longrightarrow> ready fl K w \<Longrightarrow> fresh_draws fl (fw_buf w) \<Longrightarrow> flushes fl hist K ident w r w'"
  shows "flushes fl hist K ident w r w'"
  using assms(7) [unfolded flush_loaded_def Let_def]
proof (cases rule: io_bind_cases)
  case (1 e)
  then show ?thesis using flushes_fails [OF assms(2)] by simp
next
  case (2 pk wa)
  then have wa: "wa = w" by simp
  from 2(2) [unfolded wa] show ?thesis
  proof (cases rule: io_bind_cases)
    case (1 e)
    then show ?thesis using flushes_fails [OF assms(2)] by simp
  next
    case (2 ops wb)
    then have ops: "flush_ops (fl_cells fl) ident sn = Inr ops" and wb: "wb = w" by simp_all
    have ok: "buffer_ok (fkey fl) (fl_pk fl) (fw_buf w)" "keys_in K (fw_buf w)" using assms(2) by (simp_all add: ready_def)
    show ?thesis
    proof (cases "tail_props (fl_tail fl) (sn_tail_mark sn) tm")
      case None
      let ?c = "CoveredByWatermark (the (sn_tail_mark sn))"
      have r: "r = Inr ()" "wpast hist w' = wpast hist w" "fw_script w' = fw_script w"
        "fw_buf w' = move_pending_to_flushed_gen (fw_now w) (length (sn_batches sn)) (sn_keyed sn) ?c (fw_buf w)"
        using 2(2) None wb by (auto simp: covered_def on_buf_def)
      have "parked (fkey fl) (fl_pk fl) K id sn ?c (fw_buf w) (fw_buf w')" using move_parked [OF ok assms(3,4) r(4)] by blast
      moreover have "stamped fl (wpast hist w) ident (sn_tail_mark sn)" by (rule guard_stamped [OF None assms(5)])
      ultimately show ?thesis unfolding flushes_def flush_result_def Let_def using r by (intro exI [of _ "[]"]) auto
    next
      case (Some props)
      let ?p = "prepare_commit (cl_engine (fl_client fl) n) (cl_pkey (fl_client fl)) (cl_draws (fl_client fl) n) ident tm ops pk (oe_branch (fl_engine fl)) props"
      obtain q wc where q: "awaits fl (io_lift ?p) w = (q, wc)" by (cases "awaits fl (io_lift ?p) w")
      have po: "fl_pk_ok fl (fl_pk fl)" using assms(1) by (simp add: flush_sound_def)
      obtain used where u: "q = ?p" "fw_engine wc = fw_engine w" "fw_script w = used @ fw_script wc" "script_apart fl K wc"
        "keeps (fkey fl) (fl_pk fl) K (script_effect fl used) (fw_buf w) (fw_buf wc)" using awaits_keeps [OF assms(2) po q] by auto
      have rd: "ready fl K wc" using ready_keeps(1) [OF u(5,4)] .
      have fl: "in_flight (fkey fl) sn (fw_buf wc)" using u(5) assms(3) by (simp add: keeps_def)
      have kn: "known (wpast hist wc) ident tm" using assms(5) u(2) by simp
      have fd: "fresh_draws fl (fw_buf wc)" using u(5) assms(6) by (simp add: keeps_def fresh_draws_def)
      have "flushes fl hist K ident wc r w'"
      proof (cases q)
        case (Inl e)
        then have "r = Inl e" "w' = wc" using 2(2) Some q wb by (auto simp: io_bind_def)
        then show ?thesis using flushes_fails [OF rd] by simp
      next
        case (Inr prepared)
        show ?thesis
        proof (cases prepared)
          case None
          then have r: "r = Inr ()" "wpast hist w' = wpast hist wc" "fw_script w' = fw_script wc"
            "fw_buf w' = drop_pending_prefix (length (sn_batches sn)) (sn_keyed sn) (fw_buf wc)"
            using 2(2) Some q wb Inr by (auto simp: io_bind_def covered_def on_buf_def)
          have dr: "dropped (fkey fl) (fl_pk fl) K id sn (fw_buf wc) (fw_buf w')"
            using drop_dropped [OF _ _ fl assms(4), of "fl_pk fl"] rd unfolding r(4) ready_def by blast
          have cs: "client_sound (fl_client fl) hit upd (table_states hist ident) ops" "deletes_keys hit (fkey fl) (fl_cells fl) ident"
            using assms(1) ops by (auto simp: flush_sound_def)
          obtain head where h: "branch_head tm (oe_branch (fl_engine fl)) = Inr head"
            "mset (ops_rows hit upd ops (head_rows head)) = mset (head_rows head)"
            using client_prepares [OF cs(1) known_states [of hist "ew_catalog (fw_engine wc)", OF kn]] u(1) Inr None by fastforce
          have "snap_wf (fkey fl) (sn_keyed sn)" using fl by (simp add: in_flight_def flight_ok_def)
          then have "mset (layer_apply (fkey fl) (snap_layer sn) (head_rows head)) = mset (head_rows head)"
            using h(2) flush_ops_rows [OF ops _ cs(2), of upd] by simp
          then show ?thesis unfolding flushes_def flush_result_def Let_def using r dr h(1) kn by (intro exI [of _ "[]"]) auto
        next
          case pc: (Some pc)
          obtain q1 w1 where q1: "awaits fl (post_prepared (fl_catalog fl) ident pc)
              (on_buf (move_pending_to_flushed_gen (fw_now wc) (length (sn_batches sn)) (sn_keyed sn) (Snapshot (pc_snapshot_id pc))) wc) = (q1, w1)"
            by (cases "awaits fl (post_prepared (fl_catalog fl) ident pc)
              (on_buf (move_pending_to_flushed_gen (fw_now wc) (length (sn_batches sn)) (sn_keyed sn) (Snapshot (pc_snapshot_id pc))) wc)")
          have "(case q1 of
              Inr Committed \<Rightarrow> (Inr (), covered fl (sn_tail_mark sn) w1)
            | Inr (Conflict msg) \<Rightarrow> retry (on_buf (move_flushed_back_to_pending (pc_snapshot_id pc)) w1)
            | Inl e \<Rightarrow> disambiguate fl ident (sn_tail_mark sn) (pc_snapshot_id pc) e w1) = (r, w')"
            using 2(2) Some q wb Inr pc q1 by (simp add: io_bind_def split: sum.splits commit_outcome.splits)
          then show ?thesis using posted_flushes [OF assms(1) rd fl assms(4) ops kn fd _ q1 _ assms(8)] u(1) Inr pc by simp
        qed
      qed
      then show ?thesis using flushes_after [OF keeps_same_view [OF u(5)], of hist "[]"] u(2,3) by simp
    qed
  qed
qed

lemma attempts_flush:
  assumes "flush_sound fl hist hit upd ident"
  shows "flush_attempts fl ident attempts w = (r, w') \<Longrightarrow> ready fl K w \<Longrightarrow> fresh_draws fl (fw_buf w) \<Longrightarrow> flushes fl hist K ident w r w'"
proof (induction attempts arbitrary: w r w')
  case Nil
  then show ?case using flushes_fails [of fl K w hist ident] by auto
next
  case (Cons attempt attempts)
  obtain sn tb where sn: "snapshot_pending (fw_buf w) = (sn, tb)" by (cases "snapshot_pending (fw_buf w)")
  let ?w = "w\<lparr>fw_buf := tb\<rparr>"
  have ok: "buffer_ok (fkey fl) (fl_pk fl) (fw_buf w)" "keys_in K (fw_buf w)" "script_apart fl K w" using Cons.prems(2) by (simp_all add: ready_def)
  have k: "keeps (fkey fl) (fl_pk fl) K id (fw_buf w) (fw_buf ?w)" "in_flight (fkey fl) sn (fw_buf ?w)" "fst ` set (sn_keyed sn) \<subseteq> K"
    using snapshot_keeps [OF ok(1,2) sn] by simp_all
  have rd: "ready fl K ?w" using ready_keeps(1) [OF k(1)] ok(3) by (simp add: script_apart_def)
  show ?case
  proof (cases "snap_empty sn")
    case True
    then have "r = Inr ()" "w' = ?w" using Cons.prems(1) sn by simp_all
    then show ?thesis unfolding flushes_def flush_result_def Let_def
      using keeps_same_view [OF k(1)] by (intro exI [of _ "[]"]) simp
  next
    case False
    obtain q w2 where q: "awaits fl (load_table (fl_catalog fl) ident) ?w = (q, w2)" by (cases "awaits fl (load_table (fl_catalog fl) ident) ?w")
    obtain new used where n: "wpast hist w2 = wpast hist ?w @ new" "quiet new" "fw_script ?w = used @ fw_script w2" "script_apart fl K w2"
      "keeps (fkey fl) (fl_pk fl) K (script_effect fl used) (fw_buf ?w) (fw_buf w2)" "\<forall>tm. q = Inr tm \<longrightarrow> known (wpast hist w2) ident tm"
      using load_stage [OF assms rd q] by blast
    have k2: "keeps (fkey fl) (fl_pk fl) K (script_effect fl used) (fw_buf w) (fw_buf w2)" using keeps_trans [OF k(1) n(5)] by simp
    have after: "flushes fl hist K ident w r w'" if "flushes fl hist K ident w3 r w'" "wpast hist w3 = wpast hist w2" "fw_script w3 = fw_script w2"
      "same_view (fkey fl) (fl_pk fl) K (script_effect fl used) (fw_buf w) (fw_buf w3)" for w3
      using flushes_after [OF that(4), of hist new] that(1-3) n(1-3) by simp
    show ?thesis
    proof (cases q)
      case (Inl e)
      then have "r = Inl e" "w' = w2" using Cons.prems(1) sn False q by (simp_all add: io_bind_def)
      then show ?thesis using after [of w2] flushes_fails [OF ready_keeps(1) [OF n(5,4)], of hist ident e] keeps_same_view [OF k2] by simp
    next
      case (Inr tm)
      let ?w3 = "on_buf (note_observed (contained_in (fl_tail fl) tm)) w2"
      have o: "fw_buf ?w3 = note_observed (contained_in (fl_tail fl) tm) (fw_buf w2)" "fw_script ?w3 = fw_script w2" "fw_engine ?w3 = fw_engine w2"
        by (simp_all add: on_buf_def)
      have k3: "keeps (fkey fl) (fl_pk fl) K id (fw_buf w2) (fw_buf ?w3)"
        unfolding o(1) by (rule observed_keeps) (use n(5) in \<open>simp_all add: keeps_def\<close>)
      have k4: "keeps (fkey fl) (fl_pk fl) K (script_effect fl used) (fw_buf w) (fw_buf ?w3)" using keeps_trans [OF k2 k3] by simp
      have "flush_loaded fl ident attempt sn tm (flush_attempts fl ident attempts) ?w3 = (r, w')"
        using Cons.prems(1) sn False q Inr by (simp add: io_bind_def)
      then have "flushes fl hist K ident ?w3 r w'"
      proof (rule loaded_flushes [OF assms _ _ k(3), rotated 4])
        show "ready fl K ?w3" using ready_keeps(1) [OF k3] n(4) o(2) by (simp add: script_apart_def)
        show "in_flight (fkey fl) sn (fw_buf ?w3)" using k(2) n(5) k3 by (simp add: keeps_def)
        show "known (wpast hist ?w3) ident tm" using n(6) Inr o(3) by simp
        show "fresh_draws fl (fw_buf ?w3)" using Cons.prems(3) k4 by (simp add: keeps_def fresh_draws_def)
        show "flush_attempts fl ident attempts w = (r, w') \<Longrightarrow> ready fl K w \<Longrightarrow> fresh_draws fl (fw_buf w) \<Longrightarrow> flushes fl hist K ident w r w'" for w r w'
          by (rule Cons.IH)
      qed
      then show ?thesis by (rule after) (use o keeps_same_view [OF k4] in simp_all)
    qed
  qed
qed

lemma table_flushes:
  assumes "flush_sound fl hist hit upd ident" "flush_table fl ident w = (r, w')" "ready fl K w" "fresh_draws fl (fw_buf w)"
  shows "flushes fl hist K ident w r w'"
proof (cases "fl_tail fl")
  case None
  then show ?thesis using attempts_flush [OF assms(1)] assms(2-4) by (simp add: flush_table_def)
next
  case (Some ts)
  obtain q t where q: "ts_rotate ts (fw_tail w) = (q, t)" by (cases "ts_rotate ts (fw_tail w)")
  let ?w = "w\<lparr>fw_tail := t\<rparr>"
  have rd: "ready fl K ?w" "fresh_draws fl (fw_buf ?w)" using assms(3,4) by (simp_all add: ready_def script_apart_def)
  have "flushes fl hist K ident ?w r w'"
    using assms(2) Some q flushes_fails [OF rd(1), of hist ident] attempts_flush [OF assms(1) _ rd] by (cases q) (auto simp: flush_table_def)
  then show ?thesis by (simp add: flushes_def)
qed

section \<open>What scans see\<close>

text \<open>Every scan answers as before, with the effect \<open>F\<close> of the statements.\<close>

definition reads_on ::
  "('r, 'k, 'v, 'w, 't) flusher \<Rightarrow> ('r multiset \<Rightarrow> 'r multiset) \<Rightarrow> ('r, 'k) table_buf \<Rightarrow> ('r, 'k) table_buf \<Rightarrow> bool" where
  "reads_on fl F tb tb' \<longleftrightarrow>
     (\<forall>seen committed. scan_rows (fl_key fl) (fl_pk_ok fl) seen tb' committed =
        rbind (scan_rows (fl_key fl) (fl_pk_ok fl) seen tb committed) (\<lambda>A. Inr (F A)))"

text \<open>
  A window has left for a generation \<open>c\<close>: scans whose metadata does not contain \<open>c\<close> answer as before, and so do
  scans whose metadata contains every generation, on rows to which the window has been committed.
\<close>

definition reads_through ::
  "('r, 'k, 'v, 'w, 't) flusher \<Rightarrow> ('r multiset \<Rightarrow> 'r multiset) \<Rightarrow> ('r, 'k) pending_snapshot \<Rightarrow> gen_commit \<Rightarrow> ('r, 'k) table_buf \<Rightarrow> ('r, 'k) table_buf \<Rightarrow> bool" where
  "reads_through fl F sn c tb tb' \<longleftrightarrow>
     (\<forall>seen committed.
        (\<not> seen c \<longrightarrow> scan_rows (fl_key fl) (fl_pk_ok fl) seen tb' committed =
           rbind (scan_rows (fl_key fl) (fl_pk_ok fl) seen tb committed) (\<lambda>A. Inr (F A))) \<and>
        (\<forall>seen' committed'. (\<forall>g\<in>set (tb_flushed tb'). seen' (fg_commit g)) \<longrightarrow>
           mset committed' = mset (layer_apply (fkey fl) (snap_layer sn) (gens_applied (fkey fl) seen tb committed)) \<longrightarrow>
           scan_rows (fl_key fl) (fl_pk_ok fl) seen' tb' committed' =
             rbind (scan_rows (fl_key fl) (fl_pk_ok fl) seen tb committed) (\<lambda>A. Inr (F A))))"

text \<open>A window was dropped: scans of rows that already are what it makes of them answer as before.\<close>

definition reads_without ::
  "('r, 'k, 'v, 'w, 't) flusher \<Rightarrow> ('r multiset \<Rightarrow> 'r multiset) \<Rightarrow> ('r, 'k) pending_snapshot \<Rightarrow> ('r, 'k) table_buf \<Rightarrow> ('r, 'k) table_buf \<Rightarrow> bool" where
  "reads_without fl F sn tb tb' \<longleftrightarrow>
     (\<forall>seen committed.
        mset (layer_apply (fkey fl) (snap_layer sn) (gens_applied (fkey fl) seen tb committed)) = mset (gens_applied (fkey fl) seen tb committed) \<longrightarrow>
        scan_rows (fl_key fl) (fl_pk_ok fl) seen tb' committed =
          rbind (scan_rows (fl_key fl) (fl_pk_ok fl) seen tb committed) (\<lambda>A. Inr (F A)))"

lemma gens_applied_gens:
  "gens_applied key seen tb committed =
     fold (layer_apply key)
       (map (\<lambda>(c, bs, ks). \<lparr>ly_appends = map snd bs, ly_upserts = upsert_rows (map (\<lambda>x. snd (snd x)) ks), ly_keys = map fst ks\<rparr>)
         (filter (\<lambda>x. \<not> seen (fst x)) (gens tb))) committed"
  by (simp add: gens_applied_def gens_def filter_map comp_def gen_layer_def [abs_def])

lemma fscan_eq:
  assumes "buffer_ok (fkey fl) (fl_pk fl) tb" "fl_pk_ok fl (fl_pk fl)"
  shows "scan_rows (fl_key fl) (fl_pk_ok fl) seen tb committed = Inr (newest (fkey fl) tb (gens_applied (fkey fl) seen tb committed))"
  using scan_eq [of "fl_key fl" "fl_pk fl" tb "fl_pk_ok fl"] assms by blast

lemma same_view_reads:
  assumes "same_view (fkey fl) (fl_pk fl) K F tb tb'" "buffer_ok (fkey fl) (fl_pk fl) tb" "fl_pk_ok fl (fl_pk fl)"
  shows "reads_on fl F tb tb'"
proof -
  have b: "buffer_ok (fkey fl) (fl_pk fl) tb'" "gens tb' = gens tb" using assms(1) by (simp_all add: same_view_def)
  show ?thesis using assms(1) fscan_eq [OF assms(2,3)] fscan_eq [OF b(1) assms(3)]
    by (simp add: reads_on_def same_view_def rbind_def gens_applied_gens)
qed

lemma dropped_reads:
  assumes "dropped (fkey fl) (fl_pk fl) K F sn tb tb'" "buffer_ok (fkey fl) (fl_pk fl) tb" "fl_pk_ok fl (fl_pk fl)"
  shows "reads_without fl F sn tb tb'"
  unfolding reads_without_def
proof (intro allI impI)
  fix seen committed
  let ?X = "gens_applied (fkey fl) seen tb committed"
  assume m: "mset (layer_apply (fkey fl) (snap_layer sn) ?X) = mset ?X"
  have b: "buffer_ok (fkey fl) (fl_pk fl) tb'" "gens tb' = gens tb" using assms(1) by (simp_all add: dropped_def)
  have g: "gens_applied (fkey fl) seen tb' committed = ?X" by (simp add: gens_applied_gens b(2))
  have "newest (fkey fl) tb' ?X = F (newest (fkey fl) tb ?X)" using newest_mset [OF m, of "fkey fl" tb'] assms(1) by (simp add: dropped_def)
  then show "scan_rows (fl_key fl) (fl_pk_ok fl) seen tb' committed =
      rbind (scan_rows (fl_key fl) (fl_pk_ok fl) seen tb committed) (\<lambda>A. Inr (F A))"
    by (simp add: fscan_eq [OF assms(2,3)] fscan_eq [OF b(1) assms(3)] g rbind_def)
qed

lemma parked_reads:
  assumes "parked (fkey fl) (fl_pk fl) K F sn c tb tb'" "buffer_ok (fkey fl) (fl_pk fl) tb" "fl_pk_ok fl (fl_pk fl)"
  shows "reads_through fl F sn c tb tb'"
proof -
  obtain bs where b: "buffer_ok (fkey fl) (fl_pk fl) tb'" "gens tb' = gens tb @ [(c, bs, sn_keyed sn)]" "map snd bs = sn_batches sn"
    and n: "\<And>X. newest (fkey fl) tb' (layer_apply (fkey fl) (snap_layer sn) X) = F (newest (fkey fl) tb X)"
    using assms(1) unfolding parked_def by blast
  have u: "gens_applied (fkey fl) seen tb' committed = layer_apply (fkey fl) (snap_layer sn) (gens_applied (fkey fl) seen tb committed)"
    if "\<not> seen c" for seen committed using that b(3) by (simp add: gens_applied_gens b(2) snap_layer_def)
  have s: "gens_applied (fkey fl) seen tb' committed = committed" if "\<forall>g\<in>set (tb_flushed tb'). seen (fg_commit g)" for seen committed
    using that by (simp add: gens_applied_def filter_False)
  note e = fscan_eq [OF assms(2,3)] fscan_eq [OF b(1) assms(3)]
  show ?thesis unfolding reads_through_def
  proof (intro allI conjI impI)
    fix seen committed
    assume "\<not> seen c"
    then show "scan_rows (fl_key fl) (fl_pk_ok fl) seen tb' committed = rbind (scan_rows (fl_key fl) (fl_pk_ok fl) seen tb committed) (\<lambda>A. Inr (F A))"
      by (simp add: e u n rbind_def)
  next
    fix seen committed seen' committed'
    assume a: "\<forall>g\<in>set (tb_flushed tb'). seen' (fg_commit g)"
      and m: "mset committed' = mset (layer_apply (fkey fl) (snap_layer sn) (gens_applied (fkey fl) seen tb committed))"
    show "scan_rows (fl_key fl) (fl_pk_ok fl) seen' tb' committed' = rbind (scan_rows (fl_key fl) (fl_pk_ok fl) seen tb committed) (\<lambda>A. Inr (F A))"
      using newest_mset [OF m, of "fkey fl" tb'] by (simp add: e s [OF a] n rbind_def)
  qed
qed

lemma flush_seen:
  assumes "flush_sound fl hist hit upd ident" "ready fl K w" "fresh_draws fl (fw_buf w)" "flush_table fl ident w = (r, w')"
  shows "\<exists>new used. wpast hist w' = wpast hist w @ new \<and> fw_script w = used @ fw_script w' \<and>
    (let F = script_effect fl used; took = (\<lambda>sn sid. landed (layer_step (fkey fl) (oe_branch (fl_engine fl)) ident sn sid) (wpast hist w) new) in
     case r of
       Inl e \<Rightarrow> reads_on fl F (fw_buf w) (fw_buf w') \<and> (quiet new \<or> ambiguous e \<and> (\<exists>sn sid. took sn sid))
     | Inr _ \<Rightarrow>
         reads_on fl F (fw_buf w) (fw_buf w') \<and> quiet new \<or>
         (\<exists>sn sid. reads_through fl F sn (Snapshot sid) (fw_buf w) (fw_buf w') \<and> took sn sid) \<or>
         (\<exists>sn c. reads_through fl F sn c (fw_buf w) (fw_buf w') \<and> quiet new \<and> stamped fl (wpast hist w') ident (sn_tail_mark sn)) \<or>
         (\<exists>sn tm head. reads_without fl F sn (fw_buf w) (fw_buf w') \<and> quiet new \<and> known (wpast hist w') ident tm \<and>
            branch_head tm (oe_branch (fl_engine fl)) = Inr head \<and>
            mset (layer_apply (fkey fl) (snap_layer sn) (head_rows head)) = mset (head_rows head)))"
proof -
  have ok: "buffer_ok (fkey fl) (fl_pk fl) (fw_buf w)" "fl_pk_ok fl (fl_pk fl)" using assms(1,2) by (simp_all add: ready_def flush_sound_def)
  note sv = same_view_reads [OF _ ok] and pr = parked_reads [OF _ ok] and dr = dropped_reads [OF _ ok]
  obtain new used where n: "wpast hist w' = wpast hist w @ new" "fw_script w = used @ fw_script w'"
    "flush_result fl K ident (script_effect fl used) r (wpast hist w) new (fw_buf w) (fw_buf w')"
    using table_flushes [OF assms(1,4,2,3)] unfolding flushes_def by blast
  show ?thesis
  proof (cases r)
    case (Inl e)
    then show ?thesis using n sv unfolding flush_result_def Let_def Inl sum.case by blast
  next
    case (Inr u)
    have "reads_on fl (script_effect fl used) (fw_buf w) (fw_buf w') \<and> quiet new \<or>
      (\<exists>sn sid. reads_through fl (script_effect fl used) sn (Snapshot sid) (fw_buf w) (fw_buf w') \<and>
         landed (layer_step (fkey fl) (oe_branch (fl_engine fl)) ident sn sid) (wpast hist w) new) \<or>
      (\<exists>sn c. reads_through fl (script_effect fl used) sn c (fw_buf w) (fw_buf w') \<and> quiet new \<and> stamped fl (wpast hist w') ident (sn_tail_mark sn)) \<or>
      (\<exists>sn tm head. reads_without fl (script_effect fl used) sn (fw_buf w) (fw_buf w') \<and> quiet new \<and> known (wpast hist w') ident tm \<and>
         branch_head tm (oe_branch (fl_engine fl)) = Inr head \<and>
         mset (layer_apply (fkey fl) (snap_layer sn) (head_rows head)) = mset (head_rows head))"
      using n(3) [unfolded flush_result_def Let_def Inr sum.case, folded n(1)]
    proof (elim disjE exE conjE)
      assume "same_view (fkey fl) (fl_pk fl) K (script_effect fl used) (fw_buf w) (fw_buf w')" "quiet new"
      then show ?thesis using sv by simp
    next
      fix sn sid
      assume "parked (fkey fl) (fl_pk fl) K (script_effect fl used) sn (Snapshot sid) (fw_buf w) (fw_buf w')"
        "landed (layer_step (fkey fl) (oe_branch (fl_engine fl)) ident sn sid) (wpast hist w) new"
      then show ?thesis using pr by (intro disjI2 disjI1 exI [of _ sn] exI [of _ sid]) simp
    next
      fix sn c
      assume "parked (fkey fl) (fl_pk fl) K (script_effect fl used) sn c (fw_buf w) (fw_buf w')" "quiet new" "stamped fl (wpast hist w') ident (sn_tail_mark sn)"
      then show ?thesis using pr by (intro disjI2 disjI1 exI [of _ sn] exI [of _ c]) simp
    next
      fix sn tm head
      assume "dropped (fkey fl) (fl_pk fl) K (script_effect fl used) sn (fw_buf w) (fw_buf w')" "quiet new" "known (wpast hist w') ident tm"
        "branch_head tm (oe_branch (fl_engine fl)) = Inr head" "mset (layer_apply (fkey fl) (snap_layer sn) (head_rows head)) = mset (head_rows head)"
      then show ?thesis using dr by (intro disjI2 exI [of _ sn] exI [of _ tm] exI [of _ head]) simp
    qed
    then show ?thesis using n(1,2) unfolding Let_def Inr sum.case by (intro exI [of _ new] exI [of _ used] conjI)
  qed
qed

end
