(* ===== verification/FlushInputs.thy ===== *)
theory FlushInputs
  imports LakeInputs FlushSpec
begin

text \<open>
  A flush for the instances: rows are numbers and their key is whether they are even.  The window holds the
  pending row 5 and a keyed delete of the even key; while the metadata loads, a client inserts 7.
\<close>

definition even_key :: "string list \<Rightarrow> nat \<Rightarrow> bool" where
  "even_key pk r = even r"

definition even_cells :: "bool list \<Rightarrow> (string list \<times> key_cell list list) result" where
  "even_cells ks = (if ks = [True] then Inr ([''id''], [[\<lparr>kc_type = Int64, kc_null = False, kc_text = Inr ''2''\<rparr>]]) else Inl ''no such key'')"

definition window_buf :: "(nat, bool) table_buf" where
  "window_buf =
     \<lparr>tb_pending = [\<lparr>pb_id = 1, pb_claimed = False, pb_seq = None, pb_batch = [5]\<rparr>], tb_pending_rows = 1, tb_next_batch_id = 2,
      tb_keyed = Some \<lparr>ks_pk_cols = [''id''], ks_entries = [(True, \<lparr>ke_stamp = 1, ke_op = \<lparr>ko_key_row = True, ko_kind = Delete, ko_seq = None\<rparr>\<rparr>)],
        ks_next_stamp = 2, ks_claimed_below = 1\<rparr>,
      tb_flushed = [], tb_tail_high = None, tb_undurable = []\<rparr>"

definition window_predicate :: string where
  "window_predicate = quote_ident ''id'' @ '' IN (2)''"

definition window_ops :: "nat table_op list" where
  "window_ops = [TAppend [5], TDml (delete_keys the_table window_predicate)]"

definition window_commit :: "nat prepared_commit" where
  "window_commit = the (projr (prepare_commit even_engine self_key [5] the_table first_meta window_ops None ''main'' []))"

definition window_snapshot :: "nat lake_snapshot" where
  "window_snapshot = (case rq_updates (pc_request window_commit) of AddSnapshot s # _ \<Rightarrow> s | _ \<Rightarrow> first_snapshot)"

definition flushed_meta :: "nat table_metadata" where
  "flushed_meta = first_meta\<lparr>tm_snapshots := [first_snapshot, window_snapshot], tm_current := Some 5, tm_refs := [''main'' \<mapsto> 5]\<rparr>"

definition window_flusher :: "(nat, bool, nat, nat, unit) flusher" where
  "window_flusher =
     \<lparr>fl_catalog = once_catalog first_meta (pc_request window_commit), fl_engine = small_engine, fl_client = small_client, fl_tail = None,
      fl_cells = even_cells, fl_key = even_key, fl_pk_ok = (\<lambda>_. True), fl_pk = [''id'']\<rparr>"

definition window_world :: "(nat, bool, nat, unit) flush_world" where
  "window_world =
     \<lparr>fw_engine = small_world, fw_buf = window_buf, fw_tail = (), fw_now = 0, fw_published = [], fw_script = [(1, [Insert [[7]] None None])]\<rparr>"

lemma window_commit_eq: "prepare_commit even_engine self_key [5] the_table first_meta window_ops None ''main'' [] = Inr (Some window_commit)"
  unfolding window_commit_def by (simp add: lake_defs window_ops_def delete_keys_def enumerate_eq_zip)

lemma window_request:
  "pc_request window_commit = snapshot_request the_table ''u'' ''main'' (Some 1) window_snapshot []" "sp_id window_snapshot = 5"
  "pc_snapshot_id window_commit = 5"
  unfolding window_snapshot_def window_commit_def by (simp_all add: lake_defs window_ops_def delete_keys_def enumerate_eq_zip snapshot_request_def)

lemma window_commits: "commits [pc_request window_commit] [the_table \<mapsto> first_meta] [the_table \<mapsto> flushed_meta]"
proof -
  let ?a = "first_meta\<lparr>tm_snapshots := [first_snapshot, window_snapshot]\<rparr>"
  have "update_ok (AddSnapshot window_snapshot) first_meta ?a" "update_ok (SetSnapshotRef ''main'' 5) ?a flushed_meta"
    by (simp_all add: snapshot_ids_def first_meta_def flushed_meta_def first_id window_request(2))
  moreover have "updates_ok [] flushed_meta flushed_meta" by simp
  ultimately have "updates_ok [AddSnapshot window_snapshot, SetSnapshotRef ''main'' 5] first_meta flushed_meta" unfolding updates_ok.simps(2) by blast
  then have "updates_ok (rq_updates (pc_request window_commit)) first_meta flushed_meta" by (simp add: window_request(1,2) snapshot_request_def)
  then show ?thesis
    by (auto simp: commits_def commits_one_def window_request(1,2) snapshot_request_def first_meta_def)
qed

lemma window_catalog: "catalog_sound (once_catalog first_meta (pc_request window_commit)) (once_history first_meta flushed_meta)"
proof (intro once_sound window_commits once_wf even_wf(1))
  show "meta_wf flushed_meta" by (auto simp: meta_wf_def snapshot_ids_def first_meta_def flushed_meta_def MAIN_BRANCH_def first_id window_request(2))
  show "set (tm_snapshots first_meta) \<subseteq> set (tm_snapshots flushed_meta)" by (simp add: first_meta_def flushed_meta_def)
qed

lemma window_sql: "sql_sound even_engine all_even no_update columns (delete_keys ident predicate)"
  by (auto simp: sql_sound_def even_engine_def delete_keys_def all_even_def dml_sql_new_def Let_def)

lemma window_client: "flush_ops even_cells ident sn = Inr ops \<Longrightarrow> client_sound small_client all_even no_update M ops"
  using even_storage
  by (auto simp: flush_ops_def rbind_Inr_conv client_sound_def small_client_def Let_def window_sql split: if_splits)

lemma window_sound: "flush_sound window_flusher (once_history first_meta flushed_meta) all_even no_update the_table"
  using window_catalog window_client
  by (auto simp: flush_sound_def window_flusher_def deletes_keys_def even_cells_def even_key_def all_even_def split: if_splits)

lemma window_ready: "ready window_flusher {True} window_world" "fresh_draws window_flusher (fw_buf window_world)"
  by (auto simp: ready_def window_flusher_def window_world_def window_buf_def buffer_ok_def buf_wf_def entries_wf_def keyed_entries_def op_keyed_def
      keys_in_def buffered_keys_def script_apart_def even_key_def fresh_draws_def gens_def)

definition window_snap :: "(nat, bool) pending_snapshot" where
  "window_snap = fst (snapshot_pending window_buf)"

lemma window_snap_fields:
  "sn_batches window_snap = [[5]]" "sn_keyed window_snap = [(True, 1, \<lparr>ko_key_row = True, ko_kind = Delete, ko_seq = None\<rparr>)]" "sn_tail_mark window_snap = None"
  by (simp_all add: window_snap_def snapshot_pending_def window_buf_def snap_keyed_def keyed_entries_def)

lemma window_flush_ops: "flush_ops even_cells the_table window_snap = Inr window_ops"
  by (simp add: flush_ops_def window_snap_fields even_cells_def render_keys_predicate_def render_sql_literal_def rbind_def window_ops_def
      window_predicate_def upsert_rows_def Let_def)

lemma window_run: "\<exists>w'. flush_table window_flusher the_table window_world = (Inr (), w') \<and> ew_catalog (fw_engine w') = 1"
proof -
  have u: "[1..<MAX_COMMIT_ATTEMPTS + 1] = [1, 2, 3]" by (simp add: MAX_COMMIT_ATTEMPTS_def upt_rec)
  have f: "fl_tail window_flusher = None" "fl_catalog window_flusher = once_catalog first_meta (pc_request window_commit)" "fl_engine window_flusher = small_engine"
    "fl_client window_flusher = small_client" "fl_cells window_flusher = even_cells" by (simp_all add: window_flusher_def)
  have m: "fw_engine (meanwhile window_flusher w) = fw_engine w" for w by (cases "fw_script w") (auto simp: meanwhile_def)
  obtain tb where s: "snapshot_pending (fw_buf window_world) = (window_snap, tb)"
    by (cases "snapshot_pending (fw_buf window_world)") (simp add: window_snap_def window_world_def)
  have n: "\<not> snap_empty window_snap" by (simp add: snap_empty_def window_snap_fields)
  have e: "fw_engine window_world = small_world" "ew_catalog small_world = 0" by (simp_all add: window_world_def small_world_def)
  have p: "prepare_commit (cl_engine small_client n) (cl_pkey small_client) (cl_draws small_client n) the_table first_meta window_ops None (oe_branch small_engine) [] =
      Inr (Some window_commit)" for n using window_commit_eq by (simp add: small_client_def small_engine_def)
  have k: "pk_columns small_engine first_meta = Inr None" by (simp add: pk_columns_def small_engine_def)
  show ?thesis unfolding flush_table_def f u option.case flush_attempts.simps s prod.case Let_def if_not_P [OF n]
    by (simp add: io_bind_def awaits_def f once_calls m e flush_loaded_def k window_flush_ops tail_props_def window_snap_fields(3) p
        post_prepared_def on_buf_def covered_def Let_def del: One_nat_def)
qed

end
