(* ===== verification/Inputs.thy ===== *)
theory Inputs
  imports Examples LeaseSpec TailSequence BufferInputs FlushInputs
begin

text \<open>
  Small concrete states on which the properties of the root theory are instantiated: two term
  histories, a server with a two-record log, poll rounds of a lease, frames of a local tail.
\<close>

section \<open>The quorum log\<close>

definition old_history :: term_history where
  "old_history = [\<lparr>tl_term = 1, tl_lsn = 0\<rparr>, \<lparr>tl_term = 2, tl_lsn = 10\<rparr>]"

definition new_history :: term_history where
  "new_history = [\<lparr>tl_term = 1, tl_lsn = 0\<rparr>, \<lparr>tl_term = 3, tl_lsn = 8\<rparr>]"

text \<open>A server of term 1 whose log holds a covered record and the watermark that covers it.\<close>

definition wm_record :: log_record where
  "wm_record = \<lparr>r_lsn = 30, r_kind = RECORD_WATERMARK, r_table_key = [], r_seq = 1, r_body = []\<rparr>"

definition led_shared :: shared where
  "led_shared = \<lparr>sh_tail_id = [], sh_election = \<lparr>el_term = 1, el_term_start_lsn = 0, el_history = [\<lparr>tl_term = 1, tl_lsn = 0\<rparr>]\<rparr>,
     sh_log = \<lparr>lb_base = 0, lb_head = 59, lb_records = metas (\<lambda>_. 0) 0 [one_record, wm_record],
               lb_covered = [[] \<mapsto> 1], lb_last_wm = [[] \<mapsto> (30, 1)]\<rparr>,
     sh_peers = [\<lparr>p_flush = 59, p_failed = False\<rparr>, \<lparr>p_flush = 30, p_failed = False\<rparr>, \<lparr>p_flush = 0, p_failed = True\<rparr>],
     sh_commit = 30, sh_horizon = 0, sh_poison = None, sh_reelect = []\<rparr>"

lemma wm_record_ok: "record_wf wm_record" "length (record_payload wm_record) = 21"
  by (simp_all add: wm_record_def record_wf_def record_payload_def U32_MAX_def)

lemma led_records:
  "lb_records (sh_log led_shared) =
     [\<lparr>rm_start = 0, rm_end = 30, rm_kind = RECORD_FRAME, rm_table_key = [], rm_seq = 1,
       rm_frame = frame (\<lambda>_. 0) (record_payload one_record)\<rparr>,
      \<lparr>rm_start = 30, rm_end = 59, rm_kind = RECORD_WATERMARK, rm_table_key = [], rm_seq = 1,
       rm_frame = frame (\<lambda>_. 0) (record_payload wm_record)\<rparr>]"
  using one_record_ok(3) wm_record_ok(2) by (simp add: led_shared_def) (simp add: one_record_def wm_record_def)

lemma led_fields:
  "lb_base (sh_log led_shared) = 0" "lb_head (sh_log led_shared) = 59" "sh_horizon led_shared = 0"
  "lb_last_wm (sh_log led_shared) = [[] \<mapsto> (30, 1)]" "lb_covered (sh_log led_shared) = [[] \<mapsto> 1]"
  "sh_commit led_shared = 30" "sh_poison led_shared = None" "el_term (sh_election led_shared) = 1"
  "el_term_start_lsn (sh_election led_shared) = 0"
  "sh_peers led_shared = [\<lparr>p_flush = 59, p_failed = False\<rparr>, \<lparr>p_flush = 30, p_failed = False\<rparr>, \<lparr>p_flush = 0, p_failed = True\<rparr>]"
  by (simp_all add: led_shared_def)

lemma led_log_wf: "log_wf (sh_log led_shared)" "wm_wf (sh_log led_shared)"
  using one_record_ok(3) wm_record_ok(2)
  by (auto simp: log_wf_def wm_wf_def last_wm_of_def is_wm_def led_records led_fields RECORD_FRAME_def RECORD_WATERMARK_def)

lemma led_wf: "shared_wf led_shared"
  by (simp add: shared_wf_def led_log_wf led_fields QUORUM_SIZE_def)

section \<open>The lease and the local tail\<close>

definition still_rounds :: "poll_round list" where
  "still_rounds = [(0, [Some (GreetingResp None 1 30), Some (GreetingResp None 1 30), None]),
                   (9, [Some (GreetingResp None 1 30), Some (GreetingResp None 1 30), Some (GreetingResp None 1 30)])]"

definition lease_cfg :: lease_config where
  "lease_cfg = \<lparr>lc_addrs = [''a'', ''b'', ''c''], lc_ttl = 5, lc_holder_id = ''h''\<rparr>"

definition held :: held_lease where
  "held = \<lparr>hl_quorum = led_shared\<lparr>sh_commit := 1000\<rparr>, hl_seq = 4, hl_holder = ''h''\<rparr>"

text \<open>
  A standby that polls two untouched acceptors and an unreachable one, acquires the lease and
  renews it once; the state it is in then leads.
\<close>

definition lease_events :: "lease_event list" where
  "lease_events = [Poll False [Some (GreetingResp None 0 0), Some (GreetingResp None 0 0), None] 7 7,
     Acquired False (Inr held), Renewed False (Inr (), held)]"

definition leading_state :: lease_state where
  "leading_state =
     \<lparr>ls_phase = Leader held,
      ls_tracker = \<lparr>et_ttl = 5, et_seen = [Some \<lparr>ob_term = 0, ob_flush = 0, ob_since = 7, ob_reachable = True\<rparr>,
        Some \<lparr>ob_term = 0, ob_flush = 0, ob_since = 7, ob_reachable = True\<rparr>, None]\<rparr>,
      ls_leader = True\<rparr>"

lemma lease_events_run:
  "lease_run (lease_init lease_cfg) lease_events = Some leading_state"
  "\<forall>e\<in>set lease_events. answers_all (length (lc_addrs lease_cfg)) e"
  by (simp_all add: lease_events_def leading_state_def lease_init_def lease_cfg_def poll_acceptors_def tracker_new_def
      virgin_def observe_def observe_unreachable_def somes_def QUORUM_def Let_def numeral_3_eq_3)

definition tail_payload :: "nat \<Rightarrow> bytes" where
  "tail_payload seq = le_bytes 8 seq @ [2, 0, 7]"

definition one_batch :: "bytes \<Rightarrow> byte list result" where
  "one_batch bs = Inr bs"

definition all_io :: scan_io where
  "all_io = \<lparr>sio_cut = (\<lambda>_. True), sio_unmark = (\<lambda>_. True), sio_remove = (\<lambda>_. True)\<rparr>"

lemma led_coverable: "coverable_prefix (sh_log led_shared) 59 = (30, None)"
  by (simp add: coverable_prefix_def led_records led_fields coverable_def covered_of_def RECORD_FRAME_def
      RECORD_WATERMARK_def WATERMARK_REFRESH_SLACK_def)

lemma tail_payload_stored: "seq < 2 ^ 64 \<Longrightarrow> stored one_batch (tail_payload seq) (seq, OpAppend [7])"
  by (simp add: stored_def tail_payload_def U32_MAX_def decode_payload_def decode_op_payload_def TAIL_PAYLOAD_FORMAT_def
      from_byte_def decode_ipc_def one_batch_def)

section \<open>Runs of the tails\<close>

text \<open>Arrow IPC as the identity on bytes, and a staged, synced, acknowledged frame with one in flight behind it.\<close>

definition raw_ipc :: "byte list \<Rightarrow> bytes result" where
  "raw_ipc bs = Inr bs"

definition ok_io :: append_io where
  "ok_io = \<lparr>ai_create = True, ai_sync_dir = True, ai_write = None, ai_roll1 = RollOk, ai_roll2 = RollOk\<rparr>"

definition tail_events :: "byte tail_event list" where
  "tail_events = [Stage ok_io KAppend [7], Lead 1, SyncDone 1 True, WaitOk (1, 1, 19), Stage ok_io KDelete [8]]"

lemma raw_ipc_inverse: "ipc_inverse raw_ipc one_batch"
  by (simp add: ipc_inverse_def raw_ipc_def one_batch_def)

lemma tail_events_run:
  "\<exists>tw. tail_run (\<lambda>_. 0) raw_ipc fresh_table tail_events = Some tw \<and> tw_acked tw = [(1, 1, 19)] \<and> tw_next_seq tw = 3 \<and> tw_trunc tw = 0"
  "run_staged (\<lambda>_. 0) raw_ipc fresh_table tail_events = [(1, OpAppend [7]), (2, OpDelete [8])]"
  by (simp_all add: tail_events_def ok_io_def fresh_table_def append_staged_def ensure_active_def encode_frame_def
     encode_op_payload_def encode_ipc_def raw_ipc_def rbind_def frame_bytes_def check_frame_len_def U32_MAX_def set_sync_def
     seg_sync_new_def lead_def sync_done_def wait_verdict_def staged_op_def Let_def)

text \<open>A quorum tail opened on an empty log, with two statements staged and the first submitted.\<close>

definition some_table :: table_ident where
  "some_table = \<lparr>ti_namespace = [[0x61]], ti_name = [0x62]\<rparr>"

definition ident_of_parts :: "bytes list \<Rightarrow> table_ident option" where
  "ident_of_parts ps = Some \<lparr>ti_namespace = butlast ps, ti_name = last ps\<rparr>"

definition opened :: shared where
  "opened = projr (open_shared (\<lambda>_. 0) [] 1 [\<lparr>tl_term = 1, tl_lsn = 0\<rparr>] 0 0 [])"

definition quorum_events :: "byte quorum_event list" where
  "quorum_events = [QStage some_table KAppend [7], QStage some_table KDelete [8], QWork]"

lemma opened_eq: "open_shared (\<lambda>_. 0) [] 1 [\<lparr>tl_term = 1, tl_lsn = 0\<rparr>] 0 0 [] = Inr opened"
  by (simp add: opened_def open_shared_def)

lemma quorum_events_run:
  "\<exists>qt. quorum_run (\<lambda>_. 0) raw_ipc (open_tail ident_of_parts opened []) quorum_events = Some qt \<and> next_seq_of qt some_table = 3"
  "quorum_staged (\<lambda>_. 0) raw_ipc (open_tail ident_of_parts opened []) quorum_events =
     [(some_table, 1, OpAppend [7]), (some_table, 2, OpDelete [8])]"
  by (simp_all add: quorum_events_def quorum_append_staged_def check_poisoned_def open_tail_def call_def table_dir_name_def
      some_table_def encode_op_payload_def encode_ipc_def raw_ipc_def rbind_def next_seq_of_def worker_seeds_def
      Let_def)

end
