(* ===== verification/Spec2Isabelle.thy ===== *)
theory Spec2Isabelle
  imports Inputs
begin

text \<open>
  \<^bold>\<open>A verification library for icegres\<close>

  icegres serves Postgres clients over an Iceberg lakehouse.  A statement that writes is either
  committed to the lake at once (\<^verbatim>\<open>overwrite.rs\<close>) or acknowledged from a write buffer (\<^verbatim>\<open>buffer.rs\<close>) whose
  rows a flusher commits later; what the buffer acknowledges is made durable by a tail, either a
  local log (\<^verbatim>\<open>tail.rs\<close>) or a log replicated over three acceptors (\<^verbatim>\<open>tail_quorum.rs\<close> over \<^verbatim>\<open>quorum/\<close>); and
  which server may write is decided by a lease on a second, dedicated quorum (\<^verbatim>\<open>lease.rs\<close>).  All paths
  below are under \<^verbatim>\<open>src/icegres/src/\<close>.

  \<^bold>\<open>The quorum log\<close> (C1 to C20).

  \<^item> \<^verbatim>\<open>Segment\<close> (frames, \<^verbatim>\<open>segment.rs\<close>), \<^verbatim>\<open>Proto\<close> (term histories, divergence point, record codec,
    \<^verbatim>\<open>quorum/proto.rs\<close>), \<^verbatim>\<open>Json\<close> and \<^verbatim>\<open>Messages\<close> (the wire protocol).  Lemmas: round trips in both
    directions, bounded reads, the divergence point is safe and maximal.
  \<^item> \<^verbatim>\<open>Wal\<close>, \<^verbatim>\<open>WalSegments\<close>, \<^verbatim>\<open>WalBoot\<close>: the segmented log of an acceptor (\<^verbatim>\<open>quorum/acceptor.rs\<close>).  The locale
    \<open>wal_laws\<close> is the contract of \<^verbatim>\<open>WalStore\<close>; it is interpreted on the segment files, and the boot
    scan recovers exactly the whole records.
  \<^item> \<^verbatim>\<open>Acceptor\<close>, \<^verbatim>\<open>AcceptorSpec\<close>, \<^verbatim>\<open>AcceptorSafety\<close>: the control state and the request handlers, with
    control-file writes that fail.  The handlers refine the abstract acceptor \<open>vstep\<close>: persist before
    answering, fencing of stale terms, no committed byte lost above the horizon.  The log's own I/O is taken
    to succeed (\<open>io_ok\<close>) in these lemmas; \<^verbatim>\<open>Wal\<close> also has its failures.
  \<^item> \<^verbatim>\<open>ProposerRules\<close>, \<^verbatim>\<open>Proposer\<close>, \<^verbatim>\<open>ProposerSpec\<close>: the proposer (\<^verbatim>\<open>quorum/proposer.rs\<close>): open, submit, stream,
    acknowledge, commit, horizon, expulsion, re-election.
  \<^item> \<^verbatim>\<open>Cluster\<close> is the whole system as a step function over three acceptors, any number of proposer
    processes and a network that loses, repeats and reorders.  \<^verbatim>\<open>Carries\<close>, \<^verbatim>\<open>ClusterInv\<close>, \<^verbatim>\<open>ClusterQuiet\<close>,
    \<^verbatim>\<open>ClusterLead\<close>, \<^verbatim>\<open>ClusterStream\<close>, \<^verbatim>\<open>ClusterWrite\<close>, \<^verbatim>\<open>ClusterElect\<close>, \<^verbatim>\<open>ClusterAccept\<close>, \<^verbatim>\<open>ClusterDeliver\<close> and
    \<^verbatim>\<open>ClusterSafety\<close> carry the invariant through every event and give agreement on committed bytes.
    Runs are restricted by \<open>regular\<close>: a recovery read is answered at the candidate's term and a
    re-election starts at or beyond the proposer's own term start; the code does not enforce either.  A
    restart keeps the log as it was: \<open>open_dir_view\<close> proves this of the boot scan for files of whole records
    with a torn rest, and what it leaves out (a log truncated to nothing, a crash inside an append) is not
    covered.  A turn of the streaming loop reads term, batch, commit and horizon at once.

  \<^bold>\<open>The lease\<close> (C21 to C25).  \<^verbatim>\<open>Lease\<close> models address validation, the expiry tracker, poll rounds, acquire,
  renew and the standby and leader loop; \<^verbatim>\<open>LeaseSpec\<close> proves the incremental tracker equal to a
  declarative reading of the poll history.  Clocks and name resolution are parameters.

  \<^bold>\<open>The tails\<close> (C26 to C30).

  \<^item> \<^verbatim>\<open>TailNames\<close> (table keys), \<^verbatim>\<open>TailFrames\<close> and \<^verbatim>\<open>TailReplay\<close> (payloads, segment and table scan), \<^verbatim>\<open>TailWal\<close> (the
    group-fsync write path: stage, lead, sync, wait, failure cleanup, rotate, truncate), \<^verbatim>\<open>TailDurable\<close> and
    \<^verbatim>\<open>TailCrash\<close> (a crash at any point of a run keeps every acknowledged frame).  Runs are restricted by
    \<open>tidy\<close>: a failed write or sync is rolled back and released files are removed; unlinking is durable.
  \<^item> \<^verbatim>\<open>TailQuorum\<close> and \<^verbatim>\<open>TailQuorumSpec\<close>: the quorum tail as a job queue in front of the proposer.
  \<^item> \<^verbatim>\<open>TailSequence\<close>: the locale \<open>tail_sequence\<close> is the part of \<^verbatim>\<open>TailStore::append_staged\<close> that both backends
    promise, interpreted on both.

  \<^bold>\<open>The write buffer\<close> (C31 to C33).

  \<^item> \<^verbatim>\<open>Buffer\<close>: the state of one table (pending batches, keyed map, generations in flight) with every
    operation under the buffer lock (\<^verbatim>\<open>buffer.rs\<close>, \<^verbatim>\<open>keyed.rs\<close>).
  \<^item> \<^verbatim>\<open>BufferLayers\<close>: a union read equals what committing the layers one after the other would give.
  \<^item> \<^verbatim>\<open>BufferRoute\<close>: what inserts and keyed statements do to the newest layer.
  \<^item> \<^verbatim>\<open>BufferSpec\<close>: the answer of a scan (\<open>scan_rows\<close>) after any statement, accepted or refused, and across a flush:
    snapshot, further statements, move to a generation.
  \<^item> \<^verbatim>\<open>Flush\<close>: \<^verbatim>\<open>flush_table\<close> with its attempts, the operations of a window, the watermark guard, the post and what follows
    a failed one; at every await the script of the world runs statements of other tasks.  The tail is a parameter.
  \<^item> \<^verbatim>\<open>FlushSpec\<close> (C37): the buffer, the commit and the history of the catalog together.  Statements are restricted by
    \<open>stmt_apart\<close>: plain inserts stay out of a set of keys and keyed statements in it; without it a window that comes
    back after a conflict hides newer plain rows, which the code does not prevent.  Snapshot ids that are drawn are
    fresh among the generations (\<open>fresh_draws\<close>).

  \<^bold>\<open>Commits to the lake\<close> (C34 to C40).

  \<^item> \<^verbatim>\<open>Overwrite\<close>: \<^verbatim>\<open>prepare_commit\<close> (\<^verbatim>\<open>overwrite.rs\<close>) from the SQL text of a statement to the manifests and the
    request.  Rows are abstract; a set of record batches is the list of its rows.  \<^verbatim>\<open>align_batch\<close> checks the
    columns and casts every row; the cast itself is arrow's, and may change a value.
  \<^item> \<^verbatim>\<open>OverwriteSpec\<close>: the reference \<open>ops_rows\<close> runs the operations one by one on a list of rows; the commit is
    equal to it as a multiset, after the casts (\<open>fit\<close>).  Hypotheses on the crates: \<open>sql_sound\<close>, \<open>storage_sound\<close>; on the
    data: stored rows have the table's types (\<open>typed\<close>), which the commit preserves.  Keys are checked before the
    casts of rewritten rows, so unique keys need casts that keep them; \<open>cast_after_key_check\<close> in \<^verbatim>\<open>LakeInputs\<close> is a
    commit with a key twice.  \<open>files_last\<close> excludes statements after files that were written elsewhere, which no
    caller combines.
  \<^item> \<^verbatim>\<open>Commit\<close>: the commit paths over a REST catalog, which is a parameter whose calls may return anything
    and move the world on.
  \<^item> \<^verbatim>\<open>CommitSpec\<close>: the promises of the catalog (\<open>catalog_sound\<close>: a history of states, success means accepted
    once, a conflict means not accepted, anything else at most once) and the effect of the paths on it, for
    clients whose casts keep values (\<open>casts_lossless\<close> in \<open>client_sound\<close>).  The
    locale \<open>retry_loop\<close> is what the autocommit, insert and append loops share, interpreted on all three.
  \<^item> \<^verbatim>\<open>TransactionSpec\<close>: the commit of several pinned tables in one request.
  \<^item> \<^verbatim>\<open>Branch\<close>: branches, fast-forward merges and snapshot expiry (\<^verbatim>\<open>overwrite.rs\<close>, \<^verbatim>\<open>branch.rs\<close>).
  \<^item> \<^verbatim>\<open>BranchSpec\<close>: a branch of the whole lake is a consistent cut, a merge moves forward only, listing ends, expiry
    keeps what is referenced or recent.

  \<^bold>\<open>Shared.\<close>  \<^verbatim>\<open>Prelude\<close> and \<^verbatim>\<open>RustStrings\<close> hold the generic lemmas, little-endian integers, results and the
  string methods the sources use; \<^verbatim>\<open>Examples\<close>, \<^verbatim>\<open>Inputs\<close>, \<^verbatim>\<open>BufferInputs\<close>, \<^verbatim>\<open>LakeInputs\<close> and \<^verbatim>\<open>FlushInputs\<close> hold the concrete states of the
  instances after each property.

  \<^bold>\<open>Errors, integers, loops.\<close>  A fallible function returns \<open>Inl\<close> with a message or \<open>Inr\<close>.  Sequence numbers, terms and
  positions are natural numbers; where the encodings cut them to 64 or 32 bits the bound is written out as a
  hypothesis or a check.  Loops are structural or have a measure; the walk over namespaces, which a catalog can
  keep busy for ever, is a partial function whose \<open>None\<close> is not returning.  No fuel is used.

  \<^bold>\<open>Not modelled.\<close>  Parsing and planning of SQL (sqlparser and DataFusion trees: \<^verbatim>\<open>dml.rs\<close>, \<^verbatim>\<open>txn.rs\<close>, \<^verbatim>\<open>asof.rs\<close>,
  \<^verbatim>\<open>authz.rs\<close>, \<^verbatim>\<open>scan.rs\<close>, \<^verbatim>\<open>context.rs\<close>), the servers and their processes (\<^verbatim>\<open>flight.rs\<close>, \<^verbatim>\<open>main.rs\<close>, \<^verbatim>\<open>icegresd.rs\<close>, \<^verbatim>\<open>peer.rs\<close>,
  \<^verbatim>\<open>k8s.rs\<close>), the Postgres tail (its state lives in another server), the replay of a tail into the buffer, compaction and orphan removal, the
  self-check of \<^verbatim>\<open>verify.rs\<close>, caches and their invalidation after a commit (\<^verbatim>\<open>post_commit\<close> forgets cached
  metadata), metrics and timing.  Arrow, Parquet, Avro, JSON text, TCP and the object store are
  parameters.
\<close>

section \<open>The cluster\<close>

text \<open>
  C1. Committed bytes are never lost or replaced.  Take any run of three acceptors and any number
  of servers from the empty logs, with any interleaving, loss, duplication and reordering of
  messages, failing control-file writes and restarts, in which recovery reads are answered at the
  candidate's term and re-elections start at or beyond the server's own term (\<open>regular\<close>); the logs'
  own I/O succeeds and a restart finds the log as it was.  A byte
  that a server holds and has committed in its term is in the log of every server that leads at
  the same or a later term, at that moment or later, unless that server has already dropped it
  below its base.
\<close>

theorem committed_bytes_agree:
  assumes "sw_inv w" "ws_is_empty (segment_wal_ops io_ok) w"
    and "run (segment_wal_ops io_ok) crc (init_cluster (segment_wal_ops io_ok) w) es = Some s"
    and "run (segment_wal_ops io_ok) crc s es' = Some s'"
    and "cl_procs s p = Leading l" and "cl_procs s' q = Leading l'"
    and "el_term (sh_election (ld_sh l)) \<le> el_term (sh_election (ld_sh l'))"
    and "lb_base (sh_log (ld_sh l)) \<le> x" "x < sh_commit (ld_sh l)"
  shows "log_byte (sh_log (ld_sh l)) x \<noteq> None \<and> x < lb_head (sh_log (ld_sh l')) \<and>
     (lb_base (sh_log (ld_sh l')) \<le> x \<longrightarrow> log_byte (sh_log (ld_sh l')) x = log_byte (sh_log (ld_sh l)) x)"
  using assms by (rule sw.agreement)

theorem committed_bytes_agree_witness:
  "\<exists>l l' s'. run wal_ops (\<lambda>_. 0) first_state second_server = Some s' \<and> cl_procs first_state 0 = Leading l \<and>
     cl_procs s' 1 = Leading l' \<and> sh_commit (ld_sh l) = 30 \<and> log_byte (sh_log (ld_sh l')) 29 = Some 7"
proof -
  obtain l l' s' where r: "run wal_ops (\<lambda>_. 0) first_state second_server = Some s'"
    and l: "cl_procs first_state 0 = Leading l" "cl_procs s' 1 = Leading l'"
    and c: "sh_commit (ld_sh l) = 30" "lb_base (sh_log (ld_sh l)) = 0" "lb_base (sh_log (ld_sh l')) = 0"
    and t: "el_term (sh_election (ld_sh l)) = 1" "el_term (sh_election (ld_sh l')) = 2"
    and b: "log_byte (sh_log (ld_sh l)) 29 = Some 7"
    by (rule two_leaders)
  have "log_byte (sh_log (ld_sh l')) 29 = Some 7"
    using committed_bytes_agree [OF empty_wal_ok(1,3) first_run r l, of 29] c t b by simp
  then show ?thesis using r l c by blast
qed

text \<open>
  C2. At most one server leads in a term: two distinct servers that lead at the same moment of a
  regular run lead in different terms.
\<close>

theorem one_leader_per_term:
  assumes "sw_inv w" "ws_is_empty (segment_wal_ops io_ok) w"
    and "run (segment_wal_ops io_ok) crc (init_cluster (segment_wal_ops io_ok) w) es = Some s"
    and "cl_procs s p = Leading l" "cl_procs s q = Leading l'" "p \<noteq> q"
  shows "el_term (sh_election (ld_sh l)) \<noteq> el_term (sh_election (ld_sh l'))"
  using sw.one_leader [OF assms(1-5)] assms(6) by blast

theorem one_leader_per_term_witness:
  "\<exists>l l' s'. run wal_ops (\<lambda>_. 0) (init_cluster wal_ops empty_wal) (first_server @ second_server) = Some s' \<and>
     cl_procs s' 0 = Leading l \<and> cl_procs s' 1 = Leading l' \<and>
     el_term (sh_election (ld_sh l)) \<noteq> el_term (sh_election (ld_sh l'))"
proof -
  obtain l l' s' where r: "run wal_ops (\<lambda>_. 0) first_state second_server = Some s'"
    and l: "cl_procs s' 0 = Leading l" "cl_procs s' 1 = Leading l'"
    by (rule two_leaders)
  have rr: "run wal_ops (\<lambda>_. 0) (init_cluster wal_ops empty_wal) (first_server @ second_server) = Some s'"
    using first_run r by (simp add: run_append)
  then show ?thesis using one_leader_per_term [OF empty_wal_ok(1,3) rr l] l by auto
qed

section \<open>The acceptor\<close>

text \<open>
  C3. The acceptor implements its specification.  On the segmented log, every request is answered
  by a step of the abstract acceptor (term, history, commit, horizon, log bytes), whatever the
  control-file writes do, and the persist-before-respond invariant holds afterwards; the log's own
  I/O is assumed to succeed.
\<close>

theorem acceptor_refines:
  assumes "acc_inv (segment_wal_ops io_ok) sw_inv a" "process (segment_wal_ops io_ok) crc po a m = (resp, a')"
  shows "acc_inv (segment_wal_ops io_ok) sw_inv a' \<and>
    vstep (view (segment_wal_ops io_ok) sw_lo sw_content a) m resp (view (segment_wal_ops io_ok) sw_lo sw_content a')"
  using assms by (rule sw.process_refines)

theorem acceptor_refines_witness:
  "seg_ainv holding_acceptor \<and> vstep (seg_view voted_acceptor) one_append (AppendResp 1 True 30 30) (seg_view holding_acceptor)"
  using acceptor_refines [OF voted_ok holding_eval(1)] .

text \<open>
  C4. An acceptor keeps its committed bytes: whatever request it processes, a byte it retains
  below its commit position stays in its log, at its position, unless it lies below the horizon
  the acceptor already had or below the horizon the request asks for.
\<close>

theorem acceptor_keeps_committed:
  assumes "acc_inv (segment_wal_ops io_ok) sw_inv a" "process (segment_wal_ops io_ok) crc po a m = (resp, a')"
    and "sw_lo (a_wal a) \<le> x" "x < ps_commit_lsn (effective a)" "not_released (ps_horizon_lsn (effective a)) m x"
  shows "sw_lo (a_wal a') \<le> x \<and> x < ws_flush_lsn (segment_wal_ops io_ok) (a_wal a') \<and>
    sw_content (a_wal a') ! (x - sw_lo (a_wal a')) = sw_content (a_wal a) ! (x - sw_lo (a_wal a))"
  using assms by (rule sw.process_kept)

theorem acceptor_keeps_committed_witness:
  "let w = a_wal (snd (process wal_ops (\<lambda>_. 0) always_ok holding_acceptor next_append)) in
   sw_lo w \<le> 29 \<and> 29 < ws_flush_lsn wal_ops w \<and> sw_content w ! (29 - sw_lo w) = 7"
  using acceptor_keeps_committed [OF holding_ok, of "\<lambda>_. 0" always_ok next_append,
      OF prod.collapse [symmetric], of 29] holding_eval(2-) one_record_last
  by (simp add: next_append_def Let_def)

text \<open>
  C5. A granted vote is durable before it is answered: the term was higher than the acceptor's,
  and it is the term both in memory and in the control file when the answer leaves.
\<close>

theorem granted_vote_is_durable:
  assumes "acc_inv ops winv a" "process ops crc po a (VoteRequest t) = (VoteResponse t' True f llt h z c, a')"
  shows "t' = t \<and> ps_term (effective a) < t \<and> ps_term (effective a') = t \<and> ps_term (durable a') = t"
  using assms by (rule vote_durable)

theorem granted_vote_is_durable_witness: "ps_term (effective fresh_acceptor) < 1 \<and> ps_term (durable voted_acceptor) = 1"
  using granted_vote_is_durable [OF fresh_ok(1) voted_eval(1)] by simp

text \<open>
  C6. An acknowledged append is in the log: the acceptor was at the message's term, the reported
  flush position is the message's end, the commit and horizon positions are the ones the message
  allows, and the log is the old log followed by exactly the sent bytes, less a prefix that ends
  at or below the new horizon (nothing is lost when the horizon is not beyond the log's start).
\<close>

theorem acknowledged_append_is_logged:
  assumes "acc_inv (segment_wal_ops io_ok) sw_inv a"
    and "process (segment_wal_ops io_ok) crc po a (Append t b e c z rs) = (AppendResp t' True f c', a')"
  shows "t' = t \<and> f = e \<and> e = b + length rs \<and> ws_flush_lsn (segment_wal_ops io_ok) (a_wal a') = e \<and>
    ps_term (effective a) = t \<and> c' = min (max c (ps_commit_lsn (effective a))) e \<and>
    ps_horizon_lsn (effective a') = max (ps_horizon_lsn (effective a)) (min z c') \<and>
    (\<exists>k. sw_content (a_wal a') = drop k (sw_content (a_wal a) @ rs) \<and> k \<le> length (sw_content (a_wal a) @ rs) \<and>
       (let base = (if ws_is_empty (segment_wal_ops io_ok) (a_wal a) then b else sw_lo (a_wal a)) in
        sw_lo (a_wal a') = base + k \<and> base + k \<le> max base (ps_horizon_lsn (effective a'))))"
  using assms by (rule sw.process_append_ack)

theorem acknowledged_append_is_logged_witness:
  "ws_flush_lsn wal_ops (a_wal holding_acceptor) = 30 \<and> ps_term (effective voted_acceptor) = 1 \<and>
   sw_lo (a_wal holding_acceptor) = 0 \<and> length (sw_content (a_wal holding_acceptor)) = 30 \<and>
   sw_content (a_wal holding_acceptor) = sw_content (a_wal voted_acceptor) @ records_bytes (\<lambda>_. 0) [one_record]"
  using acknowledged_append_is_logged [OF voted_ok holding_eval(1) [unfolded one_append_def]] voted_eval(3,4)
    empty_wal_ok(3) holding_eval(4) one_record_bytes(1) by (auto simp: Let_def)

text \<open>
  C7. Stale proposers are fenced: an append or an elected message from a term below the
  acceptor's is answered with the acceptor's term and changes nothing.
\<close>

theorem stale_term_is_fenced:
  assumes "a_wedged a = None" "t < ps_term (a_state a)"
  shows "process ops crc po a (Append t b e c z rs) = (AppendResp (ps_term (a_state a)) False 0 0, a) \<and>
         process ops crc po a (Elected t s h) = (ElectedResp (ps_term (a_state a)) False, a)"
  using assms by (simp add: process_def handle_append_def handle_elected_def)

theorem stale_term_is_fenced_witness:
  "process wal_ops (\<lambda>_. 0) always_ok voted_acceptor (Append 0 0 0 0 0 []) = (AppendResp 1 False 0 0, voted_acceptor)"
proof -
  have "a_wedged voted_acceptor = None" "ps_term (a_state voted_acceptor) = 1"
    by (simp_all add: voted_acceptor_def fresh_acceptor_def empty_wal_def run_simps)
  then show ?thesis using stale_term_is_fenced [of voted_acceptor 0] by simp
qed

section \<open>Term histories and elections\<close>

text \<open>
  C8. The divergence point is safe: below the position that \<open>find_highest_common_point\<close> returns,
  the proposer's and the acceptor's histories attribute every log position to the same term, so
  the acceptor keeps no byte there that the proposer does not have.
\<close>

theorem divergence_point_safe:
  assumes "find_highest_common_point p s e = Inr (Some t)" and "th_wf p" "th_wf s"
    and "\<forall>x\<in>set s. tl_term x \<le> tl_term (last p)" and "q < tl_lsn t"
  shows "last_log_term p q = last_log_term s q"
  using assms by (rule fhcp_agree)

theorem divergence_point_safe_witness: "last_log_term new_history 7 = last_log_term old_history 7"
  by (rule divergence_point_safe [of _ _ 20 "\<lparr>tl_term = 1, tl_lsn = 8\<rparr>"])
     (simp_all add: new_history_def old_history_def find_highest_common_point_def th_wf_def Let_def)

section \<open>Commit positions\<close>

text \<open>
  C9. The quorum commit position is exact: a position at or beyond the term's start is at most
  \<open>quorum_commit\<close> iff two of the three acceptors have flushed up to it, and a commit position
  other than zero is at or beyond the term's start (bytes of earlier terms are never committed by
  counting alone).
\<close>

theorem quorum_commit_exact:
  assumes "length fs = 3" "0 < ts" "ts \<le> x"
  shows "(x \<le> quorum_commit fs ts \<longleftrightarrow> 2 \<le> length (filter (\<lambda>f. x \<le> f) fs)) \<and>
    (quorum_commit fs ts = 0 \<or> ts \<le> quorum_commit fs ts)"
proof (intro conjI iffI)
  assume "x \<le> quorum_commit fs ts"
  then have c: "0 < quorum_commit fs ts" and le: "\<And>f. quorum_commit fs ts \<le> f \<Longrightarrow> x \<le> f" using assms by auto
  have "filter (\<lambda>f. quorum_commit fs ts \<le> f) fs = filter (\<lambda>f. quorum_commit fs ts \<le> f) (filter (\<lambda>f. x \<le> f) fs)"
    unfolding filter_filter by (rule filter_cong) (use le in auto)
  then show "2 \<le> length (filter (\<lambda>f. x \<le> f) fs)"
    using quorum_commit_sound [OF assms(1) c] by (metis length_filter_le order_trans)
next
  assume "2 \<le> length (filter (\<lambda>f. x \<le> f) fs)"
  then show "x \<le> quorum_commit fs ts" by (rule quorum_commit_complete [OF assms(1,3)])
next
  show "quorum_commit fs ts = 0 \<or> ts \<le> quorum_commit fs ts"
    using quorum_commit_sound [OF assms(1)] by blast
qed

theorem quorum_commit_exact_witness: "(40 \<le> quorum_commit [50, 40, 10] 20) = True"
  using quorum_commit_exact [of "[50, 40, 10]" 20 40] by simp

text \<open>
  C10. An acknowledgement moves the commit position only on evidence: acknowledgements of another
  term are ignored, the commit position never goes back, and when it moves, two of the three
  recorded flush positions are at or beyond it and it is at or beyond the term's start.
\<close>

theorem acknowledgement_commits_on_quorum:
  assumes "shared_wf sh" "store_ack sh i t f = (ok, sh')"
  shows "(ok \<longleftrightarrow> t = el_term (sh_election sh)) \<and> (\<not> ok \<longrightarrow> sh' = sh) \<and> sh_commit sh \<le> sh_commit sh' \<and>
    (sh_commit sh' \<noteq> sh_commit sh \<longrightarrow>
      el_term_start_lsn (sh_election sh) \<le> sh_commit sh' \<and>
      2 \<le> length (filter (\<lambda>p. sh_commit sh' \<le> p_flush p) (sh_peers sh')))"
  using store_ack_commit [OF assms] by blast

theorem acknowledgement_commits_on_quorum_witness:
  "2 \<le> length (filter (\<lambda>p. 59 \<le> p_flush p) (sh_peers (snd (store_ack led_shared 1 1 59))))"
proof -
  have "sh_commit (snd (store_ack led_shared 1 1 59)) = 59"
    by (simp add: led_fields store_ack_def recompute_commit_at_def set_peer_def quorum_commit_def QUORUM_def Let_def)
  then show ?thesis
    using acknowledgement_commits_on_quorum [OF led_wf, of 1 1 59, OF prod.collapse [symmetric]] by (simp add: led_fields)
qed

text \<open>
  C11. Submitting a record appends exactly its encoding: the record gets the old log head as its
  position, the returned position is the new head, the bytes fit in one append message, they
  decode to the record that was submitted, and the log stays well formed.
\<close>

theorem submit_appends_record:
  assumes "shared_wf sh" and "submit crc sh kind key seq body = (Inr e, sh')"
    and "lb_head (sh_log sh) < 2 ^ 64" "seq < 2 ^ 64" "utf8_valid key" "kind = RECORD_FRAME \<or> kind = RECORD_WATERMARK"
  shows "shared_wf sh' \<and> e = lb_head (sh_log sh') \<and>
    (\<exists>fb. rm_bytes (lb_records (sh_log sh')) = rm_bytes (lb_records (sh_log sh)) @ fb \<and>
      e = lb_head (sh_log sh) + length fb \<and> length fb + APPEND_MESSAGE_HEADROOM \<le> MAX_MESSAGE_BYTES \<and>
      decode_records crc fb (lb_head (sh_log sh)) =
        Inr [\<lparr>r_lsn = lb_head (sh_log sh), r_kind = kind, r_table_key = key, r_seq = seq, r_body = body\<rparr>])"
  using assms by (rule submit_ok)

theorem submit_appends_record_witness:
  "shared_wf (snd (submit (\<lambda>_. 0) led_shared RECORD_FRAME [] 2 [9]))"
proof -
  have "fst (submit (\<lambda>_. 0) led_shared RECORD_FRAME [] 2 [9]) = Inr 89"
    by (simp add: led_fields submit_def record_encode_def frame_bytes_def check_frame_len_def
        record_payload_def U32_MAX_def check_record_frame_len_def APPEND_MESSAGE_HEADROOM_def MAX_MESSAGE_BYTES_def Let_def)
  then have "submit (\<lambda>_. 0) led_shared RECORD_FRAME [] 2 [9] = (Inr 89, snd (submit (\<lambda>_. 0) led_shared RECORD_FRAME [] 2 [9]))"
    by (simp add: prod_eq_iff)
  from submit_appends_record [OF led_wf this] show ?thesis by (simp add: led_fields)
qed

text \<open>
  C12. Streaming sends the log as it is: from a record boundary below the head, \<open>next_batch\<close>
  returns at least one whole record and only a contiguous run of whole records, starting exactly
  there, within the message cap.
\<close>

theorem next_batch_sends_whole_records:
  assumes "log_wf log" and "lb_records log = xs @ ys" "rm_chain (lb_base log) xs from"
    and "\<forall>r\<in>set (lb_records log). length (rm_frame r) + APPEND_MESSAGE_HEADROOM \<le> MAX_MESSAGE_BYTES"
    and "from < lb_head log"
  shows "\<exists>zs us. ys = zs @ us \<and> zs \<noteq> [] \<and>
     next_batch log from = Data from (from + length (rm_bytes zs)) (rm_bytes zs) \<and>
     length (rm_bytes zs) + APPEND_MESSAGE_HEADROOM \<le> MAX_MESSAGE_BYTES"
  using assms by (rule next_batch_data)

theorem next_batch_sends_whole_records_witness:
  "\<exists>e bs. next_batch (sh_log led_shared) 30 = Data 30 e bs"
  using next_batch_sends_whole_records [OF led_log_wf(1), of "[lb_records (sh_log led_shared) ! 0]"
      "[lb_records (sh_log led_shared) ! 1]" 30] one_record_ok(3) wm_record_ok(2)
  by (auto simp: led_records led_fields APPEND_MESSAGE_HEADROOM_def MAX_MESSAGE_BYTES_def)

text \<open>
  C13. Dropping the covered prefix never drops the proof of coverage: every record in the prefix
  that \<open>coverable_prefix\<close> releases is superseded by a retained watermark record of its table
  beyond the prefix, with a sequence number at least the record's.
\<close>

theorem covered_prefix_keeps_watermarks:
  assumes "log_wf log" "wm_wf log" and "coverable_prefix log c = (e, rf)"
    and "r \<in> set (lb_records log)" "rm_end r \<le> e"
  shows "\<exists>w\<in>set (lb_records log). e < rm_end w \<and> is_wm (rm_table_key r) w \<and>
     (rm_kind r = RECORD_FRAME \<longrightarrow> rm_seq r \<le> covered_of log (rm_table_key r) \<and> rm_seq r \<le> rm_seq w) \<and>
     (rm_kind r = RECORD_WATERMARK \<longrightarrow> rm_start r < rm_start w)"
  using assms by (rule coverable_keeps_watermark)

theorem covered_prefix_keeps_watermarks_witness: "\<exists>w\<in>set (lb_records (sh_log led_shared)). 30 < rm_end w \<and> is_wm [] w"
  using covered_prefix_keeps_watermarks [OF led_log_wf led_coverable, of "lb_records (sh_log led_shared) ! 0"]
  by (auto simp: led_records)

text \<open>
  C14. The horizon is safe to publish: it never goes back, it stays at or below the commit position
  and the coverable prefix whenever it moves, and the records it removes from the server's log
  are flushed on every acceptor that is still in the set.
\<close>

theorem horizon_is_safe:
  assumes "shared_wf sh" and "advance_horizon_locked sh = (rf, sh')"
  shows "shared_wf sh' \<and> sh_horizon sh \<le> sh_horizon sh' \<and>
    (sh_horizon sh' \<noteq> sh_horizon sh \<longrightarrow> sh_horizon sh' \<le> sh_commit sh \<and>
       sh_horizon sh' \<le> fst (coverable_prefix (sh_log sh) (sh_commit sh))) \<and>
    (\<exists>xs. lb_records (sh_log sh) = xs @ lb_records (sh_log sh') \<and>
       (\<forall>x\<in>set xs. \<forall>p\<in>set (sh_peers sh'). \<not> p_failed p \<longrightarrow> rm_end x \<le> p_flush p))"
  using advance_horizon_ok [OF assms] by blast

theorem horizon_is_safe_witness: "shared_wf (snd (advance_horizon_locked led_shared))"
  using horizon_is_safe [OF led_wf prod.collapse [symmetric]] by blast

text \<open>
  C15. Lagging acceptors are expelled, and the loop ends: afterwards every acceptor still in the
  set has flushed up to the drop position, which is within the allowed lag of the horizon or is
  the horizon itself; no flush position is changed.
\<close>

theorem expelling_bounds_the_lag:
  assumes "expel_loop ps h = (ps', d)"
  shows "d \<le> h \<and> length ps' = length ps \<and> map p_flush ps' = map p_flush ps \<and>
   (\<forall>p\<in>set ps'. \<not> p_failed p \<longrightarrow> d \<le> p_flush p) \<and> (h - d \<le> MAX_PEER_LAG_BYTES \<or> d = h)"
  using assms by (rule expel_loop_spec)

theorem expelling_bounds_the_lag_witness: "snd (expel_loop (sh_peers led_shared) 59) \<le> 59"
  using expelling_bounds_the_lag [OF prod.collapse [symmetric]] by blast

section \<open>Recovery\<close>

text \<open>
  C16. The chunked recovery read returns the requested range and ends, whatever the chunk size:
  against a donor that answers each read with its log bytes, the download from \<open>pos\<close> up to the
  term's start is that slice of the donor's log.
\<close>

theorem recovery_read_downloads_range:
  assumes "\<And>a b. lo \<le> a \<Longrightarrow> a < b \<Longrightarrow> b \<le> lo + length log \<Longrightarrow>
      rd a b = Inr (ReadResp a (take (b - a) (drop (a - lo) log)))"
    and "lo \<le> pos" "pos \<le> ts" "ts \<le> lo + length log" "0 < chunk"
  shows "recovery_read rd chunk ts pos [] = Inr (take (ts - pos) (drop (pos - lo) log))"
  using recovery_read_slice [OF assms, of "[]"] by simp

theorem recovery_read_downloads_range_witness:
  "recovery_read (\<lambda>a b. Inr (ReadResp a (take (b - a) (drop (a - 10) [1, 2, 3, 4, 5])))) 2 14 11 [] = Inr [2, 3, 4]"
  using recovery_read_downloads_range [of 10 "[1, 2, 3, 4, 5]" _ 11 14 2] by simp

section \<open>Codecs\<close>

text \<open>
  C17. Record streams round-trip: records that fit their encoded widths and are laid out
  contiguously from a position decode, at that position, to themselves.
\<close>

theorem records_roundtrip:
  assumes "\<forall>r\<in>set rs. record_wf r" "contiguous pos rs"
  shows "decode_records crc (records_bytes crc rs) pos = Inr rs"
  using assms by (rule decode_records_records_bytes)

theorem records_roundtrip_witness:
  "decode_records (\<lambda>_. 0) (records_bytes (\<lambda>_. 0) [one_record, wm_record]) 0 = Inr [one_record, wm_record]"
  by (rule records_roundtrip)
     (use one_record_ok wm_record_ok in \<open>simp_all add: wm_record_def\<close>)

text \<open>
  C18. Messages round-trip on the wire: a message whose integers fit 64 bits and whose encoding is
  within the cap is read back, whatever follows it on the stream.  The JSON printer and parser
  are parameters; the hypothesis is that parsing the printed header gives the same field lookups.
\<close>

theorem message_roundtrip:
  assumes "message_wf m" "encode crc to_vec m = Inr bs"
    and "\<And>h. to_vec (fst (header_and_payload m)) = Inr h \<Longrightarrow>
       \<exists>v'. from_slice h = Some v' \<and> same_lookups v' (fst (header_and_payload m))"
  shows "read_message crc from_slice (bs @ later) = Inr (m, later)"
  using assms by (rule read_message_encode)

theorem message_roundtrip_witness:
  "\<exists>bs. encode (\<lambda>_. 0) (\<lambda>_. Inr [1]) (VoteRequest 5) = Inr bs \<and>
     read_message (\<lambda>_. 0) (\<lambda>_. Some (fst (header_and_payload (VoteRequest 5)))) (bs @ [9]) = Inr (VoteRequest 5, [9])"
proof -
  obtain bs where e: "encode (\<lambda>_. 0) (\<lambda>_. Inr [1]) (VoteRequest 5) = Inr bs"
    by (simp add: encode_def rbind_def MAX_MESSAGE_BYTES_def Let_def)
  have "read_message (\<lambda>_. 0) (\<lambda>_. Some (fst (header_and_payload (VoteRequest 5)))) (bs @ [9]) = Inr (VoteRequest 5, [9])"
    by (rule message_roundtrip [OF _ e]) (simp_all add: same_lookups_def)
  with e show ?thesis by blast
qed

text \<open>
  C19. Reading a message is bounded: a frame whose declared length is beyond the cap is refused, so
  a message that is read consumed its eight-byte header and at most the cap.
\<close>

theorem message_read_is_bounded:
  assumes "read_message crc from_slice s = Inr (m, s')"
  shows "\<exists>len\<le>MAX_MESSAGE_BYTES. length s = 8 + len + length s'"
  using assms by (rule read_message_cap)

theorem message_read_is_bounded_witness:
  "\<exists>bs. encode (\<lambda>_. 0) (\<lambda>_. Inr [1]) (VoteRequest 5) = Inr bs \<and> (\<exists>len\<le>MAX_MESSAGE_BYTES. length (bs @ [9]) = 8 + len + 1)"
proof -
  obtain bs where e: "encode (\<lambda>_. 0) (\<lambda>_. Inr [1]) (VoteRequest 5) = Inr bs"
    by (simp add: encode_def rbind_def MAX_MESSAGE_BYTES_def Let_def)
  have "read_message (\<lambda>_. 0) (\<lambda>_. Some (fst (header_and_payload (VoteRequest 5)))) (bs @ [9]) = Inr (VoteRequest 5, [9])"
    by (rule read_message_encode [OF _ e]) (simp_all add: same_lookups_def)
  from message_read_is_bounded [OF this] e show ?thesis by auto
qed

section \<open>The segmented log\<close>

text \<open>
  C20. Boot recovers exactly the whole records: a directory of contiguous segment files whose newest
  one may end in a torn record opens as the log of all whole records, in order and contiguous,
  and satisfies the log's invariant.
\<close>

theorem boot_recovers_whole_records:
  assumes "rec_dir crc a fs b" and "\<forall>r\<in>set rs. record_wf r" "contiguous b rs"
    and "length p \<le> U32_MAX" "k < length (frame crc p)"
  shows "\<exists>w. segment_wal_open io_ok crc
        (map (rec_file crc) fs @ [(b, records_bytes crc rs @ take k (frame crc p))]) = Inr w \<and>
      sw_inv w \<and> sw_flush w = b + length (records_bytes crc rs) \<and>
      sw_lo w = (if fs = [] \<and> rs = [] then b else a) \<and>
      sw_content w = concat (map (\<lambda>f. records_bytes crc (snd f)) fs) @ records_bytes crc rs"
  using assms by (rule segment_wal_open_recovers)

theorem boot_recovers_whole_records_witness:
  "\<exists>w. segment_wal_open io_ok (\<lambda>_. 0)
      [(0, records_bytes (\<lambda>_. 0) [one_record]), (30, records_bytes (\<lambda>_. 0) [wm_record] @ take 3 (frame (\<lambda>_. 0) []))] = Inr w \<and>
    sw_flush w = 59"
proof -
  have l: "length (records_bytes (\<lambda>_. 0) [wm_record]) = 29" using wm_record_ok(2) by simp
  have d: "rec_dir (\<lambda>_. 0) 0 [(0, [one_record])] 30"
    using one_record_ok one_record_bytes(1) by (simp del: records_bytes_Cons)
  have "contiguous 30 [wm_record]" by (simp add: wm_record_def)
  from boot_recovers_whole_records [OF d _ this, of "[]" 3] wm_record_ok(1) show ?thesis
    by (auto simp: U32_MAX_def rec_file_def l simp del: records_bytes_Cons)
qed

section \<open>The leader lease\<close>

text \<open>
  C21. The expiry tracker is exact: over any sequence of poll rounds in time order, it reports
  expiry iff at least two acceptors answered the last round and showed, at least the time to live
  ago, an answer that no later answer differs from.
\<close>

theorem lease_expiry_exact:
  assumes "\<forall>r\<in>set rounds. length (snd r) = n" "sorted (map fst rounds)"
  shows "expired (tracker_of n ttl rounds) now \<longleftrightarrow>
    QUORUM \<le> length (filter (\<lambda>i. witness_frozen ttl now (polls_of rounds i)) [0..<n])"
  using assms by (rule expired_iff_frozen_quorum)

theorem lease_expiry_exact_witness:
  "QUORUM \<le> length (filter (\<lambda>i. witness_frozen 5 9 (polls_of still_rounds i)) [0..<3])"
proof -
  have "expired (tracker_of 3 5 still_rounds) 9"
    by (simp add: still_rounds_def tracker_of_def poll_acceptors_def tracker_new_def expired_def observe_def
        observe_unreachable_def somes_def QUORUM_def Let_def numeral_3_eq_3)
  then show ?thesis using lease_expiry_exact [of still_rounds 3 5 9] by (simp add: still_rounds_def)
qed

text \<open>
  C22. A standby campaigns only after silence: in any run of the lease loop, it leaves standby to
  acquire the lease only when a quorum of acceptors answered the last poll with an untouched log,
  or a quorum has been seen frozen for the time to live since the tracker was last reset.
\<close>

theorem lease_campaign_after_silence:
  assumes "lease_run (lease_init cfg) es = Some s" and "\<forall>e\<in>set es. answers_all (length (lc_addrs cfg)) e"
    and "lease_step s (Poll False answers polled now) = Some s'" and "ls_phase s' = Acquiring"
    and "length answers = length (lc_addrs cfg)" and "sorted (map fst (lease_rounds es @ [(polled, answers)]))"
  shows "QUORUM \<le> length (filter (\<lambda>i. witness_virgin (polls_of (lease_rounds es @ [(polled, answers)]) i)) [0..<length (lc_addrs cfg)]) \<or>
    QUORUM \<le> length (filter (\<lambda>i. witness_frozen (lc_ttl cfg) now (polls_of (lease_rounds es @ [(polled, answers)]) i)) [0..<length (lc_addrs cfg)])"
  using assms by (rule campaign_only_after_silence)

theorem lease_campaign_after_silence_witness:
  "QUORUM \<le> length (filter (\<lambda>i. witness_virgin (polls_of [(7, [Some (GreetingResp None 0 0), Some (GreetingResp None 0 0), None])] i)) [0..<3]) \<or>
   QUORUM \<le> length (filter (\<lambda>i. witness_frozen 5 7 (polls_of [(7, [Some (GreetingResp None 0 0), Some (GreetingResp None 0 0), None])] i)) [0..<3])"
proof -
  let ?a = "[Some (GreetingResp None 0 0), Some (GreetingResp None 0 0), None]"
  let ?tr = "poll_acceptors ?a 7 (tracker_new 3 5)"
  have "virgin ?tr"
    by (simp add: poll_acceptors_def tracker_new_def virgin_def observe_def observe_unreachable_def somes_def QUORUM_def
        Let_def numeral_3_eq_3)
  then have "lease_step (lease_init lease_cfg) (Poll False ?a 7 7) =
      Some ((lease_init lease_cfg)\<lparr>ls_tracker := ?tr, ls_phase := Acquiring\<rparr>)"
    by (simp add: lease_init_def lease_cfg_def Let_def numeral_3_eq_3)
  from lease_campaign_after_silence [of lease_cfg "[]", OF _ _ this] show ?thesis
    by (simp add: lease_cfg_def lease_rounds_def numeral_3_eq_3)
qed

text \<open>
  C23. Leadership is held exactly while a lease is: in any run of the loop, the leadership watch is
  true iff the loop holds a lease, and a renewal that fails takes it back at once, returns to
  standby through the backoff and forgets every old observation.
\<close>

theorem lease_leadership_exact:
  assumes "lease_run (lease_init cfg) es = Some s" "\<forall>e\<in>set es. answers_all (length (lc_addrs cfg)) e"
  shows "(ls_leader s \<longleftrightarrow> (\<exists>l. ls_phase s = Leader l)) \<and>
    (ls_leader s \<longrightarrow> (\<exists>s1. lease_step s (Renewed False (Inl e, l)) = Some s1 \<and> \<not> ls_leader s1 \<and> ls_phase s1 = Backoff \<and>
       et_seen (ls_tracker s1) = replicate (length (et_seen (ls_tracker s))) None))"
  using assms by (rule leader_iff_lease)

theorem lease_leadership_exact_witness:
  "lease_run (lease_init lease_cfg) lease_events = Some leading_state \<and> ls_leader leading_state \<and>
   (\<exists>s1. lease_step leading_state (Renewed False (Inl ''quorum lost'', held)) = Some s1 \<and> \<not> ls_leader s1 \<and>
      ls_phase s1 = Backoff \<and> et_seen (ls_tracker s1) = [None, None, None])"
  using lease_leadership_exact [OF lease_events_run, of "''quorum lost''" held] lease_events_run(1)
  by (simp add: leading_state_def)

text \<open>
  C24. A renewal succeeds only on a committed record: its holder record was submitted at the next
  sequence number, and the wait returned with the quorum commit position at or beyond the
  record's end and the proposer not poisoned.
\<close>

theorem lease_renewal_is_committed:
  assumes "renew crc body aw l = (Some (Inr u), l')"
  shows "\<exists>end_lsn sh sh1. submit crc (hl_quorum l) RECORD_FRAME LEASE_TABLE_KEY (hl_seq l + 1) body = (Inr end_lsn, sh) \<and>
    wait_commit (fst aw) sh end_lsn False = (Some (Inr ()), sh1) \<and> end_lsn \<le> sh_commit sh1 \<and> sh_poison sh1 = None \<and>
    hl_seq l' = hl_seq l + 1"
  using assms by (rule renew_committed)

theorem lease_renewal_is_committed_witness:
  "\<exists>end_lsn sh. submit (\<lambda>_. 0) (hl_quorum held) RECORD_FRAME LEASE_TABLE_KEY 5 [] = (Inr end_lsn, sh)"
proof -
  have "fst (renew (\<lambda>_. 0) [] ([], []) held) = Some (Inr ())"
    by (simp add: held_def renew_def append_holder_record_def submit_def record_encode_def frame_bytes_def check_frame_len_def
        record_payload_def U32_MAX_def check_record_frame_len_def APPEND_MESSAGE_HEADROOM_def MAX_MESSAGE_BYTES_def
        LEASE_TABLE_KEY_def led_fields wait_commit.simps note_covered_def advance_horizon_locked_def coverable_prefix_def
        led_records coverable_def covered_of_def RECORD_FRAME_def RECORD_WATERMARK_def WATERMARK_REFRESH_SLACK_def
        WATERMARK_EVERY_def Let_def split: prod.splits)
  then have "renew (\<lambda>_. 0) [] ([], []) held = (Some (Inr ()), snd (renew (\<lambda>_. 0) [] ([], []) held))"
    by (metis prod.collapse)
  from lease_renewal_is_committed [OF this] show ?thesis by (auto simp: held_def)
qed

text \<open>
  C25. The lease never shares an acceptor with the data log: accepted addresses are exactly three,
  none is empty, and none equals or resolves to an address of the data quorum.
\<close>

theorem lease_acceptors_dedicated:
  assumes "parse_lease_addrs resolve spec data = Inr addrs"
  shows "length addrs = 3 \<and> [] \<notin> set addrs \<and>
    (\<forall>d. data = Some d \<longrightarrow> (\<forall>a\<in>set addrs. \<forall>b\<in>set (split_addrs d). a \<noteq> b \<and> set (resolve a) \<inter> set (resolve b) = {}))"
  using assms by (rule lease_addrs_dedicated)

theorem lease_acceptors_dedicated_witness:
  "length [''a:1'', ''b:1'', ''c:1''] = 3 \<and> set [''a:1''] \<inter> set [''d:1''] = {}"
proof -
  have "parse_lease_addrs (\<lambda>s. [s]) ''a:1, b:1,c:1,'' (Some ''d:1'') = Inr [''a:1'', ''b:1'', ''c:1'']"
    by (simp add: parse_lease_addrs_def split_addrs_def aliased_def trim_def is_whitespace_def LEASE_QUORUM_SIZE_def QUORUM_SIZE_def Let_def)
  from lease_acceptors_dedicated [OF this] show ?thesis
    by (simp add: split_addrs_def trim_def is_whitespace_def Let_def)
qed

section \<open>The local tail\<close>

text \<open>
  C26. Table keys never collide: two table identifiers with the same key are the same, however dots,
  percent signs and slashes are spread over their components.
\<close>

theorem table_keys_never_collide:
  assumes "table_dir_name i = Inr k" "table_dir_name j = Inr k"
  shows "i = j"
  using assms by (rule table_keys_distinct)

theorem table_keys_never_collide_witness:
  "table_dir_name \<lparr>ti_namespace = [[0x61]], ti_name = [0x62, 0x2E, 0x63]\<rparr> \<noteq>
   table_dir_name \<lparr>ti_namespace = [[0x61], [0x62]], ti_name = [0x63]\<rparr>"
proof
  assume e: "table_dir_name \<lparr>ti_namespace = [[0x61]], ti_name = [0x62, 0x2E, 0x63]\<rparr> =
   table_dir_name \<lparr>ti_namespace = [[0x61], [0x62]], ti_name = [0x63]\<rparr>"
  have "table_dir_name \<lparr>ti_namespace = [[0x61], [0x62]], ti_name = [0x63]\<rparr> = Inr [0x61, 0x2E, 0x62, 0x2E, 0x63]"
    by (simp add: table_dir_name_def)
  from table_keys_never_collide [OF e [unfolded this] this] show False by simp
qed

text \<open>
  C27. Acknowledged frames of the local tail survive a crash.  Take any run of one table's tail in which
  a failed write or sync is rolled back and released files are removed (\<open>tidy\<close>), and crash it
  anywhere: every file keeps what was synced and any part of the rest.  Replay succeeds, returns
  staged operations only, each once and in sequence order, and among them every acknowledged one
  above the truncation mark.
\<close>

theorem acknowledged_frames_survive_crash:
  assumes "ipc_inverse ipc unipc" "tail_run crc ipc fresh_table es = Some tw" "\<forall>e\<in>set es. tidy e"
    and "tw_next_seq tw \<le> 2 ^ 64" "\<forall>i. sio_cut io i"
  shows "\<exists>st. scan_table io crc unipc (crash_dir torn tw) = Inr st \<and>
    set (ts_frames st) \<subseteq> set (run_staged crc ipc fresh_table es) \<and>
    sorted_wrt (<) (map fst (ts_frames st)) \<and> sorted_wrt (<) (map fst (run_staged crc ipc fresh_table es)) \<and>
    (\<forall>v\<in>set (tw_acked tw). tw_trunc tw < fst v \<longrightarrow> fst v \<in> fst ` set (ts_frames st))"
  using assms(5) by (intro crash_keeps_acked [OF assms(1-4)]) blast

theorem acknowledged_frames_survive_crash_witness:
  "\<exists>tw st. tail_run (\<lambda>_. 0) raw_ipc fresh_table tail_events = Some tw \<and>
     scan_table all_io (\<lambda>_. 0) one_batch (crash_dir (\<lambda>_. 25) tw) = Inr st \<and> (1, OpAppend [7]) \<in> set (ts_frames st)"
proof -
  obtain tw where tw: "tail_run (\<lambda>_. 0) raw_ipc fresh_table tail_events = Some tw" "tw_acked tw = [(1, 1, 19)]"
    "tw_next_seq tw = 3" "tw_trunc tw = 0" using tail_events_run(1) by blast
  have t: "\<forall>e\<in>set tail_events. tidy e" "\<forall>i. sio_cut all_io i" by (simp_all add: tail_events_def ok_io_def all_io_def)
  from acknowledged_frames_survive_crash [OF raw_ipc_inverse tw(1) t(1) _ t(2), of "\<lambda>_. 25"] tw(2-4) obtain st
    where st: "scan_table all_io (\<lambda>_. 0) one_batch (crash_dir (\<lambda>_. 25) tw) = Inr st"
      "set (ts_frames st) \<subseteq> {(1, OpAppend [7]), (2, OpDelete [8])}" "1 \<in> fst ` set (ts_frames st)"
    by (auto simp: tail_events_run(2))
  then have "(1, OpAppend [7]) \<in> set (ts_frames st)" by (auto simp: image_iff)
  then show ?thesis using tw(1) st(1) by blast
qed

text \<open>
  C28. The local tail never gives a sequence number twice, whatever fails: in any run of a table's tail
  the numbers of the staged operations increase and lie between the next numbers before and after.
\<close>

theorem local_sequence_never_reused:
  assumes "tail_run crc ipc tw es = Some tw'"
  shows "sorted_wrt (<) (map fst (run_staged crc ipc tw es)) \<and>
    (\<forall>n\<in>set (map fst (run_staged crc ipc tw es)). tw_next_seq tw \<le> n \<and> n < tw_next_seq tw')"
  using lt.numbers_ascend [of crc ipc tw es tw'] assms unfolding lt_run_eq lt_numbers_eq by blast

theorem local_sequence_never_reused_witness: "sorted_wrt (<) (map fst [(1 :: nat, OpAppend [7 :: byte]), (2, OpDelete [8])])"
  using tail_events_run(1) local_sequence_never_reused [of "\<lambda>_. 0" raw_ipc fresh_table tail_events]
  unfolding tail_events_run(2) by blast

section \<open>The quorum tail\<close>

text \<open>
  C29. The quorum tail never gives a sequence number of a table twice, whatever jobs fail, and whether
  the worker lives or not.
\<close>

theorem quorum_sequence_never_reused:
  assumes "quorum_run crc ipc qt es = Some qt'"
  shows "let given = map (\<lambda>x. fst (snd x)) (filter (\<lambda>x. fst x = t) (quorum_staged crc ipc qt es)) in
    sorted_wrt (<) given \<and> (\<forall>n\<in>set given. next_seq_of qt t \<le> n \<and> n < next_seq_of qt' t)"
  using qs.numbers_ascend [where crc = crc and ipc = ipc and t = t and s = qt and es = es] assms unfolding qs_run_eq qs_numbers_eq Let_def by blast

theorem quorum_sequence_never_reused_witness:
  "\<exists>qt. quorum_run (\<lambda>_. 0) raw_ipc (open_tail ident_of_parts opened []) quorum_events = Some qt \<and> 2 < next_seq_of qt some_table"
  using quorum_events_run(1) quorum_sequence_never_reused [of "\<lambda>_. 0" raw_ipc "open_tail ident_of_parts opened []" quorum_events _ some_table]
  unfolding quorum_events_run(2) by (auto simp: Let_def)

text \<open>
  C30. The quorum tail's log replays in order and without duplicates.  Open the tail on recovered
  records in sequence order, run it with any interleaving of statements, jobs, truncations, floors
  and proposer tasks that do not add records: what the proposer's log then holds replays, per table,
  in strictly increasing sequence order, and every replayed operation was recovered or staged.
\<close>

theorem quorum_log_replays_once:
  assumes "ipc_inverse ipc unipc" "open_shared crc tid term h base start recovered = Inr sh"
    and "canonical from_strs recovered" "in_order recovered" "\<forall>r\<in>set recovered. well_kept from_strs unipc r"
    and "quorum_run crc ipc (open_tail from_strs sh recovered) es = Some qt"
    and "\<forall>e\<in>set es. keeps_records e \<and> stages_legal from_strs e"
  shows "\<exists>recs out. list_all2 (holds crc) (lb_records (sh_log (wk_sh (qt_worker qt)))) recs \<and>
    quorum_replay from_strs unipc recs = Inr out \<and>
    (\<forall>e\<in>set out. sorted_wrt (<) (map fst (rt_frames e)) \<and>
       (\<forall>f\<in>set (rt_frames e). (rt_ident e, f) \<in> set (ops_in from_strs unipc recovered) \<union>
          set (quorum_staged crc ipc (open_tail from_strs sh recovered) es)))"
  using assms by (rule quorum_log_replays)

theorem quorum_log_replays_once_witness:
  "\<exists>qt recs out. quorum_run (\<lambda>_. 0) raw_ipc (open_tail ident_of_parts opened []) quorum_events = Some qt \<and>
     list_all2 (holds (\<lambda>_. 0)) (lb_records (sh_log (wk_sh (qt_worker qt)))) recs \<and>
     quorum_replay ident_of_parts one_batch recs = Inr out"
proof -
  obtain qt where qt: "quorum_run (\<lambda>_. 0) raw_ipc (open_tail ident_of_parts opened []) quorum_events = Some qt"
    using quorum_events_run(1) by blast
  have l: "legal ident_of_parts some_table [0x61, 0x2E, 0x62]"
    by (simp add: legal_def some_table_def table_dir_name_def parse_table_dir_name_def ident_of_parts_def)
  have e: "\<forall>e\<in>set quorum_events. keeps_records e \<and> stages_legal ident_of_parts e" using l by (auto simp: quorum_events_def)
  show ?thesis
    using quorum_log_replays_once [OF raw_ipc_inverse opened_eq _ _ _ qt e] qt by (auto simp: canonical_def in_order_def)
qed

section \<open>The write buffer\<close>

text \<open>
  C31. A scan sees the buffer as if it had been flushed.  Whatever generations the scan's metadata
  already contains, the committed rows under the overlay are exactly the committed rows with every
  other generation and the pending layer committed on top, one after the other, each as an append, a
  delete of its keys and an append of its upserts.
\<close>

theorem union_read_commits_layers:
  assumes "buffer_ok (key pk) pk tb" "pk_ok pk"
  shows "\<exists>ov. fst (overlay_with key pk_ok seen tb) = Inr ov \<and>
    union_read key committed ov = fold (layer_apply (key pk)) (overlay_layers seen tb) committed"
  using assms by (rule overlay_eq)

theorem union_read_commits_layers_witness:
  "\<exists>ov. fst (overlay_with digit_key (\<lambda>_. True) (\<lambda>_. False) busy_buf) = Inr ov \<and> union_read digit_key [3, 5] ov = [5, 4, 13]"
  using union_read_commits_layers [of digit_key "[''id'']" busy_buf "\<lambda>_. True" "\<lambda>_. False" "[3, 5]"] busy_ok busy_layers by simp

text \<open>
  C32. An acknowledged statement is visible at once, whole, and only then.  A statement that the buffer
  takes changes the answer of every scan, whatever the scan's metadata, in the same way: an insert
  replaces the row of a key that has a buffered entry and adds every other row, a keyed statement
  replaces what is there for its key.  A statement that the buffer refuses changes no answer.  The
  buffer stays well formed.
\<close>

theorem buffered_statement_is_visible:
  assumes "buffer_ok (key pk) pk tb" "pk_ok pk" "stmt_ok (key pk) st" "buf_execute key pk_ok pk tb st = (r, tb')"
  shows "buffer_ok (key pk) pk tb' \<and>
    scan_rows key pk_ok seen tb' committed =
      rbind (scan_rows key pk_ok seen tb committed)
        (\<lambda>A. Inr (case r of Inl e \<Rightarrow> A | Inr x \<Rightarrow> stmt_effect (key pk) (buffered_keys tb) st A))"
  using assms by (rule executed_scan)

theorem buffered_statement_is_visible_witness:
  "scan_rows digit_key (\<lambda>_. True) (\<lambda>_. False) inserted_buf [3, 5] = Inr {#4, 5, 6, 23#}"
proof -
  obtain x where x: "buf_execute digit_key (\<lambda>_. True) [''id''] busy_buf later_insert = (Inr x, inserted_buf)" using inserted_ok by blast
  show ?thesis
    using buffered_statement_is_visible [of digit_key "[''id'']" busy_buf "\<lambda>_. True" later_insert, OF busy_ok _ later_ok x] busy_scan busy_effect
    by (simp add: rbind_def)
qed

text \<open>
  C33. A flush is invisible.  Between the snapshot of a flush and its end any statements may run.  Moving
  the snapshot to a generation then changes no scan: a scan whose metadata does not contain the commit
  reads the generation from the buffer, and a scan whose metadata contains it and all earlier ones, on
  rows to which the snapshot's layer has been committed, reads the same rows as before.
\<close>

theorem flush_is_invisible:
  assumes "buffer_ok (key pk) pk tb" "pk_ok pk" "snapshot_pending tb = (sn, tb1)" "\<forall>st\<in>set sts. stmt_ok (key pk) st"
    and "tb2 = execute_all key pk_ok pk sts tb1"
    and "tb3 = move_pending_to_flushed_gen now (length (sn_batches sn)) (sn_keyed sn) c tb2"
  shows "(\<not> seen c \<longrightarrow> scan_rows key pk_ok seen tb3 committed = scan_rows key pk_ok seen tb2 committed) \<and>
    ((\<forall>g\<in>set (tb_flushed tb3). seen' (fg_commit g)) \<longrightarrow>
      mset committed' = mset (layer_apply (key pk) (snap_layer sn) (gens_applied (key pk) seen tb2 committed)) \<longrightarrow>
      scan_rows key pk_ok seen' tb3 committed' = scan_rows key pk_ok seen tb2 committed)"
  using assms by (intro flushed_scan)

theorem flush_is_invisible_witness:
  "scan_rows digit_key (\<lambda>_. True) (\<lambda>_. True)
     (move_pending_to_flushed_gen 0 1 (sn_keyed busy_snapshot) (Snapshot 7) (execute_all digit_key (\<lambda>_. True) [''id''] [later_insert] claimed_buf)) [5, 4, 13] =
   scan_rows digit_key (\<lambda>_. True) (\<lambda>_. False) (execute_all digit_key (\<lambda>_. True) [''id''] [later_insert] claimed_buf) [3, 5]"
proof -
  let ?tb = "execute_all digit_key (\<lambda>_. True) [''id''] [later_insert] claimed_buf"
  have n: "length (sn_batches busy_snapshot) = 1" by (simp add: busy_snapshot_def snapshot_pending_def busy_buf_def)
  have g: "layer_apply (digit_key [''id'']) (snap_layer busy_snapshot) (gens_applied (digit_key [''id'']) (\<lambda>_. False) ?tb [3, 5]) = [5, 4, 13]"
    by (simp add: claimed_gens busy_layer)
  show ?thesis
    using flush_is_invisible [of digit_key "[''id'']" busy_buf "\<lambda>_. True" _ _ "[later_insert]" ?tb
        "move_pending_to_flushed_gen 0 1 (sn_keyed busy_snapshot) (Snapshot 7) ?tb" 0 "Snapshot 7" "\<lambda>_. False" "[3, 5]" "\<lambda>_. True" "[5, 4, 13]",
        OF busy_ok _ busy_snap] n g later_ok by simp
qed

section \<open>Commits to the lake\<close>



text \<open>
  C35. An autocommit statement is atomic under concurrency.  Between its load and its post other clients
  may commit anything, and it retries.  When it reports a snapshot, exactly one state change of the
  catalog is its own, and that change is the statement run on the head of the branch at that very
  moment, with the reported number of rows; other branches and tables stay as they are.  When it
  reports no match or loses the race, it has changed nothing.  Only after a failed post is it open
  whether it took effect, and then it took effect whole or not at all.
\<close>

theorem autocommit_statement_is_atomic:
  assumes "catalog_sound ct hist" "client_sound cl hit upd (table_states hist ([ds_namespace stmt], ds_table stmt)) [TDml stmt]" "execute ct oe cl stmt ew = (r, ew')"
  shows "\<exists>new. hist (ew_catalog ew') = hist (ew_catalog ew) @ new \<and>
    (let took = (\<lambda>counts sid. landed (applies hit upd (oe_branch oe) ([ds_namespace stmt], ds_table stmt) [TDml stmt] counts sid)
                   (hist (ew_catalog ew)) new) in
     case r of
       Inl e \<Rightarrow> quiet new \<or> ambiguous e \<and> (\<exists>counts sid. took counts sid)
     | Inr out \<Rightarrow> (case do_snapshot_id out of None \<Rightarrow> quiet new \<and> do_rows out = 0 | Some sid \<Rightarrow> took [do_rows out] sid))"
  using ex.loop_has_effect [OF assms(1,2), of oe ew "[1..<MAX_COMMIT_ATTEMPTS + 1]"]
  unfolding assms(3) [unfolded execute_def] has_effect_def statement_effect_def Let_def fst_conv snd_conv .

theorem autocommit_statement_is_atomic_witness:
  "\<exists>out. execute small_catalog small_engine small_client even_delete small_world = (Inr out, small_world\<lparr>ew_catalog := 1\<rparr>) \<and>
     applies all_even no_update ''main'' the_table [TDml even_delete] [do_rows out] 5 [the_table \<mapsto> first_meta] [the_table \<mapsto> after_meta]"
proof -
  have i: "([ds_namespace even_delete], ds_table even_delete) = the_table" by (simp add: even_delete_def)
  obtain new where n: "small_history 1 = small_history 0 @ new"
    "landed (applies all_even no_update ''main'' the_table [TDml even_delete] [pc_rows_by_op even_commit ! 0] 5) (small_history 0) new"
    using autocommit_statement_is_atomic [OF small_sound small_client_sound small_run] unfolding i
    by (auto simp: small_world_def small_engine_def)
  then have "new = [(True, [the_table \<mapsto> after_meta])]" by (simp add: once_history_def)
  then show ?thesis using n(2) small_run
    by (auto simp: landed_def latest_def once_history_def Cons_eq_append_conv)
qed

text \<open>
  C36. A transaction over several tables is all or nothing.  Each table comes with the head it was
  pinned at and the operations to run on it.  When the commit succeeds, one state change of the catalog
  applies the operations of every table, each on its pinned head, which is still the head of the
  branch at that moment, and leaves every other table alone; a table left out of that change is one
  on which its operations have nothing to do.  When the commit fails nothing has changed, except that
  after a failed post it is open whether that one change was made.
\<close>

theorem multi_table_commit_is_atomic:
  assumes "catalog_sound ct hist" "\<forall>(ident, pin, ops)\<in>set tables. client_sound (cls ident) hit upd (table_states hist ident) ops"
    and "commit_pinned_multi ct oe cls tables ew = (r, ew')"
  shows "\<exists>new. hist (ew_catalog ew') = hist (ew_catalog ew) @ new \<and>
    (let took = (\<lambda>live. landed (pinned_step hit upd (oe_branch oe) live) (hist (ew_catalog ew)) new) in
     case r of
       Inl e \<Rightarrow> quiet new \<or> ambiguous e \<and> (\<exists>live. set live \<subseteq> set tables \<and> live \<noteq> [] \<and> took live)
     | Inr MultiUnsupported \<Rightarrow> quiet new
     | Inr MultiCommitted \<Rightarrow>
         (\<exists>live. set live \<subseteq> set tables \<and>
            (\<forall>t\<in>set tables - set live. nothing_to_do hit upd (oe_branch oe) (hist (ew_catalog ew) @ new) t) \<and>
            (if live = [] then quiet new else took live)))"
  using pinned_multi_effect [OF assms] unfolding transaction_effect_def Let_def .

theorem multi_table_commit_is_atomic_witness:
  "commit_pinned_multi pair_catalog small_engine (\<lambda>_. small_client) small_txn small_world = (Inr MultiCommitted, small_world\<lparr>ew_catalog := 1\<rparr>) \<and>
     pinned_step all_even no_update ''main'' small_txn
       [the_table \<mapsto> first_meta, other_table \<mapsto> first_meta] [the_table \<mapsto> after_meta, other_table \<mapsto> after_meta]"
proof -
  have c: "\<forall>(ident, pin, ops)\<in>set small_txn. client_sound small_client all_even no_update (table_states pair_history ident) ops"
    using small_client_sound by (simp add: small_txn_def)
  obtain new live where n: "pair_history 1 = pair_history 0 @ new" "set live \<subseteq> set small_txn"
    "\<forall>t\<in>set small_txn - set live. nothing_to_do all_even no_update ''main'' (pair_history 0 @ new) t"
    "if live = [] then quiet new else landed (pinned_step all_even no_update ''main'' live) (pair_history 0) new"
    using multi_table_commit_is_atomic [OF pair_sound c small_txn_run] by (auto simp: small_world_def small_engine_def Let_def)
  have new: "new = [(True, [the_table \<mapsto> after_meta, other_table \<mapsto> after_meta])]" using n(1) by (simp add: pair_history_def)
  have "\<not> nothing_to_do all_even no_update ''main'' (pair_history 0 @ new) t" if "t \<in> set small_txn" for t
    using that small_txn_work unfolding n(1) [symmetric] by blast
  then have "set live = set small_txn" using n(2,3) by blast
  moreover from this have "live \<noteq> []" by (auto simp: small_txn_def)
  ultimately have "landed (pinned_step all_even no_update ''main'' small_txn) (pair_history 0) new"
    using n(4) by (simp add: pinned_step_def [abs_def])
  then show ?thesis using small_txn_run by (auto simp: new landed_def latest_def pair_history_def Cons_eq_append_conv)
qed

section \<open>Flushes\<close>



section \<open>Branches\<close>

text \<open>
  C38. A branch of the whole lake is a consistent cut.  On success there is one moment at which \<^verbatim>\<open>main\<close>
  of every branched table is at the reported snapshot and the branch does not exist yet on any of
  them, and one state change that then points the branch of all of them there and alters no other
  reference, snapshot or table.  On failure nothing has changed, except that after a failed post it
  is open whether that one change was made.
\<close>

theorem whole_lake_branch_is_consistent_cut:
  assumes "catalog_sound ct hist" "create_branch_all ct name ew = Some (r, ew')"
  shows "\<exists>new. hist (ew_catalog ew') = hist (ew_catalog ew) @ new \<and>
    (let took = (\<lambda>branched. branched \<noteq> [] \<and> landed (cut_step name branched) (hist (ew_catalog ew)) new) in
     case r of
       Inr (branched, skipped) \<Rightarrow> took branched
     | Inl e \<Rightarrow> quiet new \<or> ambiguous e \<and> (\<exists>branched. took branched))"
  using create_branch_all_effect [OF assms] unfolding branch_all_effect_def Let_def .

theorem whole_lake_branch_is_consistent_cut_witness:
  "create_branch_all (once_catalog first_meta dev_request) ''dev'' small_world = Some (Inr ([(the_table, 1)], []), small_world\<lparr>ew_catalog := 1\<rparr>) \<and>
     cut_step ''dev'' [(the_table, 1)] [the_table \<mapsto> first_meta] [the_table \<mapsto> branched_meta]"
proof -
  obtain new where n: "once_history first_meta branched_meta 1 = once_history first_meta branched_meta 0 @ new"
    "landed (cut_step ''dev'' [(the_table, 1)]) (once_history first_meta branched_meta 0) new"
    using whole_lake_branch_is_consistent_cut [OF dev_sound dev_run] by (auto simp: small_world_def Let_def)
  then have "new = [(True, [the_table \<mapsto> branched_meta])]" by (simp add: once_history_def)
  then show ?thesis using n(2) dev_run by (auto simp: landed_def latest_def once_history_def Cons_eq_append_conv)
qed



text \<open>
  C40. Listing all tables ends.  The walk over nested namespaces asks the catalog for the children of
  every namespace it meets, also of one that the catalog lists below itself.  When the names that the
  catalog ever returns are finitely many, the walk returns, and an error or an answer comes out.
\<close>

theorem namespace_walk_returns:
  assumes "finite N" "\<And>p ew cs ew'. on_catalog (ct_namespaces ct p) ew = (Inr cs, ew') \<Longrightarrow> set cs \<subseteq> N"
  shows "\<exists>res. list_all_tables ct ew = Some res"
  by (rule list_returns [OF assms(1)]) (rule assms(2))

theorem namespace_walk_returns_witness: "\<exists>res. list_all_tables small_catalog small_world = Some res"
proof (rule namespace_walk_returns)
  show "finite {[''demo'']}" by simp
  show "set cs \<subseteq> {[''demo'']}" if "on_catalog (ct_namespaces small_catalog p) ew = (Inr cs, ew')" for p ew cs ew'
    using that by (cases p) (auto simp: once_catalog_def on_catalog_def)
qed

end
